(* ===== verification/Prelude.thy ===== *)
theory Prelude
  imports Main "HOL-Library.Word"
begin

text \<open>
  Shared vocabulary of the development: the C integer types as words of their
  width, byte strings, the constant-time byte comparison loop and the
  little-endian byte codecs that several modules of the source repeat, and the
  arithmetic facts on words (overflow-safe window tests, permission subsets)
  that carry the proofs about the capability and store modules.
\<close>

unbundle bit_operations_syntax

section \<open>C types\<close>

type_synonym u8 = "8 word"
type_synonym u16 = "16 word"
type_synonym u32 = "32 word"
type_synonym u64 = "64 word"
type_synonym bytes = "u8 list"

named_theorems perm_simps "permission constants of the canonical encoding"
named_theorems model_simps "record-valued model operations unfolded by the component proofs"

section \<open>Bit sets\<close>

definition bits_within :: "'a::len word \<Rightarrow> 'a word \<Rightarrow> bool" where
  "bits_within a b \<longleftrightarrow> a AND NOT b = 0"

lemma bits_within_iff_bit: "bits_within a b \<longleftrightarrow> (\<forall>n. bit a n \<longrightarrow> bit b n)"
proof
  assume "bits_within a b"
  then have "\<not> bit (a AND NOT b) n" for n
    by (simp add: bits_within_def)
  then show "\<forall>n. bit a n \<longrightarrow> bit b n"
    by (auto simp: bit_simps bit_imp_le_length)
next
  assume "\<forall>n. bit a n \<longrightarrow> bit b n"
  then have "a AND NOT b = 0"
    by (intro bit_eqI) (auto simp: bit_simps)
  then show "bits_within a b"
    by (simp add: bits_within_def)
qed

lemma bits_within_refl [simp, intro]: "bits_within a a"
  by (simp add: bits_within_iff_bit)

lemma bits_within_trans: "bits_within a b \<Longrightarrow> bits_within b c \<Longrightarrow> bits_within a c"
  by (simp add: bits_within_iff_bit)

lemma bits_within_antisym: "bits_within a b \<Longrightarrow> bits_within b a \<Longrightarrow> a = b"
  by (intro bit_eqI) (auto simp: bits_within_iff_bit)

lemma bits_within_and_eq: "b AND a = a \<longleftrightarrow> bits_within a b"
proof
  assume "b AND a = a"
  then have "bit (b AND a) n = bit a n" for n by simp
  then show "bits_within a b" by (auto simp: bits_within_iff_bit bit_simps)
next
  assume "bits_within a b"
  then show "b AND a = a"
    by (intro bit_eqI) (auto simp: bits_within_iff_bit bit_simps)
qed

lemma bits_within_or: "bits_within (a OR b) c \<longleftrightarrow> bits_within a c \<and> bits_within b c"
  by (auto simp: bits_within_iff_bit bit_simps)

lemma or_eq_zero_iff: "(a :: 'a::len word) OR b = 0 \<longleftrightarrow> a = 0 \<and> b = 0"
  by (auto simp: bit_eq_iff bit_simps)

lemma and_zero_mono: "bits_within a b \<Longrightarrow> b AND m = 0 \<Longrightarrow> a AND m = 0"
  by (auto simp: bits_within_iff_bit bit_eq_iff bit_simps)

lemma xor_eq_zero_iff: "(a :: 'a::len word) XOR b = 0 \<longleftrightarrow> a = b"
  by (auto simp: bit_eq_iff bit_simps)

section \<open>Overflow-safe windows\<close>

text \<open>
  The C code never computes \<open>base + length\<close> in a bounds test: it compares a
  difference first.  These facts turn the word tests into statements about the
  natural numbers the words denote.
\<close>

lemma unat_diff_le: "(b :: 'a::len word) \<le> a \<Longrightarrow> unat (a - b) = unat a - unat b"
  by (rule unat_sub)

lemma window_iff:
  fixes off len n :: "'a::len word"
  assumes "off \<le> len"
  shows "n \<le> len - off \<longleftrightarrow> unat off + unat n \<le> unat len"
  using assms by (auto simp: word_le_nat_alt unat_sub)

lemma window_sumD:
  fixes off len n :: "'a::len word"
  assumes "off \<le> len" and "n \<le> len - off"
  shows "unat off + unat n \<le> unat len"
  using assms window_iff by blast

lemma unat_lt2p: "unat (w :: 'a::len word) < 2 ^ LENGTH('a)"
  by (rule unsigned_less)

lemma sint_small: "unat (w :: u64) < 2 ^ 63 \<Longrightarrow> sint w = int (unat w)"
proof -
  assume a: "unat w < 2 ^ 63"
  have u: "uint w = int (unat w)" by simp
  have "int (unat w) < int (2 ^ 63)" using a by (simp only: of_nat_less_iff)
  then have "uint w < 2 ^ 63" by (simp only: u) simp
  then have "signed_take_bit 63 (uint w) = uint w" by (intro signed_take_bit_int_eq_self) (simp_all add: order_trans[OF _ uint_ge_0])
  then show ?thesis by (simp add: sint_uint del: signed_take_bit_int_eq_self)
qed

lemma unat_add_no_wrap:
  fixes a b :: "'a::len word"
  assumes "unat a + unat b < 2 ^ LENGTH('a)"
  shows "unat (a + b) = unat a + unat b"
  using assms by (simp add: unat_word_ariths)

section \<open>The byte comparison loop\<close>

text \<open>
  \<^verbatim>\<open>unsigned d = 0; for (i = 0; i < n; ++i) d |= (unsigned)(a[i] ^ b[i]);\<close>
\<close>

definition byte_diff :: "nat \<Rightarrow> bytes \<Rightarrow> bytes \<Rightarrow> u32" where
  "byte_diff n a b = foldl (\<lambda>d i. d OR ucast (a ! i XOR b ! i)) 0 [0..<n]"

lemma byte_diff_Suc:
  "byte_diff (Suc n) a b = byte_diff n a b OR ucast (a ! n XOR b ! n)"
  by (simp add: byte_diff_def)

lemma ucast_u8_u32_eq_0: "(ucast (x :: u8) :: u32) = 0 \<longleftrightarrow> x = 0"
proof
  assume "(ucast x :: u32) = 0"
  then have "bit (ucast x :: u32) n = False" for n by simp
  then show "x = 0" 
    by (intro bit_eqI) (auto simp: bit_simps)
qed simp

lemma byte_diff_eq_0_iff: "byte_diff n a b = 0 \<longleftrightarrow> (\<forall>i<n. a ! i = b ! i)"
  by (induction n)
     (auto simp: byte_diff_Suc or_eq_zero_iff ucast_u8_u32_eq_0 xor_eq_zero_iff less_Suc_eq,
      simp add: byte_diff_def)

lemma byte_diff_len_iff:
  assumes "length a = n" and "length b = n"
  shows "byte_diff n a b = 0 \<longleftrightarrow> a = b"
  using assms by (auto simp: byte_diff_eq_0_iff intro: nth_equalityI)

section \<open>Little-endian byte codecs\<close>

text \<open>
  \<open>le_bytes n w\<close> is the store loop \<^verbatim>\<open>out[i] = (uint8_t)(w >> (8*i))\<close> for
  \<open>i < n\<close>; \<open>le_word bs\<close> is the load expression
  \<^verbatim>\<open>b[0] | b[1] << 8 | b[2] << 16 | ...\<close>.
\<close>

definition le_bytes :: "nat \<Rightarrow> 'a::len word \<Rightarrow> bytes" where
  "le_bytes n w = map (\<lambda>i. ucast (drop_bit (8 * i) w)) [0..<n]"

fun le_word :: "bytes \<Rightarrow> 'a::len word" where
  "le_word [] = 0"
| "le_word (b # bs) = ucast b OR push_bit 8 (le_word bs)"

lemma length_le_bytes [simp]: "length (le_bytes n w) = n"
  by (simp add: le_bytes_def)

lemma nth_le_bytes [simp]: "i < n \<Longrightarrow> le_bytes n w ! i = ucast (drop_bit (8 * i) w)"
  by (simp add: le_bytes_def)

lemma bit_le_word:
  "bit (le_word bs :: 'a::len word) k \<longleftrightarrow>
     k < LENGTH('a) \<and> k div 8 < length bs \<and> bit (bs ! (k div 8)) (k mod 8)"
proof (induction bs arbitrary: k)
  case Nil
  then show ?case by simp
next
  case (Cons b bs)
  show ?case
  proof (cases "k < 8")
    case True
    then show ?thesis
      by (auto simp: bit_simps Cons.IH)
  next
    case False
    then have "k div 8 = Suc ((k - 8) div 8)" and "(k - 8) mod 8 = k mod 8"
      by (simp_all add: le_div_geq le_mod_geq)
    moreover have "\<not> bit b k"
      using False bit_imp_le_length[of b k] by auto
    ultimately show ?thesis
      using False by (auto simp: bit_simps Cons.IH)
  qed
qed

lemma le_word_le_bytes:
  fixes w :: "'a::len word"
  assumes "LENGTH('a) \<le> 8 * n"
  shows "le_word (le_bytes n w) = w"
proof (rule bit_word_eqI)
  fix k
  assume k: "k < LENGTH('a)"
  then have d: "k div 8 < n" using assms by auto
  have "bit (ucast (drop_bit (8 * (k div 8)) w) :: u8) (k mod 8) \<longleftrightarrow>
      k mod 8 < LENGTH(8) \<and> bit w (8 * (k div 8) + k mod 8)"
    by (simp only: bit_ucast_iff bit_drop_bit_eq o_def)
  then have "bit (ucast (drop_bit (8 * (k div 8)) w) :: u8) (k mod 8) \<longleftrightarrow> bit w k"
    by simp
  then show "bit (le_word (le_bytes n w) :: 'a word) k \<longleftrightarrow> bit w k"
    using k d by (simp add: bit_le_word)
qed

lemma le_bytes_le_word:
  assumes "8 * length bs \<le> LENGTH('a)"
  shows "le_bytes (length bs) (le_word bs :: 'a::len word) = bs"
proof (rule nth_equalityI)
  show "length (le_bytes (length bs) (le_word bs :: 'a word)) = length bs" by simp
next
  fix i
  assume "i < length (le_bytes (length bs) (le_word bs :: 'a word))"
  then have i: "i < length bs" by simp
  have "bit (ucast (drop_bit (8 * i) (le_word bs :: 'a word)) :: u8) j \<longleftrightarrow> bit (bs ! i) j" 
    if "j < 8" for j
  proof -
    have "8 * i + j < LENGTH('a)" using i that assms by linarith
    moreover have "(8 * i + j) div 8 = i" and "(8 * i + j) mod 8 = j"
      using that by auto
    ultimately show ?thesis
      using i that by (simp add: bit_le_word bit_simps)
  qed
  then show "le_bytes (length bs) (le_word bs :: 'a word) ! i = bs ! i"
    using i by (intro bit_word_eqI) simp
qed

section \<open>Arrays\<close>

text \<open>
  \<open>splice off src dst\<close> is the copy loop
  \<^verbatim>\<open>for (i = 0; i < len; ++i) dst[off + i] = src[i]\<close> over an array that is long
  enough; \<open>slice off len xs\<close> is the bytes \<^verbatim>\<open>xs[off .. off+len)\<close>.
\<close>

definition slice :: "nat \<Rightarrow> nat \<Rightarrow> 'a list \<Rightarrow> 'a list" where
  "slice off n xs = take n (drop off xs)"

definition splice :: "nat \<Rightarrow> 'a list \<Rightarrow> 'a list \<Rightarrow> 'a list" where
  "splice off src dst = take off dst @ src @ drop (off + length src) dst"

lemma length_slice [simp]: "length (slice off n xs) = min n (length xs - off)"
  by (simp add: slice_def)

lemma nth_slice [simp]: "i < n \<Longrightarrow> off + i < length xs \<Longrightarrow> slice off n xs ! i = xs ! (off + i)"
  by (simp add: slice_def)

lemma length_splice [simp]:
  "off + length src \<le> length dst \<Longrightarrow> length (splice off src dst) = length dst"
  by (simp add: splice_def)

lemma slice_splice_same:
  "off + length src \<le> length dst \<Longrightarrow> slice off (length src) (splice off src dst) = src"
  by (simp add: slice_def splice_def)

lemma slice_splice_before:
  "o1 + n \<le> off \<Longrightarrow> off + length src \<le> length dst \<Longrightarrow>
   slice o1 n (splice off src dst) = slice o1 n dst"
  by (simp add: slice_def splice_def drop_take)

lemma nth_splice:
  "off + length src \<le> length dst \<Longrightarrow> i < length dst \<Longrightarrow>
   splice off src dst ! i =
     (if i < off then dst ! i else if i < off + length src then src ! (i - off) else dst ! i)"
  by (auto simp: splice_def nth_append)

lemma nth_list_update_in:
  "j < length xs \<Longrightarrow> xs[i := x] ! j = (if i = j then x else xs ! j)"
  by (cases "i = j") simp_all

lemma slice_splice_disjoint:
  assumes "off + length src \<le> length dst" and "o1 + n \<le> off \<or> off + length src \<le> o1"
  shows "slice o1 n (splice off src dst) = slice o1 n dst"
  using assms by (intro nth_equalityI) (auto simp: nth_splice)

end
