(* ===== verification/Cap_Types.thy ===== *)
theory Cap_Types
  imports Prelude
begin

text \<open>
  The portable capability vocabulary of \<^verbatim>\<open>cap/cvsasx_pir.h\<close> and
  \<^verbatim>\<open>cap/cvsasx_cap.h\<close>: the canonical permission encoding, the status codes, the
  position-independent reference (PIR) that crosses a migration boundary, and
  the referent description that strip reads.  Both capability backends, the
  CHERI one and the software one, are built on these types.

  A C pointer argument that the code tests against NULL is an \<open>option\<close>; an
  out-pointer is the \<open>option\<close> of the previous contents, and the function returns
  the new contents.
\<close>

section \<open>Constants\<close>

definition CVSASX_BLAKE3_LEN :: nat where
  "CVSASX_BLAKE3_LEN = 32"

definition CVSASX_PIR_VERSION :: u32 where
  "CVSASX_PIR_VERSION = 1"

definition CVSASX_PERM_GLOBAL :: u32 where
  "CVSASX_PERM_GLOBAL = push_bit 0 1"

definition CVSASX_PERM_EXECUTE :: u32 where
  "CVSASX_PERM_EXECUTE = push_bit 1 1"

definition CVSASX_PERM_LOAD :: u32 where
  "CVSASX_PERM_LOAD = push_bit 2 1"

definition CVSASX_PERM_STORE :: u32 where
  "CVSASX_PERM_STORE = push_bit 3 1"

definition CVSASX_PERM_LOAD_CAP :: u32 where
  "CVSASX_PERM_LOAD_CAP = push_bit 4 1"

definition CVSASX_PERM_STORE_CAP :: u32 where
  "CVSASX_PERM_STORE_CAP = push_bit 5 1"

definition CVSASX_PERM_STORE_LOCAL_CAP :: u32 where
  "CVSASX_PERM_STORE_LOCAL_CAP = push_bit 6 1"

definition CVSASX_PERM_SEAL :: u32 where
  "CVSASX_PERM_SEAL = push_bit 7 1"

definition CVSASX_PERM_UNSEAL :: u32 where
  "CVSASX_PERM_UNSEAL = push_bit 8 1"

definition CVSASX_PERM_INVOKE :: u32 where
  "CVSASX_PERM_INVOKE = push_bit 9 1"

definition CVSASX_PERM_ACCESS_SYS_REGS :: u32 where
  "CVSASX_PERM_ACCESS_SYS_REGS = push_bit 10 1"

definition CVSASX_PERM_SET_CID :: u32 where
  "CVSASX_PERM_SET_CID = push_bit 11 1"

definition CVSASX_PERM_UNMODELLED :: u32 where
  "CVSASX_PERM_UNMODELLED = push_bit 31 1"

lemmas perm_bit_defs [perm_simps] =
  CVSASX_PERM_GLOBAL_def CVSASX_PERM_EXECUTE_def CVSASX_PERM_LOAD_def CVSASX_PERM_STORE_def
  CVSASX_PERM_LOAD_CAP_def CVSASX_PERM_STORE_CAP_def CVSASX_PERM_STORE_LOCAL_CAP_def
  CVSASX_PERM_SEAL_def CVSASX_PERM_UNSEAL_def CVSASX_PERM_INVOKE_def
  CVSASX_PERM_ACCESS_SYS_REGS_def CVSASX_PERM_SET_CID_def CVSASX_PERM_UNMODELLED_def

definition CVSASX_PERM_HOSTED_MASK :: u32 where
  "CVSASX_PERM_HOSTED_MASK =
     CVSASX_PERM_GLOBAL OR CVSASX_PERM_EXECUTE OR CVSASX_PERM_LOAD OR CVSASX_PERM_STORE OR
     CVSASX_PERM_LOAD_CAP OR CVSASX_PERM_STORE_CAP OR CVSASX_PERM_STORE_LOCAL_CAP"

definition CVSASX_PERM_WRITE_ANY :: u32 where
  "CVSASX_PERM_WRITE_ANY = CVSASX_PERM_STORE OR CVSASX_PERM_STORE_CAP"

text \<open>\<^verbatim>\<open>SW_FORBIDDEN_MASK\<close> and \<^verbatim>\<open>CVSASX_PERM_FORBIDDEN_MASK\<close> are the same expression.\<close>

definition CVSASX_PERM_FORBIDDEN_MASK :: u32 where
  "CVSASX_PERM_FORBIDDEN_MASK =
     CVSASX_PERM_SEAL OR CVSASX_PERM_UNSEAL OR CVSASX_PERM_INVOKE OR
     CVSASX_PERM_ACCESS_SYS_REGS OR CVSASX_PERM_SET_CID OR CVSASX_PERM_UNMODELLED"

lemmas perm_mask_defs [perm_simps] =
  CVSASX_PERM_HOSTED_MASK_def CVSASX_PERM_WRITE_ANY_def CVSASX_PERM_FORBIDDEN_MASK_def

definition CVSASX_OTYPE_CLASS_UNSEALED :: u32 where
  "CVSASX_OTYPE_CLASS_UNSEALED = 0"

definition CVSASX_OTYPE_CLASS_SENTRY :: u32 where
  "CVSASX_OTYPE_CLASS_SENTRY = 1"

definition CVSASX_OTYPE_CLASS_OPAQUE :: u32 where
  "CVSASX_OTYPE_CLASS_OPAQUE = 0xFFFFFFFF"

definition CVSASX_PIR_FLAG_REFERENT_VALID :: u8 where
  "CVSASX_PIR_FLAG_REFERENT_VALID = push_bit 0 1"

definition CVSASX_PIR_FLAG_WAS_SEALED :: u8 where
  "CVSASX_PIR_FLAG_WAS_SEALED = push_bit 1 1"

lemmas pir_const_defs [perm_simps] =
  CVSASX_BLAKE3_LEN_def CVSASX_PIR_VERSION_def CVSASX_OTYPE_CLASS_UNSEALED_def
  CVSASX_OTYPE_CLASS_SENTRY_def CVSASX_OTYPE_CLASS_OPAQUE_def
  CVSASX_PIR_FLAG_REFERENT_VALID_def CVSASX_PIR_FLAG_WAS_SEALED_def

section \<open>Status codes and records\<close>

datatype cvsasx_status =
    CVSASX_OK
  | CVSASX_ERR_NULL_ARG
  | CVSASX_ERR_VERSION
  | CVSASX_ERR_UNTAGGED
  | CVSASX_ERR_REFERENT_RANGE
  | CVSASX_WARN_SEALED_OUT_OF_SCOPE
  | CVSASX_ERR_BAD_ROOT
  | CVSASX_ERR_BAD_REGION
  | CVSASX_ERR_REFERENT_MISMATCH
  | CVSASX_ERR_BAD_BOUNDS
  | CVSASX_ERR_PERM_FORBIDDEN
  | CVSASX_ERR_WX_VIOLATION
  | CVSASX_ERR_AMPLIFY_PERMS
  | CVSASX_ERR_SEALED_UNSUPPORTED
  | CVSASX_ERR_DERIVE_UNTAGGED
  | CVSASX_ERR_VERIFY_BASE
  | CVSASX_ERR_VERIFY_LENGTH
  | CVSASX_ERR_VERIFY_PERMS
  | CVSASX_ERR_VERIFY_SEALED

record cvsasx_pir =
  referent_hash :: bytes
  pir_offset :: u64
  pir_length :: u64
  struct_version :: u32
  pir_perms :: u32
  otype_class :: u32
  pir_sealed :: u8
  pir_flags :: u8
  pir_reserved :: bytes

record cvsasx_referent =
  ref_hash :: bytes
  ref_base_addr :: u64
  ref_length :: u64

text \<open>The all-zero PIR image that both strip functions write first.\<close>

definition cvsasx_pir_zero :: cvsasx_pir where
  "cvsasx_pir_zero =
     \<lparr>referent_hash = replicate 32 0, pir_offset = 0, pir_length = 0, struct_version = 0,
      pir_perms = 0, otype_class = 0, pir_sealed = 0, pir_flags = 0,
      pir_reserved = replicate 2 0\<rparr>"

text \<open>Hash comparison of the capability modules (\<^verbatim>\<open>hash_eq\<close>, \<^verbatim>\<open>cvsasx_hash_eq\<close>).\<close>

definition hash_eq :: "bytes \<Rightarrow> bytes \<Rightarrow> bool" where
  "hash_eq a b \<longleftrightarrow> byte_diff CVSASX_BLAKE3_LEN a b = 0"

lemma hash_eq_iff:
  "length a = 32 \<Longrightarrow> length b = 32 \<Longrightarrow> hash_eq a b \<longleftrightarrow> a = b"
  by (simp add: hash_eq_def CVSASX_BLAKE3_LEN_def byte_diff_len_iff)

lemma hash_eq_refl [simp]: "hash_eq a a"
  by (simp add: hash_eq_def byte_diff_eq_0_iff)

section \<open>The permission policy\<close>

text \<open>What the re-mint policy admits: no privileged bit, and never write with execute.\<close>

definition perms_forbidden :: "u32 \<Rightarrow> bool" where
  "perms_forbidden p \<longleftrightarrow> p AND CVSASX_PERM_FORBIDDEN_MASK \<noteq> 0"

definition perms_wx :: "u32 \<Rightarrow> bool" where
  "perms_wx p \<longleftrightarrow> p AND CVSASX_PERM_EXECUTE \<noteq> 0 \<and> p AND CVSASX_PERM_WRITE_ANY \<noteq> 0"

definition perms_hosted :: "u32 \<Rightarrow> bool" where
  "perms_hosted p \<longleftrightarrow> \<not> perms_forbidden p \<and> \<not> perms_wx p"

lemma perms_hosted_mono: "perms_hosted q \<Longrightarrow> bits_within p q \<Longrightarrow> perms_hosted p"
  unfolding perms_hosted_def perms_forbidden_def perms_wx_def
  using and_zero_mono by blast

section \<open>The contract of a re-mint gate\<close>

text \<open>
  What every client of a gate relies on, whichever backend provides it: a
  successful mint yields a capability whose authority lies within the ceiling it
  was minted under, and every refusal leaves the output without authority.
  \<open>within\<close> is the authority preorder and \<open>powerless\<close> recognises the outputs that
  authorise nothing.
\<close>

locale remint_gate =
  fixes mint :: "'cust \<Rightarrow> 'pir \<Rightarrow> 'region \<Rightarrow> cvsasx_status \<times> 'cap"
    and ceiling :: "'region \<Rightarrow> 'cap"
    and root_of :: "'cust \<Rightarrow> 'cap"
    and within :: "'cap \<Rightarrow> 'cap \<Rightarrow> bool"
    and powerless :: "'cap \<Rightarrow> bool"
  assumes within_trans: "within a b \<Longrightarrow> within b c \<Longrightarrow> within a c"
    and mint_within: "mint cu p r = (CVSASX_OK, c) \<Longrightarrow> within c (ceiling r)"
    and mint_rooted: "mint cu p r = (CVSASX_OK, c) \<Longrightarrow> within (ceiling r) (root_of cu)"
    and mint_fail_closed: "mint cu p r = (s, c) \<Longrightarrow> s \<noteq> CVSASX_OK \<Longrightarrow> powerless c"
    and powerless_within: "powerless c \<Longrightarrow> within c d"
begin

lemma mint_root_bounded: "mint cu p r = (CVSASX_OK, c) \<Longrightarrow> within c (root_of cu)"
  using mint_within mint_rooted within_trans by blast

lemma mint_never_amplifies: "mint cu p r = (s, c) \<Longrightarrow> within c (ceiling r)"
  using mint_within mint_fail_closed powerless_within by (cases "s = CVSASX_OK") blast+

lemma mint_powerful_ok: "mint cu p r = (s, c) \<Longrightarrow> \<not> powerless c \<Longrightarrow> s = CVSASX_OK"
  using mint_fail_closed by blast

text \<open>A table whose slots are only ever written with gate outputs stays under the root.\<close>

lemma mint_table_bounded:
  assumes "\<forall>c \<in> set tbl. within c (root_of cu)" and "mint cu p r = (s, c)"
  shows "\<forall>d \<in> set (tbl[i := c]). within d (root_of cu)"
proof -
  have "within c (root_of cu)"
    using assms(2) mint_root_bounded mint_fail_closed powerless_within
    by (cases "s = CVSASX_OK") blast+
  then show ?thesis
    using assms(1) set_update_subset_insert[of tbl i c] by blast
qed

end

end
