(* ===== verification/SwCap.thy ===== *)
theory SwCap
  imports Cap_Types
begin

text \<open>
  The software capability backend, \<^verbatim>\<open>carmix/swcap.c\<close> and
  \<^verbatim>\<open>carmix/cvsasx_swcap.h\<close>: the handle \<open>{base, length, perms, valid}\<close>, the root
  custodian, strip, the re-mint gate and the run-time access check.  The theorems
  show the gate never mints authority beyond the region it was given, that every
  refusal is fail-closed, which requests are accepted exactly, that a stripped
  capability re-mints with the same window, and that an access the minted handle
  allows is one the region handle allowed.
\<close>

section \<open>Records\<close>

record cvsasx_swcap =
  sc_base :: u64
  sc_length :: u64
  sc_perms :: u32
  sc_valid :: u8

record cvsasx_sw_custodian =
  cu_root :: cvsasx_swcap
  cu_initialized :: u8

record cvsasx_sw_region =
  object_cap :: cvsasx_swcap
  object_base_addr :: u64
  object_length :: u64
  region_hash :: bytes

definition null_swcap :: cvsasx_swcap where
  "null_swcap = \<lparr>sc_base = 0, sc_length = 0, sc_perms = 0, sc_valid = 0\<rparr>"

section \<open>Operations\<close>

definition cvsasx_sw_custodian_init ::
  "cvsasx_sw_custodian option \<Rightarrow> cvsasx_swcap \<Rightarrow> cvsasx_status \<times> cvsasx_sw_custodian option" where
  "cvsasx_sw_custodian_init c root =
     (case c of
        None \<Rightarrow> (CVSASX_ERR_NULL_ARG, None)
      | Some cu \<Rightarrow>
          (let cu = cu\<lparr>cu_root := (cu_root cu)\<lparr>sc_valid := 0\<rparr>, cu_initialized := 0\<rparr>
           in if sc_valid root = 0 then (CVSASX_ERR_BAD_ROOT, Some cu)
              else (CVSASX_OK, Some (cu\<lparr>cu_root := root, cu_initialized := 1\<rparr>))))"

definition cvsasx_sw_cap_strip ::
  "cvsasx_swcap \<Rightarrow> cvsasx_referent option \<Rightarrow> cvsasx_pir option \<Rightarrow> cvsasx_status \<times> cvsasx_pir option" where
  "cvsasx_sw_cap_strip cap ref out =
     (case (out, ref) of
        (Some _, Some rf) \<Rightarrow>
          (let p0 = cvsasx_pir_zero\<lparr>struct_version := CVSASX_PIR_VERSION,
                                    otype_class := CVSASX_OTYPE_CLASS_OPAQUE\<rparr>;
               off = sc_base cap - ref_base_addr rf
           in if sc_valid cap = 0 then (CVSASX_ERR_UNTAGGED, Some p0)
              else if sc_base cap < ref_base_addr rf then (CVSASX_ERR_REFERENT_RANGE, Some p0)
              else if off > ref_length rf then (CVSASX_ERR_REFERENT_RANGE, Some p0)
              else if sc_length cap > ref_length rf - off then (CVSASX_ERR_REFERENT_RANGE, Some p0)
              else (CVSASX_OK,
                    Some (p0\<lparr>referent_hash := take 32 (ref_hash rf), pir_offset := off,
                             pir_length := sc_length cap, pir_perms := sc_perms cap,
                             otype_class := CVSASX_OTYPE_CLASS_UNSEALED, pir_sealed := 0,
                             pir_flags := CVSASX_PIR_FLAG_REFERENT_VALID\<rparr>)))
      | _ \<Rightarrow> (CVSASX_ERR_NULL_ARG, out))"

definition sw_check_region :: "cvsasx_sw_custodian \<Rightarrow> cvsasx_sw_region \<Rightarrow> cvsasx_status" where
  "sw_check_region cust r =
     (let off = sc_base (object_cap r) - sc_base (cu_root cust)
      in if sc_valid (object_cap r) = 0 then CVSASX_ERR_BAD_REGION
         else if sc_perms (object_cap r) AND NOT (sc_perms (cu_root cust)) \<noteq> 0
              then CVSASX_ERR_BAD_REGION
         else if sc_base (object_cap r) < sc_base (cu_root cust) then CVSASX_ERR_BAD_REGION
         else if off > sc_length (cu_root cust) then CVSASX_ERR_BAD_REGION
         else if sc_length (object_cap r) > sc_length (cu_root cust) - off
              then CVSASX_ERR_BAD_REGION
         else if sc_base (object_cap r) \<noteq> object_base_addr r then CVSASX_ERR_BAD_REGION
         else if sc_length (object_cap r) \<noteq> object_length r then CVSASX_ERR_BAD_REGION
         else CVSASX_OK)"

text \<open>The body of the gate, on arguments that passed the NULL tests.\<close>

definition sw_remint_body ::
  "cvsasx_sw_custodian \<Rightarrow> cvsasx_pir \<Rightarrow> cvsasx_sw_region \<Rightarrow> cvsasx_status \<times> cvsasx_swcap" where
  "sw_remint_body cust pir region =
     (if cu_initialized cust = 0 \<or> sc_valid (cu_root cust) = 0 then (CVSASX_ERR_BAD_ROOT, null_swcap)
      else if struct_version pir \<noteq> CVSASX_PIR_VERSION then (CVSASX_ERR_VERSION, null_swcap)
      else if pir_sealed pir \<noteq> 0 \<or> pir_flags pir AND CVSASX_PIR_FLAG_WAS_SEALED \<noteq> 0 \<or>
              otype_class pir \<noteq> CVSASX_OTYPE_CLASS_UNSEALED
           then (CVSASX_ERR_SEALED_UNSUPPORTED, null_swcap)
      else if pir_flags pir AND CVSASX_PIR_FLAG_REFERENT_VALID = 0
           then (CVSASX_ERR_REFERENT_MISMATCH, null_swcap)
      else if \<not> hash_eq (referent_hash pir) (region_hash region)
           then (CVSASX_ERR_REFERENT_MISMATCH, null_swcap)
      else if sw_check_region cust region \<noteq> CVSASX_OK
           then (sw_check_region cust region, null_swcap)
      else if pir_length pir = 0 then (CVSASX_ERR_BAD_BOUNDS, null_swcap)
      else if pir_offset pir > object_length region then (CVSASX_ERR_BAD_BOUNDS, null_swcap)
      else if pir_length pir > object_length region - pir_offset pir
           then (CVSASX_ERR_BAD_BOUNDS, null_swcap)
      else if pir_perms pir AND CVSASX_PERM_FORBIDDEN_MASK \<noteq> 0
           then (CVSASX_ERR_PERM_FORBIDDEN, null_swcap)
      else if pir_perms pir AND CVSASX_PERM_EXECUTE \<noteq> 0 \<and> pir_perms pir AND CVSASX_PERM_WRITE_ANY \<noteq> 0
           then (CVSASX_ERR_WX_VIOLATION, null_swcap)
      else if pir_perms pir AND NOT (sc_perms (object_cap region)) \<noteq> 0
           then (CVSASX_ERR_AMPLIFY_PERMS, null_swcap)
      else
        (let c = \<lparr>sc_base = sc_base (object_cap region) + pir_offset pir,
                  sc_length = pir_length pir, sc_perms = pir_perms pir, sc_valid = 1\<rparr>
         in if sc_valid c = 0 then (CVSASX_ERR_DERIVE_UNTAGGED, null_swcap)
            else if sc_base c \<noteq> sc_base (object_cap region) + pir_offset pir
                 then (CVSASX_ERR_VERIFY_BASE, null_swcap)
            else if sc_length c \<noteq> pir_length pir then (CVSASX_ERR_VERIFY_LENGTH, null_swcap)
            else if sc_perms c \<noteq> pir_perms pir then (CVSASX_ERR_VERIFY_PERMS, null_swcap)
            else (CVSASX_OK, c)))"

definition cvsasx_sw_cap_remint ::
  "cvsasx_sw_custodian option \<Rightarrow> cvsasx_pir option \<Rightarrow> cvsasx_sw_region option \<Rightarrow>
   cvsasx_swcap option \<Rightarrow> cvsasx_status \<times> cvsasx_swcap option" where
  "cvsasx_sw_cap_remint cust pir region out =
     (case out of
        None \<Rightarrow> (CVSASX_ERR_NULL_ARG, None)
      | Some _ \<Rightarrow>
          (case (cust, pir, region) of
             (Some cu, Some p, Some r) \<Rightarrow> map_prod id Some (sw_remint_body cu p r)
           | _ \<Rightarrow> (CVSASX_ERR_NULL_ARG, Some null_swcap)))"

definition cvsasx_swcap_check :: "cvsasx_swcap option \<Rightarrow> u64 \<Rightarrow> u64 \<Rightarrow> u32 \<Rightarrow> bool" where
  "cvsasx_swcap_check c offset sz need_perms =
     (case c of
        None \<Rightarrow> False
      | Some c \<Rightarrow>
          (if sc_valid c = 0 then False
           else if sc_perms c AND need_perms \<noteq> need_perms then False
           else if offset > sc_length c then False
           else if sz > sc_length c - offset then False
           else True))"

section \<open>Authority\<close>

text \<open>The addresses a handle spans, and the authority order on handles.\<close>

definition cap_addrs :: "cvsasx_swcap \<Rightarrow> u64 set" where
  "cap_addrs c = (\<lambda>k. sc_base c + of_nat k) ` {..<unat (sc_length c)}"

definition cap_within :: "cvsasx_swcap \<Rightarrow> cvsasx_swcap \<Rightarrow> bool" where
  "cap_within a b \<longleftrightarrow>
     sc_valid a = 0 \<or>
     sc_valid b \<noteq> 0 \<and> bits_within (sc_perms a) (sc_perms b) \<and> cap_addrs a \<subseteq> cap_addrs b"

lemma cap_within_refl [simp]: "cap_within a a"
  by (auto simp: cap_within_def)

lemma cap_within_trans: "cap_within a b \<Longrightarrow> cap_within b c \<Longrightarrow> cap_within a c"
  unfolding cap_within_def using bits_within_trans by blast

lemma cap_addrs_window:
  assumes "off \<le> len" and "n \<le> len - off"
  shows "cap_addrs \<lparr>sc_base = b + off, sc_length = n, sc_perms = p, sc_valid = v\<rparr>
         \<subseteq> cap_addrs \<lparr>sc_base = b, sc_length = len, sc_perms = q, sc_valid = w\<rparr>"
proof
  fix x
  assume "x \<in> cap_addrs \<lparr>sc_base = b + off, sc_length = n, sc_perms = p, sc_valid = v\<rparr>"
  then obtain k where k: "k < unat n" and x: "x = b + off + of_nat k"
    by (auto simp: cap_addrs_def)
  have "unat off + unat n \<le> unat len"
    using assms by (rule window_sumD)
  then have "unat off + k < unat len" using k by simp
  moreover have "x = b + of_nat (unat off + k)"
    by (simp add: x)
  ultimately show "x \<in> cap_addrs \<lparr>sc_base = b, sc_length = len, sc_perms = q, sc_valid = w\<rparr>"
    by (auto simp: cap_addrs_def intro!: image_eqI[where x = "unat off + k"])
qed

lemma cap_addrs_cong:
  "sc_base a = sc_base b \<Longrightarrow> sc_length a = sc_length b \<Longrightarrow> cap_addrs a = cap_addrs b"
  by (simp add: cap_addrs_def)

lemma cap_addrs_windowI:
  assumes "sc_base a = sc_base b + off" and "off \<le> sc_length b" and "sc_length a \<le> sc_length b - off"
  shows "cap_addrs a \<subseteq> cap_addrs b"
proof -
  have "cap_addrs a = cap_addrs \<lparr>sc_base = sc_base b + off, sc_length = sc_length a, sc_perms = 0, sc_valid = 0\<rparr>"
    using assms(1) by (intro cap_addrs_cong) simp_all
  also have "\<dots> \<subseteq> cap_addrs \<lparr>sc_base = sc_base b, sc_length = sc_length b, sc_perms = 0, sc_valid = 0\<rparr>"
    using assms(2,3) by (rule cap_addrs_window)
  also have "\<dots> = cap_addrs b" by (intro cap_addrs_cong) simp_all
  finally show ?thesis .
qed

section \<open>The region test\<close>

lemma sw_check_region_cases:
  "sw_check_region cu r = CVSASX_OK \<or> sw_check_region cu r = CVSASX_ERR_BAD_REGION"
  by (simp add: sw_check_region_def Let_def)

lemma sw_check_region_ok_iff:
  "sw_check_region cu r = CVSASX_OK \<longleftrightarrow>
     sc_valid (object_cap r) \<noteq> 0 \<and>
     bits_within (sc_perms (object_cap r)) (sc_perms (cu_root cu)) \<and>
     sc_base (cu_root cu) \<le> sc_base (object_cap r) \<and>
     unat (sc_base (object_cap r)) + unat (sc_length (object_cap r))
       \<le> unat (sc_base (cu_root cu)) + unat (sc_length (cu_root cu)) \<and>
     sc_base (object_cap r) = object_base_addr r \<and> sc_length (object_cap r) = object_length r"
  (is "?l \<longleftrightarrow> ?r")
proof -
  let ?b = "sc_base (object_cap r)" and ?rb = "sc_base (cu_root cu)"
    and ?n = "sc_length (object_cap r)" and ?len = "sc_length (cu_root cu)"
  have win: "?b - ?rb \<le> ?len \<and> ?n \<le> ?len - (?b - ?rb) \<longleftrightarrow>
      unat ?b + unat ?n \<le> unat ?rb + unat ?len" if "?rb \<le> ?b"
  proof -
    have u: "unat (?b - ?rb) = unat ?b - unat ?rb" and le: "unat ?rb \<le> unat ?b"
      using that by (simp_all add: unat_diff_le word_le_nat_alt)
    have "?b - ?rb \<le> ?len \<and> ?n \<le> ?len - (?b - ?rb) \<longleftrightarrow>
        ?b - ?rb \<le> ?len \<and> unat (?b - ?rb) + unat ?n \<le> unat ?len"
      using window_iff by blast
    also have "\<dots> \<longleftrightarrow> unat ?b + unat ?n \<le> unat ?rb + unat ?len"
      using u le by (auto simp: word_le_nat_alt)
    finally show ?thesis .
  qed
  show ?thesis
    unfolding sw_check_region_def Let_def bits_within_def
    using win by (auto simp: not_less)
qed

lemma sw_check_region_within:
  assumes "sw_check_region cu r = CVSASX_OK" and "sc_valid (cu_root cu) \<noteq> 0"
  shows "cap_within (object_cap r) (cu_root cu)"
proof -
  let ?off = "sc_base (object_cap r) - sc_base (cu_root cu)"
  have "?off \<le> sc_length (cu_root cu)" and "sc_length (object_cap r) \<le> sc_length (cu_root cu) - ?off"
    using assms(1) by (auto simp: sw_check_region_def Let_def not_less split: if_splits)
  then have "cap_addrs (object_cap r) \<subseteq> cap_addrs (cu_root cu)"
    by (intro cap_addrs_windowI[where off = ?off]) simp_all
  then show ?thesis
    using assms by (simp add: cap_within_def sw_check_region_ok_iff)
qed

section \<open>The gate\<close>

definition sw_header_ok :: "cvsasx_sw_custodian \<Rightarrow> cvsasx_pir \<Rightarrow> cvsasx_sw_region \<Rightarrow> bool" where
  "sw_header_ok cu p r \<longleftrightarrow>
     cu_initialized cu \<noteq> 0 \<and> sc_valid (cu_root cu) \<noteq> 0 \<and>
     struct_version p = CVSASX_PIR_VERSION \<and>
     pir_sealed p = 0 \<and> pir_flags p AND CVSASX_PIR_FLAG_WAS_SEALED = 0 \<and>
     otype_class p = CVSASX_OTYPE_CLASS_UNSEALED \<and>
     pir_flags p AND CVSASX_PIR_FLAG_REFERENT_VALID \<noteq> 0 \<and>
     hash_eq (referent_hash p) (region_hash r)"

definition sw_minted :: "cvsasx_pir \<Rightarrow> cvsasx_sw_region \<Rightarrow> cvsasx_swcap" where
  "sw_minted p r = \<lparr>sc_base = sc_base (object_cap r) + pir_offset p, sc_length = pir_length p,
                    sc_perms = pir_perms p, sc_valid = 1\<rparr>"

lemma sw_remint_body_ok_iff:
  "sw_remint_body cu p r = (CVSASX_OK, c) \<longleftrightarrow>
     sw_header_ok cu p r \<and> sw_check_region cu r = CVSASX_OK \<and>
     pir_length p \<noteq> 0 \<and>
     unat (pir_offset p) + unat (pir_length p) \<le> unat (object_length r) \<and>
     perms_hosted (pir_perms p) \<and>
     bits_within (pir_perms p) (sc_perms (object_cap r)) \<and>
     c = sw_minted p r"
proof -
  have win: "pir_offset p \<le> object_length r \<and> pir_length p \<le> object_length r - pir_offset p \<longleftrightarrow>
      unat (pir_offset p) + unat (pir_length p) \<le> unat (object_length r)"
    using window_iff[of "pir_offset p" "object_length r" "pir_length p"]
    by (auto simp: word_le_nat_alt)
  show ?thesis
    unfolding sw_remint_body_def Let_def sw_header_ok_def sw_minted_def perms_hosted_def
      perms_forbidden_def perms_wx_def bits_within_def
    using win by (auto simp: not_less)
qed

lemma sw_remint_body_fail: "sw_remint_body cu p r = (s, c) \<Longrightarrow> s \<noteq> CVSASX_OK \<Longrightarrow> c = null_swcap"
  by (auto simp: sw_remint_body_def Let_def split: if_splits)

lemma null_swcap_within [simp]: "cap_within null_swcap d"
  by (simp add: null_swcap_def cap_within_def)

lemma sw_remint_body_within:
  assumes "sw_remint_body cu p r = (CVSASX_OK, c)"
  shows "cap_within c (object_cap r)"
proof -
  from assms have a: "sw_check_region cu r = CVSASX_OK" "c = sw_minted p r"
      "bits_within (pir_perms p) (sc_perms (object_cap r))"
      "unat (pir_offset p) + unat (pir_length p) \<le> unat (object_length r)"
    by (simp_all add: sw_remint_body_ok_iff)
  then have len: "object_length r = sc_length (object_cap r)" and "sc_valid (object_cap r) \<noteq> 0"
    by (simp_all add: sw_check_region_ok_iff)
  have "pir_offset p \<le> sc_length (object_cap r)"
    using a(4) len by (simp add: word_le_nat_alt)
  moreover from this have "pir_length p \<le> sc_length (object_cap r) - pir_offset p"
    using a(4) len by (simp add: window_iff)
  ultimately have "cap_addrs c \<subseteq> cap_addrs (object_cap r)"
    using a(2) by (intro cap_addrs_windowI[where off = "pir_offset p"]) (simp_all add: sw_minted_def)
  then show ?thesis
    using a \<open>sc_valid (object_cap r) \<noteq> 0\<close> by (simp add: cap_within_def sw_minted_def)
qed

lemma sw_remint_body_rooted:
  assumes "sw_remint_body cu p r = (CVSASX_OK, c)"
  shows "cap_within (object_cap r) (cu_root cu)"
  using assms sw_check_region_within by (simp add: sw_remint_body_ok_iff sw_header_ok_def)

interpretation sw_gate: remint_gate sw_remint_body object_cap cu_root cap_within "\<lambda>c. sc_valid c = 0"
proof unfold_locales
  show "cap_within a c" if "cap_within a b" "cap_within b c" for a b c
    using that by (rule cap_within_trans)
  show "cap_within c (object_cap r)" if "sw_remint_body cu p r = (CVSASX_OK, c)" for cu p r c
    using that by (rule sw_remint_body_within)
  show "cap_within (object_cap r) (cu_root cu)" if "sw_remint_body cu p r = (CVSASX_OK, c)" for cu p r c
    using that by (rule sw_remint_body_rooted)
  show "sc_valid c = 0" if "sw_remint_body cu p r = (s, c)" "s \<noteq> CVSASX_OK" for cu p r s c
    using sw_remint_body_fail[OF that] by (simp add: null_swcap_def)
  show "cap_within c d" if "sc_valid c = 0" for c d
    using that by (simp add: cap_within_def)
qed

lemma remint_some_eq:
  "cvsasx_sw_cap_remint (Some cu) (Some p) (Some r) (Some old) = map_prod id Some (sw_remint_body cu p r)"
  by (simp add: cvsasx_sw_cap_remint_def)

lemma remint_ok_cases:
  assumes "cvsasx_sw_cap_remint cust pir region out = (CVSASX_OK, out')"
  obtains cu p r c where "cust = Some cu" "pir = Some p" "region = Some r" "out' = Some c"
    "sw_remint_body cu p r = (CVSASX_OK, c)"
  using assms by (auto simp: cvsasx_sw_cap_remint_def map_prod_def split: option.splits prod.splits)

section \<open>Strip\<close>

lemma sw_strip_ok_iff:
  "cvsasx_sw_cap_strip cap (Some rf) (Some old) = (CVSASX_OK, Some p) \<longleftrightarrow>
     sc_valid cap \<noteq> 0 \<and> ref_base_addr rf \<le> sc_base cap \<and>
     unat (sc_base cap) + unat (sc_length cap) \<le> unat (ref_base_addr rf) + unat (ref_length rf) \<and>
     p = cvsasx_pir_zero\<lparr>struct_version := CVSASX_PIR_VERSION, referent_hash := take 32 (ref_hash rf),
           pir_offset := sc_base cap - ref_base_addr rf, pir_length := sc_length cap,
           pir_perms := sc_perms cap, otype_class := CVSASX_OTYPE_CLASS_UNSEALED, pir_sealed := 0,
           pir_flags := CVSASX_PIR_FLAG_REFERENT_VALID\<rparr>"
proof -
  let ?off = "sc_base cap - ref_base_addr rf"
  have win: "?off \<le> ref_length rf \<and> sc_length cap \<le> ref_length rf - ?off \<longleftrightarrow>
      unat (sc_base cap) + unat (sc_length cap) \<le> unat (ref_base_addr rf) + unat (ref_length rf)"
    if "ref_base_addr rf \<le> sc_base cap"
  proof -
    have u: "unat ?off = unat (sc_base cap) - unat (ref_base_addr rf)"
      and le: "unat (ref_base_addr rf) \<le> unat (sc_base cap)"
      using that by (simp_all add: unat_diff_le word_le_nat_alt)
    have "?off \<le> ref_length rf \<and> sc_length cap \<le> ref_length rf - ?off \<longleftrightarrow>
        ?off \<le> ref_length rf \<and> unat ?off + unat (sc_length cap) \<le> unat (ref_length rf)"
      using window_iff by blast
    then show ?thesis using u le by (auto simp: word_le_nat_alt)
  qed
  show ?thesis
    unfolding cvsasx_sw_cap_strip_def Let_def
    using win by (auto simp: not_less cvsasx_pir_zero_def)
qed

lemma sw_strip_header:
  assumes "cvsasx_sw_cap_strip cap (Some rf) (Some old) = (CVSASX_OK, Some p)"
    and "cu_initialized cu \<noteq> 0" and "sc_valid (cu_root cu) \<noteq> 0"
    and "region_hash r = take 32 (ref_hash rf)"
  shows "sw_header_ok cu p r"
  using assms by (simp add: sw_strip_ok_iff sw_header_ok_def pir_const_defs)

section \<open>Properties\<close>

text \<open>
  C1: anti-amplification.  When the software gate returns OK, all its arguments were
  present, the minted handle is live, its addresses and permissions lie within the
  region handle and within the custodian root, and its permissions are clean (no
  forbidden bit, never writable and executable).
\<close>

theorem sw_remint_anti_amplification:
  assumes "cvsasx_sw_cap_remint cust pir region out = (CVSASX_OK, out')"
  shows "\<exists>cu p r c. cust = Some cu \<and> pir = Some p \<and> region = Some r \<and> out' = Some c \<and>
           sc_valid c \<noteq> 0 \<and> cap_within c (object_cap r) \<and> cap_within c (cu_root cu) \<and>
           perms_hosted (sc_perms c)"
proof -
  from assms obtain cu p r c where eqs: "cust = Some cu" "pir = Some p" "region = Some r" "out' = Some c"
    and body: "sw_remint_body cu p r = (CVSASX_OK, c)"
    by (rule remint_ok_cases)
  from body have "sc_valid c \<noteq> 0" and "perms_hosted (sc_perms c)"
    by (auto simp: sw_remint_body_ok_iff sw_minted_def)
  with eqs sw_gate.mint_within[OF body] sw_gate.mint_root_bounded[OF body] show ?thesis
    by blast
qed

definition ex_root :: cvsasx_swcap where
  "ex_root = \<lparr>sc_base = 0x1000, sc_length = 0x1000,
              sc_perms = CVSASX_PERM_LOAD OR CVSASX_PERM_STORE OR CVSASX_PERM_GLOBAL, sc_valid = 1\<rparr>"

definition ex_cust :: cvsasx_sw_custodian where
  "ex_cust = \<lparr>cu_root = ex_root, cu_initialized = 1\<rparr>"

definition ex_region :: cvsasx_sw_region where
  "ex_region = \<lparr>object_cap = ex_root\<lparr>sc_base := 0x1100, sc_length := 0x100\<rparr>,
                object_base_addr = 0x1100, object_length = 0x100, region_hash = replicate 32 7\<rparr>"

definition ex_pir :: cvsasx_pir where
  "ex_pir = cvsasx_pir_zero\<lparr>referent_hash := replicate 32 7, pir_offset := 0x10, pir_length := 0x20,
              struct_version := CVSASX_PIR_VERSION, pir_perms := CVSASX_PERM_LOAD,
              pir_flags := CVSASX_PIR_FLAG_REFERENT_VALID\<rparr>"

definition ex_minted :: cvsasx_swcap where
  "ex_minted = \<lparr>sc_base = 0x1110, sc_length = 0x20, sc_perms = CVSASX_PERM_LOAD, sc_valid = 1\<rparr>"

lemmas ex_defs = ex_root_def ex_cust_def ex_region_def ex_pir_def ex_minted_def

lemma ex_remint:
  "cvsasx_sw_cap_remint (Some ex_cust) (Some ex_pir) (Some ex_region) (Some null_swcap)
     = (CVSASX_OK, Some ex_minted)"
  by (simp add: remint_some_eq sw_remint_body_def sw_check_region_def ex_defs cvsasx_pir_zero_def
        pir_const_defs perm_simps)

theorem sw_remint_anti_amplification_witness:
  "cap_within ex_minted (object_cap ex_region) \<and> cap_within ex_minted (cu_root ex_cust) \<and>
   perms_hosted (sc_perms ex_minted)"
  using sw_remint_anti_amplification[OF ex_remint] by simp

text \<open>
  the exact acceptance condition of the software gate, over the naturals: it accepts
  if and only if the header tests pass, the region handle lies inside the root and
  bounds exactly its object, the requested window is non-empty and inside the object
  (no wrap-around), and the requested permissions are clean and a subset of the region's.
\<close>

theorem sw_remint_accepts_iff:
  "fst (cvsasx_sw_cap_remint (Some cu) (Some p) (Some r) (Some old)) = CVSASX_OK \<longleftrightarrow>
     sw_header_ok cu p r \<and>
     (sc_valid (object_cap r) \<noteq> 0 \<and>
      bits_within (sc_perms (object_cap r)) (sc_perms (cu_root cu)) \<and>
      sc_base (cu_root cu) \<le> sc_base (object_cap r) \<and>
      unat (sc_base (object_cap r)) + unat (sc_length (object_cap r))
        \<le> unat (sc_base (cu_root cu)) + unat (sc_length (cu_root cu)) \<and>
      sc_base (object_cap r) = object_base_addr r \<and> sc_length (object_cap r) = object_length r) \<and>
     pir_length p \<noteq> 0 \<and>
     unat (pir_offset p) + unat (pir_length p) \<le> unat (object_length r) \<and>
     perms_hosted (pir_perms p) \<and> bits_within (pir_perms p) (sc_perms (object_cap r))"
proof -
  have "fst (cvsasx_sw_cap_remint (Some cu) (Some p) (Some r) (Some old)) = CVSASX_OK \<longleftrightarrow>
      (\<exists>c. sw_remint_body cu p r = (CVSASX_OK, c))"
    by (cases "sw_remint_body cu p r") (simp add: remint_some_eq)
  then show ?thesis
    unfolding sw_remint_body_ok_iff sw_check_region_ok_iff by blast
qed

text \<open>
  fail-closed.  Whenever the gate does not return OK, the caller's output handle (when
  there is one) has been overwritten by the all-zero, invalid handle, and no access
  through it is ever allowed.
\<close>

theorem sw_remint_fail_closed:
  assumes "cvsasx_sw_cap_remint cust pir region (Some old) = (s, out')" and "s \<noteq> CVSASX_OK"
  shows "out' = Some null_swcap \<and> \<not> cvsasx_swcap_check out' off sz need"
proof -
  have "out' = Some null_swcap"
    using assms sw_remint_body_fail
    by (auto simp: cvsasx_sw_cap_remint_def map_prod_def split: option.splits prod.splits)
  then show ?thesis by (simp add: cvsasx_swcap_check_def null_swcap_def)
qed

theorem sw_remint_fail_closed_witness:
  "cvsasx_sw_cap_remint (Some ex_cust) (Some (ex_pir\<lparr>pir_length := 0x200\<rparr>)) (Some ex_region) (Some ex_root)
     = (CVSASX_ERR_BAD_BOUNDS, Some null_swcap) \<and>
   \<not> cvsasx_swcap_check (Some null_swcap) 0 0 0"
proof -
  have e: "cvsasx_sw_cap_remint (Some ex_cust) (Some (ex_pir\<lparr>pir_length := 0x200\<rparr>)) (Some ex_region) (Some ex_root)
     = (CVSASX_ERR_BAD_BOUNDS, Some null_swcap)"
    by (simp add: remint_some_eq sw_remint_body_def sw_check_region_def ex_defs cvsasx_pir_zero_def
          pir_const_defs perm_simps)
  show ?thesis using e sw_remint_fail_closed[OF e, of 0 0 0] by simp
qed

text \<open>
  C34: strip then re-mint at a destination that instantiates the same object (same content
  hash, same length, any base) returns a live handle with the same object-relative
  offset, the same length and the same permissions.
\<close>

theorem sw_strip_remint_roundtrip:
  assumes strip: "cvsasx_sw_cap_strip cap (Some rf) (Some o1) = (CVSASX_OK, Some p)"
    and cust: "cu_initialized cu \<noteq> 0" "sc_valid (cu_root cu) \<noteq> 0"
    and region: "sw_check_region cu r = CVSASX_OK" "region_hash r = take 32 (ref_hash rf)"
      "object_length r = ref_length rf"
    and cap: "sc_length cap \<noteq> 0" "perms_hosted (sc_perms cap)"
      "bits_within (sc_perms cap) (sc_perms (object_cap r))"
  shows "\<exists>c. cvsasx_sw_cap_remint (Some cu) (Some p) (Some r) (Some o2) = (CVSASX_OK, Some c) \<and>
           sc_valid c = 1 \<and> sc_base c - sc_base (object_cap r) = sc_base cap - ref_base_addr rf \<and>
           sc_length c = sc_length cap \<and> sc_perms c = sc_perms cap"
proof -
  from strip have le: "ref_base_addr rf \<le> sc_base cap"
    and sum: "unat (sc_base cap) + unat (sc_length cap) \<le> unat (ref_base_addr rf) + unat (ref_length rf)"
    and p: "pir_offset p = sc_base cap - ref_base_addr rf" "pir_length p = sc_length cap"
      "pir_perms p = sc_perms cap"
    by (simp_all add: sw_strip_ok_iff)
  have "unat (pir_offset p) + unat (pir_length p) \<le> unat (object_length r)"
    using sum le region(3) by (simp add: p unat_diff_le word_le_nat_alt)
  then have "sw_remint_body cu p r = (CVSASX_OK, sw_minted p r)"
    using sw_strip_header[OF strip cust region(2)] region(1) cap p
    by (simp add: sw_remint_body_ok_iff)
  then show ?thesis
    by (simp add: remint_some_eq sw_minted_def p)
qed

theorem sw_strip_remint_roundtrip_witness:
  "\<exists>c. cvsasx_sw_cap_remint (Some ex_cust)
         (snd (cvsasx_sw_cap_strip (ex_root\<lparr>sc_base := 0x5010, sc_length := 0x20\<rparr>)
                 (Some \<lparr>ref_hash = replicate 32 7, ref_base_addr = 0x5000, ref_length = 0x100\<rparr>)
                 (Some cvsasx_pir_zero)))
         (Some ex_region) (Some null_swcap) = (CVSASX_OK, Some c) \<and> sc_base c = 0x1110 \<and> sc_length c = 0x20"
proof -
  let ?cap = "ex_root\<lparr>sc_base := 0x5010, sc_length := 0x20\<rparr>"
  let ?rf = "\<lparr>ref_hash = replicate 32 7, ref_base_addr = 0x5000, ref_length = 0x100\<rparr>"
  obtain p where p: "cvsasx_sw_cap_strip ?cap (Some ?rf) (Some cvsasx_pir_zero) = (CVSASX_OK, Some p)"
    by (simp add: cvsasx_sw_cap_strip_def ex_root_def)
  have "\<exists>c. cvsasx_sw_cap_remint (Some ex_cust) (Some p) (Some ex_region) (Some null_swcap) = (CVSASX_OK, Some c) \<and>
           sc_valid c = 1 \<and> sc_base c - sc_base (object_cap ex_region) = sc_base ?cap - ref_base_addr ?rf \<and>
           sc_length c = sc_length ?cap \<and> sc_perms c = sc_perms ?cap"
    by (rule sw_strip_remint_roundtrip[OF p])
       (simp_all add: ex_defs sw_check_region_def perms_hosted_def perms_forbidden_def perms_wx_def
          bits_within_def perm_simps)
  then obtain c where c: "cvsasx_sw_cap_remint (Some ex_cust) (Some p) (Some ex_region) (Some null_swcap) = (CVSASX_OK, Some c)"
    and "sc_base c - 0x1100 = 0x10" and "sc_length c = 0x20"
    by (auto simp: ex_defs)
  then have "sc_base c = 0x10 + 0x1100"
    by (simp add: diff_eq_eq)
  with c p \<open>sc_length c = 0x20\<close> show ?thesis
    by simp
qed

text \<open>
  run-time monotonicity.  Every access that the SFI check allows through a re-minted
  handle is an access the check allows through the region handle at the PIR's offset,
  and the sum of the offsets does not wrap.
\<close>

theorem sw_remint_access_monotone:
  assumes mint: "cvsasx_sw_cap_remint (Some cu) (Some p) (Some r) (Some old) = (CVSASX_OK, Some c)"
    and acc: "cvsasx_swcap_check (Some c) off sz need"
  shows "cvsasx_swcap_check (Some (object_cap r)) (pir_offset p + off) sz need \<and>
         unat (pir_offset p + off) = unat (pir_offset p) + unat off"
proof -
  from mint have body: "sw_remint_body cu p r = (CVSASX_OK, c)"
    by (cases "sw_remint_body cu p r") (simp add: remint_some_eq)
  then have c: "c = sw_minted p r" and len: "object_length r = sc_length (object_cap r)"
    and sum: "unat (pir_offset p) + unat (pir_length p) \<le> unat (object_length r)"
    and per: "bits_within (pir_perms p) (sc_perms (object_cap r))"
    and v: "sc_valid (object_cap r) \<noteq> 0"
    by (auto simp: sw_remint_body_ok_iff sw_check_region_ok_iff)
  from acc c have need: "bits_within need (pir_perms p)"
    and o: "unat off + unat sz \<le> unat (pir_length p)"
    by (auto simp: cvsasx_swcap_check_def sw_minted_def bits_within_and_eq not_less window_sumD
          split: if_splits)
  have nw: "unat (pir_offset p + off) = unat (pir_offset p) + unat off"
    using sum o unat_lt2p[of "object_length r"] by (intro unat_add_no_wrap) linarith
  have le: "pir_offset p + off \<le> sc_length (object_cap r)"
    using nw sum o len by (simp add: word_le_nat_alt)
  have "sz \<le> sc_length (object_cap r) - (pir_offset p + off)"
    using nw sum o len by (simp add: window_iff[OF le])
  then show ?thesis
    using le nw v bits_within_trans[OF need per]
    by (simp add: cvsasx_swcap_check_def bits_within_and_eq not_less)
qed

theorem sw_remint_access_monotone_witness:
  "cvsasx_swcap_check (Some ex_minted) 8 4 CVSASX_PERM_LOAD \<and>
   cvsasx_swcap_check (Some (object_cap ex_region)) 0x18 4 CVSASX_PERM_LOAD"
proof -
  have a: "cvsasx_swcap_check (Some ex_minted) 8 4 CVSASX_PERM_LOAD"
    by (simp add: cvsasx_swcap_check_def ex_minted_def perm_simps)
  have "pir_offset ex_pir + 8 = 0x18" by (simp add: ex_pir_def)
  with a sw_remint_access_monotone[OF ex_remint a] show ?thesis by simp
qed

end
