(* ===== verification/CheriCap.thy ===== *)
theory CheriCap
  imports SwCap
begin

text \<open>
  The CHERI capability backend, \<^verbatim>\<open>cap/cap_strip.c\<close> and \<^verbatim>\<open>cap/cap_custodian.c\<close>.
  The compiler builtins and the constants of \<^verbatim>\<open>cheriintrin.h\<close> are not part of the
  repository: they are the fields of a record \<open>cheri\<close> that every definition takes as
  an argument.  The soundness theorem needs no hypothesis about them at all, because
  the gate re-reads the capability it derived and refuses any divergence.  Facts that
  do depend on the instruction set (the permission bits are distinct) are stated with
  the locale \<open>cheri_perm_layout\<close>, and an exact, uncompressed instruction set
  instantiates the record to compare the two backends.
\<close>

section \<open>The instruction set as a parameter\<close>

record 'c cheri =
  tag_get :: "'c \<Rightarrow> bool"
  base_get :: "'c \<Rightarrow> u64"
  length_get :: "'c \<Rightarrow> u64"
  perms_get :: "'c \<Rightarrow> u64"
  type_get :: "'c \<Rightarrow> u64"
  sealed_get :: "'c \<Rightarrow> bool"
  address_set :: "'c \<Rightarrow> u64 \<Rightarrow> 'c"
  bounds_set_exact :: "'c \<Rightarrow> u64 \<Rightarrow> 'c"
  perms_and :: "'c \<Rightarrow> u64 \<Rightarrow> 'c"
  null_cap :: 'c
  CHERI_PERM_GLOBAL :: u64
  CHERI_PERM_EXECUTE :: u64
  CHERI_PERM_LOAD :: u64
  CHERI_PERM_STORE :: u64
  CHERI_PERM_LOAD_CAP :: u64
  CHERI_PERM_STORE_CAP :: u64
  CHERI_PERM_STORE_LOCAL_CAP :: u64
  CHERI_OTYPE_SENTRY :: u64

record 'c cvsasx_region =
  rg_object_cap :: 'c
  rg_base_addr :: u64
  rg_length :: u64
  rg_hash :: bytes

record 'c cvsasx_root_custodian =
  rc_root :: 'c
  rc_initialized :: u8

section \<open>Permission translation\<close>

definition CVSASX_PERM_MAP :: "'c cheri \<Rightarrow> (u32 \<times> u64) list" where
  "CVSASX_PERM_MAP I =
     [(CVSASX_PERM_GLOBAL, CHERI_PERM_GLOBAL I),
      (CVSASX_PERM_EXECUTE, CHERI_PERM_EXECUTE I),
      (CVSASX_PERM_LOAD, CHERI_PERM_LOAD I),
      (CVSASX_PERM_STORE, CHERI_PERM_STORE I),
      (CVSASX_PERM_LOAD_CAP, CHERI_PERM_LOAD_CAP I),
      (CVSASX_PERM_STORE_CAP, CHERI_PERM_STORE_CAP I),
      (CVSASX_PERM_STORE_LOCAL_CAP, CHERI_PERM_STORE_LOCAL_CAP I)]"

text \<open>The two accumulators of the loops run together over the rows of the map.\<close>

definition l2c_step :: "u64 \<Rightarrow> u32 \<times> u64 \<Rightarrow> u32 \<times> u64 \<Rightarrow> u32 \<times> u64" where
  "l2c_step local_perms acc row =
     (if local_perms AND snd row \<noteq> 0 then (fst acc OR fst row, snd acc OR snd row) else acc)"

definition cvsasx_perms_local_to_canonical :: "'c cheri \<Rightarrow> u64 \<Rightarrow> u32" where
  "cvsasx_perms_local_to_canonical I local_perms =
     (let (out, covered) = foldl (l2c_step local_perms) (0, 0) (CVSASX_PERM_MAP I)
      in if local_perms AND NOT covered \<noteq> 0 then out OR CVSASX_PERM_UNMODELLED else out)"

definition c2l_step :: "u32 \<Rightarrow> u64 \<times> u32 \<Rightarrow> u32 \<times> u64 \<Rightarrow> u64 \<times> u32" where
  "c2l_step canon acc row =
     (if canon AND fst row \<noteq> 0 then (fst acc OR snd row, snd acc OR fst row) else acc)"

definition cvsasx_perms_canonical_to_local :: "'c cheri \<Rightarrow> u32 \<Rightarrow> u64 \<times> cvsasx_status" where
  "cvsasx_perms_canonical_to_local I canon =
     (if canon AND CVSASX_PERM_FORBIDDEN_MASK \<noteq> 0 then (0, CVSASX_ERR_PERM_FORBIDDEN)
      else if canon AND CVSASX_PERM_EXECUTE \<noteq> 0 \<and> canon AND CVSASX_PERM_WRITE_ANY \<noteq> 0
           then (0, CVSASX_ERR_WX_VIOLATION)
      else
        (let (lcl, accounted) = foldl (c2l_step canon) (0, 0) (CVSASX_PERM_MAP I)
         in if canon AND NOT accounted \<noteq> 0 then (0, CVSASX_ERR_PERM_FORBIDDEN)
            else (lcl, CVSASX_OK)))"

section \<open>Strip\<close>

definition cvsasx_otype_to_class :: "'c cheri \<Rightarrow> u64 \<Rightarrow> bool \<Rightarrow> u32" where
  "cvsasx_otype_to_class I otype is_sealed =
     (if \<not> is_sealed then CVSASX_OTYPE_CLASS_UNSEALED
      else if otype = CHERI_OTYPE_SENTRY I then CVSASX_OTYPE_CLASS_SENTRY
      else CVSASX_OTYPE_CLASS_OPAQUE)"

definition cvsasx_cap_strip ::
  "'c cheri \<Rightarrow> 'c \<Rightarrow> cvsasx_referent option \<Rightarrow> cvsasx_pir option \<Rightarrow> cvsasx_status \<times> cvsasx_pir option" where
  "cvsasx_cap_strip I cap ref out =
     (case (out, ref) of
        (Some _, Some rf) \<Rightarrow>
          (let p0 = cvsasx_pir_zero\<lparr>struct_version := CVSASX_PIR_VERSION,
                                    otype_class := CVSASX_OTYPE_CLASS_OPAQUE\<rparr>;
               base = base_get I cap; len = length_get I cap; perms = perms_get I cap;
               otype = type_get I cap; sealed = sealed_get I cap;
               off = base - ref_base_addr rf
           in if \<not> tag_get I cap then (CVSASX_ERR_UNTAGGED, Some p0)
              else if base < ref_base_addr rf then (CVSASX_ERR_REFERENT_RANGE, Some p0)
              else if off > ref_length rf then (CVSASX_ERR_REFERENT_RANGE, Some p0)
              else if len > ref_length rf - off then (CVSASX_ERR_REFERENT_RANGE, Some p0)
              else
                (if sealed then CVSASX_WARN_SEALED_OUT_OF_SCOPE else CVSASX_OK,
                 Some (p0\<lparr>referent_hash := take 32 (ref_hash rf), pir_offset := off, pir_length := len,
                          pir_perms := cvsasx_perms_local_to_canonical I perms,
                          otype_class := cvsasx_otype_to_class I otype sealed,
                          pir_sealed := (if sealed then 1 else 0),
                          pir_flags := (if sealed
                                        then CVSASX_PIR_FLAG_REFERENT_VALID OR CVSASX_PIR_FLAG_WAS_SEALED
                                        else CVSASX_PIR_FLAG_REFERENT_VALID)\<rparr>)))
      | _ \<Rightarrow> (CVSASX_ERR_NULL_ARG, out))"

section \<open>The root custodian and re-mint\<close>

definition cvsasx_custodian_init ::
  "'c cheri \<Rightarrow> 'c cvsasx_root_custodian option \<Rightarrow> 'c \<Rightarrow> cvsasx_status \<times> 'c cvsasx_root_custodian option" where
  "cvsasx_custodian_init I cust root =
     (case cust of
        None \<Rightarrow> (CVSASX_ERR_NULL_ARG, None)
      | Some _ \<Rightarrow>
          (if \<not> tag_get I root
           then (CVSASX_ERR_BAD_ROOT, Some \<lparr>rc_root = null_cap I, rc_initialized = 0\<rparr>)
           else (CVSASX_OK, Some \<lparr>rc_root = root, rc_initialized = 1\<rparr>)))"

definition cvsasx_check_region :: "'c cheri \<Rightarrow> 'c cvsasx_root_custodian \<Rightarrow> 'c cvsasx_region \<Rightarrow> cvsasx_status" where
  "cvsasx_check_region I cust region =
     (let rbase = base_get I (rg_object_cap region); rlen = length_get I (rg_object_cap region);
          rperms = perms_get I (rg_object_cap region);
          root_base = base_get I (rc_root cust); root_len = length_get I (rc_root cust);
          root_perms = perms_get I (rc_root cust); root_off = rbase - root_base
      in if \<not> tag_get I (rg_object_cap region) then CVSASX_ERR_BAD_REGION
         else if rperms AND NOT root_perms \<noteq> 0 then CVSASX_ERR_BAD_REGION
         else if rbase < root_base then CVSASX_ERR_BAD_REGION
         else if root_off > root_len then CVSASX_ERR_BAD_REGION
         else if rlen > root_len - root_off then CVSASX_ERR_BAD_REGION
         else if rbase \<noteq> rg_base_addr region then CVSASX_ERR_BAD_REGION
         else if rlen \<noteq> rg_length region then CVSASX_ERR_BAD_REGION
         else CVSASX_OK)"

definition cheri_derive :: "'c cheri \<Rightarrow> 'c \<Rightarrow> u64 \<Rightarrow> u64 \<Rightarrow> u64 \<Rightarrow> 'c" where
  "cheri_derive I src req_base req_len lmask =
     perms_and I (bounds_set_exact I (address_set I src req_base) req_len) lmask"

definition cheri_verify :: "'c cheri \<Rightarrow> 'c \<Rightarrow> u64 \<Rightarrow> u64 \<Rightarrow> u64 \<Rightarrow> cvsasx_status" where
  "cheri_verify I c req_base req_len lmask =
     (if \<not> tag_get I c then CVSASX_ERR_DERIVE_UNTAGGED
      else if base_get I c \<noteq> req_base then CVSASX_ERR_VERIFY_BASE
      else if length_get I c \<noteq> req_len then CVSASX_ERR_VERIFY_LENGTH
      else if perms_get I c AND NOT lmask \<noteq> 0 then CVSASX_ERR_VERIFY_PERMS
      else if lmask AND NOT (perms_get I c) \<noteq> 0 then CVSASX_ERR_VERIFY_PERMS
      else if sealed_get I c then CVSASX_ERR_VERIFY_SEALED
      else CVSASX_OK)"

definition cheri_remint_body ::
  "'c cheri \<Rightarrow> 'c cvsasx_root_custodian \<Rightarrow> cvsasx_pir \<Rightarrow> 'c cvsasx_region \<Rightarrow> cvsasx_status \<times> 'c" where
  "cheri_remint_body I cust pir region =
     (if rc_initialized cust = 0 \<or> \<not> tag_get I (rc_root cust) then (CVSASX_ERR_BAD_ROOT, null_cap I)
      else if struct_version pir \<noteq> CVSASX_PIR_VERSION then (CVSASX_ERR_VERSION, null_cap I)
      else if pir_sealed pir \<noteq> 0 \<or> pir_flags pir AND CVSASX_PIR_FLAG_WAS_SEALED \<noteq> 0 \<or>
              otype_class pir \<noteq> CVSASX_OTYPE_CLASS_UNSEALED
           then (CVSASX_ERR_SEALED_UNSUPPORTED, null_cap I)
      else if pir_flags pir AND CVSASX_PIR_FLAG_REFERENT_VALID = 0
           then (CVSASX_ERR_REFERENT_MISMATCH, null_cap I)
      else if \<not> hash_eq (referent_hash pir) (rg_hash region)
           then (CVSASX_ERR_REFERENT_MISMATCH, null_cap I)
      else if cvsasx_check_region I cust region \<noteq> CVSASX_OK
           then (cvsasx_check_region I cust region, null_cap I)
      else if pir_length pir = 0 then (CVSASX_ERR_BAD_BOUNDS, null_cap I)
      else if pir_offset pir > rg_length region then (CVSASX_ERR_BAD_BOUNDS, null_cap I)
      else if pir_length pir > rg_length region - pir_offset pir
           then (CVSASX_ERR_BAD_BOUNDS, null_cap I)
      else
        (let (local_mask, perr) = cvsasx_perms_canonical_to_local I (pir_perms pir)
         in if perr \<noteq> CVSASX_OK then (perr, null_cap I)
            else if local_mask AND NOT (perms_get I (rg_object_cap region)) \<noteq> 0
                 then (CVSASX_ERR_AMPLIFY_PERMS, null_cap I)
            else
              (let req_base = base_get I (rg_object_cap region) + pir_offset pir;
                   req_len = pir_length pir;
                   c = cheri_derive I (rg_object_cap region) req_base req_len local_mask;
                   v = cheri_verify I c req_base req_len local_mask
               in if v \<noteq> CVSASX_OK then (v, null_cap I) else (CVSASX_OK, c))))"

definition cvsasx_cap_remint ::
  "'c cheri \<Rightarrow> 'c cvsasx_root_custodian option \<Rightarrow> cvsasx_pir option \<Rightarrow> 'c cvsasx_region option \<Rightarrow>
   'c option \<Rightarrow> cvsasx_status \<times> 'c option" where
  "cvsasx_cap_remint I cust pir region out =
     (case out of
        None \<Rightarrow> (CVSASX_ERR_NULL_ARG, None)
      | Some _ \<Rightarrow>
          (case (cust, pir, region) of
             (Some cu, Some p, Some r) \<Rightarrow> map_prod id Some (cheri_remint_body I cu p r)
           | _ \<Rightarrow> (CVSASX_ERR_NULL_ARG, Some (null_cap I))))"

section \<open>The observable view of a hardware capability\<close>

definition cheri_addrs :: "'c cheri \<Rightarrow> 'c \<Rightarrow> u64 set" where
  "cheri_addrs I c =
     cap_addrs \<lparr>sc_base = base_get I c, sc_length = length_get I c, sc_perms = 0, sc_valid = 1\<rparr>"

definition cheri_within :: "'c cheri \<Rightarrow> 'c \<Rightarrow> 'c \<Rightarrow> bool" where
  "cheri_within I a b \<longleftrightarrow>
     tag_get I b \<and> bits_within (perms_get I a) (perms_get I b) \<and> cheri_addrs I a \<subseteq> cheri_addrs I b"

lemma cheri_within_trans: "cheri_within I a b \<Longrightarrow> cheri_within I b c \<Longrightarrow> cheri_within I a c"
  unfolding cheri_within_def using bits_within_trans by blast

lemma cheri_addrs_windowI:
  assumes "base_get I a = base_get I b + off" and "off \<le> length_get I b"
    and "length_get I a \<le> length_get I b - off"
  shows "cheri_addrs I a \<subseteq> cheri_addrs I b"
  unfolding cheri_addrs_def by (rule cap_addrs_windowI[where off = off]) (use assms in simp_all)

lemma check_region_okD:
  assumes "cvsasx_check_region I cu r = CVSASX_OK" and "tag_get I (rc_root cu)"
  shows "cheri_within I (rg_object_cap r) (rc_root cu)" and "tag_get I (rg_object_cap r)"
    and "base_get I (rg_object_cap r) = rg_base_addr r" and "length_get I (rg_object_cap r) = rg_length r"
proof -
  let ?off = "base_get I (rg_object_cap r) - base_get I (rc_root cu)"
  have "?off \<le> length_get I (rc_root cu)"
    and "length_get I (rg_object_cap r) \<le> length_get I (rc_root cu) - ?off"
    and "bits_within (perms_get I (rg_object_cap r)) (perms_get I (rc_root cu))"
    using assms(1) by (auto simp: cvsasx_check_region_def Let_def not_less bits_within_def split: if_splits)
  moreover from this have "cheri_addrs I (rg_object_cap r) \<subseteq> cheri_addrs I (rc_root cu)"
    by (intro cheri_addrs_windowI[where off = ?off]) simp_all
  ultimately show "cheri_within I (rg_object_cap r) (rc_root cu)"
    using assms(2) by (simp add: cheri_within_def)
  show "tag_get I (rg_object_cap r)" "base_get I (rg_object_cap r) = rg_base_addr r"
    "length_get I (rg_object_cap r) = rg_length r"
    using assms(1) by (auto simp: cvsasx_check_region_def Let_def split: if_splits)
qed

lemma cheri_verify_okD:
  assumes "cheri_verify I c b n m = CVSASX_OK"
  shows "tag_get I c" "base_get I c = b" "length_get I c = n" "perms_get I c = m" "\<not> sealed_get I c"
  using assms bits_within_antisym[of "perms_get I c" m]
  by (auto simp: cheri_verify_def bits_within_def split: if_splits)

lemma cheri_remint_body_okD:
  assumes "cheri_remint_body I cu p r = (CVSASX_OK, c)"
  shows "tag_get I (rc_root cu)" "cvsasx_check_region I cu r = CVSASX_OK"
    "pir_length p \<noteq> 0" "pir_offset p \<le> rg_length r" "pir_length p \<le> rg_length r - pir_offset p"
    "snd (cvsasx_perms_canonical_to_local I (pir_perms p)) = CVSASX_OK"
    "bits_within (fst (cvsasx_perms_canonical_to_local I (pir_perms p))) (perms_get I (rg_object_cap r))"
    "cheri_verify I c (base_get I (rg_object_cap r) + pir_offset p) (pir_length p)
       (fst (cvsasx_perms_canonical_to_local I (pir_perms p))) = CVSASX_OK"
  using assms
  by (auto simp: cheri_remint_body_def Let_def not_less bits_within_def split: if_splits prod.splits)

lemma cheri_remint_body_fail:
  "cheri_remint_body I cu p r = (s, c) \<Longrightarrow> s \<noteq> CVSASX_OK \<Longrightarrow> c = null_cap I"
  by (auto simp: cheri_remint_body_def Let_def split: if_splits prod.splits)

lemma cheri_remint_body_within:
  assumes "cheri_remint_body I cu p r = (CVSASX_OK, c)"
  shows "cheri_within I c (rg_object_cap r)" and "cheri_within I (rg_object_cap r) (rc_root cu)"
proof -
  note D = cheri_remint_body_okD[OF assms]
  note R = check_region_okD[OF D(2) D(1)]
  note V = cheri_verify_okD[OF D(8)]
  have "cheri_addrs I c \<subseteq> cheri_addrs I (rg_object_cap r)"
    using V R(4) D(4,5) by (intro cheri_addrs_windowI[where off = "pir_offset p"]) simp_all
  then show "cheri_within I c (rg_object_cap r)"
    using R(2) V(4) D(7) by (simp add: cheri_within_def)
  show "cheri_within I (rg_object_cap r) (rc_root cu)" by (rule R(1))
qed

text \<open>
  A capability without a tag authorises nothing; \<open>NULL\<close> is untagged on every CHERI
  target.  The gate contract holds for every instruction set with that property.
\<close>

definition cheri_le :: "'c cheri \<Rightarrow> 'c \<Rightarrow> 'c \<Rightarrow> bool" where
  "cheri_le I a b \<longleftrightarrow> \<not> tag_get I a \<or> cheri_within I a b"

locale cheri_null =
  fixes I :: "'c cheri"
  assumes null_untagged: "\<not> tag_get I (null_cap I)"
begin

lemma le_trans: "cheri_le I a b \<Longrightarrow> cheri_le I b c \<Longrightarrow> cheri_le I a c"
  unfolding cheri_le_def using cheri_within_trans[of I a b c] by (auto simp: cheri_within_def)

end

sublocale cheri_null \<subseteq> remint_gate "cheri_remint_body I" rg_object_cap rc_root "cheri_le I"
  "\<lambda>c. \<not> tag_get I c"
proof unfold_locales
  show "cheri_le I a c" if "cheri_le I a b" "cheri_le I b c" for a b c
    using that by (rule le_trans)
  show "cheri_le I c (rg_object_cap r)" if "cheri_remint_body I cu p r = (CVSASX_OK, c)" for cu p r c
    using cheri_remint_body_within(1)[OF that] by (simp add: cheri_le_def)
  show "cheri_le I (rg_object_cap r) (rc_root cu)" if "cheri_remint_body I cu p r = (CVSASX_OK, c)" for cu p r c
    using cheri_remint_body_within(2)[OF that] by (simp add: cheri_le_def)
  show "\<not> tag_get I c" if "cheri_remint_body I cu p r = (s, c)" "s \<noteq> CVSASX_OK" for cu p r s c
    using cheri_remint_body_fail[OF that] null_untagged by simp
  show "cheri_le I c d" if "\<not> tag_get I c" for c d
    using that by (simp add: cheri_le_def)
qed

section \<open>What the translation loops compute\<close>

lemma bit_c2l_fold:
  "bit (fst (foldl (c2l_step canon) acc rows)) n \<longleftrightarrow>
     bit (fst acc) n \<or> (\<exists>row \<in> set rows. canon AND fst row \<noteq> 0 \<and> bit (snd row) n)"
  "bit (snd (foldl (c2l_step canon) acc rows)) m \<longleftrightarrow>
     bit (snd acc) m \<or> (\<exists>row \<in> set rows. canon AND fst row \<noteq> 0 \<and> bit (fst row) m)"
  by (induction rows arbitrary: acc) (auto simp: c2l_step_def bit_or_iff)

lemma bit_l2c_fold:
  "bit (fst (foldl (l2c_step lcl) acc rows)) n \<longleftrightarrow>
     bit (fst acc) n \<or> (\<exists>row \<in> set rows. lcl AND snd row \<noteq> 0 \<and> bit (fst row) n)"
  "bit (snd (foldl (l2c_step lcl) acc rows)) m \<longleftrightarrow>
     bit (snd acc) m \<or> (\<exists>row \<in> set rows. lcl AND snd row \<noteq> 0 \<and> bit (snd row) m)"
  by (induction rows arbitrary: acc) (auto simp: l2c_step_def bit_or_iff)

lemma and_single_bit: "(w :: 'a::len word) AND 2 ^ i \<noteq> 0 \<longleftrightarrow> bit w i"
  using bit_iff_and_push_bit_not_eq_0[of w i] by simp

lemma perm_map_canon_bits:
  "row \<in> set (CVSASX_PERM_MAP I) \<Longrightarrow> \<exists>i < 7. fst row = push_bit i 1"
  by (auto simp: CVSASX_PERM_MAP_def perm_bit_defs intro: exI[of _ "0::nat"] exI[of _ "1::nat"]
        exI[of _ "2::nat"] exI[of _ "3::nat"] exI[of _ "4::nat"] exI[of _ "5::nat"] exI[of _ "6::nat"])

lemma perm_map_distinct_canon:
  "row \<in> set (CVSASX_PERM_MAP I) \<Longrightarrow> row' \<in> set (CVSASX_PERM_MAP I) \<Longrightarrow> fst row = fst row' \<Longrightarrow> row = row'"
  by (auto simp: CVSASX_PERM_MAP_def perm_bit_defs)

lemma perm_map_row_bit:
  assumes "row \<in> set (CVSASX_PERM_MAP I)" and "row' \<in> set (CVSASX_PERM_MAP I)" and "bit (fst row) n" and "bit (fst row') n"
  shows "row = row'"
proof -
  obtain i j where ij: "fst row = push_bit i 1" "fst row' = push_bit j 1"
    using perm_map_canon_bits assms(1,2) by metis
  with assms(3,4) have "n = i" and "n = j"
    by (auto simp: bit_exp_iff)
  with ij have "fst row = fst row'" by simp
  then show ?thesis using perm_map_distinct_canon assms(1,2) by blast
qed

lemma canonical_to_local_okD:
  assumes "cvsasx_perms_canonical_to_local I canon = (lcl, CVSASX_OK)"
  shows "perms_hosted canon"
    and "bit lcl n \<longleftrightarrow> (\<exists>row \<in> set (CVSASX_PERM_MAP I). canon AND fst row \<noteq> 0 \<and> bit (snd row) n)"
    and "bit canon m \<Longrightarrow> \<exists>row \<in> set (CVSASX_PERM_MAP I). canon AND fst row \<noteq> 0 \<and> bit (fst row) m"
proof -
  let ?r = "foldl (c2l_step canon) (0, 0) (CVSASX_PERM_MAP I)"
  from assms have l: "lcl = fst ?r" and acc: "bits_within canon (snd ?r)" and h: "perms_hosted canon"
    by (auto simp: cvsasx_perms_canonical_to_local_def perms_hosted_def perms_forbidden_def perms_wx_def
          bits_within_def split: if_splits prod.splits)
  show "perms_hosted canon" by (rule h)
  show "bit lcl n \<longleftrightarrow> (\<exists>row \<in> set (CVSASX_PERM_MAP I). canon AND fst row \<noteq> 0 \<and> bit (snd row) n)"
    by (simp add: l bit_c2l_fold)
  show "\<exists>row \<in> set (CVSASX_PERM_MAP I). canon AND fst row \<noteq> 0 \<and> bit (fst row) m" if "bit canon m"
    using acc that by (simp add: bits_within_iff_bit bit_c2l_fold)
qed

lemma local_to_canonical_unmodelled:
  assumes "bit lcl n" and "\<forall>row \<in> set (CVSASX_PERM_MAP I). \<not> bit (snd row) n"
  shows "perms_forbidden (cvsasx_perms_local_to_canonical I lcl)"
proof -
  let ?r = "foldl (l2c_step lcl) (0, 0) (CVSASX_PERM_MAP I)"
  have "\<not> bit (snd ?r) n" using assms(2) by (simp add: bit_l2c_fold)
  with assms(1) have "\<not> bits_within lcl (snd ?r)"
    by (auto simp: bits_within_iff_bit)
  then have "cvsasx_perms_local_to_canonical I lcl = fst ?r OR CVSASX_PERM_UNMODELLED"
    by (simp add: cvsasx_perms_local_to_canonical_def bits_within_def case_prod_beta)
  then have "bit (cvsasx_perms_local_to_canonical I lcl AND CVSASX_PERM_FORBIDDEN_MASK) 31"
    by (simp add: bit_simps perm_mask_defs CVSASX_PERM_UNMODELLED_def)
  then show ?thesis
    unfolding perms_forbidden_def by (metis bit_0_eq bot_apply bot_bool_def)
qed

text \<open>The permission layout of a target: every mapped local bit is there, and no two overlap.\<close>

locale cheri_perm_layout =
  fixes I :: "'c cheri"
  assumes local_nonzero: "row \<in> set (CVSASX_PERM_MAP I) \<Longrightarrow> snd row \<noteq> 0"
    and local_disjoint: "row \<in> set (CVSASX_PERM_MAP I) \<Longrightarrow> row' \<in> set (CVSASX_PERM_MAP I) \<Longrightarrow>
      row \<noteq> row' \<Longrightarrow> snd row AND snd row' = 0"
begin

lemma local_selects:
  assumes "cvsasx_perms_canonical_to_local I canon = (lcl, CVSASX_OK)" and "row \<in> set (CVSASX_PERM_MAP I)"
  shows "lcl AND snd row \<noteq> 0 \<longleftrightarrow> canon AND fst row \<noteq> 0"
proof
  assume "lcl AND snd row \<noteq> 0"
  then obtain n where "bit lcl n" and n: "bit (snd row) n"
    by (auto simp: bit_eq_iff bit_and_iff)
  then obtain row' where r': "row' \<in> set (CVSASX_PERM_MAP I)" "canon AND fst row' \<noteq> 0" "bit (snd row') n"
    using canonical_to_local_okD(2)[OF assms(1)] by blast
  have "bit (snd row AND snd row') n" using n r' by (simp add: bit_and_iff)
  then have "snd row AND snd row' \<noteq> 0" by auto
  with r' assms(2) local_disjoint have "row = row'" by blast
  with r' show "canon AND fst row \<noteq> 0" by simp
next
  assume c: "canon AND fst row \<noteq> 0"
  obtain n where n: "bit (snd row) n"
    using local_nonzero[OF assms(2)] by (auto simp: bit_eq_iff)
  then have "bit lcl n"
    using canonical_to_local_okD(2)[OF assms(1)] c assms(2) by blast
  with n have "bit (lcl AND snd row) n" by (simp add: bit_and_iff)
  then show "lcl AND snd row \<noteq> 0" by auto
qed

lemma canonical_local_roundtrip:
  assumes ok: "cvsasx_perms_canonical_to_local I canon = (lcl, CVSASX_OK)"
  shows "cvsasx_perms_local_to_canonical I lcl = canon"
proof -
  let ?r = "foldl (l2c_step lcl) (0, 0) (CVSASX_PERM_MAP I)"
  have cov: "bits_within lcl (snd ?r)"
    using canonical_to_local_okD(2)[OF ok] local_selects[OF ok]
    by (auto simp: bits_within_iff_bit bit_l2c_fold)
  have "fst ?r = canon"
  proof (rule bit_eqI)
    fix n
    show "bit (fst ?r) n \<longleftrightarrow> bit canon n"
    proof
      assume "bit (fst ?r) n"
      then obtain row where row: "row \<in> set (CVSASX_PERM_MAP I)" "lcl AND snd row \<noteq> 0" "bit (fst row) n"
        by (auto simp: bit_l2c_fold)
      then obtain i where i: "fst row = push_bit i 1" using perm_map_canon_bits by blast
      with row have "n = i" by (simp add: bit_exp_iff)
      with i row local_selects[OF ok row(1)] show "bit canon n" by (simp flip: and_single_bit)
    next
      assume "bit canon n"
      then show "bit (fst ?r) n"
        using canonical_to_local_okD(3)[OF ok] local_selects[OF ok] by (auto simp: bit_l2c_fold)
    qed
  qed
  with cov show ?thesis
    by (simp add: cvsasx_perms_local_to_canonical_def bits_within_def case_prod_beta)
qed

end

section \<open>An exact instruction set\<close>

text \<open>
  Capabilities without bounds compression, in the legacy CHERI-RISC-V permission layout
  that \<^verbatim>\<open>cap_custodian.c\<close> records (GLOBAL = bit 0 up to STORE_LOCAL_CAP = bit 6):
  every representable narrowing succeeds exactly, and a request outside the source
  window clears the tag.  It shows the hypotheses about the instruction set can hold,
  and it is the instance on which the two backends are compared.
\<close>

record xcap =
  x_base :: u64
  x_length :: u64
  x_perms :: u64
  x_tag :: bool
  x_cursor :: u64

definition exact_isa :: "xcap cheri" where
  "exact_isa =
     \<lparr>tag_get = x_tag, base_get = x_base, length_get = x_length, perms_get = x_perms,
      type_get = (\<lambda>_. - 1), sealed_get = (\<lambda>_. False),
      address_set = (\<lambda>c a. c\<lparr>x_cursor := a\<rparr>),
      bounds_set_exact = (\<lambda>c n. if x_cursor c - x_base c \<le> x_length c \<and>
                                   n \<le> x_length c - (x_cursor c - x_base c)
                                then c\<lparr>x_base := x_cursor c, x_length := n\<rparr>
                                else c\<lparr>x_tag := False\<rparr>),
      perms_and = (\<lambda>c m. c\<lparr>x_perms := x_perms c AND m\<rparr>),
      null_cap = \<lparr>x_base = 0, x_length = 0, x_perms = 0, x_tag = False, x_cursor = 0\<rparr>,
      CHERI_PERM_GLOBAL = push_bit 0 1, CHERI_PERM_EXECUTE = push_bit 1 1,
      CHERI_PERM_LOAD = push_bit 2 1, CHERI_PERM_STORE = push_bit 3 1,
      CHERI_PERM_LOAD_CAP = push_bit 4 1, CHERI_PERM_STORE_CAP = push_bit 5 1,
      CHERI_PERM_STORE_LOCAL_CAP = push_bit 6 1, CHERI_OTYPE_SENTRY = - 2\<rparr>"

lemma exact_isa_simps [simp]:
  "tag_get exact_isa = x_tag" "base_get exact_isa = x_base" "length_get exact_isa = x_length"
  "perms_get exact_isa = x_perms" "sealed_get exact_isa c = False"
  "address_set exact_isa c a = c\<lparr>x_cursor := a\<rparr>"
  "perms_and exact_isa c m = c\<lparr>x_perms := x_perms c AND m\<rparr>"
  "null_cap exact_isa = \<lparr>x_base = 0, x_length = 0, x_perms = 0, x_tag = False, x_cursor = 0\<rparr>"
  "bounds_set_exact exact_isa c n =
     (if x_cursor c - x_base c \<le> x_length c \<and> n \<le> x_length c - (x_cursor c - x_base c)
      then c\<lparr>x_base := x_cursor c, x_length := n\<rparr> else c\<lparr>x_tag := False\<rparr>)"
  by (simp_all add: exact_isa_def)

lemma exact_perm_map:
  "CVSASX_PERM_MAP exact_isa = map (\<lambda>i. (push_bit i 1, push_bit i 1)) [0, 1, 2, 3, 4, 5, 6]"
  by (simp add: CVSASX_PERM_MAP_def exact_isa_def perm_bit_defs)

interpretation exact_null: cheri_null exact_isa
  by unfold_locales simp

interpretation exact_layout: cheri_perm_layout exact_isa
  by unfold_locales (auto simp: exact_perm_map)

lemma hosted_mask_bits: "bit CVSASX_PERM_HOSTED_MASK n \<longleftrightarrow> n < 7"
proof -
  have "CVSASX_PERM_HOSTED_MASK = mask 7"
    by (simp add: CVSASX_PERM_HOSTED_MASK_def perm_bit_defs mask_eq_exp_minus_1)
  then have "bit CVSASX_PERM_HOSTED_MASK n \<longleftrightarrow> bit (mask 7 :: u32) n" by (rule arg_cong)
  then show ?thesis by (auto simp only: bit_mask_iff) simp
qed

lemma upto7: "(\<exists>i \<in> {0, 1, 2, 3, 4, 5, 6}. P i) \<longleftrightarrow> (\<exists>i < 7. P (i::nat))"
proof -
  have "{..<7} = {0, 1, 2, 3, 4, 5, 6::nat}" by auto
  then show ?thesis by (metis lessThan_iff)
qed

lemma exact_map_ex:
  "(\<exists>row \<in> set (CVSASX_PERM_MAP exact_isa). P row) \<longleftrightarrow> (\<exists>i < 7. P (2 ^ i, 2 ^ i))"
  unfolding exact_perm_map upto7[symmetric] by simp

lemma exact_c2l_fold:
  "bit (fst (foldl (c2l_step canon) (0, 0) (CVSASX_PERM_MAP exact_isa))) n \<longleftrightarrow> n < 7 \<and> bit canon n"
  "bit (snd (foldl (c2l_step canon) (0, 0) (CVSASX_PERM_MAP exact_isa))) n \<longleftrightarrow> n < 7 \<and> bit canon n"
  unfolding bit_c2l_fold exact_map_ex fst_conv snd_conv and_single_bit bit_exp_iff by auto

lemma exact_canonical_to_local:
  "cvsasx_perms_canonical_to_local exact_isa canon =
     (if perms_forbidden canon then (0, CVSASX_ERR_PERM_FORBIDDEN)
      else if perms_wx canon then (0, CVSASX_ERR_WX_VIOLATION)
      else if \<not> bits_within canon CVSASX_PERM_HOSTED_MASK then (0, CVSASX_ERR_PERM_FORBIDDEN)
      else (ucast canon, CVSASX_OK))"
proof -
  let ?r = "foldl (c2l_step canon) (0, 0) (CVSASX_PERM_MAP exact_isa)"
  have a: "canon AND NOT (snd ?r) = 0 \<longleftrightarrow> bits_within canon CVSASX_PERM_HOSTED_MASK"
    unfolding bits_within_def[symmetric]
    by (auto simp: bits_within_iff_bit exact_c2l_fold hosted_mask_bits)
  have b: "fst ?r = ucast canon" if "bits_within canon CVSASX_PERM_HOSTED_MASK"
    using that by (intro bit_word_eqI) (auto simp: bits_within_iff_bit hosted_mask_bits exact_c2l_fold bit_ucast_iff)
  show ?thesis
    unfolding cvsasx_perms_canonical_to_local_def perms_forbidden_def perms_wx_def
    using a b by (auto simp: case_prod_beta)
qed

section \<open>The two backends compared\<close>

definition x_of_sw :: "cvsasx_swcap \<Rightarrow> xcap" where
  "x_of_sw c = \<lparr>x_base = sc_base c, x_length = sc_length c, x_perms = ucast (sc_perms c),
                x_tag = (sc_valid c \<noteq> 0), x_cursor = sc_base c\<rparr>"

definition x_cust :: "cvsasx_sw_custodian \<Rightarrow> xcap cvsasx_root_custodian" where
  "x_cust cu = \<lparr>rc_root = x_of_sw (cu_root cu), rc_initialized = cu_initialized cu\<rparr>"

definition x_region :: "cvsasx_sw_region \<Rightarrow> xcap cvsasx_region" where
  "x_region r = \<lparr>rg_object_cap = x_of_sw (object_cap r), rg_base_addr = object_base_addr r,
                 rg_length = object_length r, rg_hash = region_hash r\<rparr>"

lemma x_simps [simp]:
  "x_base (x_of_sw c) = sc_base c" "x_length (x_of_sw c) = sc_length c"
  "x_perms (x_of_sw c) = ucast (sc_perms c)" "x_tag (x_of_sw c) \<longleftrightarrow> sc_valid c \<noteq> 0"
  "x_cursor (x_of_sw c) = sc_base c"
  "rc_root (x_cust cu) = x_of_sw (cu_root cu)" "rc_initialized (x_cust cu) = cu_initialized cu"
  "rg_object_cap (x_region r) = x_of_sw (object_cap r)" "rg_base_addr (x_region r) = object_base_addr r"
  "rg_length (x_region r) = object_length r" "rg_hash (x_region r) = region_hash r"
  by (simp_all add: x_of_sw_def x_cust_def x_region_def)

lemma ucast_within_iff:
  "(ucast (a :: u32) :: u64) AND NOT (ucast (b :: u32)) = 0 \<longleftrightarrow> a AND NOT b = 0"
  unfolding bits_within_def[symmetric] bits_within_iff_bit
  using bit_imp_le_length[of a] by (fastforce simp: bit_ucast_iff)

lemma exact_check_region:
  "cvsasx_check_region exact_isa (x_cust cu) (x_region r) = sw_check_region cu r"
  unfolding cvsasx_check_region_def sw_check_region_def Let_def
  by (simp add: ucast_within_iff)

lemma exact_null_is_null_swcap: "null_cap exact_isa = x_of_sw null_swcap"
  by (simp add: x_of_sw_def null_swcap_def)

lemma exact_derive:
  assumes "off \<le> sc_length src" and "n \<le> sc_length src - off" and "bits_within q (sc_perms src)"
    and "sc_valid src \<noteq> 0"
  shows "cheri_derive exact_isa (x_of_sw src) (sc_base src + off) n (ucast q) =
         x_of_sw \<lparr>sc_base = sc_base src + off, sc_length = n, sc_perms = q, sc_valid = 1\<rparr>"
proof -
  have "sc_perms src AND q = q"
    using assms(3) by (simp add: bits_within_and_eq)
  then have "(ucast (sc_perms src) :: u64) AND ucast q = ucast q"
    by (metis unsigned_and_eq)
  then show ?thesis
    using assms(1,2,4) by (simp add: cheri_derive_def x_of_sw_def)
qed

lemma exact_verify:
  "sc_valid c \<noteq> 0 \<Longrightarrow> cheri_verify exact_isa (x_of_sw c) (sc_base c) (sc_length c) (ucast (sc_perms c)) = CVSASX_OK"
  by (simp add: cheri_verify_def)

definition gate_perms_defined :: "u32 \<Rightarrow> bool" where
  "gate_perms_defined q \<longleftrightarrow> bits_within q (CVSASX_PERM_HOSTED_MASK OR CVSASX_PERM_FORBIDDEN_MASK)"

lemma defined_hosted:
  assumes "gate_perms_defined q" and "\<not> perms_forbidden q"
  shows "bits_within q CVSASX_PERM_HOSTED_MASK"
proof -
  have "q AND CVSASX_PERM_FORBIDDEN_MASK = 0"
    using assms(2) by (simp add: perms_forbidden_def)
  then have "\<not> (bit q n \<and> bit CVSASX_PERM_FORBIDDEN_MASK n)" for n
    by (metis bit_and_iff bit_0_eq bot_apply bot_bool_def)
  then show ?thesis
    using assms(1) by (auto simp: gate_perms_defined_def bits_within_iff_bit bit_or_iff)
qed

lemma exact_mint_branch:
  assumes "gate_perms_defined (pir_perms p)" and "sw_check_region cu r = CVSASX_OK"
    and "pir_offset p \<le> object_length r" and "pir_length p \<le> object_length r - pir_offset p"
    and "\<not> perms_forbidden (pir_perms p)" and "\<not> perms_wx (pir_perms p)"
    and "bits_within (pir_perms p) (sc_perms (object_cap r))"
  shows "cheri_derive exact_isa (x_of_sw (object_cap r)) (sc_base (object_cap r) + pir_offset p)
           (pir_length p) (ucast (pir_perms p)) = x_of_sw (sw_minted p r)"
    and "cheri_verify exact_isa (x_of_sw (sw_minted p r)) (sc_base (object_cap r) + pir_offset p)
           (pir_length p) (ucast (pir_perms p)) = CVSASX_OK"
  using assms exact_derive[of "pir_offset p" "object_cap r" "pir_length p" "pir_perms p"]
    exact_verify[of "sw_minted p r"]
  by (simp_all add: sw_check_region_ok_iff sw_minted_def)

lemma exact_remint_body:
  assumes d: "gate_perms_defined (pir_perms p)"
  shows "cheri_remint_body exact_isa (x_cust cu) p (x_region r) = map_prod id x_of_sw (sw_remint_body cu p r)"
proof (cases "sw_header_ok cu p r \<and> sw_check_region cu r = CVSASX_OK \<and> pir_length p \<noteq> 0 \<and>
    pir_offset p \<le> object_length r \<and> pir_length p \<le> object_length r - pir_offset p \<and>
    \<not> perms_forbidden (pir_perms p) \<and> \<not> perms_wx (pir_perms p) \<and>
    bits_within (pir_perms p) (sc_perms (object_cap r))")
  case True
  then have "sw_remint_body cu p r = (CVSASX_OK, sw_minted p r)"
    by (simp add: sw_remint_body_ok_iff perms_hosted_def window_sumD)
  moreover from True d exact_mint_branch[of p cu r] defined_hosted[of "pir_perms p"]
  have "cheri_remint_body exact_isa (x_cust cu) p (x_region r) = (CVSASX_OK, x_of_sw (sw_minted p r))"
    by (simp add: cheri_remint_body_def sw_header_ok_def exact_check_region exact_canonical_to_local
          ucast_within_iff bits_within_def not_less)
  ultimately show ?thesis by simp
next
  case False
  have nw: "x_of_sw null_swcap = null_cap exact_isa" by (rule exact_null_is_null_swcap[symmetric])
  show ?thesis
    using False d defined_hosted[of "pir_perms p"]
    unfolding cheri_remint_body_def sw_remint_body_def Let_def sw_header_ok_def exact_canonical_to_local
      perms_forbidden_def perms_wx_def
    by (auto simp: nw exact_check_region ucast_within_iff bits_within_def not_less simp del: exact_isa_simps(8))
qed

section \<open>Properties\<close>

text \<open>
  C2: hardware-independent anti-amplification of the CHERI gate.  Whatever the
  derivation builtins do (bounds rounding included), if the gate returns OK then the
  capability it hands out is tagged and unsealed, reads back exactly the requested base,
  length and permission mask, and its observable authority lies within the region
  capability, which itself lies within the custodian root.
\<close>

theorem cheri_remint_anti_amplification:
  assumes "cvsasx_cap_remint I (Some cu) (Some p) (Some r) (Some old) = (CVSASX_OK, Some c)"
  shows "tag_get I c \<and> \<not> sealed_get I c \<and>
         base_get I c = base_get I (rg_object_cap r) + pir_offset p \<and> length_get I c = pir_length p \<and>
         perms_get I c = fst (cvsasx_perms_canonical_to_local I (pir_perms p)) \<and>
         perms_hosted (pir_perms p) \<and>
         cheri_within I c (rg_object_cap r) \<and> cheri_within I (rg_object_cap r) (rc_root cu)"
proof -
  from assms have body: "cheri_remint_body I cu p r = (CVSASX_OK, c)"
    by (cases "cheri_remint_body I cu p r") (simp add: cvsasx_cap_remint_def)
  note V = cheri_verify_okD[OF cheri_remint_body_okD(8)[OF body]]
  have "perms_hosted (pir_perms p)"
    using cheri_remint_body_okD(6)[OF body] canonical_to_local_okD(1)[of I "pir_perms p"]
    by (metis prod.collapse)
  with V cheri_remint_body_within[OF body] show ?thesis by simp
qed

lemma ex_x_remint:
  "cvsasx_cap_remint exact_isa (Some (x_cust ex_cust)) (Some ex_pir) (Some (x_region ex_region))
     (Some (null_cap exact_isa)) = (CVSASX_OK, Some (x_of_sw ex_minted))"
proof -
  have "gate_perms_defined (pir_perms ex_pir)"
    by (simp add: gate_perms_defined_def bits_within_def ex_pir_def cvsasx_pir_zero_def perm_simps)
  moreover have "sw_remint_body ex_cust ex_pir ex_region = (CVSASX_OK, ex_minted)"
    using ex_remint by (cases "sw_remint_body ex_cust ex_pir ex_region") (simp add: remint_some_eq)
  ultimately show ?thesis
    by (simp add: cvsasx_cap_remint_def exact_remint_body)
qed

theorem cheri_remint_anti_amplification_witness:
  "cheri_within exact_isa (x_of_sw ex_minted) (rg_object_cap (x_region ex_region)) \<and>
   base_get exact_isa (x_of_sw ex_minted) = 0x1110"
  using cheri_remint_anti_amplification[OF ex_x_remint] by (simp add: ex_minted_def)

text \<open>
  permission translation round trip.  On every target whose mapped local permission
  bits are present and disjoint, a canonical set that translates to a local mask is
  recovered exactly by translating the mask back.
\<close>

theorem cheri_perms_roundtrip:
  assumes "cheri_perm_layout I" and "cvsasx_perms_canonical_to_local I canon = (lcl, CVSASX_OK)"
  shows "cvsasx_perms_local_to_canonical I lcl = canon"
  using cheri_perm_layout.canonical_local_roundtrip assms by blast

theorem cheri_perms_roundtrip_witness:
  "cvsasx_perms_local_to_canonical exact_isa (ucast (CVSASX_PERM_LOAD OR CVSASX_PERM_EXECUTE)) =
     CVSASX_PERM_LOAD OR CVSASX_PERM_EXECUTE"
proof -
  have "cvsasx_perms_canonical_to_local exact_isa (CVSASX_PERM_LOAD OR CVSASX_PERM_EXECUTE) =
      (ucast (CVSASX_PERM_LOAD OR CVSASX_PERM_EXECUTE), CVSASX_OK)"
    by (simp add: exact_canonical_to_local perms_forbidden_def perms_wx_def bits_within_def perm_simps)
  with exact_layout.cheri_perm_layout_axioms show ?thesis
    by (rule cheri_perms_roundtrip)
qed

text \<open>
  no permission is silently dropped on the way.  If a live source capability holds a
  local permission bit that the map does not model, the PIR that strip produces is
  refused by the gate of every destination, whatever its instruction set.
\<close>

theorem cheri_unmodelled_perms_refused:
  assumes "cvsasx_cap_strip I cap (Some rf) (Some o1) = (st, Some p)" and "tag_get I cap"
    and "st \<noteq> CVSASX_ERR_REFERENT_RANGE"
    and "bit (perms_get I cap) n" and "\<forall>row \<in> set (CVSASX_PERM_MAP I). \<not> bit (snd row) n"
  shows "fst (cvsasx_cap_remint J (Some cu) (Some p) (Some r) (Some o2)) \<noteq> CVSASX_OK"
proof
  assume ok: "fst (cvsasx_cap_remint J (Some cu) (Some p) (Some r) (Some o2)) = CVSASX_OK"
  from assms(1-3) have "pir_perms p = cvsasx_perms_local_to_canonical I (perms_get I cap)"
    by (auto simp: cvsasx_cap_strip_def Let_def split: if_splits)
  with local_to_canonical_unmodelled[OF assms(4,5)] have "perms_forbidden (pir_perms p)"
    by simp
  then have "cvsasx_perms_canonical_to_local J (pir_perms p) = (0, CVSASX_ERR_PERM_FORBIDDEN)"
    by (simp add: cvsasx_perms_canonical_to_local_def perms_forbidden_def)
  with ok show False
    using cheri_remint_body_okD(6)[of J cu p r]
    by (cases "cheri_remint_body J cu p r") (simp add: cvsasx_cap_remint_def)
qed

theorem cheri_unmodelled_perms_refused_witness:
  "fst (cvsasx_cap_remint exact_isa (Some (x_cust ex_cust))
         (snd (cvsasx_cap_strip exact_isa ((x_of_sw ex_root)\<lparr>x_perms := 0x404\<rparr>)
            (Some \<lparr>ref_hash = replicate 32 7, ref_base_addr = 0x1000, ref_length = 0x1000\<rparr>)
            (Some cvsasx_pir_zero)))
         (Some (x_region ex_region)) (Some (null_cap exact_isa))) \<noteq> CVSASX_OK"
proof -
  let ?cap = "(x_of_sw ex_root)\<lparr>x_perms := 0x404\<rparr>"
  let ?rf = "\<lparr>ref_hash = replicate 32 7, ref_base_addr = 0x1000, ref_length = 0x1000\<rparr>"
  obtain st p where p: "cvsasx_cap_strip exact_isa ?cap (Some ?rf) (Some cvsasx_pir_zero) = (st, Some p)"
      and st: "st \<noteq> CVSASX_ERR_REFERENT_RANGE"
    by (simp add: cvsasx_cap_strip_def ex_root_def)
  have "bit (perms_get exact_isa ?cap) 10" by (simp add: bit_numeral_rec)
  moreover have "\<forall>row \<in> set (CVSASX_PERM_MAP exact_isa). \<not> bit (snd row) 10"
    by (simp add: exact_perm_map bit_numeral_rec)
  moreover have "tag_get exact_isa ?cap" by (simp add: ex_root_def)
  ultimately show ?thesis
    using cheri_unmodelled_perms_refused[OF p _ st, of 10 exact_isa "x_cust ex_cust" "x_region ex_region" "null_cap exact_isa"] p
    by simp
qed

text \<open>
  C33: the two gates agree.  On an instruction set without bounds compression, for every
  request whose permission bits are ones the canonical encoding defines, the CHERI gate
  returns the same status as the software gate and the image of the same handle.
\<close>

theorem cheri_sw_gates_agree:
  assumes "gate_perms_defined (pir_perms p)"
  shows "cvsasx_cap_remint exact_isa (Some (x_cust cu)) (Some p) (Some (x_region r)) (Some xo) =
         map_prod id (map_option x_of_sw) (cvsasx_sw_cap_remint (Some cu) (Some p) (Some r) (Some so))"
  by (simp add: cvsasx_cap_remint_def cvsasx_sw_cap_remint_def exact_remint_body[OF assms] map_prod_def
        case_prod_beta)

theorem cheri_sw_gates_agree_witness:
  "fst (cvsasx_cap_remint exact_isa (Some (x_cust ex_cust)) (Some ex_pir) (Some (x_region ex_region))
     (Some (null_cap exact_isa))) = CVSASX_OK"
proof -
  have "gate_perms_defined (pir_perms ex_pir)"
    by (simp add: gate_perms_defined_def bits_within_def ex_pir_def cvsasx_pir_zero_def perm_simps)
  from cheri_sw_gates_agree[OF this, of ex_cust ex_region "null_cap exact_isa" null_swcap]
  show ?thesis by (simp add: ex_remint)
qed

text \<open>
  The hypothesis cannot be dropped: a permission bit that the encoding leaves undefined
  (bit 12) is refused by the CHERI gate and minted by the software gate when the region
  holds it, although the header of the software backend calls the two decision
  procedures identical.
\<close>

definition odd_perms :: u32 where
  "odd_perms = CVSASX_PERM_LOAD OR push_bit 12 1"

theorem sw_gate_mints_undefined_bit:
  "fst (cvsasx_sw_cap_remint (Some (ex_cust\<lparr>cu_root := ex_root\<lparr>sc_perms := odd_perms\<rparr>\<rparr>))
          (Some (ex_pir\<lparr>pir_perms := odd_perms\<rparr>))
          (Some (ex_region\<lparr>object_cap := (object_cap ex_region)\<lparr>sc_perms := odd_perms\<rparr>\<rparr>)) (Some null_swcap))
     = CVSASX_OK \<and>
   fst (cvsasx_cap_remint exact_isa (Some (x_cust (ex_cust\<lparr>cu_root := ex_root\<lparr>sc_perms := odd_perms\<rparr>\<rparr>)))
          (Some (ex_pir\<lparr>pir_perms := odd_perms\<rparr>))
          (Some (x_region (ex_region\<lparr>object_cap := (object_cap ex_region)\<lparr>sc_perms := odd_perms\<rparr>\<rparr>)))
          (Some (null_cap exact_isa)))
     = CVSASX_ERR_PERM_FORBIDDEN"
proof
  show "fst (cvsasx_sw_cap_remint (Some (ex_cust\<lparr>cu_root := ex_root\<lparr>sc_perms := odd_perms\<rparr>\<rparr>))
          (Some (ex_pir\<lparr>pir_perms := odd_perms\<rparr>))
          (Some (ex_region\<lparr>object_cap := (object_cap ex_region)\<lparr>sc_perms := odd_perms\<rparr>\<rparr>)) (Some null_swcap))
     = CVSASX_OK"
    by (simp add: remint_some_eq sw_remint_body_def sw_check_region_def ex_defs cvsasx_pir_zero_def
          odd_perms_def pir_const_defs perm_simps)
  have "cvsasx_perms_canonical_to_local exact_isa odd_perms = (0, CVSASX_ERR_PERM_FORBIDDEN)"
    by (simp add: exact_canonical_to_local odd_perms_def perms_forbidden_def perms_wx_def bits_within_def perm_simps)
  then show "fst (cvsasx_cap_remint exact_isa (Some (x_cust (ex_cust\<lparr>cu_root := ex_root\<lparr>sc_perms := odd_perms\<rparr>\<rparr>)))
          (Some (ex_pir\<lparr>pir_perms := odd_perms\<rparr>))
          (Some (x_region (ex_region\<lparr>object_cap := (object_cap ex_region)\<lparr>sc_perms := odd_perms\<rparr>\<rparr>)))
          (Some (null_cap exact_isa)))
     = CVSASX_ERR_PERM_FORBIDDEN"
    by (simp add: cvsasx_cap_remint_def cheri_remint_body_def exact_check_region sw_check_region_def ex_defs
          cvsasx_pir_zero_def pir_const_defs del: exact_isa_simps(8)) 
qed

end
