(* ===== verification/ObjectStore.thy ===== *)
theory ObjectStore
  imports Cap_Types
begin

text \<open>
  The content-addressed object store, \<^verbatim>\<open>store/object_store.c\<close> and
  \<^verbatim>\<open>store/cvsasx_store.h\<close>.  The digest function is an argument \<open>H\<close> of the
  operations that hash (\<^verbatim>\<open>cvsasx_blake3\<close>); the laws the store relies on are stated in
  the locale \<open>hash_fn\<close>.  The arena and the index are the caller's arrays, kept as lists
  whose lengths are the capacities, and the counters are 64-bit words.  The store keeps
  a well-formedness invariant; it refines a finite map from hashes to byte strings that
  only ever grows, which is the contract (\<open>content_store\<close>) the other modules use.
\<close>

section \<open>State\<close>

definition CVSASX_HASH_LEN :: nat where
  "CVSASX_HASH_LEN = 32"

datatype cvsasx_store_status =
    CVSASX_STORE_OK
  | CVSASX_STORE_MISS
  | CVSASX_STORE_FULL
  | CVSASX_STORE_NULL_ARG

record cvsasx_store_entry =
  se_hash :: bytes
  se_offset :: u64
  se_len :: u64

record cvsasx_store =
  st_arena :: bytes
  st_arena_cap :: u64
  st_arena_used :: u64
  st_index :: "cvsasx_store_entry list"
  st_index_cap :: u64
  st_index_count :: u64
  st_put_calls :: u64
  st_dedup_hits :: u64
  st_bytes_stored :: u64

section \<open>Operations\<close>

definition cvsasx_hash_eq :: "bytes \<Rightarrow> bytes \<Rightarrow> bool" where
  "cvsasx_hash_eq a b \<longleftrightarrow> byte_diff CVSASX_HASH_LEN a b = 0"

text \<open>The arena and index arrays are handed over with whatever they contain.\<close>

definition cvsasx_store_init :: "bytes \<Rightarrow> u64 \<Rightarrow> cvsasx_store_entry list \<Rightarrow> u64 \<Rightarrow> cvsasx_store" where
  "cvsasx_store_init arena arena_cap index index_cap =
     \<lparr>st_arena = arena, st_arena_cap = arena_cap, st_arena_used = 0,
      st_index = index, st_index_cap = index_cap, st_index_count = 0,
      st_put_calls = 0, st_dedup_hits = 0, st_bytes_stored = 0\<rparr>"

text \<open>The linear scan returns the position of the first matching entry.\<close>

definition find_entry :: "cvsasx_store \<Rightarrow> bytes \<Rightarrow> nat option" where
  "find_entry s hash =
     List.find (\<lambda>i. byte_diff CVSASX_HASH_LEN (se_hash (st_index s ! i)) hash = 0)
       [0..<unat (st_index_count s)]"

text \<open>\<open>put\<close> on a present store and a present buffer; the last component is \<^verbatim>\<open>*out_hash\<close> when written.\<close>

definition store_put ::
  "(bytes \<Rightarrow> bytes) \<Rightarrow> cvsasx_store \<Rightarrow> bytes \<Rightarrow> cvsasx_store_status \<times> cvsasx_store \<times> bytes option" where
  "store_put H s0 bs =
     (let s = s0\<lparr>st_put_calls := st_put_calls s0 + 1\<rparr>;
          h = H bs; len = word_of_nat (length bs) :: u64
      in if find_entry s h \<noteq> None
         then (CVSASX_STORE_OK, s\<lparr>st_dedup_hits := st_dedup_hits s + 1\<rparr>, Some h)
         else if st_index_count s \<ge> st_index_cap s then (CVSASX_STORE_FULL, s, None)
         else if len > st_arena_cap s - st_arena_used s then (CVSASX_STORE_FULL, s, None)
         else
           (CVSASX_STORE_OK,
            s\<lparr>st_arena := splice (unat (st_arena_used s)) bs (st_arena s),
              st_index := (st_index s)[unat (st_index_count s) :=
                 \<lparr>se_hash = take CVSASX_HASH_LEN h, se_offset = st_arena_used s, se_len = len\<rparr>],
              st_index_count := st_index_count s + 1,
              st_arena_used := st_arena_used s + len,
              st_bytes_stored := st_bytes_stored s + len\<rparr>,
            Some h))"

definition cvsasx_store_put ::
  "(bytes \<Rightarrow> bytes) \<Rightarrow> cvsasx_store option \<Rightarrow> bytes option \<Rightarrow> u64 \<Rightarrow>
   cvsasx_store_status \<times> cvsasx_store option \<times> bytes option" where
  "cvsasx_store_put H s data len =
     (case s of
        None \<Rightarrow> (CVSASX_STORE_NULL_ARG, None, None)
      | Some st \<Rightarrow>
          (if data = None \<and> len \<noteq> 0 then (CVSASX_STORE_NULL_ARG, s, None)
           else (case store_put H st (case data of None \<Rightarrow> [] | Some bs \<Rightarrow> take (unat len) bs) of
                   (r, st', h) \<Rightarrow> (r, Some st', h))))"

text \<open>\<open>get\<close> returns the bytes of the arena window that \<^verbatim>\<open>*out_bytes\<close>, \<^verbatim>\<open>*out_len\<close> describe.\<close>

definition entry_bytes :: "cvsasx_store \<Rightarrow> cvsasx_store_entry \<Rightarrow> bytes" where
  "entry_bytes s e = slice (unat (se_offset e)) (unat (se_len e)) (st_arena s)"

definition store_get :: "cvsasx_store \<Rightarrow> bytes \<Rightarrow> cvsasx_store_status \<times> bytes option" where
  "store_get s h =
     (case find_entry s h of
        None \<Rightarrow> (CVSASX_STORE_MISS, None)
      | Some i \<Rightarrow> (CVSASX_STORE_OK, Some (entry_bytes s (st_index s ! i))))"

definition cvsasx_store_get ::
  "cvsasx_store option \<Rightarrow> bytes option \<Rightarrow> cvsasx_store_status \<times> bytes option" where
  "cvsasx_store_get s h =
     (case (s, h) of
        (Some st, Some hh) \<Rightarrow> store_get st hh
      | _ \<Rightarrow> (CVSASX_STORE_NULL_ARG, None))"

definition cvsasx_store_exists :: "cvsasx_store option \<Rightarrow> bytes option \<Rightarrow> bool" where
  "cvsasx_store_exists s h =
     (case (s, h) of
        (Some st, Some hh) \<Rightarrow> find_entry st hh \<noteq> None
      | _ \<Rightarrow> False)"

section \<open>Well-formedness and abstraction\<close>

definition entry_ok :: "(bytes \<Rightarrow> bytes) \<Rightarrow> cvsasx_store \<Rightarrow> cvsasx_store_entry \<Rightarrow> bool" where
  "entry_ok H s e \<longleftrightarrow>
     unat (se_offset e) + unat (se_len e) \<le> unat (st_arena_used s) \<and> se_hash e = H (entry_bytes s e)"

definition store_inv :: "(bytes \<Rightarrow> bytes) \<Rightarrow> cvsasx_store \<Rightarrow> bool" where
  "store_inv H s \<longleftrightarrow>
     length (st_arena s) = unat (st_arena_cap s) \<and> st_arena_used s \<le> st_arena_cap s \<and>
     length (st_index s) = unat (st_index_cap s) \<and> st_index_count s \<le> st_index_cap s \<and>
     (\<forall>i < unat (st_index_count s). entry_ok H s (st_index s ! i)) \<and>
     (\<forall>i < unat (st_index_count s). \<forall>j < unat (st_index_count s).
        se_hash (st_index s ! i) = se_hash (st_index s ! j) \<longrightarrow> i = j)"

definition store_map :: "cvsasx_store \<Rightarrow> bytes \<rightharpoonup> bytes" where
  "store_map s h = snd (store_get s h)"

section \<open>The contract of a digest function and of a content store\<close>

locale hash_fn =
  fixes H :: "bytes \<Rightarrow> bytes"
  assumes length_H: "length (H bs) = 32"

locale content_store = hash_fn +
  fixes put :: "'s \<Rightarrow> bytes \<Rightarrow> cvsasx_store_status \<times> 's \<times> bytes option"
    and lookup :: "'s \<Rightarrow> bytes \<rightharpoonup> bytes"
    and inv :: "'s \<Rightarrow> bool"
  assumes inv_put: "inv s \<Longrightarrow> length bs < 2 ^ 64 \<Longrightarrow> put s bs = (r, s', oh) \<Longrightarrow> inv s'"
    and put_hash: "put s bs = (CVSASX_STORE_OK, s', oh) \<Longrightarrow> oh = Some (H bs)"
    and put_found: "inv s \<Longrightarrow> length bs < 2 ^ 64 \<Longrightarrow> put s bs = (CVSASX_STORE_OK, s', oh) \<Longrightarrow>
      length h = 32 \<Longrightarrow>
      lookup s' h = (if lookup s (H bs) = None then (lookup s)(H bs \<mapsto> bs) else lookup s) h"
    and put_fail: "put s bs = (r, s', oh) \<Longrightarrow> r \<noteq> CVSASX_STORE_OK \<Longrightarrow> lookup s' = lookup s \<and> oh = None"
    and lookup_hash: "inv s \<Longrightarrow> length h = 32 \<Longrightarrow> lookup s h = Some b \<Longrightarrow> H b = h"
begin

text \<open>Nothing a client has stored is ever changed or lost by a later put.\<close>

lemma lookup_mono:
  assumes "inv s" "length bs < 2 ^ 64" "put s bs = (r, s', oh)" "length h = 32" "lookup s h = Some b"
  shows "lookup s' h = Some b"
  using assms put_found[of s bs s' oh h] put_fail[of s bs r s' oh]
  by (cases "r = CVSASX_STORE_OK") (auto split: if_splits)

lemma put_lookup:
  assumes "inv s" "length bs < 2 ^ 64" "put s bs = (CVSASX_STORE_OK, s', oh)"
  obtains b where "lookup s' (H bs) = Some b" "H b = H bs"
    "lookup s (H bs) = None \<Longrightarrow> b = bs"
proof (cases "lookup s (H bs)")
  case None
  then have "lookup s' (H bs) = Some bs" using assms put_found length_H by simp
  then show ?thesis using that[of bs] by simp
next
  case (Some b)
  then have "lookup s' (H bs) = Some b" using assms put_found length_H by simp
  moreover have "H b = H bs" using lookup_hash[OF assms(1) _ Some] length_H by simp
  ultimately show ?thesis using that[of b] Some by simp
qed

lemma put_lookup_collision_free:
  assumes "inv s" "length bs < 2 ^ 64" "put s bs = (CVSASX_STORE_OK, s', oh)"
    and "\<And>b. H b = H bs \<Longrightarrow> b = bs"
  shows "lookup s' (H bs) = Some bs"
proof -
  obtain b where "lookup s' (H bs) = Some b" "H b = H bs"
    using put_lookup[OF assms(1-3)] by metis
  with assms(4) show ?thesis by blast
qed

end

section \<open>The scan\<close>

lemma cvsasx_hash_eq_iff:
  "length a = 32 \<Longrightarrow> length b = 32 \<Longrightarrow> cvsasx_hash_eq a b \<longleftrightarrow> a = b"
  by (simp add: cvsasx_hash_eq_def CVSASX_HASH_LEN_def byte_diff_len_iff)

lemma find_entry_frame [simp]:
  "find_entry (s\<lparr>st_put_calls := x\<rparr>) h = find_entry s h"
  "find_entry (s\<lparr>st_dedup_hits := x\<rparr>) h = find_entry s h"
  by (simp_all add: find_entry_def)

lemma find_entry_SomeD:
  "find_entry s h = Some i \<Longrightarrow>
     i < unat (st_index_count s) \<and> byte_diff 32 (se_hash (st_index s ! i)) h = 0"
  by (auto simp: find_entry_def find_Some_iff CVSASX_HASH_LEN_def)

lemma find_entry_NoneD:
  "find_entry s h = None \<Longrightarrow> i < unat (st_index_count s) \<Longrightarrow>
     byte_diff 32 (se_hash (st_index s ! i)) h \<noteq> 0"
  by (auto simp: find_entry_def find_None_iff CVSASX_HASH_LEN_def)

context hash_fn
begin

lemma entry_hash_len: "entry_ok H s e \<Longrightarrow> length (se_hash e) = 32"
  by (simp add: entry_ok_def length_H)

lemma find_entry_iff:
  assumes "store_inv H s" "length h = 32"
  shows "find_entry s h = Some i \<longleftrightarrow> i < unat (st_index_count s) \<and> se_hash (st_index s ! i) = h"
proof
  assume f: "find_entry s h = Some i"
  then have i: "i < unat (st_index_count s)" and b: "byte_diff 32 (se_hash (st_index s ! i)) h = 0"
    by (auto dest: find_entry_SomeD)
  have "length (se_hash (st_index s ! i)) = 32"
    using assms(1) i entry_hash_len by (auto simp: store_inv_def)
  with b i assms(2) show "i < unat (st_index_count s) \<and> se_hash (st_index s ! i) = h"
    by (simp add: byte_diff_len_iff)
next
  assume a: "i < unat (st_index_count s) \<and> se_hash (st_index s ! i) = h"
  then have "byte_diff 32 (se_hash (st_index s ! i)) h = 0" by (simp add: byte_diff_eq_0_iff)
  with a obtain j where j: "find_entry s h = Some j"
    using find_entry_NoneD by (metis not_Some_eq)
  then have "j < unat (st_index_count s)" and b: "byte_diff 32 (se_hash (st_index s ! j)) h = 0"
    by (auto dest: find_entry_SomeD)
  moreover from this have "length (se_hash (st_index s ! j)) = 32"
    using assms(1) entry_hash_len by (auto simp: store_inv_def)
  ultimately have "j = i"
    using a assms by (auto simp: byte_diff_len_iff store_inv_def)
  with j show "find_entry s h = Some i" by simp
qed

lemma store_map_iff:
  assumes "store_inv H s" "length h = 32"
  shows "store_map s h = Some b \<longleftrightarrow>
    (\<exists>i < unat (st_index_count s). se_hash (st_index s ! i) = h \<and> entry_bytes s (st_index s ! i) = b)"
proof (cases "find_entry s h")
  case None
  then have "\<not> (\<exists>i < unat (st_index_count s). se_hash (st_index s ! i) = h)"
    using find_entry_iff[OF assms] by auto
  then show ?thesis using None by (auto simp: store_map_def store_get_def)
next
  case (Some j)
  then have "i < unat (st_index_count s) \<and> se_hash (st_index s ! i) = h \<longleftrightarrow> i = j" for i
    using find_entry_iff[OF assms] by (metis option.inject)
  then have "(\<exists>i < unat (st_index_count s). se_hash (st_index s ! i) = h \<and> entry_bytes s (st_index s ! i) = b)
      \<longleftrightarrow> entry_bytes s (st_index s ! j) = b"
    by metis
  then show ?thesis using Some by (simp add: store_map_def store_get_def)
qed

lemma store_map_None_iff:
  assumes "store_inv H s" "length h = 32"
  shows "store_map s h = None \<longleftrightarrow> find_entry s h = None"
  by (simp add: store_map_def store_get_def split: option.splits)

end

lemma store_map_frame [simp]:
  "store_map (s\<lparr>st_put_calls := x\<rparr>) = store_map s"
  "store_map (s\<lparr>st_dedup_hits := x\<rparr>) = store_map s"
  by (simp_all add: fun_eq_iff store_map_def store_get_def entry_bytes_def split: option.splits)

lemma store_inv_frame [simp]:
  "store_inv H (s\<lparr>st_put_calls := x\<rparr>) = store_inv H s"
  "store_inv H (s\<lparr>st_dedup_hits := x\<rparr>) = store_inv H s"
  by (simp_all add: store_inv_def entry_ok_def entry_bytes_def)

section \<open>Appending an object\<close>

definition store_append :: "cvsasx_store \<Rightarrow> bytes \<Rightarrow> bytes \<Rightarrow> cvsasx_store" where
  "store_append s h bs =
     s\<lparr>st_arena := splice (unat (st_arena_used s)) bs (st_arena s),
       st_index := (st_index s)[unat (st_index_count s) :=
          \<lparr>se_hash = h, se_offset = st_arena_used s, se_len = word_of_nat (length bs)\<rparr>],
       st_index_count := st_index_count s + 1,
       st_arena_used := st_arena_used s + word_of_nat (length bs),
       st_bytes_stored := st_bytes_stored s + word_of_nat (length bs)\<rparr>"

definition store_has_room :: "cvsasx_store \<Rightarrow> bytes \<Rightarrow> bool" where
  "store_has_room s bs \<longleftrightarrow>
     st_index_count s < st_index_cap s \<and> unat (st_arena_used s) + length bs \<le> unat (st_arena_cap s)"

lemma store_put_cases:
  assumes "store_inv H s" "length bs < 2 ^ 64" and len: "length (H bs) = 32"
  shows "store_put H s bs =
    (if find_entry s (H bs) \<noteq> None
     then (CVSASX_STORE_OK, s\<lparr>st_put_calls := st_put_calls s + 1, st_dedup_hits := st_dedup_hits s + 1\<rparr>, Some (H bs))
     else if store_has_room s bs
          then (CVSASX_STORE_OK, store_append (s\<lparr>st_put_calls := st_put_calls s + 1\<rparr>) (H bs) bs, Some (H bs))
     else (CVSASX_STORE_FULL, s\<lparr>st_put_calls := st_put_calls s + 1\<rparr>, None))"
proof -
  have u: "unat (word_of_nat (length bs) :: u64) = length bs"
    using assms(2) by (simp add: unat_of_nat)
  have le: "st_arena_used s \<le> st_arena_cap s" using assms(1) by (simp add: store_inv_def)
  have w: "(word_of_nat (length bs) :: u64) \<le> st_arena_cap s - st_arena_used s \<longleftrightarrow>
      unat (st_arena_used s) + length bs \<le> unat (st_arena_cap s)"
    using window_iff[OF le, of "word_of_nat (length bs)"] by (simp only: u)
  show ?thesis
    unfolding store_put_def Let_def store_has_room_def store_append_def
    using w len by (auto simp: not_less not_le CVSASX_HASH_LEN_def)
qed

context hash_fn
begin

lemma store_put_eq:
  "store_inv H s \<Longrightarrow> length bs < 2 ^ 64 \<Longrightarrow> store_put H s bs =
    (if find_entry s (H bs) \<noteq> None
     then (CVSASX_STORE_OK, s\<lparr>st_put_calls := st_put_calls s + 1, st_dedup_hits := st_dedup_hits s + 1\<rparr>, Some (H bs))
     else if store_has_room s bs
          then (CVSASX_STORE_OK, store_append (s\<lparr>st_put_calls := st_put_calls s + 1\<rparr>) (H bs) bs, Some (H bs))
     else (CVSASX_STORE_FULL, s\<lparr>st_put_calls := st_put_calls s + 1\<rparr>, None))"
  using store_put_cases length_H by blast

lemma append_facts:
  assumes inv: "store_inv H s" and len: "length bs < 2 ^ 64" and room: "store_has_room s bs"
  shows "unat (st_index_count (store_append s h bs)) = Suc (unat (st_index_count s))"
    and "unat (st_arena_used (store_append s h bs)) = unat (st_arena_used s) + length bs"
    and "length (st_arena (store_append s h bs)) = length (st_arena s)"
    and "i < unat (st_index_count s) \<Longrightarrow> st_index (store_append s h bs) ! i = st_index s ! i"
    and "st_index (store_append s h bs) ! unat (st_index_count s) =
      \<lparr>se_hash = h, se_offset = st_arena_used s, se_len = word_of_nat (length bs)\<rparr>"
    and "entry_bytes (store_append s h bs) \<lparr>se_hash = h, se_offset = st_arena_used s, se_len = word_of_nat (length bs)\<rparr> = bs"
    and "unat (se_offset e) + unat (se_len e) \<le> unat (st_arena_used s) \<Longrightarrow>
      entry_bytes (store_append s h bs) e = entry_bytes s e"
proof -
  have u: "unat (word_of_nat (length bs) :: u64) = length bs"
    using len by (simp add: unat_of_nat)
  have lt: "unat (st_index_count s) < unat (st_index_cap s)"
    using room by (simp add: store_has_room_def word_less_nat_alt)
  have ar: "unat (st_arena_used s) + length bs \<le> length (st_arena s)"
    using room inv by (simp add: store_has_room_def store_inv_def)
  show "unat (st_index_count (store_append s h bs)) = Suc (unat (st_index_count s))"
    using lt unat_lt2p[of "st_index_cap s"] by (simp add: store_append_def unat_word_ariths)
  show "unat (st_arena_used (store_append s h bs)) = unat (st_arena_used s) + length bs"
    using ar inv unat_lt2p[of "st_arena_cap s"] by (simp add: store_append_def unat_word_ariths u store_inv_def)
  show "length (st_arena (store_append s h bs)) = length (st_arena s)"
    using ar by (simp add: store_append_def)
  show "i < unat (st_index_count s) \<Longrightarrow> st_index (store_append s h bs) ! i = st_index s ! i"
    by (simp add: store_append_def)
  show "st_index (store_append s h bs) ! unat (st_index_count s) =
      \<lparr>se_hash = h, se_offset = st_arena_used s, se_len = word_of_nat (length bs)\<rparr>"
    using lt inv by (simp add: store_append_def store_inv_def)
  show "entry_bytes (store_append s h bs) \<lparr>se_hash = h, se_offset = st_arena_used s, se_len = word_of_nat (length bs)\<rparr> = bs"
    using ar by (simp add: entry_bytes_def store_append_def u slice_splice_same)
  show "entry_bytes (store_append s h bs) e = entry_bytes s e"
    if "unat (se_offset e) + unat (se_len e) \<le> unat (st_arena_used s)"
    using that ar by (simp add: entry_bytes_def store_append_def slice_splice_before)
qed

lemma append_entry:
  assumes inv: "store_inv H s" and len: "length bs < 2 ^ 64" and room: "store_has_room s bs"
    and i: "i < Suc (unat (st_index_count s))"
  shows "entry_ok H (store_append s (H bs) bs) (st_index (store_append s (H bs) bs) ! i)"
proof (cases "i < unat (st_index_count s)")
  case True
  note A = append_facts[OF inv len room]
  have ok: "entry_ok H s (st_index s ! i)" using inv True by (simp add: store_inv_def)
  then show ?thesis
    using A(2,4,7)[where h = "H bs"] True by (auto simp: entry_ok_def)
next
  case False
  with i have i': "i = unat (st_index_count s)" by simp
  note A = append_facts[OF inv len room, where h = "H bs"]
  have "unat (word_of_nat (length bs) :: u64) = length bs" using len by (simp add: unat_of_nat)
  then show ?thesis
    using A(2) unfolding i' A(5) by (simp add: entry_ok_def A(6))
qed

lemma find_entry_fresh:
  assumes "store_inv H s" "find_entry s (H bs) = None" "i < unat (st_index_count s)"
  shows "se_hash (st_index s ! i) \<noteq> H bs" and "H bs \<noteq> se_hash (st_index s ! i)"
  using find_entry_iff[OF assms(1) length_H] assms(2,3) by (metis option.distinct(1))+

lemma append_inv:
  assumes inv: "store_inv H s" and len: "length bs < 2 ^ 64" and room: "store_has_room s bs"
    and new: "find_entry s (H bs) = None"
  shows "store_inv H (store_append s (H bs) bs)"
proof -
  let ?t = "store_append s (H bs) bs"
  note A = append_facts[OF inv len room, where h = "H bs"]
  have n: "unat (st_index_count ?t) = Suc (unat (st_index_count s))" by (rule A(1))
  have hsh: "se_hash (st_index ?t ! i) = (if i < unat (st_index_count s) then se_hash (st_index s ! i) else H bs)"
    if "i < Suc (unat (st_index_count s))" for i
    using that A(4,5) by (auto simp: less_Suc_eq)
  have "se_hash (st_index ?t ! i) = se_hash (st_index ?t ! j) \<longrightarrow> i = j"
    if "i < Suc (unat (st_index_count s))" "j < Suc (unat (st_index_count s))" for i j
    using that find_entry_fresh[OF inv new] inv by (auto simp: hsh store_inv_def)
  moreover have "st_arena_used ?t \<le> st_arena_cap ?t"
    using A(2) room by (simp add: word_le_nat_alt store_has_room_def) (simp add: store_append_def)
  moreover have "st_index_count ?t \<le> st_index_cap ?t"
    using n room by (simp add: word_le_nat_alt store_has_room_def word_less_nat_alt) (simp add: store_append_def)
  moreover have "length (st_index ?t) = unat (st_index_cap ?t)" "length (st_arena ?t) = unat (st_arena_cap ?t)"
    using inv A(3) by (simp_all add: store_append_def store_inv_def)
  ultimately show ?thesis
    using append_entry[OF inv len room] n by (simp add: store_inv_def)
qed

lemma append_map:
  assumes inv: "store_inv H s" and len: "length bs < 2 ^ 64" and room: "store_has_room s bs"
    and new: "find_entry s (H bs) = None" and h: "length h = 32"
  shows "store_map (store_append s (H bs) bs) h = ((store_map s)(H bs \<mapsto> bs)) h"
proof -
  let ?t = "store_append s (H bs) bs"
  note A = append_facts[OF inv len room, where h = "H bs"]
  note T = store_map_iff[OF append_inv[OF inv len room new] h]
  have ent: "unat (se_offset (st_index s ! i)) + unat (se_len (st_index s ! i)) \<le> unat (st_arena_used s)"
    if "i < unat (st_index_count s)" for i
    using inv that by (simp add: store_inv_def entry_ok_def)
  have "store_map ?t h = Some b \<longleftrightarrow> ((store_map s)(H bs \<mapsto> bs)) h = Some b" for b
  proof -
    have "store_map ?t h = Some b \<longleftrightarrow>
        (\<exists>i < unat (st_index_count s). se_hash (st_index s ! i) = h \<and> entry_bytes s (st_index s ! i) = b) \<or>
        (H bs = h \<and> bs = b)"
      unfolding T A(1) using A(4,5,6,7) ent by (auto simp: less_Suc_eq)
    then show ?thesis
      using store_map_iff[OF inv h] find_entry_fresh[OF inv new] by auto
  qed
  then show ?thesis by (metis not_Some_eq)
qed

end

section \<open>The store keeps its contract\<close>

lemma store_put_hash: "store_put H s bs = (CVSASX_STORE_OK, s', oh) \<Longrightarrow> oh = Some (H bs)"
  by (auto simp: store_put_def Let_def split: if_splits)

lemma store_put_fail:
  "store_put H s bs = (r, s', oh) \<Longrightarrow> r \<noteq> CVSASX_STORE_OK \<Longrightarrow>
   s' = s\<lparr>st_put_calls := st_put_calls s + 1\<rparr> \<and> oh = None \<and> r = CVSASX_STORE_FULL"
  by (auto simp: store_put_def Let_def split: if_splits)

context hash_fn
begin

lemma store_put_inv:
  assumes "store_inv H s" "length bs < 2 ^ 64" "store_put H s bs = (r, s', oh)"
  shows "store_inv H s'"
  using assms(3) append_inv[of "s\<lparr>st_put_calls := st_put_calls s + 1\<rparr>" bs] assms(1,2)
  unfolding store_put_eq[OF assms(1,2)]
  by (auto simp: store_has_room_def split: if_splits)

lemma store_put_map:
  assumes "store_inv H s" "length bs < 2 ^ 64" "store_put H s bs = (CVSASX_STORE_OK, s', oh)" "length h = 32"
  shows "store_map s' h = (if store_map s (H bs) = None then (store_map s)(H bs \<mapsto> bs) else store_map s) h"
  using assms(3) append_map[of "s\<lparr>st_put_calls := st_put_calls s + 1\<rparr>" bs h] assms(1,2,4)
  unfolding store_put_eq[OF assms(1,2)] store_map_None_iff[OF assms(1) length_H]
  by (auto simp: store_has_room_def split: if_splits)

lemma store_map_hash:
  assumes "store_inv H s" "length h = 32" "store_map s h = Some b"
  shows "H b = h"
  using assms store_map_iff[OF assms(1,2)] by (auto simp: store_inv_def entry_ok_def)

end

sublocale hash_fn \<subseteq> st: content_store H "store_put H" store_map "store_inv H"
proof unfold_locales
  show "store_inv H s'" if "store_inv H s" "length bs < 2 ^ 64" "store_put H s bs = (r, s', oh)" for s bs r s' oh
    using that by (rule store_put_inv)
  show "oh = Some (H bs)" if "store_put H s bs = (CVSASX_STORE_OK, s', oh)" for s bs s' oh
    using that by (rule store_put_hash)
  show "store_map s' h = (if store_map s (H bs) = None then (store_map s)(H bs \<mapsto> bs) else store_map s) h"
    if "store_inv H s" "length bs < 2 ^ 64" "store_put H s bs = (CVSASX_STORE_OK, s', oh)" "length h = 32"
    for s bs s' oh h
    using that by (rule store_put_map)
  show "store_map s' = store_map s \<and> oh = None"
    if "store_put H s bs = (r, s', oh)" "r \<noteq> CVSASX_STORE_OK" for s bs r s' oh
    using store_put_fail[OF that] by simp
  show "H b = h" if "store_inv H s" "length h = 32" "store_map s h = Some b" for s h b
    using that by (rule store_map_hash)
qed

context hash_fn
begin

lemmas store_put_lookup = st.put_lookup
lemmas store_put_lookup_collision_free = st.put_lookup_collision_free
lemmas store_lookup_mono = st.lookup_mono

end

section \<open>Sequences of puts\<close>

fun store_puts ::
  "(bytes \<Rightarrow> bytes) \<Rightarrow> cvsasx_store \<Rightarrow> bytes list \<Rightarrow> cvsasx_store_status list \<times> cvsasx_store" where
  "store_puts H s [] = ([], s)"
| "store_puts H s (b # bs) =
     (case store_put H s b of (r, s', _) \<Rightarrow> (case store_puts H s' bs of (rs, s'') \<Rightarrow> (r # rs, s'')))"

lemma store_init_inv:
  "length arena = unat acap \<Longrightarrow> length idx = unat icap \<Longrightarrow> store_inv H (cvsasx_store_init arena acap idx icap)"
  by (simp add: store_inv_def cvsasx_store_init_def)

lemma store_init_map: "store_map (cvsasx_store_init arena acap idx icap) h = None"
  by (simp add: store_map_def store_get_def find_entry_def cvsasx_store_init_def)

context hash_fn
begin

lemma store_puts_inv:
  assumes "store_inv H s" "\<forall>b \<in> set bs. length b < 2 ^ 64" "store_puts H s bs = (rs, s')"
  shows "store_inv H s'"
  using assms
proof (induction bs arbitrary: s rs)
  case (Cons b bs)
  obtain r s1 oh where p: "store_put H s b = (r, s1, oh)" by (cases "store_put H s b")
  have "store_inv H s1" using Cons.prems(1,2) store_put_inv[OF _ _ p] by simp
  with Cons p show ?case by (auto split: prod.splits)
qed simp

lemma store_puts_mono:
  assumes "store_inv H s" "\<forall>b \<in> set bs. length b < 2 ^ 64" "store_puts H s bs = (rs, s')"
    and "length h = 32" "store_map s h = Some x"
  shows "store_map s' h = Some x"
  using assms
proof (induction bs arbitrary: s rs)
  case (Cons b bs)
  obtain r s1 oh where p: "store_put H s b = (r, s1, oh)" by (cases "store_put H s b")
  have "store_inv H s1" "store_map s1 h = Some x"
    using Cons.prems store_put_inv[OF _ _ p] st.lookup_mono[OF _ _ p] by simp_all
  with Cons p show ?case by (auto split: prod.splits)
qed simp

lemma stored_hashes:
  assumes "store_inv H s"
  shows "card {h. length h = 32 \<and> store_map s h \<noteq> None} = unat (st_index_count s)"
proof -
  let ?n = "unat (st_index_count s)"
  have l: "length (se_hash (st_index s ! i)) = 32" if "i < ?n" for i
    using assms that entry_hash_len[of s] by (auto simp: store_inv_def)
  have "{h. length h = 32 \<and> store_map s h \<noteq> None} = (\<lambda>i. se_hash (st_index s ! i)) ` {..<?n}"
  proof (intro set_eqI iffI)
    fix h assume "h \<in> {h. length h = 32 \<and> store_map s h \<noteq> None}"
    then show "h \<in> (\<lambda>i. se_hash (st_index s ! i)) ` {..<?n}"
      using store_map_iff[OF assms] by auto
  next
    fix h assume "h \<in> (\<lambda>i. se_hash (st_index s ! i)) ` {..<?n}"
    then obtain i where i: "i < ?n" "h = se_hash (st_index s ! i)" by auto
    then have "store_map s h = Some (entry_bytes s (st_index s ! i))"
      using store_map_iff[OF assms l[OF i(1)]] by auto
    then show "h \<in> {h. length h = 32 \<and> store_map s h \<noteq> None}" using i l by simp
  qed
  moreover have "inj_on (\<lambda>i. se_hash (st_index s ! i)) {..<?n}"
    using assms by (auto simp: inj_on_def store_inv_def)
  ultimately show ?thesis by (simp add: card_image)
qed

lemma store_puts_dom:
  assumes "store_inv H s" "\<forall>b \<in> set bs. length b < 2 ^ 64" "store_puts H s bs = (rs, s')"
    and "\<forall>r \<in> set rs. r = CVSASX_STORE_OK"
  shows "{h. length h = 32 \<and> store_map s' h \<noteq> None} = {h. length h = 32 \<and> store_map s h \<noteq> None} \<union> H ` set bs"
  using assms
proof (induction bs arbitrary: s rs)
  case (Cons b bs)
  obtain r s1 oh where p: "store_put H s b = (r, s1, oh)" by (cases "store_put H s b")
  obtain rs1 s2 where q: "store_puts H s1 bs = (rs1, s2)" by (cases "store_puts H s1 bs")
  from Cons.prems p q have ok: "r = CVSASX_STORE_OK" "s2 = s'" "\<forall>r \<in> set rs1. r = CVSASX_STORE_OK" by auto
  have i1: "store_inv H s1" using Cons.prems store_put_inv[OF _ _ p] by simp
  have "length h = 32 \<Longrightarrow> store_map s1 h \<noteq> None \<longleftrightarrow> store_map s h \<noteq> None \<or> h = H b" for h
    using store_put_map[of s b s1 oh h] Cons.prems p ok(1) by (auto split: if_splits)
  then have "{h. length h = 32 \<and> store_map s1 h \<noteq> None} = insert (H b) {h. length h = 32 \<and> store_map s h \<noteq> None}"
    using length_H by auto
  then show ?case using Cons.IH[OF i1 _ q[unfolded ok(2)] ok(3)] Cons.prems(2) by auto
qed simp

end

section \<open>Properties\<close>

text \<open>
  content integrity.  A successful put returns the digest of the bytes, and a later
  get of that digest returns an object with that digest, which is the very bytes unless
  the digest function collides on them; the store stays well-formed.
\<close>

theorem store_put_get:
  assumes "hash_fn H" and "store_inv H s" and "length bs < 2 ^ 64"
    and "cvsasx_store_put H (Some s) (Some bs) (word_of_nat (length bs)) = (CVSASX_STORE_OK, Some s', oh)"
  shows "oh = Some (H bs) \<and> store_inv H s' \<and>
         (\<exists>b. cvsasx_store_get (Some s') (Some (H bs)) = (CVSASX_STORE_OK, Some b) \<and> H b = H bs \<and>
              ((\<forall>c. H c = H bs \<longrightarrow> c = bs) \<longrightarrow> b = bs))"
proof -
  have "take (unat (word_of_nat (length bs) :: u64)) bs = bs"
    using assms(3) by (simp add: unat_of_nat)
  with assms(4) have put: "store_put H s bs = (CVSASX_STORE_OK, s', oh)"
    by (auto simp: cvsasx_store_put_def split: prod.splits)
  obtain b where b: "store_map s' (H bs) = Some b" "H b = H bs"
    using hash_fn.store_put_lookup[OF assms(1-3) put] by metis
  then have "cvsasx_store_get (Some s') (Some (H bs)) = (CVSASX_STORE_OK, Some b)"
    by (auto simp: cvsasx_store_get_def store_map_def store_get_def split: option.splits)
  with b store_put_hash[OF put] hash_fn.store_put_inv[OF assms(1-3) put] show ?thesis by auto
qed

text \<open>A concrete digest for the worked instances: the first 32 bytes, zero-padded.\<close>

definition pad_hash :: "bytes \<Rightarrow> bytes" where
  "pad_hash bs = take 32 (bs @ replicate 32 0)"

lemma hash_fn_pad_hash: "hash_fn pad_hash"
  by unfold_locales (simp add: pad_hash_def)

definition ex_store :: cvsasx_store where
  "ex_store = cvsasx_store_init (replicate 64 0) 64
                (replicate 4 \<lparr>se_hash = replicate 32 0, se_offset = 0, se_len = 0\<rparr>) 4"

lemma ex_store_inv: "store_inv pad_hash ex_store"
  unfolding ex_store_def by (rule store_init_inv) simp_all

lemma ex_store_put:
  "\<exists>s'. cvsasx_store_put pad_hash (Some ex_store) (Some [1, 2, 3]) (word_of_nat (length [1, 2, 3 :: u8]))
          = (CVSASX_STORE_OK, Some s', Some (pad_hash [1, 2, 3]))"
  by (simp add: cvsasx_store_put_def store_put_def Let_def find_entry_def ex_store_def cvsasx_store_init_def)

theorem store_put_get_witness:
  "\<exists>s' b. cvsasx_store_get (Some s') (Some (pad_hash [1, 2, 3])) = (CVSASX_STORE_OK, Some b) \<and>
          pad_hash b = pad_hash [1, 2, 3]"
proof -
  obtain s' where s': "cvsasx_store_put pad_hash (Some ex_store) (Some [1, 2, 3]) (word_of_nat (length [1, 2, 3 :: u8]))
      = (CVSASX_STORE_OK, Some s', Some (pad_hash [1, 2, 3]))"
    using ex_store_put by blast
  have "length [1, 2, 3 :: u8] < 2 ^ 64" by simp
  from store_put_get[OF hash_fn_pad_hash ex_store_inv this s'] show ?thesis by blast
qed

text \<open>
  C23: immutability.  No sequence of puts, successful or refused, changes or loses an
  object that was retrievable before, and the store stays well-formed.
\<close>

theorem store_immutable:
  assumes "hash_fn H" and "store_inv H s" and "\<forall>b \<in> set bs. length b < 2 ^ 64"
    and "store_puts H s bs = (rs, s')"
    and "length h = 32" and "cvsasx_store_get (Some s) (Some h) = (CVSASX_STORE_OK, Some x)"
  shows "cvsasx_store_get (Some s') (Some h) = (CVSASX_STORE_OK, Some x) \<and> H x = h \<and> store_inv H s'"
proof -
  have m: "store_map s h = Some x"
    using assms(6) by (simp add: cvsasx_store_get_def store_map_def)
  then have "store_map s' h = Some x"
    using hash_fn.store_puts_mono[OF assms(1-5)] by simp
  then have "cvsasx_store_get (Some s') (Some h) = (CVSASX_STORE_OK, Some x)"
    by (auto simp: cvsasx_store_get_def store_map_def store_get_def split: option.splits)
  then show ?thesis
    using hash_fn.store_map_hash[OF assms(1,2,5) m] hash_fn.store_puts_inv[OF assms(1-4)] by simp
qed

theorem store_immutable_witness:
  "\<exists>s1 rs s2. store_puts pad_hash ex_store [[1, 2, 3]] = ([CVSASX_STORE_OK], s1) \<and>
     store_puts pad_hash s1 [[4, 5], replicate 90 0] = (rs, s2) \<and>
     cvsasx_store_get (Some s2) (Some (pad_hash [1, 2, 3])) = (CVSASX_STORE_OK, Some [1, 2, 3])"
proof -
  obtain s1 where s1: "store_puts pad_hash ex_store [[1, 2, 3]] = ([CVSASX_STORE_OK], s1)"
      "cvsasx_store_get (Some s1) (Some (pad_hash [1, 2, 3])) = (CVSASX_STORE_OK, Some [1, 2, 3])"
    by (simp add: store_put_def Let_def find_entry_def ex_store_def cvsasx_store_init_def
          cvsasx_store_get_def store_get_def entry_bytes_def slice_def splice_def CVSASX_HASH_LEN_def
          pad_hash_def byte_diff_eq_0_iff)
  obtain rs s2 where s2: "store_puts pad_hash s1 [[4, 5], replicate 90 0] = (rs, s2)"
    by (cases "store_puts pad_hash s1 [[4, 5], replicate 90 0]")
  have inv: "store_inv pad_hash s1"
    using hash_fn.store_puts_inv[OF hash_fn_pad_hash ex_store_inv _ s1(1)] by simp
  have "\<forall>b \<in> set [[4, 5], replicate 90 (0 :: u8)]. length b < 2 ^ 64" by simp
  from store_immutable[OF hash_fn_pad_hash inv this s2 _ s1(2)] s1(1) s2
  show ?thesis by (auto simp: pad_hash_def)
qed

text \<open>
  deduplication.  Starting from an initialised store, after any sequence of puts that
  all succeed the number of index entries is the number of distinct digests put, however
  often each object was put.
\<close>

theorem store_dedup:
  assumes "hash_fn H" and "length arena = unat acap" and "length idx = unat icap"
    and "\<forall>b \<in> set bs. length b < 2 ^ 64"
    and "store_puts H (cvsasx_store_init arena acap idx icap) bs = (rs, s')"
    and "\<forall>r \<in> set rs. r = CVSASX_STORE_OK"
  shows "unat (st_index_count s') = card (H ` set bs)"
proof -
  have inv: "store_inv H (cvsasx_store_init arena acap idx icap)"
    using assms(2,3) by (rule store_init_inv)
  have "{h. length h = 32 \<and> store_map s' h \<noteq> None} = H ` set bs"
    using hash_fn.store_puts_dom[OF assms(1) inv assms(4-6)] by (simp add: store_init_map)
  then show ?thesis
    using hash_fn.stored_hashes[OF assms(1) hash_fn.store_puts_inv[OF assms(1) inv assms(4,5)]] by simp
qed

theorem store_dedup_witness:
  "\<exists>s'. store_puts pad_hash ex_store [[1, 2, 3], [1, 2, 3], [1, 2, 3]]
          = ([CVSASX_STORE_OK, CVSASX_STORE_OK, CVSASX_STORE_OK], s') \<and> unat (st_index_count s') = 1"
proof -
  obtain s' where s': "store_puts pad_hash ex_store [[1, 2, 3], [1, 2, 3], [1, 2, 3]]
      = ([CVSASX_STORE_OK, CVSASX_STORE_OK, CVSASX_STORE_OK], s')"
    by (simp add: store_put_def Let_def find_entry_def ex_store_def cvsasx_store_init_def
          CVSASX_HASH_LEN_def pad_hash_def byte_diff_eq_0_iff)
  have "unat (st_index_count s') = card (pad_hash ` set [[1, 2, 3], [1, 2, 3], [1, 2, 3 :: u8]])"
    by (rule store_dedup[OF hash_fn_pad_hash _ _ _ s'[unfolded ex_store_def]]) simp_all
  with s' show ?thesis by simp
qed

text \<open>
  the refusal condition.  A put is refused exactly when the digest is not already
  present and the index or the arena has no room (no wrap-around in the capacity test);
  a refusal changes nothing but the call counter, and an accepted put of a new object
  uses exactly its length.
\<close>

theorem store_put_full_iff:
  assumes "hash_fn H" and "store_inv H s" and "length bs < 2 ^ 64"
  shows "(fst (store_put H s bs) = CVSASX_STORE_FULL \<longleftrightarrow>
            find_entry s (H bs) = None \<and>
            (unat (st_index_count s) = unat (st_index_cap s) \<or>
             unat (st_arena_cap s) < unat (st_arena_used s) + length bs)) \<and>
         (fst (store_put H s bs) = CVSASX_STORE_FULL \<longrightarrow>
            fst (snd (store_put H s bs)) = s\<lparr>st_put_calls := st_put_calls s + 1\<rparr>) \<and>
         (fst (store_put H s bs) = CVSASX_STORE_OK \<and> find_entry s (H bs) = None \<longrightarrow>
            unat (st_arena_used (fst (snd (store_put H s bs)))) = unat (st_arena_used s) + length bs)"
proof -
  note eq = hash_fn.store_put_eq[OF assms]
  have le: "unat (st_index_count s) \<le> unat (st_index_cap s)"
    using assms(2) by (simp add: store_inv_def word_le_nat_alt)
  have room: "\<not> store_has_room s bs \<longleftrightarrow> unat (st_index_count s) = unat (st_index_cap s) \<or>
             unat (st_arena_cap s) < unat (st_arena_used s) + length bs"
    using le by (auto simp: store_has_room_def word_less_nat_alt)
  have "unat (st_arena_used (store_append (s\<lparr>st_put_calls := st_put_calls s + 1\<rparr>) (H bs) bs))
      = unat (st_arena_used s) + length bs" if "store_has_room s bs"
    using hash_fn.append_facts(2)[OF assms(1), of "s\<lparr>st_put_calls := st_put_calls s + 1\<rparr>" bs "H bs"] assms that
    by (simp add: store_has_room_def)
  then show ?thesis
    unfolding eq using room by auto
qed

theorem store_put_full_iff_witness:
  "fst (store_put pad_hash ex_store (replicate 65 0)) = CVSASX_STORE_FULL"
proof -
  have "length (replicate 65 (0 :: u8)) < 2 ^ 64" by simp
  from store_put_full_iff[OF hash_fn_pad_hash ex_store_inv this]
  show ?thesis by (simp add: find_entry_def) (simp add: ex_store_def cvsasx_store_init_def)
qed

end
