(* ===== verification/EpochTree.thy ===== *)
theory EpochTree
  imports ObjectStore
begin

text \<open>
  The epoch tree, \<^verbatim>\<open>store/epoch_tree.c\<close> and \<^verbatim>\<open>store/epoch_tree.h\<close>: a Merkle tree
  over fixed-size chunks of a linear memory, committed incrementally.  The main theorem
  is that the root an incremental commit returns is the root of a full recomputation
  over the current memory, after any sequence of writes and commits; a commit hashes
  only the dirty leaves and at most eight internal nodes per dirty leaf.  The rounding
  loop of initialisation is a partial function: it does not return for more than
  \<open>2 ^ 31\<close> chunks, and the conversion of the chunk count to 32 bits is visible.
\<close>

section \<open>Constants, tagged hashing and state\<close>

definition CVSASX_EPOCH_CHUNK_SIZE :: nat where
  "CVSASX_EPOCH_CHUNK_SIZE = 4096"

definition CVSASX_EPOCH_MAX_CHUNKS :: nat where
  "CVSASX_EPOCH_MAX_CHUNKS = 256"

definition CVSASX_EPOCH_TAG_LEAF :: u8 where
  "CVSASX_EPOCH_TAG_LEAF = 0x00"

definition CVSASX_EPOCH_TAG_NODE :: u8 where
  "CVSASX_EPOCH_TAG_NODE = 0x01"

text \<open>The digest of the tag byte followed by the bytes.\<close>

definition cvsasx_blake3_tagged :: "(bytes \<Rightarrow> bytes) \<Rightarrow> u8 \<Rightarrow> bytes \<Rightarrow> bytes" where
  "cvsasx_blake3_tagged H tag bs = H (tag # bs)"

record cvsasx_epoch =
  ep_mem :: bytes
  ep_mem_len :: u64
  ep_n_chunks :: u32
  ep_n_leaves :: u32
  ep_node :: "bytes list"
  ep_leaf_dirty :: "u8 list"
  ep_committed :: u8
  ep_valid :: u8
  ep_last_leaf_hashes :: u64
  ep_last_node_hashes :: u64

section \<open>Operations\<close>

partial_function (option) next_pow2_loop :: "u32 \<Rightarrow> u32 \<Rightarrow> u32 option" where
  "next_pow2_loop p x = (if p < x then next_pow2_loop (push_bit 1 p) x else Some p)"

definition next_pow2 :: "u32 \<Rightarrow> u32 option" where
  "next_pow2 x = next_pow2_loop 1 x"

definition epoch_nc :: "u64 \<Rightarrow> u32" where
  "epoch_nc mem_len =
     (let nc = ucast ((mem_len + word_of_nat CVSASX_EPOCH_CHUNK_SIZE - 1)
                      div word_of_nat CVSASX_EPOCH_CHUNK_SIZE) :: u32
      in if nc = 0 then 1 else nc)"

definition cvsasx_epoch_init :: "cvsasx_epoch \<Rightarrow> bytes \<Rightarrow> u64 \<Rightarrow> (bool \<times> cvsasx_epoch) option" where
  "cvsasx_epoch_init e0 mem mem_len =
     (let e = e0\<lparr>ep_mem := mem, ep_mem_len := mem_len, ep_committed := 0, ep_valid := 0,
                 ep_last_leaf_hashes := 0, ep_last_node_hashes := 0\<rparr>;
          nc = epoch_nc mem_len
      in case next_pow2 nc of
           None \<Rightarrow> None
         | Some nl \<Rightarrow>
             (if nl > word_of_nat CVSASX_EPOCH_MAX_CHUNKS
              then Some (False, e\<lparr>ep_n_chunks := 0, ep_n_leaves := 0\<rparr>)
              else Some (True,
                e\<lparr>ep_n_chunks := nc, ep_n_leaves := nl,
                  ep_leaf_dirty := map (\<lambda>i. if i < unat nc then 1
                                            else if i < unat nl then 0 else ep_leaf_dirty e ! i)
                                       [0..<length (ep_leaf_dirty e)],
                  ep_node := map (\<lambda>i. if i < 2 * unat nl then replicate CVSASX_HASH_LEN 0
                                      else ep_node e ! i) [0..<length (ep_node e)],
                  ep_valid := 1\<rparr>)))"

definition cvsasx_epoch_write :: "cvsasx_epoch \<Rightarrow> u64 \<Rightarrow> bytes \<Rightarrow> u64 \<Rightarrow> cvsasx_epoch" where
  "cvsasx_epoch_write e offset data len =
     (if ep_valid e = 0 \<or> len = 0 then e
      else if offset > ep_mem_len e \<or> len > ep_mem_len e - offset then e
      else
        (let first = unat (offset div word_of_nat CVSASX_EPOCH_CHUNK_SIZE);
             last = unat ((offset + len - 1) div word_of_nat CVSASX_EPOCH_CHUNK_SIZE)
         in e\<lparr>ep_mem := splice (unat offset) (take (unat len) data) (ep_mem e),
              ep_leaf_dirty := map (\<lambda>c. if first \<le> c \<and> c \<le> last \<and> c < unat (ep_n_chunks e)
                                        then 1 else ep_leaf_dirty e ! c)
                                   [0..<length (ep_leaf_dirty e)]\<rparr>))"

text \<open>The bytes of chunk \<open>c\<close>: the last chunk may be short.\<close>

definition chunk_bytes :: "bytes \<Rightarrow> u64 \<Rightarrow> nat \<Rightarrow> bytes" where
  "chunk_bytes mem mem_len c =
     (let off = c * CVSASX_EPOCH_CHUNK_SIZE;
          clen = (if off + CVSASX_EPOCH_CHUNK_SIZE > unat mem_len then unat mem_len - off
                  else CVSASX_EPOCH_CHUNK_SIZE)
      in slice off clen mem)"

text \<open>The three loops of commit, over the node array, the dirty flags, the changed flags and a counter.\<close>

definition commit_leaf ::
  "(bytes \<Rightarrow> bytes) \<Rightarrow> cvsasx_epoch \<Rightarrow> nat \<Rightarrow> bytes list \<times> u8 list \<times> bool list \<times> u64 \<Rightarrow>
   bytes list \<times> u8 list \<times> bool list \<times> u64" where
  "commit_leaf H e c st =
     (case st of (node, dirty, changed, n) \<Rightarrow>
        (if dirty ! c \<noteq> 0
         then (node[unat (ep_n_leaves e) + c :=
                      cvsasx_blake3_tagged H CVSASX_EPOCH_TAG_LEAF (chunk_bytes (ep_mem e) (ep_mem_len e) c)],
               dirty[c := 0], changed[unat (ep_n_leaves e) + c := True], n + 1)
         else st))"

definition commit_pad ::
  "(bytes \<Rightarrow> bytes) \<Rightarrow> cvsasx_epoch \<Rightarrow> nat \<Rightarrow> bytes list \<times> bool list \<Rightarrow> bytes list \<times> bool list" where
  "commit_pad H e c st =
     (case st of (node, changed) \<Rightarrow>
        (node[unat (ep_n_leaves e) + c := cvsasx_blake3_tagged H CVSASX_EPOCH_TAG_LEAF []],
         changed[unat (ep_n_leaves e) + c := True]))"

definition commit_node ::
  "(bytes \<Rightarrow> bytes) \<Rightarrow> nat \<Rightarrow> bytes list \<times> bool list \<times> u64 \<Rightarrow> bytes list \<times> bool list \<times> u64" where
  "commit_node H k st =
     (case st of (node, changed, n) \<Rightarrow>
        (if changed ! (2 * k) \<or> changed ! (2 * k + 1)
         then (node[k := cvsasx_blake3_tagged H CVSASX_EPOCH_TAG_NODE (node ! (2 * k) @ node ! (2 * k + 1))],
               changed[k := True], n + 1)
         else st))"

definition cvsasx_epoch_commit ::
  "(bytes \<Rightarrow> bytes) \<Rightarrow> cvsasx_epoch \<Rightarrow> cvsasx_epoch \<times> bytes option" where
  "cvsasx_epoch_commit H e =
     (if ep_valid e = 0 then (e, None)
      else
        (let L = unat (ep_n_leaves e); nc = unat (ep_n_chunks e);
             (node1, dirty1, changed1, lh) =
               fold (commit_leaf H e) [0..<nc]
                 (ep_node e, ep_leaf_dirty e, replicate (2 * CVSASX_EPOCH_MAX_CHUNKS) False, 0);
             (node2, changed2) =
               (if ep_committed e = 0 then fold (commit_pad H e) [nc..<L] (node1, changed1)
                else (node1, changed1));
             (node3, changed3, nh) = fold (commit_node H) (rev [1..<L]) (node2, changed2, 0)
         in (e\<lparr>ep_node := node3, ep_leaf_dirty := dirty1, ep_committed := 1,
               ep_last_leaf_hashes := lh, ep_last_node_hashes := nh\<rparr>,
             Some (node3 ! 1))))"

section \<open>The reference: a full recomputation\<close>

definition leaf_hash :: "(bytes \<Rightarrow> bytes) \<Rightarrow> cvsasx_epoch \<Rightarrow> nat \<Rightarrow> bytes" where
  "leaf_hash H e c =
     H (CVSASX_EPOCH_TAG_LEAF #
        (if c < unat (ep_n_chunks e) then chunk_bytes (ep_mem e) (ep_mem_len e) c else []))"

function tree_hash :: "(bytes \<Rightarrow> bytes) \<Rightarrow> cvsasx_epoch \<Rightarrow> nat \<Rightarrow> bytes" where
  "tree_hash H e k =
     (if k = 0 \<or> unat (ep_n_leaves e) \<le> k then leaf_hash H e (k - unat (ep_n_leaves e))
      else H (CVSASX_EPOCH_TAG_NODE # (tree_hash H e (2 * k) @ tree_hash H e (2 * k + 1))))"
  by pat_completeness auto
termination
  by (relation "measure (\<lambda>(H, e, k). unat (ep_n_leaves e) - k)") auto

declare tree_hash.simps [simp del]

definition epoch_root :: "(bytes \<Rightarrow> bytes) \<Rightarrow> cvsasx_epoch \<Rightarrow> bytes" where
  "epoch_root H e = tree_hash H e 1"

section \<open>The rounding loop\<close>

lemma next_pow2_loop_zero_step:
  assumes IH: "\<And>p y r. f p y = Some r \<Longrightarrow> p = 0 \<longrightarrow> y = 0"
    and eq: "(if p < y then f (push_bit 1 p) y else Some p) = Some (r :: u32)"
  shows "p = (0 :: u32) \<longrightarrow> y = (0 :: u32)"
proof
  assume p: "p = 0"
  show "y = 0"
  proof (rule ccontr)
    assume "y \<noteq> 0"
    then have "p < y" using p by (simp add: word_gt_0)
    then have "f 0 y = Some r" using eq p by simp
    from IH[OF this] \<open>y \<noteq> 0\<close> show False by simp
  qed
qed

text \<open>Once the shift has pushed the one bit out, the loop never ends.\<close>

lemma next_pow2_loop_zero:
  assumes "0 < x"
  shows "next_pow2_loop 0 x = None"
proof (rule ccontr)
  assume "next_pow2_loop 0 x \<noteq> None"
  then obtain r where r: "case_prod next_pow2_loop (0, x) = Some r" by auto
  have "case_prod (\<lambda>p y r. p = 0 \<longrightarrow> y = 0) (0 :: u32, x) r"
    by (rule next_pow2_loop.raw_induct[of "\<lambda>p y r. p = 0 \<longrightarrow> y = 0" "(0, x)" r],
        erule next_pow2_loop_zero_step, assumption, rule r)
  then show False using assms by (simp add: word_gt_0)
qed

lemma unat_pow2: "k < 32 \<Longrightarrow> unat (2 ^ k :: u32) = 2 ^ k"
proof -
  assume "k < 32"
  then have "(2::nat) ^ k < 2 ^ 32" by (intro power_strict_increasing) auto
  moreover have "(2 ^ k :: u32) = word_of_nat (2 ^ k)" by simp
  ultimately show ?thesis by (simp only: unat_of_nat) simp
qed

lemma next_pow2_loop_step:
  assumes "k < 32" and "2 ^ k < unat x"
  shows "next_pow2_loop (2 ^ k) x = next_pow2_loop (2 ^ Suc k) x"
proof -
  have "(2 ^ k :: u32) < x" using assms by (simp add: word_less_nat_alt unat_pow2)
  then show ?thesis
    by (subst next_pow2_loop.simps) (simp add: push_bit_eq_mult mult.commute)
qed

lemma next_pow2_loop_reach:
  assumes "k \<le> 32" and "\<forall>i < k. 2 ^ i < unat x"
  shows "next_pow2_loop (2 ^ 0) x = next_pow2_loop (2 ^ k) x"
  using assms
proof (induction k)
  case 0
  then show ?case by simp
next
  case (Suc n)
  then have "next_pow2_loop (2 ^ 0) x = next_pow2_loop (2 ^ n) x" by simp
  also have "\<dots> = next_pow2_loop (2 ^ Suc n) x"
    using Suc.prems by (intro next_pow2_loop_step) auto
  finally show ?case .
qed

lemma next_pow2_spec:
  assumes "k < 32" and "unat x \<le> 2 ^ k" and "\<forall>i < k. 2 ^ i < unat x"
  shows "next_pow2 x = Some (2 ^ k)"
proof -
  have "next_pow2 x = next_pow2_loop (2 ^ k) x"
    unfolding next_pow2_def using next_pow2_loop_reach[of k x] assms by simp
  moreover have "\<not> (2 ^ k :: u32) < x" using assms by (simp add: word_less_nat_alt unat_pow2)
  ultimately show ?thesis using next_pow2_loop.simps[of "2 ^ k" x] by simp
qed

lemma next_pow2_diverges:
  assumes a: "2 ^ 31 < unat x"
  shows "next_pow2 x = None"
proof -
  have "(2::nat) ^ i < unat x" if "i < 32" for i
  proof -
    have "(2::nat) ^ i \<le> 2 ^ 31" using that by (intro power_increasing) auto
    then show ?thesis using a by linarith
  qed
  then have r: "next_pow2_loop (2 ^ 0) x = next_pow2_loop (2 ^ 32) x"
    by (intro next_pow2_loop_reach) auto
  have z: "(2 ^ 32 :: u32) = 0" by code_simp
  have "0 < x" using a by (simp add: word_less_nat_alt)
  then show ?thesis using r unfolding z by (simp add: next_pow2_def next_pow2_loop_zero)
qed

lemma next_pow2_returns:
  assumes "unat x \<le> 2 ^ 31"
  obtains k where "k \<le> 31" and "next_pow2 x = Some (2 ^ k)" and "unat x \<le> 2 ^ k"
    and "\<forall>i < k. 2 ^ i < unat x"
proof -
  define k where "k = (LEAST k. unat x \<le> 2 ^ k)"
  have k: "unat x \<le> 2 ^ k" unfolding k_def by (rule LeastI[where k = 31]) (rule assms)
  have k31: "k \<le> 31" unfolding k_def by (rule Least_le) (rule assms)
  have m: "\<forall>i < k. 2 ^ i < unat x" unfolding k_def using not_less_Least not_le_imp_less by blast
  have "k < 32" using k31 by simp
  from next_pow2_spec[OF this k m] show ?thesis using that[OF k31 _ k m] by simp
qed

lemma next_pow2_returns_iff: "(\<exists>p. next_pow2 x = Some p) \<longleftrightarrow> unat x \<le> 2 ^ 31"
  using next_pow2_diverges[of x] next_pow2_returns[of x]
  by (metis not_le_imp_less option.distinct(1))

section \<open>The invariant\<close>

text \<open>
  Between operations: the arrays have their C sizes, every chunk is dirty before the
  first commit, and after one every clean leaf holds its hash and every internal node the
  hash of its two children (leaves included, dirty or not, so a stale leaf makes a stale
  but consistent path).
\<close>

definition epoch_shape :: "cvsasx_epoch \<Rightarrow> bool" where
  "epoch_shape e \<longleftrightarrow>
     length (ep_node e) = 2 * CVSASX_EPOCH_MAX_CHUNKS \<and>
     length (ep_leaf_dirty e) = CVSASX_EPOCH_MAX_CHUNKS \<and>
     length (ep_mem e) = unat (ep_mem_len e) \<and>
     (ep_valid e \<noteq> 0 \<longrightarrow>
        0 < ep_n_chunks e \<and> ep_n_chunks e \<le> ep_n_leaves e \<and>
        unat (ep_n_leaves e) \<le> CVSASX_EPOCH_MAX_CHUNKS \<and>
        (\<exists>k \<le> 8. unat (ep_n_leaves e) = 2 ^ k))"

definition epoch_nodes_ok :: "(bytes \<Rightarrow> bytes) \<Rightarrow> cvsasx_epoch \<Rightarrow> bool" where
  "epoch_nodes_ok H e \<longleftrightarrow>
     (\<forall>c < unat (ep_n_leaves e). (c < unat (ep_n_chunks e) \<longrightarrow> ep_leaf_dirty e ! c = 0) \<longrightarrow>
        ep_node e ! (unat (ep_n_leaves e) + c) = leaf_hash H e c) \<and>
     (\<forall>k. 1 \<le> k \<and> k < unat (ep_n_leaves e) \<longrightarrow>
        ep_node e ! k =
          H (CVSASX_EPOCH_TAG_NODE # (ep_node e ! (2 * k) @ ep_node e ! (2 * k + 1))))"

definition epoch_inv :: "(bytes \<Rightarrow> bytes) \<Rightarrow> cvsasx_epoch \<Rightarrow> bool" where
  "epoch_inv H e \<longleftrightarrow>
     epoch_shape e \<and>
     (ep_valid e \<noteq> 0 \<longrightarrow>
        (if ep_committed e = 0 then \<forall>c < unat (ep_n_chunks e). ep_leaf_dirty e ! c \<noteq> 0
         else epoch_nodes_ok H e))"

section \<open>The loops of commit\<close>

text \<open>The state of the leaf loop after \<open>n\<close> chunks.\<close>

definition leaf_state ::
  "(bytes \<Rightarrow> bytes) \<Rightarrow> cvsasx_epoch \<Rightarrow> nat \<Rightarrow> bytes list \<times> u8 list \<times> bool list \<times> u64" where
  "leaf_state H e n =
     (let L = unat (ep_n_leaves e);
          hit = (\<lambda>i. L \<le> i \<and> i < L + n \<and> ep_leaf_dirty e ! (i - L) \<noteq> 0)
      in (map (\<lambda>i. if hit i then leaf_hash H e (i - L) else ep_node e ! i) [0..<length (ep_node e)],
          map (\<lambda>c. if c < n then 0 else ep_leaf_dirty e ! c) [0..<length (ep_leaf_dirty e)],
          map hit [0..<2 * CVSASX_EPOCH_MAX_CHUNKS],
          word_of_nat (card {c. c < n \<and> ep_leaf_dirty e ! c \<noteq> 0})))"

lemma dirty_set_Suc:
  "{c. c < Suc n \<and> P c} = (if P n then insert n {c. c < n \<and> P c} else {c. c < n \<and> P c})"
  by (auto simp: less_Suc_eq)

lemma commit_leaf_step:
  assumes sh: "epoch_shape e" and v: "ep_valid e \<noteq> 0" and n: "n < unat (ep_n_chunks e)"
  shows "commit_leaf H e n (leaf_state H e n) = leaf_state H e (Suc n)"
proof -
  let ?L = "unat (ep_n_leaves e)"
  have b: "n < length (ep_leaf_dirty e)" "?L + n < length (ep_node e)"
    "?L + n < 2 * CVSASX_EPOCH_MAX_CHUNKS"
    using sh v n by (auto simp: epoch_shape_def word_le_nat_alt)
  have lh: "cvsasx_blake3_tagged H CVSASX_EPOCH_TAG_LEAF (chunk_bytes (ep_mem e) (ep_mem_len e) n)
              = leaf_hash H e n"
    using n by (simp add: leaf_hash_def cvsasx_blake3_tagged_def)
  show ?thesis
  proof (cases "ep_leaf_dirty e ! n = 0")
    case True
    have hit: "(?L \<le> i \<and> i < ?L + n \<and> ep_leaf_dirty e ! (i - ?L) \<noteq> 0) =
          (?L \<le> i \<and> i < ?L + Suc n \<and> ep_leaf_dirty e ! (i - ?L) \<noteq> 0)" for i
      using True by (auto simp: less_Suc_eq)
    have cl: "(if c < n then 0 else ep_leaf_dirty e ! c) =
                   (if c < Suc n then 0 else ep_leaf_dirty e ! c)" for c
      using True by (auto simp: less_Suc_eq)
    have "leaf_state H e n = leaf_state H e (Suc n)"
      using True by (simp only: leaf_state_def Let_def hit cl dirty_set_Suc) simp
    then show ?thesis
      using True b by (simp add: commit_leaf_def) (simp add: leaf_state_def Let_def)
  next
    case False
    let ?hit = "\<lambda>n i. ?L \<le> i \<and> i < ?L + n \<and> ep_leaf_dirty e ! (i - ?L) \<noteq> 0"
    have hit: "?hit (Suc n) i = (i = ?L + n \<or> ?hit n i)" for i
      using False by (auto simp: less_Suc_eq)
    have 1: "(map (\<lambda>i. if ?hit n i then leaf_hash H e (i - ?L) else ep_node e ! i) [0..<length (ep_node e)])
               [?L + n := leaf_hash H e n] =
             map (\<lambda>i. if ?hit (Suc n) i then leaf_hash H e (i - ?L) else ep_node e ! i)
               [0..<length (ep_node e)]"
      unfolding hit by (rule nth_equalityI) (simp_all add: nth_list_update_in)
    have 2: "(map (\<lambda>c. if c < n then 0 else ep_leaf_dirty e ! c) [0..<length (ep_leaf_dirty e)])[n := 0] =
             map (\<lambda>c. if c < Suc n then 0 else ep_leaf_dirty e ! c) [0..<length (ep_leaf_dirty e)]"
      by (rule nth_equalityI) (simp_all add: nth_list_update_in less_Suc_eq)
    have 3: "(map (?hit n) [0..<2 * CVSASX_EPOCH_MAX_CHUNKS])[?L + n := True] =
             map (?hit (Suc n)) [0..<2 * CVSASX_EPOCH_MAX_CHUNKS]"
      unfolding hit by (rule nth_equalityI) (simp_all add: nth_list_update_in)
    have 4: "word_of_nat (card {c. c < n \<and> ep_leaf_dirty e ! c \<noteq> 0}) + 1 =
             (word_of_nat (card {c. c < Suc n \<and> ep_leaf_dirty e ! c \<noteq> 0}) :: u64)"
      using False by (simp add: dirty_set_Suc)
    show ?thesis
      unfolding leaf_state_def Let_def commit_leaf_def prod.case 1[symmetric] 2[symmetric] 3[symmetric]
        4[symmetric] using False b lh by simp
  qed
qed

lemma fold_commit_leaf:
  assumes sh: "epoch_shape e" and v: "ep_valid e \<noteq> 0" and "n \<le> unat (ep_n_chunks e)"
  shows "fold (commit_leaf H e) [0..<n]
           (ep_node e, ep_leaf_dirty e, replicate (2 * CVSASX_EPOCH_MAX_CHUNKS) False, 0) =
         leaf_state H e n"
  using assms(3)
proof (induction n)
  case 0
  then show ?case by (auto simp: leaf_state_def Let_def intro!: nth_equalityI)
next
  case (Suc n)
  then show ?case using commit_leaf_step[OF sh v, of n H] by simp
qed

text \<open>The state of the padding loop once it has reached leaf \<open>n\<close>.\<close>

definition pad_state ::
  "(bytes \<Rightarrow> bytes) \<Rightarrow> cvsasx_epoch \<Rightarrow> nat \<Rightarrow> bytes list \<times> bool list \<Rightarrow> bytes list \<times> bool list" where
  "pad_state H e n st =
     (let L = unat (ep_n_leaves e); nc = unat (ep_n_chunks e)
      in (map (\<lambda>i. if L + nc \<le> i \<and> i < L + n then leaf_hash H e (i - L) else fst st ! i)
            [0..<length (fst st)],
          map (\<lambda>i. L + nc \<le> i \<and> i < L + n \<or> snd st ! i) [0..<length (snd st)]))"

lemma commit_pad_step:
  assumes n: "unat (ep_n_chunks e) \<le> n"
  shows "commit_pad H e n (pad_state H e n st) = pad_state H e (Suc n) st"
proof -
  let ?L = "unat (ep_n_leaves e)" and ?nc = "unat (ep_n_chunks e)"
  have lh: "cvsasx_blake3_tagged H CVSASX_EPOCH_TAG_LEAF [] = leaf_hash H e n"
    using n by (simp add: leaf_hash_def cvsasx_blake3_tagged_def)
  have hit: "?L + ?nc \<le> i \<and> i < ?L + Suc n \<longleftrightarrow> i = ?L + n \<or> ?L + ?nc \<le> i \<and> i < ?L + n" for i
    using n by auto
  show ?thesis
    unfolding pad_state_def Let_def commit_pad_def prod.case hit lh
    by (auto simp: nth_list_update_in intro!: nth_equalityI)
qed

lemma fold_commit_pad:
  assumes "unat (ep_n_chunks e) \<le> n"
  shows "fold (commit_pad H e) [unat (ep_n_chunks e)..<n] st = pad_state H e n st"
  using assms
proof (induction n rule: dec_induct)
  case base
  show ?case by (cases st) (auto simp: pad_state_def Let_def intro!: nth_equalityI)
next
  case (step j)
  then show ?case using commit_pad_step[of e j H st] by simp
qed

text \<open>
  The bottom-up loop, with \<open>T\<close> the hashes the nodes should have and \<open>C\<close> whether the old
  nodes form a consistent tree: after it has passed node \<open>m\<close> every node from \<open>m\<close> on is
  right, and an unchanged node still holds its old value.
\<close>

definition node_loop_inv ::
  "bool \<Rightarrow> (nat \<Rightarrow> bytes) \<Rightarrow> bytes list \<Rightarrow> nat \<Rightarrow> nat \<Rightarrow> bool list \<Rightarrow> bytes list \<times> bool list \<times> u64 \<Rightarrow> bool" where
  "node_loop_inv C T node0 L m changed0 st \<longleftrightarrow>
     (case st of (node, changed, n) \<Rightarrow>
        length node = length node0 \<and> length changed = length node0 \<and>
        (\<forall>i. m \<le> i \<and> i < 2 * L \<longrightarrow> node ! i = T i) \<and>
        (\<forall>i < m. i < L \<longrightarrow> node ! i = node0 ! i \<and> \<not> changed ! i) \<and>
        (\<forall>i < 2 * L. \<not> changed ! i \<longrightarrow> node ! i = node0 ! i \<and> (m \<le> i \<longrightarrow> C)) \<and>
        (\<forall>i. L \<le> i \<and> i < 2 * L \<longrightarrow> changed ! i = changed0 ! i) \<and>
        (\<forall>k. m \<le> k \<and> k < L \<longrightarrow> changed ! k = (changed ! (2 * k) \<or> changed ! (2 * k + 1))) \<and>
        n = word_of_nat (card {k. m \<le> k \<and> k < L \<and> changed ! k}))"

lemma node_loop_invD:
  assumes "node_loop_inv C T node0 L m changed0 (node, changed, n)"
  shows "length node = length node0" "length changed = length node0"
    and "\<And>i. m \<le> i \<Longrightarrow> i < 2 * L \<Longrightarrow> node ! i = T i"
    and "\<And>i. i < m \<Longrightarrow> i < L \<Longrightarrow> node ! i = node0 ! i" "\<And>i. i < m \<Longrightarrow> i < L \<Longrightarrow> \<not> changed ! i"
    and "\<And>i. i < 2 * L \<Longrightarrow> \<not> changed ! i \<Longrightarrow> node ! i = node0 ! i"
    and "\<And>i. i < 2 * L \<Longrightarrow> m \<le> i \<Longrightarrow> \<not> changed ! i \<Longrightarrow> C"
    and "\<And>i. L \<le> i \<Longrightarrow> i < 2 * L \<Longrightarrow> changed ! i = changed0 ! i"
    and "\<And>k. m \<le> k \<Longrightarrow> k < L \<Longrightarrow> changed ! k = (changed ! (2 * k) \<or> changed ! (2 * k + 1))"
    and "n = word_of_nat (card {k. m \<le> k \<and> k < L \<and> changed ! k})"
  using assms unfolding node_loop_inv_def prod.case by blast+

lemma commit_node_step:
  assumes inv: "node_loop_inv C T node0 L (Suc k) changed0 st"
    and k: "1 \<le> k" "k < L" and L: "2 * L \<le> length node0"
    and old: "C \<Longrightarrow> node0 ! k = H (CVSASX_EPOCH_TAG_NODE # (node0 ! (2 * k) @ node0 ! (2 * k + 1)))"
    and T: "T k = H (CVSASX_EPOCH_TAG_NODE # (T (2 * k) @ T (2 * k + 1)))"
  shows "node_loop_inv C T node0 L k changed0 (commit_node H k st)"
proof -
  obtain node changed n where st: "st = (node, changed, n)" by (cases st)
  note I = node_loop_invD[OF inv[unfolded st]]
  have k2: "Suc k \<le> 2 * k" "2 * k < 2 * L" "Suc k \<le> 2 * k + 1" "2 * k + 1 < 2 * L" using k by auto
  have kids: "node ! (2 * k) = T (2 * k)" "node ! (2 * k + 1) = T (2 * k + 1)"
    using I(3)[OF k2(1,2)] I(3)[OF k2(3,4)] .
  have le: "k \<le> i \<longleftrightarrow> i = k \<or> Suc k \<le> i" for i by auto
  have kl: "k < length node" "k < length changed" using I(1,2) k L by linarith+
  show ?thesis
  proof (cases "changed ! (2 * k) \<or> changed ! (2 * k + 1)")
    case True
    let ?node = "node[k := H (CVSASX_EPOCH_TAG_NODE # (node ! (2 * k) @ node ! (2 * k + 1)))]"
    let ?ch = "changed[k := True]"
    have e: "commit_node H k st = (?node, ?ch, n + 1)"
      using True by (simp add: commit_node_def st cvsasx_blake3_tagged_def)
    have ch: "?ch ! i = (i = k \<or> changed ! i)" for i
      using kl(2) by (simp add: nth_list_update)
    have nd: "?node ! i = (if i = k then T k else node ! i)" for i
      using kl(1) kids T by (simp add: nth_list_update)
    have "{i. k \<le> i \<and> i < L \<and> ?ch ! i} = insert k {i. Suc k \<le> i \<and> i < L \<and> changed ! i}"
      using k unfolding ch by (auto simp: le)
    then have c: "word_of_nat (card {i. k \<le> i \<and> i < L \<and> ?ch ! i}) = n + 1"
      using I(10) by simp
    have w: "?ch ! i = (?ch ! (2 * i) \<or> ?ch ! (2 * i + 1))" if "k \<le> i" "i < L" for i
    proof (cases "i = k")
      case False
      then have "Suc k \<le> i" "2 * i \<noteq> k" "2 * i + 1 \<noteq> k" using that by auto
      then show ?thesis using I(9)[of i] that False unfolding ch by simp
    qed (use True in \<open>simp add: ch\<close>)
    show ?thesis
      unfolding node_loop_inv_def e prod.case length_list_update
    proof (intro conjI allI impI)
      fix i assume "k \<le> i \<and> i < 2 * L"
      then show "?node ! i = T i" using I(3)[of i] unfolding nd by auto
    next
      fix i assume i: "i < k" "i < L"
      then show "?node ! i = node0 ! i" "\<not> ?ch ! i"
        using I(4,5)[of i] unfolding nd ch by auto
    next
      fix i assume i: "i < 2 * L" "\<not> ?ch ! i"
      then show "?node ! i = node0 ! i" using I(6)[of i] unfolding nd ch by auto
      assume "k \<le> i"
      with i show C using I(7)[of i] unfolding ch by auto
    next
      fix i assume "L \<le> i \<and> i < 2 * L"
      then show "?ch ! i = changed0 ! i" using I(8)[of i] k unfolding ch by auto
    next
      fix i assume "k \<le> i \<and> i < L"
      then show "?ch ! i = (?ch ! (2 * i) \<or> ?ch ! (2 * i + 1))" by (intro w) auto
    qed (simp_all add: I(1,2) c[symmetric])
  next
    case False
    then have e: "commit_node H k st = (node, changed, n)" by (simp add: commit_node_def st)
    have C: "C" using I(7)[OF k2(2,1)] False by blast
    have kids0: "node ! (2 * k) = node0 ! (2 * k)" "node ! (2 * k + 1) = node0 ! (2 * k + 1)"
      using I(6)[OF k2(2)] I(6)[OF k2(4)] False by blast+
    have nk: "node ! k = node0 ! k" "\<not> changed ! k" using I(4,5)[of k] k by auto
    have Tk: "node ! k = T k" using nk old[OF C] kids0 kids T by simp
    have "{i. k \<le> i \<and> i < L \<and> changed ! i} = {i. Suc k \<le> i \<and> i < L \<and> changed ! i}"
      using nk by (auto simp: le)
    then have c: "n = word_of_nat (card {i. k \<le> i \<and> i < L \<and> changed ! i})" using I(10) by simp
    show ?thesis
      unfolding node_loop_inv_def e prod.case
    proof (intro conjI allI impI)
      fix i assume "k \<le> i \<and> i < 2 * L"
      then show "node ! i = T i" using I(3)[of i] Tk by (auto simp: le)
    next
      fix i assume "k \<le> i \<and> i < L"
      then show "changed ! i = (changed ! (2 * i) \<or> changed ! (2 * i + 1))"
        using I(9)[of i] False nk by (auto simp: le)
    qed (use I C c in auto)
  qed
qed

lemma fold_commit_node:
  assumes inv: "node_loop_inv C T node0 L L changed0 st"
    and L: "2 * L \<le> length node0"
    and old: "\<And>k. C \<Longrightarrow> 1 \<le> k \<Longrightarrow> k < L \<Longrightarrow>
                node0 ! k = H (CVSASX_EPOCH_TAG_NODE # (node0 ! (2 * k) @ node0 ! (2 * k + 1)))"
    and T: "\<And>k. 1 \<le> k \<Longrightarrow> k < L \<Longrightarrow> T k = H (CVSASX_EPOCH_TAG_NODE # (T (2 * k) @ T (2 * k + 1)))"
    and m: "1 \<le> m" "m \<le> L"
  shows "node_loop_inv C T node0 L m changed0 (fold (commit_node H) (rev [m..<L]) st)"
  using m
proof (induction "L - m" arbitrary: m)
  case 0
  then show ?case using inv by simp
next
  case (Suc d)
  then have "m < L" by simp
  then have "rev [m..<L] = rev [Suc m..<L] @ [m]" by (simp add: upt_rec)
  moreover have "node_loop_inv C T node0 L (Suc m) changed0 (fold (commit_node H) (rev [Suc m..<L]) st)"
    using Suc \<open>m < L\<close> by (intro Suc.hyps(1)) auto
  ultimately show ?case
    using commit_node_step[OF _ Suc.prems(1) \<open>m < L\<close> L old T] Suc.prems \<open>m < L\<close> by simp
qed

section \<open>Commit computes the full root\<close>

text \<open>Which leaves a commit rehashes: the dirty chunks, and on the first commit the padding.\<close>

definition leaf_hit :: "cvsasx_epoch \<Rightarrow> nat \<Rightarrow> bool" where
  "leaf_hit e c \<longleftrightarrow> (if c < unat (ep_n_chunks e) then ep_leaf_dirty e ! c \<noteq> 0 else ep_committed e = 0)"

lemma commit_start:
  assumes inv: "epoch_inv H e" and v: "ep_valid e \<noteq> 0"
  defines "L \<equiv> unat (ep_n_leaves e)" and "nc \<equiv> unat (ep_n_chunks e)"
  obtains node2 changed2 where
    "cvsasx_epoch_commit H e =
       (case fold (commit_node H) (rev [1..<L]) (node2, changed2, 0) of
          (node3, changed3, nh) \<Rightarrow>
            (e\<lparr>ep_node := node3,
               ep_leaf_dirty := map (\<lambda>c. if c < nc then 0 else ep_leaf_dirty e ! c) [0..<CVSASX_EPOCH_MAX_CHUNKS],
               ep_committed := 1,
               ep_last_leaf_hashes := word_of_nat (card {c. c < nc \<and> ep_leaf_dirty e ! c \<noteq> 0}),
               ep_last_node_hashes := nh\<rparr>,
             Some (node3 ! 1)))"
    and "length node2 = length (ep_node e)" and "length changed2 = length (ep_node e)"
    and "\<forall>i < length (ep_node e).
           node2 ! i = (if L \<le> i \<and> i < 2 * L \<and> leaf_hit e (i - L) then leaf_hash H e (i - L) else ep_node e ! i)"
    and "\<forall>i < length (ep_node e). changed2 ! i = (L \<le> i \<and> i < 2 * L \<and> leaf_hit e (i - L))"
proof -
  have sh: "epoch_shape e" using inv by (simp add: epoch_inv_def)
  then have b: "nc \<le> L" "length (ep_node e) = 2 * CVSASX_EPOCH_MAX_CHUNKS"
    "length (ep_leaf_dirty e) = CVSASX_EPOCH_MAX_CHUNKS"
    using v by (auto simp: epoch_shape_def word_le_nat_alt L_def nc_def)
  obtain node1 dirty1 changed1 lh where ls: "leaf_state H e nc = (node1, dirty1, changed1, lh)"
    by (cases "leaf_state H e nc")
  define st2 where "st2 = (if ep_committed e = 0 then pad_state H e L (node1, changed1) else (node1, changed1))"
  obtain node2 changed2 where st2: "st2 = (node2, changed2)" by (cases st2)
  have f1: "fold (commit_leaf H e) [0..<nc]
      (ep_node e, ep_leaf_dirty e, replicate (2 * CVSASX_EPOCH_MAX_CHUNKS) False, 0) =
      (node1, dirty1, changed1, lh)"
    using fold_commit_leaf[OF sh v, of nc H] ls by (simp add: nc_def)
  have f2: "(if ep_committed e = 0 then fold (commit_pad H e) [nc..<L] (node1, changed1)
             else (node1, changed1)) = (node2, changed2)"
    using fold_commit_pad[of e L H "(node1, changed1)"] b(1)
    unfolding st2[symmetric] st2_def nc_def by simp
  have d: "dirty1 = map (\<lambda>c. if c < nc then 0 else ep_leaf_dirty e ! c) [0..<CVSASX_EPOCH_MAX_CHUNKS]"
    "lh = word_of_nat (card {c. c < nc \<and> ep_leaf_dirty e ! c \<noteq> 0})"
    using ls b by (auto simp: leaf_state_def Let_def)
  have l2: "length node2 = length (ep_node e)" "length changed2 = length (ep_node e)"
    using ls st2 b by (auto simp: st2_def leaf_state_def pad_state_def Let_def split: if_splits)
  have hit: "(L \<le> i \<and> i < L + nc \<and> ep_leaf_dirty e ! (i - L) \<noteq> 0) \<or>
             (ep_committed e = 0 \<and> L + nc \<le> i \<and> i < L + L) \<longleftrightarrow>
             L \<le> i \<and> i < 2 * L \<and> leaf_hit e (i - L)" for i
    using b(1) by (auto simp: leaf_hit_def nc_def)
  have c2: "changed2 ! i = (L \<le> i \<and> i < 2 * L \<and> leaf_hit e (i - L))" if "i < length (ep_node e)" for i
    using ls st2 that b unfolding hit[symmetric]
    by (auto simp: st2_def leaf_state_def pad_state_def Let_def L_def[symmetric] nc_def[symmetric]
        split: if_splits)
  have n2: "node2 ! i = (if L \<le> i \<and> i < 2 * L \<and> leaf_hit e (i - L) then leaf_hash H e (i - L) else ep_node e ! i)"
    if "i < length (ep_node e)" for i
    using ls st2 that b unfolding hit[symmetric]
    by (auto simp: st2_def leaf_state_def pad_state_def Let_def L_def[symmetric] nc_def[symmetric]
        split: if_splits)
  have "cvsasx_epoch_commit H e =
       (case fold (commit_node H) (rev [1..<L]) (node2, changed2, 0) of
          (node3, changed3, nh) \<Rightarrow>
            (e\<lparr>ep_node := node3, ep_leaf_dirty := dirty1, ep_committed := 1,
               ep_last_leaf_hashes := lh, ep_last_node_hashes := nh\<rparr>, Some (node3 ! 1)))"
    unfolding cvsasx_epoch_commit_def Let_def L_def[symmetric] nc_def[symmetric] f1 prod.case f2
    using v by (simp only: if_False)
  from that[OF this[unfolded d] l2] n2 c2 show ?thesis by blast
qed

lemma tree_hash_leaf: "1 \<le> k \<Longrightarrow> unat (ep_n_leaves e) \<le> k \<Longrightarrow>
    tree_hash H e k = leaf_hash H e (k - unat (ep_n_leaves e))"
  by (simp add: tree_hash.simps)

lemma tree_hash_node: "1 \<le> k \<Longrightarrow> k < unat (ep_n_leaves e) \<Longrightarrow>
    tree_hash H e k = H (CVSASX_EPOCH_TAG_NODE # (tree_hash H e (2 * k) @ tree_hash H e (2 * k + 1)))"
  by (subst tree_hash.simps) simp

text \<open>Everything a commit establishes, on the loop's final state.\<close>

lemma commit_result:
  assumes inv: "epoch_inv H e" and v: "ep_valid e \<noteq> 0"
  defines "L \<equiv> unat (ep_n_leaves e)" and "nc \<equiv> unat (ep_n_chunks e)"
  obtains node3 changed3 nh changed2 where
    "cvsasx_epoch_commit H e =
       (e\<lparr>ep_node := node3,
          ep_leaf_dirty := map (\<lambda>c. if c < nc then 0 else ep_leaf_dirty e ! c) [0..<CVSASX_EPOCH_MAX_CHUNKS],
          ep_committed := 1,
          ep_last_leaf_hashes := word_of_nat (card {c. c < nc \<and> ep_leaf_dirty e ! c \<noteq> 0}),
          ep_last_node_hashes := nh\<rparr>, Some (node3 ! 1))"
    and "node_loop_inv (ep_committed e \<noteq> 0) (tree_hash H e) (ep_node e) L 1 changed2 (node3, changed3, nh)"
    and "\<forall>i < length (ep_node e). changed2 ! i = (L \<le> i \<and> i < 2 * L \<and> leaf_hit e (i - L))"
proof -
  obtain node2 changed2 where eq: "cvsasx_epoch_commit H e =
       (case fold (commit_node H) (rev [1..<L]) (node2, changed2, 0) of
          (node3, changed3, nh) \<Rightarrow>
            (e\<lparr>ep_node := node3,
               ep_leaf_dirty := map (\<lambda>c. if c < nc then 0 else ep_leaf_dirty e ! c) [0..<CVSASX_EPOCH_MAX_CHUNKS],
               ep_committed := 1,
               ep_last_leaf_hashes := word_of_nat (card {c. c < nc \<and> ep_leaf_dirty e ! c \<noteq> 0}),
               ep_last_node_hashes := nh\<rparr>,
             Some (node3 ! 1)))"
    and l2: "length node2 = length (ep_node e)" "length changed2 = length (ep_node e)"
    and n2: "\<forall>i < length (ep_node e).
           node2 ! i = (if L \<le> i \<and> i < 2 * L \<and> leaf_hit e (i - L) then leaf_hash H e (i - L) else ep_node e ! i)"
    and c2: "\<forall>i < length (ep_node e). changed2 ! i = (L \<le> i \<and> i < 2 * L \<and> leaf_hit e (i - L))"
    by (rule commit_start[OF inv v, folded L_def nc_def])
  have b: "nc \<le> L" "1 \<le> L" "2 * L \<le> length (ep_node e)"
    using inv v by (auto simp: epoch_inv_def epoch_shape_def word_le_nat_alt word_less_nat_alt L_def nc_def)
  have clean: "ep_committed e \<noteq> 0" "ep_node e ! (L + c) = leaf_hash H e c"
    if "c < L" "\<not> leaf_hit e c" for c
    using inv v that b(1)
    by (auto simp: epoch_inv_def epoch_nodes_ok_def leaf_hit_def L_def nc_def split: if_splits)
  have none: "{k. L \<le> k \<and> k < L \<and> changed2 ! k} = {}" by auto
  have start: "node_loop_inv (ep_committed e \<noteq> 0) (tree_hash H e) (ep_node e) L L changed2 (node2, changed2, 0)"
    unfolding node_loop_inv_def prod.case
  proof (intro conjI allI impI)
    fix i assume i: "L \<le> i \<and> i < 2 * L"
    then show "node2 ! i = tree_hash H e i"
      using b n2[rule_format, of i] clean(2)[of "i - L"] by (auto simp: tree_hash_leaf L_def)
  next
    fix i assume i: "i < 2 * L" "\<not> changed2 ! i"
    show "node2 ! i = ep_node e ! i" using i b n2[rule_format, of i] c2[rule_format, of i] by auto
    assume "L \<le> i"
    then show "ep_committed e \<noteq> 0" using i b c2[rule_format, of i] clean(1)[of "i - L"] by auto
  next
    fix i assume i: "i < L" "i < L"
    show "node2 ! i = ep_node e ! i" "\<not> changed2 ! i" using i b n2[rule_format, of i] c2[rule_format, of i] by auto
  qed (use l2 in \<open>auto simp: none\<close>)
  obtain node3 changed3 nh where f: "fold (commit_node H) (rev [1..<L]) (node2, changed2, 0) = (node3, changed3, nh)"
    by (cases "fold (commit_node H) (rev [1..<L]) (node2, changed2, 0)")
  have "node_loop_inv (ep_committed e \<noteq> 0) (tree_hash H e) (ep_node e) L 1 changed2 (node3, changed3, nh)"
    unfolding f[symmetric]
  proof (rule fold_commit_node[OF start b(3)])
    fix k assume "ep_committed e \<noteq> 0" "1 \<le> k" "k < L"
    then show "ep_node e ! k = H (CVSASX_EPOCH_TAG_NODE # (ep_node e ! (2 * k) @ ep_node e ! (2 * k + 1)))"
      using inv v by (auto simp: epoch_inv_def epoch_nodes_ok_def L_def)
  qed (use b in \<open>auto simp: L_def intro: tree_hash_node[simplified]\<close>)
  from that[OF eq[unfolded f prod.case] this c2] show ?thesis .
qed

lemma commit_invalid: "ep_valid e = 0 \<Longrightarrow> cvsasx_epoch_commit H e = (e, None)"
  by (simp add: cvsasx_epoch_commit_def)

lemma commit_root:
  assumes inv: "epoch_inv H e" and v: "ep_valid e \<noteq> 0"
  shows "snd (cvsasx_epoch_commit H e) = Some (epoch_root H e)"
proof -
  obtain node3 changed3 nh changed2 where
    "snd (cvsasx_epoch_commit H e) = Some (node3 ! 1)"
    and "node_loop_inv (ep_committed e \<noteq> 0) (tree_hash H e) (ep_node e) (unat (ep_n_leaves e)) 1
           changed2 (node3, changed3, nh)"
    by (rule commit_result[OF inv v]) auto
  moreover have "1 \<le> unat (ep_n_leaves e)"
    using inv v by (auto simp: epoch_inv_def epoch_shape_def word_le_nat_alt word_less_nat_alt)
  ultimately show ?thesis
    using node_loop_invD(3) [of _ _ _ _ 1 _ _ _ _ 1] unfolding epoch_root_def by simp
qed

lemma leaf_hash_cong:
  assumes "ep_mem e' = ep_mem e" "ep_mem_len e' = ep_mem_len e" "ep_n_chunks e' = ep_n_chunks e"
  shows "leaf_hash H e' c = leaf_hash H e c"
  using assms by (simp add: leaf_hash_def)

lemma tree_hash_cong:
  assumes "ep_mem e' = ep_mem e" "ep_mem_len e' = ep_mem_len e" "ep_n_chunks e' = ep_n_chunks e"
    and "ep_n_leaves e' = ep_n_leaves e"
  shows "tree_hash H e' k = tree_hash H e k"
  using assms
proof (induction H e k rule: tree_hash.induct)
  case (1 H e k)
  then show ?case
    by (cases "k = 0 \<or> unat (ep_n_leaves e) \<le> k")
       (simp_all add: tree_hash.simps[of H e' k] tree_hash.simps[of H e k] leaf_hash_cong[of e' e])
qed

lemma commit_inv:
  assumes inv: "epoch_inv H e"
  shows "epoch_inv H (fst (cvsasx_epoch_commit H e))"
proof (cases "ep_valid e = 0")
  case True
  then show ?thesis using inv by (simp add: commit_invalid)
next
  case v: False
  let ?L = "unat (ep_n_leaves e)" and ?nc = "unat (ep_n_chunks e)"
  have b: "?nc \<le> ?L" "1 \<le> ?L" "?L \<le> CVSASX_EPOCH_MAX_CHUNKS"
    using inv v by (auto simp: epoch_inv_def epoch_shape_def word_le_nat_alt word_less_nat_alt)
  obtain node3 changed3 nh changed2 where
    e': "fst (cvsasx_epoch_commit H e) =
       e\<lparr>ep_node := node3,
          ep_leaf_dirty := map (\<lambda>c. if c < ?nc then 0 else ep_leaf_dirty e ! c) [0..<CVSASX_EPOCH_MAX_CHUNKS],
          ep_committed := 1,
          ep_last_leaf_hashes := word_of_nat (card {c. c < ?nc \<and> ep_leaf_dirty e ! c \<noteq> 0}),
          ep_last_node_hashes := nh\<rparr>" (is "_ = ?e'")
    and loop: "node_loop_inv (ep_committed e \<noteq> 0) (tree_hash H e) (ep_node e) ?L 1
           changed2 (node3, changed3, nh)"
    by (rule commit_result[OF inv v]) auto
  note I = node_loop_invD[OF loop]
  have lh: "leaf_hash H ?e' c = leaf_hash H e c" for c by (rule leaf_hash_cong) simp_all
  have "epoch_nodes_ok H ?e'"
    unfolding epoch_nodes_ok_def
  proof (intro conjI allI impI)
    fix c assume "c < unat (ep_n_leaves ?e')"
    then show "ep_node ?e' ! (unat (ep_n_leaves ?e') + c) = leaf_hash H ?e' c"
      using I(3)[of "?L + c"] b unfolding lh by (simp add: tree_hash_leaf)
  next
    fix k assume "1 \<le> k \<and> k < unat (ep_n_leaves ?e')"
    then show "ep_node ?e' ! k =
        H (CVSASX_EPOCH_TAG_NODE # (ep_node ?e' ! (2 * k) @ ep_node ?e' ! (2 * k + 1)))"
      using I(3)[of k] I(3)[of "2 * k"] I(3)[of "2 * k + 1"] tree_hash_node[of k e H] by simp
  qed
  moreover have "epoch_shape ?e'"
    using inv I(1) by (simp add: epoch_inv_def epoch_shape_def)
  ultimately show ?thesis unfolding e' epoch_inv_def by simp
qed

section \<open>Writes and initialisation\<close>

lemma write_bounds:
  assumes "len \<noteq> 0" and "offset \<le> ep_mem_len e" and "len \<le> ep_mem_len e - offset"
  shows "unat (offset div word_of_nat CVSASX_EPOCH_CHUNK_SIZE) = unat offset div CVSASX_EPOCH_CHUNK_SIZE"
    and "unat ((offset + len - 1) div word_of_nat CVSASX_EPOCH_CHUNK_SIZE) =
         (unat offset + unat len - 1) div CVSASX_EPOCH_CHUNK_SIZE"
    and "unat offset + unat len \<le> unat (ep_mem_len e)"
proof -
  have cs: "unat (word_of_nat CVSASX_EPOCH_CHUNK_SIZE :: u64) = CVSASX_EPOCH_CHUNK_SIZE"
    by (simp add: CVSASX_EPOCH_CHUNK_SIZE_def)
  show le: "unat offset + unat len \<le> unat (ep_mem_len e)"
    using assms(2,3) by (simp add: word_le_nat_alt unat_diff_le)
  then have "unat (offset + len) = unat offset + unat len"
    using unat_lt2p[of "ep_mem_len e"] by (intro unat_add_no_wrap) simp
  moreover have "1 \<le> offset + len"
    using calculation assms(1) by (simp add: word_le_nat_alt unat_gt_0[symmetric])
  ultimately have "unat (offset + len - 1) = unat offset + unat len - 1"
    by (simp add: unat_diff_le)
  then show "unat ((offset + len - 1) div word_of_nat CVSASX_EPOCH_CHUNK_SIZE) =
         (unat offset + unat len - 1) div CVSASX_EPOCH_CHUNK_SIZE"
    by (simp add: unat_div cs)
  show "unat (offset div word_of_nat CVSASX_EPOCH_CHUNK_SIZE) = unat offset div CVSASX_EPOCH_CHUNK_SIZE"
    by (simp add: unat_div cs)
qed

lemma chunk_bytes_untouched:
  assumes "length mem = unat mem_len" and "0 < n" and "off + n \<le> length mem" and "length src \<le> n"
    and "\<not> (off div CVSASX_EPOCH_CHUNK_SIZE \<le> c \<and> c \<le> (off + n - 1) div CVSASX_EPOCH_CHUNK_SIZE)"
  shows "chunk_bytes (splice off src mem) mem_len c = chunk_bytes mem mem_len c"
proof -
  let ?S = "CVSASX_EPOCH_CHUNK_SIZE"
  have S: "0 < ?S" by (simp add: CVSASX_EPOCH_CHUNK_SIZE_def)
  have "c * ?S + ?S \<le> off \<or> off + n \<le> c * ?S"
  proof (cases "off div ?S \<le> c")
    case False
    then have "Suc c \<le> off div ?S" by simp
    then have "Suc c * ?S \<le> off" using S less_eq_div_iff_mult_less_eq by blast
    then show ?thesis by simp
  next
    case True
    then have "(off + n - 1) div ?S < c" using assms(5) by simp
    then have "off + n - 1 < c * ?S" using S by (simp add: div_less_iff_less_mult)
    then show ?thesis using assms(2) by linarith
  qed
  then show ?thesis
    unfolding chunk_bytes_def Let_def
    using assms(3,4) by (intro slice_splice_disjoint) auto
qed

lemma write_cases:
  fixes e :: cvsasx_epoch
  obtains (noop) "cvsasx_epoch_write e offset data len = e"
  | (ok) "ep_valid e \<noteq> 0" "len \<noteq> 0" "unat offset + unat len \<le> unat (ep_mem_len e)"
    "cvsasx_epoch_write e offset data len =
       e\<lparr>ep_mem := splice (unat offset) (take (unat len) data) (ep_mem e),
         ep_leaf_dirty := map (\<lambda>c. if unat offset div CVSASX_EPOCH_CHUNK_SIZE \<le> c \<and>
             c \<le> (unat offset + unat len - 1) div CVSASX_EPOCH_CHUNK_SIZE \<and> c < unat (ep_n_chunks e)
             then 1 else ep_leaf_dirty e ! c) [0..<length (ep_leaf_dirty e)]\<rparr>"
proof (cases "ep_valid e = 0 \<or> len = 0 \<or> offset > ep_mem_len e \<or> len > ep_mem_len e - offset")
  case True
  then show ?thesis using noop by (auto simp: cvsasx_epoch_write_def)
next
  case False
  then have g: "\<not> (ep_valid e = 0 \<or> len = 0)" "\<not> (offset > ep_mem_len e \<or> len > ep_mem_len e - offset)"
    and b: "len \<noteq> 0" "offset \<le> ep_mem_len e" "len \<le> ep_mem_len e - offset"
    by (simp_all add: not_less)
  note w = write_bounds[OF b]
  show ?thesis
    by (rule ok) (use g w(3) in simp, use g in simp, rule w(3),
      simp only: cvsasx_epoch_write_def g if_False Let_def w(1,2))
qed

lemma write_inv:
  assumes inv: "epoch_inv H e"
  shows "epoch_inv H (cvsasx_epoch_write e offset data len)"
proof (cases rule: write_cases[of e offset data len])
  case noop
  then show ?thesis using inv by simp
next
  case ok
  let ?e = "cvsasx_epoch_write e offset data len"
  have len: "length (ep_mem e) = unat (ep_mem_len e)" "length (ep_leaf_dirty e) = CVSASX_EPOCH_MAX_CHUNKS"
    and nc: "unat (ep_n_chunks e) \<le> CVSASX_EPOCH_MAX_CHUNKS"
    using inv ok(1) by (auto simp: epoch_inv_def epoch_shape_def word_le_nat_alt)
  have sh: "epoch_shape ?e"
    using inv ok len by (auto simp: epoch_inv_def epoch_shape_def)
  have clean: "leaf_hash H ?e c = leaf_hash H e c \<and> ep_leaf_dirty e ! c = 0"
    if "c < unat (ep_n_chunks e)" "ep_leaf_dirty ?e ! c = 0" for c
  proof -
    have "\<not> (unat offset div CVSASX_EPOCH_CHUNK_SIZE \<le> c \<and>
             c \<le> (unat offset + unat len - 1) div CVSASX_EPOCH_CHUNK_SIZE)"
      "ep_leaf_dirty e ! c = 0"
      using that nc len(2) by (auto simp: ok(4) split: if_splits)
    then show ?thesis
      using that chunk_bytes_untouched[of "ep_mem e" "ep_mem_len e" "unat len" "unat offset"
          "take (unat len) data" c] ok(2,3) len(1)
      by (simp add: leaf_hash_def ok(4) unat_gt_0[symmetric])
  qed
  have pad: "leaf_hash H ?e c = leaf_hash H e c" if "\<not> c < unat (ep_n_chunks e)" for c
    using that by (simp add: leaf_hash_def ok(4))
  have same: "ep_node ?e = ep_node e" "ep_n_leaves ?e = ep_n_leaves e" "ep_n_chunks ?e = ep_n_chunks e"
    "ep_committed ?e = ep_committed e" "ep_valid ?e = ep_valid e"
    by (simp_all add: ok(4))
  have "\<forall>c < unat (ep_n_chunks e). ep_leaf_dirty ?e ! c \<noteq> 0" if "ep_committed e = 0"
    using that inv ok(1) clean by (auto simp: epoch_inv_def)
  moreover have "epoch_nodes_ok H ?e" if "ep_committed e \<noteq> 0"
  proof -
    have ok0: "epoch_nodes_ok H e" using that inv ok(1) by (simp add: epoch_inv_def)
    have "ep_node e ! (unat (ep_n_leaves e) + c) = leaf_hash H ?e c"
      if "c < unat (ep_n_leaves e)" "c < unat (ep_n_chunks e) \<longrightarrow> ep_leaf_dirty ?e ! c = 0" for c
      using ok0 that clean[of c] pad[of c] unfolding epoch_nodes_ok_def by metis
    then show ?thesis using ok0 unfolding epoch_nodes_ok_def same by blast
  qed
  ultimately show ?thesis using sh unfolding epoch_inv_def same by simp
qed

text \<open>The chunks a memory of \<open>n\<close> bytes needs; the code computes this number modulo \<open>2 ^ 32\<close>.\<close>

definition chunks_needed :: "nat \<Rightarrow> nat" where
  "chunks_needed n = (n + CVSASX_EPOCH_CHUNK_SIZE - 1) div CVSASX_EPOCH_CHUNK_SIZE"

lemma unat_epoch_nc:
  assumes "unat mem_len + 4095 < 2 ^ 64"
  shows "unat (epoch_nc mem_len) =
    (let n = chunks_needed (unat mem_len) mod 2 ^ 32 in if n = 0 then 1 else n)"
proof -
  have s: "word_of_nat CVSASX_EPOCH_CHUNK_SIZE = (4096 :: u64)"
    by (simp add: CVSASX_EPOCH_CHUNK_SIZE_def)
  have a: "unat (mem_len + 4095 :: u64) = unat mem_len + 4095"
    using unat_add_no_wrap[of mem_len 4095] assms by simp
  have b: "mem_len + 4096 - 1 = (mem_len + 4095 :: u64)" "unat mem_len + 4096 - 1 = unat mem_len + 4095"
    "unat (4096 :: u64) = 4096" by simp_all
  have "unat ((mem_len + word_of_nat CVSASX_EPOCH_CHUNK_SIZE - 1)
      div word_of_nat CVSASX_EPOCH_CHUNK_SIZE :: u64) = chunks_needed (unat mem_len)"
    unfolding s by (simp only: chunks_needed_def CVSASX_EPOCH_CHUNK_SIZE_def b unat_div a)
  then have "unat (ucast ((mem_len + word_of_nat CVSASX_EPOCH_CHUNK_SIZE - 1)
      div word_of_nat CVSASX_EPOCH_CHUNK_SIZE :: u64) :: u32) = chunks_needed (unat mem_len) mod 2 ^ 32"
    by (simp add: unsigned_ucast_eq take_bit_eq_mod)
  then show ?thesis
    unfolding epoch_nc_def Let_def by (auto simp: unat_eq_0[symmetric])
qed

lemma chunks_needed_le: "chunks_needed n \<le> k \<longleftrightarrow> n \<le> k * CVSASX_EPOCH_CHUNK_SIZE"
proof -
  have "(n + 4095) div 4096 \<le> k \<longleftrightarrow> n \<le> k * (4096 :: nat)" by linarith
  then show ?thesis by (simp add: chunks_needed_def CVSASX_EPOCH_CHUNK_SIZE_def add.commute)
qed

text \<open>The C array sizes of a fresh structure.\<close>

definition epoch_arrays :: "cvsasx_epoch \<Rightarrow> bool" where
  "epoch_arrays e \<longleftrightarrow>
     length (ep_node e) = 2 * CVSASX_EPOCH_MAX_CHUNKS \<and> length (ep_leaf_dirty e) = CVSASX_EPOCH_MAX_CHUNKS"

lemma init_inv:
  assumes arr: "epoch_arrays e0" and mem: "length mem = unat mem_len"
    and init: "cvsasx_epoch_init e0 mem mem_len = Some (True, e)"
  shows "epoch_inv H e" "ep_valid e \<noteq> 0" "ep_mem e = mem" "ep_mem_len e = mem_len"
    "ep_n_chunks e = epoch_nc mem_len" "next_pow2 (epoch_nc mem_len) = Some (ep_n_leaves e)"
proof -
  obtain nl where nl: "next_pow2 (epoch_nc mem_len) = Some nl"
    using init by (auto simp: cvsasx_epoch_init_def Let_def split: option.splits)
  then have max: "\<not> nl > word_of_nat CVSASX_EPOCH_MAX_CHUNKS"
    using init by (auto simp: cvsasx_epoch_init_def Let_def split: if_splits)
  have nl256: "unat nl \<le> CVSASX_EPOCH_MAX_CHUNKS"
    using max by (simp add: not_less word_le_nat_alt CVSASX_EPOCH_MAX_CHUNKS_def)
  have pos: "0 < epoch_nc mem_len" by (simp add: epoch_nc_def Let_def word_gt_0)
  have lim: "unat (epoch_nc mem_len) \<le> 2 ^ 31" using nl next_pow2_returns_iff by blast
  obtain k where k: "k \<le> 31" "nl = 2 ^ k" "unat (epoch_nc mem_len) \<le> 2 ^ k"
    using next_pow2_returns[OF lim] nl by (metis option.inject)
  have uk: "unat nl = 2 ^ k" using k by (simp add: unat_pow2)
  have "k \<le> 8"
  proof (rule ccontr)
    assume "\<not> k \<le> 8"
    then have "(2::nat) ^ 9 \<le> 2 ^ k" by (intro power_increasing) auto
    then show False using nl256 uk by (simp add: CVSASX_EPOCH_MAX_CHUNKS_def)
  qed
  then have pow: "\<exists>k \<le> 8. unat nl = 2 ^ k" using uk by blast
  have le: "epoch_nc mem_len \<le> nl" using k uk by (simp add: word_le_nat_alt)
  then have unle: "unat (epoch_nc mem_len) \<le> unat nl" by (simp add: word_le_nat_alt)
  note e = init[unfolded cvsasx_epoch_init_def Let_def nl option.case if_not_P[OF max], symmetric, simplified]
  show "ep_valid e \<noteq> 0" "ep_mem e = mem" "ep_mem_len e = mem_len"
    "ep_n_chunks e = epoch_nc mem_len" "next_pow2 (epoch_nc mem_len) = Some (ep_n_leaves e)"
    using nl by (simp_all add: e)
  have "epoch_shape e"
    using arr mem pos le pow nl256 by (simp add: e epoch_shape_def epoch_arrays_def)
  moreover have "\<forall>c < unat (ep_n_chunks e). ep_leaf_dirty e ! c \<noteq> 0"
    using arr nl256 unle by (simp add: e epoch_arrays_def)
  ultimately show "epoch_inv H e" unfolding epoch_inv_def by (simp add: e)
qed

lemma init_n_chunks:
  "cvsasx_epoch_init e0 mem mem_len = Some (True, e) \<Longrightarrow> ep_n_chunks e = epoch_nc mem_len"
  by (auto simp: cvsasx_epoch_init_def Let_def split: option.splits if_splits)

lemma init_by_count:
  fixes mem_len :: u64
  defines "nc \<equiv> unat (epoch_nc mem_len)"
  shows "nc \<le> CVSASX_EPOCH_MAX_CHUNKS \<Longrightarrow> \<exists>e. cvsasx_epoch_init e0 mem mem_len = Some (True, e)"
    and "CVSASX_EPOCH_MAX_CHUNKS < nc \<Longrightarrow> nc \<le> 2 ^ 31 \<Longrightarrow>
         \<exists>e. cvsasx_epoch_init e0 mem mem_len = Some (False, e) \<and> ep_valid e = 0"
    and "2 ^ 31 < nc \<Longrightarrow> cvsasx_epoch_init e0 mem mem_len = None"
proof -
  have m: "unat (word_of_nat CVSASX_EPOCH_MAX_CHUNKS :: u32) = 256" "CVSASX_EPOCH_MAX_CHUNKS = 256"
    by (simp_all add: CVSASX_EPOCH_MAX_CHUNKS_def)
  show "\<exists>e. cvsasx_epoch_init e0 mem mem_len = Some (True, e)" if "nc \<le> CVSASX_EPOCH_MAX_CHUNKS"
  proof -
    have "nc \<le> 2 ^ 31" using that m by simp
    then obtain k where k: "k \<le> 31" "next_pow2 (epoch_nc mem_len) = Some (2 ^ k)" "\<forall>i < k. 2 ^ i < nc"
      using next_pow2_returns unfolding nc_def by metis
    have "k \<le> 8"
    proof (rule ccontr)
      assume "\<not> k \<le> 8"
      then have "2 ^ 8 < nc" using k(3) by (meson not_le)
      then show False using that m by simp
    qed
    then have "(2::nat) ^ k \<le> 2 ^ 8" by (intro power_increasing) auto
    then have "\<not> (2 ^ k :: u32) > word_of_nat CVSASX_EPOCH_MAX_CHUNKS"
      using k(1) m by (simp add: word_less_nat_alt unat_pow2)
    then show ?thesis by (simp add: cvsasx_epoch_init_def k(2) Let_def)
  qed
  show "\<exists>e. cvsasx_epoch_init e0 mem mem_len = Some (False, e) \<and> ep_valid e = 0"
    if big: "CVSASX_EPOCH_MAX_CHUNKS < nc" and lim: "nc \<le> 2 ^ 31"
  proof -
    obtain k where k: "k \<le> 31" "next_pow2 (epoch_nc mem_len) = Some (2 ^ k)" "nc \<le> 2 ^ k"
      using next_pow2_returns lim unfolding nc_def by metis
    then have "(2 ^ k :: u32) > word_of_nat CVSASX_EPOCH_MAX_CHUNKS"
      using big m by (simp add: word_less_nat_alt unat_pow2)
    then show ?thesis by (simp add: cvsasx_epoch_init_def k(2) Let_def)
  qed
  show "2 ^ 31 < nc \<Longrightarrow> cvsasx_epoch_init e0 mem mem_len = None"
    using next_pow2_diverges[of "epoch_nc mem_len"]
    by (simp add: nc_def cvsasx_epoch_init_def Let_def)
qed

text \<open>A concrete zeroed structure, for the examples.\<close>

definition ex_epoch0 :: cvsasx_epoch where
  "ex_epoch0 = \<lparr>ep_mem = [], ep_mem_len = 0, ep_n_chunks = 0, ep_n_leaves = 0,
     ep_node = replicate 512 (replicate 32 0), ep_leaf_dirty = replicate 256 0, ep_committed = 0,
     ep_valid = 0, ep_last_leaf_hashes = 0, ep_last_node_hashes = 0\<rparr>"

text \<open>
  initialisation below 16 TiB: it accepts exactly the memories of at most 256 chunks
  (1 MiB), covering every byte; it refuses larger ones up to 2^43 bytes leaving the
  epoch invalid; above that its rounding loop never returns.
\<close>

theorem epoch_init_outcome:
  assumes "chunks_needed (unat mem_len) < 2 ^ 32"
  shows "case cvsasx_epoch_init e0 mem mem_len of
           None \<Rightarrow> 2 ^ 43 < unat mem_len
         | Some (r, e) \<Rightarrow>
             (if r then unat mem_len \<le> 2 ^ 20 \<and> unat mem_len \<le> unat (ep_n_chunks e) * CVSASX_EPOCH_CHUNK_SIZE
              else 2 ^ 20 < unat mem_len \<and> unat mem_len \<le> 2 ^ 43 \<and> ep_valid e = 0)"
proof -
  let ?n = "chunks_needed (unat mem_len)" and ?nc = "unat (epoch_nc mem_len)"
  have "unat mem_len \<le> (2 ^ 32 - 1) * CVSASX_EPOCH_CHUNK_SIZE"
    using assms chunks_needed_le[of "unat mem_len" "2 ^ 32 - 1"] by simp
  then have "unat mem_len + 4095 < 2 ^ 64" by (simp add: CVSASX_EPOCH_CHUNK_SIZE_def)
  from unat_epoch_nc[OF this] have nc: "?nc = (if ?n = 0 then 1 else ?n)"
    using assms by (simp add: Let_def)
  have cover: "?n \<le> ?nc" using nc by simp
  have r1: "?nc \<le> 256 \<longleftrightarrow> unat mem_len \<le> 2 ^ 20"
    using chunks_needed_le[of "unat mem_len" 256] nc
    by (cases "?n = 0") (simp_all add: CVSASX_EPOCH_CHUNK_SIZE_def)
  have r2: "?nc \<le> 2 ^ 31 \<longleftrightarrow> unat mem_len \<le> 2 ^ 43"
    using chunks_needed_le[of "unat mem_len" "2 ^ 31"] nc
    by (cases "?n = 0") (simp_all add: CVSASX_EPOCH_CHUNK_SIZE_def)
  consider (acc) "?nc \<le> 256" | (rej) "256 < ?nc" "?nc \<le> 2 ^ 31" | (div) "2 ^ 31 < ?nc" by linarith
  then show ?thesis
  proof cases
    case acc
    then obtain e where e: "cvsasx_epoch_init e0 mem mem_len = Some (True, e)"
      using init_by_count(1)[of mem_len e0 mem] by (auto simp: CVSASX_EPOCH_MAX_CHUNKS_def)
    then have "ep_n_chunks e = epoch_nc mem_len" by (rule init_n_chunks)
    then have "unat mem_len \<le> unat (ep_n_chunks e) * CVSASX_EPOCH_CHUNK_SIZE"
      using cover chunks_needed_le by simp
    then show ?thesis using e acc r1 by simp
  next
    case rej
    then obtain e where "cvsasx_epoch_init e0 mem mem_len = Some (False, e)" "ep_valid e = 0"
      using init_by_count(2)[of mem_len e0 mem] by (auto simp: CVSASX_EPOCH_MAX_CHUNKS_def)
    then show ?thesis using rej r1 r2 by simp
  next
    case div
    then show ?thesis using init_by_count(3)[of mem_len e0 mem] r2 by simp
  qed
qed

theorem epoch_init_outcome_witness:
  "case cvsasx_epoch_init ex_epoch0 [] 0 of
           None \<Rightarrow> 2 ^ 43 < unat (0 :: u64)
         | Some (r, e) \<Rightarrow>
             (if r then unat (0 :: u64) \<le> 2 ^ 20 \<and>
                unat (0 :: u64) \<le> unat (ep_n_chunks e) * CVSASX_EPOCH_CHUNK_SIZE
              else 2 ^ 20 < unat (0 :: u64) \<and> unat (0 :: u64) \<le> 2 ^ 43 \<and> ep_valid e = 0)"
  by (rule epoch_init_outcome) (simp add: chunks_needed_def CVSASX_EPOCH_CHUNK_SIZE_def)

text \<open>
  Beyond \<open>2 ^ 44\<close> bytes the count wraps: a memory needing \<open>2 ^ 32 + 1\<close> chunks gets a valid
  one-chunk epoch, although the header promises a refusal above 256 chunks.
\<close>

theorem epoch_init_truncates:
  "chunks_needed (2 ^ 44 + 1) = 2 ^ 32 + 1"
  "\<exists>e. cvsasx_epoch_init e0 mem (2 ^ 44 + 1) = Some (True, e) \<and> ep_n_chunks e = 1"
proof -
  show "chunks_needed (2 ^ 44 + 1) = 2 ^ 32 + 1"
    by (simp add: chunks_needed_def CVSASX_EPOCH_CHUNK_SIZE_def)
  have nc: "epoch_nc (2 ^ 44 + 1) = 1"
    unfolding epoch_nc_def CVSASX_EPOCH_CHUNK_SIZE_def by code_simp
  obtain e where "cvsasx_epoch_init e0 mem (2 ^ 44 + 1) = Some (True, e)"
    using init_by_count(1)[of "2 ^ 44 + 1" e0 mem] unfolding nc by (auto simp: CVSASX_EPOCH_MAX_CHUNKS_def)
  moreover from init_n_chunks[OF this] have "ep_n_chunks e = 1" unfolding nc .
  ultimately show "\<exists>e. cvsasx_epoch_init e0 mem (2 ^ 44 + 1) = Some (True, e) \<and> ep_n_chunks e = 1"
    by blast
qed

section \<open>Sequences of writes and commits\<close>

datatype epoch_op =
    EpWrite u64 bytes u64
  | EpCommit

primrec epoch_step :: "(bytes \<Rightarrow> bytes) \<Rightarrow> epoch_op \<Rightarrow> cvsasx_epoch \<Rightarrow> cvsasx_epoch" where
  "epoch_step H (EpWrite offset data len) e = cvsasx_epoch_write e offset data len"
| "epoch_step H EpCommit e = fst (cvsasx_epoch_commit H e)"

definition epoch_run :: "(bytes \<Rightarrow> bytes) \<Rightarrow> epoch_op list \<Rightarrow> cvsasx_epoch \<Rightarrow> cvsasx_epoch" where
  "epoch_run H ops e = fold (epoch_step H) ops e"

lemma commit_frame:
  "ep_valid (fst (cvsasx_epoch_commit H e)) = ep_valid e"
  "ep_mem (fst (cvsasx_epoch_commit H e)) = ep_mem e"
  "ep_mem_len (fst (cvsasx_epoch_commit H e)) = ep_mem_len e"
  "ep_n_chunks (fst (cvsasx_epoch_commit H e)) = ep_n_chunks e"
  "ep_n_leaves (fst (cvsasx_epoch_commit H e)) = ep_n_leaves e"
  by (simp_all add: cvsasx_epoch_commit_def Let_def split: prod.splits)

lemma write_frame:
  "ep_valid (cvsasx_epoch_write e offset data len) = ep_valid e"
  "ep_mem_len (cvsasx_epoch_write e offset data len) = ep_mem_len e"
  "ep_n_chunks (cvsasx_epoch_write e offset data len) = ep_n_chunks e"
  "ep_n_leaves (cvsasx_epoch_write e offset data len) = ep_n_leaves e"
  "ep_node (cvsasx_epoch_write e offset data len) = ep_node e"
  by (simp_all add: cvsasx_epoch_write_def Let_def)

lemma epoch_run_keeps:
  assumes "epoch_inv H e"
  shows "epoch_inv H (epoch_run H ops e) \<and> ep_valid (epoch_run H ops e) = ep_valid e \<and>
         ep_mem_len (epoch_run H ops e) = ep_mem_len e \<and>
         ep_n_chunks (epoch_run H ops e) = ep_n_chunks e \<and>
         ep_n_leaves (epoch_run H ops e) = ep_n_leaves e"
  using assms
proof (induction ops arbitrary: e)
  case Nil
  then show ?case by (simp add: epoch_run_def)
next
  case (Cons op ops)
  have "epoch_inv H (epoch_step H op e)"
    using Cons.prems by (cases op) (simp_all add: write_inv commit_inv)
  from Cons.IH[OF this] show ?case
    by (cases op) (simp_all add: epoch_run_def commit_frame write_frame)
qed

text \<open>
  C7: the incremental root is the full root.  After any sequence of writes and commits on
  an initialised epoch, a commit returns the Merkle root recomputed over the current
  memory, which is also the root of the first commit of a fresh epoch over that memory.
\<close>

theorem epoch_incremental_root:
  assumes "epoch_arrays e0" and "length mem = unat mem_len"
    and "cvsasx_epoch_init e0 mem mem_len = Some (True, e1)"
    and "epoch_arrays e0'" and "e = epoch_run H ops e1"
    and "cvsasx_epoch_init e0' (ep_mem e) mem_len = Some (True, e2)"
  shows "snd (cvsasx_epoch_commit H e) = Some (epoch_root H e) \<and>
         snd (cvsasx_epoch_commit H e2) = Some (epoch_root H e)"
proof -
  note i1 = init_inv[OF assms(1-3)]
  note run = epoch_run_keeps[OF i1(1), of H ops, folded assms(5)]
  then have v: "ep_valid e \<noteq> 0" and len: "length (ep_mem e) = unat mem_len" "ep_mem_len e = mem_len"
    using i1 by (auto simp: epoch_inv_def epoch_shape_def)
  note i2 = init_inv[OF assms(4) len(1) assms(6)]
  have "epoch_root H e2 = epoch_root H e"
    unfolding epoch_root_def
    using i1 i2 run len by (intro tree_hash_cong) auto
  then show ?thesis using commit_root[OF i2(1,2), of H] commit_root[of H e] run v by simp
qed

lemma init_small:
  assumes "unat mem_len \<le> 2 ^ 20"
  obtains e where "cvsasx_epoch_init e0 mem mem_len = Some (True, e)"
proof -
  have le: "chunks_needed (unat mem_len) \<le> 256"
    using assms by (subst chunks_needed_le) (simp add: CVSASX_EPOCH_CHUNK_SIZE_def)
  have "unat mem_len + 4095 < 2 ^ 64" using assms by simp
  from unat_epoch_nc[OF this] le have "unat (epoch_nc mem_len) \<le> CVSASX_EPOCH_MAX_CHUNKS"
    by (simp add: Let_def CVSASX_EPOCH_MAX_CHUNKS_def)
  from init_by_count(1)[OF this] that show ?thesis by blast
qed

lemma ex_epoch0_arrays: "epoch_arrays ex_epoch0"
  by (simp add: epoch_arrays_def ex_epoch0_def CVSASX_EPOCH_MAX_CHUNKS_def)

theorem epoch_incremental_root_witness:
  "\<exists>e1 e2 e. cvsasx_epoch_init ex_epoch0 [1, 2, 3] 3 = Some (True, e1) \<and>
     e = epoch_run pad_hash [EpCommit, EpWrite 1 [7] 1] e1 \<and>
     cvsasx_epoch_init ex_epoch0 (ep_mem e) 3 = Some (True, e2) \<and>
     snd (cvsasx_epoch_commit pad_hash e) = Some (epoch_root pad_hash e) \<and>
     snd (cvsasx_epoch_commit pad_hash e2) = Some (epoch_root pad_hash e)"
proof -
  obtain e1 where e1: "cvsasx_epoch_init ex_epoch0 [1, 2, 3] 3 = Some (True, e1)"
    by (rule init_small[of 3]) simp_all
  define e where "e = epoch_run pad_hash [EpCommit, EpWrite 1 [7] 1] e1"
  obtain e2 where e2: "cvsasx_epoch_init ex_epoch0 (ep_mem e) 3 = Some (True, e2)"
    by (rule init_small[of 3]) simp_all
  show ?thesis
    using epoch_incremental_root[OF ex_epoch0_arrays _ e1 ex_epoch0_arrays e_def e2] e1 e2 e_def by auto
qed

section \<open>The cost of a commit\<close>

text \<open>A node that a commit recomputed lies above a dirty leaf, at most eight levels up.\<close>

lemma changed_above_leaf:
  assumes loop: "node_loop_inv C T node0 L 1 changed2 (node3, changed3, nh)"
    and leaf: "\<forall>i. L \<le> i \<and> i < 2 * L \<longrightarrow> changed2 ! i = hit (i - L)"
    and L: "L = 2 ^ d" and k: "2 ^ j \<le> k" "k < 2 ^ Suc j" "j \<le> d" and ch: "changed3 ! k"
  shows "\<exists>c < L. hit c \<and> k = (L + c) div 2 ^ (d - j)"
  using k ch
proof (induction "d - j" arbitrary: j k)
  case 0
  then have "j = d" by simp
  then have b: "L \<le> k" "k < 2 * L" using 0 L by simp_all
  then have "hit (k - L)" using leaf node_loop_invD(8)[OF loop b] 0 by blast
  moreover have "k - L < L" "k = (L + (k - L)) div 2 ^ (d - j)" using b \<open>j = d\<close> by simp_all
  ultimately show ?case by blast
next
  case (Suc m)
  have jd: "j < d" "m = d - Suc j" "Suc j \<le> d" using Suc.hyps(2) by simp_all
  then have "(2::nat) ^ Suc j \<le> L" unfolding L by (intro power_increasing) simp_all
  then have kL: "k < L" using Suc.prems(2) by simp
  have k1: "1 \<le> k" using Suc.prems(1) by (rule order_trans[rotated]) simp
  obtain b where b: "b = 0 \<or> b = 1" "changed3 ! (2 * k + b)"
    using node_loop_invD(9)[OF loop k1 kL] Suc.prems(4) by (metis add_0_right)
  have lo: "2 ^ Suc j \<le> 2 * k + b" and hi: "2 * k + b < 2 ^ Suc (Suc j)"
    using Suc.prems(1,2) b(1) by auto
  from Suc.hyps(1)[OF jd(2) lo hi jd(3) b(2)]
  obtain c where c: "c < L" "hit c" "2 * k + b = (L + c) div 2 ^ (d - Suc j)" by blast
  have "d - j = Suc (d - Suc j)" using jd(1) by simp
  then have "(L + c) div 2 ^ (d - j) = (L + c) div 2 ^ (d - Suc j) div 2"
    by (simp add: div_mult2_eq mult.commute[of 2])
  also have "\<dots> = k" using b(1) by (auto simp: c(3)[symmetric])
  finally show ?case using c(1,2) by metis
qed

lemma pow2_level:
  fixes k :: nat
  assumes "1 \<le> k" and "k < 2 ^ d"
  shows "\<exists>j < d. 2 ^ j \<le> k \<and> k < 2 ^ Suc j"
  using assms
proof (induction d)
  case (Suc d)
  show ?case
  proof (cases "k < 2 ^ d")
    case True
    then show ?thesis using Suc less_SucI by blast
  next
    case False
    then show ?thesis using Suc.prems by (intro exI[of _ d]) simp
  qed
qed simp

lemma changed_nodes_bound:
  assumes loop: "node_loop_inv C T node0 L 1 changed2 (node3, changed3, nh)"
    and leaf: "\<forall>i. L \<le> i \<and> i < 2 * L \<longrightarrow> changed2 ! i = hit (i - L)"
    and L: "L = 2 ^ d"
  shows "card {k. 1 \<le> k \<and> k < L \<and> changed3 ! k} \<le> d * card {c. c < L \<and> hit c}"
proof -
  let ?D = "{c. c < L \<and> hit c}"
  have "{k. 1 \<le> k \<and> k < L \<and> changed3 ! k} \<subseteq> (\<Union>j < d. (\<lambda>c. (L + c) div 2 ^ (d - j)) ` ?D)"
  proof
    fix k assume "k \<in> {k. 1 \<le> k \<and> k < L \<and> changed3 ! k}"
    then have k: "1 \<le> k" "k < 2 ^ d" "changed3 ! k" using L by auto
    then obtain j where j: "j < d" "2 ^ j \<le> k" "k < 2 ^ Suc j" using pow2_level by blast
    then show "k \<in> (\<Union>j < d. (\<lambda>c. (L + c) div 2 ^ (d - j)) ` ?D)"
      using changed_above_leaf[OF loop leaf L j(2,3) less_imp_le[OF j(1)] k(3)] by auto
  qed
  then have "card {k. 1 \<le> k \<and> k < L \<and> changed3 ! k}
      \<le> card (\<Union>j < d. (\<lambda>c. (L + c) div 2 ^ (d - j)) ` ?D)"
    by (intro card_mono finite_UN_I) simp_all
  also have "\<dots> \<le> (\<Sum>j < d. card ((\<lambda>c. (L + c) div 2 ^ (d - j)) ` ?D))"
    by (rule card_UN_le) simp
  also have "\<dots> \<le> (\<Sum>j < d. card ?D)" by (intro sum_mono card_image_le) simp
  finally show ?thesis by simp
qed

text \<open>
  commits are proportional to the difference.  A commit hashes exactly the dirty
  chunks, and once the epoch has been committed before, at most eight internal nodes for
  each of them; it leaves no chunk dirty.
\<close>

theorem epoch_commit_cost:
  assumes "epoch_arrays e0" and "length mem = unat mem_len"
    and "cvsasx_epoch_init e0 mem mem_len = Some (True, e1)"
    and "e = epoch_run H ops e1"
    and "dirty = {c. c < unat (ep_n_chunks e) \<and> ep_leaf_dirty e ! c \<noteq> 0}"
    and "e' = fst (cvsasx_epoch_commit H e)"
  shows "unat (ep_last_leaf_hashes e') = card dirty \<and>
         (ep_committed e \<noteq> 0 \<longrightarrow> unat (ep_last_node_hashes e') \<le> 8 * card dirty) \<and>
         (\<forall>c < unat (ep_n_chunks e). ep_leaf_dirty e' ! c = 0)"
proof -
  note i1 = init_inv[OF assms(1-3)]
  note run = epoch_run_keeps[OF i1(1), of H ops, folded assms(4)]
  have inv: "epoch_inv H e" and v: "ep_valid e \<noteq> 0" using run i1 by auto
  let ?L = "unat (ep_n_leaves e)" and ?nc = "unat (ep_n_chunks e)"
  obtain d where d: "?L = 2 ^ d" "d \<le> 8" and nc: "?nc \<le> ?L" "?L \<le> 256"
    using inv v by (auto simp: epoch_inv_def epoch_shape_def word_le_nat_alt CVSASX_EPOCH_MAX_CHUNKS_def)
  have len: "2 * ?L \<le> length (ep_node e)"
    using inv v by (auto simp: epoch_inv_def epoch_shape_def)
  have fin: "finite dirty" by (simp add: assms(5))
  have "card dirty \<le> card {c. c < ?nc}" unfolding assms(5) by (intro card_mono) auto
  then have small: "card dirty \<le> 256" using nc by simp
  obtain node3 changed3 nh changed2 where
    e': "fst (cvsasx_epoch_commit H e) =
       e\<lparr>ep_node := node3,
          ep_leaf_dirty := map (\<lambda>c. if c < ?nc then 0 else ep_leaf_dirty e ! c) [0..<CVSASX_EPOCH_MAX_CHUNKS],
          ep_committed := 1,
          ep_last_leaf_hashes := word_of_nat (card {c. c < ?nc \<and> ep_leaf_dirty e ! c \<noteq> 0}),
          ep_last_node_hashes := nh\<rparr>"
    and loop: "node_loop_inv (ep_committed e \<noteq> 0) (tree_hash H e) (ep_node e) ?L 1
           changed2 (node3, changed3, nh)"
    and c2: "\<forall>i < length (ep_node e). changed2 ! i = (?L \<le> i \<and> i < 2 * ?L \<and> leaf_hit e (i - ?L))"
    by (rule commit_result[OF inv v]) auto
  have "unat (ep_last_leaf_hashes e') = card dirty"
    using small by (simp add: assms(5,6) e' unat_of_nat)
  moreover have "unat (ep_last_node_hashes e') \<le> 8 * card dirty" if "ep_committed e \<noteq> 0"
  proof -
    have "{c. c < ?L \<and> leaf_hit e c} = dirty"
      using that nc by (auto simp: leaf_hit_def assms(5) split: if_splits)
    moreover have "\<forall>i. ?L \<le> i \<and> i < 2 * ?L \<longrightarrow> changed2 ! i = leaf_hit e (i - ?L)"
      using c2 len by auto
    ultimately have b: "card {k. 1 \<le> k \<and> k < ?L \<and> changed3 ! k} \<le> d * card dirty"
      using changed_nodes_bound[OF loop _ d(1), of "leaf_hit e"] by simp
    also have "\<dots> \<le> 8 * card dirty" using d(2) by (rule mult_le_mono1)
    finally have "card {k. 1 \<le> k \<and> k < ?L \<and> changed3 ! k} \<le> 8 * card dirty" .
    moreover have "unat (ep_last_node_hashes e') = card {k. 1 \<le> k \<and> k < ?L \<and> changed3 ! k}"
      using calculation small by (simp add: assms(6) e' node_loop_invD(10)[OF loop] unat_of_nat)
    ultimately show ?thesis by simp
  qed
  moreover have "\<forall>c < ?nc. ep_leaf_dirty e' ! c = 0"
    using nc by (simp add: assms(6) e' CVSASX_EPOCH_MAX_CHUNKS_def)
  ultimately show ?thesis by blast
qed

theorem epoch_commit_cost_witness:
  "\<exists>e1. cvsasx_epoch_init ex_epoch0 [1, 2, 3] 3 = Some (True, e1) \<and>
     (let e = epoch_run pad_hash [EpCommit, EpWrite 1 [7] 1] e1;
          dirty = {c. c < unat (ep_n_chunks e) \<and> ep_leaf_dirty e ! c \<noteq> 0};
          e' = fst (cvsasx_epoch_commit pad_hash e)
      in unat (ep_last_leaf_hashes e') = card dirty \<and>
         (ep_committed e \<noteq> 0 \<longrightarrow> unat (ep_last_node_hashes e') \<le> 8 * card dirty) \<and>
         (\<forall>c < unat (ep_n_chunks e). ep_leaf_dirty e' ! c = 0))"
proof -
  obtain e1 where e1: "cvsasx_epoch_init ex_epoch0 [1, 2, 3] 3 = Some (True, e1)"
    by (rule init_small[of 3]) simp_all
  show ?thesis
    using epoch_commit_cost[OF ex_epoch0_arrays _ e1 refl refl refl,
        of pad_hash "[EpCommit, EpWrite 1 [7] 1]"] e1
    unfolding Let_def by auto
qed

end
