(* ===== verification/Sls.thy ===== *)
theory Sls
  imports ObjectStore "HOL-Library.Sublist"
begin

text \<open>
  The single-level store, \<^verbatim>\<open>sls/sls.c\<close> and \<^verbatim>\<open>sls/cvsasx_sls.h\<close>: a Merkle object
  graph over the content-addressed store.  Objects are tagged serialisations; the
  structural difference of two graphs compares stored child hashes only.  Pointers that
  the code tests for null are options.  The recursion of the difference is bounded by
  \<^verbatim>\<open>CVSASX_SLS_MAX_DEPTH\<close>; the definition recurses on the depth that is left, so the
  bound is the code's and not an artefact.  The theorems: objects round trip through the
  store; a successful difference covers every leaf that is not shared, reports only objects
  of the new graph, and resolves a bounded number of objects whatever the sharing.
\<close>

section \<open>Constants and state\<close>

definition CVSASX_SLS_LEAF :: u8 where "CVSASX_SLS_LEAF = 0x00"
definition CVSASX_SLS_NODE :: u8 where "CVSASX_SLS_NODE = 0x01"
definition CVSASX_SLS_MAX_CHILDREN :: nat where "CVSASX_SLS_MAX_CHILDREN = 16"
definition CVSASX_SLS_MAX_DEPTH :: nat where "CVSASX_SLS_MAX_DEPTH = 32"
definition CVSASX_SLS_MAX_LEAF :: nat where "CVSASX_SLS_MAX_LEAF = 1024"
definition CVSASX_SLS_DIFF_MAX :: nat where "CVSASX_SLS_DIFF_MAX = 512"

datatype cvsasx_sls_status =
    CVSASX_SLS_OK
  | CVSASX_SLS_NULL_ARG
  | CVSASX_SLS_STORE_FULL
  | CVSASX_SLS_MISS
  | CVSASX_SLS_MALFORMED
  | CVSASX_SLS_TOO_MANY
  | CVSASX_SLS_TOO_DEEP

record cvsasx_sls =
  sl_store :: "cvsasx_store option"
  sl_get_calls :: u64

section \<open>Writing and reading objects\<close>

definition cvsasx_sls_init :: "cvsasx_store option \<Rightarrow> cvsasx_sls" where
  "cvsasx_sls_init store = \<lparr>sl_store = store, sl_get_calls = 0\<rparr>"

text \<open>The serialisations put builds in its buffer.\<close>

definition leaf_buf :: "bytes \<Rightarrow> bytes" where
  "leaf_buf data = CVSASX_SLS_LEAF # data"

definition node_buf :: "bytes list \<Rightarrow> bytes" where
  "node_buf children =
     CVSASX_SLS_NODE # le_bytes 4 (word_of_nat (length children) :: u32) @
     concat (map (take CVSASX_HASH_LEN) children)"

definition sls_store_put ::
  "(bytes \<Rightarrow> bytes) \<Rightarrow> cvsasx_sls \<Rightarrow> bytes \<Rightarrow> cvsasx_sls_status \<times> cvsasx_sls \<times> bytes option" where
  "sls_store_put H s buf =
     (case cvsasx_store_put H (sl_store s) (Some buf) (word_of_nat (length buf)) of (r, st', h) \<Rightarrow>
        (if r \<noteq> CVSASX_STORE_OK then (CVSASX_SLS_STORE_FULL, s\<lparr>sl_store := st'\<rparr>, None)
         else (CVSASX_SLS_OK, s\<lparr>sl_store := st'\<rparr>, h)))"

definition cvsasx_sls_put_leaf ::
  "(bytes \<Rightarrow> bytes) \<Rightarrow> cvsasx_sls option \<Rightarrow> bytes option \<Rightarrow> u32 \<Rightarrow> bool \<Rightarrow>
   cvsasx_sls_status \<times> cvsasx_sls option \<times> bytes option" where
  "cvsasx_sls_put_leaf H s data len out =
     (case s of
        None \<Rightarrow> (CVSASX_SLS_NULL_ARG, None, None)
      | Some sl \<Rightarrow>
          (if \<not> out \<or> (data = None \<and> len \<noteq> 0) then (CVSASX_SLS_NULL_ARG, s, None)
           else if unat len > CVSASX_SLS_MAX_LEAF then (CVSASX_SLS_TOO_MANY, s, None)
           else (case sls_store_put H sl
                        (leaf_buf (case data of None \<Rightarrow> [] | Some d \<Rightarrow> take (unat len) d)) of
                   (r, sl', h) \<Rightarrow> (r, Some sl', h))))"

definition cvsasx_sls_put_node ::
  "(bytes \<Rightarrow> bytes) \<Rightarrow> cvsasx_sls option \<Rightarrow> bytes list option \<Rightarrow> u32 \<Rightarrow> bool \<Rightarrow>
   cvsasx_sls_status \<times> cvsasx_sls option \<times> bytes option" where
  "cvsasx_sls_put_node H s children n out =
     (case s of
        None \<Rightarrow> (CVSASX_SLS_NULL_ARG, None, None)
      | Some sl \<Rightarrow>
          (if \<not> out \<or> (children = None \<and> n \<noteq> 0) then (CVSASX_SLS_NULL_ARG, s, None)
           else if unat n > CVSASX_SLS_MAX_CHILDREN then (CVSASX_SLS_TOO_MANY, s, None)
           else (case sls_store_put H sl
                        (node_buf (case children of None \<Rightarrow> [] | Some cs \<Rightarrow> take (unat n) cs)) of
                   (r, sl', h) \<Rightarrow> (r, Some sl', h))))"

definition sls_get :: "cvsasx_sls \<Rightarrow> bytes \<Rightarrow> cvsasx_sls_status \<times> cvsasx_sls \<times> bytes option" where
  "sls_get s oid =
     (let s' = s\<lparr>sl_get_calls := sl_get_calls s + 1\<rparr>
      in case cvsasx_store_get (sl_store s) (Some oid) of (r, b) \<Rightarrow>
           (if r \<noteq> CVSASX_STORE_OK then (CVSASX_SLS_MISS, s', None) else (CVSASX_SLS_OK, s', b)))"

definition cvsasx_sls_get ::
  "cvsasx_sls option \<Rightarrow> bytes option \<Rightarrow> bool \<Rightarrow> bool \<Rightarrow>
   cvsasx_sls_status \<times> cvsasx_sls option \<times> bytes option" where
  "cvsasx_sls_get s oid bytes_out len_out =
     (case (s, oid) of
        (Some sl, Some o') \<Rightarrow>
          (if \<not> bytes_out \<or> \<not> len_out then (CVSASX_SLS_NULL_ARG, s, None)
           else (case sls_get sl o' of (r, sl', b) \<Rightarrow> (r, Some sl', b)))
      | _ \<Rightarrow> (CVSASX_SLS_NULL_ARG, s, None))"

text \<open>The enforcement backend is code of the platform: its grant is an argument.\<close>

definition cvsasx_sls_obj_grant ::
  "cvsasx_sls option \<Rightarrow> (bytes \<Rightarrow> u32 \<Rightarrow> 'ref) option \<Rightarrow> bytes option \<Rightarrow> bool \<Rightarrow> bool \<Rightarrow>
   cvsasx_sls_status \<times> cvsasx_sls option \<times> ('ref \<times> nat) option" where
  "cvsasx_sls_obj_grant s be oid ref_out len_out =
     (case (s, be, oid) of
        (Some sl, Some grant, Some o') \<Rightarrow>
          (if \<not> ref_out \<or> \<not> len_out then (CVSASX_SLS_NULL_ARG, s, None)
           else (case sls_get sl o' of
                   (r, sl', b) \<Rightarrow>
                     (if r \<noteq> CVSASX_SLS_OK then (r, Some sl', None)
                      else (CVSASX_SLS_OK, Some sl',
                            map_option (\<lambda>bs. (grant bs (word_of_nat (length bs)), length bs)) b))))
      | _ \<Rightarrow> (CVSASX_SLS_NULL_ARG, s, None))"

section \<open>The structural difference\<close>

record diff_ctx =
  dc_s :: cvsasx_sls
  dc_out :: "bytes list"
  dc_cap :: u32
  dc_seen :: "(bytes \<times> bytes) list"
  dc_cmps :: u64
  dc_err :: cvsasx_sls_status

definition rec_change :: "bytes \<Rightarrow> diff_ctx \<Rightarrow> diff_ctx" where
  "rec_change oid c =
     (if \<exists>o' \<in> set (dc_out c). cvsasx_hash_eq o' oid then c
      else if length (dc_out c) \<ge> unat (dc_cap c) then c\<lparr>dc_err := CVSASX_SLS_TOO_MANY\<rparr>
      else c\<lparr>dc_out := dc_out c @ [oid]\<rparr>)"

definition seen_or_add :: "bytes \<Rightarrow> bytes \<Rightarrow> diff_ctx \<Rightarrow> bool \<times> diff_ctx" where
  "seen_or_add A B c =
     (if \<exists>(a, b) \<in> set (dc_seen c). cvsasx_hash_eq a A \<and> cvsasx_hash_eq b B then (True, c)
      else if length (dc_seen c) \<ge> CVSASX_SLS_DIFF_MAX then (True, c\<lparr>dc_err := CVSASX_SLS_TOO_MANY\<rparr>)
      else (False, c\<lparr>dc_seen := dc_seen c @ [(A, B)]\<rparr>))"

text \<open>The child count in bytes 1 to 4, and the child hashes after them.\<close>

definition node_count :: "bytes \<Rightarrow> u32" where
  "node_count p = le_word (slice 1 4 p)"

definition node_child :: "bytes \<Rightarrow> nat \<Rightarrow> bytes" where
  "node_child p i = slice (5 + i * CVSASX_HASH_LEN) CVSASX_HASH_LEN p"

definition node_size_ok :: "bytes \<Rightarrow> bool" where
  "node_size_ok p \<longleftrightarrow> length p = 5 + unat (node_count p) * CVSASX_HASH_LEN"

text \<open>Resolving both objects; the second component is empty when one is missing.\<close>

definition diff_load :: "bytes \<Rightarrow> bytes \<Rightarrow> diff_ctx \<Rightarrow> diff_ctx \<times> (bytes \<times> bytes) option" where
  "diff_load A B c =
     (case sls_get (dc_s c) A of (ra, s1, ba) \<Rightarrow>
        (if ra \<noteq> CVSASX_SLS_OK then (c\<lparr>dc_s := s1, dc_err := CVSASX_SLS_MISS\<rparr>, None)
         else (case sls_get s1 B of (rb, s2, bb) \<Rightarrow>
                 (if rb \<noteq> CVSASX_SLS_OK then (c\<lparr>dc_s := s2, dc_err := CVSASX_SLS_MISS\<rparr>, None)
                  else (c\<lparr>dc_s := s2\<rparr>, Some (the ba, the bb))))))"

text \<open>What the serialisations call for: refuse, record the new object, or descend into the children.\<close>

datatype diff_action = DErr cvsasx_sls_status | DRecord | DDescend nat

definition diff_decide :: "bytes \<Rightarrow> bytes \<Rightarrow> diff_action" where
  "diff_decide pa pb =
     (if length pa < 1 \<or> length pb < 1 then DErr CVSASX_SLS_MALFORMED
      else if pa ! 0 = CVSASX_SLS_NODE \<and> pb ! 0 = CVSASX_SLS_NODE
      then (if length pa < 5 \<or> length pb < 5 then DErr CVSASX_SLS_MALFORMED
            else (let na = unat (node_count pa); nb = unat (node_count pb)
                  in if na > CVSASX_SLS_MAX_CHILDREN \<or> nb > CVSASX_SLS_MAX_CHILDREN
                     then DErr CVSASX_SLS_MALFORMED
                     else if \<not> node_size_ok pa \<or> \<not> node_size_ok pb then DErr CVSASX_SLS_MALFORMED
                     else if na \<noteq> nb then DRecord
                     else DDescend na))
      else DRecord)"

text \<open>The first argument is the depth that is left, \<^verbatim>\<open>CVSASX_SLS_MAX_DEPTH - depth\<close>.\<close>

primrec diff_rec :: "nat \<Rightarrow> bytes \<Rightarrow> bytes \<Rightarrow> diff_ctx \<Rightarrow> diff_ctx" where
  "diff_rec 0 A B c =
     (if dc_err c \<noteq> CVSASX_SLS_OK then c
      else (let c1 = c\<lparr>dc_cmps := dc_cmps c + 1\<rparr>
            in if cvsasx_hash_eq A B then c1 else c1\<lparr>dc_err := CVSASX_SLS_TOO_DEEP\<rparr>))"
| "diff_rec (Suc left) A B c =
     (if dc_err c \<noteq> CVSASX_SLS_OK then c
      else (let c1 = c\<lparr>dc_cmps := dc_cmps c + 1\<rparr>
            in if cvsasx_hash_eq A B then c1
               else (case seen_or_add A B c1 of (seen, c2) \<Rightarrow>
                 (if seen then c2
                  else (case diff_load A B c2 of
                          (c3, None) \<Rightarrow> c3
                        | (c3, Some (pa, pb)) \<Rightarrow>
                            (case diff_decide pa pb of
                               DErr e \<Rightarrow> c3\<lparr>dc_err := e\<rparr>
                             | DRecord \<Rightarrow> rec_change B c3
                             | DDescend na \<Rightarrow>
                                 fold (\<lambda>i c. if dc_err c \<noteq> CVSASX_SLS_OK then c
                                             else diff_rec left (node_child pa i) (node_child pb i) c)
                                   [0..<na] c3))))))"

definition diff_start :: "cvsasx_sls \<Rightarrow> u32 \<Rightarrow> diff_ctx" where
  "diff_start s cap = \<lparr>dc_s = s, dc_out = [], dc_cap = cap, dc_seen = [], dc_cmps = 0,
                       dc_err = CVSASX_SLS_OK\<rparr>"

text \<open>
  The result: the status, the store handle, and, when the arguments are present, the changed
  objects (of which there are \<^verbatim>\<open>*out_n\<close>) and the two work counters.
\<close>

definition sls_diff ::
  "cvsasx_sls \<Rightarrow> bytes \<Rightarrow> bytes \<Rightarrow> u32 \<Rightarrow> cvsasx_sls_status \<times> cvsasx_sls \<times> bytes list \<times> u64 \<times> u64" where
  "sls_diff s rootA rootB cap =
     (let c = diff_rec CVSASX_SLS_MAX_DEPTH rootA rootB (diff_start s cap)
      in (dc_err c, dc_s c, dc_out c, sl_get_calls (dc_s c) - sl_get_calls s, dc_cmps c))"

definition cvsasx_sls_diff ::
  "cvsasx_sls option \<Rightarrow> bytes option \<Rightarrow> bytes option \<Rightarrow> bool \<Rightarrow> u32 \<Rightarrow> bool \<Rightarrow>
   cvsasx_sls_status \<times> cvsasx_sls option \<times> (bytes list \<times> u64 \<times> u64) option" where
  "cvsasx_sls_diff s rootA rootB out_changed cap out_n =
     (case (s, rootA, rootB) of
        (Some sl, Some A, Some B) \<Rightarrow>
          (if \<not> out_changed \<or> \<not> out_n then (CVSASX_SLS_NULL_ARG, s, None)
           else (case sls_diff sl A B cap of
                   (r, sl', out, gets, cmps) \<Rightarrow> (r, Some sl', Some (out, gets, cmps))))
      | _ \<Rightarrow> (CVSASX_SLS_NULL_ARG, s, None))"

section \<open>The object graph\<close>

definition sls_obj :: "cvsasx_sls \<Rightarrow> bytes \<Rightarrow> bytes option" where
  "sls_obj s oid = snd (cvsasx_store_get (sl_store s) (Some oid))"

text \<open>The children of a well-formed node object; \<open>None\<close> for a leaf, an absent or a malformed object.\<close>

definition sls_kids :: "cvsasx_sls \<Rightarrow> bytes \<Rightarrow> bytes list option" where
  "sls_kids s oid =
     (case sls_obj s oid of
        None \<Rightarrow> None
      | Some p \<Rightarrow>
          (if 5 \<le> length p \<and> p ! 0 = CVSASX_SLS_NODE \<and>
              unat (node_count p) \<le> CVSASX_SLS_MAX_CHILDREN \<and> node_size_ok p
           then Some (map (node_child p) [0..<unat (node_count p)])
           else None))"

text \<open>The object at a path of child positions below a root.\<close>

fun sls_at :: "cvsasx_sls \<Rightarrow> bytes \<Rightarrow> nat list \<Rightarrow> bytes option" where
  "sls_at s oid [] = Some oid"
| "sls_at s oid (i # is) =
     (case sls_kids s oid of
        None \<Rightarrow> None
      | Some cs \<Rightarrow> if i < length cs then sls_at s (cs ! i) is else None)"

lemma length_node_child:
  "node_size_ok p \<Longrightarrow> i < unat (node_count p) \<Longrightarrow> length (node_child p i) = 32"
proof -
  assume a: "node_size_ok p" "i < unat (node_count p)"
  have "(i + 1) * 32 \<le> unat (node_count p) * 32" using a(2) by (intro mult_le_mono1) simp
  then show ?thesis using a(1) by (simp add: node_child_def node_size_ok_def CVSASX_HASH_LEN_def)
qed

lemma sls_kids_length: "sls_kids s oid = Some cs \<Longrightarrow> c \<in> set cs \<Longrightarrow> length c = 32"
  by (auto simp: sls_kids_def length_node_child split: option.splits if_splits)

lemma sls_get_cases:
  "sls_get s oid =
     (case sls_obj s oid of
        None \<Rightarrow> (CVSASX_SLS_MISS, s\<lparr>sl_get_calls := sl_get_calls s + 1\<rparr>, None)
      | Some b \<Rightarrow> (CVSASX_SLS_OK, s\<lparr>sl_get_calls := sl_get_calls s + 1\<rparr>, Some b))"
  by (auto simp: sls_get_def sls_obj_def cvsasx_store_get_def store_get_def Let_def
      split: option.splits prod.splits)

lemma sls_obj_get_calls [simp]: "sls_obj (s\<lparr>sl_get_calls := x\<rparr>) = sls_obj s"
  by (simp add: fun_eq_iff sls_obj_def)

lemma sls_kids_cong: "sl_store s' = sl_store s \<Longrightarrow> sls_kids s' = sls_kids s"
  by (simp add: fun_eq_iff sls_kids_def sls_obj_def)

lemma sls_at_cong:
  assumes "sl_store s' = sl_store s"
  shows "sls_at s' oid p = sls_at s oid p"
  by (induction p arbitrary: oid) (simp_all add: sls_kids_cong[OF assms] split: option.splits)

lemma sls_at_append:
  "sls_at s oid (p @ q) = (case sls_at s oid p of None \<Rightarrow> None | Some o' \<Rightarrow> sls_at s o' q)"
  by (induction p arbitrary: oid) (auto split: option.splits)

lemma diff_load_cases:
  "diff_load A B c =
     (case sls_obj (dc_s c) A of
        None \<Rightarrow> (c\<lparr>dc_s := (dc_s c)\<lparr>sl_get_calls := sl_get_calls (dc_s c) + 1\<rparr>, dc_err := CVSASX_SLS_MISS\<rparr>, None)
      | Some pa \<Rightarrow>
          (let c' = c\<lparr>dc_s := (dc_s c)\<lparr>sl_get_calls := sl_get_calls (dc_s c) + 2\<rparr>\<rparr>
           in case sls_obj (dc_s c) B of
                None \<Rightarrow> (c'\<lparr>dc_err := CVSASX_SLS_MISS\<rparr>, None)
              | Some pb \<Rightarrow> (c', Some (pa, pb))))"
  by (simp add: diff_load_def sls_get_cases Let_def split: option.splits)

lemma diff_decide_DDescend:
  assumes "diff_decide pa pb = DDescend n" "sls_obj s A = Some pa" "sls_obj s B = Some pb"
  shows "sls_kids s A = Some (map (node_child pa) [0..<n])" "sls_kids s B = Some (map (node_child pb) [0..<n])"
    "n \<le> CVSASX_SLS_MAX_CHILDREN" "\<And>i. i < n \<Longrightarrow> length (node_child pa i) = 32 \<and> length (node_child pb i) = 32"
  using assms by (auto simp: diff_decide_def sls_kids_def Let_def length_node_child split: if_splits)

section \<open>Induction over the difference\<close>

text \<open>
  The cases of one call, with the context after resolving both objects.  Every property of
  the recursion is proved from this rule.
\<close>

definition diff_enter :: "bytes \<Rightarrow> bytes \<Rightarrow> diff_ctx \<Rightarrow> diff_ctx" where
  "diff_enter A B c =
     c\<lparr>dc_cmps := dc_cmps c + 1, dc_seen := dc_seen c @ [(A, B)],
       dc_s := (dc_s c)\<lparr>sl_get_calls := sl_get_calls (dc_s c) + 2\<rparr>\<rparr>"

definition diff_kids :: "nat \<Rightarrow> bytes \<Rightarrow> bytes \<Rightarrow> nat \<Rightarrow> diff_ctx \<Rightarrow> diff_ctx" where
  "diff_kids left pa pb n c =
     fold (\<lambda>i c. if dc_err c \<noteq> CVSASX_SLS_OK then c
                 else diff_rec left (node_child pa i) (node_child pb i) c) [0..<n] c"

definition pair_seen :: "bytes \<Rightarrow> bytes \<Rightarrow> diff_ctx \<Rightarrow> bool" where
  "pair_seen A B c \<longleftrightarrow> (\<exists>(a, b) \<in> set (dc_seen c). cvsasx_hash_eq a A \<and> cvsasx_hash_eq b B)"

text \<open>A call that failed without descending: what it may have touched.\<close>

definition diff_failed :: "bytes \<Rightarrow> bytes \<Rightarrow> diff_ctx \<Rightarrow> diff_ctx \<Rightarrow> bool" where
  "diff_failed A B c c' \<longleftrightarrow>
     dc_err c' \<noteq> CVSASX_SLS_OK \<and> dc_cmps c' = dc_cmps c + 1 \<and> dc_out c' = dc_out c \<and> dc_cap c' = dc_cap c \<and>
     (\<exists>k. dc_s c' = (dc_s c)\<lparr>sl_get_calls := sl_get_calls (dc_s c) + word_of_nat k\<rparr> \<and>
          (dc_seen c' = dc_seen c \<and> k = 0 \<or>
           dc_seen c' = dc_seen c @ [(A, B)] \<and> length (dc_seen c) < CVSASX_SLS_DIFF_MAX \<and> k \<le> 2))"

lemma diff_failedI:
  assumes "c' = c\<lparr>dc_cmps := dc_cmps c + 1, dc_seen := dc_seen c @ [(A, B)],
     dc_s := (dc_s c)\<lparr>sl_get_calls := sl_get_calls (dc_s c) + word_of_nat k\<rparr>, dc_err := e\<rparr>"
    and "k \<le> 2" "e \<noteq> CVSASX_SLS_OK" "length (dc_seen c) < CVSASX_SLS_DIFF_MAX"
  shows "diff_failed A B c c'"
  unfolding diff_failed_def using assms by (auto intro!: exI[of _ k])

lemma diff_rec_fresh:
  assumes ok: "dc_err c = CVSASX_SLS_OK" and neq: "\<not> cvsasx_hash_eq A B" and ns: "\<not> pair_seen A B c"
    and room: "length (dc_seen c) < CVSASX_SLS_DIFF_MAX"
  obtains (fail) "diff_failed A B c (diff_rec (Suc l) A B c)"
  | (change) "diff_rec (Suc l) A B c = rec_change B (diff_enter A B c)"
  | (descend) pa pb n where "sls_obj (dc_s c) A = Some pa" "sls_obj (dc_s c) B = Some pb"
      "diff_decide pa pb = DDescend n" "diff_rec (Suc l) A B c = diff_kids l pa pb n (diff_enter A B c)"
proof -
  let ?c2 = "c\<lparr>dc_cmps := dc_cmps c + 1, dc_seen := dc_seen c @ [(A, B)]\<rparr>"
  have so: "seen_or_add A B (c\<lparr>dc_cmps := dc_cmps c + 1\<rparr>) = (False, ?c2)"
    using ns room by (simp add: seen_or_add_def pair_seen_def)
  consider (a) "sls_obj (dc_s c) A = None"
    | (b) pa where "sls_obj (dc_s c) A = Some pa" "sls_obj (dc_s c) B = None"
    | (ab) pa pb where "sls_obj (dc_s c) A = Some pa" "sls_obj (dc_s c) B = Some pb"
    by (meson not_None_eq)
  then show ?thesis
  proof cases
    case a
    have "diff_rec (Suc l) A B c =
        ?c2\<lparr>dc_s := (dc_s c)\<lparr>sl_get_calls := sl_get_calls (dc_s c) + word_of_nat 1\<rparr>, dc_err := CVSASX_SLS_MISS\<rparr>"
      using ok neq so a by (simp add: diff_load_cases Let_def)
    from fail[OF diff_failedI[OF this _ _ room]] show ?thesis by simp
  next
    case b
    have "diff_rec (Suc l) A B c =
        ?c2\<lparr>dc_s := (dc_s c)\<lparr>sl_get_calls := sl_get_calls (dc_s c) + word_of_nat 2\<rparr>, dc_err := CVSASX_SLS_MISS\<rparr>"
      using ok neq so b by (simp add: diff_load_cases Let_def)
    from fail[OF diff_failedI[OF this _ _ room]] show ?thesis by simp
  next
    case ab
    have ld: "diff_load A B ?c2 = (diff_enter A B c, Some (pa, pb))"
      using ab by (simp add: diff_load_cases Let_def diff_enter_def)
    show ?thesis
    proof (cases "diff_decide pa pb")
      case (DErr e)
      then have ne: "e \<noteq> CVSASX_SLS_OK" by (auto simp: diff_decide_def Let_def split: if_splits)
      have eq: "diff_rec (Suc l) A B c =
          ?c2\<lparr>dc_s := (dc_s c)\<lparr>sl_get_calls := sl_get_calls (dc_s c) + word_of_nat 2\<rparr>, dc_err := e\<rparr>"
        using ok neq so ld DErr by (simp add: diff_enter_def)
      from fail[OF diff_failedI[OF eq _ ne room]] show ?thesis by simp
    next
      case DRecord
      then show ?thesis using change ok neq so ld by simp
    next
      case (DDescend n)
      then show ?thesis using descend[OF ab DDescend] ok neq so ld by (simp add: diff_kids_def)
    qed
  qed
qed

lemma diff_rec_cases:
  obtains (err) "dc_err c \<noteq> CVSASX_SLS_OK" "diff_rec left A B c = c"
  | (same) "dc_err c = CVSASX_SLS_OK" "cvsasx_hash_eq A B \<or> pair_seen A B c"
      "diff_rec left A B c = c\<lparr>dc_cmps := dc_cmps c + 1\<rparr>"
  | (fail) "dc_err c = CVSASX_SLS_OK" "diff_failed A B c (diff_rec left A B c)"
  | (change) "dc_err c = CVSASX_SLS_OK" "\<not> cvsasx_hash_eq A B"
      "length (dc_seen c) < CVSASX_SLS_DIFF_MAX" "diff_rec left A B c = rec_change B (diff_enter A B c)"
  | (descend) left' pa pb n where "left = Suc left'" "dc_err c = CVSASX_SLS_OK" "\<not> cvsasx_hash_eq A B"
      "length (dc_seen c) < CVSASX_SLS_DIFF_MAX"
      "sls_obj (dc_s c) A = Some pa" "sls_obj (dc_s c) B = Some pb" "diff_decide pa pb = DDescend n"
      "diff_rec left A B c = diff_kids left' pa pb n (diff_enter A B c)"
proof -
  have z: "\<exists>k. dc_s c = (dc_s c)\<lparr>sl_get_calls := sl_get_calls (dc_s c) + word_of_nat k\<rparr> \<and> k = (0 :: nat)"
    by simp
  consider (e) "dc_err c \<noteq> CVSASX_SLS_OK"
    | (s) "dc_err c = CVSASX_SLS_OK" "cvsasx_hash_eq A B"
    | (zero) "dc_err c = CVSASX_SLS_OK" "\<not> cvsasx_hash_eq A B" "left = 0"
    | (p) l where "dc_err c = CVSASX_SLS_OK" "\<not> cvsasx_hash_eq A B" "left = Suc l" "pair_seen A B c"
    | (full) l where "dc_err c = CVSASX_SLS_OK" "\<not> cvsasx_hash_eq A B" "left = Suc l" "\<not> pair_seen A B c"
        "\<not> length (dc_seen c) < CVSASX_SLS_DIFF_MAX"
    | (new) l where "dc_err c = CVSASX_SLS_OK" "\<not> cvsasx_hash_eq A B" "left = Suc l" "\<not> pair_seen A B c"
        "length (dc_seen c) < CVSASX_SLS_DIFF_MAX"
    by (cases left) auto
  then show ?thesis
  proof cases
    case e
    then show ?thesis using err by (cases left) simp_all
  next
    case s
    then show ?thesis using same by (cases left) simp_all
  next
    case zero
    then show ?thesis using fail z by (simp add: diff_failed_def)
  next
    case p
    then show ?thesis using same by (simp add: seen_or_add_def pair_seen_def)
  next
    case full
    then show ?thesis using fail z by (simp add: diff_failed_def seen_or_add_def pair_seen_def)
  next
    case new
    then show ?thesis
      using diff_rec_fresh[OF new(1,2,4,5), of l thesis] fail change descend by blast
  qed
qed

declare diff_rec.simps [simp del]

lemma rec_change_frame:
  "dc_seen (rec_change B c) = dc_seen c" "dc_s (rec_change B c) = dc_s c"
  "dc_cmps (rec_change B c) = dc_cmps c" "dc_cap (rec_change B c) = dc_cap c"
  "set (dc_out c) \<subseteq> set (dc_out (rec_change B c))"
  by (auto simp: rec_change_def)

lemma diff_kids_Suc:
  "diff_kids l pa pb (Suc n) c =
     (let c' = diff_kids l pa pb n c
      in if dc_err c' \<noteq> CVSASX_SLS_OK then c' else diff_rec l (node_child pa n) (node_child pb n) c')"
  by (simp add: diff_kids_def Let_def)

lemma diff_kids_0 [simp]: "diff_kids l pa pb 0 c = c"
  by (simp add: diff_kids_def)

section \<open>The work of a difference\<close>

text \<open>\<open>n\<close> calls that recorded the pairs between \<open>c\<close> and \<open>c'\<close>: their resolves and comparisons.\<close>

definition diff_work :: "nat \<Rightarrow> diff_ctx \<Rightarrow> diff_ctx \<Rightarrow> bool" where
  "diff_work n c c' \<longleftrightarrow>
     (\<exists>d k m. length (dc_seen c') = length (dc_seen c) + d \<and>
        (length (dc_seen c) \<le> CVSASX_SLS_DIFF_MAX \<longrightarrow> length (dc_seen c') \<le> CVSASX_SLS_DIFF_MAX) \<and>
        dc_s c' = (dc_s c)\<lparr>sl_get_calls := sl_get_calls (dc_s c) + word_of_nat k\<rparr> \<and> k \<le> 2 * d \<and>
        dc_cmps c' = dc_cmps c + word_of_nat m \<and> m \<le> n + CVSASX_SLS_MAX_CHILDREN * d \<and>
        dc_cap c' = dc_cap c)"

lemma diff_workI:
  assumes "length (dc_seen c') = length (dc_seen c) + d"
    and "length (dc_seen c) \<le> CVSASX_SLS_DIFF_MAX \<Longrightarrow> length (dc_seen c') \<le> CVSASX_SLS_DIFF_MAX"
    and "dc_s c' = (dc_s c)\<lparr>sl_get_calls := sl_get_calls (dc_s c) + word_of_nat k\<rparr>" "k \<le> 2 * d"
    and "dc_cmps c' = dc_cmps c + word_of_nat m" "m \<le> n + CVSASX_SLS_MAX_CHILDREN * d"
    and "dc_cap c' = dc_cap c"
  shows "diff_work n c c'"
  using assms unfolding diff_work_def by blast

lemma diff_work_refl: "diff_work n c c"
  by (rule diff_workI[where d = 0 and k = 0 and m = 0]) simp_all

lemma diff_work_trans:
  assumes "diff_work n c c1" "diff_work m c1 c2"
  shows "diff_work (n + m) c c2"
proof -
  obtain d k i where 1: "length (dc_seen c1) = length (dc_seen c) + d"
    "length (dc_seen c) \<le> CVSASX_SLS_DIFF_MAX \<longrightarrow> length (dc_seen c1) \<le> CVSASX_SLS_DIFF_MAX"
    "dc_s c1 = (dc_s c)\<lparr>sl_get_calls := sl_get_calls (dc_s c) + word_of_nat k\<rparr>" "k \<le> 2 * d"
    "dc_cmps c1 = dc_cmps c + word_of_nat i" "i \<le> n + CVSASX_SLS_MAX_CHILDREN * d" "dc_cap c1 = dc_cap c"
    using assms(1) unfolding diff_work_def by blast
  obtain d' k' i' where 2: "length (dc_seen c2) = length (dc_seen c1) + d'"
    "length (dc_seen c1) \<le> CVSASX_SLS_DIFF_MAX \<longrightarrow> length (dc_seen c2) \<le> CVSASX_SLS_DIFF_MAX"
    "dc_s c2 = (dc_s c1)\<lparr>sl_get_calls := sl_get_calls (dc_s c1) + word_of_nat k'\<rparr>" "k' \<le> 2 * d'"
    "dc_cmps c2 = dc_cmps c1 + word_of_nat i'" "i' \<le> m + CVSASX_SLS_MAX_CHILDREN * d'" "dc_cap c2 = dc_cap c1"
    using assms(2) unfolding diff_work_def by blast
  show ?thesis
    by (rule diff_workI[where d = "d + d'" and k = "k + k'" and m = "i + i'"])
       (use 1 2 in \<open>simp_all add: algebra_simps\<close>)
qed

lemma diff_work_enter:
  assumes "length (dc_seen c) < CVSASX_SLS_DIFF_MAX" "diff_work n (diff_enter A B c) c'"
    and "n \<le> CVSASX_SLS_MAX_CHILDREN"
  shows "diff_work 1 c c'"
proof -
  obtain d k i where 1: "length (dc_seen c') = length (dc_seen (diff_enter A B c)) + d"
    "length (dc_seen (diff_enter A B c)) \<le> CVSASX_SLS_DIFF_MAX \<longrightarrow> length (dc_seen c') \<le> CVSASX_SLS_DIFF_MAX"
    "dc_s c' = (dc_s (diff_enter A B c))\<lparr>sl_get_calls := sl_get_calls (dc_s (diff_enter A B c)) + word_of_nat k\<rparr>"
    "k \<le> 2 * d" "dc_cmps c' = dc_cmps (diff_enter A B c) + word_of_nat i"
    "i \<le> n + CVSASX_SLS_MAX_CHILDREN * d" "dc_cap c' = dc_cap (diff_enter A B c)"
    using assms(2) unfolding diff_work_def by blast
  show ?thesis
    by (rule diff_workI[where d = "Suc d" and k = "2 + k" and m = "1 + i"])
       (use 1 assms(1,3) in \<open>simp_all add: diff_enter_def algebra_simps\<close>)
qed

lemma diff_rec_work: "diff_work 1 c (diff_rec left A B c)"
proof (induction left arbitrary: A B c rule: less_induct)
  case (less left)
  show ?case
  proof (cases rule: diff_rec_cases[of c left A B])
    case err
    then show ?thesis by (simp add: diff_work_refl)
  next
    case same
    then show ?thesis by (intro diff_workI[where d = 0 and k = 0 and m = 1]) simp_all
  next
    case fail
    then obtain k where k: "dc_s (diff_rec left A B c) =
        (dc_s c)\<lparr>sl_get_calls := sl_get_calls (dc_s c) + word_of_nat k\<rparr>"
      "dc_seen (diff_rec left A B c) = dc_seen c \<and> k = 0 \<or>
       dc_seen (diff_rec left A B c) = dc_seen c @ [(A, B)] \<and> length (dc_seen c) < CVSASX_SLS_DIFF_MAX \<and> k \<le> 2"
      by (auto simp: diff_failed_def)
    then show ?thesis
      using fail
      by (intro diff_workI[where d = "length (dc_seen (diff_rec left A B c)) - length (dc_seen c)"
            and k = k and m = 1]) (auto simp: diff_failed_def)
  next
    case change
    have "diff_work 0 (diff_enter A B c) (diff_rec left A B c)"
      unfolding change(4) by (rule diff_workI[where d = 0 and k = 0 and m = 0]) (simp_all add: rec_change_frame)
    from diff_work_enter[OF change(3) this] show ?thesis by simp
  next
    case (descend l pa pb n)
    have "diff_work j (diff_enter A B c) (diff_kids l pa pb j (diff_enter A B c))" for j
    proof (induction j)
      case (Suc j)
      show ?case
        using Suc diff_work_trans[OF Suc less.IH[where A = "node_child pa j" and B = "node_child pb j"]]
          diff_work_trans[OF Suc diff_work_refl[of 1]] descend(1)
        by (simp add: diff_kids_Suc Let_def)
    qed (simp add: diff_work_refl)
    then show ?thesis
      using descend diff_decide_DDescend(3)[OF descend(7,5,6)] by (metis diff_work_enter)
  qed
qed

section \<open>Soundness: what is reported\<close>

text \<open>Reported objects are at a path where the two graphs differ, once each and within capacity.\<close>

definition diff_sound :: "bytes \<Rightarrow> bytes \<Rightarrow> diff_ctx \<Rightarrow> bool" where
  "diff_sound rootA rootB c \<longleftrightarrow>
     distinct (dc_out c) \<and> length (dc_out c) \<le> unat (dc_cap c) \<and>
     (\<forall>b \<in> set (dc_out c). length b = 32 \<and>
        (\<exists>p a. sls_at (dc_s c) rootA p = Some a \<and> sls_at (dc_s c) rootB p = Some b \<and> a \<noteq> b))"

lemma diff_sound_cong:
  assumes "dc_out c' = dc_out c" "dc_cap c' = dc_cap c" "sl_store (dc_s c') = sl_store (dc_s c)"
  shows "diff_sound rootA rootB c' = diff_sound rootA rootB c"
  using assms(1,2) by (simp add: diff_sound_def sls_at_cong[OF assms(3)])

lemma diff_store:
  "sl_store (dc_s (diff_rec left A B c)) = sl_store (dc_s c)"
  "sl_store (dc_s (diff_enter A B c)) = sl_store (dc_s c)"
  using diff_rec_work[of c left A B] by (auto simp: diff_work_def diff_enter_def)

lemma diff_kids_store:
  "sl_store (dc_s (diff_kids l pa pb n c)) = sl_store (dc_s c)"
  by (induction n) (simp_all add: diff_kids_Suc Let_def diff_store)

lemma rec_change_sound:
  assumes "diff_sound rootA rootB c" "length B = 32"
    and "sls_at (dc_s c) rootA p = Some A" "sls_at (dc_s c) rootB p = Some B" "A \<noteq> B"
  shows "diff_sound rootA rootB (rec_change B c)"
proof -
  have "\<exists>o' \<in> set (dc_out c). cvsasx_hash_eq o' B" if "B \<in> set (dc_out c)"
    using that assms(2) by (intro bexI[of _ B]) (simp_all add: cvsasx_hash_eq_iff)
  then show ?thesis
    using assms by (auto simp: rec_change_def diff_sound_def)
qed

lemma diff_rec_sound:
  assumes "diff_sound rootA rootB c" "length A = 32" "length B = 32"
    and "sls_at (dc_s c) rootA p = Some A" "sls_at (dc_s c) rootB p = Some B"
  shows "diff_sound rootA rootB (diff_rec left A B c)"
  using assms
proof (induction left arbitrary: A B c p rule: less_induct)
  case (less left)
  note cong = diff_sound_cong[of _ c rootA rootB]
  have ent: "diff_sound rootA rootB (diff_enter A B c)"
    using less.prems(1) by (subst cong) (simp_all add: diff_enter_def)
  have at: "sls_at (dc_s (diff_enter A B c)) o' q = sls_at (dc_s c) o' q" for o' q
    by (rule sls_at_cong) (simp add: diff_store)
  show ?case
  proof (cases rule: diff_rec_cases[of c left A B])
    case err
    then show ?thesis using less.prems(1) by simp
  next
    case same
    then show ?thesis using less.prems(1) by (subst cong) simp_all
  next
    case fail
    then show ?thesis
      using less.prems(1) by (subst cong) (auto simp: diff_failed_def)
  next
    case change
    have "A \<noteq> B" using change(2) less.prems(2,3) by (auto simp: cvsasx_hash_eq_iff)
    then show ?thesis
      unfolding change(4) using less.prems ent by (intro rec_change_sound[of _ _ _ _ p A]) (simp_all add: at)
  next
    case (descend l pa pb n)
    note K = diff_decide_DDescend[OF descend(7,5,6)]
    have "diff_sound rootA rootB (diff_kids l pa pb j (diff_enter A B c))" if "j \<le> n" for j
      using that
    proof (induction j)
      case (Suc j)
      let ?c = "diff_kids l pa pb j (diff_enter A B c)"
      have at': "sls_at (dc_s ?c) o' q = sls_at (dc_s c) o' q" for o' q
        by (rule sls_at_cong) (simp add: diff_store diff_kids_store)
      have "sls_at (dc_s c) rootA (p @ [j]) = Some (node_child pa j)"
        "sls_at (dc_s c) rootB (p @ [j]) = Some (node_child pb j)"
        using less.prems(4,5) K(1,2) Suc.prems by (simp_all add: sls_at_append)
      then have "sls_at (dc_s ?c) rootA (p @ [j]) = Some (node_child pa j)"
        "sls_at (dc_s ?c) rootB (p @ [j]) = Some (node_child pb j)"
        by (simp_all only: at')
      then have "diff_sound rootA rootB (diff_rec l (node_child pa j) (node_child pb j) ?c)"
        using Suc descend(1) K(4)[of j] by (intro less.IH[where p = "p @ [j]"]) simp_all
      then show ?case using Suc by (simp add: diff_kids_Suc Let_def)
    qed (simp add: ent)
    then show ?thesis using descend(8) by simp
  qed
qed

section \<open>Completeness: what is covered\<close>

text \<open>A recorded pair is settled when its new object is reported or its child pairs are equal or recorded.\<close>

definition pair_settled :: "diff_ctx \<Rightarrow> bytes \<Rightarrow> bytes \<Rightarrow> bool" where
  "pair_settled c A B \<longleftrightarrow>
     B \<in> set (dc_out c) \<or>
     (\<exists>as bs. sls_kids (dc_s c) A = Some as \<and> sls_kids (dc_s c) B = Some bs \<and> length as = length bs \<and>
        (\<forall>i < length bs. as ! i = bs ! i \<or> (as ! i, bs ! i) \<in> set (dc_seen c)))"

definition diff_closed :: "(bytes \<times> bytes) set \<Rightarrow> diff_ctx \<Rightarrow> bool" where
  "diff_closed P c \<longleftrightarrow> (\<forall>(A, B) \<in> set (dc_seen c) - P. pair_settled c A B)"

definition seen_wf :: "diff_ctx \<Rightarrow> bool" where
  "seen_wf c \<longleftrightarrow> (\<forall>(A, B) \<in> set (dc_seen c). length A = 32 \<and> length B = 32)"

definition out_wf :: "diff_ctx \<Rightarrow> bool" where
  "out_wf c \<longleftrightarrow> (\<forall>b \<in> set (dc_out c). length b = 32)"

definition diff_grows :: "diff_ctx \<Rightarrow> diff_ctx \<Rightarrow> bool" where
  "diff_grows c c' \<longleftrightarrow>
     set (dc_seen c) \<subseteq> set (dc_seen c') \<and> set (dc_out c) \<subseteq> set (dc_out c') \<and>
     sl_store (dc_s c') = sl_store (dc_s c) \<and> (seen_wf c \<longrightarrow> seen_wf c') \<and> (out_wf c \<longrightarrow> out_wf c')"

lemma diff_grows_refl: "diff_grows c c"
  by (simp add: diff_grows_def)

lemma diff_grows_trans: "diff_grows c c1 \<Longrightarrow> diff_grows c1 c2 \<Longrightarrow> diff_grows c c2"
  by (auto simp: diff_grows_def)

lemma diff_grows_seen: "diff_grows c c' \<Longrightarrow> x \<in> set (dc_seen c) \<Longrightarrow> x \<in> set (dc_seen c')"
  by (auto simp: diff_grows_def)

lemma pair_settled_mono:
  assumes g: "diff_grows c c'" and st: "pair_settled c A B"
  shows "pair_settled c' A B"
proof -
  have "sls_kids (dc_s c') = sls_kids (dc_s c)"
    using g by (intro sls_kids_cong) (simp add: diff_grows_def)
  then show ?thesis
    using g st unfolding pair_settled_def diff_grows_def by (auto 4 3)
qed

lemma diff_closed_mono:
  "diff_grows c c' \<Longrightarrow> diff_closed P c \<Longrightarrow> (\<forall>(A, B) \<in> set (dc_seen c') - set (dc_seen c). pair_settled c' A B) \<Longrightarrow>
   diff_closed P c'"
  unfolding diff_closed_def using pair_settled_mono[of c c'] by fast

lemma diff_closed_settle:
  "diff_closed (insert (A, B) P) c \<Longrightarrow> pair_settled c A B \<Longrightarrow> diff_closed P c"
  unfolding diff_closed_def by blast

lemma diff_grows_enter: "length A = 32 \<Longrightarrow> length B = 32 \<Longrightarrow> diff_grows c (diff_enter A B c)"
  by (auto simp: diff_grows_def diff_enter_def seen_wf_def out_wf_def)

lemma diff_closed_enter:
  assumes "diff_closed P c" "length A = 32" "length B = 32"
  shows "diff_closed (insert (A, B) P) (diff_enter A B c)"
proof -
  have "set (dc_seen (diff_enter A B c)) - insert (A, B) P \<subseteq> set (dc_seen c) - P"
    by (auto simp: diff_enter_def)
  then show ?thesis
    using assms(1) pair_settled_mono[OF diff_grows_enter[OF assms(2,3)]] unfolding diff_closed_def by blast
qed

lemma rec_change_grows: "length B = 32 \<Longrightarrow> diff_grows c (rec_change B c)"
  by (auto simp: diff_grows_def rec_change_def seen_wf_def out_wf_def)

lemma rec_change_settles:
  assumes "out_wf c" "length B = 32" "dc_err (rec_change B c) = CVSASX_SLS_OK"
  shows "pair_settled (rec_change B c) A B"
  using assms by (auto simp: pair_settled_def rec_change_def out_wf_def cvsasx_hash_eq_iff split: if_splits)

lemma pair_seen_iff:
  assumes "seen_wf c" "length A = 32" "length B = 32"
  shows "pair_seen A B c \<longleftrightarrow> (A, B) \<in> set (dc_seen c)"
proof -
  have "(\<exists>(a, b) \<in> set (dc_seen c). cvsasx_hash_eq a A \<and> cvsasx_hash_eq b B) \<longleftrightarrow>
        (\<exists>x \<in> set (dc_seen c). x = (A, B))"
  proof (rule bex_cong[OF refl])
    fix x assume "x \<in> set (dc_seen c)"
    then show "(case x of (a, b) \<Rightarrow> cvsasx_hash_eq a A \<and> cvsasx_hash_eq b B) = (x = (A, B))"
      using assms by (cases x) (auto simp: seen_wf_def cvsasx_hash_eq_iff)
  qed
  then show ?thesis by (simp add: pair_seen_def)
qed

text \<open>A call that ends without error settles its pair, keeping all settled pairs settled.\<close>

definition rec_done :: "(bytes \<times> bytes) set \<Rightarrow> bytes \<Rightarrow> bytes \<Rightarrow> diff_ctx \<Rightarrow> diff_ctx \<Rightarrow> bool" where
  "rec_done P A B c c' \<longleftrightarrow>
     diff_grows c c' \<and>
     (dc_err c' = CVSASX_SLS_OK \<longrightarrow> diff_closed P c' \<and> (A = B \<or> (A, B) \<in> set (dc_seen c')))"

definition kids_done :: "(bytes \<times> bytes) set \<Rightarrow> bytes \<Rightarrow> bytes \<Rightarrow> nat \<Rightarrow> diff_ctx \<Rightarrow> diff_ctx \<Rightarrow> bool" where
  "kids_done P pa pb n c c' \<longleftrightarrow>
     diff_grows c c' \<and>
     (dc_err c' = CVSASX_SLS_OK \<longrightarrow> diff_closed P c' \<and>
        (\<forall>i < n. node_child pa i = node_child pb i \<or> (node_child pa i, node_child pb i) \<in> set (dc_seen c')))"

lemma kids_done_step:
  assumes "kids_done P pa pb j c c1" "dc_err c1 = CVSASX_SLS_OK"
    and "rec_done P (node_child pa j) (node_child pb j) c1 c2"
  shows "kids_done P pa pb (Suc j) c c2"
proof -
  have g: "diff_grows c c1" "diff_grows c1 c2" using assms by (auto simp: kids_done_def rec_done_def)
  have "node_child pa i = node_child pb i \<or> (node_child pa i, node_child pb i) \<in> set (dc_seen c2)"
    if "i < Suc j" "dc_err c2 = CVSASX_SLS_OK" for i
  proof (cases "i = j")
    case True
    then show ?thesis using that assms(3) by (simp add: rec_done_def)
  next
    case False
    then have "i < j" using that(1) by simp
    then show ?thesis using assms(1,2) diff_grows_seen[OF g(2)] by (auto simp: kids_done_def)
  qed
  then show ?thesis
    using assms(3) diff_grows_trans[OF g] unfolding kids_done_def rec_done_def by blast
qed

lemma diff_kids_complete:
  assumes IH: "\<And>A B c. seen_wf c \<Longrightarrow> out_wf c \<Longrightarrow> diff_closed P c \<Longrightarrow> length A = 32 \<Longrightarrow> length B = 32 \<Longrightarrow>
                rec_done P A B c (diff_rec l A B c)"
    and c: "seen_wf c" "out_wf c" "diff_closed P c"
    and len: "\<And>i. i < n \<Longrightarrow> length (node_child pa i) = 32 \<and> length (node_child pb i) = 32"
    and "j \<le> n"
  shows "kids_done P pa pb j c (diff_kids l pa pb j c)"
  using assms(6)
proof (induction j)
  case 0
  then show ?case using c by (simp add: kids_done_def diff_grows_refl)
next
  case (Suc j)
  let ?c1 = "diff_kids l pa pb j c"
  have k: "kids_done P pa pb j c ?c1" using Suc by simp
  show ?case
  proof (cases "dc_err ?c1 = CVSASX_SLS_OK")
    case False
    then have "diff_kids l pa pb (Suc j) c = ?c1" by (simp add: diff_kids_Suc Let_def)
    then show ?thesis using k False by (simp add: kids_done_def)
  next
    case True
    then have e: "diff_kids l pa pb (Suc j) c = diff_rec l (node_child pa j) (node_child pb j) ?c1"
      by (simp add: diff_kids_Suc Let_def)
    have "seen_wf ?c1" "out_wf ?c1" "diff_closed P ?c1"
      using k True c by (auto simp: kids_done_def diff_grows_def)
    from IH[OF this] len[of j] Suc.prems
    have "rec_done P (node_child pa j) (node_child pb j) ?c1 (diff_kids l pa pb (Suc j) c)"
      unfolding e by simp
    then show ?thesis by (rule kids_done_step[OF k True])
  qed
qed

lemma rec_change_done:
  assumes "seen_wf c" "out_wf c" "diff_closed P c" "length A = 32" "length B = 32"
  shows "rec_done P A B c (rec_change B (diff_enter A B c))"
proof -
  let ?e = "diff_enter A B c" and ?c = "rec_change B (diff_enter A B c)"
  note ge = diff_grows_enter[OF assms(4,5), of c]
  note gr = rec_change_grows[OF assms(5), of ?e]
  have w: "out_wf ?e" using ge assms(2) by (simp add: diff_grows_def)
  have "diff_closed (insert (A, B) P) ?c"
    using diff_closed_mono[OF gr diff_closed_enter[OF assms(3-5)]] by (simp add: rec_change_frame)
  then have "diff_closed P ?c" if "dc_err ?c = CVSASX_SLS_OK"
    using rec_change_settles[OF w assms(5) that] diff_closed_settle by blast
  moreover have "(A, B) \<in> set (dc_seen ?c)" by (simp add: rec_change_frame diff_enter_def)
  ultimately show ?thesis using diff_grows_trans[OF ge gr] by (simp add: rec_done_def)
qed

lemma descend_done:
  assumes k: "kids_done (insert (A, B) P) pa pb n (diff_enter A B c) c'"
    and len: "length A = 32" "length B = 32"
    and obj: "sls_obj (dc_s c) A = Some pa" "sls_obj (dc_s c) B = Some pb" "diff_decide pa pb = DDescend n"
  shows "rec_done P A B c c'"
proof -
  note ge = diff_grows_enter[OF len, of c]
  have g: "diff_grows (diff_enter A B c) c'" using k by (simp add: kids_done_def)
  note gt = diff_grows_trans[OF ge g]
  have "(A, B) \<in> set (dc_seen c')" by (rule diff_grows_seen[OF g]) (simp add: diff_enter_def)
  moreover have "diff_closed P c'" if ok: "dc_err c' = CVSASX_SLS_OK"
  proof (rule diff_closed_settle)
    show "diff_closed (insert (A, B) P) c'" using k ok by (simp add: kids_done_def)
    have "sls_kids (dc_s c') = sls_kids (dc_s c)"
      using gt by (intro sls_kids_cong) (simp add: diff_grows_def)
    then have "sls_kids (dc_s c') A = Some (map (node_child pa) [0..<n])"
      "sls_kids (dc_s c') B = Some (map (node_child pb) [0..<n])"
      using diff_decide_DDescend(1,2)[OF obj(3,1,2)] by simp_all
    then show "pair_settled c' A B"
      using k ok unfolding pair_settled_def kids_done_def by simp
  qed
  ultimately show ?thesis using gt by (simp add: rec_done_def)
qed

lemma diff_rec_complete:
  assumes "seen_wf c" "out_wf c" "diff_closed P c" "length A = 32" "length B = 32"
  shows "rec_done P A B c (diff_rec left A B c)"
  using assms
proof (induction left arbitrary: A B c P rule: less_induct)
  case (less left)
  note len = less.prems(4,5)
  show ?case
  proof (cases rule: diff_rec_cases[of c left A B])
    case err
    then show ?thesis by (simp add: rec_done_def diff_grows_refl)
  next
    case same
    have "diff_grows c (diff_rec left A B c)" "diff_closed P (diff_rec left A B c)"
      using same(3) less.prems(3)
      by (simp_all add: diff_grows_def diff_closed_def pair_settled_def seen_wf_def out_wf_def)
    moreover have "A = B \<or> (A, B) \<in> set (dc_seen c)"
      using same(2) less.prems(1) len by (simp add: pair_seen_iff cvsasx_hash_eq_iff)
    ultimately show ?thesis using same(3) by (simp add: rec_done_def)
  next
    case fail
    then show ?thesis
      using len by (auto simp: rec_done_def diff_failed_def diff_grows_def seen_wf_def out_wf_def)
  next
    case change
    then show ?thesis using rec_change_done[OF less.prems] by simp
  next
    case (descend l pa pb n)
    have we: "seen_wf (diff_enter A B c)" "out_wf (diff_enter A B c)"
      using diff_grows_enter[OF len, of c] less.prems(1,2) by (auto simp: diff_grows_def)
    have "kids_done (insert (A, B) P) pa pb n (diff_enter A B c) (diff_rec left A B c)"
      unfolding descend(8)
      using descend(1) less.IH diff_decide_DDescend(4)[OF descend(7,5,6)] diff_closed_enter[OF less.prems(3) len]
      by (intro diff_kids_complete[OF _ we, where n = n]) simp_all
    then show ?thesis by (rule descend_done[OF _ len descend(5-7)])
  qed
qed

section \<open>Properties\<close>

lemma closed_path:
  assumes "diff_closed {} c" "(A, B) \<in> set (dc_seen c)"
    and "sls_at (dc_s c) B p = Some b" "sls_kids (dc_s c) b = None"
  shows "sls_at (dc_s c) A p = Some b \<or> (\<exists>o' \<in> set (dc_out c). \<exists>r. sls_at (dc_s c) o' r = Some b)"
  using assms(2,3)
proof (induction p arbitrary: A B)
  case Nil
  then have "pair_settled c A b" using assms(1) by (auto simp: diff_closed_def)
  then show ?case using assms(4) by (auto simp: pair_settled_def intro!: bexI[of _ b] exI[of _ "[]"])
next
  case (Cons i p)
  have st: "pair_settled c A B" using assms(1) Cons.prems(1) by (auto simp: diff_closed_def)
  show ?case
  proof (cases "B \<in> set (dc_out c)")
    case True
    then show ?thesis using Cons.prems(2) by blast
  next
    case False
    then obtain as bs where k: "sls_kids (dc_s c) A = Some as" "sls_kids (dc_s c) B = Some bs"
      "length as = length bs" "\<forall>i < length bs. as ! i = bs ! i \<or> (as ! i, bs ! i) \<in> set (dc_seen c)"
      using st by (auto simp: pair_settled_def)
    then have "i < length bs" "sls_at (dc_s c) (bs ! i) p = Some b"
      using Cons.prems(2) by (auto split: if_splits)
    then show ?thesis using k Cons.IH[of "as ! i" "bs ! i"] by auto
  qed
qed

lemma diff_run:
  assumes "cvsasx_sls_diff (Some s) (Some A) (Some B) True cap True = (r, Some s', Some (out, gets, cmps))"
  obtains c where "c = diff_rec CVSASX_SLS_MAX_DEPTH A B (diff_start s cap)" "r = dc_err c" "s' = dc_s c"
    "out = dc_out c" "gets = sl_get_calls (dc_s c) - sl_get_calls s" "cmps = dc_cmps c"
    "sl_store (dc_s c) = sl_store s"
  using assms diff_store(1)[of CVSASX_SLS_MAX_DEPTH A B "diff_start s cap"]
  by (auto simp: cvsasx_sls_diff_def sls_diff_def Let_def diff_start_def)

text \<open>
  C27: the difference misses nothing.  When it succeeds, every leaf object of the new graph
  stands at the same path of the old graph or lies below a reported object, so the
  reported objects and the old graph together hold all the data of the new one.
\<close>

theorem sls_diff_covers:
  assumes "cvsasx_sls_diff (Some s) (Some A) (Some B) True cap True =
           (CVSASX_SLS_OK, Some s', Some (out, gets, cmps))"
    and "length A = 32" and "length B = 32"
    and "sls_at s B p = Some b" and "sls_kids s b = None"
  shows "sls_at s A p = Some b \<or> (\<exists>o' \<in> set out. \<exists>r. sls_at s o' r = Some b)"
proof -
  obtain c where c: "c = diff_rec CVSASX_SLS_MAX_DEPTH A B (diff_start s cap)" "dc_err c = CVSASX_SLS_OK"
    "out = dc_out c" "sl_store (dc_s c) = sl_store s"
    by (rule diff_run[OF assms(1)]) simp
  have "rec_done {} A B (diff_start s cap) c"
    unfolding c(1) using assms(2,3)
    by (intro diff_rec_complete) (simp_all add: diff_start_def seen_wf_def out_wf_def diff_closed_def)
  then have "diff_closed {} c" and d: "A = B \<or> (A, B) \<in> set (dc_seen c)"
    using c(2) by (auto simp: rec_done_def)
  note path = closed_path[OF this(1), of A B p b, unfolded sls_at_cong[OF c(4)] sls_kids_cong[OF c(4)]]
  from d show ?thesis
  proof
    assume "A = B"
    then show ?thesis using assms(4) by simp
  next
    assume "(A, B) \<in> set (dc_seen c)"
    from path[OF this assms(4,5)] show ?thesis using c(3) by simp
  qed
qed

text \<open>
  the difference is sound and bounded, whatever its status: each reported object occurs
  once, within the capacity, at a path where the two graphs differ; at most 1024
  objects are resolved and 8193 hashes compared however much the graphs share, and the
  store is not changed.
\<close>

theorem sls_diff_sound_bounded:
  assumes "cvsasx_sls_diff (Some s) (Some A) (Some B) True cap True = (r, Some s', Some (out, gets, cmps))"
    and "length A = 32" and "length B = 32"
  shows "distinct out \<and> length out \<le> unat cap \<and> sl_store s' = sl_store s \<and>
         (\<forall>b \<in> set out. \<exists>p a. sls_at s A p = Some a \<and> sls_at s B p = Some b \<and> a \<noteq> b) \<and>
         unat gets \<le> 2 * CVSASX_SLS_DIFF_MAX \<and>
         unat cmps \<le> 1 + CVSASX_SLS_MAX_CHILDREN * CVSASX_SLS_DIFF_MAX"
proof -
  obtain c where c: "c = diff_rec CVSASX_SLS_MAX_DEPTH A B (diff_start s cap)" "s' = dc_s c"
    "out = dc_out c" "gets = sl_get_calls (dc_s c) - sl_get_calls s" "cmps = dc_cmps c"
    "sl_store (dc_s c) = sl_store s"
    by (rule diff_run[OF assms(1)]) simp
  have w: "diff_work 1 (diff_start s cap) c" unfolding c(1) by (rule diff_rec_work)
  then obtain d k m where d: "d \<le> CVSASX_SLS_DIFF_MAX" "k \<le> 2 * d" "m \<le> 1 + CVSASX_SLS_MAX_CHILDREN * d"
    "sl_get_calls (dc_s c) = sl_get_calls s + word_of_nat k" "dc_cmps c = word_of_nat m" "dc_cap c = cap"
    by (auto simp: diff_work_def diff_start_def)
  have km: "k \<le> 2 * CVSASX_SLS_DIFF_MAX" "m \<le> 1 + CVSASX_SLS_MAX_CHILDREN * CVSASX_SLS_DIFF_MAX"
    using d(1-3) by (auto simp: CVSASX_SLS_MAX_CHILDREN_def)
  then have "unat gets = k" "unat cmps = m"
    using d(4,5) c(4,5) by (simp_all add: unat_of_nat CVSASX_SLS_MAX_CHILDREN_def CVSASX_SLS_DIFF_MAX_def)
  moreover have "diff_sound A B c"
    unfolding c(1) using assms(2,3)
    by (intro diff_rec_sound[where p = "[]"]) (simp_all add: diff_sound_def diff_start_def)
  ultimately show ?thesis
    using km c d(6) unfolding diff_sound_def sls_at_cong[OF c(6)] by auto
qed

text \<open>A small graph: two one-leaf trees that share nothing but their shape.\<close>

definition ex_sls0 :: cvsasx_sls where
  "ex_sls0 = cvsasx_sls_init (Some (cvsasx_store_init (replicate 128 0) 128
                (replicate 4 \<lparr>se_hash = replicate 32 0, se_offset = 0, se_len = 0\<rparr>) 4))"

definition ex_leafA :: bytes where "ex_leafA = pad_hash (leaf_buf [1])"
definition ex_leafB :: bytes where "ex_leafB = pad_hash (leaf_buf [2])"
definition ex_rootA :: bytes where "ex_rootA = pad_hash (node_buf [ex_leafA])"
definition ex_rootB :: bytes where "ex_rootB = pad_hash (node_buf [ex_leafB])"

definition ex_sls :: cvsasx_sls where
  "ex_sls =
     (let s1 = fst (snd (cvsasx_sls_put_leaf pad_hash (Some ex_sls0) (Some [1]) 1 True));
          s2 = fst (snd (cvsasx_sls_put_leaf pad_hash s1 (Some [2]) 1 True));
          s3 = fst (snd (cvsasx_sls_put_node pad_hash s2 (Some [ex_leafA]) 1 True));
          s4 = fst (snd (cvsasx_sls_put_node pad_hash s3 (Some [ex_leafB]) 1 True))
      in the s4)"

lemma ex_diff_value:
  "(case cvsasx_sls_diff (Some ex_sls) (Some ex_rootA) (Some ex_rootB) True 8 True of
      (r, s', x) \<Rightarrow> r = CVSASX_SLS_OK \<and> s' \<noteq> None \<and> x = Some ([ex_leafB], 4, 2))"
  by code_simp

lemma ex_graph:
  "sls_at ex_sls ex_rootB [0] = Some ex_leafB \<and> sls_kids ex_sls ex_leafB = None \<and>
   length ex_rootA = 32 \<and> length ex_rootB = 32 \<and> ex_rootB \<noteq> ex_leafB \<and> ex_rootA \<noteq> ex_rootB"
  by code_simp

lemma ex_diff:
  obtains s' where "cvsasx_sls_diff (Some ex_sls) (Some ex_rootA) (Some ex_rootB) True 8 True =
     (CVSASX_SLS_OK, Some s', Some ([ex_leafB], 4, 2))"
  using ex_diff_value that by (auto split: prod.splits)

theorem sls_diff_covers_witness:
  "sls_at ex_sls ex_rootA [0] = Some ex_leafB \<or> (\<exists>o' \<in> {ex_leafB}. \<exists>r. sls_at ex_sls o' r = Some ex_leafB)"
proof -
  obtain s' where "cvsasx_sls_diff (Some ex_sls) (Some ex_rootA) (Some ex_rootB) True 8 True =
     (CVSASX_SLS_OK, Some s', Some ([ex_leafB], 4, 2))" by (rule ex_diff)
  from sls_diff_covers[OF this, of "[0]" ex_leafB] show ?thesis using ex_graph by simp
qed

theorem sls_diff_sound_bounded_witness:
  "\<exists>p a. sls_at ex_sls ex_rootA p = Some a \<and> sls_at ex_sls ex_rootB p = Some ex_leafB \<and> a \<noteq> ex_leafB"
proof -
  obtain s' where "cvsasx_sls_diff (Some ex_sls) (Some ex_rootA) (Some ex_rootB) True 8 True =
     (CVSASX_SLS_OK, Some s', Some ([ex_leafB], 4, 2))" by (rule ex_diff)
  from sls_diff_sound_bounded[OF this] show ?thesis using ex_graph by simp
qed

text \<open>
  The new root changed but is not reported: the reported set is the changed leaves (and
  shape changes), not every changed object, so a receiver of just the reported objects
  cannot resolve the new root.
\<close>

theorem sls_diff_omits_spine:
  "\<exists>s'. cvsasx_sls_diff (Some ex_sls) (Some ex_rootA) (Some ex_rootB) True 8 True =
     (CVSASX_SLS_OK, Some s', Some ([ex_leafB], 4, 2)) \<and>
   ex_rootA \<noteq> ex_rootB \<and> ex_rootB \<notin> set [ex_leafB]"
proof -
  obtain s' where "cvsasx_sls_diff (Some ex_sls) (Some ex_rootA) (Some ex_rootB) True 8 True =
     (CVSASX_SLS_OK, Some s', Some ([ex_leafB], 4, 2))" by (rule ex_diff)
  then show ?thesis using ex_graph by auto
qed

section \<open>Objects round trip\<close>

lemma node_count_node_buf:
  assumes "length cs \<le> CVSASX_SLS_MAX_CHILDREN"
  shows "node_count (node_buf cs) = word_of_nat (length cs)"
proof -
  have "slice 1 4 (node_buf cs) = le_bytes 4 (word_of_nat (length cs) :: u32)"
    by (simp add: slice_def node_buf_def)
  then show ?thesis by (simp add: node_count_def le_word_le_bytes)
qed

lemma concat_blocks:
  assumes "\<forall>c \<in> set cs. length c = k"
  shows "length (concat cs) = length cs * k"
    and "i < length cs \<Longrightarrow> take k (drop (i * k) (concat cs)) = cs ! i"
  using assms
proof (induction cs arbitrary: i)
  case (Cons c cs)
  {
    case 1
    then show ?case using Cons.IH(1) by simp
  next
    case 2
    then show ?case using Cons.IH(2) by (cases i) simp_all
  }
qed simp_all

lemma node_buf_kids:
  assumes "length cs \<le> CVSASX_SLS_MAX_CHILDREN" and "\<forall>c \<in> set cs. length c = 32"
    and "sls_obj s oid = Some (node_buf cs)"
  shows "sls_kids s oid = Some cs"
proof -
  let ?p = "node_buf cs"
  have t: "map (take 32) cs = cs" using assms(2) by (intro map_idI) simp
  have d: "drop 5 ?p = concat cs" by (simp add: node_buf_def t CVSASX_HASH_LEN_def)
  have n: "unat (node_count ?p) = length cs"
    using assms(1) by (simp add: node_count_node_buf CVSASX_SLS_MAX_CHILDREN_def unat_of_nat)
  have len: "length ?p = 5 + length cs * 32"
    using concat_blocks(1)[OF assms(2)] by (simp add: node_buf_def t CVSASX_HASH_LEN_def)
  have "node_child ?p i = cs ! i" if "i < length cs" for i
    using concat_blocks(2)[OF assms(2) that] drop_drop[of "i * 32" 5 ?p]
    by (simp add: node_child_def slice_def CVSASX_HASH_LEN_def d add.commute)
  then have "map (node_child ?p) [0..<length cs] = cs" by (intro nth_equalityI) simp_all
  then show ?thesis
    using assms(1,3) n len
    by (simp add: sls_kids_def node_size_ok_def CVSASX_HASH_LEN_def) (simp add: node_buf_def)
qed

lemma sls_store_put_ok:
  assumes "hash_fn H" and "sl_store s = Some st" and "store_inv H st" and "length buf < 2 ^ 64"
    and "sls_store_put H s buf = (CVSASX_SLS_OK, s', oid)"
    and "\<forall>c. H c = H buf \<longrightarrow> c = buf"
  shows "oid = Some (H buf)" "sls_obj s' (H buf) = Some buf"
    "\<exists>st'. sl_store s' = Some st' \<and> store_inv H st'"
    "length o' = 32 \<Longrightarrow> sls_obj s o' = Some x \<Longrightarrow> sls_obj s' o' = Some x"
proof -
  obtain r st' h where put: "store_put H st buf = (r, st', h)" by (cases "store_put H st buf")
  have take: "take (unat (word_of_nat (length buf) :: u64)) buf = buf"
    using assms(4) by (simp add: unat_of_nat)
  have r: "r = CVSASX_STORE_OK" and s': "s' = s\<lparr>sl_store := Some st'\<rparr>" and h: "h = oid"
    using assms(2,5) put by (auto simp: sls_store_put_def cvsasx_store_put_def take split: if_splits)
  have obj: "sls_obj t = (case sl_store t of None \<Rightarrow> \<lambda>_. None | Some u \<Rightarrow> store_map u)" for t
    by (auto simp: fun_eq_iff sls_obj_def cvsasx_store_get_def store_map_def split: option.splits)
  show "oid = Some (H buf)" using store_put_hash put r h by blast
  show "sls_obj s' (H buf) = Some buf"
    using hash_fn.store_put_lookup_collision_free[OF assms(1,3,4) put[unfolded r]] assms(6)
    by (simp add: obj s')
  show "\<exists>st'. sl_store s' = Some st' \<and> store_inv H st'"
    using hash_fn.store_put_inv[OF assms(1,3,4) put] by (simp add: s')
  show "sls_obj s' o' = Some x" if "length o' = 32" "sls_obj s o' = Some x"
    using hash_fn.store_lookup_mono[OF assms(1,3,4) put that(1)] that(2) assms(2) by (simp add: obj s')
qed

text \<open>
  nodes round trip.  A node put under a collision-free digest is read back under its
  digest with exactly its children in order, and every object already present keeps its
  content, so unchanged children are shared.
\<close>

theorem sls_put_node_roundtrip:
  assumes "hash_fn H" and "sl_store s = Some st" and "store_inv H st"
    and "\<forall>c \<in> set cs. length c = 32" and "unat n = length cs"
    and "cvsasx_sls_put_node H (Some s) (Some cs) n True = (CVSASX_SLS_OK, Some s', oid)"
    and "\<forall>b. H b = H (node_buf cs) \<longrightarrow> b = node_buf cs"
  shows "oid = Some (H (node_buf cs)) \<and> sls_kids s' (H (node_buf cs)) = Some cs \<and>
         (\<forall>o' x. length o' = 32 \<longrightarrow> sls_obj s o' = Some x \<longrightarrow> sls_obj s' o' = Some x)"
proof -
  have n: "length cs \<le> CVSASX_SLS_MAX_CHILDREN" and
    put: "sls_store_put H s (node_buf cs) = (CVSASX_SLS_OK, s', oid)"
    using assms(5,6) by (auto simp: cvsasx_sls_put_node_def split: if_splits prod.splits)
  have "map (take CVSASX_HASH_LEN) cs = cs"
    using assms(4) by (intro map_idI) (simp add: CVSASX_HASH_LEN_def)
  then have "length (node_buf cs) < 2 ^ 64"
    using n concat_blocks(1)[OF assms(4)] by (simp add: node_buf_def CVSASX_SLS_MAX_CHILDREN_def)
  note P = sls_store_put_ok[OF assms(1-3) this put assms(7)]
  show ?thesis using P(1,4) node_buf_kids[OF n assms(4) P(2)] by blast
qed

text \<open>A digest on which the example node does not collide: the padded digest of short inputs, else zero.\<close>

definition short_hash :: "bytes \<Rightarrow> bytes" where
  "short_hash bs = (if length bs < 31 then word_of_nat (length bs) # 1 # take 30 (bs @ replicate 30 0)
                    else replicate 32 0)"

lemma hash_fn_short_hash: "hash_fn short_hash"
  by unfold_locales (simp add: short_hash_def)

lemma short_hash_inj:
  assumes "length bs < 31" "short_hash c = short_hash bs"
  shows "c = bs"
proof -
  have "short_hash c ! 1 = 1" unfolding assms(2) using assms(1) by (simp add: short_hash_def)
  then have c: "length c < 31" by (auto simp: short_hash_def split: if_splits)
  have "unat (short_hash x ! 0) = length x" if "length x < 31" for x
    using that by (simp add: short_hash_def unat_of_nat)
  from this[OF c] this[OF assms(1)] have l: "length c = length bs" by (simp add: assms(2))
  then have "take (length bs) (take 30 (c @ replicate 30 0)) = take (length bs) (take 30 (bs @ replicate 30 0))"
    using assms c by (simp add: short_hash_def)
  then show ?thesis using assms(1) l by (simp add: min_def)
qed

theorem sls_put_node_roundtrip_witness:
  "\<exists>s'. cvsasx_sls_put_node short_hash (Some ex_sls0) (Some []) 0 True =
          (CVSASX_SLS_OK, Some s', Some (short_hash (node_buf []))) \<and>
        sls_kids s' (short_hash (node_buf [])) = Some []"
proof -
  have v: "(case cvsasx_sls_put_node short_hash (Some ex_sls0) (Some []) 0 True of
      (r, s', x) \<Rightarrow> r = CVSASX_SLS_OK \<and> s' \<noteq> None \<and> x = Some (short_hash (node_buf [])))"
    by code_simp
  then obtain s' where s': "cvsasx_sls_put_node short_hash (Some ex_sls0) (Some []) 0 True =
          (CVSASX_SLS_OK, Some s', Some (short_hash (node_buf [])))"
    by (auto split: prod.splits)
  obtain st where st: "sl_store ex_sls0 = Some st" "store_inv short_hash st"
    by (simp add: ex_sls0_def cvsasx_sls_init_def store_init_inv)
  have "\<forall>b. short_hash b = short_hash (node_buf []) \<longrightarrow> b = node_buf []"
    by (auto intro!: short_hash_inj simp: node_buf_def)
  from sls_put_node_roundtrip[OF hash_fn_short_hash st _ _ s' this] s' show ?thesis by auto
qed

end
