(* ===== verification/GateIR.thy ===== *)
theory GateIR
  imports Cap_Types
begin

text \<open>
  The gate's intermediate representation, the linear-time checker and the software memory
  backend: \<^verbatim>\<open>gate/cvsasx_gate.h\<close>, \<^verbatim>\<open>gate/sfi_checker.c\<close> and
  \<^verbatim>\<open>carmix/backend_sw_gate.c\<close>.  An opcode is a 16-bit number; the datatype has the
  enumeration's constructors and \<open>GIR_OTHER\<close> for every other value.  The checker is a
  loop over the code with the operand depth as its state, which returns the first
  violation.  Arrays of the module are lists; a null pointer is \<open>None\<close>.
\<close>

section \<open>The intermediate representation\<close>

datatype gir_op =
    GIR_END | GIR_CONST | GIR_LOCAL_GET | GIR_LOCAL_SET
  | GIR_ADD | GIR_SUB | GIR_MUL | GIR_AND | GIR_OR | GIR_XOR | GIR_SHL | GIR_SHRU
  | GIR_EQZ | GIR_LTU | GIR_LOAD | GIR_STORE | GIR_DROP | GIR_BR | GIR_BR_IF | GIR_RETURN
  | GIR_CALL_INDIRECT | GIR_CAP_FORGE | GIR_LOAD_RAW | GIR_STORE_RAW
  | GIR_OTHER u16

definition GIR_CAPSLOT_LINMEM :: u16 where "GIR_CAPSLOT_LINMEM = 0"
definition CVSASX_GATE_STACK_MAX :: nat where "CVSASX_GATE_STACK_MAX = 512"

record gir_inst =
  gi_op :: gir_op
  gi_a :: u16
  gi_imm :: u32

text \<open>The code length is the length of the code list; it fits 32 bits (\<open>module_wf\<close>).\<close>

record cvsasx_gate_module =
  gm_code :: "gir_inst list"
  gm_n_params :: u32
  gm_n_locals :: u32
  gm_mem_size :: u32
  gm_table :: "u32 list option"
  gm_table_types :: "u16 list option"
  gm_table_len :: u32

datatype cvsasx_gate_status =
    CVSASX_GATE_OK
  | CVSASX_GATE_REJECT_VALIDATION
  | CVSASX_GATE_REJECT_MEMSLOT
  | CVSASX_GATE_REJECT_FORGE
  | CVSASX_GATE_REJECT_CFLOW
  | CVSASX_GATE_REJECT_OTYPE
  | CVSASX_GATE_REJECT_STACK
  | CVSASX_GATE_REJECT_OPCODE
  | CVSASX_GATE_TRAP
  | CVSASX_GATE_NULL_ARG

text \<open>What the C arrays guarantee: the counts describe arrays that are there.\<close>

definition module_wf :: "cvsasx_gate_module \<Rightarrow> bool" where
  "module_wf m \<longleftrightarrow>
     length (gm_code m) < 2 ^ 32 \<and>
     (case gm_table m of None \<Rightarrow> True | Some t \<Rightarrow> length t = unat (gm_table_len m)) \<and>
     (case gm_table_types m of None \<Rightarrow> True | Some t \<Rightarrow> length t = unat (gm_table_len m))"

section \<open>The checker\<close>

definition check_table :: "cvsasx_gate_module \<Rightarrow> cvsasx_gate_status" where
  "check_table m =
     (case gm_table m of
        None \<Rightarrow> (if gm_table_len m = 0 then CVSASX_GATE_OK else CVSASX_GATE_REJECT_CFLOW)
      | Some t \<Rightarrow>
          (if \<exists>i < unat (gm_table_len m). unat (t ! i) \<ge> length (gm_code m)
           then CVSASX_GATE_REJECT_CFLOW else CVSASX_GATE_OK))"

definition check_binop :: "nat \<Rightarrow> cvsasx_gate_status + nat" where
  "check_binop depth = (if depth < 2 then Inl CVSASX_GATE_REJECT_STACK else Inr (depth - 1))"

text \<open>One iteration of the main pass: the first violation, or the new operand depth.\<close>

definition check_inst :: "cvsasx_gate_module \<Rightarrow> gir_inst \<Rightarrow> nat \<Rightarrow> cvsasx_gate_status + nat" where
  "check_inst m i depth =
     (case gi_op i of
        GIR_CONST \<Rightarrow> Inr (depth + 1)
      | GIR_LOCAL_GET \<Rightarrow>
          (if unat (gi_a i) \<ge> unat (gm_n_locals m) then Inl CVSASX_GATE_REJECT_STACK else Inr (depth + 1))
      | GIR_LOCAL_SET \<Rightarrow>
          (if unat (gi_a i) \<ge> unat (gm_n_locals m) then Inl CVSASX_GATE_REJECT_STACK
           else if depth < 1 then Inl CVSASX_GATE_REJECT_STACK else Inr (depth - 1))
      | GIR_ADD \<Rightarrow> check_binop depth
      | GIR_SUB \<Rightarrow> check_binop depth
      | GIR_MUL \<Rightarrow> check_binop depth
      | GIR_AND \<Rightarrow> check_binop depth
      | GIR_OR \<Rightarrow> check_binop depth
      | GIR_XOR \<Rightarrow> check_binop depth
      | GIR_SHL \<Rightarrow> check_binop depth
      | GIR_SHRU \<Rightarrow> check_binop depth
      | GIR_LTU \<Rightarrow> check_binop depth
      | GIR_EQZ \<Rightarrow> (if depth < 1 then Inl CVSASX_GATE_REJECT_STACK else Inr depth)
      | GIR_LOAD \<Rightarrow>
          (if gi_a i \<noteq> GIR_CAPSLOT_LINMEM then Inl CVSASX_GATE_REJECT_MEMSLOT
           else if depth < 1 then Inl CVSASX_GATE_REJECT_STACK else Inr depth)
      | GIR_STORE \<Rightarrow>
          (if gi_a i \<noteq> GIR_CAPSLOT_LINMEM then Inl CVSASX_GATE_REJECT_MEMSLOT
           else if depth < 2 then Inl CVSASX_GATE_REJECT_STACK else Inr (depth - 2))
      | GIR_DROP \<Rightarrow> (if depth < 1 then Inl CVSASX_GATE_REJECT_STACK else Inr (depth - 1))
      | GIR_BR \<Rightarrow>
          (if unat (gi_a i) \<ge> length (gm_code m) then Inl CVSASX_GATE_REJECT_CFLOW else Inr depth)
      | GIR_BR_IF \<Rightarrow>
          (if unat (gi_a i) \<ge> length (gm_code m) then Inl CVSASX_GATE_REJECT_CFLOW
           else if depth < 1 then Inl CVSASX_GATE_REJECT_STACK else Inr (depth - 1))
      | GIR_RETURN \<Rightarrow> Inr depth
      | GIR_END \<Rightarrow> Inr depth
      | GIR_CALL_INDIRECT \<Rightarrow>
          (if gm_table m = None \<or> gm_table_len m = 0 then Inl CVSASX_GATE_REJECT_CFLOW
           else if depth < 1 then Inl CVSASX_GATE_REJECT_STACK else Inr (depth - 1))
      | GIR_CAP_FORGE \<Rightarrow> Inl CVSASX_GATE_REJECT_FORGE
      | GIR_LOAD_RAW \<Rightarrow> Inl CVSASX_GATE_REJECT_OPCODE
      | GIR_STORE_RAW \<Rightarrow> Inl CVSASX_GATE_REJECT_OPCODE
      | GIR_OTHER _ \<Rightarrow> Inl CVSASX_GATE_REJECT_OPCODE)"

fun check_code :: "cvsasx_gate_module \<Rightarrow> gir_inst list \<Rightarrow> nat \<Rightarrow> cvsasx_gate_status" where
  "check_code m [] depth = CVSASX_GATE_OK"
| "check_code m (i # is) depth =
     (case check_inst m i depth of
        Inl r \<Rightarrow> r
      | Inr d \<Rightarrow> (if d > CVSASX_GATE_STACK_MAX then CVSASX_GATE_REJECT_STACK else check_code m is d))"

definition cvsasx_gate_check :: "cvsasx_gate_module option \<Rightarrow> cvsasx_gate_status" where
  "cvsasx_gate_check mo =
     (case mo of
        None \<Rightarrow> CVSASX_GATE_NULL_ARG
      | Some m \<Rightarrow>
          (case check_table m of
             CVSASX_GATE_OK \<Rightarrow> check_code m (gm_code m) 0
           | r \<Rightarrow> r))"

section \<open>The memory backend\<close>

text \<open>
  The accesses the executor routes through a backend, over the backend's state; \<open>None\<close> is
  an access outside the memory the backend was given.
\<close>

record 'b gate_backend =
  be_load32 :: "'b \<Rightarrow> u32 \<Rightarrow> (u32 \<times> 'b) option"
  be_store32 :: "'b \<Rightarrow> u32 \<Rightarrow> u32 \<Rightarrow> 'b option"
  be_load32_raw :: "'b \<Rightarrow> u32 \<Rightarrow> (u32 \<times> 'b) option"
  be_store32_raw :: "'b \<Rightarrow> u32 \<Rightarrow> u32 \<Rightarrow> 'b option"

record sw_state =
  sw_mem :: bytes
  sw_size :: u32
  sw_fault :: bool

definition sw_bind :: "bytes \<Rightarrow> u32 \<Rightarrow> sw_state" where
  "sw_bind mem sz = \<lparr>sw_mem = mem, sw_size = sz, sw_fault = False\<rparr>"

definition sw_inb :: "sw_state \<Rightarrow> u32 \<Rightarrow> bool" where
  "sw_inb g addr \<longleftrightarrow> \<not> (addr > sw_size g \<or> sw_size g - addr < 4)"

text \<open>The raw accesses have no test of their own: beyond the array there is no value.\<close>

definition sw_load32_raw :: "sw_state \<Rightarrow> u32 \<Rightarrow> (u32 \<times> sw_state) option" where
  "sw_load32_raw g addr =
     (if unat addr + 4 \<le> length (sw_mem g) then Some (le_word (slice (unat addr) 4 (sw_mem g)), g) else None)"

definition sw_store32_raw :: "sw_state \<Rightarrow> u32 \<Rightarrow> u32 \<Rightarrow> sw_state option" where
  "sw_store32_raw g addr val =
     (if unat addr + 4 \<le> length (sw_mem g)
      then Some (g\<lparr>sw_mem := splice (unat addr) (le_bytes 4 val) (sw_mem g)\<rparr>) else None)"

definition sw_load32 :: "sw_state \<Rightarrow> u32 \<Rightarrow> (u32 \<times> sw_state) option" where
  "sw_load32 g addr =
     (if \<not> sw_inb g addr then Some (0, g\<lparr>sw_fault := True\<rparr>) else sw_load32_raw g addr)"

definition sw_store32 :: "sw_state \<Rightarrow> u32 \<Rightarrow> u32 \<Rightarrow> sw_state option" where
  "sw_store32 g addr val =
     (if \<not> sw_inb g addr then Some (g\<lparr>sw_fault := True\<rparr>) else sw_store32_raw g addr val)"

definition cvsasx_gate_backend_sw :: "sw_state gate_backend" where
  "cvsasx_gate_backend_sw =
     \<lparr>be_load32 = sw_load32, be_store32 = sw_store32,
      be_load32_raw = sw_load32_raw, be_store32_raw = sw_store32_raw\<rparr>"

definition cvsasx_gate_backend_sw_fault :: "sw_state \<Rightarrow> bool" where
  "cvsasx_gate_backend_sw_fault g = sw_fault g"

definition cvsasx_gate_backend_sw_reset_fault :: "sw_state \<Rightarrow> sw_state" where
  "cvsasx_gate_backend_sw_reset_fault g = g\<lparr>sw_fault := False\<rparr>"

section \<open>The contract of a bounded memory\<close>

text \<open>
  What the executor relies on: the checked accesses always have a value and keep the
  backend's invariant; a raw access within the size agrees with the checked one.
\<close>

locale bounded_memory =
  fixes be :: "'b gate_backend" and inv :: "'b \<Rightarrow> bool" and msize :: "'b \<Rightarrow> nat"
  assumes load_total: "inv b \<Longrightarrow> \<exists>v b'. be_load32 be b a = Some (v, b') \<and> inv b' \<and> msize b' = msize b"
    and store_total: "inv b \<Longrightarrow> \<exists>b'. be_store32 be b a v = Some b' \<and> inv b' \<and> msize b' = msize b"
    and load_raw: "inv b \<Longrightarrow> unat a + 4 \<le> msize b \<Longrightarrow> be_load32_raw be b a = be_load32 be b a"
    and store_raw: "inv b \<Longrightarrow> unat a + 4 \<le> msize b \<Longrightarrow> be_store32_raw be b a v = be_store32 be b a v"

definition sw_inv :: "sw_state \<Rightarrow> bool" where
  "sw_inv g \<longleftrightarrow> length (sw_mem g) = unat (sw_size g)"

lemma sw_inb_iff: "sw_inb g addr \<longleftrightarrow> unat addr + 4 \<le> unat (sw_size g)"
proof (cases "addr \<le> sw_size g")
  case True
  then have "unat (sw_size g - addr) = unat (sw_size g) - unat addr" by (rule unat_diff_le)
  then show ?thesis using True by (auto simp: sw_inb_def word_less_nat_alt word_le_nat_alt)
next
  case False
  then show ?thesis by (auto simp: sw_inb_def word_le_nat_alt not_le word_less_nat_alt)
qed

interpretation sw_memory: bounded_memory cvsasx_gate_backend_sw sw_inv "\<lambda>g. unat (sw_size g)"
  by unfold_locales
    (auto simp: cvsasx_gate_backend_sw_def sw_load32_def sw_store32_def sw_load32_raw_def
       sw_store32_raw_def sw_inb_iff sw_inv_def)

end
