(* ===== verification/GateExec.thy ===== *)
theory GateExec
  imports GateIR
begin

text \<open>
  The executor, \<^verbatim>\<open>gate/executor.c\<close>, over any memory backend.  The array \<^verbatim>\<open>stack\<close>
  with its index \<^verbatim>\<open>sp\<close> is the list of live entries, top first: a push happens only
  below the ceiling, so every entry below \<^verbatim>\<open>sp\<close> has been written.  An access the C
  program has no meaning for (an index below the stack, beyond the locals, or outside the
  backend's memory) is the explicit outcome \<open>Undef\<close>.  Values are 32-bit words: the
  signed arithmetic of the source is taken at its two's complement width.  The loop takes
  fuel; the theorems say how much is enough.
\<close>

section \<open>State and outcomes\<close>

definition GLOCALS_MAX :: nat where "GLOCALS_MAX = 64"

datatype gate_ub = UB_STACK | UB_LOCAL | UB_MEM

record 'b gst =
  gs_stack :: "u32 list"
  gs_locals :: "u32 list"
  gs_pc :: nat
  gs_be :: 'b

datatype 'b exec_result =
    Next "'b gst"
  | Stop cvsasx_gate_status "u32 option" 'b
  | Undef gate_ub

section \<open>One instruction\<close>

definition exec_binop :: "(u32 \<Rightarrow> u32 \<Rightarrow> u32) \<Rightarrow> 'b gst \<Rightarrow> 'b exec_result" where
  "exec_binop f s =
     (case gs_stack s of
        y # x # st \<Rightarrow> Next (s\<lparr>gs_stack := f x y # st, gs_pc := gs_pc s + 1\<rparr>)
      | _ \<Rightarrow> Undef UB_STACK)"

definition exec_load :: "('b \<Rightarrow> u32 \<Rightarrow> (u32 \<times> 'b) option) \<Rightarrow> u32 \<Rightarrow> 'b gst \<Rightarrow> 'b exec_result" where
  "exec_load ld imm s =
     (case gs_stack s of
        x # st \<Rightarrow>
          (case ld (gs_be s) (x + imm) of
             None \<Rightarrow> Undef UB_MEM
           | Some (v, b) \<Rightarrow> Next (s\<lparr>gs_stack := v # st, gs_pc := gs_pc s + 1, gs_be := b\<rparr>))
      | _ \<Rightarrow> Undef UB_STACK)"

definition exec_store :: "('b \<Rightarrow> u32 \<Rightarrow> u32 \<Rightarrow> 'b option) \<Rightarrow> u32 \<Rightarrow> 'b gst \<Rightarrow> 'b exec_result" where
  "exec_store stf imm s =
     (case gs_stack s of
        v # x # st \<Rightarrow>
          (case stf (gs_be s) (x + imm) v of
             None \<Rightarrow> Undef UB_MEM
           | Some b \<Rightarrow> Next (s\<lparr>gs_stack := st, gs_pc := gs_pc s + 1, gs_be := b\<rparr>))
      | _ \<Rightarrow> Undef UB_STACK)"

definition exec_return :: "'b gst \<Rightarrow> 'b exec_result" where
  "exec_return s = Stop CVSASX_GATE_OK (Some (case gs_stack s of [] \<Rightarrow> 0 | x # _ \<Rightarrow> x)) (gs_be s)"

definition exec_push :: "u32 \<Rightarrow> 'b gst \<Rightarrow> 'b exec_result" where
  "exec_push v s = Next (s\<lparr>gs_stack := v # gs_stack s, gs_pc := gs_pc s + 1\<rparr>)"

definition exec_call :: "cvsasx_gate_module \<Rightarrow> u16 \<Rightarrow> 'b gst \<Rightarrow> 'b exec_result" where
  "exec_call m a s =
     (case gs_stack s of
        [] \<Rightarrow> Undef UB_STACK
      | idx # st \<Rightarrow>
          (case gm_table m of
             None \<Rightarrow> Stop CVSASX_GATE_TRAP None (gs_be s)
           | Some t \<Rightarrow>
               (if idx \<ge> gm_table_len m then Stop CVSASX_GATE_TRAP None (gs_be s)
                else if (case gm_table_types m of None \<Rightarrow> False | Some tt \<Rightarrow> tt ! unat idx \<noteq> a)
                then Stop CVSASX_GATE_TRAP None (gs_be s)
                else Next (s\<lparr>gs_stack := st, gs_pc := unat (t ! unat idx)\<rparr>))))"

definition exec_inst ::
  "cvsasx_gate_module \<Rightarrow> 'b gate_backend \<Rightarrow> gir_inst \<Rightarrow> 'b gst \<Rightarrow> 'b exec_result" where
  "exec_inst m be i s =
     (case gi_op i of
        GIR_CONST \<Rightarrow> exec_push (gi_imm i) s
      | GIR_LOCAL_GET \<Rightarrow>
          (if unat (gi_a i) < length (gs_locals s) then exec_push (gs_locals s ! unat (gi_a i)) s
           else Undef UB_LOCAL)
      | GIR_LOCAL_SET \<Rightarrow>
          (case gs_stack s of
             [] \<Rightarrow> Undef UB_STACK
           | x # st \<Rightarrow>
               (if unat (gi_a i) < length (gs_locals s)
                then Next (s\<lparr>gs_stack := st, gs_locals := (gs_locals s)[unat (gi_a i) := x],
                             gs_pc := gs_pc s + 1\<rparr>)
                else Undef UB_LOCAL))
      | GIR_ADD \<Rightarrow> exec_binop (+) s
      | GIR_SUB \<Rightarrow> exec_binop (-) s
      | GIR_MUL \<Rightarrow> exec_binop (*) s
      | GIR_AND \<Rightarrow> exec_binop (AND) s
      | GIR_OR \<Rightarrow> exec_binop (OR) s
      | GIR_XOR \<Rightarrow> exec_binop (XOR) s
      | GIR_SHL \<Rightarrow> exec_binop (\<lambda>x y. push_bit (unat (y AND 31)) x) s
      | GIR_SHRU \<Rightarrow> exec_binop (\<lambda>x y. drop_bit (unat (y AND 31)) x) s
      | GIR_LTU \<Rightarrow> exec_binop (\<lambda>x y. if x < y then 1 else 0) s
      | GIR_EQZ \<Rightarrow>
          (case gs_stack s of
             [] \<Rightarrow> Undef UB_STACK
           | x # st \<Rightarrow> Next (s\<lparr>gs_stack := (if x = 0 then 1 else 0) # st, gs_pc := gs_pc s + 1\<rparr>))
      | GIR_LOAD \<Rightarrow> exec_load (be_load32 be) (gi_imm i) s
      | GIR_STORE \<Rightarrow> exec_store (be_store32 be) (gi_imm i) s
      | GIR_LOAD_RAW \<Rightarrow> exec_load (be_load32_raw be) (gi_imm i) s
      | GIR_STORE_RAW \<Rightarrow> exec_store (be_store32_raw be) (gi_imm i) s
      | GIR_DROP \<Rightarrow>
          (case gs_stack s of
             [] \<Rightarrow> Stop CVSASX_GATE_REJECT_STACK None (gs_be s)
           | _ # st \<Rightarrow> Next (s\<lparr>gs_stack := st, gs_pc := gs_pc s + 1\<rparr>))
      | GIR_BR \<Rightarrow> Next (s\<lparr>gs_pc := unat (gi_a i)\<rparr>)
      | GIR_BR_IF \<Rightarrow>
          (case gs_stack s of
             [] \<Rightarrow> Undef UB_STACK
           | c # st \<Rightarrow> Next (s\<lparr>gs_stack := st, gs_pc := (if c \<noteq> 0 then unat (gi_a i) else gs_pc s + 1)\<rparr>))
      | GIR_RETURN \<Rightarrow> exec_return s
      | GIR_END \<Rightarrow> exec_return s
      | GIR_CALL_INDIRECT \<Rightarrow> exec_call m (gi_a i) s
      | GIR_CAP_FORGE \<Rightarrow> Stop CVSASX_GATE_REJECT_OPCODE None (gs_be s)
      | GIR_OTHER _ \<Rightarrow> Stop CVSASX_GATE_REJECT_OPCODE None (gs_be s))"

section \<open>The loop\<close>

text \<open>An iteration: the end of the code, the ceiling test before, the instruction, the test after.\<close>

definition exec_step :: "cvsasx_gate_module \<Rightarrow> 'b gate_backend \<Rightarrow> 'b gst \<Rightarrow> 'b exec_result" where
  "exec_step m be s =
     (if gs_pc s \<ge> length (gm_code m) then exec_return s
      else if length (gs_stack s) \<ge> CVSASX_GATE_STACK_MAX then Stop CVSASX_GATE_REJECT_STACK None (gs_be s)
      else (case exec_inst m be (gm_code m ! gs_pc s) s of
              Next s' \<Rightarrow>
                (if length (gs_stack s') \<ge> CVSASX_GATE_STACK_MAX
                 then Stop CVSASX_GATE_REJECT_STACK None (gs_be s') else Next s')
            | r \<Rightarrow> r))"

primrec exec_run :: "cvsasx_gate_module \<Rightarrow> 'b gate_backend \<Rightarrow> nat \<Rightarrow> 'b gst \<Rightarrow> 'b exec_result option" where
  "exec_run m be 0 s = None"
| "exec_run m be (Suc n) s =
     (case exec_step m be s of
        Next s' \<Rightarrow> exec_run m be n s'
      | r \<Rightarrow> Some r)"

definition exec_start :: "cvsasx_gate_module \<Rightarrow> 'b \<Rightarrow> u32 list option \<Rightarrow> u32 \<Rightarrow> 'b gst" where
  "exec_start m b args n_args =
     \<lparr>gs_stack = [],
      gs_locals = map (\<lambda>i. case args of None \<Rightarrow> 0 | Some xs \<Rightarrow> if i < unat n_args then xs ! i else 0)
                    [0..<unat (gm_n_locals m)],
      gs_pc = 0, gs_be = b\<rparr>"

definition cvsasx_gate_exec ::
  "nat \<Rightarrow> cvsasx_gate_module option \<Rightarrow> 'b gate_backend option \<Rightarrow> 'b \<Rightarrow> u32 list option \<Rightarrow> u32 \<Rightarrow>
   'b exec_result option" where
  "cvsasx_gate_exec fuel mo beo b args n_args =
     (case (mo, beo) of
        (Some m, Some be) \<Rightarrow>
          (if unat (gm_n_locals m) > GLOCALS_MAX then Some (Stop CVSASX_GATE_NULL_ARG None b)
           else exec_run m be fuel (exec_start m b args n_args))
      | _ \<Rightarrow> Some (Stop CVSASX_GATE_NULL_ARG None b))"

section \<open>What the check establishes\<close>

lemma check_code_Cons:
  "check_code m (i # is) d = CVSASX_GATE_OK \<longleftrightarrow>
     (\<exists>d'. check_inst m i d = Inr d' \<and> d' \<le> CVSASX_GATE_STACK_MAX \<and> check_code m is d' = CVSASX_GATE_OK)"
proof -
  have "check_inst m i d = Inl r \<Longrightarrow> r \<noteq> CVSASX_GATE_OK" for r
    by (auto simp: check_inst_def check_binop_def split: gir_op.splits if_splits)
  then show ?thesis by (auto split: sum.splits)
qed

lemma check_code_mem:
  "check_code m is d = CVSASX_GATE_OK \<Longrightarrow> i \<in> set is \<Longrightarrow> \<exists>d d'. check_inst m i d = Inr d'"
  by (induction "is" arbitrary: d) (auto simp: check_code_Cons simp del: check_code.simps(2))

lemma check_OK_D:
  assumes "cvsasx_gate_check (Some m) = CVSASX_GATE_OK"
  shows "check_code m (gm_code m) 0 = CVSASX_GATE_OK"
    and "\<And>t i. gm_table m = Some t \<Longrightarrow> i < unat (gm_table_len m) \<Longrightarrow> unat (t ! i) < length (gm_code m)"
proof -
  have t: "check_table m = CVSASX_GATE_OK"
    using assms by (auto simp: cvsasx_gate_check_def split: cvsasx_gate_status.splits)
  show "check_code m (gm_code m) 0 = CVSASX_GATE_OK" using assms t by (simp add: cvsasx_gate_check_def)
  show "unat (t' ! i) < length (gm_code m)" if "gm_table m = Some t'" "i < unat (gm_table_len m)" for t' i
    using t that by (auto simp: check_table_def not_le split: if_splits)
qed

text \<open>The facts about an instruction of a checked module that do not depend on the depth.\<close>

definition inst_ok :: "cvsasx_gate_module \<Rightarrow> gir_inst \<Rightarrow> bool" where
  "inst_ok m i \<longleftrightarrow>
     (case gi_op i of
        GIR_CAP_FORGE \<Rightarrow> False | GIR_LOAD_RAW \<Rightarrow> False | GIR_STORE_RAW \<Rightarrow> False | GIR_OTHER _ \<Rightarrow> False
      | GIR_LOCAL_GET \<Rightarrow> unat (gi_a i) < unat (gm_n_locals m)
      | GIR_LOCAL_SET \<Rightarrow> unat (gi_a i) < unat (gm_n_locals m)
      | GIR_BR \<Rightarrow> unat (gi_a i) < length (gm_code m)
      | GIR_BR_IF \<Rightarrow> unat (gi_a i) < length (gm_code m)
      | _ \<Rightarrow> True)"

lemma check_inst_ok: "check_inst m i d = Inr d' \<Longrightarrow> inst_ok m i"
  by (auto simp: check_inst_def inst_ok_def not_le split: gir_op.splits if_splits)

lemma checked_inst_ok:
  "check_code m is d = CVSASX_GATE_OK \<Longrightarrow> i \<in> set is \<Longrightarrow> inst_ok m i"
  using check_code_mem check_inst_ok by blast

section \<open>Isolation of every checked module\<close>

lemma exec_run_final: "exec_run m be n s = Some r \<Longrightarrow> r \<noteq> Next s'"
  by (induction n arbitrary: s) (auto split: exec_result.splits)

context bounded_memory
begin

definition gst_ok :: "cvsasx_gate_module \<Rightarrow> 'b \<Rightarrow> 'b gst \<Rightarrow> bool" where
  "gst_ok m b s \<longleftrightarrow>
     length (gs_locals s) = unat (gm_n_locals m) \<and> inv (gs_be s) \<and> msize (gs_be s) = msize b"

definition result_ok :: "cvsasx_gate_module \<Rightarrow> 'b \<Rightarrow> 'b exec_result \<Rightarrow> bool" where
  "result_ok m b r \<longleftrightarrow>
     (case r of
        Next s' \<Rightarrow> gst_ok m b s'
      | Stop st out b' \<Rightarrow>
          inv b' \<and> msize b' = msize b \<and> st \<in> {CVSASX_GATE_OK, CVSASX_GATE_TRAP, CVSASX_GATE_REJECT_STACK}
      | Undef u \<Rightarrow> u = UB_STACK)"

lemma exec_load_ok:
  assumes "gst_ok m b s"
  shows "result_ok m b (exec_load (be_load32 be) imm s)"
proof (cases "gs_stack s")
  case (Cons x st)
  obtain v b' where "be_load32 be (gs_be s) (x + imm) = Some (v, b')" "inv b'" "msize b' = msize (gs_be s)"
    using load_total[of "gs_be s" "x + imm"] assms by (auto simp: gst_ok_def)
  then show ?thesis using Cons assms by (simp add: exec_load_def result_ok_def gst_ok_def)
qed (simp add: exec_load_def result_ok_def)

lemma exec_store_ok:
  assumes "gst_ok m b s"
  shows "result_ok m b (exec_store (be_store32 be) imm s)"
proof (cases "\<exists>v x st. gs_stack s = v # x # st")
  case True
  then obtain v x st where st: "gs_stack s = v # x # st" by blast
  obtain b' where "be_store32 be (gs_be s) (x + imm) v = Some b'" "inv b'" "msize b' = msize (gs_be s)"
    using store_total[of "gs_be s" "x + imm" v] assms by (auto simp: gst_ok_def)
  then show ?thesis using st assms by (simp add: exec_store_def result_ok_def gst_ok_def)
qed (auto simp: exec_store_def result_ok_def split: list.splits)

lemma exec_binop_ok: "gst_ok m b s \<Longrightarrow> result_ok m b (exec_binop f s)"
  by (auto simp: exec_binop_def result_ok_def gst_ok_def split: list.splits)

lemma exec_call_ok: "gst_ok m b s \<Longrightarrow> result_ok m b (exec_call m a s)"
  by (auto simp: exec_call_def result_ok_def gst_ok_def split: list.splits option.splits)

lemma exec_inst_ok:
  assumes "inst_ok m i" and "gst_ok m b s"
  shows "result_ok m b (exec_inst m be i s)"
  using assms exec_load_ok[OF assms(2)] exec_store_ok[OF assms(2)] exec_binop_ok[OF assms(2)]
    exec_call_ok[OF assms(2)]
  by (cases "gi_op i")
     (simp_all add: exec_inst_def inst_ok_def exec_push_def exec_return_def result_ok_def[of _ _ "Next _"]
        result_ok_def[of _ _ "Stop _ _ _"] result_ok_def[of _ _ "Undef _"] gst_ok_def split: list.splits)

lemma exec_step_ok:
  assumes "\<And>i. i \<in> set (gm_code m) \<Longrightarrow> inst_ok m i" and "gst_ok m b s"
  shows "result_ok m b (exec_step m be s)"
proof -
  have "result_ok m b (exec_return s)" using assms(2) by (simp add: exec_return_def result_ok_def gst_ok_def)
  moreover have "result_ok m b (exec_inst m be (gm_code m ! gs_pc s) s)" if "gs_pc s < length (gm_code m)"
    using that assms by (intro exec_inst_ok) simp_all
  ultimately show ?thesis
    using assms(2) by (auto simp: exec_step_def result_ok_def gst_ok_def split: exec_result.splits)
qed

lemma exec_run_ok:
  assumes "\<And>i. i \<in> set (gm_code m) \<Longrightarrow> inst_ok m i" and "gst_ok m b s" and "exec_run m be n s = Some r"
  shows "result_ok m b r"
  using assms(2,3)
proof (induction n arbitrary: s)
  case (Suc n)
  note step = exec_step_ok[OF assms(1) Suc.prems(1)]
  show ?case
  proof (cases "exec_step m be s")
    case (Next s')
    then show ?thesis using Suc step by (auto simp: result_ok_def)
  qed (use Suc.prems step in auto)
qed simp

end

text \<open>
  C6: isolation.  Every run of a checked module on the software backend, branches and
  indirect calls included, accesses the linear memory only inside its bounds and the
  locals only inside theirs; it never meets a forged, raw or unknown opcode, and the
  memory keeps its size.
\<close>

theorem gate_check_isolation:
  assumes "cvsasx_gate_check (Some m) = CVSASX_GATE_OK"
    and "length mem = unat (gm_mem_size m)"
    and "cvsasx_gate_exec fuel (Some m) (Some cvsasx_gate_backend_sw) (sw_bind mem (gm_mem_size m)) args n_args
           = Some r"
  shows "r \<noteq> Undef UB_MEM \<and> r \<noteq> Undef UB_LOCAL \<and> (\<forall>s. r \<noteq> Next s) \<and>
         (\<forall>st out b. r = Stop st out b \<longrightarrow>
            st \<noteq> CVSASX_GATE_REJECT_OPCODE \<and> length (sw_mem b) = length mem)"
proof (cases "unat (gm_n_locals m) > GLOCALS_MAX")
  case True
  then show ?thesis using assms(3) by (auto simp: cvsasx_gate_exec_def sw_bind_def)
next
  case False
  let ?b = "sw_bind mem (gm_mem_size m)"
  have run: "exec_run m cvsasx_gate_backend_sw fuel (exec_start m ?b args n_args) = Some r"
    using assms(3) False by (simp add: cvsasx_gate_exec_def)
  have inst: "inst_ok m i" if "i \<in> set (gm_code m)" for i
    using checked_inst_ok[OF check_OK_D(1)[OF assms(1)] that] .
  have "sw_memory.gst_ok m ?b (exec_start m ?b args n_args)"
    using assms(2) by (simp add: sw_memory.gst_ok_def exec_start_def sw_inv_def sw_bind_def)
  from sw_memory.exec_run_ok[OF inst this run] have ok: "sw_memory.result_ok m ?b r" .
  have "\<forall>s. r \<noteq> Next s" using exec_run_final[OF run] by blast
  then show ?thesis
    using ok assms(2) by (auto simp: sw_memory.result_ok_def sw_inv_def sw_bind_def split: exec_result.splits)
qed

section \<open>Checked straight-line code has a result\<close>

definition straight_line :: "gir_inst list \<Rightarrow> bool" where
  "straight_line is \<longleftrightarrow> (\<forall>i \<in> set is. gi_op i \<notin> {GIR_BR, GIR_BR_IF, GIR_CALL_INDIRECT})"

context bounded_memory
begin

text \<open>The outcome of one checked instruction at the depth the checker computed.\<close>

definition depth_step :: "cvsasx_gate_module \<Rightarrow> 'b gst \<Rightarrow> nat \<Rightarrow> 'b exec_result \<Rightarrow> bool" where
  "depth_step m s d r \<longleftrightarrow>
     (case r of
        Next s' \<Rightarrow> length (gs_stack s') = d \<and> gs_pc s' = gs_pc s + 1 \<and> gst_ok m (gs_be s) s'
      | Stop st out b' \<Rightarrow> st = CVSASX_GATE_OK \<and> out \<noteq> None
      | Undef u \<Rightarrow> False)"

lemma two_deep: "2 \<le> length xs \<Longrightarrow> \<exists>y x st. xs = y # x # st"
  by (cases xs; cases "tl xs") auto

lemma binop_depth:
  assumes "gst_ok m b s" "check_binop (length (gs_stack s)) = Inr d"
  shows "depth_step m s d (exec_binop f s)"
proof -
  obtain y x st where "gs_stack s = y # x # st"
    using assms(2) two_deep[of "gs_stack s"] by (auto simp: check_binop_def split: if_splits)
  then show ?thesis
    using assms by (auto simp: exec_binop_def depth_step_def gst_ok_def check_binop_def)
qed

lemma load_depth:
  assumes "gst_ok m b s" "1 \<le> length (gs_stack s)"
  shows "depth_step m s (length (gs_stack s)) (exec_load (be_load32 be) imm s)"
proof -
  obtain x st where st: "gs_stack s = x # st" using assms(2) by (cases "gs_stack s") auto
  obtain v b' where "be_load32 be (gs_be s) (x + imm) = Some (v, b')" "inv b'" "msize b' = msize (gs_be s)"
    using load_total[of "gs_be s" "x + imm"] assms by (auto simp: gst_ok_def)
  then show ?thesis using st assms(1) by (simp add: exec_load_def depth_step_def gst_ok_def)
qed

lemma store_depth:
  assumes "gst_ok m b s" "2 \<le> length (gs_stack s)"
  shows "depth_step m s (length (gs_stack s) - 2) (exec_store (be_store32 be) imm s)"
proof -
  obtain v x st where st: "gs_stack s = v # x # st" using two_deep[OF assms(2)] by blast
  obtain b' where "be_store32 be (gs_be s) (x + imm) v = Some b'" "inv b'" "msize b' = msize (gs_be s)"
    using store_total[of "gs_be s" "x + imm" v] assms by (auto simp: gst_ok_def)
  then show ?thesis using st assms(1) by (simp add: exec_store_def depth_step_def gst_ok_def)
qed

lemma exec_inst_depth:
  assumes "gst_ok m b s" "check_inst m i (length (gs_stack s)) = Inr d"
    and "gi_op i \<notin> {GIR_BR, GIR_BR_IF, GIR_CALL_INDIRECT}"
  shows "depth_step m s d (exec_inst m be i s)"
  using assms binop_depth[OF assms(1), of d] load_depth[OF assms(1)] store_depth[OF assms(1)]
  by (cases "gi_op i"; cases "gs_stack s")
     (auto simp: exec_inst_def check_inst_def exec_push_def exec_return_def depth_step_def[of _ _ _ "Next _"]
        depth_step_def[of _ _ _ "Stop _ _ _"] gst_ok_def Suc_le_eq split: if_splits)

lemma straight_run:
  assumes "straight_line (gm_code m)"
    and "check_code m (drop (gs_pc s) (gm_code m)) (length (gs_stack s)) = CVSASX_GATE_OK"
    and "gst_ok m b s" and "gs_pc s + n = length (gm_code m)"
  shows "\<exists>st out b'. exec_run m be (Suc n) s = Some (Stop st out b') \<and>
           (st = CVSASX_GATE_OK \<and> out \<noteq> None \<or> st = CVSASX_GATE_REJECT_STACK)"
  using assms(2-4)
proof (induction n arbitrary: s)
  case 0
  then show ?case by (simp add: exec_step_def exec_return_def)
next
  case (Suc n)
  let ?i = "gm_code m ! gs_pc s"
  have pc: "gs_pc s < length (gm_code m)" using Suc.prems(3) by simp
  then have dr: "drop (gs_pc s) (gm_code m) = ?i # drop (Suc (gs_pc s)) (gm_code m)"
    by (simp add: Cons_nth_drop_Suc)
  obtain d where d: "check_inst m ?i (length (gs_stack s)) = Inr d"
    "check_code m (drop (Suc (gs_pc s)) (gm_code m)) d = CVSASX_GATE_OK"
    using Suc.prems(1) unfolding dr check_code_Cons by blast
  have "gi_op ?i \<notin> {GIR_BR, GIR_BR_IF, GIR_CALL_INDIRECT}"
    using assms(1) pc unfolding straight_line_def by simp
  note step = exec_inst_depth[OF Suc.prems(2) d(1) this]
  show ?case
  proof (cases "length (gs_stack s) \<ge> CVSASX_GATE_STACK_MAX")
    case True
    then show ?thesis using pc by (simp add: exec_step_def)
  next
    case low: False
    show ?thesis
    proof (cases "exec_inst m be ?i s")
      case (Next s')
      then have s': "length (gs_stack s') = d" "gs_pc s' = Suc (gs_pc s)" "gst_ok m b s'"
        using step Suc.prems(2) by (auto simp: depth_step_def gst_ok_def)
      show ?thesis
      proof (cases "length (gs_stack s') \<ge> CVSASX_GATE_STACK_MAX")
        case True
        then show ?thesis using pc low Next by (simp add: exec_step_def)
      next
        case False
        then have "exec_step m be s = Next s'" using pc low Next by (simp add: exec_step_def)
        then show ?thesis using Suc.IH[of s'] s' d(2) Suc.prems(3) by simp
      qed
    next
      case (Stop st out b')
      then show ?thesis using step pc low by (auto simp: exec_step_def depth_step_def)
    next
      case (Undef u)
      then show ?thesis using step by (simp add: depth_step_def)
    qed
  qed
qed

end

text \<open>
  progress and termination.  A checked straight-line module (which is all the front end
  emits) runs to an answer within one step per instruction: it returns a value, or the
  stack ceiling stops it; no step is undefined.
\<close>

theorem gate_straight_line_runs:
  assumes "cvsasx_gate_check (Some m) = CVSASX_GATE_OK" and "straight_line (gm_code m)"
    and "unat (gm_n_locals m) \<le> GLOCALS_MAX" and "length mem = unat (gm_mem_size m)"
  shows "\<exists>st out b. cvsasx_gate_exec (length (gm_code m) + 1) (Some m) (Some cvsasx_gate_backend_sw)
             (sw_bind mem (gm_mem_size m)) args n_args = Some (Stop st out b) \<and>
           (st = CVSASX_GATE_OK \<and> out \<noteq> None \<or> st = CVSASX_GATE_REJECT_STACK)"
proof -
  let ?b = "sw_bind mem (gm_mem_size m)"
  have "sw_memory.gst_ok m ?b (exec_start m ?b args n_args)"
    using assms(4) by (simp add: sw_memory.gst_ok_def exec_start_def sw_inv_def sw_bind_def)
  from sw_memory.straight_run[OF assms(2) _ this, of "length (gm_code m)"]
  show ?thesis
    using assms(3) check_OK_D(1)[OF assms(1)] by (simp add: cvsasx_gate_exec_def exec_start_def)
qed

section \<open>Worked modules\<close>

definition gi :: "gir_op \<Rightarrow> u16 \<Rightarrow> u32 \<Rightarrow> gir_inst" where
  "gi op a imm = \<lparr>gi_op = op, gi_a = a, gi_imm = imm\<rparr>"

definition plain_module :: "gir_inst list \<Rightarrow> u32 \<Rightarrow> u32 \<Rightarrow> cvsasx_gate_module" where
  "plain_module code n_locals mem_size =
     \<lparr>gm_code = code, gm_n_params = n_locals, gm_n_locals = n_locals, gm_mem_size = mem_size,
      gm_table = None, gm_table_types = None, gm_table_len = 0\<rparr>"

text \<open>Add the argument to the word at address 4.\<close>

definition ex_module :: cvsasx_gate_module where
  "ex_module = plain_module
     [gi GIR_CONST 0 4, gi GIR_LOAD 0 0, gi GIR_LOCAL_GET 0 0, gi GIR_ADD 0 0, gi GIR_END 0 0] 1 16"

theorem gate_check_isolation_witness:
  "\<exists>r. cvsasx_gate_exec 9 (Some ex_module) (Some cvsasx_gate_backend_sw)
         (sw_bind (replicate 16 7) (gm_mem_size ex_module)) (Some [5]) 1 = Some r \<and>
       r \<noteq> Undef UB_MEM \<and> r \<noteq> Undef UB_LOCAL"
proof -
  have "cvsasx_gate_exec 9 (Some ex_module) (Some cvsasx_gate_backend_sw)
         (sw_bind (replicate 16 7) (gm_mem_size ex_module)) (Some [5]) 1 \<noteq> None" by code_simp
  then obtain r where r: "cvsasx_gate_exec 9 (Some ex_module) (Some cvsasx_gate_backend_sw)
         (sw_bind (replicate 16 7) (gm_mem_size ex_module)) (Some [5]) 1 = Some r" by blast
  have "cvsasx_gate_check (Some ex_module) = CVSASX_GATE_OK" by code_simp
  moreover have "length (replicate 16 (7 :: u8)) = unat (gm_mem_size ex_module)" by code_simp
  ultimately show ?thesis using gate_check_isolation[OF _ _ r] r by blast
qed

theorem gate_straight_line_runs_witness:
  "\<exists>st out b. cvsasx_gate_exec 6 (Some ex_module) (Some cvsasx_gate_backend_sw)
     (sw_bind (replicate 16 7) 16) (Some [5]) 1 = Some (Stop st out b)"
proof -
  have 1: "cvsasx_gate_check (Some ex_module) = CVSASX_GATE_OK" by code_simp
  have 2: "straight_line (gm_code ex_module)" unfolding straight_line_def by code_simp
  have 3: "unat (gm_n_locals ex_module) \<le> GLOCALS_MAX" by code_simp
  have 4: "length (replicate 16 (7 :: u8)) = unat (gm_mem_size ex_module)" by code_simp
  have 5: "length (gm_code ex_module) + 1 = 6" "gm_mem_size ex_module = 16" by code_simp+
  from gate_straight_line_runs[OF 1 2 3 4, of "Some [5]" 1] show ?thesis unfolding 5 by blast
qed

text \<open>
  The checker follows the operand depth along the code, not along the jumps: a branch over
  two pushes passes the check, and the addition at its target reads below the stack.
\<close>

definition ex_skip :: cvsasx_gate_module where
  "ex_skip = plain_module
     [gi GIR_BR 3 0, gi GIR_CONST 0 1, gi GIR_CONST 0 2, gi GIR_ADD 0 0, gi GIR_END 0 0] 0 16"

theorem gate_check_misses_joins:
  "cvsasx_gate_check (Some ex_skip) = CVSASX_GATE_OK"
  "cvsasx_gate_exec 9 (Some ex_skip) (Some cvsasx_gate_backend_sw) (sw_bind (replicate 16 0) 16) None 0
     = Some (Undef UB_STACK)"
  by code_simp+

text \<open>
  The checker admits a depth of exactly 512, which the executor refuses at run time.
\<close>

definition ex_deep :: cvsasx_gate_module where
  "ex_deep = plain_module (replicate 512 (gi GIR_CONST 0 1) @ [gi GIR_END 0 0]) 0 0"

lemma ex_deep_run:
  assumes "gs_pc s = length (gs_stack s)" and "length (gs_stack s) + n = 511"
  shows "exec_run ex_deep be (Suc n) s = Some (Stop CVSASX_GATE_REJECT_STACK None (gs_be s))"
  using assms
proof (induction n arbitrary: s)
  case 0
  then show ?case
    by (simp add: exec_step_def ex_deep_def plain_module_def gi_def exec_inst_def exec_push_def
        CVSASX_GATE_STACK_MAX_def nth_append)
next
  case (Suc n)
  let ?s = "s\<lparr>gs_stack := 1 # gs_stack s, gs_pc := gs_pc s + 1\<rparr>"
  have "exec_step ex_deep be s = Next ?s"
    using Suc.prems by (simp add: exec_step_def ex_deep_def plain_module_def gi_def exec_inst_def
        exec_push_def CVSASX_GATE_STACK_MAX_def nth_append)
  then show ?case using Suc.IH[of ?s] Suc.prems by simp
qed

theorem gate_ceiling_gap:
  "cvsasx_gate_check (Some ex_deep) = CVSASX_GATE_OK"
  "cvsasx_gate_exec 512 (Some ex_deep) (Some be) b args n_args = Some (Stop CVSASX_GATE_REJECT_STACK None b)"
proof -
  show "cvsasx_gate_check (Some ex_deep) = CVSASX_GATE_OK" by code_simp
  have "unat (gm_n_locals ex_deep) = 0" by (simp add: ex_deep_def plain_module_def)
  then show "cvsasx_gate_exec 512 (Some ex_deep) (Some be) b args n_args =
      Some (Stop CVSASX_GATE_REJECT_STACK None b)"
    using ex_deep_run[of "exec_start ex_deep b args n_args" 511 be]
    by (simp add: cvsasx_gate_exec_def exec_start_def)
qed

end
