(* ===== verification/GateOpt.thy ===== *)
theory GateOpt
  imports GateExec
begin

text \<open>
  Static elision of bounds checks, \<^verbatim>\<open>gate/optimize.c\<close>.  The abstract operand stack
  \<^verbatim>\<open>cs[0..sp)\<close> is a list of optional constants, top first.  The theorem is that on a
  checked module whose dispatch-table entries are all branch targets the optimised module
  runs exactly like the original on every bounded memory; without that condition the
  rewriting is unsound, because the join at a table target is not reset
  (\<open>gate_optimize_unsound_call\<close>).
\<close>

section \<open>The optimiser\<close>

definition OPTMAX :: nat where "OPTMAX = 4096"

datatype cvsasx_gate_opt_mode = CVSASX_GATE_OPT_ELIDE_PROVEN | CVSASX_GATE_OPT_FORCE_RAW

definition is_target :: "gir_inst list \<Rightarrow> nat \<Rightarrow> bool" where
  "is_target code t \<longleftrightarrow> (\<exists>i \<in> set code. (gi_op i = GIR_BR \<or> gi_op i = GIR_BR_IF) \<and> unat (gi_a i) = t)"

text \<open>At a branch target every slot becomes unknown.\<close>

definition opt_join :: "gir_inst list \<Rightarrow> nat \<Rightarrow> u32 option list \<Rightarrow> u32 option list" where
  "opt_join code k cs = (if is_target code k then map (\<lambda>_. None) cs else cs)"

definition abs_push :: "u32 option \<Rightarrow> u32 option list \<Rightarrow> u32 option list" where
  "abs_push v cs = (if length cs < CVSASX_GATE_STACK_MAX then v # cs else cs)"

definition abs_top_unknown :: "u32 option list \<Rightarrow> u32 option list" where
  "abs_top_unknown cs = (case cs of [] \<Rightarrow> [] | _ # r \<Rightarrow> None # r)"

text \<open>The abstract effect of an instruction.\<close>

definition opt_transfer :: "gir_inst \<Rightarrow> u32 option list \<Rightarrow> u32 option list" where
  "opt_transfer i cs =
     (case gi_op i of
        GIR_CONST \<Rightarrow> abs_push (Some (gi_imm i)) cs
      | GIR_LOCAL_GET \<Rightarrow> abs_push None cs
      | GIR_LOCAL_SET \<Rightarrow> tl cs
      | GIR_ADD \<Rightarrow> abs_top_unknown (tl cs)
      | GIR_SUB \<Rightarrow> abs_top_unknown (tl cs)
      | GIR_MUL \<Rightarrow> abs_top_unknown (tl cs)
      | GIR_AND \<Rightarrow> abs_top_unknown (tl cs)
      | GIR_OR \<Rightarrow> abs_top_unknown (tl cs)
      | GIR_XOR \<Rightarrow> abs_top_unknown (tl cs)
      | GIR_SHL \<Rightarrow> abs_top_unknown (tl cs)
      | GIR_SHRU \<Rightarrow> abs_top_unknown (tl cs)
      | GIR_LTU \<Rightarrow> abs_top_unknown (tl cs)
      | GIR_EQZ \<Rightarrow> abs_top_unknown cs
      | GIR_LOAD \<Rightarrow> abs_top_unknown cs
      | GIR_STORE \<Rightarrow> tl (tl cs)
      | GIR_DROP \<Rightarrow> tl cs
      | GIR_BR_IF \<Rightarrow> tl cs
      | GIR_CALL_INDIRECT \<Rightarrow> tl cs
      | _ \<Rightarrow> cs)"

text \<open>The address is proven when its slot is a constant and the access ends within the memory.\<close>

definition opt_proves :: "cvsasx_gate_module \<Rightarrow> u32 \<Rightarrow> nat \<Rightarrow> u32 option list \<Rightarrow> bool" where
  "opt_proves m imm pos cs \<longleftrightarrow>
     pos < length cs \<and>
     (case cs ! pos of
        None \<Rightarrow> False
      | Some v \<Rightarrow> (ucast v + ucast imm + 4 :: u64) \<le> ucast (gm_mem_size m))"

definition opt_rewrite ::
  "cvsasx_gate_module \<Rightarrow> cvsasx_gate_opt_mode \<Rightarrow> gir_inst \<Rightarrow> u32 option list \<Rightarrow> gir_inst" where
  "opt_rewrite m mode i cs =
     (case gi_op i of
        GIR_LOAD \<Rightarrow>
          (if mode = CVSASX_GATE_OPT_FORCE_RAW \<or> opt_proves m (gi_imm i) 0 cs
           then i\<lparr>gi_op := GIR_LOAD_RAW\<rparr> else i)
      | GIR_STORE \<Rightarrow>
          (if mode = CVSASX_GATE_OPT_FORCE_RAW \<or> opt_proves m (gi_imm i) 1 cs
           then i\<lparr>gi_op := GIR_STORE_RAW\<rparr> else i)
      | _ \<Rightarrow> i)"

text \<open>The loop over the code from position \<open>k\<close>: the rewritten instructions and the number elided.\<close>

fun opt_loop ::
  "cvsasx_gate_module \<Rightarrow> cvsasx_gate_opt_mode \<Rightarrow> nat \<Rightarrow> gir_inst list \<Rightarrow> u32 option list \<Rightarrow>
   gir_inst list \<times> u32" where
  "opt_loop m mode k [] cs = ([], 0)"
| "opt_loop m mode k (i # is) cs =
     (let cs1 = opt_join (gm_code m) k cs;
          i' = opt_rewrite m mode i cs1;
          (is', e) = opt_loop m mode (Suc k) is (opt_transfer i cs1)
      in (i' # is', (if gi_op i' \<noteq> gi_op i then 1 else 0) + e))"

definition cvsasx_gate_optimize ::
  "cvsasx_gate_module option \<Rightarrow> bool \<Rightarrow> bool \<Rightarrow> cvsasx_gate_opt_mode \<Rightarrow>
   cvsasx_gate_status \<times> cvsasx_gate_module option \<times> u32" where
  "cvsasx_gate_optimize mo out_code out_mod mode =
     (case mo of
        None \<Rightarrow> (CVSASX_GATE_NULL_ARG, None, 0)
      | Some m \<Rightarrow>
          (if \<not> out_code \<or> \<not> out_mod then (CVSASX_GATE_NULL_ARG, None, 0)
           else if length (gm_code m) > OPTMAX then (CVSASX_GATE_OK, Some m, 0)
           else (case opt_loop m mode 0 (gm_code m) [] of
                   (code, e) \<Rightarrow> (CVSASX_GATE_OK, Some (m\<lparr>gm_code := code\<rparr>), e))))"

section \<open>The abstract stack at each position\<close>

text \<open>The abstract stack the loop holds when it rewrites instruction \<open>k\<close>.\<close>

primrec abs_at :: "gir_inst list \<Rightarrow> nat \<Rightarrow> u32 option list" where
  "abs_at code 0 = opt_join code 0 []"
| "abs_at code (Suc k) = opt_join code (Suc k) (opt_transfer (code ! k) (abs_at code k))"

lemma opt_loop_nth:
  assumes "k + length is = length (gm_code m)" "drop k (gm_code m) = is"
    and "opt_join (gm_code m) k cs = abs_at (gm_code m) k"
  shows "fst (opt_loop m mode k is cs) =
         map (\<lambda>j. opt_rewrite m mode (gm_code m ! j) (abs_at (gm_code m) j)) [k..<length (gm_code m)]"
  using assms
proof (induction "is" arbitrary: k cs)
  case Nil
  then show ?case by simp
next
  case (Cons i "is")
  have k: "k < length (gm_code m)" using Cons.prems(1) by simp
  have i: "gm_code m ! k = i" "drop (Suc k) (gm_code m) = is"
    using Cons.prems(2) k by (metis Cons_nth_drop_Suc list.inject)+
  have "fst (opt_loop m mode (Suc k) is (opt_transfer i (abs_at (gm_code m) k))) =
      map (\<lambda>j. opt_rewrite m mode (gm_code m ! j) (abs_at (gm_code m) j)) [Suc k..<length (gm_code m)]"
    using Cons.prems i by (intro Cons.IH) simp_all
  then show ?case
    using i k Cons.prems(3) by (simp add: Let_def case_prod_beta upt_conv_Cons[of k])
qed

lemma optimize_code:
  assumes "cvsasx_gate_optimize (Some m) True True mode = (r, Some m', e)"
  shows "length (gm_code m) \<le> OPTMAX \<Longrightarrow> m' = m\<lparr>gm_code :=
           map (\<lambda>j. opt_rewrite m mode (gm_code m ! j) (abs_at (gm_code m) j)) [0..<length (gm_code m)]\<rparr>"
    and "length (gm_code m) > OPTMAX \<Longrightarrow> m' = m"
  using assms opt_loop_nth[of 0 "gm_code m" m "[]" mode]
  by (auto simp: cvsasx_gate_optimize_def split: prod.splits if_splits)

lemma opt_join_length [simp]: "length (opt_join code k cs) = length cs"
  by (simp add: opt_join_def)

text \<open>On a checked module the abstract stack has the checker's depth, so it never saturates.\<close>

lemma abs_at_depth:
  assumes "check_code m (gm_code m) 0 = CVSASX_GATE_OK" "k \<le> length (gm_code m)"
  shows "check_code m (drop k (gm_code m)) (length (abs_at (gm_code m) k)) = CVSASX_GATE_OK"
  using assms(2)
proof (induction k)
  case 0
  then show ?case using assms(1) by simp
next
  case (Suc k)
  let ?i = "gm_code m ! k" and ?A = "abs_at (gm_code m) k"
  have "drop k (gm_code m) = ?i # drop (Suc k) (gm_code m)"
    using Suc.prems by (simp add: Cons_nth_drop_Suc)
  then obtain d where d: "check_inst m ?i (length ?A) = Inr d" "d \<le> CVSASX_GATE_STACK_MAX"
    "check_code m (drop (Suc k) (gm_code m)) d = CVSASX_GATE_OK"
    using Suc by (auto simp: check_code_Cons simp del: check_code.simps(2))
  have "length (opt_transfer ?i ?A) = d"
    using d(1,2)
    by (cases "gi_op ?i"; cases ?A; cases "tl ?A")
       (auto simp: opt_transfer_def check_inst_def check_binop_def abs_push_def abs_top_unknown_def
          split: if_splits)
  then show ?case using d(3) by simp
qed

section \<open>Soundness of the abstract stack\<close>

definition abs_sound :: "u32 option list \<Rightarrow> u32 list \<Rightarrow> bool" where
  "abs_sound cs st \<longleftrightarrow> (\<forall>j v. j < length cs \<longrightarrow> j < length st \<longrightarrow> cs ! j = Some v \<longrightarrow> st ! j = v)"

lemma abs_sound_unknown [simp]: "abs_sound (map (\<lambda>_. None) cs) st"
  by (simp add: abs_sound_def)

lemma abs_sound_join: "abs_sound cs st \<Longrightarrow> abs_sound (opt_join code k cs) st"
  by (simp add: opt_join_def)

lemma abs_sound_push: "abs_sound cs st \<Longrightarrow> v = None \<or> v = Some x \<Longrightarrow> abs_sound (v # cs) (x # st)"
  by (auto simp: abs_sound_def nth_Cons split: nat.splits)

lemma abs_sound_pop: "abs_sound cs (x # st) \<Longrightarrow> abs_sound (tl cs) st"
  by (cases cs) (auto simp: abs_sound_def nth_Cons split: nat.splits)

lemma abs_sound_top: "abs_sound cs (x # st) \<Longrightarrow> abs_sound (abs_top_unknown cs) (y # st)"
  by (cases cs) (auto simp: abs_sound_def abs_top_unknown_def nth_Cons split: nat.splits)

lemma abs_sound_binop: "abs_sound cs (y # x # st) \<Longrightarrow> abs_sound (abs_top_unknown (tl cs)) (z # st)"
  by (rule abs_sound_top[OF abs_sound_pop])

lemma binop_sound:
  "abs_sound cs (gs_stack s) \<Longrightarrow> exec_binop f s = Next s' \<Longrightarrow>
   gs_pc s' = Suc (gs_pc s) \<and> abs_sound (abs_top_unknown (tl cs)) (gs_stack s')"
  by (auto simp: exec_binop_def abs_sound_binop split: list.splits)

lemma load_sound:
  "abs_sound cs (gs_stack s) \<Longrightarrow> exec_load ld imm s = Next s' \<Longrightarrow>
   gs_pc s' = Suc (gs_pc s) \<and> abs_sound (abs_top_unknown cs) (gs_stack s')"
  by (auto simp: exec_load_def abs_sound_top split: list.splits option.splits)

lemma store_sound:
  "abs_sound cs (gs_stack s) \<Longrightarrow> exec_store stf imm s = Next s' \<Longrightarrow>
   gs_pc s' = Suc (gs_pc s) \<and> abs_sound (tl (tl cs)) (gs_stack s')"
  by (auto simp: exec_store_def intro: abs_sound_pop[OF abs_sound_pop] split: list.splits option.splits)

text \<open>
  An instruction either moves on to the next position, where the abstract effect is sound, or
  jumps to the target of a branch of the code or to an entry of the dispatch table.
\<close>

lemma exec_inst_sound:
  assumes sound: "abs_sound cs (gs_stack s)" and step: "exec_inst m be i s = Next s'"
    and iok: "inst_ok m i"
    and room: "gi_op i = GIR_CONST \<or> gi_op i = GIR_LOCAL_GET \<longrightarrow> length cs < CVSASX_GATE_STACK_MAX"
  shows "gs_pc s' = Suc (gs_pc s) \<and> abs_sound (opt_transfer i cs) (gs_stack s') \<or>
         (gi_op i = GIR_BR \<or> gi_op i = GIR_BR_IF) \<and> gs_pc s' = unat (gi_a i) \<or>
         gi_op i = GIR_CALL_INDIRECT \<and>
           (\<exists>t idx. gm_table m = Some t \<and> idx < unat (gm_table_len m) \<and> gs_pc s' = unat (t ! idx))"
proof (cases "gi_op i = GIR_CALL_INDIRECT")
  case True
  then show ?thesis
    using step by (auto simp: exec_inst_def exec_call_def word_le_nat_alt not_le split: list.splits option.splits if_splits)
next
  case False
  then show ?thesis
    using sound step room iok binop_sound[OF sound] load_sound[OF sound] store_sound[OF sound]
    by (cases "gi_op i"; cases "gs_stack s")
       (auto simp: exec_inst_def inst_ok_def opt_transfer_def exec_push_def exec_return_def abs_push_def
          intro: abs_sound_push abs_sound_top dest: abs_sound_pop split: if_splits)
qed

section \<open>The optimised module runs like the original\<close>

text \<open>Dispatch-table entries that are joins of their own: every entry is also a branch target.\<close>

definition table_joined :: "cvsasx_gate_module \<Rightarrow> bool" where
  "table_joined m \<longleftrightarrow>
     (case gm_table m of
        None \<Rightarrow> True
      | Some t \<Rightarrow> \<forall>i < unat (gm_table_len m). is_target (gm_code m) (unat (t ! i)))"

lemma abs_at_target: "is_target code k \<Longrightarrow> abs_sound (abs_at code k) st"
  by (cases k) (simp_all add: opt_join_def abs_sound_def[of "[]"])

lemma opt_proves_bound:
  assumes "opt_proves m imm pos cs" "abs_sound cs st" "pos < length st"
  shows "unat (st ! pos + imm) + 4 \<le> unat (gm_mem_size m)"
proof -
  obtain v where v: "cs ! pos = Some v" "pos < length cs"
    and le: "(ucast v + ucast imm + 4 :: u64) \<le> ucast (gm_mem_size m)"
    using assms(1) by (auto simp: opt_proves_def split: option.splits)
  have sv: "st ! pos = v" using assms(2,3) v by (auto simp: abs_sound_def)
  have b: "unat v < 2 ^ 32" "unat imm < 2 ^ 32" "unat (gm_mem_size m) < 2 ^ 32"
    using unat_lt2p[of v] unat_lt2p[of imm] unat_lt2p[of "gm_mem_size m"] by simp_all
  have u: "unat (ucast x :: u64) = unat x" for x :: u32
    by (simp add: unsigned_ucast_eq take_bit_eq_mod order_less_le_trans[OF unat_lt2p])
  have "unat (ucast v + ucast imm :: u64) = unat v + unat imm"
    using b by (subst unat_add_no_wrap) (simp_all add: u)
  then have "unat (ucast v + ucast imm + 4 :: u64) = unat v + unat imm + 4"
    using b by (subst unat_add_no_wrap) simp_all
  then have "unat v + unat imm + 4 \<le> unat (gm_mem_size m)"
    using le by (simp add: word_le_nat_alt u)
  moreover from this have "unat (v + imm) = unat v + unat imm"
    using b by (intro unat_add_no_wrap) simp
  ultimately show ?thesis using sv by simp
qed

lemma exec_inst_tables: "exec_inst (m\<lparr>gm_code := c\<rparr>) be i s = exec_inst m be i s"
proof -
  have "exec_call (m\<lparr>gm_code := c\<rparr>) a s = exec_call m a s" for a
    by (auto simp: exec_call_def split: list.splits option.splits)
  then show ?thesis by (cases "gi_op i") (simp_all add: exec_inst_def)
qed

context bounded_memory
begin

lemma opt_rewrite_same:
  assumes "abs_sound cs (gs_stack s)" "gst_ok m b s" "msize b = unat (gm_mem_size m)"
    and "mode = CVSASX_GATE_OPT_ELIDE_PROVEN"
  shows "exec_inst m be (opt_rewrite m mode i cs) s = exec_inst m be i s"
proof -
  have mem: "inv (gs_be s)" "msize (gs_be s) = unat (gm_mem_size m)" using assms(2,3) by (auto simp: gst_ok_def)
  have ld: "exec_load (be_load32_raw be) imm s = exec_load (be_load32 be) imm s"
    if "opt_proves m imm 0 cs" for imm
    using opt_proves_bound[OF that assms(1)] load_raw[OF mem(1)] mem(2)
    by (cases "gs_stack s") (simp_all add: exec_load_def)
  have st: "exec_store (be_store32_raw be) imm s = exec_store (be_store32 be) imm s"
    if "opt_proves m imm 1 cs" for imm
    using opt_proves_bound[OF that assms(1)] store_raw[OF mem(1)] mem(2)
    by (cases "gs_stack s"; cases "tl (gs_stack s)") (simp_all add: exec_store_def)
  show ?thesis
    using ld st assms(4) by (cases "gi_op i") (simp_all add: opt_rewrite_def exec_inst_def)
qed

lemma optimized_run:
  assumes chk: "check_code m (gm_code m) 0 = CVSASX_GATE_OK" and tj: "table_joined m"
    and msz: "msize b = unat (gm_mem_size m)"
    and m': "m' = m\<lparr>gm_code := map (\<lambda>j. opt_rewrite m CVSASX_GATE_OPT_ELIDE_PROVEN (gm_code m ! j)
                (abs_at (gm_code m) j)) [0..<length (gm_code m)]\<rparr>"
    and ok: "gst_ok m b s" and snd: "gs_pc s < length (gm_code m) \<Longrightarrow> abs_sound (abs_at (gm_code m) (gs_pc s)) (gs_stack s)"
  shows "exec_run m' be n s = exec_run m be n s"
  using ok snd
proof (induction n arbitrary: s)
  case (Suc n)
  let ?k = "gs_pc s" and ?i = "gm_code m ! gs_pc s"
  show ?case
  proof (cases "?k < length (gm_code m)")
    case False
    then show ?thesis by (simp add: exec_step_def exec_return_def m')
  next
    case k: True
    have "exec_inst m' be (gm_code m' ! ?k) s = exec_inst m be (gm_code m' ! ?k) s"
      unfolding m' by (rule exec_inst_tables)
    also have "\<dots> = exec_inst m be ?i s"
      using k Suc.prems msz by (simp add: m' opt_rewrite_same)
    finally have "exec_inst m' be (gm_code m' ! ?k) s = exec_inst m be ?i s" .
    moreover have "length (gm_code m') = length (gm_code m)" by (simp add: m')
    ultimately have same: "exec_step m' be s = exec_step m be s"
      unfolding exec_step_def by (simp only:)
    show ?thesis
    proof (cases "exec_step m be s")
      case (Next s')
      then have e: "exec_inst m be ?i s = Next s'"
        using k by (auto simp: exec_step_def exec_return_def split: exec_result.splits if_splits)
      have iok: "inst_ok m ?i" using checked_inst_ok[OF chk] k by simp
      then have ok': "gst_ok m b s'" using exec_inst_ok[OF _ Suc.prems(1)] e by (force simp: result_ok_def)
      have "gi_op ?i = GIR_CONST \<or> gi_op ?i = GIR_LOCAL_GET \<longrightarrow>
          length (abs_at (gm_code m) ?k) < CVSASX_GATE_STACK_MAX"
        using abs_at_depth[OF chk, of ?k] k
        by (auto simp: Cons_nth_drop_Suc[symmetric] check_code_Cons check_inst_def
            simp del: check_code.simps(2) split: if_splits)
      from exec_inst_sound[OF Suc.prems(2)[OF k] e iok this]
      have "abs_sound (abs_at (gm_code m) (gs_pc s')) (gs_stack s')" if "gs_pc s' < length (gm_code m)"
      proof (elim disjE conjE exE)
        assume "gs_pc s' = Suc ?k" "abs_sound (opt_transfer ?i (abs_at (gm_code m) ?k)) (gs_stack s')"
        then show ?thesis by (simp add: abs_sound_join)
      next
        assume "gi_op ?i = GIR_BR" "gs_pc s' = unat (gi_a ?i)"
        then show ?thesis using k by (intro abs_at_target) (auto simp: is_target_def)
      next
        assume "gi_op ?i = GIR_BR_IF" "gs_pc s' = unat (gi_a ?i)"
        then show ?thesis using k by (intro abs_at_target) (auto simp: is_target_def)
      next
        fix t idx assume "gm_table m = Some t" "idx < unat (gm_table_len m)" "gs_pc s' = unat (t ! idx)"
        then show ?thesis using tj by (intro abs_at_target) (simp add: table_joined_def)
      qed
      then show ?thesis using Next same Suc.IH[OF ok'] by simp
    qed (simp_all add: same)
  qed
qed simp

end

text \<open>
  C26: elision preserves behaviour.  For a checked module whose dispatch-table entries are
  branch targets (in particular one without a table), the optimised module gives the same
  outcome as the original on the software backend for every input and any number of steps.
\<close>

theorem gate_optimize_equiv:
  assumes "cvsasx_gate_check (Some m) = CVSASX_GATE_OK" and "table_joined m"
    and "length mem = unat (gm_mem_size m)"
    and "cvsasx_gate_optimize (Some m) True True CVSASX_GATE_OPT_ELIDE_PROVEN = (r, Some m', e)"
  shows "cvsasx_gate_exec fuel (Some m') (Some cvsasx_gate_backend_sw) (sw_bind mem (gm_mem_size m)) args n_args =
         cvsasx_gate_exec fuel (Some m) (Some cvsasx_gate_backend_sw) (sw_bind mem (gm_mem_size m)) args n_args"
proof (cases "length (gm_code m) \<le> OPTMAX")
  case True
  let ?b = "sw_bind mem (gm_mem_size m)"
  note m' = optimize_code(1)[OF assms(4) True]
  have st: "exec_start m' ?b args n_args = exec_start m ?b args n_args" "gm_n_locals m' = gm_n_locals m"
    by (simp_all add: m' exec_start_def)
  have "sw_memory.gst_ok m ?b (exec_start m ?b args n_args)"
    using assms(3) by (simp add: sw_memory.gst_ok_def exec_start_def sw_inv_def sw_bind_def)
  then have "exec_run m' cvsasx_gate_backend_sw fuel (exec_start m ?b args n_args) =
        exec_run m cvsasx_gate_backend_sw fuel (exec_start m ?b args n_args)"
    using check_OK_D(1)[OF assms(1)] assms(2)
    by (intro sw_memory.optimized_run[OF _ _ _ m', of ?b]) (simp_all add: sw_bind_def exec_start_def abs_sound_def)
  then show ?thesis by (simp add: cvsasx_gate_exec_def st)
next
  case False
  then show ?thesis using optimize_code(2)[OF assms(4)] by simp
qed

text \<open>The example module: its load at the constant address 4 is elided.\<close>

lemma ex_module_optimized:
  "case cvsasx_gate_optimize (Some ex_module) True True CVSASX_GATE_OPT_ELIDE_PROVEN of
     (r, m', e) \<Rightarrow> r = CVSASX_GATE_OK \<and> e = 1 \<and> m' \<noteq> None \<and> gi_op (gm_code (the m') ! 1) = GIR_LOAD_RAW"
  by code_simp

theorem gate_optimize_equiv_witness:
  "\<exists>r m' e. cvsasx_gate_optimize (Some ex_module) True True CVSASX_GATE_OPT_ELIDE_PROVEN = (r, Some m', e) \<and>
     gi_op (gm_code m' ! 1) = GIR_LOAD_RAW \<and>
     cvsasx_gate_exec 9 (Some m') (Some cvsasx_gate_backend_sw)
       (sw_bind (replicate 16 7) (gm_mem_size ex_module)) (Some [5]) 1 =
     cvsasx_gate_exec 9 (Some ex_module) (Some cvsasx_gate_backend_sw)
       (sw_bind (replicate 16 7) (gm_mem_size ex_module)) (Some [5]) 1"
proof -
  obtain r m' e where o: "cvsasx_gate_optimize (Some ex_module) True True CVSASX_GATE_OPT_ELIDE_PROVEN = (r, Some m', e)"
    "gi_op (gm_code m' ! 1) = GIR_LOAD_RAW"
    using ex_module_optimized by (auto split: prod.splits)
  have 1: "cvsasx_gate_check (Some ex_module) = CVSASX_GATE_OK" by code_simp
  have 2: "table_joined ex_module" by (simp add: table_joined_def ex_module_def plain_module_def)
  have 3: "length (replicate 16 (7 :: u8)) = unat (gm_mem_size ex_module)" by code_simp
  from gate_optimize_equiv[OF 1 2 3 o(1)] o show ?thesis by blast
qed

text \<open>
  Without the condition on the table the elision is unsound: an indirect call enters the
  code between a constant and the load that uses it, with an address of its own.  The
  module passes the check, the original run faults cleanly, and the optimised run reads
  outside the memory.
\<close>

definition ex_call :: cvsasx_gate_module where
  "ex_call =
     \<lparr>gm_code = [gi GIR_LOCAL_GET 0 0, gi GIR_CONST 0 0, gi GIR_CALL_INDIRECT 0 0, gi GIR_CONST 0 0,
                 gi GIR_LOAD 0 0, gi GIR_END 0 0],
      gm_n_params = 1, gm_n_locals = 1, gm_mem_size = 16,
      gm_table = Some [4], gm_table_types = None, gm_table_len = 1\<rparr>"

theorem gate_optimize_unsound_call:
  "cvsasx_gate_check (Some ex_call) = CVSASX_GATE_OK"
  "case cvsasx_gate_optimize (Some ex_call) True True CVSASX_GATE_OPT_ELIDE_PROVEN of
     (r, Some m', e) \<Rightarrow> r = CVSASX_GATE_OK \<and> e = 1 \<and>
       cvsasx_gate_exec 9 (Some m') (Some cvsasx_gate_backend_sw) (sw_bind (replicate 16 7) 16) (Some [1000]) 1
         = Some (Undef UB_MEM) | _ \<Rightarrow> False"
  "case cvsasx_gate_exec 9 (Some ex_call) (Some cvsasx_gate_backend_sw) (sw_bind (replicate 16 7) 16) (Some [1000]) 1 of
     Some (Stop st out b) \<Rightarrow> st = CVSASX_GATE_OK \<and> cvsasx_gate_backend_sw_fault b | _ \<Rightarrow> False"
  by code_simp+

end
