(* ===== verification/WasmFrontend.thy ===== *)
theory WasmFrontend
  imports GateExec
begin

text \<open>
  The WebAssembly front end, \<^verbatim>\<open>gate/wasm_frontend.c\<close>: the byte reader with its LEB128
  decoders, the lowering of a function body, the section loop.  The reader is the
  position in the module's bytes and the sticky error flag; a second flag records a shift
  by 32 bits or more in the signed decoder, which the C program has no meaning for.  The
  loops terminate because every iteration consumes a byte.
\<close>

section \<open>The reader\<close>

record wr_t =
  wr_p :: nat
  wr_err :: bool
  wr_ub :: bool

definition rd_byte :: "bytes \<Rightarrow> wr_t \<Rightarrow> u8 \<times> wr_t" where
  "rd_byte w r =
     (if wr_p r \<ge> length w then (0, r\<lparr>wr_err := True\<rparr>) else (w ! wr_p r, r\<lparr>wr_p := wr_p r + 1\<rparr>))"

text \<open>Unsigned LEB128: at most five bytes.\<close>

function rd_u32_loop :: "bytes \<Rightarrow> wr_t \<Rightarrow> u32 \<Rightarrow> nat \<Rightarrow> u32 \<times> wr_t" where
  "rd_u32_loop w r v s =
     (if wr_p r \<ge> length w then (0, r\<lparr>wr_err := True\<rparr>)
      else (let b = w ! wr_p r; r1 = r\<lparr>wr_p := wr_p r + 1\<rparr>;
                v1 = v OR push_bit s (ucast (b AND 0x7f))
            in if b AND 0x80 = 0 then (v1, r1)
               else if s + 7 \<ge> 35 then (0, r1\<lparr>wr_err := True\<rparr>)
               else rd_u32_loop w r1 v1 (s + 7)))"
  by pat_completeness auto
termination by (relation "measure (\<lambda>(w, r, v, s). length w - wr_p r)") auto

declare rd_u32_loop.simps [simp del]

definition rd_u32 :: "bytes \<Rightarrow> wr_t \<Rightarrow> u32 \<times> wr_t" where
  "rd_u32 w r = rd_u32_loop w r 0 0"

text \<open>Signed LEB128: the loop has no limit of its own on the shift.\<close>

function rd_s32_loop :: "bytes \<Rightarrow> wr_t \<Rightarrow> u32 \<Rightarrow> nat \<Rightarrow> u32 \<times> wr_t" where
  "rd_s32_loop w r v s =
     (if wr_p r \<ge> length w then (0, r\<lparr>wr_err := True\<rparr>)
      else (let b = w ! wr_p r; r1 = r\<lparr>wr_p := wr_p r + 1, wr_ub := wr_ub r \<or> s \<ge> 32\<rparr>;
                v1 = v OR push_bit s (ucast (b AND 0x7f)); s1 = s + 7
            in if b AND 0x80 \<noteq> 0 then rd_s32_loop w r1 v1 s1
               else if s1 < 32 \<and> b AND 0x40 \<noteq> 0 then (v1 OR - push_bit s1 1, r1)
               else (v1, r1)))"
  by pat_completeness auto
termination by (relation "measure (\<lambda>(w, r, v, s). length w - wr_p r)") auto

declare rd_s32_loop.simps [simp del]

definition rd_s32 :: "bytes \<Rightarrow> wr_t \<Rightarrow> u32 \<times> wr_t" where
  "rd_s32 w r = rd_s32_loop w r 0 0"

lemma rd_byte_mono: "wr_p r \<le> wr_p (snd (rd_byte w r))"
  by (simp add: rd_byte_def)

lemma rd_u32_mono: "wr_p r \<le> wr_p (snd (rd_u32 w r))"
proof -
  have "wr_p r \<le> wr_p (snd (rd_u32_loop w r v s))" for v s
  proof (induction w r v s rule: rd_u32_loop.induct)
    case (1 w r v s)
    show ?case by (subst rd_u32_loop.simps) (use 1 in \<open>auto simp: Let_def intro: Suc_leD\<close>)
  qed
  then show ?thesis by (simp add: rd_u32_def)
qed

lemma rd_s32_mono: "wr_p r \<le> wr_p (snd (rd_s32 w r))"
proof -
  have "wr_p r \<le> wr_p (snd (rd_s32_loop w r v s))" for v s
  proof (induction w r v s rule: rd_s32_loop.induct)
    case (1 w r v s)
    show ?case by (subst rd_s32_loop.simps) (use 1 in \<open>auto simp: Let_def intro: Suc_leD\<close>)
  qed
  then show ?thesis by (simp add: rd_s32_def)
qed

section \<open>Lowering a function body\<close>

definition WASM_I32 :: u8 where "WASM_I32 = 0x7f"

definition mk_inst :: "gir_op \<Rightarrow> u32 \<Rightarrow> u32 \<Rightarrow> gir_inst" where
  "mk_inst op a imm = \<lparr>gi_op = op, gi_a = ucast a, gi_imm = imm\<rparr>"

text \<open>
  What one opcode byte emits, after reading its immediates; \<open>None\<close> is the rejection, the flag
  marks the end of the body.
\<close>

definition lower_op :: "bytes \<Rightarrow> u32 \<Rightarrow> bool \<Rightarrow> u8 \<Rightarrow> wr_t \<Rightarrow> wr_t \<times> (gir_inst \<times> bool) option" where
  "lower_op w n_locals have_memory op r =
     (if op = 0x41 then (case rd_s32 w r of (c, r1) \<Rightarrow> (r1, Some (mk_inst GIR_CONST 0 c, False)))
      else if op = 0x20 then
        (case rd_u32 w r of (i, r1) \<Rightarrow>
           if i \<ge> n_locals then (r1, None) else (r1, Some (mk_inst GIR_LOCAL_GET i 0, False)))
      else if op = 0x21 then
        (case rd_u32 w r of (i, r1) \<Rightarrow>
           if i \<ge> n_locals then (r1, None) else (r1, Some (mk_inst GIR_LOCAL_SET i 0, False)))
      else if op = 0x6a then (r, Some (mk_inst GIR_ADD 0 0, False))
      else if op = 0x6b then (r, Some (mk_inst GIR_SUB 0 0, False))
      else if op = 0x6c then (r, Some (mk_inst GIR_MUL 0 0, False))
      else if op = 0x71 then (r, Some (mk_inst GIR_AND 0 0, False))
      else if op = 0x72 then (r, Some (mk_inst GIR_OR 0 0, False))
      else if op = 0x73 then (r, Some (mk_inst GIR_XOR 0 0, False))
      else if op = 0x74 then (r, Some (mk_inst GIR_SHL 0 0, False))
      else if op = 0x76 then (r, Some (mk_inst GIR_SHRU 0 0, False))
      else if op = 0x45 then (r, Some (mk_inst GIR_EQZ 0 0, False))
      else if op = 0x49 then (r, Some (mk_inst GIR_LTU 0 0, False))
      else if op = 0x28 then
        (if \<not> have_memory then (r, None)
         else (case rd_u32 w r of (_, r1) \<Rightarrow> case rd_u32 w r1 of (off, r2) \<Rightarrow>
                 (r2, Some (mk_inst GIR_LOAD (ucast GIR_CAPSLOT_LINMEM) off, False))))
      else if op = 0x36 then
        (if \<not> have_memory then (r, None)
         else (case rd_u32 w r of (_, r1) \<Rightarrow> case rd_u32 w r1 of (off, r2) \<Rightarrow>
                 (r2, Some (mk_inst GIR_STORE (ucast GIR_CAPSLOT_LINMEM) off, False))))
      else if op = 0x1a then (r, Some (mk_inst GIR_DROP 0 0, False))
      else if op = 0x0f then (r, Some (mk_inst GIR_RETURN 0 0, False))
      else if op = 0x0b then (r, Some (mk_inst GIR_END 0 0, True))
      else (r, None))"

lemma lower_op_mono: "wr_p r \<le> wr_p (fst (lower_op w n hm op r))"
  using rd_u32_mono[of r w] rd_s32_mono[of r w] order_trans[OF rd_u32_mono rd_u32_mono]
  by (auto simp: lower_op_def split: prod.splits) (metis snd_conv)+

lemma lower_op_zero: "lower_op w n hm 0 r = (r, None)"
  by (simp add: lower_op_def)

lemma lower_progress:
  assumes "rd_byte w r = (op, r1)" "lower_op w n hm op r1 = (r2, Some e)"
  shows "length w - wr_p r2 < length w - wr_p r"
proof -
  have "op \<noteq> 0" using assms(2) lower_op_zero by auto
  then have "wr_p r < length w" "wr_p r1 = wr_p r + 1"
    using assms(1) by (auto simp: rd_byte_def split: if_splits)
  moreover have "wr_p r1 \<le> wr_p r2" using lower_op_mono[of r1 w n hm op] assms(2) by simp
  ultimately show ?thesis by simp
qed

function lower_expr ::
  "bytes \<Rightarrow> nat \<Rightarrow> u32 \<Rightarrow> bool \<Rightarrow> wr_t \<Rightarrow> gir_inst list \<Rightarrow> wr_t \<times> gir_inst list option" where
  "lower_expr w cap n_locals have_memory r out =
     (if wr_err r then (r, None)
      else (case rd_byte w r of (op, r1) \<Rightarrow>
              (case lower_op w n_locals have_memory op r1 of
                 (r2, None) \<Rightarrow> (r2, None)
               | (r2, Some (i, fin)) \<Rightarrow>
                   (if length out \<ge> cap then (r2, None)
                    else if fin then (r2, Some (out @ [i]))
                    else lower_expr w cap n_locals have_memory r2 (out @ [i])))))"
  by pat_completeness auto
termination
proof (relation "measure (\<lambda>(w, cap, n, hm, r, out). length w - wr_p r)", goal_cases)
  case 1
  show ?case by simp
next
  case (2 w cap n_locals have_memory r out op r1 r2 y e)
  then show ?case using lower_progress[of w r op r1 n_locals have_memory r2 e] by simp
qed

declare lower_expr.simps [simp del]

section \<open>The section loop\<close>

text \<open>The local variables of the loader that survive a section.\<close>

record wasm_st =
  ws_n_params :: u32
  ws_n_locals :: u32
  ws_have_memory :: bool
  ws_have_type :: bool
  ws_have_func :: bool
  ws_have_code :: bool
  ws_code :: "gir_inst list"

text \<open>The parameter types: \<open>n\<close> bytes that must all be \<^verbatim>\<open>i32\<close>; the second component is \<open>False\<close> at the first that is not.\<close>

primrec rd_params :: "bytes \<Rightarrow> nat \<Rightarrow> wr_t \<Rightarrow> wr_t \<times> bool" where
  "rd_params w 0 r = (r, True)"
| "rd_params w (Suc n) r =
     (case rd_byte w r of (b, r1) \<Rightarrow> if b \<noteq> WASM_I32 then (r1, False) else rd_params w n r1)"

text \<open>The local declarations: counts accumulate modulo \<open>2 ^ 32\<close>.\<close>

primrec rd_locals :: "bytes \<Rightarrow> nat \<Rightarrow> wr_t \<Rightarrow> u32 \<Rightarrow> wr_t \<times> u32 option" where
  "rd_locals w 0 r n_locals = (r, Some n_locals)"
| "rd_locals w (Suc n) r n_locals =
     (case rd_u32 w r of (cnt, r1) \<Rightarrow>
        case rd_byte w r1 of (b, r2) \<Rightarrow>
          if b \<noteq> WASM_I32 then (r2, None) else rd_locals w n r2 (n_locals + cnt))"

definition type_section :: "bytes \<Rightarrow> wr_t \<Rightarrow> wasm_st \<Rightarrow> (wr_t \<times> wasm_st) option" where
  "type_section w r st =
     (case rd_u32 w r of (nt, r1) \<Rightarrow>
        if nt \<noteq> 1 then None
        else case rd_byte w r1 of (tag, r2) \<Rightarrow>
          if tag \<noteq> 0x60 then None
          else case rd_u32 w r2 of (np, r3) \<Rightarrow>
            case rd_params w (unat np) r3 of (r4, ok) \<Rightarrow>
              if \<not> ok then None
              else case rd_u32 w r4 of (nres, r5) \<Rightarrow>
                if nres \<noteq> 1 then None
                else case rd_byte w r5 of (t, r6) \<Rightarrow>
                  if t \<noteq> WASM_I32 then None
                  else Some (r6, st\<lparr>ws_n_params := np, ws_have_type := True\<rparr>))"

definition func_section :: "bytes \<Rightarrow> wr_t \<Rightarrow> wasm_st \<Rightarrow> (wr_t \<times> wasm_st) option" where
  "func_section w r st =
     (case rd_u32 w r of (nf, r1) \<Rightarrow>
        if nf \<noteq> 1 then None
        else case rd_u32 w r1 of (ti, r2) \<Rightarrow>
          if ti \<noteq> 0 then None else Some (r2, st\<lparr>ws_have_func := True\<rparr>))"

definition memory_section :: "bytes \<Rightarrow> wr_t \<Rightarrow> wasm_st \<Rightarrow> (wr_t \<times> wasm_st) option" where
  "memory_section w r st =
     (case rd_u32 w r of (nm, r1) \<Rightarrow>
        if nm \<noteq> 1 then None
        else case rd_byte w r1 of (flag, r2) \<Rightarrow>
          case rd_u32 w r2 of (_, r3) \<Rightarrow>
            if flag = 0x01 then Some (snd (rd_u32 w r3), st\<lparr>ws_have_memory := True\<rparr>)
            else if flag \<noteq> 0x00 then None
            else Some (r3, st\<lparr>ws_have_memory := True\<rparr>))"

definition code_section :: "bytes \<Rightarrow> nat \<Rightarrow> wr_t \<Rightarrow> wasm_st \<Rightarrow> (wr_t \<times> wasm_st) option" where
  "code_section w cap r st =
     (case rd_u32 w r of (nc, r1) \<Rightarrow>
        if nc \<noteq> 1 then None
        else case rd_u32 w r1 of (_, r2) \<Rightarrow>
          case rd_u32 w r2 of (nd, r3) \<Rightarrow>
            case rd_locals w (unat nd) r3 (ws_n_params st) of (r4, nl) \<Rightarrow>
              case nl of
                None \<Rightarrow> None
              | Some n_locals \<Rightarrow>
                  (case lower_expr w cap n_locals (ws_have_memory st) r4 [] of (r5, res) \<Rightarrow>
                     case res of
                       None \<Rightarrow> None
                     | Some is \<Rightarrow>
                         Some (r5, st\<lparr>ws_n_locals := n_locals, ws_have_code := True, ws_code := is\<rparr>)))"

text \<open>One section: its body, the error test, the jump to its end.  \<open>None\<close> is the rejection.\<close>

definition one_section :: "bytes \<Rightarrow> nat \<Rightarrow> wr_t \<Rightarrow> wasm_st \<Rightarrow> (wr_t \<times> wasm_st) option" where
  "one_section w cap r st =
     (case rd_byte w r of (sid, r1) \<Rightarrow>
        case rd_u32 w r1 of (ssize, r2) \<Rightarrow>
          let send = wr_p r2 + unat ssize
          in if send > length w then None
             else case (if sid = 1 then type_section w r2 st
                        else if sid = 3 then func_section w r2 st
                        else if sid = 5 then memory_section w r2 st
                        else if sid = 10 then code_section w cap r2 st
                        else Some (r2, st)) of
                    None \<Rightarrow> None
                  | Some (r3, st') \<Rightarrow>
                      (if wr_err r3 then None else Some (r3\<lparr>wr_p := send\<rparr>, st')))"

lemma one_section_progress:
  assumes "wr_p r < length w" "one_section w cap r st = Some (r', st')"
  shows "length w - wr_p r' < length w - wr_p r"
proof -
  obtain sid r1 where 1: "rd_byte w r = (sid, r1)" by (cases "rd_byte w r")
  obtain ssize r2 where 2: "rd_u32 w r1 = (ssize, r2)" by (cases "rd_u32 w r1")
  have "wr_p r1 = wr_p r + 1" using 1 assms(1) by (auto simp: rd_byte_def)
  moreover have "wr_p r1 \<le> wr_p r2" using rd_u32_mono[of r1 w] 2 by simp
  moreover have "wr_p r' = wr_p r2 + unat ssize"
    using assms(2) unfolding one_section_def 1 2 prod.case Let_def
    by (auto split: if_splits option.splits prod.splits)
  ultimately show ?thesis using assms(1) by simp
qed

function load_sections :: "bytes \<Rightarrow> nat \<Rightarrow> wr_t \<Rightarrow> wasm_st \<Rightarrow> (wr_t \<times> wasm_st) option" where
  "load_sections w cap r st =
     (if wr_p r \<ge> length w \<or> wr_err r then Some (r, st)
      else (case one_section w cap r st of
              None \<Rightarrow> None
            | Some (r', st') \<Rightarrow> load_sections w cap r' st'))"
  by pat_completeness auto
termination
proof (relation "measure (\<lambda>(w, cap, r, st). length w - wr_p r)", goal_cases)
  case 1
  show ?case by simp
next
  case (2 w cap r st p r' st')
  then show ?case using one_section_progress[of r w cap st r' st'] by (cases p) simp
qed

declare load_sections.simps [simp del]

definition wasm_start :: wasm_st where
  "wasm_start = \<lparr>ws_n_params = 0, ws_n_locals = 0, ws_have_memory = False, ws_have_type = False,
                 ws_have_func = False, ws_have_code = False, ws_code = []\<rparr>"

definition wasm_header :: bytes where
  "wasm_header = [0x00, 0x61, 0x73, 0x6d, 0x01, 0x00, 0x00, 0x00]"

definition wasm_module :: "wasm_st \<Rightarrow> u32 \<Rightarrow> cvsasx_gate_module" where
  "wasm_module st linmem_size =
     \<lparr>gm_code = ws_code st, gm_n_params = ws_n_params st, gm_n_locals = ws_n_locals st,
      gm_mem_size = linmem_size, gm_table = None, gm_table_types = None, gm_table_len = 0\<rparr>"

text \<open>On present buffers: the status, the module when it is accepted, and, for an accepted module, the undefined-shift flag.\<close>

definition wasm_load :: "bytes \<Rightarrow> nat \<Rightarrow> u32 \<Rightarrow> cvsasx_gate_status \<times> cvsasx_gate_module option \<times> bool" where
  "wasm_load w cap linmem_size =
     (if length w < 8 then (CVSASX_GATE_REJECT_VALIDATION, None, False)
      else if take 8 w \<noteq> wasm_header then (CVSASX_GATE_REJECT_VALIDATION, None, False)
      else (case load_sections w cap \<lparr>wr_p = 8, wr_err = False, wr_ub = False\<rparr> wasm_start of
              None \<Rightarrow> (CVSASX_GATE_REJECT_VALIDATION, None, False)
            | Some (r, st) \<Rightarrow>
                (if wr_err r \<or> \<not> ws_have_type st \<or> \<not> ws_have_func st \<or> \<not> ws_have_code st
                 then (CVSASX_GATE_REJECT_VALIDATION, None, wr_ub r)
                 else (CVSASX_GATE_OK, Some (wasm_module st linmem_size), wr_ub r))))"

definition cvsasx_wasm_load ::
  "bytes option \<Rightarrow> bool \<Rightarrow> u32 \<Rightarrow> u32 \<Rightarrow> bool \<Rightarrow> cvsasx_gate_status \<times> cvsasx_gate_module option \<times> bool" where
  "cvsasx_wasm_load wasm out_code out_code_cap linmem_size out_mod =
     (case wasm of
        None \<Rightarrow> (CVSASX_GATE_NULL_ARG, None, False)
      | Some w \<Rightarrow>
          (if \<not> out_code \<or> \<not> out_mod then (CVSASX_GATE_NULL_ARG, None, False)
           else wasm_load w (unat out_code_cap) linmem_size))"

section \<open>What the front end emits\<close>

definition lowered :: "u32 \<Rightarrow> gir_inst \<Rightarrow> bool" where
  "lowered n_locals i \<longleftrightarrow>
     (case gi_op i of
        GIR_LOCAL_GET \<Rightarrow> \<exists>a < n_locals. gi_a i = ucast a
      | GIR_LOCAL_SET \<Rightarrow> \<exists>a < n_locals. gi_a i = ucast a
      | GIR_LOAD \<Rightarrow> gi_a i = GIR_CAPSLOT_LINMEM
      | GIR_STORE \<Rightarrow> gi_a i = GIR_CAPSLOT_LINMEM
      | GIR_BR \<Rightarrow> False | GIR_BR_IF \<Rightarrow> False | GIR_CALL_INDIRECT \<Rightarrow> False | GIR_CAP_FORGE \<Rightarrow> False
      | GIR_LOAD_RAW \<Rightarrow> False | GIR_STORE_RAW \<Rightarrow> False | GIR_OTHER _ \<Rightarrow> False
      | _ \<Rightarrow> True)"

lemma lower_op_lowered:
  "lower_op w n hm op r = (r', Some (i, fin)) \<Longrightarrow> lowered n i \<and> (fin \<longleftrightarrow> gi_op i = GIR_END)"
  by (auto simp: lower_op_def lowered_def mk_inst_def not_le GIR_CAPSLOT_LINMEM_def
      split: if_splits prod.splits)

lemma lower_expr_lowered:
  assumes "lower_expr w cap n hm r out = (r', Some is)" "\<forall>i \<in> set out. lowered n i"
  shows "(\<forall>i \<in> set is. lowered n i) \<and> length is \<le> cap \<and> is \<noteq> [] \<and> gi_op (last is) = GIR_END"
  using assms
proof (induction w cap n hm r out rule: lower_expr.induct)
  case (1 w cap n hm r out)
  obtain op r1 where b: "rd_byte w r = (op, r1)" by (cases "rd_byte w r")
  have e: "\<not> wr_err r" using 1(2) by (subst (asm) lower_expr.simps) (auto split: if_splits)
  obtain r2 i fin where l: "lower_op w n hm op r1 = (r2, Some (i, fin))" and c: "length out < cap"
    using 1(2) e b by (subst (asm) lower_expr.simps) (auto split: option.splits prod.splits if_splits)
  have low: "lowered n i" "fin \<longleftrightarrow> gi_op i = GIR_END" using lower_op_lowered[OF l] by auto
  show ?case
  proof (cases fin)
    case True
    then have "is = out @ [i]" using 1(2) e b l c by (subst (asm) lower_expr.simps) simp
    then show ?thesis using 1(3) low True c by auto
  next
    case False
    then have "lower_expr w cap n hm r2 (out @ [i]) = (r', Some is)"
      using 1(2) e b l c by (subst (asm) lower_expr.simps) simp
    then show ?thesis using 1(1)[OF e b[symmetric] l[symmetric] refl refl] 1(3) low c False by auto
  qed
qed

definition st_lowered :: "nat \<Rightarrow> wasm_st \<Rightarrow> bool" where
  "st_lowered cap st \<longleftrightarrow>
     (ws_have_code st \<longrightarrow>
        (\<forall>i \<in> set (ws_code st). lowered (ws_n_locals st) i) \<and> length (ws_code st) \<le> cap \<and>
        ws_code st \<noteq> [] \<and> gi_op (last (ws_code st)) = GIR_END)"

lemma code_section_lowered:
  "code_section w cap r st = Some (r', st') \<Longrightarrow> st_lowered cap st'"
  by (auto simp: code_section_def st_lowered_def dest!: lower_expr_lowered split: prod.splits if_splits option.splits)

lemma section_keeps_code:
  "type_section w r st = Some (r', st') \<Longrightarrow> st_lowered cap st' = st_lowered cap st"
  "func_section w r st = Some (r', st') \<Longrightarrow> st_lowered cap st' = st_lowered cap st"
  "memory_section w r st = Some (r', st') \<Longrightarrow> st_lowered cap st' = st_lowered cap st"
  by (auto simp: type_section_def func_section_def memory_section_def st_lowered_def
      split: prod.splits if_splits)

lemma one_section_lowered:
  assumes "one_section w cap r st = Some (r', st')" "st_lowered cap st"
  shows "st_lowered cap st'"
proof -
  obtain sid r1 where 1: "rd_byte w r = (sid, r1)" by (cases "rd_byte w r")
  obtain ssize r2 where 2: "rd_u32 w r1 = (ssize, r2)" by (cases "rd_u32 w r1")
  obtain r3 where "(if sid = 1 then type_section w r2 st else if sid = 3 then func_section w r2 st
      else if sid = 5 then memory_section w r2 st else if sid = 10 then code_section w cap r2 st
      else Some (r2, st)) = Some (r3, st')"
    using assms(1) unfolding one_section_def 1 2 prod.case Let_def
    by (auto split: if_splits option.splits)
  then show ?thesis
    using assms(2) section_keeps_code code_section_lowered by (auto split: if_splits)
qed

lemma load_sections_lowered:
  "load_sections w cap r st = Some (r', st') \<Longrightarrow> st_lowered cap st \<Longrightarrow> st_lowered cap st'"
proof (induction w cap r st rule: load_sections.induct)
  case (1 w cap r st)
  show ?case
  proof (cases "wr_p r \<ge> length w \<or> wr_err r")
    case True
    then show ?thesis using 1(2,3) by (simp add: load_sections.simps)
  next
    case False
    then obtain r1 st1 where o: "one_section w cap r st = Some (r1, st1)"
      and l: "load_sections w cap r1 st1 = Some (r', st')"
      using 1(2) by (subst (asm) load_sections.simps) (auto split: option.splits)
    show ?thesis using 1(1)[OF False o refl l] one_section_lowered[OF o 1(3)] by simp
  qed
qed

lemma wasm_load_lowered:
  assumes "cvsasx_wasm_load wasm oc cap mem om = (CVSASX_GATE_OK, mo, ub)"
  obtains m where "mo = Some m" "\<forall>i \<in> set (gm_code m). lowered (gm_n_locals m) i"
    "length (gm_code m) \<le> unat cap" "gm_code m \<noteq> []" "gi_op (last (gm_code m)) = GIR_END"
    "gm_mem_size m = mem" "gm_table m = None"
proof -
  obtain w r st where l: "load_sections w (unat cap) \<lparr>wr_p = 8, wr_err = False, wr_ub = False\<rparr> wasm_start = Some (r, st)"
    and h: "ws_have_code st" and m: "mo = Some (wasm_module st mem)"
    using assms by (auto simp: cvsasx_wasm_load_def wasm_load_def split: option.splits if_splits prod.splits)
  have "st_lowered (unat cap) wasm_start" by (simp add: st_lowered_def wasm_start_def)
  from load_sections_lowered[OF l this] h that[OF m] show ?thesis
    by (simp add: st_lowered_def wasm_module_def)
qed

section \<open>Properties\<close>


definition ex_wasm :: bytes where
  "ex_wasm = wasm_header @ [1, 5, 1, 0x60, 0, 1, 0x7f, 3, 2, 1, 0, 10, 6, 1, 4, 0, 0x41, 0x2a, 0x0b]"

lemma ex_wasm_load:
  "cvsasx_wasm_load (Some ex_wasm) True 8 16 True =
     (CVSASX_GATE_OK, Some (plain_module [gi GIR_CONST 0 42, gi GIR_END 0 0] 0 16), False)"
  by code_simp


lemma check_inst_lowered:
  assumes "lowered n i" "unat n \<le> 2 ^ 16" "gm_n_locals m = n" "check_inst m i d = Inl r"
  shows "r = CVSASX_GATE_REJECT_STACK"
proof -
  have "unat (gi_a i) < unat (gm_n_locals m)"
    if "a < n" "gi_a i = ucast a" for a
  proof -
    have "unat a < unat n" using that(1) by (simp add: word_less_nat_alt)
    then have "unat (ucast a :: u16) = unat a"
      using assms(2) by (simp add: unsigned_ucast_eq take_bit_eq_mod)
    then show ?thesis using that \<open>unat a < unat n\<close> assms(3) by simp
  qed
  then show ?thesis
    using assms(1,4)
    by (cases "gi_op i") (auto simp: lowered_def check_inst_def check_binop_def not_le split: if_splits)
qed

lemma check_code_lowered:
  "\<forall>i \<in> set is. lowered (gm_n_locals m) i \<Longrightarrow> unat (gm_n_locals m) \<le> 2 ^ 16 \<Longrightarrow>
   check_code m is d \<in> {CVSASX_GATE_OK, CVSASX_GATE_REJECT_STACK}"
  using check_inst_lowered[OF _ _ refl]
  by (induction "is" arbitrary: d) (auto split: sum.splits)

text \<open>
  the front end only leaves the checker the operand stack to judge.  Whatever module it
  accepts (with local indices that fit their field), the checker's verdict is acceptance
  or a stack violation, never a memory-slot, forge, control-flow or opcode violation.
\<close>

theorem wasm_check_only_stack:
  assumes "cvsasx_wasm_load wasm oc cap linmem_size om = (CVSASX_GATE_OK, Some m, ub)"
    and "unat (gm_n_locals m) \<le> 2 ^ 16"
  shows "cvsasx_gate_check (Some m) \<in> {CVSASX_GATE_OK, CVSASX_GATE_REJECT_STACK} \<and>
         length (gm_code m) \<le> unat cap \<and> gm_mem_size m = linmem_size"
proof -
  obtain low: "\<forall>i \<in> set (gm_code m). lowered (gm_n_locals m) i" and sz: "gm_mem_size m = linmem_size"
    and t: "gm_table m = None" and c: "length (gm_code m) \<le> unat cap"
    using wasm_load_lowered[OF assms(1)] by (metis option.inject)
  have "gm_table_len m = 0"
    using assms(1) by (auto simp: cvsasx_wasm_load_def wasm_load_def wasm_module_def
        split: option.splits if_splits prod.splits)
  then have "cvsasx_gate_check (Some m) = check_code m (gm_code m) 0"
    using t by (simp add: cvsasx_gate_check_def check_table_def)
  then show ?thesis using check_code_lowered[OF low assms(2), of 0] sz c by simp
qed

theorem wasm_check_only_stack_witness:
  "cvsasx_gate_check (Some (plain_module [gi GIR_CONST 0 42, gi GIR_END 0 0] 0 16))
     \<in> {CVSASX_GATE_OK, CVSASX_GATE_REJECT_STACK}"
proof -
  have "unat (gm_n_locals (plain_module [gi GIR_CONST 0 42, gi GIR_END 0 0] 0 16)) \<le> 2 ^ 16"
    by (simp add: plain_module_def)
  from wasm_check_only_stack[OF ex_wasm_load this] show ?thesis by blast
qed

text \<open>
  The signed decoder has no limit on the number of continuation bytes: this module is
  accepted although decoding its constant shifts by 35.
\<close>

definition ex_wasm_shift :: bytes where
  "ex_wasm_shift = wasm_header @ [1, 5, 1, 0x60, 0, 1, 0x7f, 3, 2, 1, 0,
     10, 11, 1, 9, 0, 0x41, 0x80, 0x80, 0x80, 0x80, 0x80, 0x00, 0x0b]"

theorem rd_s32_shift_unbounded:
  "case cvsasx_wasm_load (Some ex_wasm_shift) True 8 16 True of
     (r, m, ub) \<Rightarrow> r = CVSASX_GATE_OK \<and> ub"
  by code_simp

text \<open>
  Sections are accepted in any order: with the code before the type the module declares
  more parameters than locals.
\<close>

definition ex_wasm_order :: bytes where
  "ex_wasm_order = wasm_header @ [10, 6, 1, 4, 0, 0x41, 0x2a, 0x0b,
     1, 6, 1, 0x60, 1, 0x7f, 1, 0x7f, 3, 2, 1, 0]"

theorem wasm_sections_unordered:
  "case cvsasx_wasm_load (Some ex_wasm_order) True 8 16 True of
     (r, Some m, ub) \<Rightarrow> r = CVSASX_GATE_OK \<and> gm_n_params m = 1 \<and> gm_n_locals m = 0 | _ \<Rightarrow> False"
  by code_simp

section \<open>LEB128 decodes what it encodes\<close>

text \<open>The standard's unsigned encoding, as the specification of the decoder.\<close>

fun leb_u32 :: "nat \<Rightarrow> bytes" where
  "leb_u32 n = (if n < 128 then [word_of_nat n] else word_of_nat (n mod 128 + 128) # leb_u32 (n div 128))"

declare leb_u32.simps [simp del]

lemma leb_byte:
  assumes "x < 128"
  shows "(word_of_nat x :: u8) AND 0x80 = 0" "(word_of_nat x :: u8) AND 0x7f = word_of_nat x"
    "(word_of_nat (x + 128) :: u8) AND 0x80 \<noteq> 0" "(word_of_nat (x + 128) :: u8) AND 0x7f = word_of_nat x"
proof -
  have "\<forall>x \<in> {0..<128}. (word_of_nat x :: u8) AND 0x80 = 0 \<and> (word_of_nat x :: u8) AND 0x7f = word_of_nat x \<and>
     (word_of_nat (x + 128) :: u8) AND 0x80 \<noteq> 0 \<and> (word_of_nat (x + 128) :: u8) AND 0x7f = word_of_nat x"
    by code_simp
  then show "(word_of_nat x :: u8) AND 0x80 = 0" "(word_of_nat x :: u8) AND 0x7f = word_of_nat x"
    "(word_of_nat (x + 128) :: u8) AND 0x80 \<noteq> 0" "(word_of_nat (x + 128) :: u8) AND 0x7f = word_of_nat x"
    using assms by auto
qed

text \<open>Accumulating the next seven bits: below position \<open>s\<close> plus above it is addition.\<close>

lemma or_shift_add:
  assumes "unat (v :: u32) < 2 ^ s"
  shows "v OR push_bit s y = v + push_bit s y"
proof -
  have v: "take_bit s v = v"
  proof (rule word_unat_eq_iff[THEN iffD2])
    show "unat (take_bit s v) = unat v"
      using assms by (simp only: unsigned_take_bit_eq take_bit_nat_eq_self)
  qed
  have "v AND push_bit s y = 0"
  proof (rule bit_eqI)
    fix n
    have "bit v n \<Longrightarrow> n < s" using arg_cong[OF v, of "\<lambda>x. bit x n"] by (simp add: bit_simps)
    then show "bit (v AND push_bit s y) n = bit 0 n" by (auto simp: bit_simps)
  qed
  then show ?thesis by (simp add: disjunctive_add_eq_or)
qed

lemma leb_step:
  assumes "x < 128" "unat (v :: u32) < 2 ^ s" "s + 7 \<le> 32 \<or> x * 2 ^ s < 2 ^ 32" "s < 32"
  shows "v OR push_bit s (ucast (word_of_nat x :: u8)) = v + word_of_nat (x * 2 ^ s)"
proof -
  have "(ucast (word_of_nat x :: u8) :: u32) = word_of_nat x"
    using assms(1) by (intro word_unat_eq_iff[THEN iffD2]) (simp add: unsigned_ucast_eq unat_of_nat take_bit_eq_mod)
  then have "push_bit s (ucast (word_of_nat x :: u8) :: u32) = word_of_nat (x * 2 ^ s)"
    by (simp add: push_bit_eq_mult)
  then show ?thesis using or_shift_add[OF assms(2), of "ucast (word_of_nat x :: u8)"] by (simp only:)
qed

lemma leb_split: "n * 2 ^ s = n mod 128 * 2 ^ s + n div 128 * 2 ^ (s + 7)" for n :: nat
proof -
  have "n * 2 ^ s = (n mod 128 + n div 128 * 128) * 2 ^ s" by (simp only: mod_div_mult_eq)
  also have "\<dots> = n mod 128 * 2 ^ s + n div 128 * (128 * 2 ^ s)" by (simp only: distrib_right mult.assoc)
  also have "128 * 2 ^ s = (2::nat) ^ (s + 7)" by (simp add: power_add)
  finally show ?thesis .
qed

lemma rd_u32_loop_leb:
  assumes "take (length (leb_u32 n)) (drop (wr_p r) w) = leb_u32 n"
    and "unat v < 2 ^ s" and "unat v + n * 2 ^ s < 2 ^ 32" and "s < 32"
  shows "rd_u32_loop w r v s = (v + word_of_nat (n * 2 ^ s), r\<lparr>wr_p := wr_p r + length (leb_u32 n)\<rparr>)"
  using assms
proof (induction n arbitrary: r v s rule: leb_u32.induct)
  case (1 n)
  have ne: "leb_u32 n \<noteq> []" by (subst leb_u32.simps) simp
  have p: "wr_p r < length w" using 1(2) ne by (metis drop_eq_Nil linorder_not_less take_Nil)
  then have dr: "drop (wr_p r) w = w ! wr_p r # drop (Suc (wr_p r)) w" by (simp add: Cons_nth_drop_Suc)
  show ?case
  proof (cases "n < 128")
    case True
    then have l: "leb_u32 n = [word_of_nat n]" by (subst leb_u32.simps) simp
    have b: "w ! wr_p r = word_of_nat n" using 1(2) unfolding l dr by simp
    have "v OR push_bit s (ucast (word_of_nat n :: u8)) = v + word_of_nat (n * 2 ^ s)"
      using True 1(3-5) by (intro leb_step) simp_all
    then show ?thesis
      using p by (subst rd_u32_loop.simps) (simp add: b leb_byte[OF True] l)
  next
    case False
    let ?x = "n mod 128" and ?v = "v + word_of_nat ((n mod 128) * 2 ^ s)"
    have x: "?x < 128" by simp
    have l: "leb_u32 n = word_of_nat (?x + 128) # leb_u32 (n div 128)"
      using False by (subst leb_u32.simps) simp
    have b: "w ! wr_p r = word_of_nat (?x + 128)"
      and rest: "take (length (leb_u32 (n div 128))) (drop (Suc (wr_p r)) w) = leb_u32 (n div 128)"
      using 1(2) unfolding l dr by simp_all
    have b3: "w ! wr_p r AND 0x80 \<noteq> 0" "w ! wr_p r AND 0x7f = word_of_nat ?x"
      unfolding b by (rule leb_byte[OF x])+
    have n: "n * 2 ^ s = ?x * 2 ^ s + n div 128 * 2 ^ (s + 7)" by (rule leb_split)
    have "(2::nat) ^ (s + 7) \<le> n * 2 ^ s" using False by (simp add: power_add)
    then have "(2::nat) ^ (s + 7) < 2 ^ 32" using 1(4) by linarith
    then have s: "s + 7 < 32" using power_less_imp_less_exp[of 2 "s + 7" 32] by simp
    have st: "v OR push_bit s (ucast (word_of_nat ?x :: u8)) = ?v"
      using 1(3) s by (intro leb_step) simp_all
    have "unat v + ?x * 2 ^ s < 2 ^ 32" using n 1(4) by linarith
    then have uv: "unat ?v = unat v + ?x * 2 ^ s"
      by (subst unat_add_no_wrap) (simp_all add: unat_of_nat del: of_nat_mult)
    have "(?x + 1) * 2 ^ s \<le> 128 * 2 ^ s" by (rule mult_le_mono1) simp
    also have "128 * 2 ^ s = (2::nat) ^ (s + 7)" by (simp add: power_add)
    finally have "?x * 2 ^ s + 2 ^ s \<le> 2 ^ (s + 7)" by (simp only: distrib_right mult_1)
    then have lt: "unat ?v < 2 ^ (s + 7)" using uv 1(3) by linarith
    have "unat ?v + n div 128 * 2 ^ (s + 7) < 2 ^ 32" using 1(4) unfolding uv n by (simp only: add.assoc)
    then have "rd_u32_loop w (r\<lparr>wr_p := Suc (wr_p r)\<rparr>) ?v (s + 7) =
        (?v + word_of_nat (n div 128 * 2 ^ (s + 7)),
         (r\<lparr>wr_p := Suc (wr_p r)\<rparr>)\<lparr>wr_p := wr_p (r\<lparr>wr_p := Suc (wr_p r)\<rparr>) + length (leb_u32 (n div 128))\<rparr>)"
      using rest lt s by (intro 1(1)[OF False]) simp_all
    moreover have "rd_u32_loop w r v s = rd_u32_loop w (r\<lparr>wr_p := Suc (wr_p r)\<rparr>) ?v (s + 7)"
      using p s b3 st by (subst rd_u32_loop.simps) (simp add: Let_def)
    moreover have "?v + word_of_nat (n div 128 * 2 ^ (s + 7)) = v + word_of_nat (n * 2 ^ s)"
      unfolding n by (simp only: of_nat_add add.assoc)
    ultimately show ?thesis using l by simp
  qed
qed

text \<open>
  the unsigned decoder inverts the standard's encoding of every 32-bit number, wherever
  it stands in the module, and moves the reader past exactly its bytes.
\<close>

theorem rd_u32_leb:
  "rd_u32 (pre @ leb_u32 (unat n) @ rest) \<lparr>wr_p = length pre, wr_err = e, wr_ub = u\<rparr> =
     (n, \<lparr>wr_p = length pre + length (leb_u32 (unat n)), wr_err = e, wr_ub = u\<rparr>)"
  unfolding rd_u32_def
  by (subst rd_u32_loop_leb[where n = "unat n"]) (use unat_lt2p[of n] in simp_all)

end
