(* ===== verification/Migration.thy ===== *)
theory Migration
  imports SwCap "HOL-Library.List_Lexorder" "HOL-Library.Multiset"
begin

text \<open>
  The destination machine's authorization gates, \<^verbatim>\<open>kernel/nettest.c\<close> steps 10, 12, 13
  and 14: the signed authorization record and its ordered checks, the single-use
  nonce list, the key lifecycle (enroll, rotate, revoke) behind the trust store, the
  canonical authority set and its bounded re-mint, and the attestation quote gate.
  The theorems hold for any verifier, so \<^verbatim>\<open>crypto_sign_open\<close> is the parameter \<open>sign_open\<close>,
  which maps a signed message and a public key to the recovered message when the
  signature verifies; SignedMigration puts the verifier of \<^verbatim>\<open>kernel/tweetnacl.c\<close> in its place.  The address of \<^verbatim>\<open>remint_arena\<close> is the parameter \<open>arena\<close>.  The two arrays with a
  fill counter (\<^verbatim>\<open>seen_nonces\<close>/\<^verbatim>\<open>seen_n\<close> and \<^verbatim>\<open>TRUST.revoked\<close>/\<^verbatim>\<open>n_revoked\<close>) are the lists of
  their filled entries.
\<close>

section \<open>Records and constants\<close>

definition AUTHREC_LEN :: nat where "AUTHREC_LEN = 64"
definition SIGNED_LEN :: nat where "SIGNED_LEN = 64 + AUTHREC_LEN"
definition EXPECT_COMP :: u32 where "EXPECT_COMP = 0xC0FFEE01"
definition MY_DEST_ID :: u32 where "MY_DEST_ID = 0x0000000B"
definition SRC_CEILING :: u64 where "SRC_CEILING = 256"
definition SEEN_MAX :: nat where "SEEN_MAX = 64"
definition LIFEREC_LEN :: nat where "LIFEREC_LEN = 48"
definition LC_SIGNED_LEN :: nat where "LC_SIGNED_LEN = 64 + LIFEREC_LEN"
definition LC_ENROLL :: u8 where "LC_ENROLL = 0"
definition LC_ROTATE :: u8 where "LC_ROTATE = 1"
definition LC_REVOKE :: u8 where "LC_REVOKE = 2"
definition TS_REVOKED_MAX :: nat where "TS_REVOKED_MAX = 16"
definition DM_NCAP :: nat where "DM_NCAP = 3"
definition DM_CAP_BYTES :: nat where "DM_CAP_BYTES = 44"
definition DM_SET_BYTES :: nat where "DM_SET_BYTES = DM_NCAP * DM_CAP_BYTES"
definition DM_SIGNED_LEN :: nat where "DM_SIGNED_LEN = 64 + DM_SET_BYTES"
definition AM_QUOTE_BODY :: nat where "AM_QUOTE_BODY = 32 + DM_SET_BYTES + 32"
definition AM_SIGNED_LEN :: nat where "AM_SIGNED_LEN = 64 + AM_QUOTE_BODY"

lemmas mig_consts =
  AUTHREC_LEN_def SIGNED_LEN_def LIFEREC_LEN_def LC_SIGNED_LEN_def DM_NCAP_def DM_CAP_BYTES_def
  DM_SET_BYTES_def DM_SIGNED_LEN_def AM_QUOTE_BODY_def AM_SIGNED_LEN_def SEEN_MAX_def
  TS_REVOKED_MAX_def

lemmas lc_ops = LC_ENROLL_def LC_ROTATE_def LC_REVOKE_def

record authrec =
  epoch_root_hash :: bytes
  computation_id :: u32
  dest_id :: u32
  authority_ceiling :: u64
  nonce :: u64
  expiry :: u64

record liferec =
  lr_op :: u8
  subject_pk :: bytes
  lr_epoch :: u64

record trust_store =
  authority_pk :: bytes
  current_src_pk :: bytes
  has_current :: bool
  lifecycle_epoch :: u64
  revoked :: "bytes list"

record dm_cap =
  dm_hash :: bytes
  dm_rights :: u32
  dm_length :: u64

datatype verdict =
    V_ACCEPT | V_BAD_SIG | V_ROOT_MISMATCH | V_WRONG_SCOPE | V_REPLAY_OR_EXPIRED | V_ANTIAMP
  | V_UNKNOWN_KEY | V_REVOKED_KEY | V_BAD_AUTHORITY | V_STALE_EPOCH

datatype av_verdict = AV_ACCEPT | AV_FORGED | AV_UNRECOGNIZED | AV_BINDING | AV_ANTIAMP

text \<open>The destination's mutable globals: the nonces, the clock and the trust store.\<close>

record dest =
  seen_nonces :: "u64 list"
  b_now :: u64
  TRUST :: trust_store

section \<open>Serialisation\<close>

definition authrec_pack :: "authrec \<Rightarrow> bytes" where
  "authrec_pack r =
     take 32 (epoch_root_hash r) @ le_bytes 4 (computation_id r) @ le_bytes 4 (dest_id r) @
     le_bytes 8 (authority_ceiling r) @ le_bytes 8 (nonce r) @ le_bytes 8 (expiry r)"

text \<open>The loads at the head of \<^verbatim>\<open>authz_checks_2to5\<close>.\<close>

definition authrec_unpack :: "bytes \<Rightarrow> authrec" where
  "authrec_unpack b =
     \<lparr>epoch_root_hash = slice 0 32 b, computation_id = le_word (slice 32 4 b),
      dest_id = le_word (slice 36 4 b), authority_ceiling = le_word (slice 40 8 b),
      nonce = le_word (slice 48 8 b), expiry = le_word (slice 56 8 b)\<rparr>"

definition liferec_pack :: "liferec \<Rightarrow> bytes" where
  "liferec_pack r =
     lr_op r # take 32 (subject_pk r) @ le_bytes 8 (lr_epoch r) @ replicate 7 0"

text \<open>The loads at the head of \<^verbatim>\<open>lifecycle_apply\<close>.\<close>

definition liferec_unpack :: "bytes \<Rightarrow> liferec" where
  "liferec_unpack b =
     \<lparr>lr_op = b ! 0, subject_pk = slice 1 32 b, lr_epoch = le_word (slice 33 8 b)\<rparr>"

section \<open>The nonce list\<close>

definition nonce_seen :: "u64 \<Rightarrow> dest \<Rightarrow> bool" where
  "nonce_seen n d = list_ex (\<lambda>m. m = n) (seen_nonces d)"

definition nonce_mark :: "u64 \<Rightarrow> dest \<Rightarrow> dest" where
  "nonce_mark n d =
     (if length (seen_nonces d) < SEEN_MAX then d\<lparr>seen_nonces := seen_nonces d @ [n]\<rparr> else d)"

section \<open>The bounded re-mints\<close>

definition mig_root :: "u64 \<Rightarrow> cvsasx_swcap" where
  "mig_root arena =
     \<lparr>sc_base = arena, sc_length = SRC_CEILING,
      sc_perms = CVSASX_PERM_LOAD OR CVSASX_PERM_STORE OR CVSASX_PERM_GLOBAL, sc_valid = 1\<rparr>"

definition uninit_custodian :: cvsasx_sw_custodian where
  "uninit_custodian = \<lparr>cu_root = null_swcap, cu_initialized = 0\<rparr>"

text \<open>
  The common body of \<^verbatim>\<open>antiamp_remint\<close> (\<open>obj_len = want_len\<close>) and \<^verbatim>\<open>dm_remint\<close>
  (\<open>obj_len = SRC_CEILING\<close>): build the custodian, the region and the referent over the
  arena, strip the root handle, overwrite the length, re-mint.
\<close>

definition remint_over ::
  "u64 \<Rightarrow> u64 \<Rightarrow> u64 \<Rightarrow> bytes \<Rightarrow> cvsasx_status \<times> cvsasx_swcap option" where
  "remint_over arena obj_len len served_root =
     (let croot = mig_root arena;
          cust = snd (cvsasx_sw_custodian_init (Some uninit_custodian) croot);
          reg = \<lparr>object_cap = croot, object_base_addr = arena, object_length = obj_len,
                 region_hash = take 32 served_root\<rparr>;
          ref = \<lparr>ref_hash = take 32 served_root, ref_base_addr = arena, ref_length = obj_len\<rparr>;
          pir = snd (cvsasx_sw_cap_strip croot (Some ref) (Some cvsasx_pir_zero))
      in cvsasx_sw_cap_remint cust (map_option (\<lambda>p. p\<lparr>pir_length := len\<rparr>) pir) (Some reg)
           (Some null_swcap))"

definition remint_granted :: "cvsasx_status \<times> cvsasx_swcap option \<Rightarrow> bool" where
  "remint_granted res =
     (case res of (st, out) \<Rightarrow>
        st = CVSASX_OK \<and> (case out of None \<Rightarrow> False | Some c \<Rightarrow> sc_valid c \<noteq> 0))"

definition antiamp_remint :: "u64 \<Rightarrow> u64 \<Rightarrow> bytes \<Rightarrow> verdict" where
  "antiamp_remint arena want_len served_root =
     (if \<not> remint_granted (remint_over arena want_len want_len served_root) then V_ANTIAMP
      else V_ACCEPT)"

definition dm_remint :: "u64 \<Rightarrow> u64 \<Rightarrow> bytes \<Rightarrow> verdict" where
  "dm_remint arena cap_len served_root =
     (if remint_granted (remint_over arena SRC_CEILING cap_len served_root) then V_ACCEPT
      else V_ANTIAMP)"

section \<open>The authorization gate\<close>

definition authz_checks_2to5 :: "u64 \<Rightarrow> bytes \<Rightarrow> bytes \<Rightarrow> dest \<Rightarrow> verdict \<times> dest" where
  "authz_checks_2to5 arena recovered served_root d =
     (if length recovered \<noteq> AUTHREC_LEN then (V_BAD_SIG, d)
      else
        (let r = authrec_unpack recovered
         in if list_ex (\<lambda>i. epoch_root_hash r ! i \<noteq> served_root ! i) [0..<32]
              then (V_ROOT_MISMATCH, d)
            else if dest_id r \<noteq> MY_DEST_ID \<or> computation_id r \<noteq> EXPECT_COMP
              then (V_WRONG_SCOPE, d)
            else if nonce_seen (nonce r) d \<or> expiry r < b_now d then (V_REPLAY_OR_EXPIRED, d)
            else (antiamp_remint arena (authority_ceiling r) served_root, nonce_mark (nonce r) d)))"

definition authz_verify_and_remint ::
  "(bytes \<Rightarrow> bytes \<Rightarrow> bytes option) \<Rightarrow> bytes \<Rightarrow> u64 \<Rightarrow> bytes \<Rightarrow> bytes \<Rightarrow> dest \<Rightarrow> verdict \<times> dest" where
  "authz_verify_and_remint sign_open src_pk arena signed_msg served_root d =
     (case sign_open (take SIGNED_LEN signed_msg) src_pk of
        None \<Rightarrow> (V_BAD_SIG, d)
      | Some recovered \<Rightarrow> authz_checks_2to5 arena recovered served_root d)"

section \<open>The key lifecycle\<close>

definition pk_eq :: "bytes \<Rightarrow> bytes \<Rightarrow> bool" where
  "pk_eq a b = (\<not> list_ex (\<lambda>i. a ! i \<noteq> b ! i) [0..<32])"

definition ts_is_revoked :: "bytes \<Rightarrow> trust_store \<Rightarrow> bool" where
  "ts_is_revoked pk t = list_ex (\<lambda>q. pk_eq q pk) (revoked t)"

definition ts_init :: "bytes \<Rightarrow> dest \<Rightarrow> dest" where
  "ts_init auth_pk d =
     d\<lparr>TRUST := \<lparr>authority_pk = take 32 auth_pk, current_src_pk = replicate 32 0, has_current = False,
                 lifecycle_epoch = 0, revoked = []\<rparr>\<rparr>"

text \<open>The \<^verbatim>\<open>switch\<close> of \<^verbatim>\<open>lifecycle_apply\<close>; \<open>None\<close> is the default branch.\<close>

definition lc_apply_op :: "liferec \<Rightarrow> trust_store \<Rightarrow> trust_store option" where
  "lc_apply_op r t =
     (if lr_op r = LC_ENROLL \<or> lr_op r = LC_ROTATE
        then Some (t\<lparr>current_src_pk := subject_pk r, has_current := True\<rparr>)
      else if lr_op r = LC_REVOKE
        then Some (if length (revoked t) < TS_REVOKED_MAX
                   then t\<lparr>revoked := revoked t @ [subject_pk r]\<rparr> else t)
      else None)"

definition lifecycle_apply ::
  "(bytes \<Rightarrow> bytes \<Rightarrow> bytes option) \<Rightarrow> bytes \<Rightarrow> dest \<Rightarrow> verdict \<times> dest" where
  "lifecycle_apply sign_open signed_msg d =
     (case sign_open (take LC_SIGNED_LEN signed_msg) (authority_pk (TRUST d)) of
        None \<Rightarrow> (V_BAD_AUTHORITY, d)
      | Some recovered \<Rightarrow>
          (if length recovered \<noteq> LIFEREC_LEN then (V_BAD_AUTHORITY, d)
           else
             (let r = liferec_unpack recovered
              in if lr_epoch r \<le> lifecycle_epoch (TRUST d) then (V_STALE_EPOCH, d)
                 else
                   (case lc_apply_op r (TRUST d) of
                      None \<Rightarrow> (V_BAD_AUTHORITY, d)
                    | Some t \<Rightarrow> (V_ACCEPT, d\<lparr>TRUST := t\<lparr>lifecycle_epoch := lr_epoch r\<rparr>\<rparr>)))))"

definition migrate_verify_lifecycle ::
  "(bytes \<Rightarrow> bytes \<Rightarrow> bytes option) \<Rightarrow> u64 \<Rightarrow> bytes \<Rightarrow> bytes \<Rightarrow> bytes \<Rightarrow> dest \<Rightarrow> verdict \<times> dest" where
  "migrate_verify_lifecycle sign_open arena signed_msg signer_pk served_root d =
     (if \<not> has_current (TRUST d) \<or> \<not> pk_eq signer_pk (current_src_pk (TRUST d)) then (V_UNKNOWN_KEY, d)
      else if ts_is_revoked signer_pk (TRUST d) then (V_REVOKED_KEY, d)
      else
        (case sign_open (take SIGNED_LEN signed_msg) signer_pk of
           None \<Rightarrow> (V_BAD_SIG, d)
         | Some recovered \<Rightarrow> authz_checks_2to5 arena recovered served_root d))"

text \<open>
  One message on the wire of step 12 (\<^verbatim>\<open>K_LIFE\<close> or \<^verbatim>\<open>K_MIGR\<close>) and the dispatch in the loop
  of \<^verbatim>\<open>k_dest\<close>; \<open>gate_run\<close> is the loop of a suite over the messages posted to it.
\<close>

datatype k_step = K_LIFE bytes | K_MIGR bytes bytes bytes

fun k_dest_step ::
  "(bytes \<Rightarrow> bytes \<Rightarrow> bytes option) \<Rightarrow> u64 \<Rightarrow> k_step \<Rightarrow> dest \<Rightarrow> verdict \<times> dest" where
  "k_dest_step sign_open arena (K_LIFE msg) d = lifecycle_apply sign_open msg d"
| "k_dest_step sign_open arena (K_MIGR msg signer served) d =
     migrate_verify_lifecycle sign_open arena msg signer served d"

primrec gate_run :: "('m \<Rightarrow> dest \<Rightarrow> verdict \<times> dest) \<Rightarrow> 'm list \<Rightarrow> dest \<Rightarrow> verdict list \<times> dest" where
  "gate_run gate [] d = ([], d)"
| "gate_run gate (m # ms) d =
     (let (v, d') = gate m d; (vs, d'') = gate_run gate ms d' in (v # vs, d''))"

definition k_dest_start :: "bytes \<Rightarrow> dest \<Rightarrow> dest" where
  "k_dest_start auth_pk d = (ts_init auth_pk d)\<lparr>b_now := 100, seen_nonces := []\<rparr>"

definition d_dest_start :: "dest \<Rightarrow> dest" where
  "d_dest_start d = d\<lparr>b_now := 100, seen_nonces := []\<rparr>"

section \<open>The authority set\<close>

fun dm_hcmp_bytes :: "(u8 \<times> u8) list \<Rightarrow> int" where
  "dm_hcmp_bytes [] = 0"
| "dm_hcmp_bytes ((x, y) # r) = (if x < y then -1 else if x > y then 1 else dm_hcmp_bytes r)"

definition dm_hcmp :: "bytes \<Rightarrow> bytes \<Rightarrow> int" where
  "dm_hcmp a b = dm_hcmp_bytes (zip (take 32 a) (take 32 b))"

definition dm_swap_step :: "dm_cap list \<Rightarrow> nat \<Rightarrow> dm_cap list" where
  "dm_swap_step s j =
     (if dm_hcmp (dm_hash (s ! j)) (dm_hash (s ! (j + 1))) > 0
      then s[j := s ! (j + 1), j + 1 := s ! j] else s)"

definition dm_sort :: "dm_cap list \<Rightarrow> dm_cap list" where
  "dm_sort s =
     foldl (\<lambda>s i. foldl dm_swap_step s [0..<length s - i - 1]) s [0..<length s]"

definition dm_cap_bytes :: "dm_cap \<Rightarrow> bytes" where
  "dm_cap_bytes c = take 32 (dm_hash c) @ le_bytes 4 (dm_rights c) @ le_bytes 8 (dm_length c)"

definition dm_set_pack :: "dm_cap list \<Rightarrow> bytes" where
  "dm_set_pack caps =
     (let packed = concat (map dm_cap_bytes (dm_sort caps))
      in packed @ replicate (DM_SET_BYTES - length packed) 0)"

text \<open>
  The re-mint loop of \<^verbatim>\<open>dm_dest\<close> and \<^verbatim>\<open>am_dest\<close> over the set packed at offset \<open>off\<close> of the
  recovered message, from member \<open>k\<close> on: whether every member was granted, and \<^verbatim>\<open>nr\<close>.
\<close>

definition dm_member_len :: "bytes \<Rightarrow> nat \<Rightarrow> nat \<Rightarrow> u64" where
  "dm_member_len rec off k = le_word (slice (off + k * DM_CAP_BYTES + 36) 8 rec)"

fun dm_remint_all :: "u64 \<Rightarrow> bytes \<Rightarrow> u64 list \<Rightarrow> nat \<Rightarrow> bool \<times> nat" where
  "dm_remint_all arena root [] nr = (True, nr)"
| "dm_remint_all arena root (len # lens) nr =
     (if dm_remint arena len root \<noteq> V_ACCEPT then (False, nr)
      else dm_remint_all arena root lens (nr + 1))"

definition dm_dest_gate ::
  "(bytes \<Rightarrow> bytes \<Rightarrow> bytes option) \<Rightarrow> bytes \<Rightarrow> u64 \<Rightarrow> bytes \<Rightarrow> bytes \<Rightarrow> verdict \<times> nat" where
  "dm_dest_gate sign_open src_pk arena base_root signed_msg =
     (case sign_open (take DM_SIGNED_LEN signed_msg) src_pk of
        None \<Rightarrow> (V_BAD_SIG, 0)
      | Some rec \<Rightarrow>
          (if length rec \<noteq> DM_SET_BYTES then (V_BAD_SIG, 0)
           else
             (let (ok, nr) = dm_remint_all arena base_root (map (dm_member_len rec 0) [0..<DM_NCAP]) 0
              in (if ok then V_ACCEPT else V_ANTIAMP, nr))))"

definition AM_MEASURE :: bytes where
  "AM_MEASURE = map (\<lambda>c. of_nat (of_char c)) ''CARMIX-migrant-v1'' @ replicate 15 0"

definition am_accepted :: "bytes \<Rightarrow> bool" where
  "am_accepted m = (\<not> list_ex (\<lambda>i. m ! i \<noteq> AM_MEASURE ! i) [0..<32])"

definition am_dest_gate ::
  "(bytes \<Rightarrow> bytes \<Rightarrow> bytes option) \<Rightarrow> bytes \<Rightarrow> u64 \<Rightarrow> bytes \<Rightarrow> bytes \<Rightarrow> bytes \<Rightarrow> av_verdict \<times> nat" where
  "am_dest_gate sign_open auth_pk arena base_root troot signed_msg =
     (case sign_open (take AM_SIGNED_LEN signed_msg) auth_pk of
        None \<Rightarrow> (AV_FORGED, 0)
      | Some rec \<Rightarrow>
          (if length rec \<noteq> AM_QUOTE_BODY then (AV_FORGED, 0)
           else
             (let meas = slice 0 32 rec; aroot = slice (32 + DM_SET_BYTES) 32 rec
              in if \<not> am_accepted meas then (AV_UNRECOGNIZED, 0)
                 else if list_ex (\<lambda>i. aroot ! i \<noteq> troot ! i) [0..<32] then (AV_BINDING, 0)
                 else
                   (let (ok, nr) = dm_remint_all arena base_root
                                     (map (dm_member_len rec 32) [0..<DM_NCAP]) 0
                    in (if ok then AV_ACCEPT else AV_ANTIAMP, nr)))))"


section \<open>What the bounded re-mints grant\<close>

definition mig_pir :: "u64 \<Rightarrow> bytes \<Rightarrow> cvsasx_pir" where
  "mig_pir len root =
     cvsasx_pir_zero\<lparr>struct_version := CVSASX_PIR_VERSION, referent_hash := take 32 root,
       pir_offset := 0, pir_length := len,
       pir_perms := CVSASX_PERM_LOAD OR CVSASX_PERM_STORE OR CVSASX_PERM_GLOBAL,
       otype_class := CVSASX_OTYPE_CLASS_UNSEALED, pir_sealed := 0,
       pir_flags := CVSASX_PIR_FLAG_REFERENT_VALID\<rparr>"

lemma mig_custodian:
  "snd (cvsasx_sw_custodian_init (Some uninit_custodian) (mig_root arena))
     = Some \<lparr>cu_root = mig_root arena, cu_initialized = 1\<rparr>"
  by (simp add: cvsasx_sw_custodian_init_def Let_def mig_root_def uninit_custodian_def)

lemma mig_hash_eq: "hash_eq (take 32 h) (take 32 h)"
  by (simp add: hash_eq_def byte_diff_eq_0_iff)

lemma remint_over_ceiling:
  "remint_over arena SRC_CEILING len root =
     (if len = 0 \<or> SRC_CEILING < len then (CVSASX_ERR_BAD_BOUNDS, Some null_swcap)
      else (CVSASX_OK, Some ((mig_root arena)\<lparr>sc_length := len\<rparr>)))"
proof -
  have strip: "map_option (\<lambda>p. p\<lparr>pir_length := len\<rparr>)
      (snd (cvsasx_sw_cap_strip (mig_root arena)
         (Some \<lparr>ref_hash = take 32 root, ref_base_addr = arena, ref_length = SRC_CEILING\<rparr>)
         (Some cvsasx_pir_zero))) = Some (mig_pir len root)"
    by (simp add: cvsasx_sw_cap_strip_def mig_root_def mig_pir_def Let_def cvsasx_pir_zero_def min_def)
  show ?thesis
    unfolding remint_over_def Let_def mig_custodian strip remint_some_eq
    using mig_hash_eq[of root]
    by (simp add: sw_remint_body_def sw_check_region_def mig_root_def mig_pir_def cvsasx_pir_zero_def
          pir_const_defs perm_simps SRC_CEILING_def)
qed

lemma remint_over_other:
  assumes "obj \<noteq> SRC_CEILING"
  shows "remint_over arena obj len root =
     (if obj < SRC_CEILING then CVSASX_ERR_SEALED_UNSUPPORTED else CVSASX_ERR_BAD_REGION,
      Some null_swcap)"
proof (cases "obj < SRC_CEILING")
  case True
  then show ?thesis
    unfolding remint_over_def Let_def mig_custodian
    by (simp add: cvsasx_sw_cap_strip_def mig_root_def Let_def remint_some_eq sw_remint_body_def
          pir_const_defs cvsasx_pir_zero_def)
next
  case False
  then have strip: "map_option (\<lambda>p. p\<lparr>pir_length := len\<rparr>)
      (snd (cvsasx_sw_cap_strip (mig_root arena)
         (Some \<lparr>ref_hash = take 32 root, ref_base_addr = arena, ref_length = obj\<rparr>)
         (Some cvsasx_pir_zero))) = Some (mig_pir len root)"
    by (simp add: cvsasx_sw_cap_strip_def mig_root_def mig_pir_def Let_def cvsasx_pir_zero_def min_def)
  show ?thesis
    unfolding remint_over_def Let_def mig_custodian strip remint_some_eq
    using mig_hash_eq[of root] assms False
    by (simp add: sw_remint_body_def sw_check_region_def mig_root_def mig_pir_def cvsasx_pir_zero_def
          pir_const_defs)
qed

lemma antiamp_remint_accepts [simp]:
  "antiamp_remint arena want root = V_ACCEPT \<longleftrightarrow> want = SRC_CEILING"
proof (cases "want = SRC_CEILING")
  case True
  have "SRC_CEILING \<noteq> 0" by (simp add: SRC_CEILING_def)
  then show ?thesis
    by (simp add: True antiamp_remint_def remint_over_ceiling remint_granted_def mig_root_def)
qed (simp add: antiamp_remint_def remint_over_other remint_granted_def)

lemma dm_remint_accepts:
  "dm_remint arena len root = V_ACCEPT \<longleftrightarrow> 0 < len \<and> len \<le> SRC_CEILING"
  by (auto simp: dm_remint_def remint_over_ceiling remint_granted_def null_swcap_def mig_root_def
        word_gt_0 not_less)

section \<open>Record codecs\<close>

lemma authrec_unpack_pack:
  assumes "length (epoch_root_hash r) = 32"
  shows "authrec_unpack (authrec_pack r) = r" and "length (authrec_pack r) = AUTHREC_LEN"
  using assms
  by (simp_all add: authrec_unpack_def authrec_pack_def slice_def le_word_le_bytes mig_consts)

lemma slices_concat: "slice o1 n b @ slice (o1 + n) m b = slice o1 (n + m) b"
  by (simp add: slice_def take_add add.commute[of o1 n])

lemma le_bytes_slice:
  assumes "o1 + n \<le> length b" and "8 * n \<le> LENGTH('a)"
  shows "le_bytes n (le_word (slice o1 n b) :: 'a::len word) = slice o1 n b"
  using le_bytes_le_word[of "slice o1 n b", where 'a = 'a] assms by simp

lemma authrec_pack_unpack:
  assumes "length b = AUTHREC_LEN"
  shows "authrec_pack (authrec_unpack b) = b"
proof -
  have l: "length b = 64" using assms by (simp add: mig_consts)
  have "authrec_pack (authrec_unpack b) =
      slice 0 32 b @ slice 32 4 b @ slice 36 4 b @ slice 40 8 b @ slice 48 8 b @ slice 56 8 b"
    using l by (simp add: authrec_pack_def authrec_unpack_def le_bytes_slice)
  also have "\<dots> = slice 0 64 b"
    using slices_concat[of 48 8 b 8] slices_concat[of 40 8 b 16] slices_concat[of 36 4 b 24]
      slices_concat[of 32 4 b 28] slices_concat[of 0 32 b 32] by simp
  finally show ?thesis using l by (simp add: slice_def)
qed

lemma liferec_unpack_pack:
  assumes "length (subject_pk r) = 32"
  shows "liferec_unpack (liferec_pack r) = r" and "length (liferec_pack r) = LIFEREC_LEN"
  using assms
  by (simp_all add: liferec_unpack_def liferec_pack_def slice_def le_word_le_bytes mig_consts)

lemma index_loop_eq:
  assumes "length a = n" and "length b = n"
  shows "\<not> list_ex (\<lambda>i. a ! i \<noteq> b ! i) [0..<n] \<longleftrightarrow> a = b"
  using assms by (auto simp: list_ex_iff intro: nth_equalityI)

lemma pk_eq_iff: "length a = 32 \<Longrightarrow> length b = 32 \<Longrightarrow> pk_eq a b \<longleftrightarrow> a = b"
  using index_loop_eq[of a 32 b] by (simp add: pk_eq_def)

section \<open>The authorization gate\<close>

text \<open>The condition checks 2 to 5 decide, on a record.\<close>

definition authz_ok :: "authrec \<Rightarrow> bytes \<Rightarrow> dest \<Rightarrow> bool" where
  "authz_ok r root d \<longleftrightarrow>
     epoch_root_hash r = root \<and> dest_id r = MY_DEST_ID \<and> computation_id r = EXPECT_COMP \<and>
     nonce r \<notin> set (seen_nonces d) \<and> b_now d \<le> expiry r \<and> authority_ceiling r = SRC_CEILING"

lemma nonce_seen_iff: "nonce_seen n d \<longleftrightarrow> n \<in> set (seen_nonces d)"
  by (auto simp: nonce_seen_def list_ex_iff)

lemma authz_checks_accept_iff:
  assumes "length root = 32"
  shows "authz_checks_2to5 arena rec root d = (V_ACCEPT, d') \<longleftrightarrow>
     length rec = AUTHREC_LEN \<and> authz_ok (authrec_unpack rec) root d \<and>
     d' = nonce_mark (nonce (authrec_unpack rec)) d"
proof (cases "length rec = AUTHREC_LEN")
  case True
  then have "length (epoch_root_hash (authrec_unpack rec)) = 32"
    by (simp add: authrec_unpack_def mig_consts)
  then show ?thesis
    using index_loop_eq[of "epoch_root_hash (authrec_unpack rec)" 32 root] assms True
    by (auto simp: authz_checks_2to5_def Let_def authz_ok_def nonce_seen_iff not_less)
qed (simp add: authz_checks_2to5_def)

lemma authz_checks_accept_record:
  assumes "length root = 32"
  shows "authz_checks_2to5 arena rec root d = (V_ACCEPT, d') \<longleftrightarrow>
     (\<exists>r. rec = authrec_pack r \<and> authz_ok r root d \<and> d' = nonce_mark (nonce r) d)"
proof -
  have "length (epoch_root_hash r) = 32" if "authz_ok r root d" for r
    using that assms by (simp add: authz_ok_def)
  then show ?thesis
    using authz_checks_accept_iff[OF assms] authrec_pack_unpack authrec_unpack_pack by metis
qed

lemma nonce_mark_frame [simp]: "TRUST (nonce_mark n d) = TRUST d" "b_now (nonce_mark n d) = b_now d"
  by (simp_all add: nonce_mark_def)

lemma authz_checks_frame:
  assumes "authz_checks_2to5 arena rec root d = (v, d')"
  shows "TRUST d' = TRUST d \<and> b_now d' = b_now d"
  using assms by (auto simp: authz_checks_2to5_def Let_def split: if_splits)

lemma authz_checks_seen:
  assumes "authz_checks_2to5 arena rec root d = (v, d')"
  shows "set (seen_nonces d) \<subseteq> set (seen_nonces d')" and
    "length (seen_nonces d') \<le> Suc (length (seen_nonces d))"
  using assms by (auto simp: authz_checks_2to5_def Let_def nonce_mark_def split: if_splits)


section \<open>Runs of a suite\<close>

lemma gate_run_length: "gate_run gate ms d = (vs, d') \<Longrightarrow> length vs = length ms"
  by (induction ms arbitrary: d vs d') (auto split: prod.splits simp: Let_def)

lemma gate_run_ConsE:
  assumes "gate_run gate (m # ms) d = (vs, d')"
  obtains v vs' d1 where "vs = v # vs'" "gate m d = (v, d1)" "gate_run gate ms d1 = (vs', d')"
  using assms by (auto split: prod.splits simp: Let_def)

text \<open>
  The contract every migration gate keeps with the nonce list: a message that carries a
  nonce is accepted only when the nonce is not yet listed, the nonce is then listed
  while there is room, and no gate forgets a nonce or lists more than one.
\<close>

locale nonce_gate =
  fixes gate :: "'m \<Rightarrow> dest \<Rightarrow> verdict \<times> dest"
    and token :: "'m \<Rightarrow> u64 option"
  assumes accept_fresh: "gate m d = (V_ACCEPT, d') \<Longrightarrow> token m = Some n \<Longrightarrow> n \<notin> set (seen_nonces d)"
    and accept_listed: "gate m d = (V_ACCEPT, d') \<Longrightarrow> token m = Some n \<Longrightarrow>
          length (seen_nonces d) < SEEN_MAX \<Longrightarrow> n \<in> set (seen_nonces d')"
    and keeps: "gate m d = (v, d') \<Longrightarrow> set (seen_nonces d) \<subseteq> set (seen_nonces d')"
    and grows: "gate m d = (v, d') \<Longrightarrow> length (seen_nonces d') \<le> Suc (length (seen_nonces d))"
begin

lemma listed_never_accepted:
  assumes "gate_run gate ms d = (vs, d')" and "n \<in> set (seen_nonces d)"
    and "j < length ms" and "token (ms ! j) = Some n"
  shows "vs ! j \<noteq> V_ACCEPT"
  using assms
proof (induction ms arbitrary: d vs j)
  case (Cons m ms)
  from Cons.prems(1) obtain v vs' d1 where vs: "vs = v # vs'" and g: "gate m d = (v, d1)"
    and run: "gate_run gate ms d1 = (vs', d')"
    by (rule gate_run_ConsE)
  show ?case
  proof (cases j)
    case 0
    then show ?thesis using accept_fresh g Cons.prems vs by auto
  next
    case (Suc i)
    then show ?thesis
      using Cons.IH[OF run, of i] keeps[OF g] Cons.prems vs by auto
  qed
qed simp

lemma single_use:
  assumes "gate_run gate ms d = (vs, d')" and "length (seen_nonces d) + length ms \<le> SEEN_MAX"
    and "i < j" and "j < length ms"
    and "token (ms ! i) = Some n" and "token (ms ! j) = Some n" and "vs ! i = V_ACCEPT"
  shows "vs ! j \<noteq> V_ACCEPT"
  using assms
proof (induction ms arbitrary: d vs i j)
  case (Cons m ms)
  from Cons.prems(1) obtain v vs' d1 where vs: "vs = v # vs'" and g: "gate m d = (v, d1)"
    and run: "gate_run gate ms d1 = (vs', d')"
    by (rule gate_run_ConsE)
  from Cons.prems(3) obtain j' where j: "j = Suc j'" by (cases j) auto
  show ?case
  proof (cases i)
    case 0
    then have "n \<in> set (seen_nonces d1)"
      using accept_listed g Cons.prems vs by auto
    then show ?thesis
      using listed_never_accepted[OF run, of n j'] Cons.prems j vs by simp
  next
    case (Suc i')
    then show ?thesis
      using Cons.IH[OF run, of i' j'] Cons.prems grows[OF g] j vs by simp
  qed
qed simp

end

lemma authz_checks_fresh:
  assumes "authz_checks_2to5 arena rec root d = (V_ACCEPT, d')"
  shows "nonce (authrec_unpack rec) \<notin> set (seen_nonces d)"
    and "length (seen_nonces d) < SEEN_MAX \<Longrightarrow> nonce (authrec_unpack rec) \<in> set (seen_nonces d')"
  using assms
  by (auto simp: authz_checks_2to5_def Let_def nonce_mark_def nonce_seen_iff split: if_splits)

lemma lifecycle_apply_frame:
  assumes "lifecycle_apply so msg d = (v, d')"
  shows "seen_nonces d' = seen_nonces d \<and> b_now d' = b_now d"
  using assms by (auto simp: lifecycle_apply_def Let_def split: option.splits if_splits)

definition authz_token ::
  "(bytes \<Rightarrow> bytes \<Rightarrow> bytes option) \<Rightarrow> bytes \<Rightarrow> bytes \<times> bytes \<Rightarrow> u64 option" where
  "authz_token so src_pk m =
     map_option (\<lambda>rec. nonce (authrec_unpack rec)) (so (take SIGNED_LEN (fst m)) src_pk)"

fun k_token :: "(bytes \<Rightarrow> bytes \<Rightarrow> bytes option) \<Rightarrow> k_step \<Rightarrow> u64 option" where
  "k_token so (K_LIFE msg) = None"
| "k_token so (K_MIGR msg signer served) =
     map_option (\<lambda>rec. nonce (authrec_unpack rec)) (so (take SIGNED_LEN msg) signer)"

lemma authz_gate_checks:
  assumes "authz_verify_and_remint so src_pk arena msg root d = (v, d')"
  shows "d' = d \<and> v \<noteq> V_ACCEPT \<or>
    (\<exists>rec. so (take SIGNED_LEN msg) src_pk = Some rec \<and> authz_checks_2to5 arena rec root d = (v, d'))"
  using assms by (auto simp: authz_verify_and_remint_def split: option.splits)

interpretation authz_once: nonce_gate "\<lambda>m. authz_verify_and_remint so src_pk arena (fst m) (snd m)"
    "authz_token so src_pk" for so src_pk arena
proof unfold_locales
  fix m d d' n v
  let ?g = "authz_verify_and_remint so src_pk arena (fst m) (snd m) d"
  show "n \<notin> set (seen_nonces d)" if "?g = (V_ACCEPT, d')" "authz_token so src_pk m = Some n"
    using that by (auto simp: authz_token_def dest!: authz_gate_checks authz_checks_fresh(1))
  show "n \<in> set (seen_nonces d')" if "?g = (V_ACCEPT, d')" "authz_token so src_pk m = Some n"
    "length (seen_nonces d) < SEEN_MAX"
    using that by (auto simp: authz_token_def dest!: authz_gate_checks dest: authz_checks_fresh(2))
  show "set (seen_nonces d) \<subseteq> set (seen_nonces d')" if "?g = (v, d')"
    using that by (auto dest!: authz_gate_checks dest: authz_checks_seen)
  show "length (seen_nonces d') \<le> Suc (length (seen_nonces d))" if "?g = (v, d')"
    using that by (auto dest!: authz_gate_checks dest: authz_checks_seen(2))
qed

lemma migrate_checks:
  assumes "migrate_verify_lifecycle so arena msg signer root d = (v, d')"
  shows "d' = d \<and> v \<noteq> V_ACCEPT \<or>
    (\<exists>rec. so (take SIGNED_LEN msg) signer = Some rec \<and> authz_checks_2to5 arena rec root d = (v, d'))"
  using assms by (auto simp: migrate_verify_lifecycle_def split: option.splits if_splits)

interpretation k_once: nonce_gate "k_dest_step so arena" "k_token so" for so arena
proof unfold_locales
  fix m d d' n v
  show "n \<notin> set (seen_nonces d)" if "k_dest_step so arena m d = (V_ACCEPT, d')" "k_token so m = Some n"
    using that by (cases m) (auto dest!: migrate_checks authz_checks_fresh(1))
  show "n \<in> set (seen_nonces d')" if "k_dest_step so arena m d = (V_ACCEPT, d')" "k_token so m = Some n"
    "length (seen_nonces d) < SEEN_MAX"
    using that by (cases m) (auto dest!: migrate_checks dest: authz_checks_fresh(2))
  show "set (seen_nonces d) \<subseteq> set (seen_nonces d')" if "k_dest_step so arena m d = (v, d')"
    using that by (cases m) (auto dest!: migrate_checks lifecycle_apply_frame dest: authz_checks_seen)
  show "length (seen_nonces d') \<le> Suc (length (seen_nonces d))" if "k_dest_step so arena m d = (v, d')"
    using that by (cases m) (auto dest!: migrate_checks lifecycle_apply_frame dest: authz_checks_seen(2))
qed

section \<open>The trust store over a run\<close>

definition lc_effect :: "trust_store \<Rightarrow> liferec \<Rightarrow> trust_store" where
  "lc_effect t r = (case lc_apply_op r t of None \<Rightarrow> t | Some t' \<Rightarrow> t'\<lparr>lifecycle_epoch := lr_epoch r\<rparr>)"

text \<open>The lifecycle records a run accepted, as recovered under the authority key \<open>pk\<close>.\<close>

fun accepted_records ::
  "(bytes \<Rightarrow> bytes \<Rightarrow> bytes option) \<Rightarrow> bytes \<Rightarrow> k_step list \<Rightarrow> verdict list \<Rightarrow> liferec list" where
  "accepted_records so pk (K_LIFE msg # ms) (v # vs) =
     (case so (take LC_SIGNED_LEN msg) pk of
        Some rec \<Rightarrow> (if v = V_ACCEPT then [liferec_unpack rec] else [])
      | None \<Rightarrow> []) @ accepted_records so pk ms vs"
| "accepted_records so pk (K_MIGR msg signer root # ms) (v # vs) = accepted_records so pk ms vs"
| "accepted_records so pk _ _ = []"

lemma lc_apply_op_frame:
  "lc_apply_op r t = Some t' \<Longrightarrow> authority_pk t' = authority_pk t \<and> set (revoked t) \<subseteq> set (revoked t')"
  by (auto simp: lc_apply_op_def split: if_splits)

lemma lifecycle_apply_cases:
  assumes "lifecycle_apply so msg d = (v, d')"
  shows "v \<noteq> V_ACCEPT \<and> d' = d \<or>
    (\<exists>rec. v = V_ACCEPT \<and> so (take LC_SIGNED_LEN msg) (authority_pk (TRUST d)) = Some rec \<and>
       lifecycle_epoch (TRUST d) < lr_epoch (liferec_unpack rec) \<and>
       TRUST d' = lc_effect (TRUST d) (liferec_unpack rec) \<and>
       lifecycle_epoch (TRUST d') = lr_epoch (liferec_unpack rec) \<and>
       authority_pk (TRUST d') = authority_pk (TRUST d) \<and>
       set (revoked (TRUST d)) \<subseteq> set (revoked (TRUST d')))"
proof (cases "v = V_ACCEPT")
  case True
  with assms obtain rec t where rec: "so (take LC_SIGNED_LEN msg) (authority_pk (TRUST d)) = Some rec"
    and lt: "lifecycle_epoch (TRUST d) < lr_epoch (liferec_unpack rec)"
    and t: "lc_apply_op (liferec_unpack rec) (TRUST d) = Some t"
    and d': "d' = d\<lparr>TRUST := t\<lparr>lifecycle_epoch := lr_epoch (liferec_unpack rec)\<rparr>\<rparr>"
    by (auto simp: lifecycle_apply_def Let_def not_le split: option.splits if_splits)
  show ?thesis
    using True rec lt d' t lc_apply_op_frame[OF t] by (simp add: lc_effect_def)
next
  case False
  then show ?thesis
    using assms by (auto simp: lifecycle_apply_def Let_def split: option.splits if_splits)
qed

lemma migrate_trust:
  assumes "migrate_verify_lifecycle so arena msg signer root d = (v, d')"
  shows "TRUST d' = TRUST d"
  using migrate_checks[OF assms] by (auto dest: authz_checks_frame)

lemma k_step_trust_mono:
  assumes "k_dest_step so arena m d = (v, d')"
  shows "authority_pk (TRUST d') = authority_pk (TRUST d) \<and>
         set (revoked (TRUST d)) \<subseteq> set (revoked (TRUST d'))"
  using assms by (cases m) (auto dest!: migrate_trust lifecycle_apply_cases)

lemma trust_log_aux:
  assumes "gate_run (k_dest_step so arena) ms d = (vs, d')" and "authority_pk (TRUST d) = pk"
  shows "TRUST d' = foldl lc_effect (TRUST d) (accepted_records so pk ms vs) \<and>
     sorted_wrt (<) (lifecycle_epoch (TRUST d) # map lr_epoch (accepted_records so pk ms vs))"
  using assms
proof (induction ms arbitrary: d vs)
  case (Cons m ms)
  from Cons.prems(1) obtain v vs' d1 where vs: "vs = v # vs'" and g: "k_dest_step so arena m d = (v, d1)"
    and run: "gate_run (k_dest_step so arena) ms d1 = (vs', d')"
    by (rule gate_run_ConsE)
  have "authority_pk (TRUST d1) = pk" using k_step_trust_mono[OF g] Cons.prems(2) by simp
  note IH = Cons.IH[OF run this]
  show ?case
  proof (cases m)
    case (K_LIFE msg)
    then have "lifecycle_apply so msg d = (v, d1)" using g by simp
    then consider "v \<noteq> V_ACCEPT" "d1 = d"
      | rec where "v = V_ACCEPT" "so (take LC_SIGNED_LEN msg) pk = Some rec"
        "lifecycle_epoch (TRUST d) < lr_epoch (liferec_unpack rec)"
        "TRUST d1 = lc_effect (TRUST d) (liferec_unpack rec)"
        "lifecycle_epoch (TRUST d1) = lr_epoch (liferec_unpack rec)"
      using lifecycle_apply_cases Cons.prems(2) by blast
    then show ?thesis
    proof cases
      case 1
      then show ?thesis using IH K_LIFE vs by (simp split: option.splits)
    next
      case 2
      then show ?thesis using IH K_LIFE vs by (auto dest: less_trans)
    qed
  next
    case (K_MIGR msg signer root)
    then have "TRUST d1 = TRUST d" using g migrate_trust by simp
    then show ?thesis using IH K_MIGR vs by simp
  qed
qed simp

lemma ts_is_revoked_mono:
  "set (revoked t) \<subseteq> set (revoked t') \<Longrightarrow> ts_is_revoked pk t \<Longrightarrow> ts_is_revoked pk t'"
  by (auto simp: ts_is_revoked_def list_ex_iff)


section \<open>The canonical set\<close>

lemma dm_hcmp_bytes_pos:
  "length a = length b \<Longrightarrow> dm_hcmp_bytes (zip a b) > 0 \<longleftrightarrow> b < (a :: bytes)"
proof (induction a b rule: list_induct2)
  case (Cons x xs y ys)
  then show ?case by (cases x y rule: linorder_cases) auto
qed simp

lemma dm_hcmp_pos: "length a = 32 \<Longrightarrow> length b = 32 \<Longrightarrow> dm_hcmp a b > 0 \<longleftrightarrow> b < a"
  by (simp add: dm_hcmp_def dm_hcmp_bytes_pos)

lemma short_list_cases:
  assumes "length xs \<le> 3"
  obtains "xs = []" | a where "xs = [a]" | a b where "xs = [a, b]" | a b c where "xs = [a, b, c]"
proof -
  have "length xs = 0 \<or> length xs = 1 \<or> length xs = 2 \<or> length xs = 3" using assms by linarith
  then show ?thesis
    using that by (auto simp: length_Suc_conv numeral_eq_Suc)
qed

lemma dm_sort_sorts:
  assumes "length s \<le> DM_NCAP" and "\<forall>c\<in>set s. length (dm_hash c) = 32"
  shows "sorted (map dm_hash (dm_sort s))" and "mset (dm_sort s) = mset s"
proof -
  have "sorted (map dm_hash (dm_sort s)) \<and> mset (dm_sort s) = mset s"
    using assms(1)[unfolded DM_NCAP_def]
  proof (cases rule: short_list_cases)
    case (4 a b c)
    then have "length (dm_hash a) = 32" "length (dm_hash b) = 32" "length (dm_hash c) = 32"
      using assms(2) by simp_all
    then show ?thesis
      using 4 by (auto simp: dm_sort_def dm_swap_step_def dm_hcmp_pos upt_rec not_less)
  qed (use assms(2) in \<open>auto simp: dm_sort_def dm_swap_step_def dm_hcmp_pos upt_rec not_less\<close>)
  then show "sorted (map dm_hash (dm_sort s))" and "mset (dm_sort s) = mset s" by simp_all
qed

lemma dm_sort_unique:
  assumes "mset s = mset s'" and "length s \<le> DM_NCAP" and "\<forall>c\<in>set s. length (dm_hash c) = 32"
    and "distinct (map dm_hash s)"
  shows "dm_sort s = dm_sort s'"
proof -
  have eqs: "set s' = set s" "length s' = length s"
    using assms(1) by (metis set_mset_mset, metis size_mset)
  have ms: "mset (dm_sort s) = mset (dm_sort s')"
    using assms dm_sort_sorts(2)[of s] dm_sort_sorts(2)[of s'] eqs by simp
  then have "mset (map dm_hash (dm_sort s)) = mset (map dm_hash (dm_sort s'))"
    by (simp add: mset_map)
  moreover have "sorted (map dm_hash (dm_sort s))" "sorted (map dm_hash (dm_sort s'))"
    using assms(2,3) dm_sort_sorts(1)[of s] dm_sort_sorts(1)[of s'] eqs by simp_all
  ultimately have keys: "map dm_hash (dm_sort s) = map dm_hash (dm_sort s')"
    by (metis properties_for_sort)
  have "set (dm_sort s) = set s" using dm_sort_sorts(2)[of s] assms(2,3) by (metis set_mset_mset)
  moreover have "inj_on dm_hash (set s)" using assms(4) by (simp add: distinct_map)
  moreover have "set (dm_sort s') = set (dm_sort s)" using ms by (metis set_mset_mset)
  ultimately show ?thesis
    using keys by (metis inj_on_map_eq_map sup.idem)
qed

lemma dm_remint_all_result:
  "dm_remint_all arena root lens nr =
     (\<forall>l\<in>set lens. 0 < l \<and> l \<le> SRC_CEILING,
      nr + length (takeWhile (\<lambda>l. 0 < l \<and> l \<le> SRC_CEILING) lens))"
  by (induction lens arbitrary: nr) (auto simp: dm_remint_accepts)

lemma takeWhile_length_less: "\<not> (\<forall>x\<in>set xs. P x) \<Longrightarrow> length (takeWhile P xs) < length xs"
  by (induction xs) auto

lemma length_dm_cap_bytes: "length (dm_hash c) = 32 \<Longrightarrow> length (dm_cap_bytes c) = DM_CAP_BYTES"
  by (simp add: dm_cap_bytes_def mig_consts)

lemma member_len_at:
  assumes "rec = pre @ dm_cap_bytes c @ post" and "length pre = off + k * DM_CAP_BYTES"
    and "length (dm_hash c) = 32"
  shows "dm_member_len rec off k = dm_length c"
  using assms
  by (simp add: dm_member_len_def slice_def dm_cap_bytes_def DM_CAP_BYTES_def le_word_le_bytes)

lemma set_pack_members:
  assumes "length caps = DM_NCAP" and "\<forall>c\<in>set caps. length (dm_hash c) = 32"
    and "length pre = off"
  shows "length (dm_set_pack caps) = DM_SET_BYTES" and
    "map (dm_member_len (pre @ dm_set_pack caps @ post) off) [0..<DM_NCAP] = map dm_length (dm_sort caps)"
proof -
  have ms: "mset (dm_sort caps) = mset caps" using dm_sort_sorts(2) assms by simp
  then have "length (dm_sort caps) = 3" using assms(1) by (metis DM_NCAP_def size_mset)
  then obtain a b c where abc: "dm_sort caps = [a, b, c]"
    by (auto simp: length_Suc_conv numeral_eq_Suc)
  have "set (dm_sort caps) = set caps" using ms by (metis set_mset_mset)
  then have h: "length (dm_hash a) = 32" "length (dm_hash b) = 32" "length (dm_hash c) = 32"
    using assms(2) abc by auto
  have l: "length (dm_cap_bytes a) = 44" "length (dm_cap_bytes b) = 44" "length (dm_cap_bytes c) = 44"
    using h by (simp_all add: length_dm_cap_bytes DM_CAP_BYTES_def)
  show "length (dm_set_pack caps) = DM_SET_BYTES"
    using l by (simp add: dm_set_pack_def abc mig_consts)
  have p: "dm_set_pack caps = dm_cap_bytes a @ dm_cap_bytes b @ dm_cap_bytes c"
    using l by (simp add: dm_set_pack_def abc mig_consts)
  let ?r = "pre @ dm_set_pack caps @ post"
  have "dm_member_len ?r off 0 = dm_length a"
    by (rule member_len_at[where pre = pre]) (use assms(3) h p in simp_all)
  moreover have "dm_member_len ?r off 1 = dm_length b"
    by (rule member_len_at[where pre = "pre @ dm_cap_bytes a"])
       (use assms(3) h p l in \<open>simp_all add: DM_CAP_BYTES_def\<close>)
  moreover have "dm_member_len ?r off 2 = dm_length c"
    by (rule member_len_at[where pre = "pre @ dm_cap_bytes a @ dm_cap_bytes b"])
       (use assms(3) h p l in \<open>simp_all add: DM_CAP_BYTES_def\<close>)
  ultimately show "map (dm_member_len ?r off) [0..<DM_NCAP] = map dm_length (dm_sort caps)"
    by (simp add: abc DM_NCAP_def upt_rec numeral_2_eq_2)
qed


section \<open>A concrete verifier\<close>

text \<open>
  A verifier for the witnesses: it accepts a message whose first 32 bytes are the key
  and recovers the bytes after the 64-byte signature field.
\<close>

definition ex_open :: "bytes \<Rightarrow> bytes \<Rightarrow> bytes option" where
  "ex_open msg pk = (if take 32 msg = pk then Some (drop 64 msg) else None)"

definition ex_sign :: "bytes \<Rightarrow> bytes \<Rightarrow> bytes" where
  "ex_sign m pk = pk @ replicate 32 0 @ m"

definition ex_pk :: bytes where "ex_pk = replicate 32 5"
definition ex_auth :: bytes where "ex_auth = replicate 32 9"
definition ex_served :: bytes where "ex_served = replicate 32 1"

lemma ex_lengths [simp]: "length ex_pk = 32" "length ex_auth = 32" "length ex_served = 32"
  by (simp_all add: ex_pk_def ex_auth_def ex_served_def)

lemma ex_open_sign:
  "length pk = 32 \<Longrightarrow> length m + 64 = n \<Longrightarrow> ex_open (take n (ex_sign m pk)) pk = Some m"
  by (auto simp: ex_open_def ex_sign_def)

definition ex_rec :: authrec where
  "ex_rec = \<lparr>epoch_root_hash = ex_served, computation_id = EXPECT_COMP, dest_id = MY_DEST_ID,
             authority_ceiling = SRC_CEILING, nonce = 0x1000, expiry = 0xFFFFFFFF\<rparr>"

definition ex_life :: "u8 \<Rightarrow> u64 \<Rightarrow> liferec" where
  "ex_life op e = \<lparr>lr_op = op, subject_pk = ex_pk, lr_epoch = e\<rparr>"

definition ex_dest :: dest where
  "ex_dest = \<lparr>seen_nonces = [], b_now = 100,
     TRUST = \<lparr>authority_pk = ex_auth, current_src_pk = ex_pk, has_current = True,
              lifecycle_epoch = 1, revoked = []\<rparr>\<rparr>"

definition ex_migr :: k_step where
  "ex_migr = K_MIGR (ex_sign (authrec_pack ex_rec) ex_pk) ex_pk ex_served"

definition ex_revoke :: k_step where
  "ex_revoke = K_LIFE (ex_sign (liferec_pack (ex_life LC_REVOKE 3)) ex_auth)"

lemmas ex_mig_defs = ex_rec_def ex_life_def ex_dest_def ex_migr_def ex_revoke_def

lemma ex_rec_open:
  "ex_open (take SIGNED_LEN (ex_sign (authrec_pack ex_rec) ex_pk)) ex_pk = Some (authrec_pack ex_rec)"
  using authrec_unpack_pack(2)[of ex_rec]
  by (intro ex_open_sign) (simp_all add: ex_rec_def SIGNED_LEN_def)

lemma ex_life_open:
  "ex_open (take LC_SIGNED_LEN (ex_sign (liferec_pack (ex_life op e)) ex_auth)) ex_auth
     = Some (liferec_pack (ex_life op e))"
  using liferec_unpack_pack(2)[of "ex_life op e"]
  by (intro ex_open_sign) (simp_all add: ex_life_def LC_SIGNED_LEN_def)

lemma ex_life_codec:
  "liferec_unpack (liferec_pack (ex_life op e)) = ex_life op e"
  "length (liferec_pack (ex_life op e)) = LIFEREC_LEN"
  by (rule liferec_unpack_pack; simp add: ex_life_def)+

lemma ex_rec_codec:
  "authrec_unpack (authrec_pack ex_rec) = ex_rec" "length (authrec_pack ex_rec) = AUTHREC_LEN"
  by (rule authrec_unpack_pack; simp add: ex_rec_def)+

section \<open>Properties\<close>

text \<open>
  the lifecycle-aware migration gate accepts exactly the messages that the current
  and non-revoked source key signed over a record which binds the served root, this
  destination and the expected computation, carries a nonce not seen before, has not
  expired and asks for exactly the source's authority; acceptance then records the
  nonce and changes nothing else.
\<close>

theorem migrate_accepts_iff:
  assumes "length signer = 32" and "length root = 32"
    and "length (current_src_pk (TRUST d)) = 32" and "\<forall>q\<in>set (revoked (TRUST d)). length q = 32"
  shows "migrate_verify_lifecycle so arena msg signer root d = (V_ACCEPT, d') \<longleftrightarrow>
     has_current (TRUST d) \<and> signer = current_src_pk (TRUST d) \<and> signer \<notin> set (revoked (TRUST d)) \<and>
     (\<exists>r. so (take SIGNED_LEN msg) signer = Some (authrec_pack r) \<and>
          epoch_root_hash r = root \<and> dest_id r = MY_DEST_ID \<and> computation_id r = EXPECT_COMP \<and>
          nonce r \<notin> set (seen_nonces d) \<and> b_now d \<le> expiry r \<and> authority_ceiling r = SRC_CEILING \<and>
          d' = nonce_mark (nonce r) d)"
proof -
  have cur: "pk_eq signer (current_src_pk (TRUST d)) \<longleftrightarrow> signer = current_src_pk (TRUST d)"
    using assms by (simp add: pk_eq_iff)
  have rev: "ts_is_revoked signer (TRUST d) \<longleftrightarrow> signer \<in> set (revoked (TRUST d))"
    using assms by (auto simp: ts_is_revoked_def list_ex_iff pk_eq_iff)
  show ?thesis
    unfolding migrate_verify_lifecycle_def cur rev
    using authz_checks_accept_record[OF assms(2), of arena _ d d']
    by (auto simp: authz_ok_def split: option.splits)
qed

theorem migrate_accepts_iff_witness:
  "migrate_verify_lifecycle ex_open 0x8000 (ex_sign (authrec_pack ex_rec) ex_pk) ex_pk ex_served ex_dest
     = (V_ACCEPT, ex_dest\<lparr>seen_nonces := [0x1000]\<rparr>)"
proof -
  have "has_current (TRUST ex_dest) \<and> ex_pk = current_src_pk (TRUST ex_dest) \<and>
      ex_pk \<notin> set (revoked (TRUST ex_dest)) \<and>
     (\<exists>r. ex_open (take SIGNED_LEN (ex_sign (authrec_pack ex_rec) ex_pk)) ex_pk = Some (authrec_pack r) \<and>
          epoch_root_hash r = ex_served \<and> dest_id r = MY_DEST_ID \<and> computation_id r = EXPECT_COMP \<and>
          nonce r \<notin> set (seen_nonces ex_dest) \<and> b_now ex_dest \<le> expiry r \<and>
          authority_ceiling r = SRC_CEILING \<and>
          ex_dest\<lparr>seen_nonces := [0x1000]\<rparr> = nonce_mark (nonce r) ex_dest)"
    unfolding ex_rec_open
    by (intro conjI exI[of _ ex_rec])
       (simp_all add: ex_rec_def ex_dest_def nonce_mark_def SEEN_MAX_def)
  then show ?thesis
    by (intro iffD2[OF migrate_accepts_iff]) (simp_all add: ex_dest_def)
qed

text \<open>
  replay protection.  In every run of the step-12 suite that fits the nonce list
  (64 entries), a migration whose nonce was already accepted is never accepted again.
\<close>

theorem migrate_nonce_single_use:
  assumes "gate_run (k_dest_step so arena) ms d = (vs, d')"
    and "length (seen_nonces d) + length ms \<le> SEEN_MAX"
    and "i < j" and "j < length ms" and "vs ! i = V_ACCEPT"
    and "k_token so (ms ! i) = Some n" and "k_token so (ms ! j) = Some n"
  shows "vs ! j \<noteq> V_ACCEPT"
  using k_once.single_use[OF assms(1-4,6,7,5)] .

lemma ex_migr_step:
  "k_dest_step ex_open 0x8000 ex_migr ex_dest = (V_ACCEPT, ex_dest\<lparr>seen_nonces := [0x1000]\<rparr>)"
  by (simp add: ex_migr_def migrate_verify_lifecycle_def ex_rec_open authz_checks_accept_iff
        ex_rec_codec ts_is_revoked_def pk_eq_def list_ex_iff)
     (simp add: ex_mig_defs authz_ok_def nonce_mark_def SEEN_MAX_def)

lemma ex_migr_run:
  "\<exists>v d'. gate_run (k_dest_step ex_open 0x8000) [ex_migr, ex_migr] ex_dest = ([V_ACCEPT, v], d')"
  by (simp add: ex_migr_step del: k_dest_step.simps split: prod.splits)

theorem migrate_nonce_single_use_witness:
  "\<exists>v d'. gate_run (k_dest_step ex_open 0x8000) [ex_migr, ex_migr] ex_dest = ([V_ACCEPT, v], d') \<and>
     v \<noteq> V_ACCEPT"
proof -
  obtain v d' where run: "gate_run (k_dest_step ex_open 0x8000) [ex_migr, ex_migr] ex_dest = ([V_ACCEPT, v], d')"
    using ex_migr_run by blast
  have tok: "k_token ex_open ex_migr = Some 0x1000"
    by (simp add: ex_migr_def ex_rec_open ex_rec_codec) (simp add: ex_rec_def)
  have "[V_ACCEPT, v] ! 1 \<noteq> V_ACCEPT"
    by (rule migrate_nonce_single_use[OF run, of 0 1 "0x1000"])
       (simp_all add: tok ex_dest_def SEEN_MAX_def)
  then show ?thesis using run by auto
qed

text \<open>
  The bound is needed: with a full list the mark is dropped, so a record that is not
  listed is accepted every time it is presented.
\<close>

lemma full_nonce_list_replays:
  assumes "length root = 32" and "length (seen_nonces d) = SEEN_MAX"
    and "authz_checks_2to5 arena rec root d = (V_ACCEPT, d')"
  shows "d' = d"
  using assms by (auto simp: authz_checks_accept_iff nonce_mark_def)

text \<open>
  C30: the trust store is a log of authority-signed records.  After any sequence of
  lifecycle and migration messages the trust store is the initial one with exactly the
  accepted lifecycle records applied in order, and their epochs strictly increase from
  the initial epoch: nothing rejected and no migration changes it, and no lifecycle
  record is accepted twice.
\<close>

theorem trust_store_log:
  assumes "gate_run (k_dest_step so arena) ms d = (vs, d')"
  shows "TRUST d' = foldl lc_effect (TRUST d) (accepted_records so (authority_pk (TRUST d)) ms vs) \<and>
     sorted_wrt (<) (lifecycle_epoch (TRUST d) #
                     map lr_epoch (accepted_records so (authority_pk (TRUST d)) ms vs))"
  using trust_log_aux[OF assms refl] .

lemma ex_revoke_step:
  "k_dest_step ex_open 0x8000 ex_revoke ex_dest =
     (V_ACCEPT, ex_dest\<lparr>TRUST := (TRUST ex_dest)\<lparr>revoked := [ex_pk], lifecycle_epoch := 3\<rparr>\<rparr>)"
proof -
  have pk: "authority_pk (TRUST ex_dest) = ex_auth" by (simp add: ex_dest_def)
  have "lc_apply_op (ex_life LC_REVOKE 3) (TRUST ex_dest) = Some ((TRUST ex_dest)\<lparr>revoked := [ex_pk]\<rparr>)"
    by (simp add: lc_apply_op_def ex_life_def ex_dest_def lc_ops TS_REVOKED_MAX_def)
  moreover have "\<not> lr_epoch (ex_life LC_REVOKE 3) \<le> lifecycle_epoch (TRUST ex_dest)"
    by (simp add: ex_life_def ex_dest_def word_le_nat_alt)
  moreover have "lr_epoch (ex_life LC_REVOKE 3) = 3" by (simp add: ex_life_def)
  ultimately show ?thesis
    by (simp add: ex_revoke_def lifecycle_apply_def pk ex_life_open ex_life_codec)
qed

theorem trust_store_log_witness:
  "\<exists>d'. gate_run (k_dest_step ex_open 0x8000) [ex_revoke] ex_dest = ([V_ACCEPT], d') \<and>
     TRUST d' = lc_effect (TRUST ex_dest) (ex_life LC_REVOKE 3) \<and> lifecycle_epoch (TRUST d') = 3"
proof -
  let ?d = "ex_dest\<lparr>TRUST := (TRUST ex_dest)\<lparr>revoked := [ex_pk], lifecycle_epoch := 3\<rparr>\<rparr>"
  have run: "gate_run (k_dest_step ex_open 0x8000) [ex_revoke] ex_dest = ([V_ACCEPT], ?d)"
    by (simp add: ex_revoke_step del: k_dest_step.simps)
  have "accepted_records ex_open (authority_pk (TRUST ex_dest)) [ex_revoke] [V_ACCEPT] = [ex_life LC_REVOKE 3]"
    by (simp add: ex_revoke_def ex_dest_def ex_life_open ex_life_codec)
  then have "TRUST ?d = lc_effect (TRUST ex_dest) (ex_life LC_REVOKE 3)"
    using trust_store_log[OF run] by simp
  moreover have "lifecycle_epoch (TRUST ?d) = 3" by simp
  ultimately show ?thesis using run by blast
qed

text \<open>
  C24: revocation is permanent.  From a state in which a key is revoked, no later message
  sequence un-revokes it (not even a later enroll or rotate to it), and no migration
  presented under it is accepted.
\<close>

theorem revoked_key_never_accepted:
  assumes "gate_run (k_dest_step so arena) ms d = (vs, d')" and "ts_is_revoked pk (TRUST d)"
  shows "ts_is_revoked pk (TRUST d') \<and>
     (\<forall>j<length ms. \<forall>msg root. ms ! j = K_MIGR msg pk root \<longrightarrow> vs ! j \<noteq> V_ACCEPT)"
  using assms
proof (induction ms arbitrary: d vs)
  case (Cons m ms)
  from Cons.prems(1) obtain v vs' d1 where vs: "vs = v # vs'" and g: "k_dest_step so arena m d = (v, d1)"
    and run: "gate_run (k_dest_step so arena) ms d1 = (vs', d')"
    by (rule gate_run_ConsE)
  have "ts_is_revoked pk (TRUST d1)"
    using k_step_trust_mono[OF g] ts_is_revoked_mono Cons.prems(2) by blast
  note IH = Cons.IH[OF run this]
  have "v \<noteq> V_ACCEPT" if "m = K_MIGR msg pk root" for msg root
    using g that Cons.prems(2) by (auto simp: migrate_verify_lifecycle_def split: if_splits)
  then show ?case
    using IH vs by (auto simp: nth_Cons split: nat.splits)
qed simp

theorem revoked_key_never_accepted_witness:
  "\<exists>v d d'. ts_is_revoked ex_pk (TRUST d) \<and> gate_run (k_dest_step ex_open 0x8000) [ex_migr] d = ([v], d') \<and>
     v \<noteq> V_ACCEPT"
proof -
  let ?d = "ex_dest\<lparr>TRUST := (TRUST ex_dest)\<lparr>revoked := [ex_pk], lifecycle_epoch := 3\<rparr>\<rparr>"
  obtain v d' where run: "gate_run (k_dest_step ex_open 0x8000) [ex_migr] ?d = ([v], d')"
    by (cases "k_dest_step ex_open 0x8000 ex_migr ?d") auto
  have rev: "ts_is_revoked ex_pk (TRUST ?d)" by (simp add: ts_is_revoked_def pk_eq_def list_ex_iff)
  have "v \<noteq> V_ACCEPT"
    using revoked_key_never_accepted[OF run rev] by (simp add: ex_migr_def)
  then show ?thesis using run rev by blast
qed


text \<open>
  the authority set is canonical and travels whole.  Two orderings of the same three
  capabilities with distinct hashes serialise to the same bytes; a message that opens
  to those bytes is accepted by the step-13 gate exactly when every member's length is
  between 1 and the source ceiling, and then all three members are re-minted; otherwise
  the verdict is V_ANTIAMP and fewer than three are.
\<close>

theorem authority_set_migrates:
  assumes "length caps = DM_NCAP" and "\<forall>c\<in>set caps. length (dm_hash c) = 32"
    and "distinct (map dm_hash caps)" and "mset caps = mset caps'"
    and "so (take DM_SIGNED_LEN msg) pk = Some (dm_set_pack caps')"
  shows "dm_set_pack caps' = dm_set_pack caps \<and>
    (if \<forall>c\<in>set caps. 0 < dm_length c \<and> dm_length c \<le> SRC_CEILING
     then dm_dest_gate so pk arena root msg = (V_ACCEPT, DM_NCAP)
     else fst (dm_dest_gate so pk arena root msg) = V_ANTIAMP \<and>
          snd (dm_dest_gate so pk arena root msg) < DM_NCAP)"
proof -
  let ?ok = "\<lambda>l. 0 < l \<and> l \<le> SRC_CEILING"
  have sorted: "dm_sort caps = dm_sort caps'"
    using assms(1-4) by (intro dm_sort_unique) simp_all
  then have pack: "dm_set_pack caps' = dm_set_pack caps" by (simp add: dm_set_pack_def)
  have len: "length (dm_set_pack caps) = DM_SET_BYTES"
    and mem: "map (dm_member_len (dm_set_pack caps) 0) [0..<DM_NCAP] = map dm_length (dm_sort caps)"
    using set_pack_members(1)[of caps "[]" 0] set_pack_members(2)[of caps "[]" 0 "[]"] assms(1,2)
    by simp_all
  have ms: "mset (dm_sort caps) = mset caps" using dm_sort_sorts(2) assms(1,2) by simp
  then have st: "set (dm_sort caps) = set caps" and sl: "length (dm_sort caps) = DM_NCAP"
    using assms(1) by (metis set_mset_mset, metis size_mset)
  have gate: "dm_dest_gate so pk arena root msg =
      (if \<forall>c\<in>set caps. ?ok (dm_length c) then V_ACCEPT else V_ANTIAMP,
       length (takeWhile ?ok (map dm_length (dm_sort caps))))"
    using assms(5) pack len mem st
    by (simp add: dm_dest_gate_def dm_remint_all_result)
  show ?thesis
  proof (cases "\<forall>c\<in>set caps. ?ok (dm_length c)")
    case True
    then have "takeWhile ?ok (map dm_length (dm_sort caps)) = map dm_length (dm_sort caps)"
      using st by (auto simp: takeWhile_eq_all_conv)
    then have "length (takeWhile ?ok (map dm_length (dm_sort caps))) = DM_NCAP"
      using sl by (simp only: length_map)
    then show ?thesis using True gate pack by simp
  next
    case False
    then have "length (takeWhile ?ok (map dm_length (dm_sort caps))) < length (map dm_length (dm_sort caps))"
      using st by (intro takeWhile_length_less) auto
    then have "length (takeWhile ?ok (map dm_length (dm_sort caps))) < DM_NCAP"
      using sl by (simp only: length_map)
    then show ?thesis using False gate pack by simp
  qed
qed

definition ex_caps :: "dm_cap list" where
  "ex_caps = [\<lparr>dm_hash = replicate 32 3, dm_rights = 1, dm_length = 128\<rparr>,
              \<lparr>dm_hash = replicate 32 1, dm_rights = 3, dm_length = 64\<rparr>,
              \<lparr>dm_hash = replicate 32 2, dm_rights = 1, dm_length = 256\<rparr>]"

theorem authority_set_migrates_witness:
  "dm_set_pack (rev ex_caps) = dm_set_pack ex_caps \<and>
   dm_dest_gate ex_open ex_pk 0x8000 ex_served (ex_sign (dm_set_pack (rev ex_caps)) ex_pk) = (V_ACCEPT, 3)"
proof -
  have a: "length ex_caps = DM_NCAP" "\<forall>c\<in>set ex_caps. length (dm_hash c) = 32"
    "distinct (map dm_hash ex_caps)" "mset ex_caps = mset (rev ex_caps)"
    by (simp_all add: ex_caps_def DM_NCAP_def replicate_eq_replicate)
  have "length (dm_set_pack (rev ex_caps)) = DM_SET_BYTES"
    using set_pack_members(1)[of "rev ex_caps" "[]"] a by simp
  then have o: "ex_open (take DM_SIGNED_LEN (ex_sign (dm_set_pack (rev ex_caps)) ex_pk)) ex_pk
      = Some (dm_set_pack (rev ex_caps))"
    by (intro ex_open_sign) (simp_all add: DM_SIGNED_LEN_def)
  have ok: "\<forall>c\<in>set ex_caps. 0 < dm_length c \<and> dm_length c \<le> SRC_CEILING"
    by (simp add: ex_caps_def SRC_CEILING_def)
  note t = authority_set_migrates[where so = ex_open and arena = "0x8000" and root = ex_served, OF a o]
  show ?thesis
    by (rule conjI[OF conjunct1[OF t] conjunct2[OF t, unfolded if_P[OF ok] DM_NCAP_def]])
qed

text \<open>
  Two members with the same hash are not reordered, so their order shows in the bytes.
\<close>

lemma set_pack_equal_hashes:
  "\<exists>a b c. dm_set_pack [a, b, c] \<noteq> dm_set_pack [b, a, c]"
proof -
  let ?a = "\<lparr>dm_hash = replicate 32 1, dm_rights = 1, dm_length = 1\<rparr>"
  let ?b = "\<lparr>dm_hash = replicate 32 1, dm_rights = 1, dm_length = 2\<rparr>"
  have s: "dm_sort [?a, ?b, ?b] = [?a, ?b, ?b]" "dm_sort [?b, ?a, ?b] = [?b, ?a, ?b]"
    by (simp_all add: dm_sort_def dm_swap_step_def dm_hcmp_pos upt_rec)
  have "dm_set_pack [?a, ?b, ?b] ! 36 = 1" "dm_set_pack [?b, ?a, ?b] ! 36 = 2"
    by (simp_all add: dm_set_pack_def s dm_cap_bytes_def le_bytes_def nth_append upt_rec)
  moreover have "(1 :: u8) \<noteq> 2" by simp
  ultimately have "dm_set_pack [?a, ?b, ?b] \<noteq> dm_set_pack [?b, ?a, ?b]" by metis
  then show ?thesis by blast
qed

text \<open>
  the attestation gate.  The step-14 gate accepts exactly the quotes that open, under
  the trusted quoting key, to the accepted measurement, a well-formed set whose three
  lengths are between 1 and the ceiling, and the transferred root.
\<close>

theorem attestation_accepts_iff:
  assumes "length troot = 32"
  shows "fst (am_dest_gate so pk arena root troot msg) = AV_ACCEPT \<longleftrightarrow>
    (\<exists>setb. so (take AM_SIGNED_LEN msg) pk = Some (AM_MEASURE @ setb @ troot) \<and>
       length setb = DM_SET_BYTES \<and>
       (\<forall>k<DM_NCAP. 0 < dm_member_len setb 0 k \<and> dm_member_len setb 0 k \<le> SRC_CEILING))"
proof -
  have split3: "rec = slice 0 32 rec @ slice 32 132 rec @ slice 164 32 rec" if "length rec = 196" for rec :: bytes
    using that slices_concat[of 32 132 rec 32] slices_concat[of 0 32 rec 164] by (simp add: slice_def)
  have acc: "am_accepted m \<longleftrightarrow> m = AM_MEASURE" if "length m = 32" for m
    using index_loop_eq[of m 32 AM_MEASURE] that by (simp add: am_accepted_def AM_MEASURE_def)
  have bind: "\<not> list_ex (\<lambda>i. r ! i \<noteq> troot ! i) [0..<32] \<longleftrightarrow> r = troot" if "length r = 32" for r
    using index_loop_eq[of r 32 troot] that assms by simp
  have mem: "dm_member_len rec 32 k = dm_member_len (slice 32 132 rec) 0 k"
    if "length rec = 196" "k < 3" for rec k
  proof -
    have "k * 44 + 36 + 8 \<le> 132" using that(2) by linarith
    then show ?thesis
      by (simp add: dm_member_len_def DM_CAP_BYTES_def slice_def drop_take min_def ac_simps)
  qed
  have main: "fst (am_dest_gate so pk arena root troot msg) = AV_ACCEPT \<longleftrightarrow>
      length rec = 196 \<and> slice 0 32 rec = AM_MEASURE \<and> slice 164 32 rec = troot \<and>
      (\<forall>k<3. 0 < dm_member_len rec 32 k \<and> dm_member_len rec 32 k \<le> SRC_CEILING)"
    if "so (take AM_SIGNED_LEN msg) pk = Some rec" for rec
    using that acc[of "slice 0 32 rec"] bind[of "slice 164 32 rec"]
    by (auto simp: am_dest_gate_def dm_remint_all_result mig_consts Let_def)
  have ml: "length AM_MEASURE = 32" by (simp add: AM_MEASURE_def)
  show ?thesis
  proof (cases "so (take AM_SIGNED_LEN msg) pk")
    case None
    then show ?thesis by (simp add: am_dest_gate_def)
  next
    case (Some rec)
    have "length rec = 196 \<and> slice 0 32 rec = AM_MEASURE \<and> slice 164 32 rec = troot \<and>
        (\<forall>k<3. 0 < dm_member_len rec 32 k \<and> dm_member_len rec 32 k \<le> SRC_CEILING) \<longleftrightarrow>
       (\<exists>setb. rec = AM_MEASURE @ setb @ troot \<and> length setb = 132 \<and>
          (\<forall>k<3. 0 < dm_member_len setb 0 k \<and> dm_member_len setb 0 k \<le> SRC_CEILING))" (is "?l \<longleftrightarrow> ?r")
    proof
      assume l: ?l
      then show ?r
        using split3[of rec] mem[of rec] by (intro exI[of _ "slice 32 132 rec"]) auto
    next
      assume ?r
      then obtain setb where sb: "rec = AM_MEASURE @ setb @ troot" "length setb = 132"
        "\<forall>k<3. 0 < dm_member_len setb 0 k \<and> dm_member_len setb 0 k \<le> SRC_CEILING" by blast
      have "length rec = 196" "slice 0 32 rec = AM_MEASURE" "slice 164 32 rec = troot" "slice 32 132 rec = setb"
        using sb ml assms by (simp_all add: slice_def)
      then show ?l using sb(3) mem[of rec] by simp
    qed
    then show ?thesis using main[OF Some] Some by (simp add: mig_consts)
  qed
qed

theorem attestation_accepts_iff_witness:
  "fst (am_dest_gate ex_open ex_auth 0x8000 ex_served ex_served
          (ex_sign (AM_MEASURE @ dm_set_pack ex_caps @ ex_served) ex_auth)) = AV_ACCEPT"
proof -
  have a: "length ex_caps = DM_NCAP" "\<forall>c\<in>set ex_caps. length (dm_hash c) = 32"
    by (simp_all add: ex_caps_def DM_NCAP_def)
  note pm = set_pack_members(1)[OF a, of "[]" 0, simplified]
    set_pack_members(2)[OF a, of "[]" 0 "[]", simplified]
  have o: "ex_open (take AM_SIGNED_LEN (ex_sign (AM_MEASURE @ dm_set_pack ex_caps @ ex_served) ex_auth)) ex_auth
      = Some (AM_MEASURE @ dm_set_pack ex_caps @ ex_served)"
    using pm(1) by (intro ex_open_sign) (simp_all add: AM_SIGNED_LEN_def AM_QUOTE_BODY_def AM_MEASURE_def)
  have "mset (dm_sort ex_caps) = mset ex_caps" using dm_sort_sorts(2) a by simp
  then have "set (dm_sort ex_caps) = set ex_caps" by (metis set_mset_mset)
  then have "\<forall>l\<in>set (map (dm_member_len (dm_set_pack ex_caps) 0) [0..<DM_NCAP]). 0 < l \<and> l \<le> SRC_CEILING"
    unfolding pm(2) by (auto simp: ex_caps_def SRC_CEILING_def)
  then show ?thesis
    using o pm(1) by (intro iffD2[OF attestation_accepts_iff]) auto
qed

end
