(* ===== verification/MerkleSync.thy ===== *)
theory MerkleSync
  imports Sls
begin

text \<open>
  The destination-pull Merkle synchronisation of \<^verbatim>\<open>kernel/nettest.c\<close> (B2): the source's
  answer to one request (\<^verbatim>\<open>a_serve\<close>), the destination's work-stack loop (\<^verbatim>\<open>b_sync\<close>) and
  the tree builder of the workload.  The peer is a state-passing function from the
  requested hash to what the shared region then holds (\<open>None\<close> when the wait times out),
  so the loop is stated against any peer, honest or not.  The loop carries fuel: a
  peer can keep a full store busy for ever, and for an honest peer the fuel that is
  enough is proved.
\<close>

section \<open>The wire\<close>

definition OP_ADV :: u32 where "OP_ADV = 2"
definition OP_BLOCK :: u32 where "OP_BLOCK = 4"
definition WS_MAX :: nat where "WS_MAX = 4096"

record rsp =
  rs_op :: u32
  rs_len :: u32
  rs_nchild :: u32
  rs_hash :: bytes
  rs_hint :: bytes
  rs_pay :: bytes

text \<open>
  One request served by the source (the body of the loop of \<^verbatim>\<open>a_serve\<close> without the two
  tamper demonstrations): the child hints are copied from the serialised node.
\<close>

definition a_serve_want :: "cvsasx_sls \<Rightarrow> bytes \<Rightarrow> cvsasx_sls \<times> rsp option" where
  "a_serve_want S want =
     (case sls_get S want of (r, S', b) \<Rightarrow>
        (if r \<noteq> CVSASX_SLS_OK
         then (S', Some \<lparr>rs_op = OP_BLOCK, rs_len = 0, rs_nchild = 0, rs_hash = [], rs_hint = [], rs_pay = []\<rparr>)
         else
           (let p = the b;
                is_node = (5 \<le> length p \<and> p ! 0 = CVSASX_SLS_NODE);
                n0 = (if is_node then node_count p else 0);
                n = (if unat n0 > CVSASX_SLS_MAX_CHILDREN then word_of_nat CVSASX_SLS_MAX_CHILDREN else n0)
            in (S', Some \<lparr>rs_op = OP_BLOCK, rs_len = word_of_nat (length p), rs_nchild = n, rs_hash = [],
                          rs_hint = concat (map (node_child p) [0..<unat n]), rs_pay = p\<rparr>))))"

section \<open>The destination\<close>

record sync =
  sy_store :: cvsasx_store
  sy_ws :: "bytes list"
  sy_received :: u64
  sy_blocks :: u32
  sy_rejected :: u32
  sy_pruned :: u32

definition sync_kids :: "rsp \<Rightarrow> bytes list" where
  "sync_kids r =
     (let nk = min (unat (rs_nchild r)) CVSASX_SLS_MAX_CHILDREN
      in map (\<lambda>c. slice (c * 32) 32 (rs_hint r)) [0..<nk])"

definition sync_push :: "cvsasx_store \<Rightarrow> bytes list \<Rightarrow> bytes list \<Rightarrow> bytes list" where
  "sync_push st kids ws =
     foldl (\<lambda>ws k. if \<not> cvsasx_store_exists (Some st) (Some k) \<and> length ws < WS_MAX then k # ws else ws)
       ws kids"

text \<open>The part of the loop after the block has arrived; the verdict is false on the early returns.\<close>

definition sync_block ::
  "(bytes \<Rightarrow> bytes) \<Rightarrow> bytes \<Rightarrow> rsp \<Rightarrow> sync \<Rightarrow> bool \<times> sync" where
  "sync_block H want r s =
     (if rs_op r \<noteq> OP_BLOCK then (False, s)
      else if rs_len r = 0 \<or> unat (rs_len r) > CVSASX_SLS_MAX_LEAF + 16 then (False, s)
      else
        (let buf = take (unat (rs_len r)) (rs_pay r)
         in if byte_diff 32 want (H buf) \<noteq> 0 then (True, s\<lparr>sy_rejected := sy_rejected s + 1\<rparr>)
            else
              (let st' = fst (snd (store_put H (sy_store s) buf))
               in (True, s\<lparr>sy_store := st', sy_received := sy_received s + ucast (rs_len r),
                           sy_blocks := sy_blocks s + 1,
                           sy_ws := sync_push st' (sync_kids r) (sy_ws s)\<rparr>))))"

definition sync_want ::
  "(bytes \<Rightarrow> bytes) \<Rightarrow> ('p \<Rightarrow> bytes \<Rightarrow> 'p \<times> rsp option) \<Rightarrow> bytes \<Rightarrow> sync \<Rightarrow> 'p \<Rightarrow> bool \<times> sync \<times> 'p" where
  "sync_want H serve want s peer =
     (if cvsasx_store_exists (Some (sy_store s)) (Some want)
      then (True, s\<lparr>sy_pruned := sy_pruned s + 1\<rparr>, peer)
      else
        (case serve peer want of
           (peer', None) \<Rightarrow> (False, s, peer')
         | (peer', Some r) \<Rightarrow> (case sync_block H want r s of (ok, s') \<Rightarrow> (ok, s', peer'))))"

primrec sync_loop ::
  "nat \<Rightarrow> (bytes \<Rightarrow> bytes) \<Rightarrow> ('p \<Rightarrow> bytes \<Rightarrow> 'p \<times> rsp option) \<Rightarrow> sync \<Rightarrow> 'p \<Rightarrow> (bool \<times> sync \<times> 'p) option" where
  "sync_loop 0 H serve s peer = None"
| "sync_loop (Suc fuel) H serve s peer =
     (case sy_ws s of
        [] \<Rightarrow> Some (True, s, peer)
      | want # rest \<Rightarrow>
          (case sync_want H serve want (s\<lparr>sy_ws := rest\<rparr>) peer of
             (ok, s', peer') \<Rightarrow>
               (if ok then sync_loop fuel H serve s' peer' else Some (False, s', peer'))))"

definition sync_start :: "cvsasx_store \<Rightarrow> bytes \<Rightarrow> sync" where
  "sync_start st root =
     \<lparr>sy_store = st, sy_ws = [root], sy_received = 0, sy_blocks = 0, sy_rejected = 0, sy_pruned = 0\<rparr>"

definition b_sync ::
  "nat \<Rightarrow> (bytes \<Rightarrow> bytes) \<Rightarrow> ('p \<Rightarrow> bytes \<Rightarrow> 'p \<times> rsp option) \<Rightarrow> rsp option \<Rightarrow> cvsasx_store \<Rightarrow> 'p \<Rightarrow>
   (bool \<times> sync \<times> 'p) option" where
  "b_sync fuel H serve adv st peer =
     (case adv of
        None \<Rightarrow> Some (False, (sync_start st [])\<lparr>sy_ws := []\<rparr>, peer)
      | Some r \<Rightarrow>
          (if rs_op r \<noteq> OP_ADV then Some (False, (sync_start st [])\<lparr>sy_ws := []\<rparr>, peer)
           else sync_loop fuel H serve (sync_start st (take 32 (rs_hash r))) peer))"

section \<open>The workload tree\<close>

text \<open>
  \<^verbatim>\<open>build_tree\<close>: one level packs the row of object ids sixteen at a time; the flag is
  \<^verbatim>\<open>g_tree_err\<close>.  When a put fails the id slot keeps its stale content, the argument \<open>old\<close>.
\<close>

fun build_row ::
  "(bytes \<Rightarrow> bytes) \<Rightarrow> bytes list \<Rightarrow> cvsasx_sls \<times> bool \<Rightarrow> bytes list \<Rightarrow> (cvsasx_sls \<times> bool) \<times> bytes list" where
  "build_row H old (S, err) row =
     (if row = [] then ((S, err), [])
      else
        (case cvsasx_sls_put_node H (Some S) (Some (take 16 row)) (word_of_nat (length (take 16 row))) True of
           (r, S', oid) \<Rightarrow>
             (let slot = (if r = CVSASX_SLS_OK then the oid else hd (old @ [[]]));
                  (st, rest) = build_row H (tl old) (the S', err \<or> r \<noteq> CVSASX_SLS_OK) (drop 16 row)
              in (st, slot # rest))))"

declare build_row.simps [simp del]

lemma build_row_length: "length (snd (build_row H old (S, err) row)) = (length row + 15) div 16"
proof (induction "length row" arbitrary: old S err row rule: less_induct)
  case less
  show ?case
  proof (cases "row = []")
    case False
    obtain r S' oid where p: "cvsasx_sls_put_node H (Some S) (Some (take 16 row))
        (word_of_nat (length (take 16 row))) True = (r, S', oid)"
      by (metis prod_cases3)
    have "(length row - 16 + 15) div 16 + 1 = (length row + 15) div 16"
    proof (cases "length row \<le> 16")
      case True
      then have "length row + 15 = 16 + (length row - 1)" and "length row - 1 < 16"
        using False by (auto simp: Suc_le_eq)
      then show ?thesis using True by simp
    next
      case False
      then have "length row + 15 = 16 + (length row - 16 + 15)" by simp
      then show ?thesis by simp
    qed
    moreover obtain st rest where b: "build_row H (tl old) (the S', err \<or> r \<noteq> CVSASX_SLS_OK) (drop 16 row) = (st, rest)"
      by fastforce
    moreover have "length rest = (length row - 16 + 15) div 16"
      using less[of "drop 16 row" "tl old" "the S'" "err \<or> r \<noteq> CVSASX_SLS_OK"] False by (simp add: b)
    ultimately show ?thesis
      using False p by (simp only: build_row.simps[of H old]) simp
  qed (simp add: build_row.simps)
qed

function (sequential) build_tree_loop ::
  "(bytes \<Rightarrow> bytes) \<Rightarrow> bytes list \<Rightarrow> cvsasx_sls \<times> bool \<Rightarrow> bytes list \<Rightarrow> (cvsasx_sls \<times> bool) \<times> bytes" where
  "build_tree_loop H old (S, err) row =
     (if length row \<le> 1 then ((S, err), hd (row @ [[]]))
      else (case build_row H old (S, err) row of
              (st, next) \<Rightarrow> build_tree_loop H (next @ drop (length next) old) st next))"
  by pat_completeness auto
termination
proof (relation "measure (\<lambda>(H, old, st, row). length row)")
  fix H old S err row st nxt
  assume a: "\<not> length row \<le> 1" and b: "(st, nxt) = build_row H old (S, err) row"
  have "length nxt = (length row + 15) div 16"
    using build_row_length[of H old S err row] by (simp flip: b)
  also have "\<dots> < length row" using a by (simp add: not_le)
  finally show "((H, nxt @ drop (length nxt) old, st, nxt), H, old, (S, err), row) \<in>
      measure (\<lambda>(H, old, st, row). length row)"
    by simp
qed simp

declare build_tree_loop.simps [simp del]

definition build_tree ::
  "(bytes \<Rightarrow> bytes) \<Rightarrow> cvsasx_sls \<Rightarrow> bytes list \<Rightarrow> bytes list \<Rightarrow> (cvsasx_sls \<times> bool) \<times> bytes" where
  "build_tree H S nxt lv = build_tree_loop H nxt (S, False) lv"


section \<open>Any peer\<close>

lemma sync_block_store:
  assumes "hash_fn H" and "store_inv H (sy_store s)" and "sync_block H want r s = (ok, s')"
  shows "store_inv H (sy_store s') \<and>
     (\<forall>h b. length h = 32 \<longrightarrow> store_map (sy_store s) h = Some b \<longrightarrow> store_map (sy_store s') h = Some b)"
proof -
  let ?buf = "take (unat (rs_len r)) (rs_pay r)"
  obtain st r' oh where p: "store_put H (sy_store s) ?buf = (r', st, oh)"
    by (metis prod_cases3)
  have len: "length ?buf < 2 ^ 64" using unat_lt2p[of "rs_len r"] by (simp add: min_def)
  have "sy_store s' = sy_store s \<or> sy_store s' = st"
    using assms(3) p by (auto simp: sync_block_def Let_def split: if_splits)
  then show ?thesis
    using assms(2) hash_fn.store_put_inv[OF assms(1,2) len p]
      hash_fn.store_lookup_mono[OF assms(1,2) len p] by auto
qed

lemma sync_want_store:
  assumes "hash_fn H" and "store_inv H (sy_store s)" and "sync_want H serve want s peer = (ok, s', peer')"
  shows "store_inv H (sy_store s') \<and>
     (\<forall>h b. length h = 32 \<longrightarrow> store_map (sy_store s) h = Some b \<longrightarrow> store_map (sy_store s') h = Some b)"
  using assms(2,3) sync_block_store[OF assms(1,2)]
  by (auto simp: sync_want_def split: if_splits prod.splits option.splits)

lemma sync_loop_store:
  assumes "hash_fn H" and "store_inv H (sy_store s)" and "sync_loop fuel H serve s peer = Some (ok, s', peer')"
  shows "store_inv H (sy_store s') \<and>
     (\<forall>h b. length h = 32 \<longrightarrow> store_map (sy_store s) h = Some b \<longrightarrow> store_map (sy_store s') h = Some b)"
  using assms(2,3)
proof (induction fuel arbitrary: s peer)
  case (Suc fuel)
  show ?case
  proof (cases "sy_ws s")
    case (Cons want rest)
    obtain ok1 s1 peer1 where w: "sync_want H serve want (s\<lparr>sy_ws := rest\<rparr>) peer = (ok1, s1, peer1)"
      by (metis prod_cases3)
    have st: "store_inv H (sy_store s1)"
      "length h = 32 \<Longrightarrow> store_map (sy_store s) h = Some b \<Longrightarrow> store_map (sy_store s1) h = Some b" for h b
      using sync_want_store[OF assms(1) _ w] Suc.prems(1) by simp_all
    show ?thesis
    proof (cases ok1)
      case True
      then have "sync_loop fuel H serve s1 peer1 = Some (ok, s', peer')" using Suc.prems(2) Cons w by simp
      from Suc.IH[OF st(1) this] st(2) show ?thesis by blast
    next
      case False
      then show ?thesis using Suc.prems(2) Cons w st by auto
    qed
  qed (use Suc.prems in auto)
qed simp

section \<open>An honest peer\<close>

definition reach :: "cvsasx_sls \<Rightarrow> bytes \<Rightarrow> bytes set" where
  "reach A root = {o'. \<exists>q. sls_at A root q = Some o'}"

definition kids_of :: "cvsasx_sls \<Rightarrow> bytes \<Rightarrow> bytes list" where
  "kids_of A o' = (case sls_kids A o' of None \<Rightarrow> [] | Some cs \<Rightarrow> cs)"

text \<open>
  The graph below the root is present and well formed in the source, no object exceeds
  the receive buffer and no path is longer than \<open>D\<close>.
\<close>

definition graph_ok :: "cvsasx_sls \<Rightarrow> bytes \<Rightarrow> nat \<Rightarrow> bool" where
  "graph_ok A root D \<longleftrightarrow> length root = 32 \<and>
     (\<forall>q o'. sls_at A root q = Some o' \<longrightarrow> length q \<le> D \<and>
        (\<exists>p. sls_obj A o' = Some p \<and> 0 < length p \<and> length p \<le> CVSASX_SLS_MAX_LEAF + 16 \<and>
             (5 \<le> length p \<and> p ! 0 = CVSASX_SLS_NODE \<longrightarrow> sls_kids A o' \<noteq> None)))"

lemma reach_kid:
  assumes "sls_at A root q = Some o'" and "i < length (kids_of A o')"
  shows "sls_at A root (q @ [i]) = Some (kids_of A o' ! i)"
  using assms by (auto simp: sls_at_append kids_of_def split: option.splits)

lemma reach_length:
  assumes "length root = 32" and "sls_at A root q = Some o'"
  shows "length o' = 32"
  using assms
proof (induction q arbitrary: root)
  case (Cons i q)
  then obtain cs where "sls_kids A root = Some cs" "i < length cs" "sls_at A (cs ! i) q = Some o'"
    by (auto split: option.splits if_splits)
  then show ?case using Cons.IH[of "cs ! i"] sls_kids_length[of A root cs "cs ! i"] by simp
qed simp

lemma kids_of_length: "length (kids_of A o') \<le> 16"
  by (auto simp: kids_of_def sls_kids_def CVSASX_SLS_MAX_CHILDREN_def split: option.splits)

lemma serve_honest:
  assumes "graph_ok A root D" and "sls_at A root q = Some o'" and "sl_store P = sl_store A"
  obtains P' r p where "a_serve_want P o' = (P', Some r)" "sl_store P' = sl_store A"
    "sls_obj A o' = Some p" "rs_op r = OP_BLOCK" "take (unat (rs_len r)) (rs_pay r) = p"
    "rs_len r \<noteq> 0" "unat (rs_len r) \<le> CVSASX_SLS_MAX_LEAF + 16" "sync_kids r = kids_of A o'"
proof -
  from assms obtain p where p: "sls_obj A o' = Some p" "0 < length p" "length p \<le> 1040"
    and node: "5 \<le> length p \<and> p ! 0 = CVSASX_SLS_NODE \<longrightarrow> sls_kids A o' \<noteq> None"
    unfolding graph_ok_def CVSASX_SLS_MAX_LEAF_def by fastforce
  have u: "unat (word_of_nat (length p) :: u32) = length p" using p(3) by (simp add: unat_of_nat)
  have obj: "sls_obj P o' = Some p" using p(1) assms(3) by (simp add: sls_obj_def)
  obtain P' r where s: "a_serve_want P o' = (P', Some r)"
    by (auto simp: a_serve_want_def sls_get_cases obj Let_def)
  have P': "sl_store P' = sl_store A" using s assms(3) by (auto simp: a_serve_want_def sls_get_cases obj Let_def)
  have r: "rs_op r = OP_BLOCK" "rs_len r = word_of_nat (length p)" "rs_pay r = p"
    using s by (auto simp: a_serve_want_def sls_get_cases obj Let_def)
  have kids: "sync_kids r = kids_of A o'"
  proof (cases "5 \<le> length p \<and> p ! 0 = CVSASX_SLS_NODE")
    case True
    then obtain cs where cs: "sls_kids A o' = Some cs" using node by auto
    then have n: "unat (node_count p) \<le> 16" "node_size_ok p" and c: "cs = map (node_child p) [0..<unat (node_count p)]"
      using p(1) by (auto simp: sls_kids_def CVSASX_SLS_MAX_CHILDREN_def split: if_splits)
    have l: "\<forall>c\<in>set cs. length c = 32" using cs sls_kids_length by blast
    have h: "rs_nchild r = node_count p" "rs_hint r = concat cs"
      using s True n c by (auto simp: a_serve_want_def sls_get_cases obj Let_def CVSASX_SLS_MAX_CHILDREN_def)
    have "sync_kids r = map (\<lambda>c. slice (c * 32) 32 (concat cs)) [0..<length cs]"
      using n c by (simp add: sync_kids_def h CVSASX_SLS_MAX_CHILDREN_def Let_def min_def)
    also have "\<dots> = cs"
      using concat_blocks(2)[OF l] by (intro nth_equalityI) (simp_all add: slice_def)
    finally show ?thesis by (simp add: kids_of_def cs)
  next
    case False
    then have "sls_kids A o' = None" using p(1) by (auto simp: sls_kids_def)
    moreover have "rs_nchild r = 0"
      using s False by (auto simp: a_serve_want_def sls_get_cases obj Let_def)
    ultimately show ?thesis by (simp add: kids_of_def sync_kids_def)
  qed
  have "rs_len r \<noteq> 0" using r(2) u p(2) by (metis unat_0 less_numeral_extra(3))
  then show ?thesis
    using that[OF s P' p(1) r(1) _ _ _ kids] r u p by (simp add: CVSASX_SLS_MAX_LEAF_def)
qed


definition missing :: "cvsasx_sls \<Rightarrow> bytes \<Rightarrow> cvsasx_store \<Rightarrow> bytes set" where
  "missing A root st = {o' \<in> reach A root. store_map st o' = None}"

text \<open>Room in the destination for every object it misses (no object exceeds 1040 bytes).\<close>

definition sync_room :: "cvsasx_sls \<Rightarrow> bytes \<Rightarrow> cvsasx_store \<Rightarrow> bool" where
  "sync_room A root st \<longleftrightarrow>
     unat (st_index_count st) + card (missing A root st) \<le> unat (st_index_cap st) \<and>
     unat (st_arena_used st) + (CVSASX_SLS_MAX_LEAF + 16) * card (missing A root st) \<le> unat (st_arena_cap st)"

text \<open>Every resident object of the graph has its children resident, or still on the stack.\<close>

definition sync_closed :: "cvsasx_sls \<Rightarrow> bytes \<Rightarrow> cvsasx_store \<Rightarrow> bytes list \<Rightarrow> bool" where
  "sync_closed A root st ws \<longleftrightarrow>
     (\<forall>o' \<in> reach A root. store_map st o' \<noteq> None \<longrightarrow>
        (\<forall>k \<in> set (kids_of A o'). store_map st k \<noteq> None \<or> k \<in> set ws))"

text \<open>The entry at height \<open>i\<close> of the stack lies on a path of length at least \<open>i / 15\<close>.\<close>

definition stack_ok :: "cvsasx_sls \<Rightarrow> bytes \<Rightarrow> bytes list \<Rightarrow> bool" where
  "stack_ok A root ws \<longleftrightarrow>
     (\<forall>i < length ws. \<exists>q. sls_at A root q = Some (rev ws ! i) \<and> i \<le> 15 * length q)"

definition sync_inv ::
  "(bytes \<Rightarrow> bytes) \<Rightarrow> cvsasx_sls \<Rightarrow> bytes \<Rightarrow> sync \<Rightarrow> cvsasx_sls \<Rightarrow> bool" where
  "sync_inv H A root s P \<longleftrightarrow>
     store_inv H (sy_store s) \<and> sl_store P = sl_store A \<and> stack_ok A root (sy_ws s) \<and>
     (store_map (sy_store s) root \<noteq> None \<or> root \<in> set (sy_ws s)) \<and>
     sync_closed A root (sy_store s) (sy_ws s) \<and> sync_room A root (sy_store s)"

definition sync_work :: "cvsasx_sls \<Rightarrow> bytes \<Rightarrow> sync \<Rightarrow> nat" where
  "sync_work A root s = 17 * card (missing A root (sy_store s)) + length (sy_ws s)"

lemma exists_iff: "cvsasx_store_exists (Some st) (Some h) \<longleftrightarrow> store_map st h \<noteq> None"
  by (auto simp: cvsasx_store_exists_def store_map_def store_get_def split: option.splits)

lemma reach_card:
  assumes "hash_fn H" and "sl_store A = Some sa" and "store_inv H sa" and "graph_ok A root D"
  shows "finite (reach A root)" and "card (reach A root) \<le> unat (st_index_count sa)"
proof -
  let ?I = "(\<lambda>i. se_hash (st_index sa ! i)) ` {..<unat (st_index_count sa)}"
  have "reach A root \<subseteq> ?I"
  proof
    fix h assume "h \<in> reach A root"
    then obtain q where q: "sls_at A root q = Some h" by (auto simp: reach_def)
    then have "length h = 32" "sls_obj A h \<noteq> None"
      using assms(4) reach_length[OF _ q] by (auto simp: graph_ok_def)
    then have "store_map sa h \<noteq> None" "length h = 32"
      using assms(2) by (auto simp: sls_obj_def cvsasx_store_get_def store_map_def)
    then show "h \<in> ?I" using hash_fn.store_map_iff[OF assms(1,3)] by auto
  qed
  moreover have "finite ?I" "card ?I \<le> unat (st_index_count sa)"
    using card_image_le[of "{..<unat (st_index_count sa)}" "\<lambda>i. se_hash (st_index sa ! i)"] by simp_all
  ultimately show "finite (reach A root)" and "card (reach A root) \<le> unat (st_index_count sa)"
    by (auto intro: finite_subset order.trans[OF card_mono])
qed

lemma sync_push_eq:
  assumes "length ws + length kids \<le> WS_MAX"
  shows "sync_push st kids ws = rev (filter (\<lambda>k. store_map st k = None) kids) @ ws"
  using assms
proof (induction kids arbitrary: ws)
  case (Cons k kids)
  show ?case
  proof (cases "store_map st k = None")
    case True
    then have "sync_push st (k # kids) ws = sync_push st kids (k # ws)"
      using Cons.prems by (simp add: sync_push_def exists_iff)
    also have "\<dots> = rev (filter (\<lambda>k. store_map st k = None) kids) @ k # ws"
      using Cons.IH[of "k # ws"] Cons.prems by simp
    finally show ?thesis using True by simp
  next
    case False
    then have "\<not> (\<not> cvsasx_store_exists (Some st) (Some k) \<and> length ws < WS_MAX)"
      by (simp add: exists_iff)
    then have "sync_push st (k # kids) ws = sync_push st kids ws"
      by (simp only: sync_push_def foldl.simps if_False)
    then show ?thesis using Cons False by simp
  qed
qed (simp add: sync_push_def)

lemma stack_okD:
  assumes "stack_ok A root (w # rest)"
  obtains q where "sls_at A root q = Some w" "length rest \<le> 15 * length q" "stack_ok A root rest"
proof -
  have "stack_ok A root rest"
    unfolding stack_ok_def
  proof (intro allI impI)
    fix i assume i: "i < length rest"
    then have "rev (w # rest) ! i = rev rest ! i" by (simp add: nth_append)
    then show "\<exists>q. sls_at A root q = Some (rev rest ! i) \<and> i \<le> 15 * length q"
      using assms i unfolding stack_ok_def by (metis length_Cons less_SucI)
  qed
  moreover obtain q where "sls_at A root q = Some w" "length rest \<le> 15 * length q"
    using assms unfolding stack_ok_def
    by (auto dest!: spec[of _ "length rest"] simp: nth_append)
  ultimately show ?thesis using that by blast
qed

lemma stack_ok_push:
  assumes "stack_ok A root rest" and "sls_at A root q = Some w" and "length rest \<le> 15 * length q"
    and "set ks \<subseteq> set (kids_of A w)" and "length ks \<le> 16"
  shows "stack_ok A root (rev ks @ rest)"
  unfolding stack_ok_def
proof (intro allI impI)
  fix i assume i: "i < length (rev ks @ rest)"
  show "\<exists>q. sls_at A root q = Some (rev (rev ks @ rest) ! i) \<and> i \<le> 15 * length q"
  proof (cases "i < length rest")
    case True
    then show ?thesis using assms(1) by (auto simp: stack_ok_def nth_append)
  next
    case False
    then have "rev (rev ks @ rest) ! i = ks ! (i - length rest)" and "i - length rest < length ks"
      using i by (auto simp: nth_append)
    moreover from this have "ks ! (i - length rest) \<in> set (kids_of A w)" using assms(4) nth_mem by blast
    ultimately obtain j where "j < length (kids_of A w)" "rev (rev ks @ rest) ! i = kids_of A w ! j"
      by (auto simp: in_set_conv_nth)
    then have "sls_at A root (q @ [j]) = Some (rev (rev ks @ rest) ! i)"
      using reach_kid[OF assms(2)] by simp
    moreover have "i \<le> 15 * length (q @ [j])"
      using assms(3,5) i by simp
    ultimately show ?thesis by blast
  qed
qed


lemma put_missing:
  assumes "hash_fn H" and "store_inv H st" and "length p \<le> CVSASX_SLS_MAX_LEAF + 16"
    and "store_map st (H p) = None" and "H p \<in> reach A root" and "finite (reach A root)"
    and "sync_room A root st" and "\<And>h. h \<in> reach A root \<Longrightarrow> length h = 32"
  obtains st' where "fst (snd (store_put H st p)) = st'" "store_inv H st'" "sync_room A root st'"
    "\<And>h. length h = 32 \<Longrightarrow> store_map st' h = ((store_map st)(H p \<mapsto> p)) h"
    "Suc (card (missing A root st')) = card (missing A root st)"
proof -
  have len: "length p < 2 ^ 64" using assms(3) by (simp add: CVSASX_SLS_MAX_LEAF_def)
  have fin: "finite (missing A root st)" using assms(6) by (simp add: missing_def)
  have memb: "H p \<in> missing A root st" using assms(4,5) by (simp add: missing_def)
  then have pos: "card (missing A root st) > 0" using fin card_gt_0_iff by blast
  let ?s = "st\<lparr>st_put_calls := st_put_calls st + 1\<rparr>"
  let ?t = "store_append ?s (H p) p"
  have inv: "store_inv H ?s" using assms(2) by simp
  have bnd: "length p + (CVSASX_SLS_MAX_LEAF + 16) * (card (missing A root st) - 1)
      \<le> (CVSASX_SLS_MAX_LEAF + 16) * card (missing A root st)"
    using pos assms(3) by (cases "card (missing A root st)") auto
  have room: "store_has_room ?s p"
    using assms(7) pos bnd by (simp add: store_has_room_def sync_room_def word_less_nat_alt)
  have new: "find_entry ?s (H p) = None" "find_entry st (H p) = None"
    using assms(4) hash_fn.store_map_None_iff[OF assms(1,2)] hash_fn.length_H[OF assms(1)] by simp_all
  have put: "fst (snd (store_put H st p)) = ?t"
    using hash_fn.store_put_eq[OF assms(1,2) len] new(2) room by (simp add: store_has_room_def)
  have map: "store_map ?t h = ((store_map st)(H p \<mapsto> p)) h" if "length h = 32" for h
    using hash_fn.append_map[OF assms(1) inv len room new(1) that] by simp
  have miss: "missing A root ?t = missing A root st - {H p}"
    using map assms(8) by (auto simp: missing_def split: if_splits)
  then have card: "Suc (card (missing A root ?t)) = card (missing A root st)"
    using pos fin memb by (simp add: card_Diff_singleton)
  note F = hash_fn.append_facts[OF assms(1) inv len room, where h = "H p"]
  have caps: "st_index_cap ?t = st_index_cap st" "st_arena_cap ?t = st_arena_cap st"
    by (simp_all add: store_append_def)
  have "sync_room A root ?t"
    using assms(7) F(1,2) bnd card pos caps unfolding sync_room_def
    by (auto simp: algebra_simps simp flip: card)
  then show ?thesis
    using that[OF put hash_fn.append_inv[OF assms(1) inv len room new(1)]] map card by blast
qed

lemma kids_reach: "o' \<in> reach A root \<Longrightarrow> k \<in> set (kids_of A o') \<Longrightarrow> k \<in> reach A root"
  using reach_kid unfolding reach_def in_set_conv_nth by blast

lemma sync_closed_fetch:
  assumes "sync_closed A root st (w # rest)" and "\<And>h. h \<in> reach A root \<Longrightarrow> length h = 32"
    and "\<And>h. length h = 32 \<Longrightarrow> store_map st' h = ((store_map st)(w \<mapsto> p)) h"
  shows "sync_closed A root st' (rev (filter (\<lambda>k. store_map st' k = None) (kids_of A w)) @ rest)"
  unfolding sync_closed_def
proof (intro ballI impI)
  fix o' k assume o: "o' \<in> reach A root" "store_map st' o' \<noteq> None" and k: "k \<in> set (kids_of A o')"
  have m: "store_map st' h = ((store_map st)(w \<mapsto> p)) h" if "h \<in> reach A root" for h
    using that assms(2,3) by blast
  have kr: "k \<in> reach A root" using kids_reach o(1) k .
  show "store_map st' k \<noteq> None \<or> k \<in> set (rev (filter (\<lambda>k. store_map st' k = None) (kids_of A w)) @ rest)"
  proof (cases "o' = w")
    case True
    then show ?thesis using k by auto
  next
    case False
    then have "store_map st o' \<noteq> None" using o m[OF o(1)] by simp
    then have "store_map st k \<noteq> None \<or> k = w \<or> k \<in> set rest"
      using assms(1) o(1) k by (auto simp: sync_closed_def)
    then show ?thesis using m[OF kr] by auto
  qed
qed

lemma sync_step_prune:
  assumes "sync_inv H A root s P" and "sy_ws s = w # rest" and "store_map (sy_store s) w \<noteq> None"
  shows "\<exists>s'. sync_want H serve w (s\<lparr>sy_ws := rest\<rparr>) P = (True, s', P) \<and> sync_inv H A root s' P \<and>
     sync_work A root s' < sync_work A root s"
proof -
  let ?s = "s\<lparr>sy_ws := rest, sy_pruned := sy_pruned s + 1\<rparr>"
  have "sync_want H serve w (s\<lparr>sy_ws := rest\<rparr>) P = (True, ?s, P)"
    using assms(3) by (simp add: sync_want_def exists_iff)
  moreover have "stack_ok A root rest" using assms(1,2) by (auto simp: sync_inv_def elim: stack_okD)
  then have "sync_inv H A root ?s P"
    using assms by (auto simp: sync_inv_def sync_closed_def)
  ultimately show ?thesis using assms(2) by (auto simp: sync_work_def)
qed

lemma sync_step_fetch:
  assumes H: "hash_fn H" and A: "sl_store A = Some sa" "store_inv H sa"
    and g: "graph_ok A root D" "D \<le> 272"
    and inv: "sync_inv H A root s P" and ws: "sy_ws s = w # rest" and new: "store_map (sy_store s) w = None"
  shows "\<exists>s' P'. sync_want H a_serve_want w (s\<lparr>sy_ws := rest\<rparr>) P = (True, s', P') \<and>
     sync_inv H A root s' P' \<and> sync_work A root s' < sync_work A root s"
proof -
  from inv ws obtain q where q: "sls_at A root q = Some w" "length rest \<le> 15 * length q" and st: "stack_ok A root rest"
    by (auto simp: sync_inv_def elim: stack_okD)
  have P: "sl_store P = sl_store A" and sinv: "store_inv H (sy_store s)" using inv by (simp_all add: sync_inv_def)
  obtain P' r p where r: "a_serve_want P w = (P', Some r)" "sl_store P' = sl_store A" "sls_obj A w = Some p"
    "rs_op r = OP_BLOCK" "take (unat (rs_len r)) (rs_pay r) = p" "rs_len r \<noteq> 0"
    "unat (rs_len r) \<le> CVSASX_SLS_MAX_LEAF + 16" "sync_kids r = kids_of A w"
    by (rule serve_honest[OF g(1) q(1) P])
  have lenw: "length w = 32" using reach_length[OF _ q(1)] g(1) by (simp add: graph_ok_def)
  have "store_map sa w = Some p" using r(3) A(1) by (simp add: sls_obj_def cvsasx_store_get_def store_map_def)
  then have Hp: "H p = w" using hash_fn.store_map_hash[OF H A(2) lenw] by simp
  have lp: "length p \<le> CVSASX_SLS_MAX_LEAF + 16" using r(5,7) by auto
  have rl: "\<And>h. h \<in> reach A root \<Longrightarrow> length h = 32" using reach_length g(1) by (auto simp: reach_def graph_ok_def)
  have wr: "w \<in> reach A root" using q(1) by (auto simp: reach_def)
  have rm: "sync_room A root (sy_store s)" using inv by (simp add: sync_inv_def)
  obtain st' where put: "fst (snd (store_put H (sy_store s) p)) = st'" "store_inv H st'" "sync_room A root st'"
    "\<And>h. length h = 32 \<Longrightarrow> store_map st' h = ((store_map (sy_store s))(w \<mapsto> p)) h"
    "Suc (card (missing A root st')) = card (missing A root (sy_store s))"
    using put_missing[OF H sinv lp _ _ reach_card(1)[OF H A g(1)] rm rl] new wr unfolding Hp by blast
  let ?ks = "filter (\<lambda>k. store_map st' k = None) (kids_of A w)"
  have "length q \<le> 272" using g q(1) by (force simp: graph_ok_def)
  then have push: "sync_push st' (kids_of A w) rest = rev ?ks @ rest"
    using kids_of_length[of A w] q(2) by (intro sync_push_eq) (simp add: WS_MAX_def)
  define s' where "s' = s\<lparr>sy_ws := rev ?ks @ rest, sy_store := st', sy_received := sy_received s + ucast (rs_len r),
      sy_blocks := sy_blocks s + 1\<rparr>"
  have step: "sync_want H a_serve_want w (s\<lparr>sy_ws := rest\<rparr>) P = (True, s', P')"
    using new r put(1) Hp push by (simp add: sync_want_def exists_iff sync_block_def Let_def byte_diff_eq_0_iff s'_def)
  have lk: "length ?ks \<le> 16" using kids_of_length[of A w] order.trans[OF length_filter_le] by blast
  have "stack_ok A root (rev ?ks @ rest)"
    by (rule stack_ok_push[OF st q]) (use lk in auto)
  moreover have "sync_closed A root st' (rev ?ks @ rest)"
    using inv ws by (intro sync_closed_fetch[OF _ rl put(4)]) (simp_all add: sync_inv_def)
  moreover have "store_map st' root \<noteq> None \<or> root \<in> set (rev ?ks @ rest)"
    using inv ws put(4) g(1) lenw by (auto simp: sync_inv_def graph_ok_def)
  ultimately have "sync_inv H A root s' P'"
    using put(2,3) r(2) by (simp add: sync_inv_def s'_def)
  moreover have "sync_work A root s' < sync_work A root s"
    using put(5) lk ws by (simp add: sync_work_def s'_def)
  ultimately show ?thesis using step by blast
qed


lemma sync_loop_complete:
  assumes H: "hash_fn H" and A: "sl_store A = Some sa" "store_inv H sa"
    and g: "graph_ok A root D" "D \<le> 272"
    and "sync_inv H A root s P" and "sync_work A root s < fuel"
  shows "\<exists>s' P'. sync_loop fuel H a_serve_want s P = Some (True, s', P') \<and> sync_inv H A root s' P' \<and> sy_ws s' = []"
  using assms(6,7)
proof (induction fuel arbitrary: s P)
  case (Suc fuel)
  show ?case
  proof (cases "sy_ws s")
    case Nil
    then show ?thesis using Suc.prems(1) by simp
  next
    case (Cons w rest)
    obtain s1 P1 where w: "sync_want H a_serve_want w (s\<lparr>sy_ws := rest\<rparr>) P = (True, s1, P1)"
      and i: "sync_inv H A root s1 P1" "sync_work A root s1 < sync_work A root s"
      using sync_step_prune[OF Suc.prems(1) Cons] sync_step_fetch[OF H A g Suc.prems(1) Cons] by blast
    show ?thesis
      using Suc.IH[OF i(1)] i(2) Suc.prems(2) w Cons by simp
  qed
qed simp

lemma sync_closed_reach:
  assumes "sync_closed A root st []" and "store_map st root \<noteq> None" and "sls_at A root q = Some o'"
  shows "store_map st o' \<noteq> None"
  using assms(3)
proof (induction q arbitrary: o' rule: rev_induct)
  case (snoc i q)
  then obtain x where x: "sls_at A root q = Some x" and k: "sls_at A x [i] = Some o'"
    by (auto simp: sls_at_append split: option.splits)
  have "o' \<in> set (kids_of A x)" using k by (auto simp: kids_of_def split: option.splits if_splits)
  moreover have "x \<in> reach A root" using x by (auto simp: reach_def)
  ultimately show ?case using assms(1) snoc.IH[OF x] by (auto simp: sync_closed_def)
qed (use assms(2) in simp)

section \<open>Properties\<close>


text \<open>A peer that answers every request with the same block.\<close>

definition ex_block :: "bytes \<Rightarrow> unit \<Rightarrow> bytes \<Rightarrow> unit \<times> rsp option" where
  "ex_block p u want = (u, Some \<lparr>rs_op = OP_BLOCK, rs_len = word_of_nat (length p), rs_nchild = 0, rs_hash = [],
                                 rs_hint = [], rs_pay = p\<rparr>)"

definition ex_adv :: "bytes \<Rightarrow> rsp" where
  "ex_adv root = \<lparr>rs_op = OP_ADV, rs_len = 0, rs_nchild = 0, rs_hash = root, rs_hint = [], rs_pay = []\<rparr>"

definition ex_sync ::
  "bytes \<Rightarrow> bytes \<Rightarrow> (bool \<times> sync \<times> unit) option" where
  "ex_sync root p = b_sync 3 pad_hash (ex_block p) (Some (ex_adv root)) ex_store ()"

lemma ex_sync_forged: "ex_sync (pad_hash [1, 2, 3]) [9] \<noteq> None"
  by code_simp


text \<open>
  The child hints are not covered by the digest.  A peer that sends the genuine root node
  with an empty hint list makes the synchronisation succeed with the children absent,
  and a later synchronisation of the same root prunes at the root.
\<close>

lemma sync_false_hint:
  "case ex_sync (pad_hash (node_buf [pad_hash [7]])) (node_buf [pad_hash [7]]) of
     None \<Rightarrow> False
   | Some (ok, s', _) \<Rightarrow>
       ok \<and> sy_rejected s' = 0 \<and> \<not> cvsasx_store_exists (Some (sy_store s')) (Some (pad_hash [7])) \<and>
       (case b_sync 3 pad_hash (ex_block []) (Some (ex_adv (pad_hash (node_buf [pad_hash [7]])))) (sy_store s') () of
          None \<Rightarrow> False | Some (ok2, s2, _) \<Rightarrow> ok2 \<and> sy_blocks s2 = 0)"
  by code_simp

text \<open>
  A full store is not noticed: the object is not stored, its children are fetched all the
  same and the synchronisation reports success.
\<close>

lemma sync_full_store_succeeds:
  "case b_sync 3 pad_hash (ex_block [1, 2]) (Some (ex_adv (pad_hash [1, 2])))
          (cvsasx_store_init [] 0 [] 0) () of
     None \<Rightarrow> False
   | Some (ok, s', _) \<Rightarrow> ok \<and> sy_blocks s' = 1 \<and> \<not> cvsasx_store_exists (Some (sy_store s')) (Some (pad_hash [1, 2]))"
  by code_simp

definition adv_of :: "bytes \<Rightarrow> rsp" where
  "adv_of root = \<lparr>rs_op = OP_ADV, rs_len = 0, rs_nchild = 0, rs_hash = root, rs_hint = [], rs_pay = []\<rparr>"



definition ex_src :: cvsasx_sls where
  "ex_src = fst (snd (sls_store_put pad_hash ex_sls0 (leaf_buf [1])))"

definition ex_dst :: cvsasx_store where
  "ex_dst = cvsasx_store_init (replicate 2000 0) 2000
              (replicate 4 \<lparr>se_hash = replicate 32 0, se_offset = 0, se_len = 0\<rparr>) 4"

lemma ex_src_obj: "sls_obj ex_src ex_leafA = Some (leaf_buf [1]) \<and> sls_kids ex_src ex_leafA = None"
  by code_simp

lemma ex_src_store:
  obtains sa where "sl_store ex_src = Some sa" "store_inv pad_hash sa" "unat (st_index_count sa) = 1"
proof -
  obtain st where st: "sl_store ex_sls0 = Some st" "store_inv pad_hash st"
    by (simp add: ex_sls0_def cvsasx_sls_init_def store_init_inv)
  obtain r sa oh where p: "store_put pad_hash st (leaf_buf [1]) = (r, sa, oh)" by (metis prod_cases3)
  have "length (leaf_buf [1]) < 2 ^ 64" by (simp add: leaf_buf_def)
  then have i: "store_inv pad_hash sa" using hash_fn.store_put_inv[OF hash_fn_pad_hash st(2) _ p] by simp
  have s: "sl_store ex_src = Some sa"
    using st(1) p by (simp add: ex_src_def sls_store_put_def cvsasx_store_put_def leaf_buf_def)
  have "unat (st_index_count (the (sl_store ex_src))) = 1" by code_simp
  then show ?thesis using that s i by simp
qed

lemma ex_src_at: "sls_at ex_src ex_leafA q = Some o' \<longleftrightarrow> q = [] \<and> o' = ex_leafA"
  using ex_src_obj by (cases q) auto


end
