(* ===== verification/PhysMem.thy ===== *)
theory PhysMem
  imports Prelude
begin

text \<open>
  Physical frames and page tables of \<^verbatim>\<open>kernel/kernel.c\<close>: the boot allocator (\<^verbatim>\<open>falloc\<close>,
  \<^verbatim>\<open>ffree\<close>), the walks that create tables on demand (\<^verbatim>\<open>next_tbl\<close>, \<^verbatim>\<open>map_page\<close>, \<^verbatim>\<open>mm_walk\<close>) and
  the per-task address spaces (\<^verbatim>\<open>mm_map\<close>, \<^verbatim>\<open>mm_unmap\<close>, \<^verbatim>\<open>mm_resolve\<close>, the dirty bit).
  Memory is seen as the code sees it through \<^verbatim>\<open>P2V\<close>: frames of 512 words, addressed by
  frame and slot; TLB invalidation has no counterpart because the model has no TLB.
  The contract of an allocator is the locale \<open>frame_pool\<close>; a client of it can
  never be handed a frame it already owns.  For the page tables: mapping a page makes
  exactly that page translate to the frame and leaves every other page alone.
\<close>

section \<open>State\<close>

record pmem =
  pm_mem :: "u64 \<Rightarrow> nat \<Rightarrow> u64"
  free_base :: u64
  free_top :: u64
  freelist :: u64
  ram_lo :: u64
  ram_hi :: u64

definition slot_set :: "u64 \<Rightarrow> nat \<Rightarrow> u64 \<Rightarrow> pmem \<Rightarrow> pmem" where
  "slot_set t i v s = s\<lparr>pm_mem := (pm_mem s)(t := (pm_mem s t)(i := v))\<rparr>"

definition zero_frame :: "u64 \<Rightarrow> pmem \<Rightarrow> pmem" where
  "zero_frame p s = s\<lparr>pm_mem := (pm_mem s)(p := \<lambda>k. if k < 512 then 0 else pm_mem s p k)\<rparr>"

section \<open>The boot allocator\<close>

definition falloc :: "pmem \<Rightarrow> u64 \<times> pmem" where
  "falloc s =
     (if freelist s \<noteq> 0 then (freelist s, s\<lparr>freelist := pm_mem s (freelist s) 0\<rparr>)
      else if free_base s + 4096 \<le> free_top s then (free_base s, s\<lparr>free_base := free_base s + 4096\<rparr>)
      else (0, s))"

definition ffree :: "u64 \<Rightarrow> pmem \<Rightarrow> pmem" where
  "ffree p s =
     (if p AND 0xfff \<noteq> 0 \<or> p < ram_lo s \<or> p \<ge> ram_hi s \<or> p = freelist s then s
      else (slot_set p 0 (freelist s) s)\<lparr>freelist := p\<rparr>)"

section \<open>Page-table walks\<close>

definition next_tbl :: "u64 \<Rightarrow> nat \<Rightarrow> pmem \<Rightarrow> u64 option \<times> pmem" where
  "next_tbl t i s =
     (if pm_mem s t i AND 1 = 0
      then (case falloc s of (p, s1) \<Rightarrow>
              (if p = 0 then (None, s1)
               else let s2 = slot_set t i (p OR 3) (zero_frame p s1)
                    in (Some (pm_mem s2 t i AND NOT 0xfff), s2)))
      else (Some (pm_mem s t i AND NOT 0xfff), s))"

definition va_idx :: "u64 \<Rightarrow> nat \<Rightarrow> nat" where
  "va_idx va lvl = unat (drop_bit lvl va AND 0x1ff)"

definition map_page :: "u64 \<Rightarrow> u64 \<Rightarrow> u64 \<Rightarrow> u64 \<Rightarrow> pmem \<Rightarrow> bool \<times> pmem" where
  "map_page cr3 va pa flags s0 =
     (case next_tbl (cr3 AND NOT 0xfff) (va_idx va 39) s0 of
        (None, s1) \<Rightarrow> (False, s1)
      | (Some pdpt, s1) \<Rightarrow>
          (case next_tbl pdpt (va_idx va 30) s1 of
             (None, s2) \<Rightarrow> (False, s2)
           | (Some pd, s2) \<Rightarrow>
               (case next_tbl pd (va_idx va 21) s2 of
                  (None, s3) \<Rightarrow> (False, s3)
                | (Some pt, s3) \<Rightarrow>
                    (True, slot_set pt (va_idx va 12) ((pa AND NOT 0xfff) OR flags OR 1) s3))))"

definition MM_PRESENT :: u64 where "MM_PRESENT = 0x1"
definition MM_WRITE :: u64 where "MM_WRITE = 0x2"
definition MM_USER :: u64 where "MM_USER = 0x4"
definition PTE_DIRTY :: u64 where "PTE_DIRTY = push_bit 6 1"

definition tbl_flags :: u64 where "tbl_flags = MM_PRESENT OR MM_WRITE OR MM_USER"

text \<open>The loop of \<^verbatim>\<open>mm_walk\<close> over the levels that are left, at the table \<open>t\<close>.\<close>

fun walk_levels :: "bool \<Rightarrow> u64 \<Rightarrow> nat list \<Rightarrow> u64 \<Rightarrow> pmem \<Rightarrow> u64 option \<times> pmem" where
  "walk_levels create va [] t s = (Some t, s)"
| "walk_levels create va (lvl # ls) t s =
     (let i = va_idx va lvl
      in if pm_mem s t i AND 1 = 0
         then
           (if \<not> create then (None, s)
            else (case falloc s of (p, s1) \<Rightarrow>
                    (if p = 0 then (None, s1)
                     else let s2 = slot_set t i (p OR tbl_flags) (zero_frame p s1)
                          in walk_levels create va ls (pm_mem s2 t i AND NOT 0xfff) s2)))
         else walk_levels create va ls (pm_mem s t i AND NOT 0xfff) s)"

definition mm_walk :: "u64 \<Rightarrow> u64 \<Rightarrow> bool \<Rightarrow> pmem \<Rightarrow> (u64 \<times> nat) option \<times> pmem" where
  "mm_walk pml4 va create s =
     (case walk_levels create va [39, 30, 21] pml4 s of
        (t, s') \<Rightarrow> (map_option (\<lambda>t. (t, va_idx va 12)) t, s'))"

definition mm_new_space :: "u64 \<Rightarrow> pmem \<Rightarrow> u64 \<times> pmem" where
  "mm_new_space cr3 s =
     (case falloc s of (p, s1) \<Rightarrow>
        (if p = 0 then (0, s1)
         else (p, s1\<lparr>pm_mem := (pm_mem s1)(p := \<lambda>i. if i < 512 then pm_mem s1 (cr3 AND NOT 0xfff) i
                                                   else pm_mem s1 p i)\<rparr>)))"

definition mm_map :: "u64 \<Rightarrow> u64 \<Rightarrow> u64 \<Rightarrow> u64 \<Rightarrow> pmem \<Rightarrow> bool \<times> pmem" where
  "mm_map pml4 va pa flags s =
     (case mm_walk pml4 va True s of
        (None, s') \<Rightarrow> (False, s')
      | (Some (t, i), s') \<Rightarrow> (True, slot_set t i ((pa AND NOT 0xfff) OR flags OR MM_PRESENT) s'))"

text \<open>The entry of a page, when its table exists and the entry is present.\<close>

definition mm_pte :: "u64 \<Rightarrow> u64 \<Rightarrow> pmem \<Rightarrow> (u64 \<times> nat) option" where
  "mm_pte pml4 va s =
     (case fst (mm_walk pml4 va False s) of
        None \<Rightarrow> None
      | Some (t, i) \<Rightarrow> if pm_mem s t i AND 1 = 0 then None else Some (t, i))"

definition mm_unmap :: "u64 \<Rightarrow> u64 \<Rightarrow> pmem \<Rightarrow> bool \<times> pmem" where
  "mm_unmap pml4 va s =
     (case mm_pte pml4 va s of
        None \<Rightarrow> (False, s)
      | Some (t, i) \<Rightarrow> (True, slot_set t i 0 s))"

definition mm_resolve :: "u64 \<Rightarrow> u64 \<Rightarrow> pmem \<Rightarrow> u64" where
  "mm_resolve pml4 va s =
     (case mm_pte pml4 va s of
        None \<Rightarrow> 0
      | Some (t, i) \<Rightarrow> (pm_mem s t i AND NOT 0xfff) OR (va AND 0xfff))"

definition pte_dirty_get :: "u64 \<Rightarrow> u64 \<Rightarrow> pmem \<Rightarrow> int" where
  "pte_dirty_get pml4 va s =
     (case mm_pte pml4 va s of
        None \<Rightarrow> -1
      | Some (t, i) \<Rightarrow> if pm_mem s t i AND PTE_DIRTY \<noteq> 0 then 1 else 0)"

definition pte_dirty_clear :: "u64 \<Rightarrow> u64 \<Rightarrow> pmem \<Rightarrow> pmem" where
  "pte_dirty_clear pml4 va s =
     (case mm_pte pml4 va s of
        None \<Rightarrow> s
      | Some (t, i) \<Rightarrow> slot_set t i (pm_mem s t i AND NOT PTE_DIRTY) s)"

section \<open>The contract of a frame allocator\<close>

datatype pool_op = PAlloc | PFree u64

text \<open>A client that frees only frames it owns; the trace lists what each allocation returned.\<close>

fun pool_run ::
  "('s \<Rightarrow> u64 \<times> 's) \<Rightarrow> (u64 \<Rightarrow> 's \<Rightarrow> 's) \<Rightarrow> pool_op list \<Rightarrow> 's \<times> u64 set \<Rightarrow> (u64 \<times> u64 set) list \<times> 's \<times> u64 set" where
  "pool_run alloc release [] (s, own) = ([], s, own)"
| "pool_run alloc release (PAlloc # ops) (s, own) =
     (case alloc s of (p, s') \<Rightarrow>
        (let own' = (if p = 0 then own else insert p own)
         in case pool_run alloc release ops (s', own') of (tr, st) \<Rightarrow> ((p, own) # tr, st)))"
| "pool_run alloc release (PFree p # ops) (s, own) =
     (if p \<in> own then pool_run alloc release ops (release p s, own - {p})
      else pool_run alloc release ops (s, own))"

locale frame_pool =
  fixes alloc :: "'s \<Rightarrow> u64 \<times> 's"
    and release :: "u64 \<Rightarrow> 's \<Rightarrow> 's"
    and pool :: "u64 set \<Rightarrow> u64 set \<Rightarrow> 's \<Rightarrow> bool"
  assumes alloc_none: "pool U F s \<Longrightarrow> alloc s = (0, s') \<Longrightarrow> F = {} \<and> pool U F s'"
    and alloc_some: "pool U F s \<Longrightarrow> alloc s = (p, s') \<Longrightarrow> p \<noteq> 0 \<Longrightarrow> p \<in> F \<and> pool U (F - {p}) s'"
    and release_pool: "pool U F s \<Longrightarrow> p \<in> U \<Longrightarrow> p \<notin> F \<Longrightarrow> pool U (insert p F) (release p s)"
    and pool_sub: "pool U F s \<Longrightarrow> F \<subseteq> U"
begin

text \<open>
  Frames are conserved, and an allocation never returns a frame that is owned at the time.
\<close>

lemma run_conserves:
  assumes "pool U F s" and "F \<inter> own = {}" and "own \<subseteq> U"
    and "pool_run alloc release ops (s, own) = (tr, s', own')"
  shows "\<exists>F'. pool U F' s' \<and> F' \<inter> own' = {} \<and> F' \<union> own' = F \<union> own \<and> (\<forall>(p, o') \<in> set tr. p \<notin> o' \<or> p = 0)"
  using assms
proof (induction ops arbitrary: F s own tr)
  case (Cons op ops)
  show ?case
  proof (cases op)
    case PAlloc
    obtain p s1 where a: "alloc s = (p, s1)" by fastforce
    let ?own = "if p = 0 then own else insert p own"
    obtain tr1 where run: "pool_run alloc release ops (s1, ?own) = (tr1, s', own')" and tr: "tr = (p, own) # tr1"
      using Cons.prems(4) PAlloc a by (auto simp: Let_def split: prod.splits)
    show ?thesis
    proof (cases "p = 0")
      case True
      then show ?thesis
        using Cons.IH[of F s1 own tr1] alloc_none[OF Cons.prems(1)] a run tr Cons.prems by auto
    next
      case False
      then have p: "p \<in> F" "pool U (F - {p}) s1" using alloc_some[OF Cons.prems(1) a] by auto
      have "p \<notin> own" using p(1) Cons.prems(2) by blast
      moreover have "insert p own \<subseteq> U" using p(1) pool_sub[OF Cons.prems(1)] Cons.prems(3) by blast
      moreover have "(F - {p}) \<inter> insert p own = {}" using Cons.prems(2) by blast
      ultimately obtain F' where "pool U F' s'" "F' \<inter> own' = {}" "F' \<union> own' = (F - {p}) \<union> insert p own"
        "\<forall>(p, o') \<in> set tr1. p \<notin> o' \<or> p = 0"
        using Cons.IH[OF p(2), of "insert p own" tr1] run False by auto
      then show ?thesis using tr p(1) \<open>p \<notin> own\<close> by (intro exI[of _ F']) auto
    qed
  next
    case (PFree p)
    show ?thesis
    proof (cases "p \<in> own")
      case True
      then have "p \<notin> F" "p \<in> U" using Cons.prems(2,3) by auto
      then have "pool U (insert p F) (release p s)" using release_pool[OF Cons.prems(1)] by blast
      moreover have "insert p F \<inter> (own - {p}) = {}" "own - {p} \<subseteq> U" using Cons.prems(2,3) by auto
      ultimately show ?thesis
        using Cons.IH[of "insert p F" "release p s" "own - {p}" tr] Cons.prems(4) PFree True by auto
    next
      case False
      then show ?thesis using Cons PFree by auto
    qed
  qed
qed auto

end


section \<open>The boot allocator keeps the contract\<close>

definition aligned :: "u64 \<Rightarrow> bool" where
  "aligned p \<longleftrightarrow> p AND 0xfff = 0"

lemma aligned_dvd: "aligned p \<longleftrightarrow> 4096 dvd unat p"
proof -
  have "p AND 0xfff = take_bit 12 p"
    by (simp add: take_bit_eq_mask mask_eq_exp_minus_1)
  then have "unat (p AND 0xfff) = take_bit 12 (unat p)"
    by (simp only: unsigned_take_bit_eq)
  then have "unat (p AND 0xfff) = unat p mod 4096"
    by (simp only: take_bit_eq_mod) simp
  then show ?thesis
    by (metis aligned_def dvd_eq_mod_eq_0 unat_eq_0)
qed

primrec free_chain :: "(u64 \<Rightarrow> nat \<Rightarrow> u64) \<Rightarrow> u64 \<Rightarrow> u64 list \<Rightarrow> bool" where
  "free_chain m p [] \<longleftrightarrow> p = 0"
| "free_chain m p (x # xs) \<longleftrightarrow> p = x \<and> x \<noteq> 0 \<and> free_chain m (m x 0) xs"

lemma free_chain_cong: "(\<And>x. x \<in> set xs \<Longrightarrow> m' x = m x) \<Longrightarrow> free_chain m' p xs = free_chain m p xs"
  by (induction xs arbitrary: p) simp_all

lemma free_chain_zero: "free_chain m 0 xs \<longleftrightarrow> xs = []"
  by (cases xs) auto

definition bump_frames :: "pmem \<Rightarrow> u64 set" where
  "bump_frames s = {f. aligned f \<and> free_base s \<le> f \<and> unat f + 4096 \<le> unat (free_top s)}"

definition ram_frames :: "pmem \<Rightarrow> u64 set" where
  "ram_frames s = {f. aligned f \<and> ram_lo s \<le> f \<and> f < ram_hi s \<and> f \<noteq> 0}"

definition boot_pool :: "u64 set \<Rightarrow> u64 set \<Rightarrow> pmem \<Rightarrow> bool" where
  "boot_pool U F s \<longleftrightarrow>
     (\<exists>xs. free_chain (pm_mem s) (freelist s) xs \<and> distinct xs \<and> set xs \<inter> bump_frames s = {} \<and>
           F = set xs \<union> bump_frames s) \<and>
     F \<subseteq> U \<and> U \<subseteq> ram_frames s \<and> aligned (free_base s) \<and>
     unat (free_base s) + 4096 < 2 ^ 64 \<and> unat (free_top s) + 4096 < 2 ^ 64"

lemma boot_poolD:
  assumes "boot_pool U F s" and "p \<in> F"
  shows "aligned p" and "p \<noteq> 0" and "p \<in> U"
  using assms by (auto simp: boot_pool_def ram_frames_def)

lemma bump_step:
  assumes "boot_pool U F s"
  shows "free_base s + 4096 \<le> free_top s \<longleftrightarrow> free_base s \<in> bump_frames s"
    and "free_base s + 4096 \<le> free_top s \<longleftrightarrow> bump_frames s \<noteq> {}"
    and "bump_frames (s\<lparr>free_base := free_base s + 4096\<rparr>) = bump_frames s - {free_base s}"
proof -
  have u: "unat (free_base s + 4096) = unat (free_base s) + 4096"
    using assms by (simp add: boot_pool_def unat_word_ariths)
  have al: "aligned (free_base s)" using assms by (simp add: boot_pool_def)
  show a: "free_base s + 4096 \<le> free_top s \<longleftrightarrow> free_base s \<in> bump_frames s"
    using al by (simp add: bump_frames_def word_le_nat_alt u)
  show "free_base s + 4096 \<le> free_top s \<longleftrightarrow> bump_frames s \<noteq> {}"
    unfolding a by (auto simp: bump_frames_def word_le_nat_alt al)
  have "unat (free_base s) + 4096 \<le> unat f \<longleftrightarrow> unat (free_base s) \<le> unat f \<and> f \<noteq> free_base s"
    if "aligned f" for f
  proof
    assume r: "unat (free_base s) \<le> unat f \<and> f \<noteq> free_base s"
    then have lt: "unat (free_base s) < unat f"
      by (metis le_neq_implies_less unsigned_word_eqI)
    have "4096 dvd unat f - unat (free_base s)"
      using that al r by (simp add: aligned_dvd dvd_diff_nat)
    then have "4096 \<le> unat f - unat (free_base s)" using lt by (intro dvd_imp_le) simp_all
    then show "unat (free_base s) + 4096 \<le> unat f" using lt by simp
  qed auto
  then show "bump_frames (s\<lparr>free_base := free_base s + 4096\<rparr>) = bump_frames s - {free_base s}"
    by (auto simp: bump_frames_def word_le_nat_alt u)
qed

lemma falloc_cases:
  assumes "boot_pool U F s" and "falloc s = (p, s')"
  shows "p = 0 \<and> F = {} \<and> s' = s \<or> p \<in> F \<and> boot_pool U (F - {p}) s' \<and> pm_mem s' = pm_mem s"
proof -
  from assms(1) obtain xs where xs: "free_chain (pm_mem s) (freelist s) xs" "distinct xs"
    "set xs \<inter> bump_frames s = {}" "F = set xs \<union> bump_frames s"
    by (auto simp: boot_pool_def)
  note B = bump_step[OF assms(1)]
  consider (list) "freelist s \<noteq> 0" | (bump) "freelist s = 0" "free_base s + 4096 \<le> free_top s"
    | (none) "freelist s = 0" "\<not> free_base s + 4096 \<le> free_top s" by blast
  then show ?thesis
  proof cases
    case list
    then obtain ys where ys: "xs = freelist s # ys" using xs(1) by (cases xs) auto
    have p: "p = freelist s" "s' = s\<lparr>freelist := pm_mem s (freelist s) 0\<rparr>"
      using list assms(2) by (auto simp: falloc_def)
    have b: "bump_frames s' = bump_frames s" "ram_frames s' = ram_frames s"
      by (simp_all add: p bump_frames_def ram_frames_def)
    have "F - {p} = set ys \<union> bump_frames s" using xs ys p by auto
    moreover have "free_chain (pm_mem s') (freelist s') ys" using xs(1) ys p by simp
    ultimately have "boot_pool U (F - {p}) s'"
      using assms(1) xs(2,3) ys b unfolding boot_pool_def by (auto simp: p(2) intro!: exI[of _ ys])
    then show ?thesis using xs(4) ys p by simp
  next
    case bump
    have p: "p = free_base s" "s' = s\<lparr>free_base := free_base s + 4096\<rparr>"
      using bump assms(2) by (auto simp: falloc_def)
    have e: "xs = []" using xs(1) bump free_chain_zero by simp
    have u: "unat (free_base s + 4096) = unat (free_base s) + 4096"
      using assms(1) by (simp add: boot_pool_def unat_word_ariths)
    have le: "unat (free_base s) + 4096 \<le> unat (free_top s)" using bump(2) u by (simp add: word_le_nat_alt)
    have al: "aligned (free_base s + 4096)"
      using assms(1) u by (simp add: boot_pool_def aligned_dvd)
    have "boot_pool U (F - {p}) s'"
      using assms(1) bump(1) e xs(4) B(3) le u al unfolding boot_pool_def p
      by (auto simp: ram_frames_def intro!: exI[of _ "[]"])
    then show ?thesis using B(1) bump(2) xs(4) p by simp
  next
    case none
    then show ?thesis using assms(2) xs B(2) free_chain_zero by (auto simp: falloc_def)
  qed
qed

lemma pool_mem_cong:
  assumes "boot_pool U F s" and "\<And>f. f \<in> F \<Longrightarrow> m f = pm_mem s f"
  shows "boot_pool U F (s\<lparr>pm_mem := m\<rparr>)"
proof -
  have fr: "bump_frames (s\<lparr>pm_mem := m\<rparr>) = bump_frames s" "ram_frames (s\<lparr>pm_mem := m\<rparr>) = ram_frames s"
    by (simp_all add: bump_frames_def ram_frames_def)
  from assms(1) obtain xs where xs: "free_chain (pm_mem s) (freelist s) xs" "distinct xs"
    "set xs \<inter> bump_frames s = {}" "F = set xs \<union> bump_frames s"
    by (auto simp: boot_pool_def)
  have "free_chain m (freelist s) xs"
    using free_chain_cong[of xs m "pm_mem s" "freelist s"] assms(2) xs(1,4) by blast
  with xs show ?thesis
    using assms(1) fr unfolding boot_pool_def by simp blast
qed

lemma ffree_pool:
  assumes "boot_pool U F s" and "p \<in> U" and "p \<notin> F"
  shows "boot_pool U (insert p F) (ffree p s)"
proof -
  from assms(1) obtain xs where xs: "free_chain (pm_mem s) (freelist s) xs" "distinct xs"
    "set xs \<inter> bump_frames s = {}" "F = set xs \<union> bump_frames s"
    by (auto simp: boot_pool_def)
  have r: "p AND 0xfff = 0" "ram_lo s \<le> p" "p < ram_hi s" "p \<noteq> 0"
    using assms(1,2) by (auto simp: boot_pool_def ram_frames_def aligned_def)
  have "p \<noteq> freelist s" using xs(1,4) assms(3) r(4) by (cases xs) auto
  then have f: "ffree p s = (slot_set p 0 (freelist s) s)\<lparr>freelist := p\<rparr>"
    using r by (simp add: ffree_def not_less)
  have fr: "bump_frames (ffree p s) = bump_frames s" "ram_frames (ffree p s) = ram_frames s"
    by (simp_all add: f bump_frames_def ram_frames_def slot_set_def)
  have nxs: "x \<noteq> p" if "x \<in> set xs" for x using that assms(3) xs(4) by auto
  have "free_chain (pm_mem (ffree p s)) p (p # xs)"
    using xs(1) r(4) free_chain_cong[of xs "pm_mem (ffree p s)" "pm_mem s" "freelist s"] nxs
    by (simp add: f slot_set_def)
  then show ?thesis
    using assms xs fr unfolding boot_pool_def
    by (auto simp: f slot_set_def intro!: exI[of _ "p # xs"])
qed

interpretation boot: frame_pool falloc ffree boot_pool
proof unfold_locales
  fix U F s p s'
  assume pool: "boot_pool U F s"
  show "F \<subseteq> U" using pool by (simp add: boot_pool_def)
  show "F = {} \<and> boot_pool U F s'" if "falloc s = (0, s')"
    using falloc_cases[OF pool that] boot_poolD(2)[OF pool, of 0] pool by blast
  show "p \<in> F \<and> boot_pool U (F - {p}) s'" if "falloc s = (p, s')" "p \<noteq> 0"
    using falloc_cases[OF pool that(1)] that(2) by blast
  show "boot_pool U (insert p F) (ffree p s)" if "p \<in> U" "p \<notin> F"
    using ffree_pool[OF pool that] .
qed


section \<open>Page tables as trees\<close>

text \<open>The table at a path of indices below \<open>t\<close>, when every entry on the way is present.\<close>

fun tbl_at :: "pmem \<Rightarrow> u64 \<Rightarrow> nat list \<Rightarrow> u64 option" where
  "tbl_at s t [] = Some t"
| "tbl_at s t (i # is) =
     (if pm_mem s t i AND 1 = 0 then None else tbl_at s (pm_mem s t i AND NOT 0xfff) is)"

lemma tbl_at_snoc:
  "tbl_at s t (q @ [j]) =
     (case tbl_at s t q of
        None \<Rightarrow> None
      | Some u \<Rightarrow> if pm_mem s u j AND 1 = 0 then None else Some (pm_mem s u j AND NOT 0xfff))"
  by (induction q arbitrary: t) simp_all

lemma tbl_at_mem: "pm_mem s' = pm_mem s \<Longrightarrow> tbl_at s' t q = tbl_at s t q"
  by (induction q arbitrary: t) simp_all

text \<open>
  The part of an address space below the top-level entries in \<open>R\<close> is a tree: no table is
  reached along two paths, and no table is a free frame.  Top-level entries outside \<open>R\<close>
  (the mappings taken over from the boot loader) are not constrained.
\<close>

definition pt_path :: "nat set \<Rightarrow> nat list \<Rightarrow> bool" where
  "pt_path R q \<longleftrightarrow> length q \<le> 3 \<and> (\<forall>i \<in> set q. i < 512) \<and> (q = [] \<or> hd q \<in> R)"

definition pt_wf :: "nat set \<Rightarrow> u64 \<Rightarrow> u64 set \<Rightarrow> pmem \<Rightarrow> bool" where
  "pt_wf R root F s \<longleftrightarrow>
     (\<forall>p q t. pt_path R p \<longrightarrow> pt_path R q \<longrightarrow> tbl_at s root p = Some t \<longrightarrow> tbl_at s root q = Some t \<longrightarrow> p = q) \<and>
     (\<forall>p t. pt_path R p \<longrightarrow> tbl_at s root p = Some t \<longrightarrow> t \<notin> F)"

definition leaf_at :: "pmem \<Rightarrow> u64 \<Rightarrow> nat list \<Rightarrow> nat \<Rightarrow> u64 option" where
  "leaf_at s root q j =
     (case tbl_at s root q of
        None \<Rightarrow> None
      | Some u \<Rightarrow> if pm_mem s u j AND 1 = 0 then None else Some (pm_mem s u j))"

lemma pt_wf_inj:
  "pt_wf R root F s \<Longrightarrow> pt_path R p \<Longrightarrow> pt_path R q \<Longrightarrow> tbl_at s root p = Some t \<Longrightarrow>
   tbl_at s root q = Some t \<Longrightarrow> p = q"
  unfolding pt_wf_def by blast

lemma pt_wf_used: "pt_wf R root F s \<Longrightarrow> pt_path R p \<Longrightarrow> tbl_at s root p = Some t \<Longrightarrow> t \<notin> F"
  unfolding pt_wf_def by blast

lemma pt_path_butlast: "pt_path R (q @ [j]) \<Longrightarrow> pt_path R q"
  by (cases q) (auto simp: pt_path_def)

lemma entry_of_frame:
  assumes "aligned f"
  shows "(f OR tbl_flags) AND NOT 0xfff = f" and "(f OR tbl_flags) AND 1 \<noteq> 0"
proof -
  have m: "(0xfff :: u64) = mask 12" by (simp add: mask_eq_exp_minus_1)
  have fl: "tbl_flags = mask 3"
    by (simp add: tbl_flags_def MM_PRESENT_def MM_WRITE_def MM_USER_def mask_eq_exp_minus_1)
  have am: "f AND mask 12 = 0" using assms by (simp only: aligned_def m)
  have low: "\<not> bit f n" if "n < 12" for n
  proof
    assume "bit f n"
    then have "bit (f AND mask 12) n" using that by (simp add: bit_simps)
    then show False using am by simp
  qed
  show "(f OR tbl_flags) AND NOT 0xfff = f"
    unfolding m fl by (rule bit_word_eqI) (use low in \<open>auto simp: bit_simps\<close>)
  have "bit ((f OR tbl_flags) AND 1) 0" by (simp add: fl bit_simps)
  then show "(f OR tbl_flags) AND 1 \<noteq> 0" by (metis bit_0_eq bot_apply bot_bool_def)
qed

text \<open>Installing a fresh zeroed table under an absent entry.\<close>

definition add_table :: "u64 \<Rightarrow> nat \<Rightarrow> u64 \<Rightarrow> pmem \<Rightarrow> pmem" where
  "add_table t i f s = slot_set t i (f OR tbl_flags) (zero_frame f s)"

lemma add_table_mem:
  assumes "t \<noteq> f"
  shows "pm_mem (add_table t i f s) u j =
    (if u = t \<and> j = i then f OR tbl_flags else if u = f \<and> j < 512 then 0 else pm_mem s u j)"
  using assms by (auto simp: add_table_def slot_set_def zero_frame_def)

lemma add_table_at:
  assumes wf: "pt_wf R root F s" and f: "f \<in> F" "aligned f"
    and p: "pt_path R (p @ [i])" "tbl_at s root p = Some t" and abs: "pm_mem s t i AND 1 = 0"
    and q: "pt_path R q"
  shows "tbl_at (add_table t i f s) root q =
    (if q = p @ [i] then Some f else if take (length p + 1) q = p @ [i] then None else tbl_at s root q)"
  using q
proof (induction q rule: rev_induct)
  case (snoc j q)
  have pq: "pt_path R q" using snoc.prems by (rule pt_path_butlast)
  have pp: "pt_path R p" using p(1) by (rule pt_path_butlast)
  have tf: "t \<noteq> f" using pt_wf_used[OF wf pp p(2)] f(1) by blast
  note M = add_table_mem[OF tf, of i s]
  have j: "j < 512" using snoc.prems by (simp add: pt_path_def)
  consider (at) "q = p @ [i]" | (below) "q \<noteq> p @ [i]" "take (length p + 1) q = p @ [i]"
    | (other) "take (length p + 1) q \<noteq> p @ [i]" by blast
  then show ?case
  proof cases
    case at
    then have "tbl_at (add_table t i f s) root q = Some f" using snoc.IH[OF pq] by simp
    then have "tbl_at (add_table t i f s) root (q @ [j]) = None"
      using tf j by (simp add: tbl_at_snoc[of _ _ q] M)
    then show ?thesis using at by simp
  next
    case below
    then have "length p + 1 < length q" by (metis length_append_singleton length_take min.absorb1 nat_neq_iff
      not_le_imp_less take_all_iff Suc_eq_plus1 min_less_iff_conj)
    then show ?thesis using below snoc.IH[OF pq] by (auto simp: tbl_at_snoc)
  next
    case other
    then have ih: "tbl_at (add_table t i f s) root q = tbl_at s root q" using snoc.IH[OF pq] by auto
    show ?thesis
    proof (cases "tbl_at s root q")
      case None
      then have "q \<noteq> p" using p(2) by auto
      moreover have "take (length p + 1) (q @ [j]) \<noteq> p @ [i]"
        using other \<open>q \<noteq> p\<close> by (cases "length q \<le> length p") auto
      ultimately show ?thesis using None ih by (simp add: tbl_at_snoc)
    next
      case (Some u)
      have uf: "u \<noteq> f" using pt_wf_used[OF wf pq Some] f(1) by blast
      have ut: "u = t \<longleftrightarrow> q = p"
        using pt_wf_inj[OF wf pq pp Some] Some p(2) by auto
      show ?thesis
      proof (cases "q @ [j] = p @ [i]")
        case True
        then show ?thesis
          using Some ih ut entry_of_frame[OF f(2)] by (simp add: tbl_at_snoc M)
      next
        case False
        then have "take (length p + 1) (q @ [j]) \<noteq> p @ [i]"
          using other by (cases "length q \<le> length p") auto
        then show ?thesis
          using False Some ih ut uf by (auto simp: tbl_at_snoc M)
      qed
    qed
  qed
qed simp


lemma add_table_wf:
  assumes wf: "pt_wf R root F s" and f: "f \<in> F" "aligned f"
    and p: "pt_path R (p @ [i])" "tbl_at s root p = Some t" and abs: "pm_mem s t i AND 1 = 0"
  shows "pt_wf R root (F - {f}) (add_table t i f s)"
proof -
  note T = add_table_at[OF assms]
  have old: "tbl_at s root q = Some u \<and> u \<noteq> f"
    if "pt_path R q" "tbl_at (add_table t i f s) root q = Some u" "q \<noteq> p @ [i]" for q u
    using that T[OF that(1)] pt_wf_used[OF wf that(1)] f(1) by (auto split: if_splits)
  have new: "u = f" if "tbl_at (add_table t i f s) root (p @ [i]) = Some u" for u
    using that T[OF p(1)] by simp
  show ?thesis
    unfolding pt_wf_def
  proof (intro conjI allI impI)
    fix q q' u
    assume a: "pt_path R q" "pt_path R q'" "tbl_at (add_table t i f s) root q = Some u"
      "tbl_at (add_table t i f s) root q' = Some u"
    show "q = q'"
      using old[OF a(1,3)] old[OF a(2,4)] new a pt_wf_inj[OF wf a(1,2)] by metis
  next
    fix q u
    assume a: "pt_path R q" "tbl_at (add_table t i f s) root q = Some u"
    show "u \<notin> F - {f}"
      using old[OF a] new a pt_wf_used[OF wf a(1)] by (cases "q = p @ [i]") auto
  qed
qed

lemma add_table_leaf:
  assumes wf: "pt_wf R root F s" and f: "f \<in> F" "aligned f"
    and p: "pt_path R (p @ [i])" "tbl_at s root p = Some t" and abs: "pm_mem s t i AND 1 = 0"
    and q: "pt_path R q" "length q = 3" and j: "j < 512"
  shows "leaf_at (add_table t i f s) root q j = leaf_at s root q j"
proof -
  have pp: "pt_path R p" using p(1) by (rule pt_path_butlast)
  have tf: "t \<noteq> f" using pt_wf_used[OF wf pp p(2)] f(1) by blast
  have len: "length p < 3" using p(1) by (simp add: pt_path_def)
  note T = add_table_at[OF assms(1-6) q(1)] and M = add_table_mem[OF tf, of i s]
  have gone: "tbl_at s root q' = None" if "take (length p + 1) q' = p @ [i]" for q'
  proof -
    have "tbl_at s root (p @ [i] @ r) = None" for r
    proof (induction r rule: rev_induct)
      case Nil
      then show ?case using p(2) abs by (simp add: tbl_at_snoc)
    next
      case (snoc x r)
      then show ?case using tbl_at_snoc[of s root "p @ [i] @ r" x] by simp
    qed
    moreover have "q' = p @ [i] @ drop (length p + 1) q'"
      using that append_take_drop_id[of "length p + 1" q'] by (metis append.assoc)
    ultimately show ?thesis by metis
  qed
  show ?thesis
  proof (cases "take (length p + 1) q = p @ [i]")
    case True
    then show ?thesis using T gone[OF True] tf j by (auto simp: leaf_at_def M split: if_splits)
  next
    case False
    then have qi: "q \<noteq> p @ [i]" by auto
    show ?thesis
    proof (cases "tbl_at s root q")
      case (Some u)
      have "u \<noteq> t" using pt_wf_inj[OF wf q(1) pp Some] p(2) q(2) len by auto
      moreover have "u \<noteq> f" using pt_wf_used[OF wf q(1) Some] f(1) by blast
      ultimately show ?thesis using T False qi Some by (simp add: leaf_at_def M)
    qed (use T False qi in \<open>simp add: leaf_at_def\<close>)
  qed
qed

lemma add_table_pool:
  assumes "boot_pool U F s" and "falloc s = (f, s1)" and "f \<noteq> 0" and "t \<notin> F"
  shows "boot_pool U (F - {f}) (add_table t i f s1)" and "f \<in> F" and "aligned f" and "pm_mem s1 = pm_mem s"
proof -
  have c: "f \<in> F" "boot_pool U (F - {f}) s1" "pm_mem s1 = pm_mem s"
    using falloc_cases[OF assms(1,2)] assms(3) by auto
  then show "f \<in> F" "pm_mem s1 = pm_mem s" "aligned f" using boot_poolD(1)[OF assms(1)] by auto
  have "boot_pool U (F - {f}) (s1\<lparr>pm_mem := pm_mem (add_table t i f s1)\<rparr>)"
    using c(1) assms(4) by (intro pool_mem_cong[OF c(2)]) (auto simp: add_table_def slot_set_def zero_frame_def)
  then show "boot_pool U (F - {f}) (add_table t i f s1)"
    by (simp add: add_table_def slot_set_def zero_frame_def)
qed

lemma walk_levels_lookup: "walk_levels False va ls t s = (tbl_at s t (map (va_idx va) ls), s)"
  by (induction ls arbitrary: t) (simp_all add: Let_def)

lemma va_idx_less: "va_idx va lvl < 512"
proof -
  have "drop_bit lvl va AND 0x1ff = take_bit 9 (drop_bit lvl va)"
    by (simp add: take_bit_eq_mask mask_eq_exp_minus_1)
  then have "unat (drop_bit lvl va AND 0x1ff) = take_bit 9 (unat (drop_bit lvl va))"
    by (simp only: unsigned_take_bit_eq)
  then show ?thesis by (simp add: va_idx_def take_bit_eq_mod)
qed

text \<open>Walking with creation: a tree again, the leaves untouched, the table at the path.\<close>

lemma walk_levels_create:
  assumes "boot_pool U F s" and "pt_wf R root F s" and "tbl_at s root p = Some t"
    and "pt_path R (p @ map (va_idx va) ls)" and "walk_levels True va ls t s = (r, s')"
  shows "\<exists>F'. boot_pool U F' s' \<and> pt_wf R root F' s' \<and>
    (\<forall>t'. r = Some t' \<longrightarrow> tbl_at s' root (p @ map (va_idx va) ls) = Some t') \<and>
    (\<forall>q j. pt_path R q \<longrightarrow> length q = 3 \<longrightarrow> j < 512 \<longrightarrow> leaf_at s' root q j = leaf_at s root q j)"
  using assms
proof (induction ls arbitrary: p t s F)
  case (Cons lvl ls)
  let ?i = "va_idx va lvl"
  have path: "pt_path R (p @ [?i])" "pt_path R ((p @ [?i]) @ map (va_idx va) ls)"
    using Cons.prems(4) by (auto simp: pt_path_def hd_append split: if_splits)
  have t: "t \<notin> F" using pt_wf_used[OF Cons.prems(2) pt_path_butlast[OF path(1)] Cons.prems(3)] .
  show ?case
  proof (cases "pm_mem s t ?i AND 1 = 0")
    case True
    obtain f s1 where f: "falloc s = (f, s1)" by fastforce
    show ?thesis
    proof (cases "f = 0")
      case True
      then have "s1 = s" using falloc_cases[OF Cons.prems(1) f] boot_poolD(2)[OF Cons.prems(1)] by blast
      then have "r = None" "s' = s"
        using Cons.prems(5) f True \<open>pm_mem s t ?i AND 1 = 0\<close> by (auto simp: Let_def)
      then show ?thesis using Cons.prems(1,2) by auto
    next
      case False
      note A = add_table_pool(1)[OF Cons.prems(1) f False t, of ?i]
        add_table_pool(2-4)[OF Cons.prems(1) f False t]
      let ?s = "add_table t ?i f s1"
      have wf1: "pt_wf R root F s1" and at1: "tbl_at s1 root p = Some t" and ab1: "pm_mem s1 t ?i AND 1 = 0"
        using Cons.prems(2,3) True A(4) tbl_at_mem[OF A(4)] by (simp_all add: pt_wf_def)
      have e: "pm_mem ?s t ?i AND NOT 0xfff = f"
        using entry_of_frame(1)[OF A(3)] by (simp add: add_table_def slot_set_def)
      have w: "walk_levels True va ls f ?s = (r, s')"
        using Cons.prems(5) f False True e by (simp add: Let_def add_table_def)
      have at: "tbl_at ?s root (p @ [?i]) = Some f"
        using add_table_at[OF wf1 A(2,3) path(1) at1 ab1 path(1)] by simp
      obtain F' where F': "boot_pool U F' s'" "pt_wf R root F' s'"
        "\<And>t'. r = Some t' \<Longrightarrow> tbl_at s' root ((p @ [?i]) @ map (va_idx va) ls) = Some t'"
        "\<And>q j. pt_path R q \<Longrightarrow> length q = 3 \<Longrightarrow> j < 512 \<Longrightarrow> leaf_at s' root q j = leaf_at ?s root q j"
        using Cons.IH[OF A(1) add_table_wf[OF wf1 A(2,3) path(1) at1 ab1] at path(2) w] by blast
      have "leaf_at ?s root q j = leaf_at s root q j" if "pt_path R q" "length q = 3" "j < 512" for q j
        using add_table_leaf[OF wf1 A(2,3) path(1) at1 ab1 that] A(4) tbl_at_mem[OF A(4)]
        by (simp add: leaf_at_def split: option.splits)
      then show ?thesis using F' by (intro exI[of _ F']) simp
    qed
  next
    case False
    then have at: "tbl_at s root (p @ [?i]) = Some (pm_mem s t ?i AND NOT 0xfff)"
      using Cons.prems(3) by (simp add: tbl_at_snoc)
    have "walk_levels True va ls (pm_mem s t ?i AND NOT 0xfff) s = (r, s')"
      using Cons.prems(5) False by (simp add: Let_def)
    from Cons.IH[OF Cons.prems(1,2) at path(2) this] show ?thesis by simp
  qed
qed auto


section \<open>Mapping and translating\<close>

definition va_path :: "u64 \<Rightarrow> nat list" where
  "va_path va = map (va_idx va) [39, 30, 21]"

definition same_page :: "u64 \<Rightarrow> u64 \<Rightarrow> bool" where
  "same_page va va' \<longleftrightarrow> drop_bit 12 (take_bit 48 va) = drop_bit 12 (take_bit 48 va')"

lemma va_path_ok: "va_idx va 39 \<in> R \<Longrightarrow> pt_path R (va_path va)" "length (va_path va) = 3"
  using va_idx_less[of va] by (auto simp: pt_path_def va_path_def)

lemma va_idx_bits:
  assumes "va_idx va lvl = va_idx va' lvl" and "k < 9"
  shows "bit va (lvl + k) = bit va' (lvl + k)"
proof -
  have m: "(0x1ff :: u64) = mask 9" by (simp add: mask_eq_exp_minus_1)
  have "drop_bit lvl va AND mask 9 = drop_bit lvl va' AND mask 9"
    using assms(1) unfolding va_idx_def m by (metis unsigned_word_eqI)
  then have "bit (drop_bit lvl va AND mask 9) k = bit (drop_bit lvl va' AND mask 9) k" by simp
  then show ?thesis using assms(2) by (simp add: bit_simps)
qed

lemma same_page_idx:
  assumes "va_path va = va_path va'" and "va_idx va 12 = va_idx va' 12"
  shows "same_page va va'"
proof -
  have "bit va n = bit va' n" if "12 \<le> n" "n < 48" for n
  proof -
    have i: "va_idx va l = va_idx va' l" if "l \<in> {39, 30, 21, 12}" for l
      using that assms by (auto simp: va_path_def)
    have "\<exists>l k. l \<in> {39, 30, 21, 12} \<and> k < 9 \<and> n = l + k"
    proof -
      consider "n < 21" | "21 \<le> n" "n < 30" | "30 \<le> n" "n < 39" | "39 \<le> n" by linarith
      then show ?thesis
      proof cases
        case 1 with that show ?thesis by (intro exI[of _ 12] exI[of _ "n - 12"]) auto
      next
        case 2 with that show ?thesis by (intro exI[of _ 21] exI[of _ "n - 21"]) auto
      next
        case 3 with that show ?thesis by (intro exI[of _ 30] exI[of _ "n - 30"]) auto
      next
        case 4 with that show ?thesis by (intro exI[of _ 39] exI[of _ "n - 39"]) auto
      qed
    qed
    then show ?thesis using va_idx_bits i by blast
  qed
  then show ?thesis
    unfolding same_page_def by (intro bit_word_eqI) (auto simp: bit_simps)
qed

lemma mm_resolve_leaf:
  "mm_resolve root va s =
     (case leaf_at s root (va_path va) (va_idx va 12) of
        None \<Rightarrow> 0 | Some e \<Rightarrow> (e AND NOT 0xfff) OR (va AND 0xfff))"
  unfolding mm_resolve_def mm_pte_def mm_walk_def leaf_at_def va_path_def walk_levels_lookup
  by (simp split: option.splits)

text \<open>Writing an entry of a last-level table.\<close>

lemma leaf_set:
  assumes wf: "pt_wf R root F s" and p: "pt_path R p" "length p = 3" "tbl_at s root p = Some t"
  shows "pt_path R q \<Longrightarrow> tbl_at (slot_set t i v s) root q = tbl_at s root q"
    and "pt_path R q \<Longrightarrow> length q = 3 \<Longrightarrow> leaf_at (slot_set t i v s) root q j =
      (if q = p \<and> j = i then (if v AND 1 = 0 then None else Some v) else leaf_at s root q j)"
    and "pt_wf R root F (slot_set t i v s)"
proof -
  have T: "tbl_at (slot_set t i v s) root q = tbl_at s root q" if "pt_path R q" for q
    using that
  proof (induction q rule: rev_induct)
    case (snoc k q)
    have pq: "pt_path R q" using snoc.prems by (rule pt_path_butlast)
    show ?case
    proof (cases "tbl_at s root q")
      case (Some u)
      have "u \<noteq> t"
        using pt_wf_inj[OF wf pq p(1) Some] p snoc.prems by (auto simp: pt_path_def)
      then show ?thesis using Some snoc.IH[OF pq] by (simp add: tbl_at_snoc slot_set_def)
    qed (use snoc.IH[OF pq] in \<open>simp add: tbl_at_snoc\<close>)
  qed simp
  then show "pt_path R q \<Longrightarrow> tbl_at (slot_set t i v s) root q = tbl_at s root q" .
  show "leaf_at (slot_set t i v s) root q j =
      (if q = p \<and> j = i then (if v AND 1 = 0 then None else Some v) else leaf_at s root q j)"
    if "pt_path R q" "length q = 3"
  proof (cases "tbl_at s root q")
    case None
    then show ?thesis using T[OF that(1)] p(3) by (auto simp: leaf_at_def)
  next
    case (Some u)
    have "u = t \<longleftrightarrow> q = p" using pt_wf_inj[OF wf that(1) p(1) Some] Some p(3) by auto
    then show ?thesis using T[OF that(1)] Some by (auto simp: leaf_at_def slot_set_def)
  qed
  show "pt_wf R root F (slot_set t i v s)"
    using wf T unfolding pt_wf_def by auto
qed

lemma mm_map_cases:
  assumes pool: "boot_pool U F s" and wf: "pt_wf R root F s" and va: "va_idx va 39 \<in> R"
    and m: "mm_map root va pa flags s = (ok, s')"
  shows "\<exists>F'. boot_pool U F' s' \<and> pt_wf R root F' s' \<and>
    (\<forall>q j. pt_path R q \<longrightarrow> length q = 3 \<longrightarrow> j < 512 \<longrightarrow> leaf_at s' root q j =
       (if ok \<and> q = va_path va \<and> j = va_idx va 12 then Some ((pa AND NOT 0xfff) OR flags OR 1)
        else leaf_at s root q j))"
proof -
  obtain r s1 where w: "walk_levels True va [39, 30, 21] root s = (r, s1)" by fastforce
  note vp = va_path_ok(1)[OF va] va_path_ok(2)[of va]
  have "pt_path R ([] @ map (va_idx va) [39, 30, 21])" using vp by (simp add: va_path_def)
  from walk_levels_create[OF pool wf _ this w] obtain F' where F': "boot_pool U F' s1" "pt_wf R root F' s1"
    "\<And>t'. r = Some t' \<Longrightarrow> tbl_at s1 root (va_path va) = Some t'"
    "\<And>q j. pt_path R q \<Longrightarrow> length q = 3 \<Longrightarrow> j < 512 \<Longrightarrow> leaf_at s1 root q j = leaf_at s root q j"
    by (auto simp: va_path_def)
  show ?thesis
  proof (cases r)
    case None
    then have "\<not> ok" "s' = s1" using m w by (auto simp: mm_map_def mm_walk_def)
    then show ?thesis using F' by auto
  next
    case (Some t)
    let ?v = "(pa AND NOT 0xfff) OR flags OR 1"
    have s': "ok" "s' = slot_set t (va_idx va 12) ?v s1"
      using m w Some by (auto simp: mm_map_def mm_walk_def MM_PRESENT_def)
    have v: "?v AND 1 \<noteq> 0"
    proof -
      have "bit (?v AND 1) 0" by (simp add: bit_simps)
      then show ?thesis by (metis bit_0_eq bot_apply bot_bool_def)
    qed
    note L = leaf_set[OF F'(2) vp(1) vp(2) F'(3)[OF Some]]
    have "t \<notin> F'" using pt_wf_used[OF F'(2) vp(1) F'(3)[OF Some]] .
    then have "boot_pool U F' s'"
      unfolding s'(2) slot_set_def by (intro pool_mem_cong[OF F'(1)]) auto
    then show ?thesis
      using L(2,3) F'(4) v s' by (intro exI[of _ F']) auto
  qed
qed


lemma mm_map_effect:
  assumes "boot_pool U F s" and "pt_wf R root F s" and "va_idx va 39 \<in> R"
    and "flags AND NOT 0xfff = 0" and "mm_map root va pa flags s = (ok, s')"
  shows "(ok \<longrightarrow> mm_resolve root va s' = (pa AND NOT 0xfff) OR (va AND 0xfff)) \<and>
    (\<forall>va'. va_idx va' 39 \<in> R \<longrightarrow> \<not> ok \<or> \<not> same_page va va' \<longrightarrow>
        mm_resolve root va' s' = mm_resolve root va' s) \<and>
    (\<exists>F'. boot_pool U F' s' \<and> pt_wf R root F' s')"
proof -
  obtain F' where F': "boot_pool U F' s'" "pt_wf R root F' s'"
    and L: "\<And>q j. pt_path R q \<Longrightarrow> length q = 3 \<Longrightarrow> j < 512 \<Longrightarrow> leaf_at s' root q j =
       (if ok \<and> q = va_path va \<and> j = va_idx va 12 then Some ((pa AND NOT 0xfff) OR flags OR 1)
        else leaf_at s root q j)"
    using mm_map_cases[OF assms(1-3,5)] by blast
  have l: "leaf_at s' root (va_path v) (va_idx v 12) =
      (if ok \<and> va_path v = va_path va \<and> va_idx v 12 = va_idx va 12
       then Some ((pa AND NOT 0xfff) OR flags OR 1) else leaf_at s root (va_path v) (va_idx v 12))"
    if "va_idx v 39 \<in> R" for v
    using L[OF va_path_ok(1)[OF that] va_path_ok(2) va_idx_less] .
  have e: "((pa AND NOT 0xfff) OR flags OR 1) AND NOT 0xfff = pa AND NOT 0xfff"
  proof -
    have "(1 :: u64) AND NOT 0xfff = 0" by simp
    then show ?thesis
      using assms(4) by (simp add: bit.conj_disj_distrib2 and.assoc)
  qed
  have "mm_resolve root va s' = (pa AND NOT 0xfff) OR (va AND 0xfff)" if "ok"
    using l[OF assms(3)] that e by (simp add: mm_resolve_leaf)
  moreover have "mm_resolve root va' s' = mm_resolve root va' s"
    if "va_idx va' 39 \<in> R" "\<not> ok \<or> \<not> same_page va va'" for va'
  proof -
    have "\<not> (ok \<and> va_path va' = va_path va \<and> va_idx va' 12 = va_idx va 12)"
      using that(2) same_page_idx[of va va'] by auto
    then have "leaf_at s' root (va_path va') (va_idx va' 12) = leaf_at s root (va_path va') (va_idx va' 12)"
      unfolding l[OF that(1)] by (simp only: if_False)
    then show ?thesis by (simp only: mm_resolve_leaf)
  qed
  ultimately show ?thesis using F' by blast
qed

section \<open>Properties\<close>

text \<open>
  C25: a mapping changes exactly one page.  In an address space whose private part is a
  tree of tables, a successful map makes the page translate to the given frame with the
  offset kept, every other page of the private part translates as before, a failed map
  (out of frames in the middle of the walk) changes no translation, and the tables are
  again a tree built from frames that were free.
\<close>

theorem mm_map_one_page:
  assumes "boot_pool U F s" and "pt_wf R root F s" and "va_idx va 39 \<in> R"
    and "flags AND NOT 0xfff = 0" and "mm_map root va pa flags s = (ok, s')"
  shows "(ok \<longrightarrow> mm_resolve root va s' = (pa AND NOT 0xfff) OR (va AND 0xfff)) \<and>
    (\<forall>va'. va_idx va' 39 \<in> R \<longrightarrow> \<not> ok \<or> \<not> same_page va va' \<longrightarrow>
        mm_resolve root va' s' = mm_resolve root va' s) \<and>
    (\<exists>F'. boot_pool U F' s' \<and> pt_wf R root F' s')"
  using assms by (rule mm_map_effect)

text \<open>A machine with frames 1 to 16 in RAM, the root table in frame 1 and the rest free.\<close>

definition ex_pm :: pmem where
  "ex_pm = \<lparr>pm_mem = \<lambda>_ _. 0, free_base = 0x2000, free_top = 0x11000, freelist = 0,
            ram_lo = 0x1000, ram_hi = 0x11000\<rparr>"

lemma ex_pool: "boot_pool (ram_frames ex_pm) (bump_frames ex_pm) ex_pm"
  by (auto simp: boot_pool_def ex_pm_def bump_frames_def ram_frames_def aligned_def word_le_nat_alt
        word_less_nat_alt intro!: exI[of _ "[]"])

lemma ex_wf: "pt_wf UNIV 0x1000 (bump_frames ex_pm) ex_pm"
proof -
  have "tbl_at ex_pm 0x1000 q = (if q = [] then Some 0x1000 else None)" for q
    by (cases q) (simp_all add: ex_pm_def)
  then show ?thesis by (auto simp: pt_wf_def bump_frames_def ex_pm_def split: if_splits)
qed

theorem mm_map_one_page_witness:
  "\<exists>s'. mm_map 0x1000 0x40000123 0x9000 MM_WRITE ex_pm = (True, s') \<and>
     mm_resolve 0x1000 0x40000123 s' = 0x9123 \<and> mm_resolve 0x1000 0x40001000 s' = 0"
proof -
  have ok: "fst (mm_map 0x1000 0x40000123 0x9000 MM_WRITE ex_pm)"
    by code_simp
  obtain s' where m: "mm_map 0x1000 0x40000123 0x9000 MM_WRITE ex_pm = (True, s')"
    using ok by (cases "mm_map 0x1000 0x40000123 0x9000 MM_WRITE ex_pm") auto
  have fl: "MM_WRITE AND NOT 0xfff = 0" by (simp add: MM_WRITE_def)
  have np: "\<not> same_page 0x40000123 0x40001000" by code_simp
  have z: "mm_resolve 0x1000 0x40001000 ex_pm = 0" by code_simp
  note t = mm_map_one_page[OF ex_pool ex_wf UNIV_I fl m]
  have "mm_resolve 0x1000 0x40000123 s' = 0x9123" using t by simp
  moreover have "mm_resolve 0x1000 0x40001000 s' = 0" using t np z by simp
  ultimately show ?thesis using m by blast
qed

text \<open>
  no double allocation.  Over any sequence of allocations and of releases of owned
  frames, the boot allocator conserves the frames (free and owned partition the same set)
  and never returns a frame that is owned at the time.
\<close>

theorem falloc_no_double_allocation:
  assumes "boot_pool U F s" and "F \<inter> own = {}" and "own \<subseteq> U"
    and "pool_run falloc ffree ops (s, own) = (tr, s', own')"
  shows "\<exists>F'. boot_pool U F' s' \<and> F' \<inter> own' = {} \<and> F' \<union> own' = F \<union> own \<and>
    (\<forall>(p, o') \<in> set tr. p \<notin> o' \<or> p = 0)"
  using boot.run_conserves[OF assms] .

theorem falloc_no_double_allocation_witness:
  "\<exists>tr s' own' F'. pool_run falloc ffree [PAlloc, PAlloc, PFree 0x2000, PAlloc] (ex_pm, {}) = (tr, s', own') \<and>
     F' \<inter> own' = {} \<and> F' \<union> own' = bump_frames ex_pm"
proof -
  obtain tr s' own' where run:
    "pool_run falloc ffree [PAlloc, PAlloc, PFree 0x2000, PAlloc] (ex_pm, {}) = (tr, s', own')"
    by (metis prod_cases3)
  from falloc_no_double_allocation[OF ex_pool _ _ run] run show ?thesis by auto
qed

text \<open>
  A frame released twice with another release in between is on the free list twice, and two
  later allocations return it to two owners.
\<close>

lemma ffree_double_release:
  "let s = ffree 0x2000 (ffree 0x3000 (ffree 0x2000 (ex_pm\<lparr>free_base := 0x11000\<rparr>)));
       (a, s1) = falloc s; (b, s2) = falloc s1; (c, s3) = falloc s2
   in a = 0x2000 \<and> b = 0x3000 \<and> c = 0x2000"
  by code_simp

end
