(* ===== verification/Residency.thy ===== *)
theory Residency
  imports PhysMem ObjectStore
begin

text \<open>
  The residency manager of \<^verbatim>\<open>kernel/kernel.c\<close> (M0, M2, M3): the frame database over a
  bounded pool, materialisation of an object by hash with sharing of the resident frame,
  logical reference drops, writeback and the clock eviction.  Frame contents are byte
  lists indexed by the physical address of the frame; the free stack is the list of free
  frame numbers with its top first; the resident set is the list of its used entries.
  The digest is a parameter.  Cycle counters and messages are not modelled.
\<close>

section \<open>State\<close>

datatype frame_state = FR_FREE | FR_RESIDENT | FR_PINNED

record frame_rec =
  fr_state :: frame_state
  fr_dirty :: bool
  fr_has_hash :: bool
  fr_clock_ref :: bool
  fr_refcount :: u32
  fr_hash :: bytes

record rset_ent =
  rs_ehash :: bytes
  rs_frame :: u64
  rs_live :: bool

record rmgr =
  framedb :: "frame_rec list"
  fdb_base :: u64
  fdb_n :: nat
  fdb_free :: "nat list"
  fdb_reserve_fail :: u64
  fdb_pool_ready :: bool
  fdata :: "u64 \<Rightarrow> bytes"
  rm_store :: cvsasx_store
  rset :: "rset_ent list"
  rm_faults :: u64
  rm_hits :: u64
  rm_bytes :: u64
  rm_evictions :: u64
  rm_writebacks :: u64
  clock_hand :: nat

definition FRAMEDB_N :: nat where "FRAMEDB_N = 256"
definition RSET_MAX :: nat where "RSET_MAX = 64"

section \<open>The frame database\<close>

definition fr_idx :: "rmgr \<Rightarrow> u64 \<Rightarrow> nat" where
  "fr_idx s pa = unat (drop_bit 12 (pa - fdb_base s))"

definition fr_phys :: "rmgr \<Rightarrow> nat \<Rightarrow> u64" where
  "fr_phys s i = fdb_base s + push_bit 12 (word_of_nat i)"

definition fr_tracked :: "rmgr \<Rightarrow> u64 \<Rightarrow> bool" where
  "fr_tracked s pa = (if pa < fdb_base s then False else fr_idx s pa < fdb_n s)"

definition framedb_counts :: "rmgr \<Rightarrow> nat \<times> nat \<times> nat" where
  "framedb_counts s =
     (let st = map (\<lambda>i. fr_state (framedb s ! i)) [0..<fdb_n s]
      in (length (filter (\<lambda>x. x = FR_FREE) st), length (filter (\<lambda>x. x = FR_RESIDENT) st),
          length (filter (\<lambda>x. x = FR_PINNED) st)))"

definition upd_frame :: "nat \<Rightarrow> (frame_rec \<Rightarrow> frame_rec) \<Rightarrow> rmgr \<Rightarrow> rmgr" where
  "upd_frame i g s = s\<lparr>framedb := (framedb s)[i := g (framedb s ! i)]\<rparr>"

text \<open>The carving loop of \<^verbatim>\<open>framedb_init\<close>: contiguous frames from the boot allocator.\<close>

primrec carve :: "nat \<Rightarrow> u64 \<Rightarrow> nat \<Rightarrow> pmem \<Rightarrow> nat \<times> pmem" where
  "carve 0 prev n pm = (n, pm)"
| "carve (Suc k) prev n pm =
     (case falloc pm of (p, pm') \<Rightarrow>
        (if p = 0 then (n, pm') else if p \<noteq> prev + 4096 then (n, pm') else carve k p (n + 1) pm'))"

definition fresh_rec :: frame_rec where
  "fresh_rec = \<lparr>fr_state = FR_FREE, fr_dirty = False, fr_has_hash = False, fr_clock_ref = False,
                fr_refcount = 0, fr_hash = replicate 32 0\<rparr>"

definition framedb_reset :: "rmgr \<Rightarrow> rmgr" where
  "framedb_reset s =
     s\<lparr>framedb := replicate (fdb_n s) fresh_rec @ drop (fdb_n s) (framedb s),
       fdb_free := [0..<fdb_n s], fdb_reserve_fail := 0\<rparr>"

definition framedb_init :: "rmgr \<Rightarrow> pmem \<Rightarrow> rmgr \<times> pmem" where
  "framedb_init s pm =
     (let (s1, pm1) =
        (if fdb_pool_ready s then (s, pm)
         else (case falloc pm of (first, pm') \<Rightarrow>
                 (case carve (FRAMEDB_N - 1) first 1 pm' of
                    (n, pm'') \<Rightarrow> (s\<lparr>fdb_base := first, fdb_n := n, fdb_pool_ready := True\<rparr>, pm''))))
      in (framedb_reset s1, pm1))"

definition frame_reserve :: "rmgr \<Rightarrow> u64 \<times> rmgr" where
  "frame_reserve s =
     (case fdb_free s of
        [] \<Rightarrow> (0, s\<lparr>fdb_reserve_fail := fdb_reserve_fail s + 1\<rparr>)
      | i # rest \<Rightarrow>
          (let s1 = s\<lparr>fdb_free := rest\<rparr>
           in if fr_state (framedb s ! i) \<noteq> FR_FREE then (0, s1)
              else (fr_phys s i,
                    upd_frame i (\<lambda>r. r\<lparr>fr_state := FR_RESIDENT, fr_refcount := 1, fr_has_hash := False,
                                       fr_dirty := False, fr_clock_ref := True\<rparr>) s1)))"

definition frame_release_physical :: "u64 \<Rightarrow> rmgr \<Rightarrow> rmgr" where
  "frame_release_physical pa s =
     (if \<not> fr_tracked s pa then s
      else
        (let i = fr_idx s pa
         in if fr_state (framedb s ! i) = FR_FREE then s
            else (upd_frame i (\<lambda>r. r\<lparr>fr_state := FR_FREE, fr_refcount := 0, fr_has_hash := False,
                                     fr_dirty := False, fr_clock_ref := False\<rparr>) s)
                 \<lparr>fdb_free := i # fdb_free s\<rparr>))"

section \<open>The resident set\<close>

definition rset_find :: "bytes \<Rightarrow> rmgr \<Rightarrow> nat option" where
  "rset_find h s =
     List.find (\<lambda>i. rs_live (rset s ! i) \<and> cvsasx_hash_eq (rs_ehash (rset s ! i)) h) [0..<length (rset s)]"

definition rset_add :: "bytes \<Rightarrow> u64 \<Rightarrow> rmgr \<Rightarrow> nat option \<times> rmgr" where
  "rset_add h frame s =
     (let e = \<lparr>rs_ehash = h, rs_frame = frame, rs_live = True\<rparr>
      in case List.find (\<lambda>i. \<not> rs_live (rset s ! i)) [0..<length (rset s)] of
           Some i \<Rightarrow> (Some i, s\<lparr>rset := (rset s)[i := e]\<rparr>)
         | None \<Rightarrow> (if length (rset s) < RSET_MAX then (Some (length (rset s)), s\<lparr>rset := rset s @ [e]\<rparr>)
                    else (None, s)))"

section \<open>Materialise, writeback, drop, evict\<close>

definition rm_materialize :: "(bytes \<Rightarrow> bytes) \<Rightarrow> bytes \<Rightarrow> rmgr \<Rightarrow> u64 \<times> rmgr" where
  "rm_materialize H h s =
     (case rset_find h s of
        Some e \<Rightarrow>
          (let fp = rs_frame (rset s ! e)
           in (fp, (upd_frame (fr_idx s fp)
                      (\<lambda>r. r\<lparr>fr_refcount := fr_refcount r + 1, fr_clock_ref := True\<rparr>) s)
                   \<lparr>rm_hits := rm_hits s + 1\<rparr>))
      | None \<Rightarrow>
          (let s1 = s\<lparr>rm_faults := rm_faults s + 1\<rparr>
           in case store_get (rm_store s1) h of
                (CVSASX_STORE_OK, Some b) \<Rightarrow>
                  (if length b > 4096 then (0, s1)
                   else
                     (case frame_reserve s1 of (fp, s2) \<Rightarrow>
                        (if fp = 0 then (0, s2)
                         else
                           (let dst = splice 0 b (fdata s2 fp);
                                s3 = s2\<lparr>fdata := (fdata s2)(fp := dst)\<rparr>
                            in if \<not> cvsasx_hash_eq (H (take (length b) dst)) h
                               then (0, frame_release_physical fp s3)
                               else
                                 (let s4 = upd_frame (fr_idx s3 fp)
                                             (\<lambda>r. r\<lparr>fr_has_hash := True, fr_hash := h, fr_clock_ref := True\<rparr>) s3;
                                      s5 = snd (rset_add h fp s4)
                                  in (fp, s5\<lparr>rm_bytes := rm_bytes s5 + word_of_nat (length b)\<rparr>))))))
              | _ \<Rightarrow> (0, s1)))"

text \<open>
  When the put is refused the local hash variable keeps whatever the stack holds: \<open>junk\<close>.
\<close>

definition dematerialize_frame ::
  "(bytes \<Rightarrow> bytes) \<Rightarrow> bytes \<Rightarrow> u64 \<Rightarrow> nat \<Rightarrow> rmgr \<Rightarrow> bytes \<times> rmgr" where
  "dematerialize_frame H junk frame len s =
     (case store_put H (rm_store s) (take (min len 4096) (fdata s frame)) of
        (r, st, oh) \<Rightarrow>
          (let h = (case oh of None \<Rightarrow> junk | Some h \<Rightarrow> h)
           in (h, upd_frame (fr_idx s frame) (\<lambda>r. r\<lparr>fr_has_hash := True, fr_hash := h, fr_dirty := False\<rparr>)
                    (s\<lparr>rm_store := st\<rparr>))))"

definition rset_kill :: "nat \<Rightarrow> rmgr \<Rightarrow> rmgr" where
  "rset_kill i s = s\<lparr>rset := (rset s)[i := (rset s ! i)\<lparr>rs_live := False\<rparr>]\<rparr>"

definition refdrop :: "bytes \<Rightarrow> rmgr \<Rightarrow> rmgr" where
  "refdrop h s =
     (case rset_find h s of
        None \<Rightarrow> s
      | Some e \<Rightarrow>
          (let fp = rs_frame (rset s ! e); i = fr_idx s fp
           in if fr_refcount (framedb s ! i) = 0 then s
              else
                (let s1 = upd_frame i (\<lambda>r. r\<lparr>fr_refcount := fr_refcount r - 1\<rparr>) s
                 in if fr_refcount (framedb s1 ! i) = 0
                    then frame_release_physical fp (rset_kill e s1)
                    else s1)))"

text \<open>The release of a reference that keeps the frame resident, as the M3 loop does it.\<close>

definition frame_unref :: "u64 \<Rightarrow> rmgr \<Rightarrow> rmgr" where
  "frame_unref fp s =
     upd_frame (fr_idx s fp)
       (\<lambda>r. if fr_refcount r > 0 then r\<lparr>fr_refcount := fr_refcount r - 1\<rparr> else r) s"

text \<open>One slot of the clock: \<open>None\<close> to go on, \<open>Some\<close> to return.\<close>

definition evict_slot ::
  "(bytes \<Rightarrow> bytes) \<Rightarrow> bytes \<Rightarrow> nat \<Rightarrow> rmgr \<Rightarrow> nat option option \<times> rmgr" where
  "evict_slot H junk i s =
     (if \<not> rs_live (rset s ! i) then (None, s)
      else
        (let fp = rs_frame (rset s ! i); k = fr_idx s fp; r = framedb s ! k;
             unmark = upd_frame k (\<lambda>r. r\<lparr>fr_clock_ref := False\<rparr>) s
         in if fr_state r = FR_PINNED then (None, s)
            else if fr_clock_ref r then (None, unmark)
            else if fr_refcount r > 0 then (None, unmark)
            else if fr_dirty r
              then (case dematerialize_frame H junk fp 4096 s of (h, s1) \<Rightarrow>
                      (if \<not> cvsasx_store_exists (Some (rm_store s1)) (Some h) then (Some None, s1)
                       else let s2 = frame_release_physical fp
                                       (rset_kill i (s1\<lparr>rm_writebacks := rm_writebacks s1 + 1\<rparr>))
                            in (Some (Some i), s2\<lparr>rm_evictions := rm_evictions s2 + 1\<rparr>)))
            else (let s2 = frame_release_physical fp (rset_kill i s)
                  in (Some (Some i), s2\<lparr>rm_evictions := rm_evictions s2 + 1\<rparr>))))"

primrec evict_scan :: "nat \<Rightarrow> (bytes \<Rightarrow> bytes) \<Rightarrow> bytes \<Rightarrow> rmgr \<Rightarrow> nat option \<times> rmgr" where
  "evict_scan 0 H junk s = (None, s)"
| "evict_scan (Suc k) H junk s =
     (if rset s = [] then (None, s)
      else
        (let i = clock_hand s mod length (rset s);
             s1 = s\<lparr>clock_hand := (clock_hand s + 1) mod length (rset s)\<rparr>
         in case evict_slot H junk i s1 of
              (None, s2) \<Rightarrow> evict_scan k H junk s2
            | (Some v, s2) \<Rightarrow> (v, s2)))"

definition evict_one :: "(bytes \<Rightarrow> bytes) \<Rightarrow> bytes \<Rightarrow> rmgr \<Rightarrow> nat option \<times> rmgr" where
  "evict_one H junk s = evict_scan (length (rset s) * 2 + 2) H junk s"

section \<open>The frame database keeps the contract of an allocator\<close>

definition fdb_wf :: "rmgr \<Rightarrow> bool" where
  "fdb_wf s \<longleftrightarrow>
     fdb_n s \<le> length (framedb s) \<and> aligned (fdb_base s) \<and> fdb_base s \<noteq> 0 \<and>
     unat (fdb_base s) + fdb_n s * 4096 < 2 ^ 64 \<and>
     distinct (fdb_free s) \<and> (\<forall>i \<in> set (fdb_free s). i < fdb_n s) \<and>
     (\<forall>i < fdb_n s. fr_state (framedb s ! i) = FR_FREE \<longleftrightarrow> i \<in> set (fdb_free s))"

lemma fr_phys_unat:
  assumes "fdb_wf s" and "i < fdb_n s"
  shows "unat (fr_phys s i) = unat (fdb_base s) + i * 4096"
proof -
  have lt: "unat (fdb_base s) + i * 4096 < 2 ^ 64"
    using assms by (auto simp: fdb_wf_def intro: le_less_trans[of _ "unat (fdb_base s) + fdb_n s * 4096"])
  have "push_bit 12 (word_of_nat i :: u64) = word_of_nat (i * 4096)"
    by (simp add: push_bit_eq_mult)
  then have "unat (push_bit 12 (word_of_nat i :: u64)) = take_bit 64 (i * 4096)"
    by (simp only: unat_of_nat len_of_numeral_defs take_bit_eq_mod) simp
  then have "unat (push_bit 12 (word_of_nat i :: u64)) = i * 4096"
    using lt by (simp add: take_bit_eq_mod)
  then show ?thesis
    using lt by (simp add: fr_phys_def unat_word_ariths)
qed

lemma fr_idx_phys:
  assumes "fdb_wf s" and "i < fdb_n s"
  shows "fr_idx s (fr_phys s i) = i" and "fr_tracked s (fr_phys s i)" and "fr_phys s i \<noteq> 0"
proof -
  note u = fr_phys_unat[OF assms]
  have le: "fdb_base s \<le> fr_phys s i" using u by (simp add: word_le_nat_alt)
  have "unat (fr_phys s i - fdb_base s) = i * 4096" using u le by (simp add: unat_diff_le)
  then show idx: "fr_idx s (fr_phys s i) = i"
    using unat_lt2p[of "fr_phys s i - fdb_base s"]
    by (simp only: fr_idx_def unsigned_drop_bit_eq) (simp add: drop_bit_eq_div take_bit_eq_mod)
  show "fr_tracked s (fr_phys s i)" using le idx assms(2) by (simp add: fr_tracked_def)
  have "0 < unat (fdb_base s)" using assms(1) by (simp add: fdb_wf_def unat_gt_0)
  then show "fr_phys s i \<noteq> 0" using u by (metis add_gr_0 less_numeral_extra(3) unat_0)
qed

lemma fr_phys_inj: "fdb_wf s \<Longrightarrow> i < fdb_n s \<Longrightarrow> j < fdb_n s \<Longrightarrow> fr_phys s i = fr_phys s j \<Longrightarrow> i = j"
  by (metis fr_idx_phys(1))


text \<open>What an operation that neither allocates nor releases does to the database.\<close>

lemma upd_frame_simps [simp]:
  "fdb_base (upd_frame i g s) = fdb_base s" "fdb_n (upd_frame i g s) = fdb_n s"
  "fdb_free (upd_frame i g s) = fdb_free s" "rset (upd_frame i g s) = rset s"
  "rm_store (upd_frame i g s) = rm_store s" "fdata (upd_frame i g s) = fdata s"
  "length (framedb (upd_frame i g s)) = length (framedb s)"
  by (simp_all add: upd_frame_def)

lemma upd_frame_nth:
  "j < length (framedb s) \<Longrightarrow> framedb (upd_frame i g s) ! j = (if i = j then g (framedb s ! j) else framedb s ! j)"
  by (auto simp: upd_frame_def nth_list_update_in)

lemma fr_same:
  "fdb_base s' = fdb_base s \<Longrightarrow> fr_idx s' = fr_idx s"
  "fdb_base s' = fdb_base s \<Longrightarrow> fr_phys s' = fr_phys s"
  by (simp_all add: fun_eq_iff fr_idx_def fr_phys_def)

lemma fdb_wf_upd:
  assumes "fdb_wf s" and "\<And>r. fr_state (g r) = fr_state r"
  shows "fdb_wf (upd_frame i g s)"
  using assms by (auto simp: fdb_wf_def upd_frame_nth)

lemma fdb_wf_cong:
  "framedb s' = framedb s \<Longrightarrow> fdb_base s' = fdb_base s \<Longrightarrow> fdb_n s' = fdb_n s \<Longrightarrow> fdb_free s' = fdb_free s \<Longrightarrow>
   fdb_wf s' = fdb_wf s"
  by (simp add: fdb_wf_def)

lemma frame_reserve_cases:
  assumes "fdb_wf s" and "frame_reserve s = (fp, s')"
  obtains (none) "fp = 0" "fdb_free s = []" "s' = s\<lparr>fdb_reserve_fail := fdb_reserve_fail s + 1\<rparr>"
  | (some) i rest where "fdb_free s = i # rest" "i < fdb_n s" "fp = fr_phys s i" "fp \<noteq> 0"
      "fr_state (framedb s ! i) = FR_FREE"
      "s' = upd_frame i (\<lambda>r. r\<lparr>fr_state := FR_RESIDENT, fr_refcount := 1, fr_has_hash := False,
              fr_dirty := False, fr_clock_ref := True\<rparr>) (s\<lparr>fdb_free := rest\<rparr>)" "fdb_wf s'"
proof (cases "fdb_free s")
  case Nil
  then show ?thesis using assms(2) none by (simp add: frame_reserve_def)
next
  case (Cons i rest)
  then have i: "i < fdb_n s" "fr_state (framedb s ! i) = FR_FREE" using assms(1) by (auto simp: fdb_wf_def)
  let ?s = "upd_frame i (\<lambda>r. r\<lparr>fr_state := FR_RESIDENT, fr_refcount := 1, fr_has_hash := False,
              fr_dirty := False, fr_clock_ref := True\<rparr>) (s\<lparr>fdb_free := rest\<rparr>)"
  have s': "fp = fr_phys s i" "s' = ?s" using assms(2) Cons i(2) by (auto simp: frame_reserve_def Let_def)
  have "fdb_wf ?s" using assms(1) Cons i by (auto simp: fdb_wf_def upd_frame_nth)
  then show ?thesis using some[OF Cons i(1) s'(1) _ i(2) s'(2)] s' fr_idx_phys(3)[OF assms(1) i(1)] by simp
qed

lemma frame_release_eq:
  assumes "fdb_wf s" and "i < fdb_n s" and "fr_state (framedb s ! i) \<noteq> FR_FREE"
  shows "frame_release_physical (fr_phys s i) s =
      (upd_frame i (\<lambda>r. r\<lparr>fr_state := FR_FREE, fr_refcount := 0, fr_has_hash := False,
                          fr_dirty := False, fr_clock_ref := False\<rparr>) s)\<lparr>fdb_free := i # fdb_free s\<rparr>"
    and "fdb_wf (frame_release_physical (fr_phys s i) s)"
proof -
  show e: "frame_release_physical (fr_phys s i) s =
      (upd_frame i (\<lambda>r. r\<lparr>fr_state := FR_FREE, fr_refcount := 0, fr_has_hash := False,
                          fr_dirty := False, fr_clock_ref := False\<rparr>) s)\<lparr>fdb_free := i # fdb_free s\<rparr>"
    using assms fr_idx_phys[OF assms(1,2)] by (simp add: frame_release_physical_def Let_def)
  show "fdb_wf (frame_release_physical (fr_phys s i) s)"
    unfolding e using assms by (auto simp: fdb_wf_def upd_frame_def nth_list_update_in)
qed

definition fdb_pool :: "u64 set \<Rightarrow> u64 set \<Rightarrow> rmgr \<Rightarrow> bool" where
  "fdb_pool U F s \<longleftrightarrow> fdb_wf s \<and> U = fr_phys s ` {..<fdb_n s} \<and> F = fr_phys s ` set (fdb_free s)"

interpretation fdb: frame_pool frame_reserve frame_release_physical fdb_pool
proof unfold_locales
  fix U F s p s'
  assume pool: "fdb_pool U F s"
  then have wf: "fdb_wf s" by (simp add: fdb_pool_def)
  show "F \<subseteq> U" using pool by (auto simp: fdb_pool_def fdb_wf_def)
  show "F = {} \<and> fdb_pool U F s'" if "frame_reserve s = (0, s')"
    using wf that
  proof (cases rule: frame_reserve_cases)
    case none
    then show ?thesis using pool fr_same(2)[of s' s] by (simp add: fdb_pool_def fdb_wf_def)
  qed simp
  show "p \<in> F \<and> fdb_pool U (F - {p}) s'" if "frame_reserve s = (p, s')" "p \<noteq> 0"
    using wf that(1)
  proof (cases rule: frame_reserve_cases)
    case none
    then show ?thesis using that by simp
  next
    case (some i rest)
    have ph: "fr_phys s' = fr_phys s" using some by (intro fr_same(2)) simp
    have "fr_phys s ` set (i # rest) - {fr_phys s i} = fr_phys s ` set rest"
      using wf some(1) fr_phys_inj[OF wf] by (auto simp: fdb_wf_def)
    then show ?thesis using pool some ph by (auto simp: fdb_pool_def)
  qed
  show "fdb_pool U (insert p F) (frame_release_physical p s)" if p: "p \<in> U" "p \<notin> F"
  proof -
    obtain i where i: "i < fdb_n s" "p = fr_phys s i" using p(1) pool by (auto simp: fdb_pool_def)
    have nf: "fr_state (framedb s ! i) \<noteq> FR_FREE" using p(2) i pool by (auto simp: fdb_pool_def fdb_wf_def)
    have "fr_phys (frame_release_physical p s) = fr_phys s"
      unfolding i(2) frame_release_eq(1)[OF wf i(1) nf] by (intro fr_same(2)) simp
    moreover have "fdb_n (frame_release_physical p s) = fdb_n s" "fdb_free (frame_release_physical p s) = i # fdb_free s"
      unfolding i(2) frame_release_eq(1)[OF wf i(1) nf] by simp_all
    ultimately show ?thesis
      using pool frame_release_eq(2)[OF wf i(1) nf] i(2) by (simp add: fdb_pool_def)
  qed
qed

lemma frame_partition:
  assumes "framedb_counts s = (f, r, p)"
  shows "f + r + p = fdb_n s"
proof -
  have "length (filter (\<lambda>x. x = FR_FREE) xs) + length (filter (\<lambda>x. x = FR_RESIDENT) xs) +
      length (filter (\<lambda>x. x = FR_PINNED) xs) = length xs" for xs
    by (induction xs) (auto, metis frame_state.exhaust)
  from this[of "map (\<lambda>i. fr_state (framedb s ! i)) [0..<fdb_n s]"] show ?thesis
    using assms by (simp add: framedb_counts_def Let_def)
qed


section \<open>The invariant of the resident set\<close>

definition live_ents :: "rmgr \<Rightarrow> nat set" where
  "live_ents s = {e. e < length (rset s) \<and> rs_live (rset s ! e)}"

abbreviation ent_hash :: "rmgr \<Rightarrow> nat \<Rightarrow> bytes" where
  "ent_hash s e \<equiv> rs_ehash (rset s ! e)"

abbreviation ent_frame :: "rmgr \<Rightarrow> nat \<Rightarrow> u64" where
  "ent_frame s e \<equiv> rs_frame (rset s ! e)"

abbreviation frame_of :: "rmgr \<Rightarrow> u64 \<Rightarrow> frame_rec" where
  "frame_of s fp \<equiv> framedb s ! fr_idx s fp"

text \<open>A frame holds an object of the store when its first bytes are the object.\<close>

definition frame_holds :: "rmgr \<Rightarrow> u64 \<Rightarrow> bytes \<Rightarrow> bool" where
  "frame_holds s fp h \<longleftrightarrow>
     (\<exists>b. store_map (rm_store s) h = Some b \<and> length b \<le> 4096 \<and> take (length b) (fdata s fp) = b)"

definition ent_ok :: "rmgr \<Rightarrow> nat \<Rightarrow> bool" where
  "ent_ok s e \<longleftrightarrow>
     length (ent_hash s e) = 32 \<and>
     (\<exists>i < fdb_n s. ent_frame s e = fr_phys s i \<and> fr_state (framedb s ! i) \<noteq> FR_FREE) \<and>
     (\<not> fr_dirty (frame_of s (ent_frame s e)) \<longrightarrow> frame_holds s (ent_frame s e) (ent_hash s e))"

definition res_inv :: "(bytes \<Rightarrow> bytes) \<Rightarrow> rmgr \<Rightarrow> bool" where
  "res_inv H s \<longleftrightarrow>
     fdb_wf s \<and> store_inv H (rm_store s) \<and> length (rset s) \<le> RSET_MAX \<and>
     (\<forall>e \<in> live_ents s. ent_ok s e) \<and>
     inj_on (ent_hash s) (live_ents s) \<and> inj_on (ent_frame s) (live_ents s)"

definition rset_room :: "rmgr \<Rightarrow> bool" where
  "rset_room s \<longleftrightarrow> length (rset s) < RSET_MAX \<or> (\<exists>e < length (rset s). \<not> rs_live (rset s ! e))"

lemma rset_find_cases:
  assumes "res_inv H s" and "length h = 32"
  shows "rset_find h s = Some e \<longleftrightarrow> e \<in> live_ents s \<and> ent_hash s e = h"
    and "rset_find h s = None \<longleftrightarrow> h \<notin> ent_hash s ` live_ents s"
proof -
  have eq: "cvsasx_hash_eq (ent_hash s e) h \<longleftrightarrow> ent_hash s e = h" if "e \<in> live_ents s" for e
    using that assms cvsasx_hash_eq_iff by (auto simp: res_inv_def ent_ok_def)
  show none: "rset_find h s = None \<longleftrightarrow> h \<notin> ent_hash s ` live_ents s"
    using eq by (auto simp: rset_find_def find_None_iff live_ents_def)
  have some: "e \<in> live_ents s \<and> ent_hash s e = h" if "rset_find h s = Some e" for e
    using that eq by (auto simp: rset_find_def find_Some_iff live_ents_def)
  show "rset_find h s = Some e \<longleftrightarrow> e \<in> live_ents s \<and> ent_hash s e = h"
  proof
    assume a: "e \<in> live_ents s \<and> ent_hash s e = h"
    then obtain e' where e': "rset_find h s = Some e'" using none by fastforce
    then have "e' = e" using some[OF e'] a assms(1) by (auto simp: res_inv_def inj_on_def)
    then show "rset_find h s = Some e" using e' by simp
  qed (use some in blast)
qed

lemma ent_frameE:
  assumes "res_inv H s" and "e \<in> live_ents s"
  obtains i where "i < fdb_n s" "ent_frame s e = fr_phys s i" "fr_idx s (ent_frame s e) = i"
    "i < length (framedb s)" "fr_state (framedb s ! i) \<noteq> FR_FREE"
proof -
  from assms obtain i where i: "i < fdb_n s" "ent_frame s e = fr_phys s i" "fr_state (framedb s ! i) \<noteq> FR_FREE"
    by (auto simp: res_inv_def ent_ok_def)
  have wf: "fdb_wf s" using assms(1) by (simp add: res_inv_def)
  then have "i < length (framedb s)" using i(1) by (simp add: fdb_wf_def)
  then show ?thesis using that i fr_idx_phys(1)[OF wf i(1)] by simp
qed

lemma ent_ok_cong:
  assumes "ent_ok s e" and "rset s' ! e = rset s ! e" and "fdb_base s' = fdb_base s" and "fdb_n s' = fdb_n s"
    and "rm_store s' = rm_store s" and "fdata s' (ent_frame s e) = fdata s (ent_frame s e)"
    and "k < fdb_n s" and "ent_frame s e = fr_phys s k" and "fr_idx s (ent_frame s e) = k"
    and "fr_state (framedb s' ! k) \<noteq> FR_FREE" and "fr_dirty (framedb s' ! k) = fr_dirty (framedb s ! k)"
  shows "ent_ok s' e"
proof -
  have fr: "fr_idx s' = fr_idx s" "fr_phys s' = fr_phys s" by (rule fr_same, rule assms(3))+
  have "frame_holds s' (ent_frame s e) (ent_hash s e) = frame_holds s (ent_frame s e) (ent_hash s e)"
    by (simp only: frame_holds_def assms(5,6))
  moreover have "\<exists>i < fdb_n s'. ent_frame s e = fr_phys s' i \<and> fr_state (framedb s' ! i) \<noteq> FR_FREE"
    unfolding fr assms(4) using assms(7,8,10) by blast
  ultimately show ?thesis
    using assms(1) unfolding ent_ok_def assms(2) fr assms(9,11) by simp
qed

text \<open>Changing bookkeeping bits of one frame, not its state, keeps the invariant.\<close>

lemma res_inv_upd:
  assumes "res_inv H s" and "\<And>r. fr_state (g r) = fr_state r" and "\<And>r. fr_dirty (g r) = fr_dirty r"
    and "framedb s' = framedb (upd_frame i g s)" "fdb_base s' = fdb_base s" "fdb_n s' = fdb_n s"
    "fdb_free s' = fdb_free s" "fdata s' = fdata s" "rm_store s' = rm_store s" "rset s' = rset s"
  shows "res_inv H s'"
proof -
  have wf: "fdb_wf s" using assms(1) by (simp add: res_inv_def)
  have wf': "fdb_wf s'" using fdb_wf_upd[OF wf assms(2), of i] fdb_wf_cong[of s' "upd_frame i g s"] assms(4-7) by simp
  have L: "live_ents s' = live_ents s" by (simp add: live_ents_def assms(10))
  have fr: "fr_idx s' = fr_idx s" "fr_phys s' = fr_phys s" by (rule fr_same, rule assms(5))+
  have "ent_ok s' e" if e: "e \<in> live_ents s" for e
  proof -
    obtain k where k: "k < fdb_n s" "ent_frame s e = fr_phys s k" "fr_idx s (ent_frame s e) = k"
      "k < length (framedb s)" "fr_state (framedb s ! k) \<noteq> FR_FREE"
      by (rule ent_frameE[OF assms(1) e])
    have st: "fr_state (framedb s' ! k) = fr_state (framedb s ! k)" "fr_dirty (framedb s' ! k) = fr_dirty (framedb s ! k)"
      using k(4) assms(2,3) by (simp_all add: assms(4) upd_frame_nth)
    have "ent_ok s e" using assms(1) e by (simp add: res_inv_def)
    then show ?thesis
      by (rule ent_ok_cong[OF _ _ _ _ _ _ k(1-3)]) (use k(5) st in \<open>simp_all add: assms(5,6,8,9,10)\<close>)
  qed
  then show ?thesis using assms(1) wf' L by (simp add: res_inv_def assms(9,10))
qed

text \<open>Taking an entry out of the resident set and releasing its frame.\<close>

lemma res_inv_kill:
  assumes inv: "res_inv H s" and e: "e \<in> live_ents s"
  shows "res_inv H (frame_release_physical (ent_frame s e) (rset_kill e s))"
    and "live_ents (frame_release_physical (ent_frame s e) (rset_kill e s)) = live_ents s - {e}"
    and "rm_store (frame_release_physical (ent_frame s e) (rset_kill e s)) = rm_store s"
proof -
  have wf: "fdb_wf s" using inv by (simp add: res_inv_def)
  obtain i where i: "i < fdb_n s" "ent_frame s e = fr_phys s i" "fr_idx s (ent_frame s e) = i"
    "i < length (framedb s)" "fr_state (framedb s ! i) \<noteq> FR_FREE"
    by (rule ent_frameE[OF inv e])
  let ?k = "rset_kill e s"
  have wfk: "fdb_wf ?k" using wf fdb_wf_cong[of ?k s] by (simp add: rset_kill_def)
  have ph: "fr_phys ?k = fr_phys s" by (rule fr_same(2)) (simp add: rset_kill_def)
  have nf: "fr_state (framedb ?k ! i) \<noteq> FR_FREE" "i < fdb_n ?k" using i by (simp_all add: rset_kill_def)
  let ?s = "frame_release_physical (ent_frame s e) ?k"
  have eq: "?s = (upd_frame i (\<lambda>r. r\<lparr>fr_state := FR_FREE, fr_refcount := 0, fr_has_hash := False,
                          fr_dirty := False, fr_clock_ref := False\<rparr>) ?k)\<lparr>fdb_free := i # fdb_free ?k\<rparr>"
    and wf': "fdb_wf ?s"
    using frame_release_eq[OF wfk nf(2,1)] i(2) ph by simp_all
  have fld: "fdb_base ?s = fdb_base s" "fdb_n ?s = fdb_n s" "fdata ?s = fdata s" "rm_store ?s = rm_store s"
    "rset ?s = (rset s)[e := (rset s ! e)\<lparr>rs_live := False\<rparr>]" "length (framedb ?s) = length (framedb s)"
    unfolding eq by (simp_all add: rset_kill_def)
  have db: "framedb ?s ! k = framedb s ! k" if "k \<noteq> i" "k < length (framedb s)" for k
    using that unfolding eq by (simp add: upd_frame_def rset_kill_def)
  show "rm_store ?s = rm_store s" by (rule fld(4))
  show L: "live_ents ?s = live_ents s - {e}"
    by (auto simp: live_ents_def fld nth_list_update_in split: if_splits)
  have same: "rset ?s ! k = rset s ! k" if "k \<noteq> e" for k using that by (simp add: fld)
  have fr: "fr_idx ?s = fr_idx s" "fr_phys ?s = fr_phys s" by (rule fr_same, rule fld(1))+
  have "ent_ok ?s k" if k: "k \<in> live_ents s" "k \<noteq> e" for k
  proof -
    obtain j where j: "j < fdb_n s" "ent_frame s k = fr_phys s j" "fr_idx s (ent_frame s k) = j"
      "j < length (framedb s)" "fr_state (framedb s ! j) \<noteq> FR_FREE"
      by (rule ent_frameE[OF inv k(1)])
    have "j \<noteq> i" using j(2) i(2) k e inv by (auto simp: res_inv_def inj_on_def)
    then have d: "framedb ?s ! j = framedb s ! j" using db j(4) by simp
    have "ent_ok s k" using inv k(1) by (simp add: res_inv_def)
    then show ?thesis
      by (rule ent_ok_cong[OF _ _ _ _ _ _ j(1-3)]) (use j(5) d in \<open>simp_all add: fld(1-4) same[OF k(2)]\<close>)
  qed
  moreover have "inj_on (ent_hash ?s) (live_ents s - {e})" "inj_on (ent_frame ?s) (live_ents s - {e})"
    using inv same by (auto simp: res_inv_def inj_on_def)
  ultimately show "res_inv H ?s"
    using inv wf' by (simp add: res_inv_def L fld(4,5))
qed


section \<open>Materialising\<close>

lemma rset_add_cases:
  assumes "rset_room s" and "length (rset s) \<le> RSET_MAX"
  obtains e rs where "rset_add h fp s = (Some e, s\<lparr>rset := rs\<rparr>)" "e \<notin> live_ents s"
    "live_ents (s\<lparr>rset := rs\<rparr>) = insert e (live_ents s)"
    "rs ! e = \<lparr>rs_ehash = h, rs_frame = fp, rs_live = True\<rparr>" "\<forall>k \<in> live_ents s. rs ! k = rset s ! k"
    "length rs \<le> RSET_MAX"
proof (cases "List.find (\<lambda>i. \<not> rs_live (rset s ! i)) [0..<length (rset s)]")
  case (Some i)
  let ?rs = "(rset s)[i := \<lparr>rs_ehash = h, rs_frame = fp, rs_live = True\<rparr>]"
  have i: "i < length (rset s)" "\<not> rs_live (rset s ! i)" using Some by (auto simp: find_Some_iff)
  have "rset_add h fp s = (Some i, s\<lparr>rset := ?rs\<rparr>)" using Some by (simp add: rset_add_def)
  moreover have "live_ents (s\<lparr>rset := ?rs\<rparr>) = insert i (live_ents s)"
    using i by (auto simp: live_ents_def nth_list_update_in split: if_splits)
  ultimately show ?thesis
    using that[of i ?rs] i assms(2) by (auto simp: live_ents_def nth_list_update_in)
next
  case None
  let ?rs = "rset s @ [\<lparr>rs_ehash = h, rs_frame = fp, rs_live = True\<rparr>]"
  have "\<forall>e < length (rset s). rs_live (rset s ! e)" using None by (auto simp: find_None_iff)
  then have lt: "length (rset s) < RSET_MAX" using assms(1) by (auto simp: rset_room_def)
  have "rset_add h fp s = (Some (length (rset s)), s\<lparr>rset := ?rs\<rparr>)"
    using None lt by (simp add: rset_add_def)
  moreover have "live_ents (s\<lparr>rset := ?rs\<rparr>) = insert (length (rset s)) (live_ents s)"
    by (auto simp: live_ents_def nth_append less_Suc_eq)
  ultimately show ?thesis
    using that[of "length (rset s)" ?rs] lt by (auto simp: live_ents_def nth_append)
qed

lemma splice_start: "take (length b) (splice 0 b d) = b"
  by (simp add: splice_def)

text \<open>A fresh frame is none of the frames of the resident set.\<close>

lemma reserve_inv:
  assumes inv: "res_inv H s" and r: "frame_reserve s = (fp, s')" and fp: "fp \<noteq> 0"
  obtains i where "res_inv H s'" "live_ents s' = live_ents s" "rset s' = rset s" "rm_store s' = rm_store s"
    "i < fdb_n s'" "fp = fr_phys s' i" "fr_idx s' fp = i" "i < length (framedb s')"
    "fr_state (framedb s' ! i) = FR_RESIDENT" "fr_refcount (framedb s' ! i) = 1" "\<not> fr_dirty (framedb s' ! i)"
    "fp \<notin> ent_frame s' ` live_ents s'" "fdata s' = fdata s"
proof -
  have wf: "fdb_wf s" using inv by (simp add: res_inv_def)
  from wf r show ?thesis
  proof (cases rule: frame_reserve_cases)
    case none
    then show ?thesis using fp by simp
  next
    case (some i rest)
    have len: "i < length (framedb s)" using some(2) wf by (simp add: fdb_wf_def)
    have fld: "fdb_base s' = fdb_base s" "fdb_n s' = fdb_n s" "rset s' = rset s" "rm_store s' = rm_store s"
      "fdata s' = fdata s" "length (framedb s') = length (framedb s)"
      by (simp_all add: some(6))
    have fr: "fr_idx s' = fr_idx s" "fr_phys s' = fr_phys s" by (rule fr_same, rule fld(1))+
    have L: "live_ents s' = live_ents s" by (simp add: live_ents_def fld)
    have notin: "ent_frame s e \<noteq> fp" if e: "e \<in> live_ents s" for e
    proof -
      obtain k where "k < fdb_n s" "ent_frame s e = fr_phys s k" "fr_state (framedb s ! k) \<noteq> FR_FREE"
        using ent_frameE[OF inv e] by metis
      then show ?thesis using some(2,3,5) fr_phys_inj[OF wf] by auto
    qed
    have "ent_ok s' e" if e: "e \<in> live_ents s" for e
    proof -
      obtain k where k: "k < fdb_n s" "ent_frame s e = fr_phys s k" "fr_idx s (ent_frame s e) = k"
        "k < length (framedb s)" "fr_state (framedb s ! k) \<noteq> FR_FREE"
        by (rule ent_frameE[OF inv e])
      have "k \<noteq> i" using k(5) some(5) by auto
      then have "framedb s' ! k = framedb s ! k" using k(4) by (simp add: some(6) upd_frame_def)
      moreover have ok: "ent_ok s e" using inv e by (simp add: res_inv_def)
      ultimately show ?thesis
        by (intro ent_ok_cong[OF ok _ _ _ _ _ k(1-3)]) (use k(5) in \<open>simp_all add: fld\<close>)
    qed
    then have inv': "res_inv H s'" using inv some(7) by (simp add: res_inv_def L fld)
    have d: "framedb s' ! i = (framedb s ! i)\<lparr>fr_state := FR_RESIDENT, fr_refcount := 1, fr_has_hash := False,
              fr_dirty := False, fr_clock_ref := True\<rparr>"
      using len by (simp add: some(6) upd_frame_def)
    have ix: "fr_idx s' fp = i" using fr_idx_phys(1)[OF wf some(2)] by (simp only: fr some(3))
    have "fp \<notin> ent_frame s' ` live_ents s'" using notin by (auto simp only: L fld(3) image_iff)
    moreover have "i < fdb_n s'" "fp = fr_phys s' i" "i < length (framedb s')"
      using some(2,3) len by (simp_all only: fld fr)
    ultimately show ?thesis
      using that[OF inv' L fld(3,4)] ix d fld(5) by simp
  qed
qed

text \<open>Filling a frame that is not in the resident set and entering it there.\<close>

lemma install_inv:
  assumes inv: "res_inv H s" and i: "i < fdb_n s" "fp = fr_phys s i" "fr_idx s fp = i" "i < length (framedb s)"
    "fr_state (framedb s ! i) = FR_RESIDENT" "fp \<notin> ent_frame s ` live_ents s"
    and h: "length h = 32" "h \<notin> ent_hash s ` live_ents s" and room: "rset_room s"
    and b: "store_map (rm_store s) h = Some b" "length b \<le> 4096"
    and s': "s' = snd (rset_add h fp (upd_frame i (\<lambda>r. r\<lparr>fr_has_hash := True, fr_hash := h, fr_clock_ref := True\<rparr>)
               (s\<lparr>fdata := (fdata s)(fp := splice 0 b (fdata s fp))\<rparr>)))"
  shows "res_inv H s'" and "rset_find h s' = Some e \<Longrightarrow> ent_frame s' e = fp" and "rset_find h s' \<noteq> None"
    and "fr_refcount (frame_of s' fp) = fr_refcount (framedb s ! i)" and "frame_holds s' fp h"
    and "rm_store s' = rm_store s"
proof -
  define d where "d = splice 0 b (fdata s fp)"
  define db where "db = (framedb s)[i := (framedb s ! i)\<lparr>fr_has_hash := True, fr_hash := h, fr_clock_ref := True\<rparr>]"
  define u where "u = s\<lparr>fdata := (fdata s)(fp := d), framedb := db\<rparr>"
  have u: "s' = snd (rset_add h fp u)" by (simp add: s' u_def db_def d_def upd_frame_def)
  have "rset_room u" "length (rset u) \<le> RSET_MAX" using room inv by (simp_all add: rset_room_def u_def res_inv_def)
  then obtain e rs where e: "rset_add h fp u = (Some e, u\<lparr>rset := rs\<rparr>)" "e \<notin> live_ents u"
    "live_ents (u\<lparr>rset := rs\<rparr>) = insert e (live_ents u)"
    "rs ! e = \<lparr>rs_ehash = h, rs_frame = fp, rs_live = True\<rparr>" "\<forall>k \<in> live_ents u. rs ! k = rset u ! k"
    "length rs \<le> RSET_MAX"
    by (rule rset_add_cases)
  have Lu: "live_ents u = live_ents s" by (simp add: live_ents_def u_def)
  have s'u: "s' = u\<lparr>rset := rs\<rparr>" using u e(1) by simp
  have fld: "fdb_base s' = fdb_base s" "fdb_n s' = fdb_n s" "fdb_free s' = fdb_free s" "rm_store s' = rm_store s"
    "fdata s' = (fdata s)(fp := d)" "framedb s' = db" "rset s' = rs" "length db = length (framedb s)"
    by (simp_all add: s'u u_def db_def)
  have fr: "fr_idx s' = fr_idx s" "fr_phys s' = fr_phys s" by (rule fr_same, rule fld(1))+
  have db: "fr_state (framedb s' ! k) = fr_state (framedb s ! k)" "fr_dirty (framedb s' ! k) = fr_dirty (framedb s ! k)"
    "fr_refcount (framedb s' ! k) = fr_refcount (framedb s ! k)"
    if "k < length (framedb s)" for k
    using that by (simp_all add: fld(6) db_def nth_list_update_in)
  have L: "live_ents s' = insert e (live_ents s)" using e(3) Lu s'u by simp
  have same: "rset s' ! k = rset s ! k" if "k \<in> live_ents s" for k using e(5) Lu that by (simp add: fld u_def)
  have "fdb_wf s" using inv by (simp add: res_inv_def)
  then have wf': "fdb_wf s'"
    using db by (auto simp: fdb_wf_def fld)
  show hold: "frame_holds s' fp h"
    using b by (auto simp: frame_holds_def fld d_def splice_start)
  have new: "ent_ok s' e"
    using h(1) i hold db[OF i(4)] by (auto simp: ent_ok_def e(4) fr fld(2,7))
  have old: "ent_ok s' k" if k: "k \<in> live_ents s" for k
  proof -
    obtain j where j: "j < fdb_n s" "ent_frame s k = fr_phys s j" "fr_idx s (ent_frame s k) = j"
      "j < length (framedb s)" "fr_state (framedb s ! j) \<noteq> FR_FREE"
      by (rule ent_frameE[OF inv k])
    have "ent_frame s k \<noteq> fp" using i(6) k by blast
    moreover have ok: "ent_ok s k" using inv k by (simp add: res_inv_def)
    ultimately show ?thesis
      by (intro ent_ok_cong[OF ok _ _ _ _ _ j(1-3)]) (use j db[OF j(4)] same[OF k] in \<open>simp_all add: fld(1-5)\<close>)
  qed
  have en: "e \<notin> live_ents s" "ent_hash s' e = h" "ent_frame s' e = fp"
    using e(2,4) Lu by (simp_all add: fld(7))
  have img: "ent_hash s' ` live_ents s = ent_hash s ` live_ents s" "ent_frame s' ` live_ents s = ent_frame s ` live_ents s"
    using same by (auto intro!: image_cong)
  have "inj_on (ent_hash s') (live_ents s)" "inj_on (ent_frame s') (live_ents s)"
    using inv same inj_on_cong[of "live_ents s" "ent_hash s'" "ent_hash s"]
      inj_on_cong[of "live_ents s" "ent_frame s'" "ent_frame s"] by (simp_all add: res_inv_def)
  then have "inj_on (ent_hash s') (insert e (live_ents s))" "inj_on (ent_frame s') (insert e (live_ents s))"
    using en img h(2) i(6) by (simp_all only: inj_on_insert) (simp_all)
  then show inv': "res_inv H s'"
    using inv wf' new old e(6) by (simp add: res_inv_def L fld(4) fld(7))
  have "rset_find h s' = Some e" using rset_find_cases(1)[OF inv' h(1)] L e(4) by (simp add: fld(7))
  then show "rset_find h s' \<noteq> None" and "rset_find h s' = Some e' \<Longrightarrow> ent_frame s' e' = fp" for e'
    using e(4) by (auto simp: fld(7))
  show "fr_refcount (frame_of s' fp) = fr_refcount (framedb s ! i)" using db(3)[OF i(4)] by (simp add: fr i(3))
  show "rm_store s' = rm_store s" by (rule fld(4))
qed


lemma store_get_map:
  "store_get st h = (case store_map st h of None \<Rightarrow> (CVSASX_STORE_MISS, None) | Some b \<Rightarrow> (CVSASX_STORE_OK, Some b))"
  by (simp add: store_get_def store_map_def split: option.splits)

lemma materialize_hit:
  assumes inv: "res_inv H s" and h: "length h = 32" and e: "rset_find h s = Some e"
    and m: "rm_materialize H h s = (fp, s')"
  shows "res_inv H s'" and "rset s' = rset s" and "fp = ent_frame s e" and "fp \<noteq> 0"
    and "fr_refcount (frame_of s' fp) = fr_refcount (frame_of s fp) + 1"
    and "fr_dirty (frame_of s' fp) = fr_dirty (frame_of s fp)" and "frame_holds s' fp h = frame_holds s fp h"
    and "rset_find h s' = Some e"
proof -
  have el: "e \<in> live_ents s" using rset_find_cases(1)[OF inv h, of e] e by blast
  obtain i where i: "i < fdb_n s" "ent_frame s e = fr_phys s i" "fr_idx s (ent_frame s e) = i" "i < length (framedb s)"
    using ent_frameE[OF inv el] by metis
  let ?g = "\<lambda>r :: frame_rec. r\<lparr>fr_refcount := fr_refcount r + 1, fr_clock_ref := True\<rparr>"
  have s': "fp = ent_frame s e" "s' = (upd_frame i ?g s)\<lparr>rm_hits := rm_hits s + 1\<rparr>"
    using m e i(3) by (simp_all add: rm_materialize_def Let_def)
  have wf: "fdb_wf s" using inv by (simp add: res_inv_def)
  show "fp = ent_frame s e" by (rule s'(1))
  show "fp \<noteq> 0" using fr_idx_phys(3)[OF wf i(1)] s'(1) i(2) by simp
  show rs: "rset s' = rset s" by (simp add: s'(2))
  show inv': "res_inv H s'" by (rule res_inv_upd[OF inv, of ?g _ i]) (simp_all add: s'(2))
  have ix: "fr_idx s' fp = i" "fr_idx s fp = i" using i(3) s' by (simp_all add: fr_idx_def)
  have f: "framedb s' ! i = ?g (framedb s ! i)" using i(4) by (simp add: s'(2) upd_frame_def)
  show "fr_refcount (frame_of s' fp) = fr_refcount (frame_of s fp) + 1"
    and "fr_dirty (frame_of s' fp) = fr_dirty (frame_of s fp)" by (simp_all add: ix f)
  show "frame_holds s' fp h = frame_holds s fp h" by (simp add: frame_holds_def s'(2))
  show "rset_find h s' = Some e" using e by (simp add: rset_find_def rs)
qed

lemma materialize_miss:
  assumes H: "hash_fn H" and inv: "res_inv H s" and h: "length h = 32" and none: "rset_find h s = None"
    and room: "rset_room s" and m: "rm_materialize H h s = (fp, s')"
  shows "res_inv H s' \<and>
    (if \<exists>b. store_map (rm_store s) h = Some b \<and> length b \<le> 4096 \<and> fdb_free s \<noteq> []
     then fp \<noteq> 0 \<and> (\<exists>e. rset_find h s' = Some e \<and> ent_frame s' e = fp) \<and>
          fr_refcount (frame_of s' fp) = 1 \<and> frame_holds s' fp h
     else fp = 0 \<and> rset s' = rset s \<and> framedb s' = framedb s)"
proof -
  let ?s = "s\<lparr>rm_faults := rm_faults s + 1\<rparr>"
  have inv1: "res_inv H ?s"
    using inv by (simp add: res_inv_def fdb_wf_def live_ents_def ent_ok_def frame_holds_def fr_phys_def fr_idx_def)
  show ?thesis
  proof (cases "\<exists>b. store_map (rm_store s) h = Some b \<and> length b \<le> 4096")
    case False
    then have "fp = 0" "s' = ?s"
      using m none by (auto simp: rm_materialize_def Let_def store_get_map split: option.splits if_splits)
    then show ?thesis using inv1 False by auto
  next
    case True
    then obtain b where b: "store_map (rm_store s) h = Some b" "length b \<le> 4096" by blast
    obtain f s2 where r: "frame_reserve ?s = (f, s2)" by fastforce
    show ?thesis
    proof (cases "f = 0")
      case True
      have "fdb_wf ?s" using inv1 by (simp add: res_inv_def)
      then have e: "fdb_free s = []" "s2 = ?s\<lparr>fdb_reserve_fail := fdb_reserve_fail ?s + 1\<rparr>"
        using r True by (cases rule: frame_reserve_cases; simp)+
      have "fp = 0" "s' = s2"
        using m none b r True by (auto simp: rm_materialize_def Let_def store_get_map)
      moreover have "res_inv H s2"
        using inv by (simp add: e(2) res_inv_def fdb_wf_def live_ents_def ent_ok_def frame_holds_def fr_phys_def fr_idx_def)
      ultimately show ?thesis using e by simp
    next
      case False
      obtain i where i: "res_inv H s2" "live_ents s2 = live_ents ?s" "rset s2 = rset ?s" "rm_store s2 = rm_store ?s"
        "i < fdb_n s2" "f = fr_phys s2 i" "fr_idx s2 f = i" "i < length (framedb s2)"
        "fr_state (framedb s2 ! i) = FR_RESIDENT" "fr_refcount (framedb s2 ! i) = 1" "\<not> fr_dirty (framedb s2 ! i)"
        "f \<notin> ent_frame s2 ` live_ents s2"
        using reserve_inv[OF inv1 r False] by metis
      have Hb: "H b = h" using hash_fn.store_map_hash[OF H _ h b(1)] inv by (simp add: res_inv_def)
      let ?u = "upd_frame i (\<lambda>r. r\<lparr>fr_has_hash := True, fr_hash := h, fr_clock_ref := True\<rparr>)
               (s2\<lparr>fdata := (fdata s2)(f := splice 0 b (fdata s2 f))\<rparr>)"
      let ?s5 = "snd (rset_add h f ?u)"
      have ix: "fr_idx (s2\<lparr>fdata := (fdata s2)(f := splice 0 b (fdata s2 f))\<rparr>) f = i"
        using i(7) by (simp add: fr_idx_def)
      have "rm_materialize H h s = (f, ?s5\<lparr>rm_bytes := rm_bytes ?s5 + word_of_nat (length b)\<rparr>)"
        using none b r False Hb h ix
        by (simp add: rm_materialize_def Let_def store_get_map splice_start cvsasx_hash_eq_iff)
      then have eq: "fp = f" "s' = ?s5\<lparr>rm_bytes := rm_bytes ?s5 + word_of_nat (length b)\<rparr>"
        using m by simp_all
      have hn: "h \<notin> ent_hash s2 ` live_ents s2"
        using rset_find_cases(2)[OF inv h] none i(2,3) by (simp add: live_ents_def)
      have rm: "rset_room s2" using room i(3) by (simp add: rset_room_def)
      note I = install_inv[OF i(1,5-8,9,12) h hn rm b(1)[folded i(4)[simplified]] b(2) refl]
      have inv': "res_inv H s'"
        using I(1) by (simp add: eq(2) res_inv_def fdb_wf_def live_ents_def ent_ok_def frame_holds_def fr_phys_def fr_idx_def)
      have "rset_find h s' = rset_find h ?s5" "rset s' = rset ?s5" by (simp_all add: eq(2) rset_find_def)
      moreover have "frame_of s' f = frame_of ?s5 f" "frame_holds s' f h = frame_holds ?s5 f h"
        by (simp_all add: eq(2) fr_idx_def frame_holds_def)
      moreover have "fdb_free s \<noteq> []" using r False by (auto simp: frame_reserve_def)
      ultimately show ?thesis
        using inv' I(2-5) b eq(1) False i(10) by auto
    qed
  qed
qed


lemma refdrop_cases:
  assumes inv: "res_inv H s" and h: "length h = 32"
  shows "res_inv H (refdrop h s) \<and> rm_store (refdrop h s) = rm_store s"
proof (cases "rset_find h s")
  case None
  then show ?thesis using inv by (simp add: refdrop_def)
next
  case (Some e)
  have el: "e \<in> live_ents s" using rset_find_cases(1)[OF inv h, of e] Some by blast
  obtain i where i: "fr_idx s (ent_frame s e) = i" "i < length (framedb s)"
    using ent_frameE[OF inv el] by metis
  let ?g = "\<lambda>r :: frame_rec. r\<lparr>fr_refcount := fr_refcount r - 1\<rparr>"
  let ?s = "upd_frame i ?g s"
  have inv1: "res_inv H ?s" by (rule res_inv_upd[OF inv, of ?g _ i]) simp_all
  have el1: "e \<in> live_ents ?s" using el by (simp add: live_ents_def)
  show ?thesis
    using Some i inv inv1 res_inv_kill[OF inv1 el1]
    by (simp add: refdrop_def Let_def)
qed

section \<open>Eviction\<close>

text \<open>What the clock hand leaves alone while it searches.\<close>

definition clock_eq :: "rmgr \<Rightarrow> rmgr \<Rightarrow> bool" where
  "clock_eq s t \<longleftrightarrow>
     rset t = rset s \<and> rm_store t = rm_store s \<and> fdata t = fdata s \<and> fdb_base t = fdb_base s \<and>
     length (framedb t) = length (framedb s) \<and>
     (\<forall>i < length (framedb s). fr_state (framedb t ! i) = fr_state (framedb s ! i) \<and>
        fr_refcount (framedb t ! i) = fr_refcount (framedb s ! i) \<and> fr_dirty (framedb t ! i) = fr_dirty (framedb s ! i))"

text \<open>A victim is unpinned and unreferenced, and its content is in the store afterwards.\<close>

definition evict_safe :: "(bytes \<Rightarrow> bytes) \<Rightarrow> rmgr \<Rightarrow> nat \<Rightarrow> rmgr \<Rightarrow> bool" where
  "evict_safe H s v s' \<longleftrightarrow>
     v \<in> live_ents s \<and> live_ents s' = live_ents s - {v} \<and>
     fr_state (frame_of s (ent_frame s v)) \<noteq> FR_PINNED \<and> fr_refcount (frame_of s (ent_frame s v)) = 0 \<and>
     (if fr_dirty (frame_of s (ent_frame s v))
      then \<exists>b. store_map (rm_store s') (H (take 4096 (fdata s (ent_frame s v)))) = Some b \<and>
               H b = H (take 4096 (fdata s (ent_frame s v)))
      else frame_holds s (ent_frame s v) (ent_hash s v) \<and>
           store_map (rm_store s') (ent_hash s v) = store_map (rm_store s) (ent_hash s v))"

lemma res_inv_store:
  assumes "hash_fn H" and "res_inv H s" and "length bs < 2 ^ 64" and "store_put H (rm_store s) bs = (r, st, oh)"
  shows "res_inv H (s\<lparr>rm_store := st\<rparr>)"
proof -
  have inv: "store_inv H (rm_store s)" using assms(2) by (simp add: res_inv_def)
  note M = hash_fn.store_lookup_mono[OF assms(1) inv assms(3,4)]
  have "ent_ok (s\<lparr>rm_store := st\<rparr>) e" if "ent_ok s e" for e
    using that M by (auto simp: ent_ok_def frame_holds_def fr_phys_def fr_idx_def)
  then show ?thesis
    using assms(2) hash_fn.store_put_inv[OF assms(1) inv assms(3,4)]
    by (simp add: res_inv_def fdb_wf_def live_ents_def)
qed

lemma evict_slot_go_on:
  assumes "res_inv H s" and "i < length (rset s)" and "evict_slot H junk i s = (None, s')"
  shows "res_inv H s' \<and> clock_eq s s'"
proof (cases "rs_live (rset s ! i)")
  case True
  let ?k = "fr_idx s (ent_frame s i)" and ?g = "\<lambda>r :: frame_rec. r\<lparr>fr_clock_ref := False\<rparr>"
  have "s' = s \<or> s' = upd_frame ?k ?g s"
    using assms(3) True by (auto simp: evict_slot_def Let_def split: if_splits prod.splits)
  moreover have "res_inv H (upd_frame ?k ?g s)" by (rule res_inv_upd[OF assms(1), of ?g _ ?k]) simp_all
  ultimately show ?thesis
    using assms(1) by (auto simp: clock_eq_def upd_frame_nth split: if_splits)
next
  case False
  then show ?thesis using assms by (auto simp: evict_slot_def clock_eq_def)
qed


lemma dematerialize_ok:
  assumes H: "hash_fn H" and inv: "res_inv H s" and e: "e \<in> live_ents s"
    and j: "length junk = 32" "store_map (rm_store s) junk = None"
    and d: "dematerialize_frame H junk (ent_frame s e) 4096 s = (h, s1)"
    and ex: "cvsasx_store_exists (Some (rm_store s1)) (Some h)"
  shows "h = H (take 4096 (fdata s (ent_frame s e)))" and "\<exists>b. store_map (rm_store s1) h = Some b \<and> H b = h"
    and "\<And>x b. length x = 32 \<Longrightarrow> store_map (rm_store s) x = Some b \<Longrightarrow> store_map (rm_store s1) x = Some b"
    and "rset s1 = rset s" and "\<exists>k. s1 = upd_frame k (\<lambda>r. r\<lparr>fr_has_hash := True, fr_hash := h, fr_dirty := False\<rparr>)
            (s\<lparr>rm_store := rm_store s1\<rparr>) \<and> k = fr_idx s (ent_frame s e)"
    and "res_inv H (s\<lparr>rm_store := rm_store s1\<rparr>)"
proof -
  let ?c = "take 4096 (fdata s (ent_frame s e))"
  obtain r st oh where p: "store_put H (rm_store s) ?c = (r, st, oh)" by (metis prod_cases3)
  have len: "length ?c < 2 ^ 64" by simp
  have si: "store_inv H (rm_store s)" using inv by (simp add: res_inv_def)
  have st: "rm_store s1 = st" "h = (case oh of None \<Rightarrow> junk | Some h \<Rightarrow> h)" "rset s1 = rset s"
    and s1: "s1 = upd_frame (fr_idx s (ent_frame s e)) (\<lambda>r. r\<lparr>fr_has_hash := True, fr_hash := h, fr_dirty := False\<rparr>)
            (s\<lparr>rm_store := st\<rparr>)"
    using d p by (auto simp: dematerialize_frame_def Let_def)
  have sti: "store_inv H st" using hash_fn.store_put_inv[OF H si len p] .
  have ok: "r = CVSASX_STORE_OK"
  proof (rule ccontr)
    assume "r \<noteq> CVSASX_STORE_OK"
    then have "st = (rm_store s)\<lparr>st_put_calls := st_put_calls (rm_store s) + 1\<rparr>" "oh = None"
      using store_put_fail[OF p] by auto
    then have "store_map st junk = None" "h = junk" using j st by simp_all
    then show False using ex st(1) by (auto simp: cvsasx_store_exists_def store_map_def store_get_def split: option.splits)
  qed
  show h: "h = H ?c" using store_put_hash p ok st(2) by fastforce
  have "store_map st h \<noteq> None"
    using ex st(1) by (auto simp: cvsasx_store_exists_def store_map_def store_get_def split: option.splits)
  then show "\<exists>b. store_map (rm_store s1) h = Some b \<and> H b = h"
    using hash_fn.store_map_hash[OF H sti] hash_fn.length_H[OF H] h st(1) by auto
  show "store_map (rm_store s1) x = Some b" if "length x = 32" "store_map (rm_store s) x = Some b" for x b
    using hash_fn.store_lookup_mono[OF H si len p that] st(1) by simp
  show "rset s1 = rset s" by (rule st(3))
  show "\<exists>k. s1 = upd_frame k (\<lambda>r. r\<lparr>fr_has_hash := True, fr_hash := h, fr_dirty := False\<rparr>)
            (s\<lparr>rm_store := rm_store s1\<rparr>) \<and> k = fr_idx s (ent_frame s e)"
    using s1 st(1) by simp
  show "res_inv H (s\<lparr>rm_store := rm_store s1\<rparr>)" using res_inv_store[OF H inv len p] st(1) by simp
qed

text \<open>Releasing the frame of an entry whose dirty bit was cleared on the way.\<close>

lemma kill_after_clean:
  assumes inv: "res_inv H s" and e: "e \<in> live_ents s" and k: "k = fr_idx s (ent_frame s e)"
    and s1: "s1 = upd_frame k (\<lambda>r. r\<lparr>fr_has_hash := x, fr_hash := y, fr_dirty := False\<rparr>) s"
  shows "frame_release_physical (ent_frame s e) (rset_kill e s1) =
    (frame_release_physical (ent_frame s e)
      (rset_kill e (upd_frame k (\<lambda>r. r\<lparr>fr_hash := y\<rparr>) s)))"
proof -
  obtain i where i: "i < fdb_n s" "ent_frame s e = fr_phys s i" "fr_idx s (ent_frame s e) = i"
    "i < length (framedb s)" "fr_state (framedb s ! i) \<noteq> FR_FREE"
    by (rule ent_frameE[OF inv e])
  have tr: "fr_tracked s (ent_frame s e)"
    using fr_idx_phys(2)[of s i] inv i by (simp add: res_inv_def)
  then have lo: "\<not> ent_frame s e < fdb_base s" by (simp add: fr_tracked_def split: if_splits)
  have ix: "unat (drop_bit 12 (ent_frame s e - fdb_base s)) = i" "k = i" using i(3) k by (simp_all add: fr_idx_def)
  show ?thesis
    using i(1,4,5) lo ix
    by (simp add: s1 frame_release_physical_def rset_kill_def upd_frame_def fr_tracked_def fr_idx_def Let_def)
qed

lemma evict_slot_victim:
  assumes H: "hash_fn H" and inv: "res_inv H s" and i: "i < length (rset s)"
    and j: "length junk = 32" "store_map (rm_store s) junk = None"
    and ev: "evict_slot H junk i s = (Some (Some v), s')"
  shows "res_inv H s' \<and> evict_safe H s v s'"
proof -
  have live: "rs_live (rset s ! i)" using ev by (auto simp: evict_slot_def split: if_splits)
  then have e: "i \<in> live_ents s" using i by (simp add: live_ents_def)
  let ?fp = "ent_frame s i" and ?r = "frame_of s (ent_frame s i)"
  have c: "fr_state ?r \<noteq> FR_PINNED" "\<not> fr_clock_ref ?r" "fr_refcount ?r = 0"
    using ev live by (auto simp: evict_slot_def Let_def word_gt_0 split: if_splits prod.splits)
  have ok: "ent_ok s i" using inv e by (simp add: res_inv_def)
  have cong: "res_inv H (t\<lparr>rm_evictions := x\<rparr>) = res_inv H t" "live_ents (t\<lparr>rm_evictions := x\<rparr>) = live_ents t" for t x
    by (simp_all add: res_inv_def fdb_wf_def live_ents_def ent_ok_def frame_holds_def fr_phys_def fr_idx_def)
  show ?thesis
  proof (cases "fr_dirty ?r")
    case False
    let ?t = "frame_release_physical ?fp (rset_kill i s)"
    have s': "v = i" "s' = ?t\<lparr>rm_evictions := rm_evictions ?t + 1\<rparr>"
      using ev live c False by (auto simp: evict_slot_def Let_def)
    note K = res_inv_kill[OF inv e]
    show ?thesis
      using K ok False c e by (simp add: s' cong evict_safe_def ent_ok_def)
  next
    case True
    obtain h s1 where d: "dematerialize_frame H junk ?fp 4096 s = (h, s1)" by fastforce
    have ex: "cvsasx_store_exists (Some (rm_store s1)) (Some h)"
      using ev live c True d by (auto simp: evict_slot_def Let_def split: if_splits)
    note D = dematerialize_ok[OF H inv e j d ex]
    let ?w = "s1\<lparr>rm_writebacks := rm_writebacks s1 + 1\<rparr>"
    let ?t = "frame_release_physical ?fp (rset_kill i ?w)"
    have s': "v = i" "s' = ?t\<lparr>rm_evictions := rm_evictions ?t + 1\<rparr>"
      using ev live c True d ex by (auto simp: evict_slot_def Let_def)
    define a where "a = s\<lparr>rm_store := rm_store s1, rm_writebacks := rm_writebacks s1 + 1\<rparr>"
    have inva: "res_inv H a"
      using D(6) by (simp add: a_def res_inv_def fdb_wf_def live_ents_def ent_ok_def frame_holds_def fr_phys_def fr_idx_def)
    have ea: "i \<in> live_ents a" "ent_frame a i = ?fp" "fr_idx a ?fp = fr_idx s ?fp"
      using e by (simp_all add: a_def live_ents_def fr_idx_def)
    have wa: "?w = upd_frame (fr_idx a (ent_frame a i)) (\<lambda>r. r\<lparr>fr_has_hash := True, fr_hash := h, fr_dirty := False\<rparr>) a"
    proof -
      have "s1 = upd_frame (fr_idx s ?fp) (\<lambda>r. r\<lparr>fr_has_hash := True, fr_hash := h, fr_dirty := False\<rparr>)
          (s\<lparr>rm_store := rm_store s1\<rparr>)" using D(5) by blast
      moreover have "rm_writebacks s1 = rm_writebacks s"
        by (subst calculation) (simp add: upd_frame_def)
      ultimately show ?thesis unfolding a_def fr_idx_def by (cases s1) (simp add: upd_frame_def)
    qed
    let ?g = "\<lambda>r :: frame_rec. r\<lparr>fr_hash := h\<rparr>"
    let ?b = "upd_frame (fr_idx a (ent_frame a i)) ?g a"
    have invb: "res_inv H ?b" by (rule res_inv_upd[OF inva, of ?g _ "fr_idx a (ent_frame a i)"]) simp_all
    have eb: "i \<in> live_ents ?b" "ent_frame ?b i = ?fp" using ea by (simp_all add: live_ents_def)
    have t: "?t = frame_release_physical (ent_frame ?b i) (rset_kill i ?b)"
      using kill_after_clean[OF inva ea(1) refl wa] ea eb(2) by simp
    note K = res_inv_kill[OF invb eb(1)]
    have La: "live_ents ?b = live_ents s" "rm_store ?b = rm_store s1" by (simp_all add: live_ents_def a_def)
    have "live_ents ?t = live_ents s - {i}" "res_inv H ?t" "rm_store ?t = rm_store s1"
      using K by (simp_all only: t La)
    then show ?thesis
      using D(1,2) True c e by (simp add: s' cong evict_safe_def)
  qed
qed

lemma clock_eq_trans: "clock_eq s t \<Longrightarrow> clock_eq t u \<Longrightarrow> clock_eq s u"
  by (simp add: clock_eq_def)

lemma clock_eq_live: "clock_eq s t \<Longrightarrow> live_ents t = live_ents s"
  by (simp add: clock_eq_def live_ents_def)

lemma evict_safe_clock:
  assumes inv: "res_inv H s" and c: "clock_eq s t" and e: "evict_safe H t v u"
  shows "evict_safe H s v u"
proof -
  have v: "v \<in> live_ents s" using e clock_eq_live[OF c] by (simp add: evict_safe_def)
  obtain i where i: "fr_idx s (ent_frame s v) = i" "i < length (framedb s)" using ent_frameE[OF inv v] by metis
  have same: "rset t = rset s" "rm_store t = rm_store s" "fdata t = fdata s" "fr_idx t = fr_idx s"
    using c by (auto simp: clock_eq_def fr_idx_def fun_eq_iff)
  have fr: "fr_state (framedb t ! i) = fr_state (framedb s ! i)" "fr_refcount (framedb t ! i) = fr_refcount (framedb s ! i)"
    "fr_dirty (framedb t ! i) = fr_dirty (framedb s ! i)"
    using c i(2) by (simp_all add: clock_eq_def)
  show ?thesis
    using e fr clock_eq_live[OF c] unfolding evict_safe_def same i(1) frame_holds_def by simp
qed

lemma hand_step:
  "res_inv H (s\<lparr>clock_hand := x\<rparr>) = res_inv H s" "clock_eq s (s\<lparr>clock_hand := x\<rparr>)"
  by (simp_all add: res_inv_def fdb_wf_def live_ents_def ent_ok_def frame_holds_def fr_phys_def fr_idx_def clock_eq_def)

lemma evict_scan_safe:
  assumes H: "hash_fn H" and j: "length junk = 32"
  shows "res_inv H s \<Longrightarrow> store_map (rm_store s) junk = None \<Longrightarrow> evict_scan k H junk s = (Some v, s') \<Longrightarrow>
     res_inv H s' \<and> evict_safe H s v s'"
proof (induction k arbitrary: s)
  case 0
  then show ?case by simp
next
  case (Suc k)
  let ?i = "clock_hand s mod length (rset s)"
  let ?s = "s\<lparr>clock_hand := (clock_hand s + 1) mod length (rset s)\<rparr>"
  have ne: "rset s \<noteq> []" using Suc.prems(3) by (auto split: if_splits)
  have i: "?i < length (rset ?s)" using ne by simp
  have inv: "res_inv H ?s" using Suc.prems(1) by (simp only: hand_step)
  obtain o' s2 where st: "evict_slot H junk ?i ?s = (o', s2)" by fastforce
  show ?case
  proof (cases o')
    case None
    note G = evict_slot_go_on[OF inv i st[unfolded None]]
    have c: "clock_eq s s2" using clock_eq_trans[OF hand_step(2)] G by blast
    have "evict_scan k H junk s2 = (Some v, s')" using Suc.prems(3) ne st None by (simp add: Let_def)
    then have "res_inv H s' \<and> evict_safe H s2 v s'"
      using Suc.IH[of s2] G Suc.prems(2) c by (simp add: clock_eq_def)
    then show ?thesis using evict_safe_clock[OF Suc.prems(1) c] by blast
  next
    case (Some w)
    then have "w = Some v" "s2 = s'" using Suc.prems(3) ne st by (simp_all add: Let_def)
    then have "res_inv H s' \<and> evict_safe H ?s v s'"
      using evict_slot_victim[OF H inv i j] st Some Suc.prems(2) by simp
    then show ?thesis using evict_safe_clock[OF Suc.prems(1) hand_step(2)] by blast
  qed
qed

section \<open>Frames outside the resident set\<close>

lemma aligned_page: "aligned p \<Longrightarrow> p AND NOT 0xfff = p"
proof -
  assume "aligned p"
  then have "p AND 0xfff = 0" by (simp add: aligned_def)
  then have "p = (p AND NOT 0xfff) OR 0"
    by (metis bit.conj_disj_distrib bit.disj_cancel_right and.right_neutral or.commute)
  then show ?thesis by simp
qed

lemma fr_phys_aligned:
  assumes "fdb_wf s" and "i < fdb_n s"
  shows "fr_phys s i AND NOT 0xfff = fr_phys s i"
proof (rule aligned_page)
  have "4096 dvd unat (fdb_base s)" using assms(1) by (simp add: fdb_wf_def aligned_dvd)
  then show "aligned (fr_phys s i)" unfolding aligned_dvd fr_phys_unat[OF assms] by simp
qed

lemma res_inv_fdata:
  assumes inv: "res_inv H s" and fp: "fp \<notin> ent_frame s ` live_ents s"
  shows "res_inv H (s\<lparr>fdata := (fdata s)(fp := d)\<rparr>)" (is "res_inv H ?s")
proof -
  have "ent_ok ?s e" if e: "e \<in> live_ents s" for e
  proof -
    have "ent_frame s e \<noteq> fp" using fp e by blast
    moreover have "ent_ok s e" using inv e by (simp add: res_inv_def)
    ultimately show ?thesis by (simp add: ent_ok_def frame_holds_def fr_phys_def fr_idx_def)
  qed
  then show ?thesis using inv by (simp add: res_inv_def fdb_wf_def live_ents_def)
qed

lemma res_inv_release:
  assumes inv: "res_inv H s" and i: "i < fdb_n s" "fr_state (framedb s ! i) \<noteq> FR_FREE"
    and fp: "fr_phys s i \<notin> ent_frame s ` live_ents s"
  shows "res_inv H (frame_release_physical (fr_phys s i) s)" (is "res_inv H ?s")
proof -
  have wf: "fdb_wf s" using inv by (simp add: res_inv_def)
  note eq = frame_release_eq[OF wf i]
  have fld: "fdb_base ?s = fdb_base s" "fdb_n ?s = fdb_n s" "fdata ?s = fdata s" "rm_store ?s = rm_store s"
    "rset ?s = rset s" unfolding eq(1) by simp_all
  have L: "live_ents ?s = live_ents s" by (simp add: live_ents_def fld)
  have "ent_ok ?s e" if e: "e \<in> live_ents s" for e
  proof -
    obtain k where k: "k < fdb_n s" "ent_frame s e = fr_phys s k" "fr_idx s (ent_frame s e) = k"
      "k < length (framedb s)" "fr_state (framedb s ! k) \<noteq> FR_FREE"
      by (rule ent_frameE[OF inv e])
    have "k \<noteq> i" using fp e k(2) by (metis imageI)
    then have d: "framedb ?s ! k = framedb s ! k" using k(4) unfolding eq(1) by (simp add: upd_frame_def)
    have "ent_ok s e" using inv e by (simp add: res_inv_def)
    then show ?thesis
      by (rule ent_ok_cong[OF _ _ _ _ _ _ k(1-3)]) (use k(5) d in \<open>simp_all add: fld\<close>)
  qed
  then show ?thesis using inv eq(2) by (simp add: res_inv_def L fld)
qed

section \<open>Properties\<close>

text \<open> materialising an object by hash.  A resident object is shared: the same frame is
  returned, its reference count goes up by one and its content is what it was.  An object
  that is not resident is loaded exactly when the store holds it, it fits a page and a
  frame is free; then the frame holds the object, has one reference and is the one found
  under the hash from then on.  In every other case the null frame is returned with the
  resident set and the frame database unchanged.  The invariant of the manager is kept. \<close>
theorem rm_materialize_correct:
  assumes "hash_fn H" and "res_inv H s" and "length h = 32" and "rset_room s"
    and "rm_materialize H h s = (fp, s')"
  shows "res_inv H s' \<and>
    (case rset_find h s of
       Some e \<Rightarrow> fp = ent_frame s e \<and> fp \<noteq> 0 \<and> rset s' = rset s \<and> rset_find h s' = Some e \<and>
                 fr_refcount (frame_of s' fp) = fr_refcount (frame_of s fp) + 1 \<and>
                 frame_holds s' fp h = frame_holds s fp h \<and> (fr_dirty (frame_of s fp) \<or> frame_holds s' fp h)
     | None \<Rightarrow>
         (if \<exists>b. store_map (rm_store s) h = Some b \<and> length b \<le> 4096 \<and> fdb_free s \<noteq> []
          then fp \<noteq> 0 \<and> (\<exists>e. rset_find h s' = Some e \<and> ent_frame s' e = fp) \<and>
               fr_refcount (frame_of s' fp) = 1 \<and> frame_holds s' fp h
          else fp = 0 \<and> rset s' = rset s \<and> framedb s' = framedb s))"
proof (cases "rset_find h s")
  case None
  then show ?thesis using materialize_miss[OF assms(1-3) None assms(4,5)] by simp
next
  case (Some e)
  note M = materialize_hit[OF assms(2,3) Some assms(5)]
  have "e \<in> live_ents s" "ent_hash s e = h" using rset_find_cases(1)[OF assms(2,3), of e] Some by blast+
  then have "fr_dirty (frame_of s fp) \<or> frame_holds s fp h"
    using assms(2) M(3) by (auto simp: res_inv_def ent_ok_def)
  then show ?thesis using M Some by simp
qed


text \<open>A pool of one frame over a store that holds one object.\<close>

definition ex_rm :: rmgr where
  "ex_rm = \<lparr>framedb = [fresh_rec], fdb_base = 4096, fdb_n = 1, fdb_free = [0],
            fdb_reserve_fail = 0, fdb_pool_ready = True, fdata = (\<lambda>_. []),
            rm_store = fst (snd (store_put pad_hash ex_store [1, 2, 3])), rset = [],
            rm_faults = 0, rm_hits = 0, rm_bytes = 0, rm_evictions = 0, rm_writebacks = 0, clock_hand = 0\<rparr>"

lemma ex_rm_inv: "res_inv pad_hash ex_rm"
proof -
  have "store_inv pad_hash (rm_store ex_rm)"
    using hash_fn.store_put_inv[OF hash_fn_pad_hash ex_store_inv, of "[1, 2, 3]"] 
    by (cases "store_put pad_hash ex_store [1, 2, 3]") (simp add: ex_rm_def)
  then show ?thesis
    by (simp add: res_inv_def fdb_wf_def live_ents_def RSET_MAX_def aligned_def)
       (simp add: ex_rm_def fresh_rec_def)
qed

lemma ex_rm_loads: "fst (rm_materialize pad_hash (pad_hash [1, 2, 3]) ex_rm) = 4096"
  by code_simp

theorem rm_materialize_correct_witness:
  "res_inv pad_hash (snd (rm_materialize pad_hash (pad_hash [1, 2, 3]) ex_rm))"
  using rm_materialize_correct[OF hash_fn_pad_hash ex_rm_inv, of "pad_hash [1, 2, 3]"]
    hash_fn.length_H[OF hash_fn_pad_hash]
  by (cases "rm_materialize pad_hash (pad_hash [1, 2, 3]) ex_rm") (simp add: rset_room_def ex_rm_def RSET_MAX_def)

text \<open>The object is loaded and its reference dropped with the frame kept; the clock evicts it.\<close>

definition ex_rm_idle :: rmgr where
  "ex_rm_idle = frame_unref 4096 (snd (rm_materialize pad_hash (pad_hash [1, 2, 3]) ex_rm))"

lemma ex_rm_idle_inv: "res_inv pad_hash ex_rm_idle"
proof -
  have "res_inv pad_hash (snd (rm_materialize pad_hash (pad_hash [1, 2, 3]) ex_rm))"
    using materialize_miss[OF hash_fn_pad_hash ex_rm_inv, of "pad_hash [1, 2, 3]"] hash_fn.length_H[OF hash_fn_pad_hash]
    by (cases "rm_materialize pad_hash (pad_hash [1, 2, 3]) ex_rm")
       (simp add: rset_room_def rset_find_def ex_rm_def RSET_MAX_def)
  then show ?thesis
    unfolding ex_rm_idle_def frame_unref_def
    by (rule res_inv_upd[where i = "fr_idx (snd (rm_materialize pad_hash (pad_hash [1, 2, 3]) ex_rm)) 4096"]) simp_all
qed

lemma ex_rm_evicts:
  "fst (evict_one pad_hash (replicate 32 9) ex_rm_idle) = Some 0"
  "store_get (rm_store ex_rm_idle) (replicate 32 9) = (CVSASX_STORE_MISS, None)"
  by code_simp+


text \<open>
  A store that refuses the page.  The writeback stamps the frame with the uninitialised
  local and clears its dirty bit, so a first call reports that nothing was evicted and a
  second call discards the frame although the store never received its content.
\<close>

definition ex_rm_full :: rmgr where
  "ex_rm_full = upd_frame 0 (\<lambda>r. r\<lparr>fr_dirty := True, fr_refcount := 0\<rparr>)
     ((ex_rm_idle\<lparr>fdata := (\<lambda>_. replicate 100 5)\<rparr>))"

lemma evict_one_loses_dirty_page:
  "let (v1, s1) = evict_one pad_hash (replicate 32 9) ex_rm_full;
       (v2, s2) = evict_one pad_hash (replicate 32 9) s1
   in v1 = None \<and> v2 = Some 0 \<and>
      store_get (rm_store s2) (pad_hash (replicate 100 5)) = (CVSASX_STORE_MISS, None)"
  by code_simp

end
