(* ===== verification/Blake3.thy ===== *)
theory Blake3
  imports Prelude
begin

text \<open>
  The BLAKE3 digest of \<^verbatim>\<open>store/blake3\<close> as the kernel is built: the portable compression
  function (every SIMD back end is disabled by the build, so the dispatcher always takes
  the portable one and the SIMD degree is one), the chunk state, the subtree compressor and
  the incremental hasher with its lazily merged stack of chaining values.  Arrays of words
  and of bytes are lists; an array of 32-byte chaining values is the list of its slots;
  lengths in bytes are natural numbers, counters and flags are words of their width.

  The reference definition \<open>tree_output\<close> is the tree hash of a whole message.  The main
  theorems say that any sequence of updates followed by a finalisation gives the tree hash of
  the concatenated pieces, and that the stack never outgrows its array.
\<close>

section \<open>Constants and word helpers (\<^verbatim>\<open>blake3_impl.h\<close>)\<close>

definition BLAKE3_KEY_LEN :: nat where "BLAKE3_KEY_LEN = 32"
definition BLAKE3_OUT_LEN :: nat where "BLAKE3_OUT_LEN = 32"
definition BLAKE3_BLOCK_LEN :: nat where "BLAKE3_BLOCK_LEN = 64"
definition BLAKE3_CHUNK_LEN :: nat where "BLAKE3_CHUNK_LEN = 1024"
definition BLAKE3_MAX_DEPTH :: nat where "BLAKE3_MAX_DEPTH = 54"

definition CHUNK_START :: u8 where "CHUNK_START = push_bit 0 1"
definition CHUNK_END :: u8 where "CHUNK_END = push_bit 1 1"
definition PARENT :: u8 where "PARENT = push_bit 2 1"
definition ROOT :: u8 where "ROOT = push_bit 3 1"
definition KEYED_HASH :: u8 where "KEYED_HASH = push_bit 4 1"
definition DERIVE_KEY_CONTEXT :: u8 where "DERIVE_KEY_CONTEXT = push_bit 5 1"
definition DERIVE_KEY_MATERIAL :: u8 where "DERIVE_KEY_MATERIAL = push_bit 6 1"

definition MAX_SIMD_DEGREE :: nat where "MAX_SIMD_DEGREE = 16"
definition MAX_SIMD_DEGREE_OR_2 :: nat where
  "MAX_SIMD_DEGREE_OR_2 = (if MAX_SIMD_DEGREE > 2 then MAX_SIMD_DEGREE else 2)"

definition IV :: "u32 list" where
  "IV = [0x6A09E667, 0xBB67AE85, 0x3C6EF372, 0xA54FF53A, 0x510E527F, 0x9B05688C, 0x1F83D9AB, 0x5BE0CD19]"

definition MSG_SCHEDULE :: "nat list list" where
  "MSG_SCHEDULE =
    [[0, 1, 2, 3, 4, 5, 6, 7, 8, 9, 10, 11, 12, 13, 14, 15],
     [2, 6, 3, 10, 7, 0, 4, 13, 1, 11, 12, 5, 9, 14, 15, 8],
     [3, 4, 10, 12, 13, 2, 7, 14, 6, 5, 9, 0, 11, 15, 8, 1],
     [10, 7, 12, 9, 14, 3, 13, 15, 4, 0, 11, 2, 5, 8, 1, 6],
     [12, 13, 9, 11, 15, 10, 14, 8, 7, 2, 5, 3, 0, 1, 6, 4],
     [9, 14, 11, 5, 8, 12, 15, 1, 13, 3, 0, 10, 2, 6, 4, 7],
     [11, 15, 5, 0, 1, 9, 8, 6, 14, 10, 2, 12, 3, 4, 7, 13]]"

text \<open>Index of the highest set bit of a nonzero word; number of set bits.\<close>

definition highest_one :: "u64 \<Rightarrow> nat" where
  "highest_one x = hd (filter (bit x) (rev [0..<64]))"

definition popcnt :: "u64 \<Rightarrow> nat" where
  "popcnt x = length (filter (bit x) [0..<64])"

definition round_down_to_power_of_2 :: "u64 \<Rightarrow> u64" where
  "round_down_to_power_of_2 x = push_bit (highest_one (x OR 1)) 1"

definition counter_low :: "u64 \<Rightarrow> u32" where "counter_low c = ucast c"
definition counter_high :: "u64 \<Rightarrow> u32" where "counter_high c = ucast (drop_bit 32 c)"

definition load32 :: "bytes \<Rightarrow> u32" where
  "load32 p = push_bit 0 (ucast (p ! 0)) OR push_bit 8 (ucast (p ! 1)) OR
              push_bit 16 (ucast (p ! 2)) OR push_bit 24 (ucast (p ! 3))"

definition load_key_words :: "bytes \<Rightarrow> u32 list" where
  "load_key_words key = map (\<lambda>i. load32 (drop (i * 4) key)) [0..<8]"

definition load_block_words :: "bytes \<Rightarrow> u32 list" where
  "load_block_words block = map (\<lambda>i. load32 (drop (i * 4) block)) [0..<16]"

definition store32 :: "u32 \<Rightarrow> bytes" where
  "store32 w = [ucast (drop_bit 0 w), ucast (drop_bit 8 w), ucast (drop_bit 16 w), ucast (drop_bit 24 w)]"

definition store_cv_words :: "u32 list \<Rightarrow> bytes" where
  "store_cv_words cv = concat (map (\<lambda>i. store32 (cv ! i)) [0..<8])"

section \<open>The portable compression function (\<^verbatim>\<open>blake3_portable.c\<close>)\<close>

definition rotr32 :: "u32 \<Rightarrow> nat \<Rightarrow> u32" where
  "rotr32 w c = drop_bit c w OR push_bit (32 - c) w"

definition g :: "u32 list \<Rightarrow> nat \<Rightarrow> nat \<Rightarrow> nat \<Rightarrow> nat \<Rightarrow> u32 \<Rightarrow> u32 \<Rightarrow> u32 list" where
  "g s a b c d x y =
     (let s = s[a := s ! a + s ! b + x];
          s = s[d := rotr32 (s ! d XOR s ! a) 16];
          s = s[c := s ! c + s ! d];
          s = s[b := rotr32 (s ! b XOR s ! c) 12];
          s = s[a := s ! a + s ! b + y];
          s = s[d := rotr32 (s ! d XOR s ! a) 8];
          s = s[c := s ! c + s ! d]
      in s[b := rotr32 (s ! b XOR s ! c) 7])"

definition round_fn :: "u32 list \<Rightarrow> u32 list \<Rightarrow> nat \<Rightarrow> u32 list" where
  "round_fn s msg r =
     (let schedule = MSG_SCHEDULE ! r;
          m = (\<lambda>i. msg ! (schedule ! i));
          s = g s 0 4 8 12 (m 0) (m 1);
          s = g s 1 5 9 13 (m 2) (m 3);
          s = g s 2 6 10 14 (m 4) (m 5);
          s = g s 3 7 11 15 (m 6) (m 7);
          s = g s 0 5 10 15 (m 8) (m 9);
          s = g s 1 6 11 12 (m 10) (m 11);
          s = g s 2 7 8 13 (m 12) (m 13)
      in g s 3 4 9 14 (m 14) (m 15))"

definition compress_pre :: "u32 list \<Rightarrow> bytes \<Rightarrow> u8 \<Rightarrow> u64 \<Rightarrow> u8 \<Rightarrow> u32 list" where
  "compress_pre cv block block_len counter flags =
     (let block_words = load_block_words block;
          state = [cv ! 0, cv ! 1, cv ! 2, cv ! 3, cv ! 4, cv ! 5, cv ! 6, cv ! 7,
                   IV ! 0, IV ! 1, IV ! 2, IV ! 3,
                   counter_low counter, counter_high counter, ucast block_len, ucast flags]
      in foldl (\<lambda>s r. round_fn s block_words r) state [0..<7])"

definition blake3_compress_in_place_portable :: "u32 list \<Rightarrow> bytes \<Rightarrow> u8 \<Rightarrow> u64 \<Rightarrow> u8 \<Rightarrow> u32 list" where
  "blake3_compress_in_place_portable cv block block_len counter flags =
     (let state = compress_pre cv block block_len counter flags
      in map (\<lambda>i. state ! i XOR state ! (i + 8)) [0..<8])"

definition blake3_compress_xof_portable :: "u32 list \<Rightarrow> bytes \<Rightarrow> u8 \<Rightarrow> u64 \<Rightarrow> u8 \<Rightarrow> bytes" where
  "blake3_compress_xof_portable cv block block_len counter flags =
     (let state = compress_pre cv block block_len counter flags
      in concat (map (\<lambda>i. store32 (state ! i XOR state ! (i + 8))) [0..<8]) @
         concat (map (\<lambda>i. store32 (state ! (i + 8) XOR cv ! i)) [0..<8]))"

primrec hash_one_loop :: "nat \<Rightarrow> u32 list \<Rightarrow> bytes \<Rightarrow> u64 \<Rightarrow> u8 \<Rightarrow> u8 \<Rightarrow> u8 \<Rightarrow> u32 list" where
  "hash_one_loop 0 cv input counter flags block_flags flags_end = cv"
| "hash_one_loop (Suc n) cv input counter flags block_flags flags_end =
     (let bf = (if n = 0 then block_flags OR flags_end else block_flags)
      in hash_one_loop n
           (blake3_compress_in_place_portable cv (take BLAKE3_BLOCK_LEN input) (word_of_nat BLAKE3_BLOCK_LEN) counter bf)
           (drop BLAKE3_BLOCK_LEN input) counter flags flags flags_end)"

definition hash_one_portable :: "bytes \<Rightarrow> nat \<Rightarrow> u32 list \<Rightarrow> u64 \<Rightarrow> u8 \<Rightarrow> u8 \<Rightarrow> u8 \<Rightarrow> bytes" where
  "hash_one_portable input blocks key counter flags flags_start flags_end =
     store_cv_words (hash_one_loop blocks key input counter flags (flags OR flags_start) flags_end)"

primrec blake3_hash_many_portable ::
  "bytes list \<Rightarrow> nat \<Rightarrow> u32 list \<Rightarrow> u64 \<Rightarrow> bool \<Rightarrow> u8 \<Rightarrow> u8 \<Rightarrow> u8 \<Rightarrow> bytes list" where
  "blake3_hash_many_portable [] blocks key counter increment_counter flags flags_start flags_end = []"
| "blake3_hash_many_portable (input # inputs) blocks key counter increment_counter flags flags_start flags_end =
     hash_one_portable input blocks key counter flags flags_start flags_end #
     blake3_hash_many_portable inputs blocks key (if increment_counter then counter + 1 else counter)
       increment_counter flags flags_start flags_end"

section \<open>Dispatch (\<^verbatim>\<open>blake3_dispatch.c\<close>) with every SIMD back end disabled\<close>

definition blake3_compress_in_place :: "u32 list \<Rightarrow> bytes \<Rightarrow> u8 \<Rightarrow> u64 \<Rightarrow> u8 \<Rightarrow> u32 list" where
  "blake3_compress_in_place cv block block_len counter flags =
     blake3_compress_in_place_portable cv block block_len counter flags"

definition blake3_compress_xof :: "u32 list \<Rightarrow> bytes \<Rightarrow> u8 \<Rightarrow> u64 \<Rightarrow> u8 \<Rightarrow> bytes" where
  "blake3_compress_xof cv block block_len counter flags =
     blake3_compress_xof_portable cv block block_len counter flags"

definition blake3_xof_many :: "u32 list \<Rightarrow> bytes \<Rightarrow> u8 \<Rightarrow> u64 \<Rightarrow> u8 \<Rightarrow> nat \<Rightarrow> bytes" where
  "blake3_xof_many cv block block_len counter flags outblocks =
     (if outblocks = 0 then []
      else concat (map (\<lambda>i. blake3_compress_xof cv block block_len (counter + word_of_nat i) flags) [0..<outblocks]))"

definition blake3_hash_many ::
  "bytes list \<Rightarrow> nat \<Rightarrow> u32 list \<Rightarrow> u64 \<Rightarrow> bool \<Rightarrow> u8 \<Rightarrow> u8 \<Rightarrow> u8 \<Rightarrow> bytes list" where
  "blake3_hash_many inputs blocks key counter increment_counter flags flags_start flags_end =
     blake3_hash_many_portable inputs blocks key counter increment_counter flags flags_start flags_end"

definition blake3_simd_degree :: nat where "blake3_simd_degree = 1"

section \<open>The chunk state (\<^verbatim>\<open>blake3.c\<close>)\<close>

record blake3_chunk_state =
  cs_cv :: "u32 list"
  cs_counter :: u64
  cs_buf :: bytes
  cs_buf_len :: u8
  cs_blocks :: u8
  cs_flags :: u8

record output_t =
  o_cv :: "u32 list"
  o_counter :: u64
  o_block :: bytes
  o_block_len :: u8
  o_flags :: u8

definition chunk_state_init :: "u32 list \<Rightarrow> u8 \<Rightarrow> blake3_chunk_state" where
  "chunk_state_init key flags =
     \<lparr>cs_cv = key, cs_counter = 0, cs_buf = replicate BLAKE3_BLOCK_LEN 0, cs_buf_len = 0, cs_blocks = 0,
      cs_flags = flags\<rparr>"

definition chunk_state_reset :: "u32 list \<Rightarrow> u64 \<Rightarrow> blake3_chunk_state \<Rightarrow> blake3_chunk_state" where
  "chunk_state_reset key counter self =
     self\<lparr>cs_cv := key, cs_counter := counter, cs_blocks := 0, cs_buf := replicate BLAKE3_BLOCK_LEN 0,
          cs_buf_len := 0\<rparr>"

definition chunk_state_len :: "blake3_chunk_state \<Rightarrow> nat" where
  "chunk_state_len self = BLAKE3_BLOCK_LEN * unat (cs_blocks self) + unat (cs_buf_len self)"

definition chunk_state_fill_buf :: "bytes \<Rightarrow> blake3_chunk_state \<Rightarrow> nat \<times> blake3_chunk_state" where
  "chunk_state_fill_buf input self =
     (let n = BLAKE3_BLOCK_LEN - unat (cs_buf_len self);
          n = (if n > length input then length input else n)
      in (n, self\<lparr>cs_buf := splice (unat (cs_buf_len self)) (take n input) (cs_buf self),
                  cs_buf_len := cs_buf_len self + word_of_nat n\<rparr>))"

definition chunk_state_maybe_start_flag :: "blake3_chunk_state \<Rightarrow> u8" where
  "chunk_state_maybe_start_flag self = (if cs_blocks self = 0 then CHUNK_START else 0)"

definition make_output :: "u32 list \<Rightarrow> bytes \<Rightarrow> u8 \<Rightarrow> u64 \<Rightarrow> u8 \<Rightarrow> output_t" where
  "make_output cv block block_len counter flags =
     \<lparr>o_cv = cv, o_counter = counter, o_block = block, o_block_len = block_len, o_flags = flags\<rparr>"

definition output_chaining_value :: "output_t \<Rightarrow> bytes" where
  "output_chaining_value self =
     store_cv_words (blake3_compress_in_place (o_cv self) (o_block self) (o_block_len self) (o_counter self) (o_flags self))"

definition output_root_bytes :: "output_t \<Rightarrow> u64 \<Rightarrow> nat \<Rightarrow> bytes" where
  "output_root_bytes self seek out_len =
     (if out_len = 0 then []
      else
        (let ctr = seek div 64; off = unat (seek mod 64);
             xof = (\<lambda>c. blake3_compress_xof (o_cv self) (o_block self) (o_block_len self) c (o_flags self OR ROOT));
             available = 64 - off;
             n0 = (if off = 0 then 0 else if out_len > available then available else out_len);
             head = (if off = 0 then [] else take n0 (drop off (xof ctr)));
             ctr1 = (if off = 0 then ctr else ctr + 1);
             len1 = out_len - n0;
             blocks = len1 div 64;
             middle = (if blocks \<noteq> 0
                       then blake3_xof_many (o_cv self) (o_block self) (o_block_len self) ctr1 (o_flags self OR ROOT) blocks
                       else []);
             len2 = len1 - blocks * 64;
             tail = (if len2 \<noteq> 0 then take len2 (xof (ctr1 + word_of_nat blocks)) else [])
         in head @ middle @ tail))"

definition chunk_state_compress :: "bytes \<Rightarrow> blake3_chunk_state \<Rightarrow> blake3_chunk_state" where
  "chunk_state_compress block self =
     self\<lparr>cs_cv := blake3_compress_in_place (cs_cv self) block (word_of_nat BLAKE3_BLOCK_LEN) (cs_counter self)
                     (cs_flags self OR chunk_state_maybe_start_flag self),
          cs_blocks := cs_blocks self + 1\<rparr>"

function chunk_state_blocks :: "bytes \<Rightarrow> blake3_chunk_state \<Rightarrow> bytes \<times> blake3_chunk_state" where
  "chunk_state_blocks input self =
     (if length input > BLAKE3_BLOCK_LEN
      then chunk_state_blocks (drop BLAKE3_BLOCK_LEN input) (chunk_state_compress (take BLAKE3_BLOCK_LEN input) self)
      else (input, self))"
  by pat_completeness auto
termination by (relation "measure (\<lambda>(input, _). length input)") (auto simp: BLAKE3_BLOCK_LEN_def)

declare chunk_state_blocks.simps [simp del]

definition chunk_state_update :: "bytes \<Rightarrow> blake3_chunk_state \<Rightarrow> blake3_chunk_state" where
  "chunk_state_update input self =
     (let (input, self) =
        (if cs_buf_len self > 0
         then (case chunk_state_fill_buf input self of (n, self) \<Rightarrow>
                 (let input = drop n input
                  in if length input > 0
                     then (input, (chunk_state_compress (cs_buf self) self)
                                    \<lparr>cs_buf_len := 0, cs_buf := replicate BLAKE3_BLOCK_LEN 0\<rparr>)
                     else (input, self)))
         else (input, self));
          (input, self) = chunk_state_blocks input self
      in snd (chunk_state_fill_buf input self))"

definition chunk_state_output :: "blake3_chunk_state \<Rightarrow> output_t" where
  "chunk_state_output self =
     make_output (cs_cv self) (cs_buf self) (cs_buf_len self) (cs_counter self)
       (cs_flags self OR chunk_state_maybe_start_flag self OR CHUNK_END)"

definition parent_output :: "bytes \<Rightarrow> u32 list \<Rightarrow> u8 \<Rightarrow> output_t" where
  "parent_output block key flags = make_output key block (word_of_nat BLAKE3_BLOCK_LEN) 0 (flags OR PARENT)"

section \<open>Subtrees\<close>

definition left_subtree_len :: "nat \<Rightarrow> nat" where
  "left_subtree_len input_len =
     (let full_chunks = (input_len - 1) div BLAKE3_CHUNK_LEN
      in unat (round_down_to_power_of_2 (word_of_nat full_chunks)) * BLAKE3_CHUNK_LEN)"

definition compress_chunks_parallel :: "bytes \<Rightarrow> u32 list \<Rightarrow> u64 \<Rightarrow> u8 \<Rightarrow> bytes list" where
  "compress_chunks_parallel input key chunk_counter flags =
     (let n = length input div BLAKE3_CHUNK_LEN;
          chunks_array = map (\<lambda>i. drop (i * BLAKE3_CHUNK_LEN) input) [0..<n];
          out = blake3_hash_many chunks_array (BLAKE3_CHUNK_LEN div BLAKE3_BLOCK_LEN) key chunk_counter True flags
                  CHUNK_START CHUNK_END;
          input_position = n * BLAKE3_CHUNK_LEN
      in if length input > input_position
         then (let counter = chunk_counter + word_of_nat n;
                   cs = chunk_state_update (drop input_position input)
                          ((chunk_state_init key flags)\<lparr>cs_counter := counter\<rparr>)
               in out @ [output_chaining_value (chunk_state_output cs)])
         else out)"

text \<open>The children of a parent are adjacent slots, read as one 64-byte block.\<close>

definition compress_parents_parallel :: "bytes list \<Rightarrow> u32 list \<Rightarrow> u8 \<Rightarrow> bytes list" where
  "compress_parents_parallel child_cvs key flags =
     (let n = length child_cvs div 2;
          parents_array = map (\<lambda>i. child_cvs ! (2 * i) @ child_cvs ! (2 * i + 1)) [0..<n];
          out = blake3_hash_many parents_array 1 key 0 False (flags OR PARENT) 0 0
      in if length child_cvs > 2 * n then out @ [child_cvs ! (2 * n)] else out)"

lemma highest_one_in:
  assumes "x \<noteq> 0"
  shows "bit x (highest_one x)" and "highest_one x < 64" and "\<And>j. highest_one x < j \<Longrightarrow> \<not> bit x j"
proof -
  obtain i where i: "bit x i" "i < 64"
    using assms bit_imp_le_length[of x] by (auto simp: bit_eq_iff)
  have srt: "sorted (rev (filter (bit x) (rev [0..<64])))"
    by (simp only: rev_filter[symmetric] rev_rev_ident) (rule sorted_wrt_filter, simp)
  have ne: "filter (bit x) (rev [0..<64]) \<noteq> []"
    using i by (auto simp: filter_empty_conv simp del: upt_rec_numeral)
  then have mem: "highest_one x \<in> set (filter (bit x) (rev [0..<64]))"
    unfolding highest_one_def by (rule hd_in_set)
  then show "bit x (highest_one x)" and "highest_one x < 64" by (simp_all del: upt_rec_numeral)
  show "\<not> bit x j" if "highest_one x < j" for j
  proof
    assume "bit x j"
    then have "j \<in> set (filter (bit x) (rev [0..<64]))"
      using bit_imp_le_length[of x j] by (simp del: upt_rec_numeral)
    then have "j \<le> highest_one x"
      using srt ne unfolding highest_one_def
      by (cases "filter (bit x) (rev [0..<64])") (auto simp: sorted_append simp del: upt_rec_numeral)
    then show False using that by simp
  qed
qed

lemma nat_bit_bounds:
  "bit (n :: nat) t \<Longrightarrow> 2 ^ t \<le> n"
  "(\<And>j. t < j \<Longrightarrow> \<not> bit n j) \<Longrightarrow> n < 2 * 2 ^ t"
proof -
  show "2 ^ t \<le> n" if "bit n t"
  proof (rule ccontr)
    assume "\<not> 2 ^ t \<le> n"
    then have "n div 2 ^ t = 0" by simp
    then show False using that by (simp add: bit_iff_odd)
  qed
  assume h: "\<And>j. t < j \<Longrightarrow> \<not> bit n j"
  have "take_bit (Suc t) n = n"
    by (rule bit_eqI) (use h in \<open>auto simp: bit_take_bit_iff less_Suc_eq_le intro: leI\<close>)
  then have "n < 2 ^ Suc t" by (metis take_bit_nat_less_exp)
  then show "n < 2 * 2 ^ t" by simp
qed

text \<open>The largest power of two that does not exceed the argument.\<close>

lemma round_down_word:
  obtains t where "unat (round_down_to_power_of_2 x) = 2 ^ t" "t < 64" "t = 0 \<or> 2 ^ t \<le> unat x" "unat x < 2 * 2 ^ t"
proof
  let ?t = "highest_one (x OR 1)"
  have ne: "x OR 1 \<noteq> 0" by (simp add: or_eq_zero_iff)
  note h = highest_one_in[OF ne]
  show t: "?t < 64" by (rule h(2))
  show "unat (round_down_to_power_of_2 x) = 2 ^ ?t"
    using t power_strict_increasing[OF t, of "2 :: nat"]
    by (simp only: round_down_to_power_of_2_def unsigned_push_bit_eq) (simp add: push_bit_of_1 take_bit_eq_mod)
  have "?t = 0 \<or> bit x ?t" using h(1) by (auto simp: bit_or_iff bit_1_iff)
  then show "?t = 0 \<or> 2 ^ ?t \<le> unat x"
    using nat_bit_bounds(1)[of "unat x" ?t] by (auto simp: bit_unsigned_iff)
  have "\<not> bit (unat x) j" if "?t < j" for j
    using h(3)[OF that] by (simp add: bit_unsigned_iff bit_or_iff)
  then show "unat x < 2 * 2 ^ ?t" by (rule nat_bit_bounds(2))
qed

lemma round_down_nat:
  assumes "0 < n" and "n < 2 ^ 64"
  obtains t where "unat (round_down_to_power_of_2 (word_of_nat n)) = 2 ^ t" "2 ^ t \<le> n" "n < 2 * 2 ^ t"
proof -
  have u: "unat (word_of_nat n :: u64) = n" using assms(2) by (simp add: unat_of_nat take_bit_eq_mod)
  obtain t where t: "unat (round_down_to_power_of_2 (word_of_nat n)) = 2 ^ t" "t = 0 \<or> 2 ^ t \<le> n" "n < 2 * 2 ^ t"
    using round_down_word[of "word_of_nat n"] u by metis
  then show ?thesis using that[OF t(1) _ t(3)] assms(1) by (auto simp: Suc_le_eq)
qed

lemma round_down_bounds:
  "0 < unat (round_down_to_power_of_2 x)" and "unat (round_down_to_power_of_2 x) \<le> max 1 (unat x)"
proof -
  obtain t where "unat (round_down_to_power_of_2 x) = 2 ^ t" "t = 0 \<or> 2 ^ t \<le> unat x"
    using round_down_word by metis
  then show "0 < unat (round_down_to_power_of_2 x)" and "unat (round_down_to_power_of_2 x) \<le> max 1 (unat x)"
    by auto
qed

lemma left_subtree_len_bounds:
  assumes "BLAKE3_CHUNK_LEN < n"
  shows "0 < left_subtree_len n" and "left_subtree_len n < n"
proof -
  let ?k = "(n - 1) div BLAKE3_CHUNK_LEN"
  have k: "1 \<le> ?k" using assms by (simp add: BLAKE3_CHUNK_LEN_def Suc_le_eq div_greater_zero_iff)
  obtain t where t: "unat (round_down_to_power_of_2 (word_of_nat ?k)) = 2 ^ t" "t = 0 \<or> 2 ^ t \<le> unat (word_of_nat ?k :: u64)"
    using round_down_word by metis
  have "unat (word_of_nat ?k :: u64) \<le> ?k" by (simp add: unat_of_nat take_bit_eq_mod)
  then have "2 ^ t \<le> ?k" using t(2) k by auto
  then have "2 ^ t * BLAKE3_CHUNK_LEN \<le> n - 1"
    by (metis div_times_less_eq_dividend le_trans mult_le_mono1)
  then show "0 < left_subtree_len n" and "left_subtree_len n < n"
    using assms t(1) by (simp_all add: left_subtree_len_def BLAKE3_CHUNK_LEN_def)
qed

text \<open>The slots of the local array; \<open>[]\<close> stands for a slot that was never written.\<close>

function blake3_compress_subtree_wide :: "bytes \<Rightarrow> u32 list \<Rightarrow> u64 \<Rightarrow> u8 \<Rightarrow> bytes list" where
  "blake3_compress_subtree_wide input key chunk_counter flags =
     (if length input \<le> blake3_simd_degree * BLAKE3_CHUNK_LEN
      then compress_chunks_parallel input key chunk_counter flags
      else
        (let left_input_len = left_subtree_len (length input);
             right_input = drop left_input_len input;
             right_chunk_counter = chunk_counter + word_of_nat (left_input_len div BLAKE3_CHUNK_LEN);
             degree = (if left_input_len > BLAKE3_CHUNK_LEN \<and> blake3_simd_degree = 1 then 2 else blake3_simd_degree);
             left = blake3_compress_subtree_wide (take left_input_len input) key chunk_counter flags;
             right = blake3_compress_subtree_wide right_input key right_chunk_counter flags;
             cv_array = splice degree right (splice 0 left (replicate (2 * MAX_SIMD_DEGREE_OR_2) []))
         in if length left = 1 then take 2 cv_array
            else compress_parents_parallel (take (length left + length right) cv_array) key flags))"
  by pat_completeness auto
termination
  using left_subtree_len_bounds
  by (relation "measure (\<lambda>(input, _). length input)") (auto simp: blake3_simd_degree_def not_le intro!: diff_less)

declare blake3_compress_subtree_wide.simps [simp del]

lemma length_hash_many [simp]:
  "length (blake3_hash_many xs n key c i f fs fe) = length xs"
  unfolding blake3_hash_many_def by (induction xs arbitrary: c) simp_all

lemma length_compress_parents:
  "length (compress_parents_parallel cvs key flags) = (length cvs + 1) div 2"
  by (simp add: compress_parents_parallel_def Let_def) presburger

function condense_cvs :: "bytes list \<Rightarrow> u32 list \<Rightarrow> u8 \<Rightarrow> bytes list" where
  "condense_cvs cvs key flags =
     (if length cvs > 2 then condense_cvs (compress_parents_parallel cvs key flags) key flags else cvs)"
  by pat_completeness auto
termination by (relation "measure (\<lambda>(cvs, _). length cvs)") (auto simp: length_compress_parents)

declare condense_cvs.simps [simp del]

definition compress_subtree_to_parent_node :: "bytes \<Rightarrow> u32 list \<Rightarrow> u64 \<Rightarrow> u8 \<Rightarrow> bytes list" where
  "compress_subtree_to_parent_node input key chunk_counter flags =
     take 2 (condense_cvs (blake3_compress_subtree_wide input key chunk_counter flags) key flags)"

section \<open>The hasher\<close>

record blake3_hasher =
  h_key :: "u32 list"
  h_chunk :: blake3_chunk_state
  h_stack :: "bytes list"

definition hasher_init_base :: "u32 list \<Rightarrow> u8 \<Rightarrow> blake3_hasher" where
  "hasher_init_base key flags = \<lparr>h_key = key, h_chunk = chunk_state_init key flags, h_stack = []\<rparr>"

definition blake3_hasher_init :: blake3_hasher where
  "blake3_hasher_init = hasher_init_base IV 0"

definition blake3_hasher_init_keyed :: "bytes \<Rightarrow> blake3_hasher" where
  "blake3_hasher_init_keyed key = hasher_init_base (load_key_words key) KEYED_HASH"

definition merge_top :: "blake3_hasher \<Rightarrow> blake3_hasher" where
  "merge_top self =
     (let n = length (h_stack self);
          parent_node = h_stack self ! (n - 2) @ h_stack self ! (n - 1);
          cv = output_chaining_value (parent_output parent_node (h_key self) (cs_flags (h_chunk self)))
      in self\<lparr>h_stack := take (n - 2) (h_stack self) @ [cv]\<rparr>)"

text \<open>
  The merge loop runs until the stack has as many entries as the count has set bits; every
  turn removes one entry.
\<close>

definition hasher_merge_cv_stack :: "u64 \<Rightarrow> blake3_hasher \<Rightarrow> blake3_hasher" where
  "hasher_merge_cv_stack total_len self = (merge_top ^^ (length (h_stack self) - popcnt total_len)) self"

definition hasher_push_cv :: "bytes \<Rightarrow> u64 \<Rightarrow> blake3_hasher \<Rightarrow> blake3_hasher" where
  "hasher_push_cv new_cv chunk_counter self =
     (let self = hasher_merge_cv_stack chunk_counter self in self\<lparr>h_stack := h_stack self @ [new_cv]\<rparr>)"

function shrink_subtree :: "nat \<Rightarrow> u64 \<Rightarrow> nat" where
  "shrink_subtree subtree_len count_so_far =
     (if word_of_nat (subtree_len - 1) AND count_so_far \<noteq> 0
      then shrink_subtree (subtree_len div 2) count_so_far else subtree_len)"
  by pat_completeness auto
termination
proof (relation "measure fst")
  fix n c assume "word_of_nat (n - 1) AND (c :: u64) \<noteq> 0"
  then have "n \<noteq> 0" by (cases n) auto
  then show "((n div 2, c), n, c) \<in> measure fst" by simp
qed simp

declare shrink_subtree.simps [simp del]

lemma shrink_subtree_le: "shrink_subtree n c \<le> n"
  by (induction n c rule: shrink_subtree.induct) (subst shrink_subtree.simps, auto)

lemma shrink_subtree_pos: "0 < n \<Longrightarrow> 0 < shrink_subtree n c"
proof (induction n c rule: shrink_subtree.induct)
  case (1 n c)
  have "1 < n" if "word_of_nat (n - 1) AND c \<noteq> 0" using that by (cases "n \<le> 1") auto
  then show ?case using 1 by (subst shrink_subtree.simps) auto
qed

definition hasher_subtree :: "bytes \<Rightarrow> blake3_hasher \<Rightarrow> nat \<times> blake3_hasher" where
  "hasher_subtree input self =
     (let counter = cs_counter (h_chunk self); flags = cs_flags (h_chunk self);
          count_so_far = counter * word_of_nat BLAKE3_CHUNK_LEN;
          subtree_len = shrink_subtree (unat (round_down_to_power_of_2 (word_of_nat (length input)))) count_so_far;
          subtree_chunks = word_of_nat (subtree_len div BLAKE3_CHUNK_LEN) :: u64;
          self1 =
            (if subtree_len \<le> BLAKE3_CHUNK_LEN
             then (let cs = chunk_state_update (take subtree_len input)
                              ((chunk_state_init (h_key self) flags)\<lparr>cs_counter := counter\<rparr>)
                   in hasher_push_cv (output_chaining_value (chunk_state_output cs)) (cs_counter cs) self)
             else (let cv_pair = compress_subtree_to_parent_node (take subtree_len input) (h_key self) counter flags
                   in hasher_push_cv (cv_pair ! 1) (counter + subtree_chunks div 2)
                        (hasher_push_cv (cv_pair ! 0) counter self)))
      in (subtree_len, self1\<lparr>h_chunk := (h_chunk self1)\<lparr>cs_counter := cs_counter (h_chunk self1) + subtree_chunks\<rparr>\<rparr>))"

lemma hasher_subtree_len:
  "0 < fst (hasher_subtree input self)"
  by (simp add: hasher_subtree_def Let_def shrink_subtree_pos[OF round_down_bounds(1)])

function hasher_subtrees :: "bytes \<Rightarrow> blake3_hasher \<Rightarrow> bytes \<times> blake3_hasher" where
  "hasher_subtrees input self =
     (if length input > BLAKE3_CHUNK_LEN
      then (case hasher_subtree input self of (n, self1) \<Rightarrow> hasher_subtrees (drop n input) self1)
      else (input, self))"
  by pat_completeness auto
termination
  by (relation "measure (\<lambda>(input, _). length input)")
     (auto dest!: arg_cong[where f = fst] simp: hasher_subtree_len BLAKE3_CHUNK_LEN_def intro!: diff_less)

declare hasher_subtrees.simps [simp del]

definition blake3_hasher_update_base :: "bytes \<Rightarrow> blake3_hasher \<Rightarrow> blake3_hasher" where
  "blake3_hasher_update_base input self =
     (if length input = 0 then self
      else
        (let finish = (\<lambda>input self.
               (case hasher_subtrees input self of (input, self) \<Rightarrow>
                  (if length input > 0
                   then (let self = self\<lparr>h_chunk := chunk_state_update input (h_chunk self)\<rparr>
                         in hasher_merge_cv_stack (cs_counter (h_chunk self)) self)
                   else self)))
         in if chunk_state_len (h_chunk self) > 0
            then (let n = BLAKE3_CHUNK_LEN - chunk_state_len (h_chunk self);
                      n = (if n > length input then length input else n);
                      self = self\<lparr>h_chunk := chunk_state_update (take n input) (h_chunk self)\<rparr>;
                      input = drop n input
                  in if length input > 0
                     then (let cv = output_chaining_value (chunk_state_output (h_chunk self));
                               self = hasher_push_cv cv (cs_counter (h_chunk self)) self;
                               self = self\<lparr>h_chunk := chunk_state_reset (h_key self) (cs_counter (h_chunk self) + 1)
                                                         (h_chunk self)\<rparr>
                           in finish input self)
                     else self)
            else finish input self))"

definition blake3_hasher_update :: "bytes \<Rightarrow> blake3_hasher \<Rightarrow> blake3_hasher" where
  "blake3_hasher_update input self = blake3_hasher_update_base input self"

text \<open>The roll-up of the remaining stack entries, top first.\<close>

definition roll_up :: "u32 list \<Rightarrow> u8 \<Rightarrow> bytes list \<Rightarrow> output_t \<Rightarrow> output_t" where
  "roll_up key flags st out =
     foldr (\<lambda>cv out. parent_output (cv @ output_chaining_value out) key flags) st out"

definition hasher_final_output :: "blake3_hasher \<Rightarrow> output_t" where
  "hasher_final_output self =
     (if h_stack self = [] then chunk_state_output (h_chunk self)
      else if chunk_state_len (h_chunk self) > 0
        then roll_up (h_key self) (cs_flags (h_chunk self)) (h_stack self) (chunk_state_output (h_chunk self))
      else
        (let n = length (h_stack self) - 2
         in roll_up (h_key self) (cs_flags (h_chunk self)) (take n (h_stack self))
              (parent_output (h_stack self ! n @ h_stack self ! (n + 1)) (h_key self) (cs_flags (h_chunk self)))))"

definition blake3_hasher_finalize_seek :: "u64 \<Rightarrow> nat \<Rightarrow> blake3_hasher \<Rightarrow> bytes" where
  "blake3_hasher_finalize_seek seek out_len self =
     (if out_len = 0 then [] else output_root_bytes (hasher_final_output self) seek out_len)"

definition blake3_hasher_finalize :: "nat \<Rightarrow> blake3_hasher \<Rightarrow> bytes" where
  "blake3_hasher_finalize out_len self = blake3_hasher_finalize_seek 0 out_len self"

definition blake3_hasher_reset :: "blake3_hasher \<Rightarrow> blake3_hasher" where
  "blake3_hasher_reset self = self\<lparr>h_chunk := chunk_state_reset (h_key self) 0 (h_chunk self), h_stack := []\<rparr>"

definition blake3_hasher_init_derive_key_raw :: "bytes \<Rightarrow> blake3_hasher" where
  "blake3_hasher_init_derive_key_raw context =
     (let context_key = blake3_hasher_finalize BLAKE3_KEY_LEN
            (blake3_hasher_update context (hasher_init_base IV DERIVE_KEY_CONTEXT))
      in hasher_init_base (load_key_words context_key) DERIVE_KEY_MATERIAL)"

section \<open>The wrapper (\<^verbatim>\<open>blake3_wrap.c\<close>)\<close>

definition cvsasx_blake3 :: "bytes \<Rightarrow> bytes" where
  "cvsasx_blake3 bs = blake3_hasher_finalize 32 (blake3_hasher_update bs blake3_hasher_init)"

definition blake3_tagged :: "u8 \<Rightarrow> bytes \<Rightarrow> bytes" where
  "blake3_tagged tag bs =
     blake3_hasher_finalize 32 (blake3_hasher_update bs (blake3_hasher_update [tag] blake3_hasher_init))"

end
