(* ===== verification/Blake3Tree.thy ===== *)
theory Blake3Tree
  imports Blake3 ObjectStore
begin

text \<open>
  The tree hash of a whole message, written as the BLAKE3 paper states it, and the proof that
  the incremental hasher of \<^theory_text>\<open>Blake3\<close> computes it: the chunk state absorbs bytes in any
  grouping, the wide subtree compressor returns the chaining values of the two halves, and the
  lazily merged stack is the binary expansion of the number of chunks hashed so far.
\<close>

section \<open>The chunk state absorbs bytes in any grouping\<close>

text \<open>The bytes waiting in the block buffer; everything else of the buffer is zero.\<close>

definition cs_ok :: "blake3_chunk_state \<Rightarrow> bytes \<Rightarrow> bool" where
  "cs_ok cs r \<longleftrightarrow> length r \<le> 64 \<and> cs_buf_len cs = word_of_nat (length r) \<and> cs_buf cs = r @ replicate (64 - length r) 0"

definition set_buf :: "bytes \<Rightarrow> blake3_chunk_state \<Rightarrow> blake3_chunk_state" where
  "set_buf r cs = cs\<lparr>cs_buf := r @ replicate (64 - length r) 0, cs_buf_len := word_of_nat (length r)\<rparr>"

text \<open>The state after absorbing: compress whole blocks while more input follows, keep the rest.\<close>

function absorb :: "bytes \<Rightarrow> blake3_chunk_state \<Rightarrow> blake3_chunk_state" where
  "absorb bs cs = (if length bs > 64 then absorb (drop 64 bs) (chunk_state_compress (take 64 bs) cs) else set_buf bs cs)"
  by pat_completeness auto
termination by (relation "measure (\<lambda>(bs, _). length bs)") auto

declare absorb.simps [simp del]

lemma unat_small: "n \<le> 64 \<Longrightarrow> unat (word_of_nat n :: u8) = n"
  by (simp add: unat_of_nat take_bit_eq_mod)

lemma set_buf_ok: "length r \<le> 64 \<Longrightarrow> cs_ok (set_buf r cs) r"
  by (simp add: cs_ok_def set_buf_def)

lemma cs_okD: "cs_ok cs r \<Longrightarrow> set_buf r cs = cs"
  by (simp add: cs_ok_def set_buf_def)

lemma set_buf_set_buf [simp]: "set_buf r (set_buf q cs) = set_buf r cs"
  by (simp add: set_buf_def)

lemma compress_set_buf [simp]: "set_buf r (chunk_state_compress b (set_buf q cs)) = set_buf r (chunk_state_compress b cs)"
  by (simp add: set_buf_def chunk_state_compress_def chunk_state_maybe_start_flag_def)

lemma absorb_set_buf [simp]: "absorb bs (set_buf r cs) = absorb bs cs"
proof (induction bs cs arbitrary: r rule: absorb.induct)
  case (1 bs cs)
  have "chunk_state_compress b (set_buf r cs) = set_buf r (chunk_state_compress b cs)" for b
    by (simp add: set_buf_def chunk_state_compress_def chunk_state_maybe_start_flag_def)
  then show ?case using 1 by (subst (1 2) absorb.simps) simp
qed

lemma blocks_absorb:
  "(case chunk_state_blocks bs cs of (r, cs') \<Rightarrow> set_buf r cs') = absorb bs cs"
  "length (fst (chunk_state_blocks bs cs)) \<le> 64"
  "cs_buf (snd (chunk_state_blocks bs cs)) = cs_buf cs" "cs_buf_len (snd (chunk_state_blocks bs cs)) = cs_buf_len cs"
proof (induction bs cs rule: chunk_state_blocks.induct)
  case (1 bs cs)
  {
    case 1
    show ?case using "1.IH" by (subst chunk_state_blocks.simps, subst absorb.simps) (simp add: BLAKE3_BLOCK_LEN_def)
  next
    case 2
    show ?case using "1.IH" by (subst chunk_state_blocks.simps) (simp add: BLAKE3_BLOCK_LEN_def)
  next
    case 3
    show ?case using "1.IH" by (subst chunk_state_blocks.simps) (simp add: BLAKE3_BLOCK_LEN_def chunk_state_compress_def)
  next
    case 4
    show ?case using "1.IH" by (subst chunk_state_blocks.simps) (simp add: BLAKE3_BLOCK_LEN_def chunk_state_compress_def)
  }
qed

lemma fill_buf:
  assumes "cs_ok cs r"
  shows "chunk_state_fill_buf x cs = (min (length x) (64 - length r), set_buf (r @ take (64 - length r) x) cs)"
proof -
  have r: "length r \<le> 64" "unat (cs_buf_len cs) = length r" using assms by (simp_all add: cs_ok_def unat_small)
  let ?n = "min (length x) (64 - length r)"
  have t: "take ?n x = take (64 - length r) x" by (simp add: min_def)
  have "cs_buf_len cs + word_of_nat ?n = word_of_nat (length r + ?n)" using assms by (simp add: cs_ok_def)
  moreover have "splice (length r) (take ?n x) (cs_buf cs) = (r @ take ?n x) @ replicate (64 - length (r @ take ?n x)) 0"
    using assms by (simp add: cs_ok_def splice_def)
  moreover have "(if 64 - length r > length x then length x else 64 - length r) = ?n" by simp
  ultimately show ?thesis
    using r by (simp add: chunk_state_fill_buf_def BLAKE3_BLOCK_LEN_def Let_def set_buf_def t)
qed

lemma absorb_blocks_fill:
  assumes "cs_ok cs []"
  shows "snd (chunk_state_fill_buf (fst (chunk_state_blocks x cs)) (snd (chunk_state_blocks x cs))) = absorb x cs"
proof -
  have "cs_ok (snd (chunk_state_blocks x cs)) []" using assms blocks_absorb(3,4)[of x cs] by (simp add: cs_ok_def)
  then show ?thesis
    using blocks_absorb(1,2)[of x cs] by (auto simp: fill_buf split: prod.splits)
qed

lemma chunk_state_update_absorb:
  assumes "cs_ok cs r"
  shows "chunk_state_update x cs = absorb (r @ x) cs"
proof (cases "r = []")
  case True
  then have "cs_buf_len cs = 0" using assms by (simp add: cs_ok_def)
  then show ?thesis
    using absorb_blocks_fill[of cs x] assms True by (simp add: chunk_state_update_def Let_def split_beta)
next
  case False
  have r: "0 < length r" "length r \<le> 64" using False assms by (simp_all add: cs_ok_def)
  have "unat (cs_buf_len cs) = length r" using assms r by (simp add: cs_ok_def unat_small)
  then have pos: "cs_buf_len cs > 0" using r(1) by (metis unat_0 unat_gt_0 word_gt_0)
  show ?thesis
  proof (cases "length r + length x \<le> 64")
    case True
    let ?cs = "set_buf (r @ x) cs"
    have ok: "cs_ok ?cs (r @ x)" using True by (simp add: set_buf_ok)
    have "chunk_state_blocks [] ?cs = ([], ?cs)" by (subst chunk_state_blocks.simps) simp
    then have "chunk_state_update x cs = snd (chunk_state_fill_buf [] ?cs)"
      using pos fill_buf[OF assms, of x] True by (simp add: chunk_state_update_def Let_def)
    then show ?thesis
      using True fill_buf[OF ok, of "[]"] by (subst absorb.simps) simp
  next
    case F: False
    let ?b = "r @ take (64 - length r) x" and ?y = "drop (64 - length r) x"
    let ?cs = "(chunk_state_compress ?b (set_buf ?b cs))\<lparr>cs_buf_len := 0, cs_buf := replicate 64 0\<rparr>"
    have cs: "?cs = set_buf [] (chunk_state_compress ?b cs)"
      by (simp add: set_buf_def chunk_state_compress_def chunk_state_maybe_start_flag_def)
    have buf: "cs_buf (set_buf ?b cs) = ?b" using F r by (simp add: set_buf_def)
    have "chunk_state_update x cs =
        snd (chunk_state_fill_buf (fst (chunk_state_blocks ?y ?cs)) (snd (chunk_state_blocks ?y ?cs)))"
      using pos fill_buf[OF assms, of x] F r buf
      by (simp add: chunk_state_update_def Let_def BLAKE3_BLOCK_LEN_def min_def split: prod.splits)
    also have "\<dots> = absorb ?y (chunk_state_compress ?b cs)"
      using absorb_blocks_fill[of ?cs ?y] unfolding cs by (simp add: set_buf_ok)
    also have "\<dots> = absorb (r @ x) cs"
      using F r by (subst (2) absorb.simps) simp
    finally show ?thesis .
  qed
qed

lemma absorb_fields [simp]: "cs_counter (absorb bs cs) = cs_counter cs" "cs_flags (absorb bs cs) = cs_flags cs"
proof (induction bs cs rule: absorb.induct)
  case (1 bs cs)
  {
    case 1
    show ?case using "1.IH" by (subst absorb.simps) (simp add: set_buf_def chunk_state_compress_def)
  next
    case 2
    show ?case using "1.IH" by (subst absorb.simps) (simp add: set_buf_def chunk_state_compress_def)
  }
qed

lemma absorb_rest:
  "\<exists>r k. cs_ok (absorb bs cs) r \<and> length bs = 64 * k + length r \<and> (bs \<noteq> [] \<longrightarrow> r \<noteq> []) \<and>
     cs_blocks (absorb bs cs) = cs_blocks cs + word_of_nat k \<and>
     (\<forall>y. absorb (r @ y) (absorb bs cs) = absorb (bs @ y) cs)"
proof (induction bs cs rule: absorb.induct)
  case (1 bs cs)
  show ?case
  proof (cases "length bs > 64")
    case False
    then have a: "absorb bs cs = set_buf bs cs" by (subst absorb.simps) simp
    have "cs_ok (absorb bs cs) bs" using False by (simp add: a set_buf_ok)
    moreover have "cs_blocks (absorb bs cs) = cs_blocks cs" by (simp add: a set_buf_def)
    moreover have "\<forall>y. absorb (bs @ y) (absorb bs cs) = absorb (bs @ y) cs" by (simp add: a)
    ultimately show ?thesis by (intro exI[of _ bs] exI[of _ 0]) simp
  next
    case True
    let ?c = "chunk_state_compress (take 64 bs) cs"
    have a: "absorb bs cs = absorb (drop 64 bs) ?c" using True by (subst absorb.simps) simp
    have b: "absorb (bs @ y) cs = absorb (drop 64 bs @ y) ?c" for y
      using True by (subst absorb.simps) simp
    obtain r k where "cs_ok (absorb (drop 64 bs) ?c) r \<and> length (drop 64 bs) = 64 * k + length r \<and>
      (drop 64 bs \<noteq> [] \<longrightarrow> r \<noteq> []) \<and> cs_blocks (absorb (drop 64 bs) ?c) = cs_blocks ?c + word_of_nat k \<and>
      (\<forall>y. absorb (r @ y) (absorb (drop 64 bs) ?c) = absorb (drop 64 bs @ y) ?c)"
      using "1.IH"[OF True] by (elim exE)
    note r = this[THEN conjunct1] this[THEN conjunct2, THEN conjunct1] this[THEN conjunct2, THEN conjunct2, THEN conjunct1]
      this[THEN conjunct2, THEN conjunct2, THEN conjunct2, THEN conjunct1]
      this[THEN conjunct2, THEN conjunct2, THEN conjunct2, THEN conjunct2]
    have "length bs = 64 * Suc k + length r" using r(2) True by simp
    moreover have "cs_blocks (absorb bs cs) = cs_blocks cs + word_of_nat (Suc k)"
      using r(4) by (simp add: a chunk_state_compress_def)
    moreover have "r \<noteq> []" using r(3) True by simp
    moreover have "\<forall>y. absorb (r @ y) (absorb bs cs) = absorb (bs @ y) cs" unfolding a b by (rule r(5))
    moreover have "cs_ok (absorb bs cs) r" unfolding a by (rule r(1))
    ultimately show ?thesis by blast
  qed
qed

lemma update_absorb: "chunk_state_update y (absorb bs cs) = absorb (bs @ y) cs"
  using absorb_rest[of bs cs] chunk_state_update_absorb by metis

text \<open>The state of a chunk that has received \<open>bs\<close>.\<close>

definition chunk_cs :: "u32 list \<Rightarrow> u8 \<Rightarrow> u64 \<Rightarrow> bytes \<Rightarrow> blake3_chunk_state" where
  "chunk_cs key flags ctr bs = absorb bs ((chunk_state_init key flags)\<lparr>cs_counter := ctr\<rparr>)"

lemma chunk_cs_fields [simp]:
  "cs_counter (chunk_cs key flags ctr bs) = ctr" "cs_flags (chunk_cs key flags ctr bs) = flags"
  by (simp_all add: chunk_cs_def chunk_state_init_def)

lemma chunk_cs_update: "chunk_state_update y (chunk_cs key flags ctr bs) = chunk_cs key flags ctr (bs @ y)"
  by (simp add: chunk_cs_def update_absorb)

lemma chunk_cs_Nil: "chunk_cs key flags ctr [] = (chunk_state_init key flags)\<lparr>cs_counter := ctr\<rparr>"
  by (simp add: chunk_cs_def absorb.simps set_buf_def chunk_state_init_def BLAKE3_BLOCK_LEN_def)

lemma chunk_cs_reset: "chunk_state_reset key c (chunk_cs key flags ctr bs) = chunk_cs key flags c []"
  by (rule blake3_chunk_state.equality) (simp_all add: chunk_cs_Nil chunk_state_reset_def, simp_all add: chunk_state_init_def)

lemma chunk_cs_len:
  assumes "length bs \<le> 1024"
  shows "chunk_state_len (chunk_cs key flags ctr bs) = length bs"
proof -
  obtain r k where r: "cs_ok (chunk_cs key flags ctr bs) r" "length bs = 64 * k + length r"
    "cs_blocks (chunk_cs key flags ctr bs) = word_of_nat k"
    using absorb_rest[of bs "(chunk_state_init key flags)\<lparr>cs_counter := ctr\<rparr>"]
    by (auto simp: chunk_cs_def chunk_state_init_def)
  have "k \<le> 64" using r(2) assms by simp
  then show ?thesis
    using r by (simp add: chunk_state_len_def BLAKE3_BLOCK_LEN_def cs_ok_def unat_small)
qed

section \<open>The tree hash of a message\<close>

text \<open>
  A chunk is hashed block by block, the first block flagged as start and the last as end;
  a longer message is a parent of its left part, the largest power of two of whole chunks
  that leaves something for the right, and the rest.
\<close>

function chunk_spec :: "u32 list \<Rightarrow> bool \<Rightarrow> u64 \<Rightarrow> u8 \<Rightarrow> bytes \<Rightarrow> output_t" where
  "chunk_spec cv first ctr flags bs =
     (let fl = flags OR (if first then CHUNK_START else 0)
      in if length bs > 64
         then chunk_spec (blake3_compress_in_place cv (take 64 bs) 64 ctr fl) False ctr flags (drop 64 bs)
         else make_output cv (bs @ replicate (64 - length bs) 0) (word_of_nat (length bs)) ctr (fl OR CHUNK_END))"
  by pat_completeness auto
termination by (relation "measure (\<lambda>(_, _, _, _, bs). length bs)") auto

declare chunk_spec.simps [simp del]

function tree_output :: "u32 list \<Rightarrow> u8 \<Rightarrow> nat \<Rightarrow> bytes \<Rightarrow> output_t" where
  "tree_output key flags ctr bs =
     (if length bs \<le> BLAKE3_CHUNK_LEN then chunk_spec key True (word_of_nat ctr) flags bs
      else
        (let l = left_subtree_len (length bs)
         in parent_output (output_chaining_value (tree_output key flags ctr (take l bs)) @
                           output_chaining_value (tree_output key flags (ctr + l div BLAKE3_CHUNK_LEN) (drop l bs)))
              key flags))"
  by pat_completeness auto
termination
  using left_subtree_len_bounds
  by (relation "measure (\<lambda>(_, _, _, bs). length bs)") (auto simp: not_le intro!: diff_less)

declare tree_output.simps [simp del]

definition tree_cv :: "u32 list \<Rightarrow> u8 \<Rightarrow> nat \<Rightarrow> bytes \<Rightarrow> bytes" where
  "tree_cv key flags ctr bs = output_chaining_value (tree_output key flags ctr bs)"

definition blake3_spec :: "u32 list \<Rightarrow> u8 \<Rightarrow> bytes \<Rightarrow> u64 \<Rightarrow> nat \<Rightarrow> bytes" where
  "blake3_spec key flags bs seek n = output_root_bytes (tree_output key flags 0 bs) seek n"

lemma absorb_spec:
  "length bs + 64 * unat (cs_blocks cs) \<le> 1024 \<Longrightarrow>
   chunk_state_output (absorb bs cs) = chunk_spec (cs_cv cs) (cs_blocks cs = 0) (cs_counter cs) (cs_flags cs) bs"
proof (induction bs cs rule: absorb.induct)
  case (1 bs cs)
  show ?case
  proof (cases "length bs > 64")
    case True
    have lt: "unat (cs_blocks cs) < 16" using 1(2) True by simp
    then have u: "unat (cs_blocks cs + 1) = unat (cs_blocks cs) + 1" by (simp add: unat_word_ariths)
    then have "cs_blocks cs + 1 \<noteq> 0" by (metis add_gr_0 less_numeral_extra(1) not_gr_zero unat_0)
    then show ?thesis
      using True 1(2) u "1.IH"[OF True]
      by (subst absorb.simps, subst chunk_spec.simps)
         (simp add: chunk_state_compress_def chunk_state_maybe_start_flag_def BLAKE3_BLOCK_LEN_def Let_def)
  next
    case False
    then show ?thesis
      by (subst absorb.simps, subst chunk_spec.simps)
         (simp add: chunk_state_output_def chunk_state_maybe_start_flag_def set_buf_def Let_def or.assoc)
  qed
qed

lemma chunk_cs_spec:
  assumes "length bs \<le> 1024"
  shows "chunk_state_output (chunk_cs key flags (word_of_nat ctr) bs) = tree_output key flags ctr bs"
  using assms absorb_spec[of bs "(chunk_state_init key flags)\<lparr>cs_counter := word_of_nat ctr\<rparr>"]
  by (subst tree_output.simps) (simp add: chunk_cs_def chunk_state_init_def BLAKE3_CHUNK_LEN_def)

lemma hash_one_spec:
  assumes "length bs = 64 * Suc n"
  shows "store_cv_words (hash_one_loop (Suc n) cv (bs @ z) ctr flags (flags OR (if first then CHUNK_START else 0)) CHUNK_END)
    = output_chaining_value (chunk_spec cv first ctr flags bs)"
  using assms
proof (induction n arbitrary: cv bs first)
  case 0
  then show ?case
    by (subst chunk_spec.simps)
       (simp add: output_chaining_value_def make_output_def blake3_compress_in_place_def BLAKE3_BLOCK_LEN_def)
next
  case (Suc n)
  have len: "64 < length bs" "length (drop 64 bs) = 64 * Suc n" using Suc.prems by simp_all
  have "hash_one_loop (Suc (Suc n)) cv (bs @ z) ctr flags (flags OR (if first then CHUNK_START else 0)) CHUNK_END =
     hash_one_loop (Suc n) (blake3_compress_in_place cv (take 64 bs) 64 ctr (flags OR (if first then CHUNK_START else 0)))
       (drop 64 bs @ z) ctr flags (flags OR (if False then CHUNK_START else 0)) CHUNK_END"
    using len(1) by (subst hash_one_loop.simps) (simp add: BLAKE3_BLOCK_LEN_def blake3_compress_in_place_def Let_def del: hash_one_loop.simps)
  then show ?case
    using Suc.IH[OF len(2), of _ False] len(1) by (subst chunk_spec.simps) (simp add: Let_def del: hash_one_loop.simps)
qed

section \<open>Subtrees\<close>

abbreviation parent_cv :: "u32 list \<Rightarrow> u8 \<Rightarrow> bytes \<Rightarrow> bytes \<Rightarrow> bytes" where
  "parent_cv key flags a b \<equiv> output_chaining_value (parent_output (a @ b) key flags)"

lemma length_store_cv_words [simp]: "length (store_cv_words cv) = 32"
  by (simp add: store_cv_words_def store32_def upt_rec)

lemma length_output_cv [simp]: "length (output_chaining_value out) = 32"
  by (simp add: output_chaining_value_def)

lemma length_tree_cv [simp]: "length (tree_cv key flags c bs) = 32"
  by (simp add: tree_cv_def)

lemma left_subtree_len_pow:
  assumes "1024 < n" and "n < 2 ^ 64"
  obtains t where "left_subtree_len n = 2 ^ t * 1024" "2 ^ t * 1024 < n" "n \<le> 2 * (2 ^ t * 1024)"
proof -
  let ?k = "(n - 1) div 1024"
  have "0 < ?k" "?k < 2 ^ 64" using assms by (simp_all add: div_greater_zero_iff)
  then obtain t where t: "unat (round_down_to_power_of_2 (word_of_nat ?k)) = 2 ^ t" "2 ^ t \<le> ?k" "?k < 2 * 2 ^ t"
    by (rule round_down_nat)
  have "left_subtree_len n = 2 ^ t * 1024" using t(1) by (simp add: left_subtree_len_def BLAKE3_CHUNK_LEN_def)
  moreover have "2 ^ t * 1024 \<le> n - 1" using t(2) by (simp add: less_eq_div_iff_mult_less_eq)
  moreover have "n - 1 < 2 * 2 ^ t * 1024" using t(3) by (simp add: div_less_iff_less_mult)
  ultimately show ?thesis using that assms(1) by simp
qed

lemma left_subtree_len_unique:
  assumes "2 ^ t * 1024 < n" and "n \<le> 2 * (2 ^ t * 1024)" and "n < 2 ^ 64"
  shows "left_subtree_len n = 2 ^ t * 1024"
proof -
  have "1 \<le> (2 :: nat) ^ t" by simp
  then have n: "1024 < n" using assms(1) by linarith
  obtain u where u: "left_subtree_len n = 2 ^ u * 1024" "2 ^ u * 1024 < n" "n \<le> 2 * (2 ^ u * 1024)"
    using left_subtree_len_pow[OF n assms(3)] .
  have "(2 :: nat) ^ u < 2 ^ Suc t" "(2 :: nat) ^ t < 2 ^ Suc u" using u(2,3) assms(1,2) by simp_all
  then have "u < Suc t" "t < Suc u" by (simp_all only: power_strict_increasing_iff one_less_numeral_iff semiring_norm)
  then show ?thesis using u(1) by (simp add: le_antisym less_Suc_eq_le)
qed

lemma compress_chunk:
  assumes "0 < length bs" and "length bs \<le> 1024"
  shows "compress_chunks_parallel bs key (word_of_nat c) flags = [tree_cv key flags c bs]"
proof (cases "length bs = 1024")
  case True
  then have "hash_one_portable bs 16 key (word_of_nat c) flags CHUNK_START CHUNK_END = tree_cv key flags c bs"
    using hash_one_spec[of bs 15 key "[]" "word_of_nat c" flags True]
    by (subst tree_cv_def, subst tree_output.simps)
       (simp add: hash_one_portable_def BLAKE3_CHUNK_LEN_def del: hash_one_loop.simps)
  then show ?thesis
    using True by (simp add: compress_chunks_parallel_def BLAKE3_CHUNK_LEN_def BLAKE3_BLOCK_LEN_def blake3_hash_many_def)
next
  case False
  then have z: "length bs div 1024 = 0" using assms(2) by simp
  have "chunk_state_update bs ((chunk_state_init key flags)\<lparr>cs_counter := word_of_nat c\<rparr>) =
      chunk_cs key flags (word_of_nat c) bs"
    using chunk_cs_update[of bs key flags "word_of_nat c" "[]"] by (simp add: chunk_cs_Nil)
  then show ?thesis
    using assms z chunk_cs_spec[OF assms(2), of key flags c]
    by (simp add: compress_chunks_parallel_def BLAKE3_CHUNK_LEN_def blake3_hash_many_def tree_cv_def)
qed

lemma parent_hash:
  assumes "length b = 64"
  shows "hash_one_portable b 1 key 0 (flags OR PARENT) 0 0 = output_chaining_value (parent_output b key flags)"
  using assms
  by (simp add: hash_one_portable_def output_chaining_value_def parent_output_def make_output_def
      blake3_compress_in_place_def BLAKE3_BLOCK_LEN_def)

lemma compress_parents:
  assumes "length a = 32" "length b = 32"
  shows "length c = 32 \<Longrightarrow> length d = 32 \<Longrightarrow>
      compress_parents_parallel [a, b, c, d] key flags = [parent_cv key flags a b, parent_cv key flags c d]"
    and "compress_parents_parallel [a, b, c] key flags = [parent_cv key flags a b, c]"
  using assms
  by (simp_all add: compress_parents_parallel_def Let_def blake3_hash_many_def upt_rec parent_hash[simplified])

lemma tree_cv_parent:
  assumes "1024 < length bs"
  shows "tree_cv key flags c bs =
    parent_cv key flags (tree_cv key flags c (take (left_subtree_len (length bs)) bs))
      (tree_cv key flags (c + left_subtree_len (length bs) div 1024) (drop (left_subtree_len (length bs)) bs))"
  using assms unfolding tree_cv_def by (subst tree_output.simps) (simp add: Let_def BLAKE3_CHUNK_LEN_def)

lemma subtree_wide_spec:
  assumes "0 < length bs" and "length bs < 2 ^ 64"
  shows "blake3_compress_subtree_wide bs key (word_of_nat c) flags =
    (if length bs \<le> 1024 then [tree_cv key flags c bs]
     else [tree_cv key flags c (take (left_subtree_len (length bs)) bs),
           tree_cv key flags (c + left_subtree_len (length bs) div 1024) (drop (left_subtree_len (length bs)) bs)])"
  using assms
proof (induction "length bs" arbitrary: bs c rule: less_induct)
  case less
  show ?case
  proof (cases "length bs \<le> 1024")
    case True
    then show ?thesis
      using compress_chunk[OF less.prems(1)]
      by (subst blake3_compress_subtree_wide.simps) (simp add: blake3_simd_degree_def BLAKE3_CHUNK_LEN_def)
  next
    case False
    then obtain t where t: "left_subtree_len (length bs) = 2 ^ t * 1024" "2 ^ t * 1024 < length bs"
        "length bs \<le> 2 * (2 ^ t * 1024)"
      using left_subtree_len_pow[of "length bs"] less.prems by (metis not_le)
    define l where "l = 2 ^ t * (1024 :: nat)"
    have p1: "Suc 0 < 2 * 2 ^ n" for n :: nat
      using one_le_power[of "2 :: nat" n] by linarith
    have ll: "left_subtree_len (length bs) = l" "l < length bs" "length bs \<le> 2 * l" "0 < l" "1024 < l \<longleftrightarrow> t \<noteq> 0" "l \<ge> 1024"
      using t p1 by (simp_all add: l_def) (cases t, simp_all)
    define L where "L = blake3_compress_subtree_wide (take l bs) key (word_of_nat c) flags"
    define R where "R = blake3_compress_subtree_wide (drop l bs) key (word_of_nat (c + l div 1024)) flags"
    let ?A = "\<lambda>d. splice d R (splice 0 L (replicate 32 []))"
    have unf: "blake3_compress_subtree_wide bs key (word_of_nat c) flags =
        (if length L = 1 then take 2 (?A (if t = 0 then 1 else 2))
         else compress_parents_parallel (take (length L + length R) (?A (if t = 0 then 1 else 2))) key flags)"
      using False ll(5) unfolding L_def R_def
      by (subst blake3_compress_subtree_wide.simps)
         (simp add: blake3_simd_degree_def BLAKE3_CHUNK_LEN_def Let_def MAX_SIMD_DEGREE_OR_2_def MAX_SIMD_DEGREE_def ll(1))
    have ln: "length (take l bs) = l" "length (drop l bs) = length bs - l" using ll by simp_all
    have l64: "l < 2 ^ 64" "length bs - l < 2 ^ 64" using ll(2) less.prems(2) by simp_all
    have Ls: "L = (if l \<le> 1024 then [tree_cv key flags c (take l bs)]
        else [tree_cv key flags c (take (left_subtree_len l) (take l bs)),
              tree_cv key flags (c + left_subtree_len l div 1024) (drop (left_subtree_len l) (take l bs))])"
      unfolding L_def using less.hyps[of "take l bs" c, unfolded ln] ll(2,4) l64 by blast
    have Rs: "R = (if length bs - l \<le> 1024 then [tree_cv key flags (c + l div 1024) (drop l bs)]
        else [tree_cv key flags (c + l div 1024) (take (left_subtree_len (length bs - l)) (drop l bs)),
              tree_cv key flags (c + l div 1024 + left_subtree_len (length bs - l) div 1024)
                (drop (left_subtree_len (length bs - l)) (drop l bs))])"
      unfolding R_def using less.hyps[of "drop l bs" "c + l div 1024", unfolded ln] ll(2,4) l64 by force
    have "blake3_compress_subtree_wide bs key (word_of_nat c) flags =
      [tree_cv key flags c (take l bs), tree_cv key flags (c + l div 1024) (drop l bs)]"
    proof (cases "t = 0")
      case True
      then have "l = 1024" "length bs - l \<le> 1024" using ll(3) by (simp_all add: l_def)
      then show ?thesis unfolding unf Ls Rs by (simp add: True splice_def)
    next
      case F: False
      then have la: "1024 < length (take l bs)" using ll(5) ln by simp
      have "compress_parents_parallel (L @ R) key flags = [tree_cv key flags c (take l bs), tree_cv key flags (c + l div 1024) (drop l bs)]"
      proof (cases "length bs - l \<le> 1024")
        case True
        then show ?thesis
          using la tree_cv_parent[OF la, of key flags c, unfolded ln] unfolding Ls Rs by (simp add: compress_parents(2) ln)
      next
        case G: False
        then have lb: "1024 < length (drop l bs)" using ln by simp
        show ?thesis
          using la G tree_cv_parent[OF la, of key flags c, unfolded ln] tree_cv_parent[OF lb, of key flags "c + l div 1024", unfolded ln]
          unfolding Ls Rs by (simp add: compress_parents(1) ln)
      qed
      moreover have "length L = 2" "length R \<le> 2" using la ln unfolding Ls Rs by simp_all
      then have "take (length L + length R) (?A 2) = L @ R" by (simp add: splice_def)
      ultimately show ?thesis using F \<open>length L = 2\<close> unfolding unf by simp
    qed
    then show ?thesis using False by (simp add: ll(1))
  qed
qed

lemma subtree_to_parent_spec:
  assumes "1024 < length bs" and "length bs < 2 ^ 64"
  shows "compress_subtree_to_parent_node bs key (word_of_nat c) flags =
    [tree_cv key flags c (take (left_subtree_len (length bs)) bs),
     tree_cv key flags (c + left_subtree_len (length bs) div 1024) (drop (left_subtree_len (length bs)) bs)]"
proof -
  have "0 < length bs" "\<not> length bs \<le> 1024" using assms(1) by linarith+
  then show ?thesis
    using subtree_wide_spec[of bs key c flags] assms
    unfolding compress_subtree_to_parent_node_def by (subst condense_cvs.simps) simp
qed

section \<open>Binary expansions\<close>

text \<open>The powers of two of a number, largest first: the shape of a fully merged stack.\<close>

fun bin :: "nat \<Rightarrow> nat list" where
  "bin n = (if n = 0 then [] else map ((*) 2) (bin (n div 2)) @ (if odd n then [1] else []))"

declare bin.simps [simp del]

lemma bin_0 [simp]: "bin 0 = []"
  by (simp add: bin.simps)

lemma bin_double: "bin (2 * b) = map ((*) 2) (bin b)"
  by (cases "b = 0") (simp_all add: bin.simps[of "2 * b"])

lemma bin_double_1: "bin (Suc (2 * b)) = map ((*) 2) (bin b) @ [1]"
  by (simp add: bin.simps[of "Suc (2 * b)"])

lemma sum_bin [simp]: "sum_list (bin n) = n"
proof (induction n rule: bin.induct)
  case (1 n)
  have "sum_list (map ((*) 2) xs) = 2 * sum_list xs" for xs :: "nat list" by (induction xs) simp_all
  then show ?case using 1 by (subst bin.simps) (auto simp: mult.commute elim!: oddE evenE)
qed

lemma bin_add:
  assumes "2 ^ k dvd a" and "even (a div 2 ^ k)"
  shows "bin (a + 2 ^ k) = bin a @ [2 ^ k]"
  using assms
proof (induction k arbitrary: a)
  case 0
  then obtain b where "a = 2 * b" by (auto elim: evenE)
  then show ?case by (simp add: bin_double bin_double_1)
next
  case (Suc k)
  have "2 dvd a" using Suc.prems(1) by (metis dvd_mult_left power_Suc)
  then obtain b where b: "a = 2 * b" by (auto elim: evenE)
  then have "2 ^ k dvd b" "even (b div 2 ^ k)" using Suc.prems by simp_all
  from Suc.IH[OF this] have "bin (2 * (b + 2 ^ k)) = bin a @ [2 ^ Suc k]" by (simp only: bin_double b) simp
  then show ?case by (simp add: b)
qed

lemma bin_length: "n < 2 ^ w \<Longrightarrow> length (bin n) \<le> w"
proof (induction w arbitrary: n)
  case 0
  then show ?case by simp
next
  case (Suc w)
  have "length (bin (n div 2)) \<le> w" using Suc.IH[of "n div 2"] Suc.prems by (simp add: div_less_iff_less_mult mult.commute)
  then show ?case by (subst bin.simps) simp
qed

lemma bin_popcount: "n < 2 ^ w \<Longrightarrow> length (filter (bit n) [0..<w]) = length (bin n)"
proof (induction w arbitrary: n)
  case 0
  then show ?case by simp
next
  case (Suc w)
  have up: "[0..<Suc w] = 0 # map Suc [0..<w]" by (simp add: upt_conv_Cons map_Suc_upt del: upt_Suc)
  have "filter (bit n) (map Suc [0..<w]) = map Suc (filter (bit (n div 2)) [0..<w])"
    by (simp add: filter_map o_def bit_Suc)
  moreover have "length (filter (bit (n div 2)) [0..<w]) = length (bin (n div 2))"
    using Suc.IH[of "n div 2"] Suc.prems by (simp add: div_less_iff_less_mult mult.commute)
  ultimately show ?case by (subst bin.simps) (simp add: up bit_0 del: upt_Suc)
qed

lemma popcnt_bin: "n < 2 ^ 64 \<Longrightarrow> popcnt (word_of_nat n) = length (bin n)"
proof -
  assume n: "n < 2 ^ 64"
  have "filter (bit (word_of_nat n :: u64)) [0..<64] = filter (bit n) [0..<64]"
    by (rule filter_cong) (auto simp: bit_of_nat_iff simp del: upt_rec_numeral)
  then show ?thesis using bin_popcount[OF n] unfolding popcnt_def by metis
qed

text \<open>A part of at most \<open>w\<close> bytes may follow the subtrees: every subtree is at least as large as all that follows.\<close>

fun fits :: "nat list \<Rightarrow> nat \<Rightarrow> bool" where
  "fits [] w = True"
| "fits (s # ss) w = ((\<exists>t. s = 2 ^ t) \<and> sum_list ss * 1024 + w \<le> s * 1024 \<and> fits ss w)"

lemma sum_map_double: "sum_list (map ((*) 2) xs) = 2 * sum_list (xs :: nat list)"
  by (induction xs) simp_all

lemma fits_double: "fits xs v \<Longrightarrow> w \<le> 2 * v \<Longrightarrow> fits (map ((*) 2) xs) w"
proof (induction xs)
  case (Cons s ss)
  then obtain t where "s = 2 ^ t" by auto
  then have "2 * s = 2 ^ Suc t" by simp
  then show ?case using Cons by (auto simp: sum_map_double intro: exI[of _ "Suc t"])
qed simp

lemma fits_double_1: "fits xs 1024 \<Longrightarrow> w \<le> 1024 \<Longrightarrow> fits (map ((*) 2) xs @ [1]) w"
proof (induction xs)
  case Nil
  then show ?case by (auto intro: exI[of _ 0])
next
  case (Cons s ss)
  then obtain t where "s = 2 ^ t" by auto
  then have "2 * s = 2 ^ Suc t" by simp
  then show ?case using Cons by (auto simp: sum_map_double intro: exI[of _ "Suc t"])
qed

lemma bin_fits: "2 ^ k dvd a \<Longrightarrow> w \<le> 2 ^ k * 1024 \<Longrightarrow> fits (bin a) w"
proof (induction a arbitrary: k w rule: bin.induct)
  case (1 a)
  show ?case
  proof (cases "a = 0")
    case False
    note IH = "1.IH"[OF False]
    show ?thesis
    proof (cases "odd a")
      case True
      then have "k = 0" using "1.prems"(1) by (cases k) auto
      then show ?thesis
        using IH[of 0 1024] True "1.prems"(2) False by (subst bin.simps) (simp add: fits_double_1 del: One_nat_def)
    next
      case F: False
      then obtain b where b: "a = 2 * b" by (auto elim: evenE)
      show ?thesis
      proof (cases k)
        case 0
        then show ?thesis
          using fits_double[OF IH[of 0 1024], of w] "1.prems"(2) b by (simp add: bin_double)
      next
        case (Suc j)
        then have "2 ^ j dvd b" using "1.prems"(1) b by simp
        then show ?thesis
          using fits_double[OF IH[of j "2 ^ j * 1024"], of w] "1.prems"(2) b Suc by (simp add: bin_double)
      qed
    qed
  qed simp
qed

section \<open>The stack\<close>

fun stk_ok :: "u32 list \<Rightarrow> u8 \<Rightarrow> nat \<Rightarrow> nat list \<Rightarrow> bytes \<Rightarrow> bytes list \<Rightarrow> bool" where
  "stk_ok key flags c [] bs st \<longleftrightarrow> bs = [] \<and> st = []"
| "stk_ok key flags c (s # ss) bs [] \<longleftrightarrow> False"
| "stk_ok key flags c (s # ss) bs (v # st) \<longleftrightarrow>
     s * 1024 \<le> length bs \<and> v = tree_cv key flags c (take (s * 1024) bs) \<and>
     stk_ok key flags (c + s) ss (drop (s * 1024) bs) st"

lemma stk_ok_length: "stk_ok key flags c ss bs st \<Longrightarrow> length st = length ss \<and> length bs = sum_list ss * 1024"
  by (induction key flags c ss bs st rule: stk_ok.induct) auto

lemma stk_ok_snoc:
  "stk_ok key flags c (ss @ [s]) bs st \<longleftrightarrow>
     (\<exists>P x st'. bs = P @ x \<and> st = st' @ [tree_cv key flags (c + sum_list ss) x] \<and> length x = s * 1024 \<and>
        stk_ok key flags c ss P st')"
proof (induction key flags c ss bs st rule: stk_ok.induct)
  case (1 key flags c bs st)
  show ?case
  proof (cases st)
    case (Cons v vs)
    then show ?thesis by (cases vs) auto
  qed simp
next
  case (2 key flags c s ss bs)
  then show ?case by auto
next
  case (3 key flags c s' ss bs v st)
  show ?case (is "?l = ?r")
  proof
    assume ?l
    then obtain P x st' where *: "s' * 1024 \<le> length bs" "v = tree_cv key flags c (take (s' * 1024) bs)"
      "drop (s' * 1024) bs = P @ x" "st = st' @ [tree_cv key flags (c + s' + sum_list ss) x]" "length x = s * 1024"
      "stk_ok key flags (c + s') ss P st'"
      using 3 by auto
    have "bs = (take (s' * 1024) bs @ P) @ x" using *(3) append_take_drop_id[of "s' * 1024" bs] by simp
    then show ?r
      using * by (intro exI[of _ "take (s' * 1024) bs @ P"] exI[of _ x] exI[of _ "v # st'"]) (simp add: add.assoc)
  next
    assume ?r
    then obtain P x vs where r: "bs = P @ x" "v # st = vs @ [tree_cv key flags (c + sum_list (s' # ss)) x]"
      "length x = s * 1024" "stk_ok key flags c (s' # ss) P vs" by blast
    then obtain st' where "vs = v # st'" by (cases vs) auto
    then show ?l using r 3 by (auto simp: add.assoc)
  qed
qed

definition rep :: "u32 list \<Rightarrow> u8 \<Rightarrow> bytes \<Rightarrow> nat list \<Rightarrow> blake3_hasher \<Rightarrow> bool" where
  "rep key flags P ss self \<longleftrightarrow>
     h_key self = key \<and> cs_flags (h_chunk self) = flags \<and> stk_ok key flags 0 ss P (h_stack self)"

lemma rep_sum: "rep key flags P ss self \<Longrightarrow> length P = sum_list ss * 1024 \<and> length (h_stack self) = length ss"
  by (auto simp: rep_def dest: stk_ok_length)

lemma merge_top_chunk [simp]: "h_chunk (merge_top self) = h_chunk self"
  by (simp add: merge_top_def Let_def)

lemma merge_top_rep:
  assumes "rep key flags P (ss @ [2 ^ t, 2 ^ t]) self" and "length P < 2 ^ 64"
  shows "rep key flags P (ss @ [2 ^ Suc t]) (merge_top self)"
proof -
  have "stk_ok key flags 0 ((ss @ [2 ^ t]) @ [2 ^ t]) P (h_stack self)" using assms(1) by (simp add: rep_def)
  then obtain Q x st where x: "P = Q @ x" "h_stack self = st @ [tree_cv key flags (sum_list ss + 2 ^ t) x]"
    "length x = 2 ^ t * 1024" "stk_ok key flags 0 (ss @ [2 ^ t]) Q st"
    unfolding stk_ok_snoc[of _ _ _ "ss @ [2 ^ t]"] by auto
  obtain R y vs where y: "Q = R @ y" "st = vs @ [tree_cv key flags (sum_list ss) y]" "length y = 2 ^ t * 1024"
    "stk_ok key flags 0 ss R vs"
    using x(4) unfolding stk_ok_snoc by auto
  have "left_subtree_len (length (y @ x)) = 2 ^ t * 1024"
    using x y assms(2) by (intro left_subtree_len_unique) simp_all
  moreover have "1024 < length (y @ x)"
    using x(3) y(3) one_le_power[of "2 :: nat" t] unfolding length_append by linarith
  ultimately have "tree_cv key flags (sum_list ss) (y @ x) =
      parent_cv key flags (tree_cv key flags (sum_list ss) y) (tree_cv key flags (sum_list ss + 2 ^ t) x)"
    using tree_cv_parent[of "y @ x" key flags "sum_list ss"] y(3) by simp
  moreover have "h_stack (merge_top self) = vs @
      [parent_cv key flags (tree_cv key flags (sum_list ss) y) (tree_cv key flags (sum_list ss + 2 ^ t) x)]"
    using x(2) y(2) assms(1) by (simp add: merge_top_def Let_def nth_append rep_def)
  ultimately have "stk_ok key flags 0 (ss @ [2 ^ Suc t]) P (h_stack (merge_top self))"
    unfolding stk_ok_snoc using x y by (intro exI[of _ R] exI[of _ "y @ x"] exI[of _ vs]) simp
  then show ?thesis using assms(1) by (simp add: rep_def merge_top_def Let_def)
qed

lemma merge_stack_carry:
  assumes "rep key flags P (bin a @ [2 ^ k]) self" and "2 ^ k dvd a" and "length P < 2 ^ 64"
  shows "rep key flags P (bin (a + 2 ^ k)) (hasher_merge_cv_stack (word_of_nat (a + 2 ^ k)) self) \<and>
    h_chunk (hasher_merge_cv_stack (word_of_nat (a + 2 ^ k)) self) = h_chunk self \<and>
    length (bin (a + 2 ^ k)) \<le> Suc (length (bin a))"
  using assms
proof (induction "length (bin a)" arbitrary: a k self rule: less_induct)
  case less
  have lp: "length P = (a + 2 ^ k) * 1024" using rep_sum[OF less.prems(1)] by simp
  then have c64: "a + 2 ^ k < 2 ^ 64" using less.prems(3) by simp
  note pc = popcnt_bin[OF c64]
  have st: "length (h_stack self) = Suc (length (bin a))" using rep_sum[OF less.prems(1)] by simp
  show ?case
  proof (cases "even (a div 2 ^ k)")
    case True
    have "bin (a + 2 ^ k) = bin a @ [2 ^ k]" by (rule bin_add[OF less.prems(2) True])
    then show ?thesis using less.prems(1) st pc by (simp add: hasher_merge_cv_stack_def)
  next
    case False
    define b where "b = a - 2 ^ k"
    have "a div 2 ^ k \<noteq> 0" using False by (metis even_zero)
    then have "2 ^ k \<le> a" by (metis div_less not_le)
    then have ab: "a = b + 2 ^ k" by (simp add: b_def)
    have kb: "2 ^ k dvd b" using less.prems(2) ab by (simp add: dvd_add_left_iff)
    have ev: "even (b div 2 ^ k)" using False kb by (simp add: ab)
    have "2 ^ Suc k dvd b" using kb ev by (metis dvd_div_iff_mult mult.commute power_Suc power_not_zero zero_neq_numeral)
    have ba: "bin a = bin b @ [2 ^ k]" unfolding ab by (rule bin_add[OF kb ev])
    have m: "rep key flags P (bin b @ [2 ^ Suc k]) (merge_top self)"
      using merge_top_rep[OF _ less.prems(3)] less.prems(1) unfolding ba by simp
    have eq: "b + 2 ^ Suc k = a + 2 ^ k" by (simp add: ab)
    note IH = less.hyps[OF _ m \<open>2 ^ Suc k dvd b\<close> less.prems(3), unfolded eq]
    have lb: "length (bin b) < length (bin a)" by (simp add: ba)
    have sm: "length (h_stack (merge_top self)) = Suc (length (bin b))" using rep_sum[OF m] by simp
    have "hasher_merge_cv_stack (word_of_nat (a + 2 ^ k)) self =
        hasher_merge_cv_stack (word_of_nat (a + 2 ^ k)) (merge_top self)"
      using IH[OF lb] unfolding hasher_merge_cv_stack_def st sm pc
      by (simp add: ba Suc_diff_le funpow_swap1)
    then show ?thesis using IH[OF lb] ba by simp
  qed
qed

text \<open>The stack between two pushes: the expansion of the count, up to one pending carry.\<close>

definition lazy :: "nat \<Rightarrow> nat list \<Rightarrow> bool" where
  "lazy c ss \<longleftrightarrow> ss = bin c \<or> (\<exists>a k. 2 ^ k dvd a \<and> c = a + 2 ^ k \<and> ss = bin a @ [2 ^ k])"

lemma merge_lazy:
  assumes "rep key flags P ss self" and "lazy c ss" and "length P < 2 ^ 64"
  shows "rep key flags P (bin c) (hasher_merge_cv_stack (word_of_nat c) self)"
    and "h_chunk (hasher_merge_cv_stack (word_of_nat c) self) = h_chunk self"
proof -
  have "rep key flags P (bin c) (hasher_merge_cv_stack (word_of_nat c) self) \<and>
    h_chunk (hasher_merge_cv_stack (word_of_nat c) self) = h_chunk self"
  proof (cases "ss = bin c")
    case True
    then have "length P = c * 1024" "length (h_stack self) = length (bin c)" using rep_sum[OF assms(1)] by simp_all
    then show ?thesis using assms True popcnt_bin[of c] by (simp add: hasher_merge_cv_stack_def)
  next
    case False
    then obtain a k where "2 ^ k dvd a" "c = a + 2 ^ k" "ss = bin a @ [2 ^ k]" using assms(2) by (auto simp: lazy_def)
    then show ?thesis using merge_stack_carry assms by blast
  qed
  then show "rep key flags P (bin c) (hasher_merge_cv_stack (word_of_nat c) self)"
    and "h_chunk (hasher_merge_cv_stack (word_of_nat c) self) = h_chunk self" by blast+
qed

lemma push_cv_rep:
  assumes "rep key flags P ss self" and "lazy c ss" and "length (P @ x) < 2 ^ 64" and "length P = c * 1024"
    and "length x = 2 ^ k * 1024" and "2 ^ k dvd c"
  shows "rep key flags (P @ x) (bin c @ [2 ^ k]) (hasher_push_cv (tree_cv key flags c x) (word_of_nat c) self)"
    and "h_chunk (hasher_push_cv (tree_cv key flags c x) (word_of_nat c) self) = h_chunk self"
    and "lazy (c + 2 ^ k) (bin c @ [2 ^ k])"
proof -
  have P: "length P < 2 ^ 64" using assms(3) by simp
  note M = merge_lazy[OF assms(1,2) P]
  have "stk_ok key flags 0 (bin c @ [2 ^ k]) (P @ x)
      (h_stack (hasher_merge_cv_stack (word_of_nat c) self) @ [tree_cv key flags c x])"
    unfolding stk_ok_snoc using M(1) assms(5) by (auto simp: rep_def)
  then show "rep key flags (P @ x) (bin c @ [2 ^ k]) (hasher_push_cv (tree_cv key flags c x) (word_of_nat c) self)"
    using M(1) by (simp add: rep_def hasher_push_cv_def Let_def)
  show "h_chunk (hasher_push_cv (tree_cv key flags c x) (word_of_nat c) self) = h_chunk self"
    using M(2) by (simp add: hasher_push_cv_def Let_def)
  show "lazy (c + 2 ^ k) (bin c @ [2 ^ k])" using assms(6) by (auto simp: lazy_def)
qed

section \<open>Whole subtrees of the input\<close>

lemma shrink_spec:
  assumes "m < 2 ^ 64" and "1024 dvd m" and "10 \<le> j" and "j < 64"
  shows "\<exists>i. 10 \<le> i \<and> i \<le> j \<and> shrink_subtree (2 ^ j) (word_of_nat m) = 2 ^ i \<and> 2 ^ i dvd m"
  using assms(3,4)
proof (induction j)
  case 0
  then show ?case by simp
next
  case (Suc j)
  have lt: "Suc j < 64" using Suc.prems(2) .
  have "(word_of_nat (2 ^ Suc j - 1) :: u64) = mask (Suc j)" by (simp add: mask_eq_exp_minus_1 flip: of_nat_mask_eq)
  then have "word_of_nat (2 ^ Suc j - 1) AND word_of_nat m = take_bit (Suc j) (word_of_nat m :: u64)"
    by (simp add: take_bit_eq_mask and.commute)
  moreover have "take_bit (Suc j) (word_of_nat m :: u64) = 0 \<longleftrightarrow> 2 ^ Suc j dvd m"
  proof -
    have "unat (take_bit (Suc j) (word_of_nat m :: u64)) = take_bit (Suc j) (unat (word_of_nat m :: u64))"
      by (rule unsigned_take_bit_eq)
    also have "\<dots> = take_bit (Suc j) m" using assms(1) by (simp add: unat_of_nat take_bit_eq_mod)
    finally have "take_bit (Suc j) (word_of_nat m :: u64) = 0 \<longleftrightarrow> take_bit (Suc j) m = 0" by (metis unat_0 unat_eq_zero)
    then show ?thesis by (simp add: take_bit_eq_0_iff)
  qed
  ultimately have t: "word_of_nat (2 ^ Suc j - 1) AND (word_of_nat m :: u64) = 0 \<longleftrightarrow> 2 ^ Suc j dvd m" by simp
  show ?case
  proof (cases "2 ^ Suc j dvd m")
    case True
    then show ?thesis using t Suc.prems(1) by (intro exI[of _ "Suc j"]) (subst shrink_subtree.simps, simp)
  next
    case False
    have "Suc j \<noteq> 10" using False assms(2) by auto
    then have "10 \<le> j" "j < 64" using Suc.prems by simp_all
    then obtain i where i: "10 \<le> i" "i \<le> j" "shrink_subtree (2 ^ j) (word_of_nat m) = 2 ^ i" "2 ^ i dvd m"
      using Suc.IH by blast
    have "shrink_subtree (2 ^ Suc j) (word_of_nat m) = shrink_subtree (2 ^ j) (word_of_nat m)"
      using False t by (subst shrink_subtree.simps) simp
    then show ?thesis using i by (intro exI[of _ i]) simp
  qed
qed

definition hrep :: "u32 list \<Rightarrow> u8 \<Rightarrow> bytes \<Rightarrow> nat list \<Rightarrow> nat \<Rightarrow> bytes \<Rightarrow> blake3_hasher \<Rightarrow> bool" where
  "hrep key flags P ss c r self \<longleftrightarrow>
     rep key flags P ss self \<and> lazy c ss \<and> length P = c * 1024 \<and> h_chunk self = chunk_cs key flags (word_of_nat c) r"

text \<open>When the input ended with a whole subtree, its two halves are on top of the stack.\<close>

definition paired :: "nat \<Rightarrow> nat list \<Rightarrow> bool" where
  "paired c ss \<longleftrightarrow> (\<exists>a k. 2 ^ Suc k dvd a \<and> c = a + 2 ^ Suc k \<and> ss = bin a @ [2 ^ k, 2 ^ k])"

lemma half_word:
  assumes "Suc h < 64"
  shows "(word_of_nat (2 ^ Suc h) :: u64) div 2 = word_of_nat (2 ^ h)"
proof -
  have u: "unat (word_of_nat (2 ^ i) :: u64) = 2 ^ i" if "i < 64" for i
    using power_strict_increasing[OF that, of "2 :: nat"] by (simp add: unat_of_nat take_bit_eq_mod del: of_nat_power)
  have "unat ((word_of_nat (2 ^ Suc h) :: u64) div 2) = 2 ^ Suc h div 2"
    by (simp only: unat_div u[OF assms]) simp
  then have "unat ((word_of_nat (2 ^ Suc h) :: u64) div 2) = unat (word_of_nat (2 ^ h) :: u64)"
    using u[of h] assms by (simp del: of_nat_power)
  then show ?thesis by (rule unsigned_word_eqI)
qed

lemma chunk_cs_bump: "(chunk_cs key flags c [])\<lparr>cs_counter := d\<rparr> = chunk_cs key flags d []"
  by (simp add: chunk_cs_Nil)

lemma hasher_subtree_size:
  assumes "hrep key flags P ss c [] self" and "1024 < length inp" and "length (P @ inp) < 2 ^ 64"
  obtains k where "2 ^ k dvd c" "2 ^ k * 1024 \<le> length inp" "k < 54"
    "shrink_subtree (unat (round_down_to_power_of_2 (word_of_nat (length inp))))
       (word_of_nat c * word_of_nat BLAKE3_CHUNK_LEN) = 2 ^ k * 1024"
proof -
  have lp: "length P = c * 1024" using assms(1) by (simp add: hrep_def)
  have "0 < length inp" "length inp < 2 ^ 64" using assms(2,3) by (linarith, simp)
  then obtain t where t: "unat (round_down_to_power_of_2 (word_of_nat (length inp))) = 2 ^ t" "2 ^ t \<le> length inp"
    "length inp < 2 * 2 ^ t" by (rule round_down_nat)
  have "(2 :: nat) ^ 10 < 2 ^ Suc t" using t(3) assms(2) by simp
  then have t10: "10 \<le> t" using power_less_imp_less_exp[of "2 :: nat" 10 "Suc t"] by linarith
  have "(2 :: nat) ^ t < 2 ^ 64" using t(2) \<open>length inp < 2 ^ 64\<close> by linarith
  then have t64: "t < 64" using power_less_imp_less_exp[of "2 :: nat" t 64] by linarith
  have m: "c * 1024 < 2 ^ 64" "1024 dvd c * 1024" using lp assms(3) by simp_all
  obtain i where i: "10 \<le> i" "i \<le> t" "shrink_subtree (2 ^ t) (word_of_nat (c * 1024)) = 2 ^ i" "2 ^ i dvd c * 1024"
    using shrink_spec[OF m t10 t64] by blast
  have p: "(2 :: nat) ^ i = 2 ^ (i - 10) * 1024" using i(1) power_add[of "2 :: nat" "i - 10" 10] by simp
  have "2 ^ (i - 10) dvd c" using i(4) unfolding p by simp
  moreover have "2 ^ (i - 10) * 1024 \<le> length inp"
    using t(2) power_increasing[OF i(2), of "2 :: nat"] unfolding p by simp
  moreover have "i - 10 < 54" using i t64 by simp
  ultimately show ?thesis
    using that i(3) t(1) p by (simp add: BLAKE3_CHUNK_LEN_def)
qed

lemma hasher_subtree_step:
  assumes "hrep key flags P ss c [] self" and "1024 < length inp" and "length (P @ inp) < 2 ^ 64"
    and "hasher_subtree inp self = (n, self')"
  shows "n \<le> length inp \<and> 0 < n \<and> (\<exists>c' ss'. hrep key flags (P @ take n inp) ss' c' [] self' \<and> (n = length inp \<longrightarrow> paired c' ss'))"
proof -
  have h: "rep key flags P ss self" "lazy c ss" "length P = c * 1024" "h_chunk self = chunk_cs key flags (word_of_nat c) []"
    "h_key self = key"
    using assms(1) by (simp_all add: hrep_def rep_def)
  obtain k where k: "2 ^ k dvd c" "2 ^ k * 1024 \<le> length inp" "k < 54"
    "shrink_subtree (unat (round_down_to_power_of_2 (word_of_nat (length inp))))
       (word_of_nat c * word_of_nat BLAKE3_CHUNK_LEN) = 2 ^ k * 1024"
    by (rule hasher_subtree_size[OF assms(1-3)])
  let ?x = "take (2 ^ k * 1024) inp"
  have x: "length ?x = 2 ^ k * 1024" "length (P @ ?x) < 2 ^ 64" "length ?x < 2 ^ 64" using k(2) assms(3) by simp_all
  have n: "n = 2 ^ k * 1024" using assms(4) k(4) h by (simp add: hasher_subtree_def Let_def)
  have fin: "n \<le> length inp" "0 < n" using n k(2) by simp_all
  show ?thesis
  proof (cases k)
    case 0
    let ?self = "hasher_push_cv (tree_cv key flags c ?x) (word_of_nat c) self"
    have "chunk_state_update ?x (chunk_cs key flags (word_of_nat c) []) = chunk_cs key flags (word_of_nat c) ?x"
      by (simp add: chunk_cs_update)
    then have s': "self' = ?self\<lparr>h_chunk := (h_chunk ?self)\<lparr>cs_counter := cs_counter (h_chunk ?self) + 1\<rparr>\<rparr>"
      using assms(4) x(1) 0 chunk_cs_spec[of ?x key flags c]
      unfolding hasher_subtree_def Let_def h(4,5) chunk_cs_fields k(4)
      by (simp add: BLAKE3_CHUNK_LEN_def chunk_cs_Nil[symmetric] tree_cv_def)
    note Q = push_cv_rep[OF h(1,2) x(2) h(3) x(1) k(1)]
    have "h_chunk self' = chunk_cs key flags (word_of_nat (c + 1)) []"
      using Q(2) by (simp add: s' h(4) chunk_cs_bump add.commute)
    moreover have "rep key flags (P @ ?x) (bin c @ [1]) self'"
      using Q(1) 0 by (simp add: rep_def s')
    ultimately have "hrep key flags (P @ take n inp) (bin c @ [1]) (c + 1) [] self'"
      using Q(3) h(3) x(1) 0 n by (simp add: hrep_def)
    moreover have "n \<noteq> length inp" using 0 n assms(2) by simp
    ultimately show ?thesis using fin by blast
  next
    case (Suc j)
    have gt: "1024 < length ?x" using x(1) one_le_power[of "2 :: nat" j] unfolding Suc power_Suc by linarith
    have l: "left_subtree_len (length ?x) = 2 ^ j * 1024"
      using x(1,3) Suc by (intro left_subtree_len_unique) simp_all
    let ?y = "take (2 ^ j * 1024) ?x" and ?z = "drop (2 ^ j * 1024) ?x"
    have xyz: "?x = ?y @ ?z" by (rule append_take_drop_id[symmetric])
    have ly: "length ?y = 2 ^ j * 1024" "length ?z = 2 ^ j * 1024" using x(1) Suc by simp_all
    note yz = xyz ly
    let ?s1 = "hasher_push_cv (tree_cv key flags c ?y) (word_of_nat c) self"
    let ?s2 = "hasher_push_cv (tree_cv key flags (c + 2 ^ j) ?z) (word_of_nat (c + 2 ^ j)) ?s1"
    have pn: "compress_subtree_to_parent_node ?x key (word_of_nat c) flags = [tree_cv key flags c ?y, tree_cv key flags (c + 2 ^ j) ?z]"
      using subtree_to_parent_spec[OF gt x(3), of key c flags] l by simp
    have hw: "(word_of_nat c :: u64) + word_of_nat (2 ^ k) div 2 = word_of_nat (c + 2 ^ j)"
      using half_word[of j] k(3) Suc by (simp del: of_nat_power)
    have big: "\<not> 2 ^ k * 1024 \<le> BLAKE3_CHUNK_LEN" using gt x(1) by (simp add: BLAKE3_CHUNK_LEN_def)
    have dv: "2 ^ k * 1024 div BLAKE3_CHUNK_LEN = 2 ^ k" by (simp add: BLAKE3_CHUNK_LEN_def)
    have s': "self' = ?s2\<lparr>h_chunk := (h_chunk ?s2)\<lparr>cs_counter := cs_counter (h_chunk ?s2) + word_of_nat (2 ^ k)\<rparr>\<rparr>"
      using assms(4) unfolding hasher_subtree_def Let_def h(4,5) chunk_cs_fields k(4) if_not_P[OF big] dv pn hw
        One_nat_def nth_Cons_Suc nth_Cons_0 by (elim Pair_inject) (erule sym)
    have d: "2 ^ j dvd c" "2 ^ j dvd c + 2 ^ j" "even (c div 2 ^ j)"
      using k(1) Suc by (auto elim!: dvdE)
    have len1: "length (P @ ?y) < 2 ^ 64" "length (P @ ?y) = (c + 2 ^ j) * 1024" "length ((P @ ?y) @ ?z) < 2 ^ 64"
      using x(2) yz h(3) by simp_all
    note Q = push_cv_rep[OF h(1,2) len1(1) h(3) yz(2) d(1)]
    note Q2 = push_cv_rep[OF Q(1,3) len1(3,2) yz(3) d(2)]
    have "h_chunk self' = chunk_cs key flags (word_of_nat (c + 2 ^ k)) []"
      using Q(2) Q2(2) by (simp add: s' h(4) chunk_cs_bump del: of_nat_power)
    moreover have ss: "bin (c + 2 ^ j) @ [2 ^ j] = bin c @ [2 ^ j, 2 ^ j]" using bin_add[OF d(1,3)] by simp
    moreover have "rep key flags (P @ ?x) (bin c @ [2 ^ j, 2 ^ j]) self'"
      using Q2(1) yz(1) unfolding ss by (simp add: rep_def s')
    moreover have kk: "c + 2 ^ j + 2 ^ j = c + 2 ^ k" using Suc by simp
    moreover have "lazy (c + 2 ^ k) (bin c @ [2 ^ j, 2 ^ j])" using Q2(3) unfolding ss kk .
    moreover have "length (P @ ?x) = (c + 2 ^ k) * 1024" unfolding length_append h(3) x(1) by (rule distrib_right[symmetric])
    ultimately have "hrep key flags (P @ take n inp) (bin c @ [2 ^ j, 2 ^ j]) (c + 2 ^ k) [] self'"
      unfolding n hrep_def by blast
    moreover have "paired (c + 2 ^ k) (bin c @ [2 ^ j, 2 ^ j])" using k(1) Suc by (auto simp: paired_def)
    ultimately show ?thesis using fin by blast
  qed
qed

lemma hasher_subtrees_spec:
  assumes "hrep key flags P ss c [] self" and "inp \<noteq> [] \<or> paired c ss" and "length (P @ inp) < 2 ^ 64"
    and "hasher_subtrees inp self = (r, self')"
  shows "\<exists>P' c' ss'. P @ inp = P' @ r \<and> length r \<le> 1024 \<and> hrep key flags P' ss' c' [] self' \<and> (r = [] \<longrightarrow> paired c' ss')"
  using assms
proof (induction "length inp" arbitrary: inp P ss c self rule: less_induct)
  case less
  show ?case
  proof (cases "length inp > 1024")
    case False
    then have "r = inp" "self' = self" using less.prems(4) by (subst (asm) hasher_subtrees.simps, simp add: BLAKE3_CHUNK_LEN_def)+
    then show ?thesis using less.prems False by (metis not_le)
  next
    case True
    obtain n self1 where st: "hasher_subtree inp self = (n, self1)" by fastforce
    obtain c1 ss1 where s1: "n \<le> length inp" "0 < n" "hrep key flags (P @ take n inp) ss1 c1 [] self1"
      "n = length inp \<longrightarrow> paired c1 ss1"
      using hasher_subtree_step[OF less.prems(1) True less.prems(3) st] by blast
    have rec: "hasher_subtrees (drop n inp) self1 = (r, self')"
      using less.prems(4) True st by (subst (asm) hasher_subtrees.simps) (simp add: BLAKE3_CHUNK_LEN_def)
    have "length (drop n inp) < length inp" using s1(2) True unfolding length_drop by linarith
    moreover have "drop n inp \<noteq> [] \<or> paired c1 ss1" using s1(1,4) by auto
    moreover have "length ((P @ take n inp) @ drop n inp) < 2 ^ 64" using less.prems(3) by simp
    ultimately have "\<exists>P' c' ss'. (P @ take n inp) @ drop n inp = P' @ r \<and> length r \<le> 1024 \<and>
        hrep key flags P' ss' c' [] self' \<and> (r = [] \<longrightarrow> paired c' ss')"
      using less.hyps s1(3) rec by blast
    then show ?thesis by simp
  qed
qed

section \<open>Updates\<close>

definition hash_ok :: "u32 list \<Rightarrow> u8 \<Rightarrow> bytes \<Rightarrow> blake3_hasher \<Rightarrow> bool" where
  "hash_ok key flags M self \<longleftrightarrow>
     (\<exists>P r c ss. M = P @ r \<and> length r \<le> 1024 \<and> hrep key flags P ss c r self \<and>
        (if r \<noteq> [] then ss = bin c else c = 0 \<or> paired c ss))"

lemma hash_okI:
  assumes "M = P @ r" and "length r \<le> 1024" and "hrep key flags P ss c r self"
    and "r \<noteq> [] \<Longrightarrow> ss = bin c" and "r = [] \<Longrightarrow> c = 0 \<or> paired c ss"
  shows "hash_ok key flags M self"
  unfolding hash_ok_def using assms
  by (intro exI[of _ P] exI[of _ r] exI[of _ c] exI[of _ ss]) auto

lemma hash_ok_init: "hash_ok key flags [] (hasher_init_base key flags)"
proof -
  have "(chunk_state_init key flags)\<lparr>cs_counter := 0\<rparr> = chunk_state_init key flags" by (simp add: chunk_state_init_def)
  then have "hrep key flags [] [] 0 [] (hasher_init_base key flags)"
    by (simp add: hrep_def rep_def lazy_def hasher_init_base_def chunk_cs_Nil) (simp add: chunk_state_init_def)
  then show ?thesis by (rule hash_okI[rotated 2]) simp_all
qed

text \<open>The part of an update after the pending chunk is complete.\<close>

definition update_rest :: "bytes \<Rightarrow> blake3_hasher \<Rightarrow> blake3_hasher" where
  "update_rest input self =
     (case hasher_subtrees input self of (input, self) \<Rightarrow>
        (if length input > 0
         then (let self = self\<lparr>h_chunk := chunk_state_update input (h_chunk self)\<rparr>
               in hasher_merge_cv_stack (cs_counter (h_chunk self)) self)
         else self))"

lemma update_rest_ok:
  assumes "hrep key flags P ss c [] self" and "inp \<noteq> []" and "length (P @ inp) < 2 ^ 64"
  shows "hash_ok key flags (P @ inp) (update_rest inp self)"
proof -
  obtain r s1 where l: "hasher_subtrees inp self = (r, s1)" by fastforce
  obtain P' c' ss' where p: "P @ inp = P' @ r" "length r \<le> 1024" "hrep key flags P' ss' c' [] s1" "r = [] \<longrightarrow> paired c' ss'"
    using hasher_subtrees_spec[OF assms(1) disjI1[OF assms(2)] assms(3) l] by blast
  show ?thesis
  proof (cases "r = []")
    case True
    then have "update_rest inp self = s1" by (simp add: update_rest_def l)
    then show ?thesis using hash_okI[OF p(1,2) p(3)[folded True]] p(4) True by simp
  next
    case False
    let ?s = "s1\<lparr>h_chunk := chunk_cs key flags (word_of_nat c') r\<rparr>"
    have h: "rep key flags P' ss' ?s" "lazy c' ss'" "length P' = c' * 1024"
      using p(3) by (simp_all add: hrep_def rep_def)
    have u: "update_rest inp self = hasher_merge_cv_stack (word_of_nat c') ?s"
      using False p(3) by (simp add: update_rest_def l hrep_def chunk_cs_update Let_def)
    have "length P' < 2 ^ 64" using assms(3) unfolding p(1) by simp
    note M = merge_lazy[OF h(1,2) this]
    have "hrep key flags P' (bin c') c' r (update_rest inp self)"
      using M h(3) by (simp add: hrep_def u lazy_def)
    then show ?thesis using hash_okI[OF p(1,2)] False by blast
  qed
qed

lemma update_base_ok:
  assumes "hash_ok key flags M self" and "length (M @ x) < 2 ^ 64"
  shows "hash_ok key flags (M @ x) (blake3_hasher_update_base x self)"
proof (cases "x = []")
  case True
  then show ?thesis using assms(1) by (simp add: blake3_hasher_update_base_def)
next
  case x: False
  obtain P r c ss where h: "M = P @ r" "length r \<le> 1024" "hrep key flags P ss c r self"
    "if r \<noteq> [] then ss = bin c else c = 0 \<or> paired c ss"
    using assms(1) unfolding hash_ok_def by blast
  have ch: "h_chunk self = chunk_cs key flags (word_of_nat c) r" "chunk_state_len (h_chunk self) = length r"
    using h(2,3) chunk_cs_len by (simp_all add: hrep_def)
  show ?thesis
  proof (cases "r = []")
    case True
    then have "blake3_hasher_update_base x self = update_rest x self"
      using x ch(2) by (simp add: blake3_hasher_update_base_def update_rest_def Let_def)
    then show ?thesis using update_rest_ok[OF h(3)[unfolded True] x] h(1) True assms(2) by simp
  next
    case r: False
    define n where "n = min (1024 - length r) (length x)"
    let ?r = "r @ take n x"
    let ?s = "self\<lparr>h_chunk := chunk_cs key flags (word_of_nat c) ?r\<rparr>"
    have nn: "(if BLAKE3_CHUNK_LEN - length r > length x then length x else BLAKE3_CHUNK_LEN - length r) = n"
      by (simp add: n_def BLAKE3_CHUNK_LEN_def)
    have rep: "rep key flags P ss ?s" "lazy c ss" "length P = c * 1024" using h(3) by (simp_all add: hrep_def rep_def)
    have lr: "length ?r \<le> 1024" using h(2) by (simp add: n_def)
    show ?thesis
    proof (cases "drop n x = []")
      case True
      then have tk: "take n x = x" by simp
      have "blake3_hasher_update_base x self = ?s"
        using x r True ch by (simp add: blake3_hasher_update_base_def Let_def nn chunk_cs_update)
      moreover have "hrep key flags P ss c ?r ?s" using rep by (simp add: hrep_def)
      moreover have "M @ x = P @ ?r" using h(1) tk by simp
      ultimately show ?thesis using hash_okI[OF _ lr] h(4) r by simp
    next
      case F: False
      then have full: "length ?r = 1024" using h(2) by (simp add: n_def min_def split: if_splits)
      let ?p = "hasher_push_cv (tree_cv key flags c ?r) (word_of_nat c) ?s"
      have cv: "output_chaining_value (chunk_state_output (chunk_cs key flags (word_of_nat c) ?r)) = tree_cv key flags c ?r"
        using chunk_cs_spec[OF lr] by (simp add: tree_cv_def)
      have len: "length (P @ ?r) < 2 ^ 64" using assms(2) h(1) by (simp add: n_def)
      have k0: "length ?r = 2 ^ 0 * 1024" "2 ^ 0 dvd c" using full by simp_all
      note Q = push_cv_rep[OF rep(1,2) len rep(3) k0]
      let ?q = "?p\<lparr>h_chunk := chunk_cs key flags (word_of_nat (c + 1)) []\<rparr>"
      have "hrep key flags (P @ ?r) (bin c @ [1]) (c + 1) [] ?q"
        using Q(1,3) rep(3) full by (simp add: hrep_def rep_def)
      moreover have "length ((P @ ?r) @ drop n x) < 2 ^ 64" using assms(2) h(1) by simp
      ultimately have "hash_ok key flags ((P @ ?r) @ drop n x) (update_rest (drop n x) ?q)"
        using update_rest_ok F by blast
      moreover have "blake3_hasher_update_base x self = update_rest (drop n x) ?q"
      proof -
        have "h_key ?p = key" using Q(1) by (simp add: rep_def)
        then have "chunk_state_reset (h_key ?p) (cs_counter (h_chunk ?p) + 1) (h_chunk ?p) = chunk_cs key flags (word_of_nat (c + 1)) []"
          using Q(2) by (simp add: chunk_cs_reset add.commute)
        then show ?thesis
          using x r F ch
          by (simp add: blake3_hasher_update_base_def Let_def nn chunk_cs_update cv update_rest_def)
      qed
      moreover have "(P @ ?r) @ drop n x = M @ x" using h(1) by simp
      ultimately show ?thesis by (simp only:)
    qed
  qed
qed

lemma updates_ok:
  assumes "length (M @ concat ps) < 2 ^ 64" and "hash_ok key flags M self"
  shows "hash_ok key flags (M @ concat ps) (foldl (\<lambda>h p. blake3_hasher_update p h) self ps)"
  using assms
proof (induction ps arbitrary: M self)
  case Nil
  then show ?case by simp
next
  case (Cons p ps)
  have "hash_ok key flags (M @ p) (blake3_hasher_update p self)"
    using Cons.prems update_base_ok[of key flags M self p] by (simp add: blake3_hasher_update_def)
  then show ?case using Cons.IH[of "M @ p"] Cons.prems(1) by simp
qed

section \<open>Finalisation\<close>

lemma roll_up_tree:
  "stk_ok key flags c ss P st \<Longrightarrow> fits ss (length R) \<Longrightarrow> R \<noteq> [] \<Longrightarrow> length (P @ R) < 2 ^ 64 \<Longrightarrow>
   roll_up key flags st (tree_output key flags (c + sum_list ss) R) = tree_output key flags c (P @ R)"
proof (induction key flags c ss P st rule: stk_ok.induct)
  case (3 key flags c s ss P v st)
  obtain t where t: "s = 2 ^ t" using "3.prems"(2) by auto
  let ?D = "drop (s * 1024) P"
  have p: "s * 1024 \<le> length P" "v = tree_cv key flags c (take (s * 1024) P)" "stk_ok key flags (c + s) ss ?D st"
    using "3.prems"(1) by simp_all
  have lD: "length ?D = sum_list ss * 1024" using stk_ok_length[OF p(3)] by simp
  have IH: "roll_up key flags st (tree_output key flags (c + s + sum_list ss) R) = tree_output key flags (c + s) (?D @ R)"
    using "3.IH"[OF p(3)] "3.prems" by simp
  have len: "length (P @ R) = s * 1024 + (length ?D + length R)" using p(1) by simp
  have "length ?D + length R \<le> s * 1024" using "3.prems"(2) lD by simp
  moreover have "0 < length R" using "3.prems"(3) by simp
  ultimately have "s * 1024 < length (P @ R)" "length (P @ R) \<le> 2 * (s * 1024)" unfolding len by linarith+
  then have l: "left_subtree_len (length (P @ R)) = s * 1024"
    using "3.prems"(4) unfolding t by (intro left_subtree_len_unique)
  have gt: "\<not> length (P @ R) \<le> BLAKE3_CHUNK_LEN"
  proof -
    have "1 \<le> s" "1 \<le> length R" using t "3.prems"(3) by (simp_all add: Suc_le_eq)
    then show ?thesis unfolding len BLAKE3_CHUNK_LEN_def by linarith
  qed
  have "tree_output key flags c (P @ R) =
      parent_output (tree_cv key flags c (take (s * 1024) P) @ tree_cv key flags (c + s) (?D @ R)) key flags"
    unfolding tree_cv_def using gt p(1)
    by (subst tree_output.simps) (simp add: Let_def l[unfolded length_append] BLAKE3_CHUNK_LEN_def)
  then show ?case using IH p(2) by (simp add: roll_up_def tree_cv_def add.assoc)
qed (simp_all add: roll_up_def)

lemma final_output_tree:
  assumes "hash_ok key flags M self" and "length M < 2 ^ 64"
  shows "hasher_final_output self = tree_output key flags 0 M"
proof -
  obtain P r c ss where h: "M = P @ r" "length r \<le> 1024" "hrep key flags P ss c r self"
    "if r \<noteq> [] then ss = bin c else c = 0 \<or> paired c ss"
    using assms(1) unfolding hash_ok_def by blast
  have st: "stk_ok key flags 0 ss P (h_stack self)" "length P = c * 1024" "h_key self = key"
    "h_chunk self = chunk_cs key flags (word_of_nat c) r" "lazy c ss"
    using h(3) by (simp_all add: hrep_def rep_def)
  note out = chunk_cs_spec[OF h(2), of key flags c] and clen = chunk_cs_len[OF h(2), of key flags "word_of_nat c"]
  note sl = stk_ok_length[OF st(1)]
  consider "h_stack self = []" | "h_stack self \<noteq> []" "r \<noteq> []" | "h_stack self \<noteq> []" "r = []" by blast
  then show ?thesis
  proof cases
    case 1
    then have "c = 0" "P = []" using sl st(2) by simp_all
    then show ?thesis using 1 h(1) st(4) out by (simp add: hasher_final_output_def)
  next
    case 2
    then have "fits ss (length r)" "sum_list ss = c" using h(2,4) bin_fits[of 0 c "length r"] by simp_all
    then have "roll_up key flags (h_stack self) (tree_output key flags c r) = tree_output key flags 0 (P @ r)"
      using roll_up_tree[OF st(1), of r] 2 assms(2) h(1) by simp
    then show ?thesis using 2 h(1) st out clen by (simp add: hasher_final_output_def)
  next
    case 3
    have "c \<noteq> 0"
    proof
      assume "c = 0"
      then have "ss = []" using st(5) by (auto simp: lazy_def)
      then show False using 3 sl by simp
    qed
    then obtain a k where a: "2 ^ Suc k dvd a" "c = a + 2 ^ Suc k" "ss = bin a @ [2 ^ k, 2 ^ k]"
      using h(4) 3 unfolding paired_def by auto
    have "stk_ok key flags 0 ((bin a @ [2 ^ k]) @ [2 ^ k]) P (h_stack self)" using st(1) a(3) by simp
    then obtain Q x s1 where x: "P = Q @ x" "h_stack self = s1 @ [tree_cv key flags (a + 2 ^ k) x]"
      "length x = 2 ^ k * 1024" "stk_ok key flags 0 (bin a @ [2 ^ k]) Q s1"
      unfolding stk_ok_snoc[of _ _ _ "bin a @ [2 ^ k]"] by auto
    obtain S y vs where y: "Q = S @ y" "s1 = vs @ [tree_cv key flags a y]" "length y = 2 ^ k * 1024"
      "stk_ok key flags 0 (bin a) S vs"
      using x(4) unfolding stk_ok_snoc by auto
    have l: "left_subtree_len (length (y @ x)) = 2 ^ k * 1024"
      using x y assms(2) h(1) by (intro left_subtree_len_unique) simp_all
    have gt: "\<not> length (y @ x) \<le> BLAKE3_CHUNK_LEN"
      using x(3) y(3) one_le_power[of "2 :: nat" k] unfolding length_append BLAKE3_CHUNK_LEN_def by linarith
    have top: "parent_output (tree_cv key flags a y @ tree_cv key flags (a + 2 ^ k) x) key flags = tree_output key flags a (y @ x)"
      unfolding tree_cv_def using gt y(3)
      by (subst (3) tree_output.simps) (simp add: Let_def l[unfolded length_append y(3)] BLAKE3_CHUNK_LEN_def)
    have "fits (bin a) (length (y @ x))" using bin_fits[OF a(1)] x(3) y(3) by simp
    moreover have "y @ x \<noteq> []" using gt by (auto simp: BLAKE3_CHUNK_LEN_def)
    ultimately have "roll_up key flags vs (tree_output key flags a (y @ x)) = tree_output key flags 0 (S @ (y @ x))"
      using roll_up_tree[OF y(4), of "y @ x"] assms(2) h(1) x(1) y(1) by simp
    then show ?thesis
      using 3 x y h(1) st(3,4) clen top by (simp add: hasher_final_output_def nth_append Let_def)
  qed
qed


lemma lazy_length:
  assumes "lazy c ss" and "c < 2 ^ 54"
  shows "length ss \<le> BLAKE3_MAX_DEPTH + 1"
proof (cases "ss = bin c")
  case True
  then show ?thesis using bin_length[OF assms(2)] by (simp add: BLAKE3_MAX_DEPTH_def)
next
  case False
  then obtain a k where "c = a + 2 ^ k" "ss = bin a @ [2 ^ k]" using assms(1) by (auto simp: lazy_def)
  then show ?thesis using bin_length[of a 54] assms(2) by (simp add: BLAKE3_MAX_DEPTH_def)
qed

section \<open>The digest of the store\<close>

lemma length_compress_xof: "length (blake3_compress_xof cv b n c f) = 64"
  by (simp add: blake3_compress_xof_def blake3_compress_xof_portable_def Let_def store32_def upt_rec)

lemma length_finalize_32: "length (blake3_hasher_finalize 32 self) = 32"
  by (simp add: blake3_hasher_finalize_def blake3_hasher_finalize_seek_def output_root_bytes_def Let_def length_compress_xof)

text \<open>The kernel's digest meets the contract the object store and the trees rely on.\<close>

interpretation b3: hash_fn cvsasx_blake3
  by unfold_locales (simp add: cvsasx_blake3_def length_finalize_32)

lemma blake3_tagged_cons:
  assumes "Suc (length bs) < 2 ^ 64"
  shows "blake3_tagged tag bs = cvsasx_blake3 (tag # bs)"
proof -
  have fin: "blake3_hasher_finalize 32 h = output_root_bytes (hasher_final_output h) 0 32" for h
    by (simp add: blake3_hasher_finalize_def blake3_hasher_finalize_seek_def)
  have "hasher_final_output (foldl (\<lambda>h p. blake3_hasher_update p h) (hasher_init_base IV 0) ps) = tree_output IV 0 0 (concat ps)"
    if "length (concat ps) < 2 ^ 64" for ps
    using updates_ok[of "[]" ps IV 0 "hasher_init_base IV 0"] hash_ok_init final_output_tree that by simp
  from this[of "[[tag], bs]"] this[of "[tag # bs]"] show ?thesis
    using assms by (simp add: blake3_tagged_def cvsasx_blake3_def fin blake3_hasher_init_def)
qed

section \<open>Properties\<close>

text \<open> C4: the incremental hasher computes the tree hash.  Whatever the key, the mode flags and
  the way a message of less than two to the 64 bytes is cut into pieces, feeding the pieces to
  the hasher one by one and finalising at any seek position for any output length gives the
  bytes of the tree hash of the whole message. \<close>
theorem blake3_incremental:
  assumes "length (concat ps) < 2 ^ 64"
  shows "blake3_hasher_finalize_seek seek n (foldl (\<lambda>h p. blake3_hasher_update p h) (hasher_init_base key flags) ps) =
    blake3_spec key flags (concat ps) seek n"
  using updates_ok[of "[]" ps key flags "hasher_init_base key flags"] hash_ok_init final_output_tree assms
  by (auto simp: blake3_hasher_finalize_seek_def blake3_spec_def output_root_bytes_def)

theorem blake3_incremental_witness:
  "blake3_hasher_finalize_seek 0 32 (foldl (\<lambda>h p. blake3_hasher_update p h) (hasher_init_base IV 0)
      [replicate 3000 7, [], replicate 5000 1]) = blake3_spec IV 0 (concat [replicate 3000 7, [], replicate 5000 1]) 0 32"
  by (rule blake3_incremental) simp

text \<open> the stack of chaining values stays within its array.  After any sequence of updates
  of less than two to the 64 bytes in all, the stack holds at most the 55 entries the structure
  has room for. \<close>
theorem blake3_stack_bound:
  assumes "length (concat ps) < 2 ^ 64"
  shows "length (h_stack (foldl (\<lambda>h p. blake3_hasher_update p h) (hasher_init_base key flags) ps)) \<le> BLAKE3_MAX_DEPTH + 1"
proof -
  let ?s = "foldl (\<lambda>h p. blake3_hasher_update p h) (hasher_init_base key flags) ps"
  have "hash_ok key flags (concat ps) ?s" using updates_ok[of "[]" ps key flags] hash_ok_init assms by simp
  then obtain P r c ss where h: "concat ps = P @ r" "hrep key flags P ss c r ?s" unfolding hash_ok_def by blast
  have "length P = c * 1024" "lazy c ss" "length (h_stack ?s) = length ss"
    using h(2) rep_sum by (auto simp: hrep_def)
  then show ?thesis using lazy_length[of c ss] h(1) assms by simp
qed

theorem blake3_stack_bound_witness:
  "length (h_stack (foldl (\<lambda>h p. blake3_hasher_update p h) (hasher_init_base IV 0) [replicate 4096 7, [1]])) \<le> BLAKE3_MAX_DEPTH + 1"
  by (rule blake3_stack_bound) simp

end
