(* ===== verification/DurableLog.thy ===== *)
theory DurableLog
  imports ObjectStore
begin

text \<open>
  The durable object log of \<^verbatim>\<open>kernel/kernel.c\<close> (S2 to S7) with the reference-count side table
  (GC1), the block arena of the collector (GC6) and the domain-scoped deduplication (DS).  The
  disk is the list of its 4 KiB blocks; a read or write beyond its end reports an error, as the
  device does.  Block numbers are natural numbers.  The digest is a parameter.  The virtio queue
  behind the block operations, cycle counters and messages are not modelled.
\<close>

type_synonym s32 = "32 word"

section \<open>State\<close>

record gc_rc_ent =
  rc_hash :: bytes
  rc_domain :: u32
  rc_count :: s32
  rc_tombstoned :: bool

record dur =
  dk :: "bytes list"
  vio_ready :: bool
  dur_idx :: "(bytes \<times> nat) list"
  dur_log_head :: nat
  dur_objs_written :: u64
  dur_recover_rejected :: nat
  gc_rc :: "gc_rc_ent list"
  gc_hwm :: nat
  gc_free :: "nat list"

definition DUR_MAGIC :: u32 where "DUR_MAGIC = 0x4A424F43"
definition DUR_REC_BYTES :: nat where "DUR_REC_BYTES = 8192"
definition DUR_MAXOBJ :: nat where "DUR_MAXOBJ = 4096"
definition RC_MAGIC :: u32 where "RC_MAGIC = 0x43524752"
definition DUR_IDX_N :: nat where "DUR_IDX_N = 256"
definition GC_RC_N :: nat where "GC_RC_N = 256"
definition GC_FREE_N :: nat where "GC_FREE_N = 64"
definition U2_DOM :: u32 where "U2_DOM = 7"
definition U0_EFAULT :: int where "U0_EFAULT = - 1"

section \<open>Blocks\<close>

definition vblk_read :: "nat \<Rightarrow> dur \<Rightarrow> bytes option" where
  "vblk_read b s = (if vio_ready s \<and> b < length (dk s) then Some (dk s ! b) else None)"

definition vblk_write :: "nat \<Rightarrow> bytes \<Rightarrow> dur \<Rightarrow> bool \<times> dur" where
  "vblk_write b data s = (if vio_ready s \<and> b < length (dk s) then (True, s\<lparr>dk := (dk s)[b := data]\<rparr>) else (False, s))"

text \<open>Fields of a block, and a zeroed block with the given bytes at its start.\<close>

definition blk_u32 :: "nat \<Rightarrow> bytes \<Rightarrow> u32" where "blk_u32 off blk = le_word (take 4 (drop off blk))"
definition blk_u64 :: "nat \<Rightarrow> bytes \<Rightarrow> u64" where "blk_u64 off blk = le_word (take 8 (drop off blk))"
definition blk_hash :: "bytes \<Rightarrow> bytes" where "blk_hash blk = take 32 (drop 16 blk)"
definition pad_block :: "bytes \<Rightarrow> bytes" where "pad_block bs = bs @ replicate (4096 - length bs) 0"

definition hdr_block :: "nat \<Rightarrow> bytes \<Rightarrow> bytes" where
  "hdr_block len h = pad_block (le_bytes 4 DUR_MAGIC @ le_bytes 4 (1 :: u32) @ le_bytes 8 (word_of_nat len :: u64) @ h)"

definition rc_block :: "bytes \<Rightarrow> u32 \<Rightarrow> s32 \<Rightarrow> bytes" where
  "rc_block h dmn delta = pad_block (le_bytes 4 RC_MAGIC @ le_bytes 4 delta @ le_bytes 4 dmn @ replicate 4 0 @ h)"

section \<open>The object log\<close>

definition dur_idx_find :: "bytes \<Rightarrow> dur \<Rightarrow> nat option" where
  "dur_idx_find h s = List.find (\<lambda>i. fst (dur_idx s ! i) = h) [0..<length (dur_idx s)]"

definition dur_index :: "bytes \<Rightarrow> nat \<Rightarrow> dur \<Rightarrow> dur" where
  "dur_index h b s = (if length (dur_idx s) < DUR_IDX_N then s\<lparr>dur_idx := dur_idx s @ [(h, b)]\<rparr> else s)"

text \<open>The first component is the returned code, the second the hash handed to the caller.\<close>

definition dur_put :: "(bytes \<Rightarrow> bytes) \<Rightarrow> bytes \<Rightarrow> dur \<Rightarrow> int \<times> bytes option \<times> dur" where
  "dur_put H bs s =
     (if \<not> vio_ready s \<or> length bs > DUR_MAXOBJ then (- 1, None, s)
      else
        (let h = H bs in
         if dur_idx_find h s \<noteq> None then (0, Some h, s)
         else
           (let B = dur_log_head s in
            case vblk_write B (hdr_block (length bs) h) s of (ok1, s1) \<Rightarrow>
              (if \<not> ok1 then (- 2, Some h, s1)
               else
                 (case vblk_write (B + 1) (pad_block bs) s1 of (ok2, s2) \<Rightarrow>
                    (if \<not> ok2 then (- 2, Some h, s2)
                     else
                       (let s3 = dur_index h B s2
                        in (1, Some h, s3\<lparr>dur_log_head := B + 2, dur_objs_written := dur_objs_written s3 + 1\<rparr>))))))))"

definition dur_get :: "(bytes \<Rightarrow> bytes) \<Rightarrow> bytes \<Rightarrow> dur \<Rightarrow> int \<times> bytes option" where
  "dur_get H h s =
     (if \<not> vio_ready s then (- 1, None)
      else
        (case dur_idx_find h s of
           None \<Rightarrow> (- 10, None)
         | Some e \<Rightarrow>
             (let B = snd (dur_idx s ! e) in
              case vblk_read B s of
                None \<Rightarrow> (- 2, None)
              | Some hb \<Rightarrow>
                  (if blk_u32 0 hb \<noteq> DUR_MAGIC then (- 3, None)
                   else
                     (let len = blk_u64 8 hb in
                      if len > word_of_nat DUR_MAXOBJ then (- 5, None)
                      else if blk_hash hb \<noteq> h then (- 4, None)
                      else
                        (case vblk_read (B + 1) s of
                           None \<Rightarrow> (- 2, None)
                         | Some pb \<Rightarrow>
                             (let bs = take (unat len) pb
                              in if \<not> cvsasx_hash_eq (H bs) h then (- 6, None) else (0, Some bs))))))))"

section \<open>The reference-count table\<close>

definition gc_rc_find :: "bytes \<Rightarrow> u32 \<Rightarrow> dur \<Rightarrow> nat option" where
  "gc_rc_find h dmn s =
     List.find (\<lambda>i. rc_domain (gc_rc s ! i) = dmn \<and> rc_hash (gc_rc s ! i) = h) [0..<length (gc_rc s)]"

definition rc_upd :: "nat \<Rightarrow> (gc_rc_ent \<Rightarrow> gc_rc_ent) \<Rightarrow> dur \<Rightarrow> dur" where
  "rc_upd e f s = s\<lparr>gc_rc := (gc_rc s)[e := f (gc_rc s ! e)]\<rparr>"

definition gc_rc_apply :: "bytes \<Rightarrow> u32 \<Rightarrow> s32 \<Rightarrow> dur \<Rightarrow> dur" where
  "gc_rc_apply h dmn delta s =
     (case gc_rc_find h dmn s of
        Some e \<Rightarrow> rc_upd e (\<lambda>r. r\<lparr>rc_count := rc_count r + delta\<rparr>) s
      | None \<Rightarrow>
          (if length (gc_rc s) \<ge> GC_RC_N then s
           else s\<lparr>gc_rc := gc_rc s @ [\<lparr>rc_hash = h, rc_domain = dmn, rc_count = 0 + delta, rc_tombstoned = False\<rparr>]\<rparr>))"

definition gc_rc_get :: "bytes \<Rightarrow> u32 \<Rightarrow> dur \<Rightarrow> s32" where
  "gc_rc_get h dmn s = (case gc_rc_find h dmn s of None \<Rightarrow> 0 | Some e \<Rightarrow> rc_count (gc_rc s ! e))"

definition gc_rc_put_delta :: "bytes \<Rightarrow> u32 \<Rightarrow> s32 \<Rightarrow> dur \<Rightarrow> dur" where
  "gc_rc_put_delta h dmn delta s =
     (if \<not> vio_ready s then s
      else
        (let s1 = snd (vblk_write (dur_log_head s) (rc_block h dmn delta) s)
         in gc_rc_apply h dmn delta (s1\<lparr>dur_log_head := dur_log_head s1 + 1\<rparr>)))"

section \<open>Recovery\<close>

lemma dk_simps [simp]:
  "dk (dur_index h b s) = dk s" "vio_ready (dur_index h b s) = vio_ready s"
  "dk (gc_rc_apply h d x s) = dk s" "vio_ready (gc_rc_apply h d x s) = vio_ready s"
  "gc_rc (dur_index h b s) = gc_rc s" "dur_idx (gc_rc_apply h d x s) = dur_idx s"
  "dur_log_head (dur_index h b s) = dur_log_head s" "dur_log_head (gc_rc_apply h d x s) = dur_log_head s"
  by (auto simp: dur_index_def gc_rc_apply_def rc_upd_def split: option.splits)

function recover_scan :: "(bytes \<Rightarrow> bytes) \<Rightarrow> nat \<Rightarrow> dur \<Rightarrow> nat \<times> dur" where
  "recover_scan H B s =
     (case vblk_read B s of
        None \<Rightarrow> (B, s)
      | Some blk \<Rightarrow>
          (if blk_u32 0 blk = DUR_MAGIC
           then (let len = blk_u64 8 blk; claim = blk_hash blk in
                 if len > word_of_nat DUR_MAXOBJ then (B, s)
                 else
                   (case vblk_read (B + 1) s of
                      None \<Rightarrow> (B, s\<lparr>dur_recover_rejected := dur_recover_rejected s + 1\<rparr>)
                    | Some pb \<Rightarrow>
                        (if H (take (unat len) pb) \<noteq> claim
                         then (B, s\<lparr>dur_recover_rejected := dur_recover_rejected s + 1\<rparr>)
                         else recover_scan H (B + 2) (dur_index claim B s))))
           else if blk_u32 0 blk = RC_MAGIC
             then recover_scan H (B + 1) (gc_rc_apply (blk_hash blk) (blk_u32 8 blk) (blk_u32 4 blk) s)
           else (B, s)))"
  by pat_completeness auto

termination
  by (relation "measure (\<lambda>(H, B, s). length (dk s) - B)") (auto simp: vblk_read_def split: if_splits)

declare recover_scan.simps [simp del]

definition dur_recover :: "(bytes \<Rightarrow> bytes) \<Rightarrow> dur \<Rightarrow> nat \<times> dur" where
  "dur_recover H s =
     (case recover_scan H 1 (s\<lparr>dur_idx := [], dur_recover_rejected := 0, gc_rc := []\<rparr>) of
        (B, s1) \<Rightarrow> (length (dur_idx s1), s1\<lparr>dur_log_head := B\<rparr>))"

text \<open>The parser over a truncated byte image (S4); the flag is set when a claim was rejected.\<close>

function parse_trunc :: "(bytes \<Rightarrow> bytes) \<Rightarrow> bytes \<Rightarrow> nat \<Rightarrow> nat \<Rightarrow> nat \<times> bool" where
  "parse_trunc H buf ofs count =
     (if ofs + 48 \<le> length buf
      then (if blk_u32 ofs buf \<noteq> DUR_MAGIC then (count, False)
            else
              (let len = blk_u64 (ofs + 8) buf in
               if len > word_of_nat DUR_MAXOBJ then (count, True)
               else if ofs + 4096 + unat len > length buf then (count, True)
               else if H (take (unat len) (drop (ofs + 4096) buf)) \<noteq> take 32 (drop (ofs + 16) buf) then (count, True)
               else parse_trunc H buf (ofs + DUR_REC_BYTES) (count + 1)))
      else (count, False))"
  by pat_completeness auto
termination
  by (relation "measure (\<lambda>(H, buf, ofs, count). length buf - ofs)") (auto simp: DUR_REC_BYTES_def)

declare parse_trunc.simps [simp del]

definition dur_parse_trunc :: "(bytes \<Rightarrow> bytes) \<Rightarrow> bytes \<Rightarrow> nat \<times> bool" where
  "dur_parse_trunc H buf = parse_trunc H buf 0 0"

section \<open>The collector's block arena and scoped deduplication\<close>

definition gc_alloc :: "dur \<Rightarrow> nat \<times> dur" where
  "gc_alloc s = (case gc_free s of b # rest \<Rightarrow> (b, s\<lparr>gc_free := rest\<rparr>) | [] \<Rightarrow> (gc_hwm s, s\<lparr>gc_hwm := gc_hwm s + 1\<rparr>))"

definition gc_freeblk :: "nat \<Rightarrow> dur \<Rightarrow> dur" where
  "gc_freeblk b s = (if length (gc_free s) < GC_FREE_N then s\<lparr>gc_free := b # gc_free s\<rparr> else s)"

definition gc_obj_block :: "bytes \<Rightarrow> bytes \<Rightarrow> bytes" where
  "gc_obj_block bs h =
     pad_block (le_bytes 4 DUR_MAGIC @ replicate 4 0 @ le_bytes 8 (word_of_nat (length bs) :: u64) @ h @ take 4048 bs)"

definition gc_obj_put :: "(bytes \<Rightarrow> bytes) \<Rightarrow> bytes \<Rightarrow> dur \<Rightarrow> nat \<times> bytes \<times> dur" where
  "gc_obj_put H bs s =
     (let h = H bs in
      case gc_alloc s of (b, s1) \<Rightarrow> (b, h, snd (vblk_write b (gc_obj_block bs h) s1)))"

definition gc_obj_verify :: "(bytes \<Rightarrow> bytes) \<Rightarrow> nat \<Rightarrow> bytes \<Rightarrow> dur \<Rightarrow> bool" where
  "gc_obj_verify H b want s =
     (case vblk_read b s of
        None \<Rightarrow> False
      | Some blk \<Rightarrow>
          (if blk_u32 0 blk \<noteq> DUR_MAGIC then False
           else let len = blk_u64 8 blk in
                if len > 4048 then False else cvsasx_hash_eq (H (take (unat len) (drop 48 blk))) want))"

record ds_res =
  ds_hit :: bool
  ds_block :: nat

definition ds_store_scoped :: "(bytes \<Rightarrow> bytes) \<Rightarrow> bytes \<Rightarrow> u32 \<Rightarrow> dur \<Rightarrow> ds_res \<times> dur" where
  "ds_store_scoped H c dmn s =
     (let h = H c; miss = (case gc_obj_put H c s of (b, _, s1) \<Rightarrow>
                             (\<lparr>ds_hit = False, ds_block = b\<rparr>, gc_rc_apply h dmn 1 s1))
      in case gc_rc_find h dmn s of
           Some e \<Rightarrow> (if \<not> rc_tombstoned (gc_rc s ! e)
                      then (\<lparr>ds_hit = True, ds_block = 0\<rparr>, rc_upd e (\<lambda>r. r\<lparr>rc_count := rc_count r + 1\<rparr>) s)
                      else miss)
         | None \<Rightarrow> miss)"

definition ds_store_global :: "(bytes \<Rightarrow> bytes) \<Rightarrow> bytes \<Rightarrow> dur \<Rightarrow> ds_res \<times> dur" where
  "ds_store_global H c s =
     (if \<exists>r \<in> set (gc_rc s). \<not> rc_tombstoned r \<and> sint (rc_count r) > 0 \<and> rc_hash r = H c
      then (\<lparr>ds_hit = True, ds_block = 0\<rparr>, s)
      else (case gc_obj_put H c s of (b, _, s1) \<Rightarrow> (\<lparr>ds_hit = False, ds_block = b\<rparr>, s1)))"

definition u2_mem_release :: "bytes \<Rightarrow> nat \<Rightarrow> dur \<Rightarrow> int \<times> dur" where
  "u2_mem_release rh block s =
     (case gc_rc_find rh U2_DOM s of
        None \<Rightarrow> (U0_EFAULT, s)
      | Some e \<Rightarrow>
          (if rc_tombstoned (gc_rc s ! e) \<or> sint (rc_count (gc_rc s ! e)) \<le> 0 then (U0_EFAULT, s)
           else
             (let s1 = gc_rc_apply rh U2_DOM (- 1) s
              in if gc_rc_get rh U2_DOM s1 = 0
                 then (1, gc_freeblk block (rc_upd e (\<lambda>r. r\<lparr>rc_tombstoned := True\<rparr>) s1))
                 else (0, s1))))"

section \<open>Block codecs\<close>

lemma length_pad_block [simp]: "length bs \<le> 4096 \<Longrightarrow> length (pad_block bs) = 4096"
  by (simp add: pad_block_def)

lemma take_pad_block: "n \<le> length bs \<Longrightarrow> take n (pad_block bs) = take n bs"
  by (simp add: pad_block_def)

lemma hdr_block_fields:
  assumes "length h = 32"
  shows "blk_u32 0 (hdr_block len h) = DUR_MAGIC" and "blk_u64 8 (hdr_block len h) = word_of_nat len"
    and "blk_hash (hdr_block len h) = h" and "length (hdr_block len h) = 4096"
  using assms by (simp_all add: blk_u32_def blk_u64_def blk_hash_def hdr_block_def pad_block_def le_word_le_bytes)

lemma rc_block_fields:
  assumes "length h = 32"
  shows "blk_u32 0 (rc_block h d x) = RC_MAGIC" and "blk_u32 4 (rc_block h d x) = x" and "blk_u32 8 (rc_block h d x) = d"
    and "blk_hash (rc_block h d x) = h" and "length (rc_block h d x) = 4096"
  using assms by (simp_all add: blk_u32_def blk_hash_def rc_block_def pad_block_def le_word_le_bytes)

lemma magics: "DUR_MAGIC \<noteq> RC_MAGIC" "DUR_MAGIC \<noteq> 0" "RC_MAGIC \<noteq> 0"
  by (simp_all add: DUR_MAGIC_def RC_MAGIC_def)

lemma blank_magic: "blk_u32 0 (replicate 4096 0) = 0"
  by (simp add: blk_u32_def numeral_eq_Suc)

lemma len_small: "n \<le> 4096 \<Longrightarrow> unat (word_of_nat n :: u64) = n \<and> \<not> (word_of_nat n :: u64) > word_of_nat DUR_MAXOBJ"
  by (simp add: DUR_MAXOBJ_def word_less_nat_alt unat_of_nat take_bit_eq_mod)

section \<open>The disk is not trusted\<close>

text \<open>An index entry whose record on the disk verifies.\<close>

definition ent_verified :: "(bytes \<Rightarrow> bytes) \<Rightarrow> bytes list \<Rightarrow> bytes \<times> nat \<Rightarrow> bool" where
  "ent_verified H d e \<longleftrightarrow>
     (case e of (h, B) \<Rightarrow> B + 1 < length d \<and> blk_u32 0 (d ! B) = DUR_MAGIC \<and> \<not> blk_u64 8 (d ! B) > word_of_nat DUR_MAXOBJ \<and>
        blk_hash (d ! B) = h \<and> H (take (unat (blk_u64 8 (d ! B))) (d ! (B + 1))) = h)"

lemma dur_idx_find_SomeD: "dur_idx_find h s = Some e \<Longrightarrow> e < length (dur_idx s) \<and> fst (dur_idx s ! e) = h"
  by (auto simp: dur_idx_find_def find_Some_iff)

lemma dur_idx_find_None: "dur_idx_find h s = None \<longleftrightarrow> h \<notin> fst ` set (dur_idx s)"
proof -
  have "fst ` set (dur_idx s) = (\<lambda>i. fst (dur_idx s ! i)) ` {..<length (dur_idx s)}"
    by (metis image_image lessThan_atLeast0 nth_image order_refl take_all_iff)
  then show ?thesis by (auto simp: dur_idx_find_def find_None_iff)
qed

lemma dur_get_sound:
  assumes "hash_fn H" and "length h = 32" and "dur_get H h s = (0, Some bs)"
  shows "H bs = h"
proof -
  have "cvsasx_hash_eq (H bs) h"
    using assms(3) unfolding dur_get_def Let_def by (auto split: if_splits option.splits)
  then show ?thesis using cvsasx_hash_eq_iff assms(2) hash_fn.length_H[OF assms(1)] by blast
qed

lemma dur_get_verified:
  assumes "hash_fn H" and "vio_ready s" and "\<forall>e \<in> set (dur_idx s). ent_verified H (dk s) e" and "h \<in> fst ` set (dur_idx s)"
  shows "\<exists>bs. dur_get H h s = (0, Some bs) \<and> H bs = h"
proof -
  obtain e where e: "dur_idx_find h s = Some e" using assms(4) dur_idx_find_None[of h s] by fastforce
  note D = dur_idx_find_SomeD[OF e]
  define B where "B = snd (dur_idx s ! e)"
  have "ent_verified H (dk s) (h, B)" using assms(3) D by (metis B_def nth_mem prod.collapse)
  then have v: "B + 1 < length (dk s)" "blk_u32 0 (dk s ! B) = DUR_MAGIC" "\<not> blk_u64 8 (dk s ! B) > word_of_nat DUR_MAXOBJ"
    "blk_hash (dk s ! B) = h" "H (take (unat (blk_u64 8 (dk s ! B))) (dk s ! (B + 1))) = h"
    by (simp_all add: ent_verified_def)
  have "length h = 32" using v(5) hash_fn.length_H[OF assms(1)] by metis
  then show ?thesis
    using v assms(2) e
    by (simp add: dur_get_def B_def[symmetric] vblk_read_def Let_def cvsasx_hash_eq_iff)
qed

lemma recover_scan_ok:
  "\<forall>e \<in> set (dur_idx s). ent_verified H (dk s) e \<Longrightarrow> recover_scan H B s = (E, s') \<Longrightarrow>
   dk s' = dk s \<and> vio_ready s' = vio_ready s \<and> (\<forall>e \<in> set (dur_idx s'). ent_verified H (dk s) e)"
proof (induction H B s rule: recover_scan.induct)
  case (1 H B s)
  show ?case
  proof (cases "vblk_read B s")
    case None
    then show ?thesis using "1.prems" recover_scan.simps[of H B s] by auto
  next
    case (Some blk)
    consider (obj) pb where "blk_u32 0 blk = DUR_MAGIC" "\<not> blk_u64 8 blk > word_of_nat DUR_MAXOBJ" "vblk_read (B + 1) s = Some pb"
        "H (take (unat (blk_u64 8 blk)) pb) = blk_hash blk"
      | (rc) "blk_u32 0 blk = RC_MAGIC"
      | (stop) "recover_scan H B s = (B, s) \<or> recover_scan H B s = (B, s\<lparr>dur_recover_rejected := dur_recover_rejected s + 1\<rparr>)"
      using Some recover_scan.simps[of H B s] by (force simp: Let_def split: option.splits if_splits)
    then show ?thesis
    proof cases
      case obj
      have "ent_verified H (dk s) (blk_hash blk, B)"
        using obj Some by (auto simp: ent_verified_def vblk_read_def split: if_splits)
      then have "\<forall>e \<in> set (dur_idx (dur_index (blk_hash blk) B s)). ent_verified H (dk (dur_index (blk_hash blk) B s)) e"
        using "1.prems"(1) by (auto simp: dur_index_def)
      moreover have "recover_scan H (B + 2) (dur_index (blk_hash blk) B s) = (E, s')"
        using "1.prems"(2) obj Some recover_scan.simps[of H B s] by (simp add: Let_def)
      ultimately show ?thesis using "1.IH"(1)[OF Some obj(1) refl refl obj(2,3)] obj(4) by simp
    next
      case rc
      have "recover_scan H (B + 1) (gc_rc_apply (blk_hash blk) (blk_u32 8 blk) (blk_u32 4 blk) s) = (E, s')"
        using "1.prems"(2) rc Some magics recover_scan.simps[of H B s] by simp
      then show ?thesis using "1.IH"(2)[OF Some _ rc] "1.prems"(1) rc magics by simp
    next
      case stop
      then show ?thesis using "1.prems" by auto
    qed
  qed
qed

section \<open>The log as a sequence of records\<close>

datatype drec = ObjRec bytes | RcRec bytes u32 s32

fun log_at :: "(bytes \<Rightarrow> bytes) \<Rightarrow> bytes list \<Rightarrow> nat \<Rightarrow> drec list \<Rightarrow> nat \<Rightarrow> bool" where
  "log_at H d B [] E \<longleftrightarrow> E = B"
| "log_at H d B (ObjRec bs # rs) E \<longleftrightarrow>
     length bs \<le> 4096 \<and> B + 1 < length d \<and> d ! B = hdr_block (length bs) (H bs) \<and> take (length bs) (d ! (B + 1)) = bs \<and>
     log_at H d (B + 2) rs E"
| "log_at H d B (RcRec h dmn x # rs) E \<longleftrightarrow>
     length h = 32 \<and> B < length d \<and> d ! B = rc_block h dmn x \<and> log_at H d (B + 1) rs E"

fun replay :: "(bytes \<Rightarrow> bytes) \<Rightarrow> drec list \<Rightarrow> nat \<Rightarrow> dur \<Rightarrow> dur" where
  "replay H [] B s = s"
| "replay H (ObjRec bs # rs) B s = replay H rs (B + 2) (dur_index (H bs) B s)"
| "replay H (RcRec h dmn x # rs) B s = replay H rs (B + 1) (gc_rc_apply h dmn x s)"

lemma replay_disk [simp]: "dk (replay H rs B s) = dk s" "vio_ready (replay H rs B s) = vio_ready s"
proof (induction rs arbitrary: B s)
  case (Cons r rs)
  {
    case 1
    show ?case by (cases r) (simp_all add: Cons)
  next
    case 2
    show ?case by (cases r) (simp_all add: Cons)
  }
qed simp_all

lemma log_at_end: "log_at H d B rs E \<Longrightarrow> B \<le> E"
proof (induction rs arbitrary: B)
  case (Cons r rs)
  then show ?case by (cases r) fastforce+
qed simp

lemma log_at_cong:
  "log_at H d B rs E \<Longrightarrow> length d' = length d \<Longrightarrow> (\<And>b. B \<le> b \<Longrightarrow> b < E \<Longrightarrow> d' ! b = d ! b) \<Longrightarrow> log_at H d' B rs E"
proof (induction rs arbitrary: B)
  case (Cons r rs)
  show ?case
  proof (cases r)
    case (ObjRec bs)
    then have l: "log_at H d (B + 2) rs E" using Cons.prems(1) by simp
    have "log_at H d' (B + 2) rs E" using Cons.IH[OF l Cons.prems(2)] Cons.prems(3) by simp
    then show ?thesis using Cons.prems log_at_end[OF l] ObjRec by simp
  next
    case (RcRec h dmn x)
    then have l: "log_at H d (B + 1) rs E" using Cons.prems(1) by simp
    have "log_at H d' (B + 1) rs E" using Cons.IH[OF l Cons.prems(2)] Cons.prems(3) by simp
    then show ?thesis using Cons.prems log_at_end[OF l] RcRec by simp
  qed
qed simp

lemma log_at_append: "log_at H d B (rs @ qs) E \<longleftrightarrow> (\<exists>M. log_at H d B rs M \<and> log_at H d M qs E)"
proof (induction rs arbitrary: B)
  case (Cons r rs)
  then show ?case by (cases r) auto
qed simp

lemma replay_append: "log_at H d B rs M \<Longrightarrow> replay H (rs @ qs) B s = replay H qs M (replay H rs B s)"
proof (induction rs arbitrary: B s)
  case (Cons r rs)
  then show ?case by (cases r) auto
qed simp

lemma replay_cong:
  "dur_idx s = dur_idx t \<Longrightarrow> dur_idx (replay H rs B s) = dur_idx (replay H rs B t)"
  "gc_rc s = gc_rc t \<Longrightarrow> gc_rc (replay H rs B s) = gc_rc (replay H rs B t)"
proof (induction rs arbitrary: B s t)
  case (Cons r rs)
  {
    case 1
    then show ?case by (cases r) (auto intro!: Cons simp: dur_index_def)
  next
    case 2
    have "gc_rc (gc_rc_apply h d x s) = gc_rc (gc_rc_apply h d x t)" for h d x
      using 2 by (auto simp: gc_rc_apply_def gc_rc_find_def rc_upd_def split: option.splits)
    then show ?case using 2 by (cases r) (auto intro!: Cons)
  }
qed simp_all

lemma scan_log:
  assumes "hash_fn H"
  shows "vio_ready s \<Longrightarrow> log_at H (dk s) B rs E \<Longrightarrow> recover_scan H B s = recover_scan H E (replay H rs B s)"
proof (induction rs arbitrary: B s)
  case (Cons r rs)
  show ?case
  proof (cases r)
    case (ObjRec bs)
    have h: "length bs \<le> 4096" "B + 1 < length (dk s)" "dk s ! B = hdr_block (length bs) (H bs)" "take (length bs) (dk s ! (B + 1)) = bs"
      "log_at H (dk s) (B + 2) rs E" using Cons.prems(2) ObjRec by simp_all
    note f = hdr_block_fields[OF hash_fn.length_H[OF assms], of "length bs" bs]
    have "recover_scan H B s = recover_scan H (B + 2) (dur_index (H bs) B s)"
      using h Cons.prems(1) len_small[OF h(1)] recover_scan.simps[of H B s] by (simp add: vblk_read_def f Let_def)
    then show ?thesis using Cons.IH[of "dur_index (H bs) B s" "B + 2"] Cons.prems(1) h(5) ObjRec by simp
  next
    case (RcRec h d x)
    have l: "length h = 32" "B < length (dk s)" "dk s ! B = rc_block h d x" "log_at H (dk s) (B + 1) rs E"
      using Cons.prems(2) RcRec by simp_all
    note f = rc_block_fields[OF l(1), of d x]
    have "recover_scan H B s = recover_scan H (B + 1) (gc_rc_apply h d x s)"
      using l Cons.prems(1) magics recover_scan.simps[of H B s] by (simp add: vblk_read_def f)
    then show ?thesis using Cons.IH[of "gc_rc_apply h d x s" "B + 1"] Cons.prems(1) l(4) RcRec by simp
  qed
qed simp

lemma replay_ents:
  assumes "hash_fn H"
  shows "log_at H d B rs E \<Longrightarrow> e \<in> set (dur_idx (replay H rs B s)) \<Longrightarrow>
     e \<in> set (dur_idx s) \<or> (ent_verified H d e \<and> snd e + 2 \<le> E)"
proof (induction rs arbitrary: B s)
  case (Cons r rs)
  show ?case
  proof (cases r)
    case (ObjRec bs)
    have h: "length bs \<le> 4096" "B + 1 < length d" "d ! B = hdr_block (length bs) (H bs)" "take (length bs) (d ! (B + 1)) = bs"
      "log_at H d (B + 2) rs E" using Cons.prems(1) ObjRec by simp_all
    note f = hdr_block_fields[OF hash_fn.length_H[OF assms], of "length bs" bs]
    have v: "ent_verified H d (H bs, B)" using h len_small[OF h(1)] by (simp add: ent_verified_def f)
    have "e \<in> set (dur_idx (dur_index (H bs) B s)) \<or> (ent_verified H d e \<and> snd e + 2 \<le> E)"
      using Cons.IH[OF h(5)] Cons.prems(2) ObjRec by simp
    then show ?thesis using v log_at_end[OF h(5)] by (auto simp: dur_index_def split: if_splits)
  next
    case (RcRec h dm x)
    then show ?thesis using Cons.IH[of "B + 1" "gc_rc_apply h dm x s"] Cons.prems by simp
  qed
qed simp

text \<open>The invariant between two operations: the disk holds the log of the records, blank after
  its head, and the tables in memory are what a replay of it gives.\<close>

abbreviation clr :: "dur \<Rightarrow> dur" where
  "clr s \<equiv> s\<lparr>dur_idx := [], dur_recover_rejected := 0, gc_rc := []\<rparr>"

definition blank_from :: "nat \<Rightarrow> bytes list \<Rightarrow> bool" where
  "blank_from E d \<longleftrightarrow> (\<forall>b. E \<le> b \<longrightarrow> b < length d \<longrightarrow> d ! b = replicate 4096 0)"

definition log_inv :: "(bytes \<Rightarrow> bytes) \<Rightarrow> drec list \<Rightarrow> dur \<Rightarrow> bool" where
  "log_inv H recs s \<longleftrightarrow>
     vio_ready s \<and> log_at H (dk s) 1 recs (dur_log_head s) \<and> blank_from (dur_log_head s) (dk s) \<and>
     dur_idx s = dur_idx (replay H recs 1 (clr s)) \<and> gc_rc s = gc_rc (replay H recs 1 (clr s))"

lemma log_inv_step:
  assumes inv: "log_inv H recs s" and r: "log_at H d' (dur_log_head s) [r] E"
    and d': "length d' = length (dk s)" "\<And>b. b < dur_log_head s \<Longrightarrow> d' ! b = dk s ! b" "blank_from E d'"
    and t: "dk t = d'" "vio_ready t" "dur_log_head t = E" "dur_idx t = dur_idx (replay H [r] (dur_log_head s) s)"
      "gc_rc t = gc_rc (replay H [r] (dur_log_head s) s)"
  shows "log_inv H (recs @ [r]) t"
proof -
  have l: "log_at H (dk s) 1 recs (dur_log_head s)" using inv by (simp add: log_inv_def)
  have l': "log_at H d' 1 recs (dur_log_head s)" by (rule log_at_cong[OF l d'(1)]) (rule d'(2))
  have rp: "replay H (recs @ [r]) 1 (clr t) = replay H [r] (dur_log_head s) (replay H recs 1 (clr t))"
    by (rule replay_append[OF l])
  have c: "dur_idx (replay H recs 1 (clr t)) = dur_idx s" "gc_rc (replay H recs 1 (clr t)) = gc_rc s"
    using replay_cong[of "clr t" "clr s" H recs 1] inv by (simp_all add: log_inv_def)
  have "dur_idx (replay H (recs @ [r]) 1 (clr t)) = dur_idx t" "gc_rc (replay H (recs @ [r]) 1 (clr t)) = gc_rc t"
    unfolding rp t(4,5) by (rule replay_cong(1)[OF c(1)], rule replay_cong(2)[OF c(2)])
  then show ?thesis
    using l' r d'(3) t(1-3) unfolding log_inv_def log_at_append by auto
qed


section \<open>Operations and crashes\<close>

datatype dop = DPut bytes | DDelta bytes u32 s32

fun dur_step :: "(bytes \<Rightarrow> bytes) \<Rightarrow> dur \<Rightarrow> dop \<Rightarrow> dur" where
  "dur_step H s (DPut bs) = snd (snd (dur_put H bs s))"
| "dur_step H s (DDelta h dmn x) = gc_rc_put_delta h dmn x s"

fun dop_ok :: "dop \<Rightarrow> bool" where
  "dop_ok (DPut bs) = (length bs \<le> 4096)"
| "dop_ok (DDelta h dmn x) = (length h = 32)"

lemma put_step:
  assumes H: "hash_fn H" and inv: "log_inv H recs s" and len: "length bs \<le> 4096"
    and room: "dur_log_head s + 2 \<le> length (dk s)"
  obtains (dedup) "dur_put H bs s = (0, Some (H bs), s)" "H bs \<in> fst ` set (dur_idx s)"
  | (new) s' where "dur_put H bs s = (1, Some (H bs), s')" "log_inv H (recs @ [ObjRec bs]) s'"
      "length (dk s') = length (dk s)" "dur_log_head s' = dur_log_head s + 2" "dur_idx s' = dur_idx (dur_index (H bs) (dur_log_head s) s)"
proof (cases "dur_idx_find (H bs) s")
  case None
  let ?B = "dur_log_head s" and ?hb = "hdr_block (length bs) (H bs)"
  let ?d = "(dk s)[?B := ?hb, Suc ?B := pad_block bs]"
  define s2 where "s2 = s\<lparr>dk := ?d\<rparr>"
  define s3 where "s3 = (dur_index (H bs) ?B s2)\<lparr>dur_log_head := ?B + 2, dur_objs_written := dur_objs_written (dur_index (H bs) ?B s2) + 1\<rparr>"
  have rdy: "vio_ready s" using inv by (simp add: log_inv_def)
  have p: "dur_put H bs s = (1, Some (H bs), s3)"
    using None rdy len room by (simp add: dur_put_def DUR_MAXOBJ_def Let_def vblk_write_def s3_def s2_def)
  have bl: "blank_from ?B (dk s)" using inv by (simp add: log_inv_def)
  have "log_inv H (recs @ [ObjRec bs]) s3"
  proof (rule log_inv_step[OF inv, where d' = ?d and E = "?B + 2"])
    show "log_at H ?d ?B [ObjRec bs] (?B + 2)" using len room by (simp add: take_pad_block)
    show "blank_from (?B + 2) ?d" using bl by (simp add: blank_from_def)
    show "dur_idx s3 = dur_idx (replay H [ObjRec bs] ?B s)" "gc_rc s3 = gc_rc (replay H [ObjRec bs] ?B s)"
      by (simp_all add: s3_def s2_def dur_index_def)
  qed (simp_all add: s3_def s2_def rdy)
  then show ?thesis using new[OF p] by (simp add: s3_def s2_def dur_index_def)
next
  case (Some e)
  have "vio_ready s" using inv by (simp add: log_inv_def)
  then have "dur_put H bs s = (0, Some (H bs), s)" using Some len by (simp add: dur_put_def DUR_MAXOBJ_def Let_def)
  moreover have "H bs \<in> fst ` set (dur_idx s)" using Some dur_idx_find_None[of "H bs" s] by fastforce
  ultimately show ?thesis by (rule dedup)
qed

lemma delta_step:
  assumes inv: "log_inv H recs s" and h: "length h = 32" and room: "dur_log_head s + 1 \<le> length (dk s)"
  shows "log_inv H (recs @ [RcRec h dm x]) (gc_rc_put_delta h dm x s)" and "length (dk (gc_rc_put_delta h dm x s)) = length (dk s)"
    and "dur_log_head (gc_rc_put_delta h dm x s) = dur_log_head s + 1" and "dur_idx (gc_rc_put_delta h dm x s) = dur_idx s"
proof -
  let ?B = "dur_log_head s"
  let ?d = "(dk s)[?B := rc_block h dm x]"
  define t where "t = s\<lparr>dk := ?d, dur_log_head := ?B + 1\<rparr>"
  have rdy: "vio_ready s" using inv by (simp add: log_inv_def)
  have p: "gc_rc_put_delta h dm x s = gc_rc_apply h dm x t"
    using rdy room by (simp add: gc_rc_put_delta_def vblk_write_def t_def Let_def)
  have bl: "blank_from ?B (dk s)" using inv by (simp add: log_inv_def)
  have gc: "gc_rc (gc_rc_apply h dm x t) = gc_rc (gc_rc_apply h dm x s)"
    by (simp add: t_def gc_rc_apply_def gc_rc_find_def rc_upd_def split: option.splits)
  show "log_inv H (recs @ [RcRec h dm x]) (gc_rc_put_delta h dm x s)"
    unfolding p
  proof (rule log_inv_step[OF inv, where d' = ?d and E = "?B + 1"])
    show "log_at H ?d ?B [RcRec h dm x] (?B + 1)" using h room by simp
    show "blank_from (?B + 1) ?d" using bl by (simp add: blank_from_def)
    show "gc_rc (gc_rc_apply h dm x t) = gc_rc (replay H [RcRec h dm x] ?B s)" using gc by simp
  qed (simp_all add: t_def rdy)
  show "length (dk (gc_rc_put_delta h dm x s)) = length (dk s)" "dur_log_head (gc_rc_put_delta h dm x s) = dur_log_head s + 1"
    "dur_idx (gc_rc_put_delta h dm x s) = dur_idx s"
    unfolding p by (simp_all add: t_def)
qed

text \<open>A run of operations on a disk with room keeps every acknowledged object in the index.\<close>

lemma run_inv:
  assumes H: "hash_fn H"
  shows "log_inv H recs s \<Longrightarrow> \<forall>op \<in> set ops. dop_ok op \<Longrightarrow> dur_log_head s + 2 * length ops \<le> length (dk s) \<Longrightarrow>
     length (dur_idx s) + length ops \<le> DUR_IDX_N \<Longrightarrow>
     (\<exists>recs'. log_inv H recs' (foldl (dur_step H) s ops)) \<and> length (dk (foldl (dur_step H) s ops)) = length (dk s) \<and>
     dur_log_head (foldl (dur_step H) s ops) \<le> dur_log_head s + 2 * length ops \<and>
     fst ` set (dur_idx s) \<union> {H bs | bs. DPut bs \<in> set ops} \<subseteq> fst ` set (dur_idx (foldl (dur_step H) s ops))"
proof (induction ops arbitrary: recs s)
  case Nil
  then show ?case by auto
next
  case (Cons op ops)
  have room: "dur_log_head s + 2 \<le> length (dk s)" using Cons.prems(3) by simp
  show ?case
  proof (cases op)
    case (DPut bs)
    then have len: "length bs \<le> 4096" using Cons.prems(2) by simp
    show ?thesis
    proof (rule put_step[OF H Cons.prems(1) len room])
      assume "dur_put H bs s = (0, Some (H bs), s)" "H bs \<in> fst ` set (dur_idx s)"
      then show ?thesis using Cons.IH[OF Cons.prems(1)] Cons.prems(2-4) DPut by auto
    next
      fix s'
      assume n: "dur_put H bs s = (1, Some (H bs), s')" "log_inv H (recs @ [ObjRec bs]) s'" "length (dk s') = length (dk s)"
        "dur_log_head s' = dur_log_head s + 2" "dur_idx s' = dur_idx (dur_index (H bs) (dur_log_head s) s)"
      have ix: "dur_idx s' = dur_idx s @ [(H bs, dur_log_head s)]" using n(5) Cons.prems(4) by (simp add: dur_index_def)
      have st: "foldl (dur_step H) s (op # ops) = foldl (dur_step H) s' ops" using n(1) DPut by simp
      show ?thesis
        unfolding st using Cons.IH[OF n(2)] Cons.prems(2-4) n(3,4) ix DPut by auto
    qed
  next
    case (DDelta h dm x)
    then have h: "length h = 32" using Cons.prems(2) by simp
    have "dur_log_head s + 1 \<le> length (dk s)" using room by simp
    note D = delta_step[OF Cons.prems(1) h this, of dm x]
    show ?thesis using Cons.IH[OF D(1)] Cons.prems(2-4) D(2-4) DDelta by auto
  qed
qed

text \<open>
  A crash while an object is being put: the header block is torn, or it is complete and the
  payload block is torn.  A torn block starts with the new bytes and ends with the old ones.
\<close>

definition torn :: "nat \<Rightarrow> bytes \<Rightarrow> bytes \<Rightarrow> bytes" where
  "torn m new old = take m new @ drop m old"

definition crash_disk :: "(bytes \<Rightarrow> bytes) \<Rightarrow> bytes \<Rightarrow> bool \<Rightarrow> nat \<Rightarrow> dur \<Rightarrow> bytes list" where
  "crash_disk H bs hdr_done m s =
     (let B = dur_log_head s; hb = hdr_block (length bs) (H bs); d = dk s
      in if hdr_done then d[B := hb, B + 1 := torn m (pad_block bs) (d ! (B + 1))]
         else d[B := torn m hb (d ! B)])"

lemma magic_first_byte: "length blk \<ge> 4 \<Longrightarrow> blk_u32 0 blk = RC_MAGIC \<Longrightarrow> blk ! 0 = 0x52"
proof -
  assume l: "length blk \<ge> 4" and m: "blk_u32 0 blk = RC_MAGIC"
  have "le_bytes (length (take 4 blk)) (le_word (take 4 blk) :: u32) = take 4 blk" by (rule le_bytes_le_word) simp
  then have "take 4 blk = le_bytes 4 RC_MAGIC" using l m by (simp add: blk_u32_def)
  then have "take 4 blk ! 0 = ucast RC_MAGIC" by simp
  then show ?thesis by (simp add: RC_MAGIC_def)
qed

lemma torn_header_magic:
  assumes "length h = 32"
  shows "blk_u32 0 (torn m (hdr_block n h) (replicate 4096 0)) \<noteq> RC_MAGIC"
proof
  assume a: "blk_u32 0 (torn m (hdr_block n h) (replicate 4096 0)) = RC_MAGIC"
  have "length (torn m (hdr_block n h) (replicate 4096 0)) \<ge> 4" using hdr_block_fields(4)[OF assms] by (simp add: torn_def)
  then have "torn m (hdr_block n h) (replicate 4096 0) ! 0 = 0x52" using a by (rule magic_first_byte)
  moreover have "hdr_block n h ! 0 = 0x43" by (simp add: hdr_block_def pad_block_def nth_append le_bytes_def DUR_MAGIC_def)
  ultimately show False using hdr_block_fields(4)[OF assms, of n] by (cases m) (simp_all add: torn_def nth_append)
qed

lemma scan_blank: "vio_ready s \<Longrightarrow> blank_from E (dk s) \<Longrightarrow> recover_scan H E s = (E, s)"
  using magics blank_magic
  by (subst recover_scan.simps) (simp add: vblk_read_def blank_from_def)

lemma scan_one:
  assumes "vio_ready s" and "blank_from (E + 2) (dk s)" and "E < length (dk s)" and "blk_u32 0 (dk s ! E) \<noteq> RC_MAGIC"
    and "recover_scan H E s = (B, s')"
  shows "gc_rc s' = gc_rc s \<and> dk s' = dk s \<and> vio_ready s' \<and>
     (dur_idx s' = dur_idx s \<or> dur_idx s' = dur_idx (dur_index (blk_hash (dk s ! E)) E s) \<and> ent_verified H (dk s) (blk_hash (dk s ! E), E))"
proof -
  let ?x = "dk s ! E" and ?t = "dur_index (blk_hash (dk s ! E)) E s"
  have rd: "vblk_read E s = Some ?x" using assms(1,3) by (simp add: vblk_read_def)
  show ?thesis
  proof (cases "blk_u32 0 ?x = DUR_MAGIC \<and> \<not> blk_u64 8 ?x > word_of_nat DUR_MAXOBJ \<and> E + 1 < length (dk s) \<and>
      H (take (unat (blk_u64 8 ?x)) (dk s ! (E + 1))) = blk_hash ?x")
    case True
    have "recover_scan H E s = recover_scan H (E + 2) ?t"
      using True rd assms(1) recover_scan.simps[of H E s] by (simp add: vblk_read_def Let_def)
    also have "\<dots> = (E + 2, ?t)" by (rule scan_blank) (use assms(1,2) in simp_all)
    finally have "s' = ?t" using assms(5) by simp
    then show ?thesis using True assms(1) by (simp add: ent_verified_def)
  next
    case False
    have "s' = s \<or> s' = s\<lparr>dur_recover_rejected := dur_recover_rejected s + 1\<rparr>"
      using False rd assms(1,4,5) recover_scan.simps[of H E s]
      by (auto simp: vblk_read_def Let_def split: if_splits)
    then show ?thesis using assms(1) by auto
  qed
qed

lemma dur_get_cong:
  assumes "h \<in> fst ` set (dur_idx s)" and "dur_idx t = dur_idx s \<or> (\<exists>e. dur_idx t = dur_idx s @ [e])"
    and "vio_ready t = vio_ready s" and "length (dk t) = length (dk s)" and "\<forall>e \<in> set (dur_idx s). snd e + 2 \<le> E"
    and "\<And>b. b < E \<Longrightarrow> dk t ! b = dk s ! b"
  shows "dur_get H h t = dur_get H h s"
proof -
  obtain i where i: "dur_idx_find h s = Some i" using assms(1) dur_idx_find_None[of h s] by fastforce
  note D = dur_idx_find_SomeD[OF i]
  have same: "dur_idx t ! j = dur_idx s ! j" if "j < length (dur_idx s)" for j
    using assms(2) that by (auto simp: nth_append)
  have "length (dur_idx s) \<le> length (dur_idx t)" using assms(2) by auto
  moreover have "\<forall>j < i. fst (dur_idx s ! j) \<noteq> h"
    using i by (auto simp: dur_idx_find_def find_Some_iff)
  ultimately have t: "dur_idx_find h t = Some i"
    using D same unfolding dur_idx_find_def find_Some_iff by (intro exI[of _ i]) (auto simp: less_trans)
  have "dur_idx s ! i \<in> set (dur_idx s)" using D by simp
  then have "snd (dur_idx s ! i) + 2 \<le> E" using assms(5) by blast
  then have rd: "vblk_read (snd (dur_idx s ! i)) t = vblk_read (snd (dur_idx s ! i)) s"
    "vblk_read (snd (dur_idx s ! i) + 1) t = vblk_read (snd (dur_idx s ! i) + 1) s"
    using assms(3,4,6) by (simp_all add: vblk_read_def)
  have "dur_idx t ! i = dur_idx s ! i" using same D by blast
  then show ?thesis unfolding dur_get_def i t assms(3) by (simp only: option.case Let_def rd)
qed

lemma crash_put:
  assumes H: "hash_fn H" and inv: "log_inv H recs s" and room: "dur_log_head s + 2 \<le> length (dk s)"
    and crash: "dk t = crash_disk H bs done m s" "vio_ready t" and rec: "dur_recover H t = (n, u)"
  shows "gc_rc u = gc_rc s \<and>
    (dur_idx u = dur_idx s \<or>
     (\<exists>h. dur_idx u = dur_idx (dur_index h (dur_log_head s) s) \<and> ent_verified H (dk t) (h, dur_log_head s))) \<and>
    (\<forall>h \<in> fst ` set (dur_idx s). dur_get H h u = dur_get H h s \<and> fst (dur_get H h u) = 0)"
proof -
  let ?E = "dur_log_head s"
  have l: "vio_ready s" "log_at H (dk s) 1 recs ?E" "blank_from ?E (dk s)" "dur_idx s = dur_idx (replay H recs 1 (clr s))"
    "gc_rc s = gc_rc (replay H recs 1 (clr s))" using inv by (simp_all add: log_inv_def)
  have len: "length (dk t) = length (dk s)" and low: "b < ?E \<Longrightarrow> dk t ! b = dk s ! b" for b
    by (simp_all add: crash(1) crash_disk_def Let_def)
  have up: "blank_from (?E + 2) (dk t)" using l(3) by (simp add: crash(1) crash_disk_def Let_def blank_from_def)
  have bE: "dk s ! ?E = replicate 4096 0" using l(3) room by (simp add: blank_from_def)
  have mg: "blk_u32 0 (dk t ! ?E) \<noteq> RC_MAGIC"
    using torn_header_magic[OF hash_fn.length_H[OF H]] hdr_block_fields(1)[OF hash_fn.length_H[OF H]] magics(1) room
    by (simp add: crash(1) crash_disk_def Let_def bE)
  define v where "v = replay H recs 1 (clr t)"
  have v: "dk v = dk t" "vio_ready v" "dur_idx v = dur_idx s" "gc_rc v = gc_rc s"
    using replay_cong[of "clr t" "clr s" H recs 1] l(4,5) crash(2) by (simp_all add: v_def)
  have "log_at H (dk (clr t)) 1 recs ?E" using log_at_cong[OF l(2) len low] by simp
  then have "recover_scan H 1 (clr t) = recover_scan H ?E v"
    unfolding v_def by (intro scan_log[OF H]) (simp_all add: crash(2))
  then obtain B w where w: "recover_scan H ?E v = (B, w)" "u = w\<lparr>dur_log_head := B\<rparr>"
    using rec by (cases "recover_scan H ?E v") (auto simp: dur_recover_def)
  have S: "gc_rc w = gc_rc v \<and> dk w = dk v \<and> vio_ready w \<and>
     (dur_idx w = dur_idx v \<or> dur_idx w = dur_idx (dur_index (blk_hash (dk v ! ?E)) ?E v) \<and> ent_verified H (dk v) (blk_hash (dk v ! ?E), ?E))"
    by (rule scan_one[OF v(2) _ _ _ w(1)]) (use up len room mg v(1) in simp_all)
  then have idx: "dur_idx u = dur_idx s \<or>
     (\<exists>h. dur_idx u = dur_idx (dur_index h ?E s) \<and> ent_verified H (dk t) (h, ?E))"
    using v by (auto simp: w(2) dur_index_def)
  have ver: "ent_verified H (dk s) e \<and> snd e + 2 \<le> ?E" if "e \<in> set (dur_idx s)" for e
    using replay_ents[OF H l(2), of e "clr s"] that l(4) by simp
  have "dur_get H h u = dur_get H h s \<and> fst (dur_get H h u) = 0" if h: "h \<in> fst ` set (dur_idx s)" for h
  proof -
    have "dur_get H h u = dur_get H h s"
    proof (rule dur_get_cong[OF h, where E = ?E])
      show "dur_idx u = dur_idx s \<or> (\<exists>e. dur_idx u = dur_idx s @ [e])" using idx by (auto simp: dur_index_def split: if_splits)
    qed (use S v ver l(1) len low in \<open>auto simp: w(2)\<close>)
    moreover obtain b where "dur_get H h s = (0, Some b)" using dur_get_verified[OF H l(1) _ h] ver by auto
    ultimately show ?thesis by simp
  qed
  moreover have "gc_rc u = gc_rc s" using S v(4) by (simp add: w(2))
  ultimately show ?thesis using idx by blast
qed


section \<open>Domain scoping\<close>

text \<open>What a domain can see of the table: its own entries.\<close>

definition dom_view :: "u32 \<Rightarrow> dur \<Rightarrow> bytes \<Rightarrow> (s32 \<times> bool) option" where
  "dom_view dm s h =
     (case gc_rc_find h dm s of None \<Rightarrow> None | Some e \<Rightarrow> Some (rc_count (gc_rc s ! e), rc_tombstoned (gc_rc s ! e)))"

text \<open>The table never holds two entries for one key.\<close>

definition rc_distinct :: "dur \<Rightarrow> bool" where
  "rc_distinct s \<longleftrightarrow> distinct (map (\<lambda>r. (rc_hash r, rc_domain r)) (gc_rc s))"

lemma gc_rc_find_SomeD:
  "gc_rc_find h dm s = Some e \<Longrightarrow> e < length (gc_rc s) \<and> rc_domain (gc_rc s ! e) = dm \<and> rc_hash (gc_rc s ! e) = h"
  by (auto simp: gc_rc_find_def find_Some_iff)

lemma gc_rc_find_iff:
  assumes "rc_distinct s"
  shows "gc_rc_find h dm s = Some e \<longleftrightarrow> e < length (gc_rc s) \<and> rc_domain (gc_rc s ! e) = dm \<and> rc_hash (gc_rc s ! e) = h"
proof
  assume e: "e < length (gc_rc s) \<and> rc_domain (gc_rc s ! e) = dm \<and> rc_hash (gc_rc s ! e) = h"
  obtain e' where e': "gc_rc_find h dm s = Some e'"
    using e by (cases "gc_rc_find h dm s") (auto simp: gc_rc_find_def find_None_iff)
  have "e' = e"
    using gc_rc_find_SomeD[OF e'] e assms nth_eq_iff_index_eq[of "map (\<lambda>r. (rc_hash r, rc_domain r)) (gc_rc s)" e' e]
    by (simp add: rc_distinct_def)
  then show "gc_rc_find h dm s = Some e" using e' by simp
qed (rule gc_rc_find_SomeD)

lemma gc_rc_find_None: "gc_rc_find h dm s = None \<longleftrightarrow> (\<forall>r \<in> set (gc_rc s). \<not> (rc_domain r = dm \<and> rc_hash r = h))"
proof
  assume "gc_rc_find h dm s = None"
  then have "\<forall>i < length (gc_rc s). \<not> (rc_domain (gc_rc s ! i) = dm \<and> rc_hash (gc_rc s ! i) = h)"
    by (auto simp: gc_rc_find_def find_None_iff)
  then show "\<forall>r \<in> set (gc_rc s). \<not> (rc_domain r = dm \<and> rc_hash r = h)" by (metis in_set_conv_nth)
qed (auto simp: gc_rc_find_def find_None_iff)

lemma rc_upd_view:
  assumes "rc_distinct s" and "gc_rc_find h dm s = Some e" and "\<And>r. rc_hash (f r) = rc_hash r" and "\<And>r. rc_domain (f r) = rc_domain r"
  shows "rc_distinct (rc_upd e f s)"
    and "dom_view dm' (rc_upd e f s) h' =
      (if dm' = dm \<and> h' = h then Some (rc_count (f (gc_rc s ! e)), rc_tombstoned (f (gc_rc s ! e))) else dom_view dm' s h')"
proof -
  note E = gc_rc_find_SomeD[OF assms(2)]
  have nth: "gc_rc (rc_upd e f s) ! k = (if k = e then f (gc_rc s ! k) else gc_rc s ! k)" if "k < length (gc_rc s)" for k
    using that by (auto simp: rc_upd_def nth_list_update_in)
  have len: "length (gc_rc (rc_upd e f s)) = length (gc_rc s)" by (simp add: rc_upd_def)
  have key: "rc_hash (gc_rc (rc_upd e f s) ! k) = rc_hash (gc_rc s ! k)" "rc_domain (gc_rc (rc_upd e f s) ! k) = rc_domain (gc_rc s ! k)"
    if "k < length (gc_rc s)" for k
    using nth[OF that] assms(3,4) by simp_all
  have "map (\<lambda>r. (rc_hash r, rc_domain r)) (gc_rc (rc_upd e f s)) = map (\<lambda>r. (rc_hash r, rc_domain r)) (gc_rc s)"
    by (rule nth_equalityI) (simp_all add: len key)
  then show "rc_distinct (rc_upd e f s)" using assms(1) by (simp add: rc_distinct_def)
  have find: "gc_rc_find h' dm' (rc_upd e f s) = gc_rc_find h' dm' s"
    unfolding gc_rc_find_def len by (rule find_cong[OF refl]) (simp add: key)
  show "dom_view dm' (rc_upd e f s) h' =
      (if dm' = dm \<and> h' = h then Some (rc_count (f (gc_rc s ! e)), rc_tombstoned (f (gc_rc s ! e))) else dom_view dm' s h')"
  proof (cases "gc_rc_find h' dm' s")
    case None
    then show ?thesis using assms(2) by (auto simp: dom_view_def find)
  next
    case (Some k)
    have "k = e" if "dm' = dm \<and> h' = h" using Some assms(2) that by simp
    moreover have "dm' = dm \<and> h' = h" if "k = e" using gc_rc_find_SomeD[OF Some] E that by metis
    ultimately have "k = e \<longleftrightarrow> dm' = dm \<and> h' = h" by blast
    moreover have kl: "k < length (gc_rc s)" using gc_rc_find_SomeD[OF Some] by simp
    moreover have "dom_view dm' (rc_upd e f s) h' = Some (rc_count (gc_rc (rc_upd e f s) ! k), rc_tombstoned (gc_rc (rc_upd e f s) ! k))"
      by (simp add: dom_view_def find Some)
    moreover have "dom_view dm' s h' = Some (rc_count (gc_rc s ! k), rc_tombstoned (gc_rc s ! k))" by (simp add: dom_view_def Some)
    ultimately show ?thesis using nth[OF kl] by (cases "k = e") auto
  qed
qed

lemma rc_push_view:
  assumes "rc_distinct s" and "gc_rc_find h dm s = None"
    and t: "gc_rc t = gc_rc s @ [\<lparr>rc_hash = h, rc_domain = dm, rc_count = x, rc_tombstoned = b\<rparr>]"
  shows "rc_distinct t" and "dom_view dm' t h' = (if dm' = dm \<and> h' = h then Some (x, b) else dom_view dm' s h')"
proof -
  show d: "rc_distinct t" using assms by (auto simp: rc_distinct_def gc_rc_find_None)
  let ?n = "length (gc_rc s)"
  show "dom_view dm' t h' = (if dm' = dm \<and> h' = h then Some (x, b) else dom_view dm' s h')"
  proof (cases "dm' = dm \<and> h' = h")
    case True
    then have "gc_rc_find h' dm' t = Some ?n" unfolding gc_rc_find_iff[OF d] by (simp add: t)
    then show ?thesis using True by (simp add: dom_view_def t)
  next
    case False
    have "gc_rc_find h' dm' t = Some k \<longleftrightarrow> gc_rc_find h' dm' s = Some k" for k
      unfolding gc_rc_find_iff[OF d] gc_rc_find_iff[OF assms(1)] using False by (auto simp: t nth_append less_Suc_eq)
    then have f: "gc_rc_find h' dm' t = gc_rc_find h' dm' s" by (metis option.exhaust)
    show ?thesis
    proof (cases "gc_rc_find h' dm' s")
      case (Some k)
      then show ?thesis using False gc_rc_find_SomeD[OF Some] by (auto simp: dom_view_def f t nth_append)
    qed (use False in \<open>auto simp: dom_view_def f\<close>)
  qed
qed

lemma gc_rc_apply_view:
  assumes "rc_distinct s" and "length (gc_rc s) < GC_RC_N"
  shows "rc_distinct (gc_rc_apply h dm x s)"
    and "dom_view dm' (gc_rc_apply h dm x s) h' =
      (if dm' = dm \<and> h' = h
       then Some (case dom_view dm s h of None \<Rightarrow> (x, False) | Some (c, b) \<Rightarrow> (c + x, b)) else dom_view dm' s h')"
proof -
  have "rc_distinct (gc_rc_apply h dm x s) \<and> dom_view dm' (gc_rc_apply h dm x s) h' =
      (if dm' = dm \<and> h' = h
       then Some (case dom_view dm s h of None \<Rightarrow> (x, False) | Some (c, b) \<Rightarrow> (c + x, b)) else dom_view dm' s h')"
  proof (cases "gc_rc_find h dm s")
    case None
    then show ?thesis
      using rc_push_view[OF assms(1) None, of "gc_rc_apply h dm x s" x False] assms(2)
      by (simp add: gc_rc_apply_def dom_view_def[of dm s h])
  next
    case (Some e)
    then show ?thesis
      using rc_upd_view[OF assms(1) Some, of "\<lambda>r. r\<lparr>rc_count := rc_count r + x\<rparr>"]
      by (simp add: gc_rc_apply_def dom_view_def[of dm s h])
  qed
  then show "rc_distinct (gc_rc_apply h dm x s)"
    and "dom_view dm' (gc_rc_apply h dm x s) h' =
      (if dm' = dm \<and> h' = h
       then Some (case dom_view dm s h of None \<Rightarrow> (x, False) | Some (c, b) \<Rightarrow> (c + x, b)) else dom_view dm' s h')"
    by blast+
qed


section \<open>Properties\<close>

definition fresh_disk :: "nat \<Rightarrow> dur" where
  "fresh_disk n =
     \<lparr>dk = replicate n (replicate 4096 0), vio_ready = True, dur_idx = [], dur_log_head = 1, dur_objs_written = 0,
      dur_recover_rejected = 0, gc_rc = [], gc_hwm = 700, gc_free = []\<rparr>"

lemma fresh_log_inv: "log_inv H [] (fresh_disk n)"
  by (simp add: log_inv_def fresh_disk_def blank_from_def)



text \<open> C28: the disk is untrusted.  Whatever bytes the disk holds, recovery indexes only records
  that re-hash to their name, each of which is then served; and whatever happens to the disk
  afterwards, a load under a name only ever returns bytes that hash to it. \<close>
theorem dur_recover_untrusted:
  assumes "hash_fn H" and "vio_ready s" and "dur_recover H s = (n, u)"
  shows "n = length (dur_idx u) \<and> dk u = dk s \<and>
    (\<forall>h \<in> fst ` set (dur_idx u). \<exists>bs. dur_get H h u = (0, Some bs) \<and> H bs = h) \<and>
    (\<forall>d h bs. length h = 32 \<longrightarrow> dur_get H h (u\<lparr>dk := d\<rparr>) = (0, Some bs) \<longrightarrow> H bs = h)"
proof -
  obtain E w where w: "recover_scan H 1 (clr s) = (E, w)" "n = length (dur_idx w)" "u = w\<lparr>dur_log_head := E\<rparr>"
    using assms(3) by (cases "recover_scan H 1 (clr s)") (auto simp: dur_recover_def)
  have ok: "dk w = dk s \<and> vio_ready w = vio_ready s \<and> (\<forall>e \<in> set (dur_idx w). ent_verified H (dk s) e)"
    using recover_scan_ok[OF _ w(1)] by simp
  have "\<exists>bs. dur_get H h u = (0, Some bs) \<and> H bs = h" if "h \<in> fst ` set (dur_idx u)" for h
    by (rule dur_get_verified[OF assms(1)]) (use ok assms(2) that in \<open>simp_all add: w(3)\<close>)
  then show ?thesis using ok w(2,3) dur_get_sound[OF assms(1)] by auto
qed

theorem dur_recover_untrusted_witness:
  "\<exists>n u. dur_recover pad_hash ((fresh_disk 3)\<lparr>dk := [[], hdr_block 1 (pad_hash [7]), [8]]\<rparr>) = (n, u) \<and> n = length (dur_idx u)"
proof -
  let ?s = "(fresh_disk 3)\<lparr>dk := [[], hdr_block 1 (pad_hash [7]), [8]]\<rparr>"
  obtain n u where "dur_recover pad_hash ?s = (n, u)" by fastforce
  with dur_recover_untrusted[OF hash_fn_pad_hash _ this] show ?thesis by (simp add: fresh_disk_def)
qed

lemma gc_obj_put_rc: "gc_obj_put H c s = (b, h, s1) \<Longrightarrow> h = H c \<and> gc_rc s1 = gc_rc s"
  by (auto simp: gc_obj_put_def gc_alloc_def vblk_write_def Let_def split: list.splits if_splits)

lemma ds_store_view:
  assumes "rc_distinct s" and "length (gc_rc s) < GC_RC_N" and "ds_store_scoped H c d s = (r, s')"
  shows "rc_distinct s' \<and>
    ds_hit r = (case dom_view d s (H c) of None \<Rightarrow> False | Some (n, tomb) \<Rightarrow> \<not> tomb) \<and>
    (\<forall>d' h. dom_view d' s' h =
       (if d' = d \<and> h = H c
        then Some (case dom_view d s (H c) of None \<Rightarrow> (1, False) | Some (n, tomb) \<Rightarrow> (n + 1, tomb))
        else dom_view d' s h))"
proof -
  obtain b h s1 where p: "gc_obj_put H c s = (b, h, s1)" by (metis prod_cases3)
  note P = gc_obj_put_rc[OF p]
  have gs: "gc_rc s1 = gc_rc s" using P by simp
  have v: "dom_view d' s1 h' = dom_view d' s h'" "gc_rc_find h' d' s1 = gc_rc_find h' d' s" for d' h'
    by (simp_all only: dom_view_def gc_rc_find_def gs)
  have d1: "rc_distinct s1" "length (gc_rc s1) < GC_RC_N" using P assms by (simp_all add: rc_distinct_def)
  note A = gc_rc_apply_view[OF d1, where h = "H c" and dm = d and x = 1, unfolded v]
  show ?thesis
  proof (cases "\<exists>e. gc_rc_find (H c) d s = Some e \<and> \<not> rc_tombstoned (gc_rc s ! e)")
    case True
    then obtain e where e: "gc_rc_find (H c) d s = Some e" "\<not> rc_tombstoned (gc_rc s ! e)" by blast
    then have "r = \<lparr>ds_hit = True, ds_block = 0\<rparr>" "s' = rc_upd e (\<lambda>r. r\<lparr>rc_count := rc_count r + 1\<rparr>) s"
      using assms(3) by (auto simp: ds_store_scoped_def Let_def)
    then show ?thesis
      using rc_upd_view[OF assms(1) e(1), of "\<lambda>r. r\<lparr>rc_count := rc_count r + 1\<rparr>"] e
      by (simp add: dom_view_def[of d s "H c"])
  next
    case False
    then have m: "r = \<lparr>ds_hit = False, ds_block = b\<rparr>" "s' = gc_rc_apply (H c) d 1 s1"
      using assms(3) p by (auto simp: ds_store_scoped_def Let_def split: option.splits if_splits)
    have "case dom_view d s (H c) of None \<Rightarrow> True | Some (n, tomb) \<Rightarrow> tomb"
      using False by (auto simp: dom_view_def split: option.splits)
    then show ?thesis using A m by (auto split: option.splits)
  qed
qed



section \<open>Where the log and the table fall short\<close>

text \<open>
  Reference-count records carry no digest.  A record torn after its eighth byte is replayed as
  a delta for the all-zero hash.
\<close>

lemma torn_rc_record_replayed:
  "gc_rc_get (replicate 32 0) 0
     (snd (dur_recover pad_hash ((fresh_disk 3)\<lparr>dk := [[], torn 8 (rc_block (replicate 32 7) 0 5) (replicate 4096 0)]\<rparr>))) = 5"
proof -
  let ?blk = "torn 8 (rc_block (replicate 32 7) 0 5) (replicate 4096 0)"
  let ?s = "(fresh_disk 3)\<lparr>dk := [[], ?blk]\<rparr>"
  have blk: "?blk = le_bytes 4 RC_MAGIC @ le_bytes 4 (5 :: s32) @ replicate 4088 0"
    by (simp add: torn_def rc_block_def pad_block_def)
  have f: "blk_u32 0 ?blk = RC_MAGIC" "blk_u32 4 ?blk = 5" "blk_u32 8 ?blk = 0" "blk_hash ?blk = replicate 32 0"
    unfolding blk by (simp_all add: blk_u32_def blk_hash_def le_word_le_bytes numeral_eq_Suc)
  let ?t = "gc_rc_apply (replicate 32 0) 0 5 (clr ?s)"
  have "recover_scan pad_hash 1 (clr ?s) = recover_scan pad_hash 2 ?t"
  proof -
    have rd: "vblk_read 1 (clr ?s) = Some ?blk" by (simp add: vblk_read_def fresh_disk_def)
    show ?thesis using magics by (subst recover_scan.simps) (simp only: rd option.case f if_False if_True refl one_add_one not_sym[OF magics(1)])
  qed
  also have "\<dots> = (2, ?t)" using recover_scan.simps[of pad_hash 2 ?t] by (simp add: vblk_read_def)
  finally show ?thesis by (simp add: dur_recover_def gc_rc_get_def gc_rc_find_def gc_rc_apply_def GC_RC_N_def)
qed

text \<open>A block that was tombstoned stays tombstoned when its content is stored again: no later store is a hit.\<close>

lemma tombstoned_never_hit:
  assumes "rc_distinct s" and "length (gc_rc s) < GC_RC_N" and "dom_view d s (H c) = Some (n, True)"
    and "ds_store_scoped H c d s = (r, s')"
  shows "\<not> ds_hit r \<and> dom_view d s' (H c) = Some (n + 1, True)"
  using ds_store_view[OF assms(1,2,4)] assms(3) by simp

end
