(* ===== verification/PageFault.thy ===== *)
theory PageFault
  imports Residency SwCap
begin

text \<open>
  The rematerialising page-fault handler of \<^verbatim>\<open>kernel/kernel.c\<close> (F0 to F5) and the heap facility
  that feeds it (PM).  The handler composes the page tables of \<^theory_text>\<open>PhysMem\<close> with the residency
  manager of \<^theory_text>\<open>Residency\<close>: a miss is resolved to a content hash through a descriptor in the
  page-table entry or through a table of address ranges, or is a demand-zero page of a granted heap
  range.  The frames of the residency pool are disjoint from the frames of the page tables, because
  the pool is carved from the boot allocator and never given back to it, so the two memories
  are separate components of the state.  Messages and cycle counters are not modelled.
\<close>

section \<open>State\<close>

record pf_bindA_t =
  ba_lo :: u64
  ba_hi :: u64
  ba_hash :: bytes
  ba_live :: bool

record pf_bindB_t =
  bb_hash :: bytes
  bb_live :: bool

record pf_anon_t =
  an_cr3 :: u64
  an_lo :: u64
  an_hi :: u64
  an_live :: bool

record pfs =
  pf_rm :: rmgr
  pf_pm :: pmem
  pf_bindA :: "pf_bindA_t list"
  pf_bindB :: "pf_bindB_t list"
  pf_anon :: "pf_anon_t list"
  pf_space :: u64
  pf_in_handler :: bool
  pf_nested_seen :: u64
  pf_anon_zeroed :: u64
  pf_svc_n_A :: u32
  pf_svc_n_B :: u32
  pf_last_serviced :: bool
  pf_last_frame :: u64

definition PF_BIND_A_MAX :: nat where "PF_BIND_A_MAX = 16"
definition PF_BIND_B_MAX :: nat where "PF_BIND_B_MAX = 16"
definition PF_ANON_MAX :: nat where "PF_ANON_MAX = 8"
definition PF_B_TAG :: u64 where "PF_B_TAG = 0x800"

section \<open>Bindings\<close>

definition pf_bindA_add :: "u64 \<Rightarrow> u64 \<Rightarrow> bytes \<Rightarrow> pfs \<Rightarrow> pfs" where
  "pf_bindA_add lo hi h s =
     (if length (pf_bindA s) < PF_BIND_A_MAX
      then s\<lparr>pf_bindA := pf_bindA s @ [\<lparr>ba_lo = lo, ba_hi = hi, ba_hash = h, ba_live = True\<rparr>]\<rparr> else s)"

definition pf_bindA_lookup :: "u64 \<Rightarrow> pfs \<Rightarrow> bytes option" where
  "pf_bindA_lookup va s = map_option ba_hash (List.find (\<lambda>b. ba_live b \<and> va \<ge> ba_lo b \<and> va < ba_hi b) (pf_bindA s))"

definition pf_bindB_pte :: "u32 \<Rightarrow> u64" where "pf_bindB_pte idx = push_bit 12 (ucast idx) OR PF_B_TAG"
definition pf_bindB_is :: "u64 \<Rightarrow> bool" where "pf_bindB_is pte \<longleftrightarrow> pte AND 1 = 0 \<and> pte AND PF_B_TAG \<noteq> 0"
definition pf_bindB_idx :: "u64 \<Rightarrow> u32" where "pf_bindB_idx pte = ucast (drop_bit 12 pte)"

definition pf_bindB_add :: "bytes \<Rightarrow> pfs \<Rightarrow> u32 \<times> pfs" where
  "pf_bindB_add h s =
     (if length (pf_bindB s) \<ge> PF_BIND_B_MAX then (0xffffffff, s)
      else (word_of_nat (length (pf_bindB s)), s\<lparr>pf_bindB := pf_bindB s @ [\<lparr>bb_hash = h, bb_live = True\<rparr>]\<rparr>))"

definition pf_anon_add :: "u64 \<Rightarrow> u64 \<Rightarrow> u64 \<Rightarrow> pfs \<Rightarrow> bool \<times> pfs" where
  "pf_anon_add cr3 lo hi s =
     (let e = \<lparr>an_cr3 = cr3, an_lo = lo, an_hi = hi, an_live = True\<rparr>
      in case List.find (\<lambda>i. \<not> an_live (pf_anon s ! i)) [0..<length (pf_anon s)] of
           Some i \<Rightarrow> (True, s\<lparr>pf_anon := (pf_anon s)[i := e]\<rparr>)
         | None \<Rightarrow> (if length (pf_anon s) < PF_ANON_MAX then (True, s\<lparr>pf_anon := pf_anon s @ [e]\<rparr>) else (False, s)))"

definition pf_anon_in :: "u64 \<Rightarrow> u64 \<Rightarrow> pfs \<Rightarrow> bool" where
  "pf_anon_in cr3 va s \<longleftrightarrow>
     List.find (\<lambda>a. an_live a \<and> an_cr3 a = cr3 \<and> va \<ge> an_lo a \<and> va < an_hi a) (pf_anon s) \<noteq> None"

section \<open>The handler\<close>

abbreviation page_of :: "u64 \<Rightarrow> u64" where "page_of va \<equiv> va AND NOT 0xfff"

text \<open>Leaving the handler with the outcome recorded.\<close>

definition pf_leave :: "bool \<Rightarrow> pfs \<Rightarrow> bool \<times> pfs" where
  "pf_leave ok s = (ok, s\<lparr>pf_in_handler := False, pf_last_serviced := ok\<rparr>)"

definition pf_demand_zero :: "u64 \<Rightarrow> pfs \<Rightarrow> bool \<times> pfs" where
  "pf_demand_zero va_pg s =
     (case frame_reserve (pf_rm s) of (frame, rm1) \<Rightarrow>
        (if frame = 0 then pf_leave False (s\<lparr>pf_rm := rm1\<rparr>)
         else
           (let rm2 = rm1\<lparr>fdata := (fdata rm1)(frame := replicate 4096 0)\<rparr> in
            case mm_map (pf_space s) va_pg frame (MM_USER OR MM_WRITE) (pf_pm s) of (ok, pm1) \<Rightarrow>
              (if \<not> ok then pf_leave False (s\<lparr>pf_rm := frame_release_physical frame rm2, pf_pm := pm1\<rparr>)
               else pf_leave True (s\<lparr>pf_rm := rm2, pf_pm := pm1, pf_anon_zeroed := pf_anon_zeroed s + 1,
                                     pf_last_frame := frame\<rparr>)))))"

text \<open>The hash a miss is bound to, and whether it came from the page-table entry.\<close>

definition pf_lookup :: "u64 \<Rightarrow> u64 \<Rightarrow> pfs \<Rightarrow> (bytes \<times> bool) option" where
  "pf_lookup cr2 va_pg s =
     (let viaB =
        (case fst (mm_walk (pf_space s) va_pg False (pf_pm s)) of
           None \<Rightarrow> None
         | Some (t, i) \<Rightarrow>
             (let pte = pm_mem (pf_pm s) t i in
              if pf_bindB_is pte
              then (let idx = unat (pf_bindB_idx pte) in
                    if idx < length (pf_bindB s) \<and> bb_live (pf_bindB s ! idx) then Some (bb_hash (pf_bindB s ! idx)) else None)
              else None))
      in case viaB of
           Some h \<Rightarrow> Some (h, True)
         | None \<Rightarrow> (case pf_bindA_lookup cr2 s of Some h \<Rightarrow> Some (h, False) | None \<Rightarrow> None))"

definition pf_rematerialize :: "(bytes \<Rightarrow> bytes) \<Rightarrow> bytes \<Rightarrow> bool \<Rightarrow> bool \<Rightarrow> u64 \<Rightarrow> pfs \<Rightarrow> bool \<times> pfs" where
  "pf_rematerialize H h viaB user va_pg s =
     (case rm_materialize H h (pf_rm s) of (frame, rm1) \<Rightarrow>
        (if frame = 0 then pf_leave False (s\<lparr>pf_rm := rm1\<rparr>)
         else
           (case mm_map (pf_space s) va_pg frame (if user then MM_USER else 0) (pf_pm s) of (ok, pm1) \<Rightarrow>
              (let s1 = s\<lparr>pf_rm := rm1, pf_pm := pm1\<rparr> in
               if \<not> ok then pf_leave False s1
               else pf_leave True
                 (if viaB then s1\<lparr>pf_svc_n_B := pf_svc_n_B s1 + 1, pf_last_frame := frame\<rparr>
                  else s1\<lparr>pf_svc_n_A := pf_svc_n_A s1 + 1, pf_last_frame := frame\<rparr>)))))"

definition pf_service :: "(bytes \<Rightarrow> bytes) \<Rightarrow> u64 \<Rightarrow> u64 \<Rightarrow> pfs \<Rightarrow> bool \<times> pfs" where
  "pf_service H cr2 err s =
     (if pf_in_handler s then (False, s\<lparr>pf_nested_seen := pf_nested_seen s + 1\<rparr>)
      else
        (let s1 = s\<lparr>pf_in_handler := True\<rparr>;
             present = (err AND 1 \<noteq> 0); user = (drop_bit 2 err AND 1 \<noteq> 0);
             va_pg = page_of cr2
         in if present then pf_leave False s1
            else if pf_anon_in (pf_space s1) cr2 s1 then pf_demand_zero va_pg s1
            else
              (case pf_lookup cr2 va_pg s1 of
                 None \<Rightarrow> pf_leave False s1
               | Some (h, viaB) \<Rightarrow> pf_rematerialize H h viaB user va_pg s1)))"

definition pf_arm_notpresent :: "u64 \<Rightarrow> u64 \<Rightarrow> pfs \<Rightarrow> pfs" where
  "pf_arm_notpresent va pte_val s =
     (case mm_walk (pf_space s) (page_of va) True (pf_pm s) of
        (None, pm1) \<Rightarrow> s\<lparr>pf_pm := pm1\<rparr>
      | (Some (t, i), pm1) \<Rightarrow> s\<lparr>pf_pm := slot_set t i pte_val pm1\<rparr>)"

definition pf_publish :: "(bytes \<Rightarrow> bytes) \<Rightarrow> bytes \<Rightarrow> bytes \<Rightarrow> pfs \<Rightarrow> bytes \<times> pfs" where
  "pf_publish H junk buf s =
     (case store_put H (rm_store (pf_rm s)) buf of
        (r, st, oh) \<Rightarrow> ((case oh of None \<Rightarrow> junk | Some h \<Rightarrow> h), s\<lparr>pf_rm := (pf_rm s)\<lparr>rm_store := st\<rparr>\<rparr>))"

section \<open>Heap grants\<close>

record pmproc =
  pm_space :: u64
  pm_heap_granted :: u64
  pm_cust :: cvsasx_sw_custodian
  pm_region :: cvsasx_sw_region
  pm_heapH :: bytes
  pm_last_refuse_status :: cvsasx_status

definition PM_HEAP_VA :: u64 where "PM_HEAP_VA = 0x70000000"
definition PM_CEILING :: u64 where "PM_CEILING = 16 * 4096"

definition pm_pir :: "u64 \<Rightarrow> pmproc \<Rightarrow> cvsasx_pir" where
  "pm_pir len p =
     cvsasx_pir_zero\<lparr>referent_hash := pm_heapH p, pir_offset := pm_heap_granted p, pir_length := len,
       struct_version := CVSASX_PIR_VERSION,
       pir_perms := CVSASX_PERM_LOAD OR CVSASX_PERM_STORE OR CVSASX_PERM_GLOBAL,
       pir_flags := CVSASX_PIR_FLAG_REFERENT_VALID\<rparr>"

definition arm_range :: "u64 \<Rightarrow> nat \<Rightarrow> pfs \<Rightarrow> pfs" where
  "arm_range base pages s = foldl (\<lambda>s k. pf_arm_notpresent (base + word_of_nat (k * 4096)) 0 s) s [0..<pages]"

definition pm_heap_extend :: "u64 \<Rightarrow> pmproc \<Rightarrow> pfs \<Rightarrow> u64 \<times> pmproc \<times> pfs" where
  "pm_heap_extend bytes p s =
     (if bytes = 0 then (0, p, s)
      else
        (let pages = (bytes + 4095) div 4096; len = pages * 4096 in
         case cvsasx_sw_cap_remint (Some (pm_cust p)) (Some (pm_pir len p)) (Some (pm_region p)) (Some null_swcap) of
           (st, cap) \<Rightarrow>
             (if st \<noteq> CVSASX_OK \<or> (case cap of None \<Rightarrow> True | Some c \<Rightarrow> sc_valid c = 0)
              then (0, p\<lparr>pm_last_refuse_status := st\<rparr>, s)
              else
                (let base = PM_HEAP_VA + pm_heap_granted p
                 in (base, p\<lparr>pm_heap_granted := pm_heap_granted p + len\<rparr>,
                     snd (pf_anon_add (pm_space p) base (base + len) (arm_range base (unat pages) s)))))))"

section \<open>Servicing a fault\<close>

definition same_space :: "nat set \<Rightarrow> u64 \<Rightarrow> pmem \<Rightarrow> pmem \<Rightarrow> bool" where
  "same_space R sp pm pm' \<longleftrightarrow> (\<forall>va. va_idx va 39 \<in> R \<longrightarrow> mm_resolve sp va pm' = mm_resolve sp va pm)"

definition only_page :: "nat set \<Rightarrow> u64 \<Rightarrow> u64 \<Rightarrow> pmem \<Rightarrow> pmem \<Rightarrow> bool" where
  "only_page R sp va pm pm' \<longleftrightarrow>
     (\<forall>va'. va_idx va' 39 \<in> R \<longrightarrow> \<not> same_page va va' \<longrightarrow> mm_resolve sp va' pm' = mm_resolve sp va' pm)"

definition pf_inv :: "(bytes \<Rightarrow> bytes) \<Rightarrow> u64 set \<Rightarrow> nat set \<Rightarrow> pfs \<Rightarrow> bool" where
  "pf_inv H U R s \<longleftrightarrow>
     res_inv H (pf_rm s) \<and>
     (\<exists>F. boot_pool U F (pf_pm s) \<and> pt_wf R (pf_space s) F (pf_pm s)) \<and>
     (\<forall>b \<in> set (pf_bindA s). length (ba_hash b) = 32) \<and> (\<forall>b \<in> set (pf_bindB s). length (bb_hash b) = 32)"

lemma va_idx_page: "12 \<le> l \<Longrightarrow> va_idx (page_of va) l = va_idx va l"
proof -
  assume l: "12 \<le> l"
  have m: "(0xfff :: u64) = mask 12" by (simp add: mask_eq_exp_minus_1)
  have "drop_bit l (page_of va) = drop_bit l va"
    unfolding m using l by (intro bit_word_eqI) (auto simp: bit_simps dest: bit_imp_le_length)
  then show ?thesis by (simp only: va_idx_def)
qed

lemma walk_levels_va:
  "(\<And>l. l \<in> set ls \<Longrightarrow> va_idx v l = va_idx va l) \<Longrightarrow> walk_levels True v ls t s = walk_levels True va ls t s"
  by (induction ls arbitrary: t s) (simp_all add: Let_def split: prod.split)

lemma mm_map_page: "mm_map sp (page_of va) = mm_map sp va"
proof -
  have "walk_levels True (page_of va) [39, 30, 21] sp s = walk_levels True va [39, 30, 21] sp s" for s
    by (rule walk_levels_va, rule va_idx_page) auto
  moreover have "va_idx (page_of va) 12 = va_idx va 12" by (rule va_idx_page) simp
  ultimately show ?thesis by (simp only: fun_eq_iff mm_map_def mm_walk_def simp_thms)
qed

lemma pf_leave_simps [simp]:
  "fst (pf_leave ok s) = ok" "pf_rm (snd (pf_leave ok s)) = pf_rm s" "pf_pm (snd (pf_leave ok s)) = pf_pm s"
  "pf_space (snd (pf_leave ok s)) = pf_space s" "pf_bindA (snd (pf_leave ok s)) = pf_bindA s"
  "pf_bindB (snd (pf_leave ok s)) = pf_bindB s" "pf_last_frame (snd (pf_leave ok s)) = pf_last_frame s"
  "pf_in_handler (snd (pf_leave ok s)) = False" "pf_anon (snd (pf_leave ok s)) = pf_anon s"
  by (simp_all add: pf_leave_def)

text \<open>Mapping a frame of the pool at the faulting page.\<close>

lemma map_frame:
  assumes pt: "boot_pool U F pm" "pt_wf R sp F pm" and va: "va_idx cr2 39 \<in> R" and fl: "flags AND NOT 0xfff = 0"
    and fr: "frame AND NOT 0xfff = frame" and m: "mm_map sp (page_of cr2) frame flags pm = (ok, pm')"
  shows "\<exists>F'. boot_pool U F' pm' \<and> pt_wf R sp F' pm'"
    and "\<not> ok \<Longrightarrow> same_space R sp pm pm'"
    and "ok \<Longrightarrow> mm_resolve sp cr2 pm' = frame OR (cr2 AND 0xfff) \<and> only_page R sp cr2 pm pm'"
  using mm_map_effect[OF pt va fl m[unfolded mm_map_page]] fr by (auto simp: same_space_def only_page_def)

text \<open>What the service of a miss has to establish, for a predicate on the frame it installs.\<close>

definition serviced :: "(bytes \<Rightarrow> bytes) \<Rightarrow> u64 set \<Rightarrow> nat set \<Rightarrow> u64 \<Rightarrow> (u64 \<Rightarrow> rmgr \<Rightarrow> bool) \<Rightarrow> pfs \<Rightarrow> bool \<times> pfs \<Rightarrow> bool" where
  "serviced H U R cr2 good s r \<longleftrightarrow>
     pf_inv H U R (snd r) \<and> \<not> pf_in_handler (snd r) \<and> pf_space (snd r) = pf_space s \<and>
     (if fst r
      then pf_last_frame (snd r) \<noteq> 0 \<and> good (pf_last_frame (snd r)) (pf_rm (snd r)) \<and>
           mm_resolve (pf_space s) cr2 (pf_pm (snd r)) = pf_last_frame (snd r) OR (cr2 AND 0xfff) \<and>
           only_page R (pf_space s) cr2 (pf_pm s) (pf_pm (snd r))
      else same_space R (pf_space s) (pf_pm s) (pf_pm (snd r)))"

lemma same_space_refl [simp]: "same_space R sp pm pm"
  by (simp add: same_space_def)

lemma pf_invE:
  assumes "pf_inv H U R s"
  obtains F where "res_inv H (pf_rm s)" "boot_pool U F (pf_pm s)" "pt_wf R (pf_space s) F (pf_pm s)"
  using assms by (auto simp: pf_inv_def)

lemma pf_inv_with:
  assumes "pf_inv H U R s" and "res_inv H rm" and "\<exists>F. boot_pool U F pm \<and> pt_wf R (pf_space s) F pm"
    and "pf_rm s' = rm" "pf_pm s' = pm" "pf_space s' = pf_space s" "pf_bindA s' = pf_bindA s" "pf_bindB s' = pf_bindB s"
  shows "pf_inv H U R s'"
  using assms by (simp add: pf_inv_def)

definition fresh_zero :: "u64 \<Rightarrow> rmgr \<Rightarrow> bool" where
  "fresh_zero frame rm \<longleftrightarrow> fdata rm frame = replicate 4096 0 \<and> frame \<notin> ent_frame rm ` live_ents rm \<and>
     fr_state (frame_of rm frame) = FR_RESIDENT \<and> fr_refcount (frame_of rm frame) = 1"

lemma demand_zero_serviced:
  assumes inv: "pf_inv H U R s" and va: "va_idx cr2 39 \<in> R"
  shows "serviced H U R cr2 fresh_zero s (pf_demand_zero (page_of cr2) s)"
proof -
  obtain F where I: "res_inv H (pf_rm s)" and pt: "boot_pool U F (pf_pm s)" "pt_wf R (pf_space s) F (pf_pm s)"
    using inv by (rule pf_invE)
  have old: "\<exists>F. boot_pool U F (pf_pm s) \<and> pt_wf R (pf_space s) F (pf_pm s)" using pt by blast
  obtain frame rm1 where r: "frame_reserve (pf_rm s) = (frame, rm1)" by fastforce
  show ?thesis
  proof (cases "frame = 0")
    case True
    have "fdb_wf (pf_rm s)" using I by (simp add: res_inv_def)
    then have "rm1 = (pf_rm s)\<lparr>fdb_reserve_fail := fdb_reserve_fail (pf_rm s) + 1\<rparr>"
      using r True by (cases rule: frame_reserve_cases) simp_all
    then have "res_inv H rm1"
      using I by (simp add: res_inv_def fdb_wf_def live_ents_def ent_ok_def frame_holds_def fr_phys_def fr_idx_def)
    then show ?thesis
      using r True pf_inv_with[OF inv _ old, of rm1] by (simp add: serviced_def pf_demand_zero_def)
  next
    case False
    obtain i where i: "res_inv H rm1" "i < fdb_n rm1" "frame = fr_phys rm1 i" "fr_idx rm1 frame = i"
      "fr_state (framedb rm1 ! i) = FR_RESIDENT" "fr_refcount (framedb rm1 ! i) = 1"
      "frame \<notin> ent_frame rm1 ` live_ents rm1"
      using reserve_inv[OF I r False] by metis
    let ?rm = "rm1\<lparr>fdata := (fdata rm1)(frame := replicate 4096 0)\<rparr>"
    have I2: "res_inv H ?rm" using i(1,7) by (rule res_inv_fdata)
    have same: "live_ents ?rm = live_ents rm1" "fr_phys ?rm = fr_phys rm1" "fr_idx ?rm = fr_idx rm1"
      by (simp_all add: live_ents_def fr_phys_def fr_idx_def fun_eq_iff)
    have al: "frame AND NOT 0xfff = frame" using fr_phys_aligned[of rm1 i] i(1,2,3) by (simp add: res_inv_def)
    obtain ok pm1 where m: "mm_map (pf_space s) (page_of cr2) frame (MM_USER OR MM_WRITE) (pf_pm s) = (ok, pm1)" by fastforce
    have fl: "(MM_USER OR MM_WRITE) AND NOT 0xfff = 0" by (simp add: MM_USER_def MM_WRITE_def)
    note M = map_frame[OF pt va fl al m]
    show ?thesis
    proof (cases ok)
      case True
      have "fresh_zero frame ?rm" using i same by (simp add: fresh_zero_def)
      then show ?thesis
        using True r False m M(3) pf_inv_with[OF inv I2 M(1)] by (simp add: serviced_def pf_demand_zero_def Let_def)
    next
      case no: False
      have "res_inv H (frame_release_physical (fr_phys ?rm i) ?rm)"
        by (rule res_inv_release[OF I2]) (use i same in simp_all)
      then have I3: "res_inv H (frame_release_physical frame ?rm)" using i(3) same by simp
      show ?thesis
        using no r False m M(2) pf_inv_with[OF inv I3 M(1)] by (simp add: serviced_def pf_demand_zero_def Let_def)
    qed
  qed
qed

text \<open>A frame that serves a hash is the frame found under it and holds the object, unless written since.\<close>

definition serves :: "bytes \<Rightarrow> u64 \<Rightarrow> rmgr \<Rightarrow> bool" where
  "serves h frame rm \<longleftrightarrow> (\<exists>e. rset_find h rm = Some e \<and> ent_frame rm e = frame) \<and>
     (fr_dirty (frame_of rm frame) \<or> frame_holds rm frame h)"

lemma materialize_serves:
  assumes H: "hash_fn H" and inv: "res_inv H s" and h: "length h = 32" and room: "rset_room s"
    and m: "rm_materialize H h s = (fp, s')"
  shows "res_inv H s'" and "fp \<noteq> 0 \<Longrightarrow> serves h fp s' \<and> fp AND NOT 0xfff = fp"
proof -
  have A: "res_inv H s' \<and> (fp \<noteq> 0 \<longrightarrow> serves h fp s')"
  proof (cases "rset_find h s")
    case None
    then show ?thesis using materialize_miss[OF H inv h None room m] by (auto simp: serves_def split: if_splits)
  next
    case (Some e)
    note M = materialize_hit[OF inv h Some m]
    have "ent_ok s e" "ent_hash s e = h" using rset_find_cases(1)[OF inv h, of e] Some inv by (auto simp: res_inv_def)
    then show ?thesis using M by (auto simp: serves_def ent_ok_def)
  qed
  show I: "res_inv H s'" using A by blast
  assume fp: "fp \<noteq> 0"
  then obtain e where e: "rset_find h s' = Some e" "ent_frame s' e = fp" using A by (auto simp: serves_def)
  have "e \<in> live_ents s'" using rset_find_cases(1)[OF I h] e(1) by blast
  then obtain i where "i < fdb_n s'" "ent_frame s' e = fr_phys s' i" using ent_frameE[OF I] by metis
  then have "fp AND NOT 0xfff = fp" using e(2) fr_phys_aligned[of s' i] I by (simp add: res_inv_def)
  then show "serves h fp s' \<and> fp AND NOT 0xfff = fp" using A fp by blast
qed

lemma rematerialize_serviced:
  assumes H: "hash_fn H" and inv: "pf_inv H U R s" and va: "va_idx cr2 39 \<in> R" and h: "length h = 32"
    and room: "rset_room (pf_rm s)"
  shows "serviced H U R cr2 (serves h) s (pf_rematerialize H h viaB user (page_of cr2) s)"
proof -
  obtain F where I: "res_inv H (pf_rm s)" and pt: "boot_pool U F (pf_pm s)" "pt_wf R (pf_space s) F (pf_pm s)"
    using inv by (rule pf_invE)
  have old: "\<exists>F. boot_pool U F (pf_pm s) \<and> pt_wf R (pf_space s) F (pf_pm s)" using pt by blast
  obtain frame rm1 where r: "rm_materialize H h (pf_rm s) = (frame, rm1)" by fastforce
  note S = materialize_serves[OF H I h room r]
  show ?thesis
  proof (cases "frame = 0")
    case True
    then show ?thesis
      using r pf_inv_with[OF inv S(1) old] by (simp add: serviced_def pf_rematerialize_def)
  next
    case False
    let ?fl = "if user then MM_USER else 0"
    obtain ok pm1 where m: "mm_map (pf_space s) (page_of cr2) frame ?fl (pf_pm s) = (ok, pm1)" by fastforce
    have fl: "?fl AND NOT 0xfff = 0" by (simp add: MM_USER_def)
    note S2 = S(2)[OF False]
    note M = map_frame[OF pt va fl conjunct2[OF S2] m]
    show ?thesis
      using False r m M(2,3) conjunct1[OF S2] pf_inv_with[OF inv S(1) M(1)]
      by (cases ok) (simp_all add: serviced_def pf_rematerialize_def Let_def)
  qed
qed

lemma pf_lookup_len:
  assumes "pf_inv H U R s" and "pf_lookup cr2 va s = Some (h, viaB)"
  shows "length h = 32"
  using assms
  by (auto simp: pf_inv_def pf_lookup_def pf_bindA_lookup_def Let_def find_Some_iff split: option.splits prod.splits if_splits)


section \<open>Allocators that only grow\<close>

text \<open>A sequence of requests to an allocator whose answer zero is a refusal, with the base of each answer.\<close>

primrec grant_run :: "(u64 \<Rightarrow> 's \<Rightarrow> u64 \<times> 's) \<Rightarrow> u64 list \<Rightarrow> 's \<Rightarrow> (u64 \<times> u64) list \<times> 's" where
  "grant_run grant [] s = ([], s)"
| "grant_run grant (n # ns) s =
     (case grant n s of (base, s1) \<Rightarrow> (case grant_run grant ns s1 of (tr, s2) \<Rightarrow> ((n, base) # tr, s2)))"

locale bump_pool =
  fixes grant :: "u64 \<Rightarrow> 's \<Rightarrow> u64 \<times> 's"
    and top :: "'s \<Rightarrow> nat"
    and limit :: nat
    and ok :: "'s \<Rightarrow> bool"
  assumes grant_ok: "ok s \<Longrightarrow> grant n s = (base, s') \<Longrightarrow> ok s'"
    and grant_top: "ok s \<Longrightarrow> grant n s = (base, s') \<Longrightarrow> top s \<le> top s'"
    and grant_base: "ok s \<Longrightarrow> grant n s = (base, s') \<Longrightarrow> base \<noteq> 0 \<Longrightarrow> unat base = top s \<and> unat base + unat n \<le> top s'"
    and ok_limit: "ok s \<Longrightarrow> top s \<le> limit"
begin

text \<open>Whatever is asked, the top stays below the limit and granted ranges lie in between, in order.\<close>

lemma run_bounds:
  assumes "ok s" and "grant_run grant ns s = (tr, s')"
  shows "ok s' \<and> top s \<le> top s' \<and> top s' \<le> limit \<and>
    (\<forall>(n, base) \<in> set tr. base \<noteq> 0 \<longrightarrow> top s \<le> unat base \<and> unat base + unat n \<le> top s') \<and>
    sorted_wrt (\<lambda>(n, a) (m, b). a \<noteq> 0 \<longrightarrow> b \<noteq> 0 \<longrightarrow> unat a + unat n \<le> unat b) tr"
  using assms
proof (induction ns arbitrary: s tr)
  case Nil
  then show ?case by (auto simp: ok_limit)
next
  case (Cons n ns)
  obtain base s1 where g: "grant n s = (base, s1)" by fastforce
  obtain tr1 where r: "grant_run grant ns s1 = (tr1, s')" "tr = (n, base) # tr1"
    using Cons.prems(2) g by (auto split: prod.splits)
  note S = grant_top[OF Cons.prems(1) g] grant_base[OF Cons.prems(1) g]
  note I = Cons.IH[OF grant_ok[OF Cons.prems(1) g] r(1)]
  show ?case using I S r(2) by (fastforce split: prod.splits)
qed

end

section \<open>Growing the heap\<close>

lemma page_round_up:
  fixes n :: u64
  assumes "n \<noteq> 0" and "(n + 4095) div 4096 * 4096 \<noteq> 0"
  shows "unat n \<le> unat ((n + 4095) div 4096 * 4096)" and "unat ((n + 4095) div 4096 * 4096) < unat n + 4096"
    and "4096 dvd unat ((n + 4095) div 4096 * 4096)"
proof -
  have u: "unat ((n + 4095) div 4096 * 4096) = (unat (n + 4095) div 4096) * 4096"
  proof -
    have "unat (n + 4095) div 4096 * 4096 \<le> unat (n + 4095)" by simp
    also have "\<dots> < 2 ^ 64" using unat_lt2p[of "n + 4095"] by simp
    finally show ?thesis by (simp add: unat_word_ariths unat_div)
  qed
  show "4096 dvd unat ((n + 4095) div 4096 * 4096)" by (simp add: u)
  have nz: "unat (n + 4095) div 4096 \<noteq> 0"
    using assms(2) u by (metis mult_zero_left unat_0 unsigned_word_eqI)
  have w: "unat (n + 4095) = (unat n + 4095) mod 2 ^ 64" by (simp add: unat_word_ariths)
  have lt: "unat n < 2 ^ 64" using unat_lt2p[of n] by simp
  have "unat n + 4095 < 2 ^ 64"
  proof (rule ccontr)
    assume ge: "\<not> unat n + 4095 < 2 ^ 64"
    then have "(unat n + 4095) mod 2 ^ 64 = unat n + 4095 - 2 ^ 64"
      using lt by (simp add: le_mod_geq)
    then have "unat (n + 4095) < 4096" using w lt by simp
    then show False using nz by simp
  qed
  then have v: "unat (n + 4095) = unat n + 4095" using w by simp
  have "x \<le> (x + 4095) div 4096 * 4096" "(x + 4095) div 4096 * 4096 < x + 4096" for x :: nat
    using div_mult_mod_eq[of "x + 4095" 4096] mod_less_divisor[of 4096 "x + 4095"] by linarith+
  then show "unat n \<le> unat ((n + 4095) div 4096 * 4096)" "unat ((n + 4095) div 4096 * 4096) < unat n + 4096"
    unfolding u v by blast+
qed

lemma pm_gate:
  "cvsasx_sw_cap_remint (Some (pm_cust p)) (Some (pm_pir len p)) (Some (pm_region p)) (Some null_swcap) = (CVSASX_OK, cap) \<Longrightarrow>
   len \<noteq> 0 \<and> unat (pm_heap_granted p) + unat len \<le> unat (object_length (pm_region p))"
  by (auto simp: remint_some_eq map_prod_def sw_remint_body_ok_iff pm_pir_def split: prod.splits)

lemma pm_heap_extend_cases:
  assumes "pm_heap_extend bytes p s = (base, p', s')"
  obtains (refused) "base = 0" "pm_heap_granted p' = pm_heap_granted p" "s' = s"
  | (granted) len where "base = PM_HEAP_VA + pm_heap_granted p" "len = (bytes + 4095) div 4096 * 4096"
      "bytes \<noteq> 0" "len \<noteq> 0" "unat (pm_heap_granted p) + unat len \<le> unat (object_length (pm_region p))"
      "p' = p\<lparr>pm_heap_granted := pm_heap_granted p + len\<rparr>"
      "s' = snd (pf_anon_add (pm_space p) base (base + len) (arm_range base (unat ((bytes + 4095) div 4096)) s))"
proof -
  let ?len = "(bytes + 4095) div 4096 * 4096"
  obtain st cap where g: "cvsasx_sw_cap_remint (Some (pm_cust p)) (Some (pm_pir ?len p)) (Some (pm_region p)) (Some null_swcap) = (st, cap)"
    by fastforce
  show ?thesis
  proof (cases "bytes = 0 \<or> st \<noteq> CVSASX_OK \<or> (case cap of None \<Rightarrow> True | Some c \<Rightarrow> sc_valid c = 0)")
    case True
    then show ?thesis
      using assms g by (intro refused) (auto simp: pm_heap_extend_def Let_def split: if_splits)
  next
    case False
    then have "bytes \<noteq> 0" "st = CVSASX_OK" by auto
    then show ?thesis
      using assms g False pm_gate[of p ?len cap] by (intro granted[of ?len]) (auto simp: pm_heap_extend_def Let_def)
  qed
qed

abbreviation heap_top :: "pmproc \<Rightarrow> nat" where
  "heap_top p \<equiv> unat PM_HEAP_VA + unat (pm_heap_granted p)"

lemma heap_extend_step:
  assumes e: "pm_heap_extend n p s = (base, p', s')"
    and c: "unat (pm_heap_granted p) \<le> unat (object_length (pm_region p))"
    and sz: "unat PM_HEAP_VA + unat (object_length (pm_region p)) < 2 ^ 64"
  shows "unat (pm_heap_granted p') \<le> unat (object_length (pm_region p'))" and "pm_region p' = pm_region p"
    and "heap_top p \<le> heap_top p'"
    and "base \<noteq> 0 \<Longrightarrow> unat base = heap_top p \<and> unat base + unat n \<le> heap_top p'"
proof -
  have "unat (pm_heap_granted p') \<le> unat (object_length (pm_region p')) \<and> pm_region p' = pm_region p \<and>
    heap_top p \<le> heap_top p' \<and> (base \<noteq> 0 \<longrightarrow> unat base = heap_top p \<and> unat base + unat n \<le> heap_top p')"
    using e
  proof (cases rule: pm_heap_extend_cases)
    case refused
    have "pm_region p' = pm_region p"
      using e by (auto simp: pm_heap_extend_def Let_def split: if_splits prod.splits)
    then show ?thesis using refused c by simp
  next
    case (granted len)
    have b: "unat base = heap_top p"
      using granted(1) c sz by (simp add: unat_word_ariths)
    have g: "unat (pm_heap_granted p') = unat (pm_heap_granted p) + unat len"
      using granted(5,6) sz by (simp add: unat_word_ariths)
    have "unat n \<le> unat len" using page_round_up(1)[OF granted(3)] granted(2,4) by simp
    then show ?thesis using b g granted(5,6) by simp
  qed
  then show "unat (pm_heap_granted p') \<le> unat (object_length (pm_region p'))" "pm_region p' = pm_region p"
    "heap_top p \<le> heap_top p'" "base \<noteq> 0 \<Longrightarrow> unat base = heap_top p \<and> unat base + unat n \<le> heap_top p'"
    by blast+
qed

definition heap_ok :: "cvsasx_sw_region \<Rightarrow> pmproc \<times> pfs \<Rightarrow> bool" where
  "heap_ok r ps \<longleftrightarrow>
     pm_region (fst ps) = r \<and> unat (pm_heap_granted (fst ps)) \<le> unat (object_length r) \<and>
     unat PM_HEAP_VA + unat (object_length r) < 2 ^ 64"

definition heap_grant :: "u64 \<Rightarrow> pmproc \<times> pfs \<Rightarrow> u64 \<times> pmproc \<times> pfs" where
  "heap_grant n ps = pm_heap_extend n (fst ps) (snd ps)"

interpretation heap: bump_pool heap_grant "\<lambda>ps. heap_top (fst ps)" "unat PM_HEAP_VA + unat (object_length r)" "heap_ok r"
  for r
proof unfold_locales
  fix s n base s'
  assume ok: "heap_ok r s" and g: "heap_grant n s = (base, s')"
  obtain p f p' f' where s: "s = (p, f)" "s' = (p', f')" by fastforce
  have e: "pm_heap_extend n p f = (base, p', f')" using g s by (simp add: heap_grant_def)
  have c: "unat (pm_heap_granted p) \<le> unat (object_length (pm_region p))"
    "unat PM_HEAP_VA + unat (object_length (pm_region p)) < 2 ^ 64"
    using ok s by (simp_all add: heap_ok_def)
  note S = heap_extend_step[OF e c]
  show "heap_ok r s'" using S(1,2) ok s by (simp add: heap_ok_def)
  show "heap_top (fst s) \<le> heap_top (fst s')" using S(3) s by simp
  show "unat base = heap_top (fst s) \<and> unat base + unat n \<le> heap_top (fst s')" if "base \<noteq> 0" using S(4)[OF that] s by simp
next
  show "heap_top (fst s) \<le> unat PM_HEAP_VA + unat (object_length r)" if "heap_ok r s" for s
    using that by (simp add: heap_ok_def)
qed

section \<open>Properties\<close>


text \<open> the heap ceiling holds over any sequence of requests.  However a process asks for
  heap, the bytes granted never exceed the length of its ceiling object, every granted range
  lies between the old and the new end of the heap and covers the request, and
  granted ranges do not overlap.  Requests whose rounding wraps around are refused. \<close>
theorem heap_never_exceeds_ceiling:
  assumes "grant_run (\<lambda>n (p, s). pm_heap_extend n p s) ns (p, s) = (tr, p', s')"
    and "unat (pm_heap_granted p) \<le> unat (object_length (pm_region p))"
    and "unat PM_HEAP_VA + unat (object_length (pm_region p)) < 2 ^ 64"
  shows "unat (pm_heap_granted p') \<le> unat (object_length (pm_region p)) \<and> heap_top p \<le> heap_top p' \<and>
    (\<forall>(n, base) \<in> set tr. base \<noteq> 0 \<longrightarrow> heap_top p \<le> unat base \<and> unat base + unat n \<le> heap_top p') \<and>
    sorted_wrt (\<lambda>(n, a) (m, b). a \<noteq> 0 \<longrightarrow> b \<noteq> 0 \<longrightarrow> unat a + unat n \<le> unat b) tr"
proof -
  have "heap_grant = (\<lambda>n (p, s). pm_heap_extend n p s)" by (simp add: heap_grant_def fun_eq_iff)
  then have r: "grant_run heap_grant ns (p, s) = (tr, p', s')" using assms(1) by simp
  have "heap_ok (pm_region p) (p, s)" using assms(2,3) by (simp add: heap_ok_def)
  from heap.run_bounds[OF this r] show ?thesis by simp
qed

text \<open>A machine with an object bound to one page and a granted heap range at another.\<close>

definition ex_pfs :: pfs where
  "ex_pfs = \<lparr>pf_rm = ex_rm, pf_pm = ex_pm,
      pf_bindA = [\<lparr>ba_lo = 0x40000000, ba_hi = 0x40001000, ba_hash = pad_hash [1, 2, 3], ba_live = True\<rparr>],
      pf_bindB = [], pf_anon = [\<lparr>an_cr3 = 0x1000, an_lo = 0x70000000, an_hi = 0x70001000, an_live = True\<rparr>],
      pf_space = 0x1000, pf_in_handler = False, pf_nested_seen = 0, pf_anon_zeroed = 0, pf_svc_n_A = 0,
      pf_svc_n_B = 0, pf_last_serviced = False, pf_last_frame = 0\<rparr>"

lemma ex_pfs_inv: "pf_inv pad_hash (ram_frames ex_pm) UNIV ex_pfs"
  using ex_rm_inv ex_pool ex_wf hash_fn.length_H[OF hash_fn_pad_hash] by (auto simp: pf_inv_def ex_pfs_def)

lemma ex_pfs_resumes:
  "fst (pf_service pad_hash 0x40000010 4 ex_pfs)" "\<not> pf_anon_in 0x1000 0x40000010 ex_pfs"
  by code_simp+


text \<open>A process with the ceiling of the kernel: sixteen pages.\<close>

definition ex_ceiling :: cvsasx_swcap where
  "ex_ceiling = \<lparr>sc_base = PM_HEAP_VA, sc_length = PM_CEILING,
      sc_perms = CVSASX_PERM_LOAD OR CVSASX_PERM_STORE OR CVSASX_PERM_GLOBAL, sc_valid = 1\<rparr>"

definition ex_pmproc :: pmproc where
  "ex_pmproc = \<lparr>pm_space = 0x1000, pm_heap_granted = 0, pm_cust = \<lparr>cu_root = ex_ceiling, cu_initialized = 1\<rparr>,
      pm_region = \<lparr>object_cap = ex_ceiling, object_base_addr = PM_HEAP_VA, object_length = PM_CEILING,
                    region_hash = replicate 32 7\<rparr>,
      pm_heapH = replicate 32 7, pm_last_refuse_status = CVSASX_OK\<rparr>"

lemma ex_heap_extend:
  "\<exists>s1. pm_heap_extend 5000 ex_pmproc s = (0x70000000, ex_pmproc\<lparr>pm_heap_granted := 8192\<rparr>, s1)"
  "\<exists>p1. pm_heap_extend 0xffffffffffffffff (ex_pmproc\<lparr>pm_heap_granted := 8192\<rparr>) s = (0, p1, s)"
  by (simp_all add: pm_heap_extend_def Let_def remint_some_eq sw_remint_body_def sw_check_region_def ex_pmproc_def
        ex_ceiling_def pm_pir_def cvsasx_pir_zero_def pir_const_defs perm_simps PM_HEAP_VA_def PM_CEILING_def)

theorem heap_never_exceeds_ceiling_witness:
  "\<exists>p' s'. grant_run (\<lambda>n (p, s). pm_heap_extend n p s) [5000, 0xffffffffffffffff] (ex_pmproc, ex_pfs) =
       ([(5000, 0x70000000), (0xffffffffffffffff, 0)], p', s') \<and> unat (pm_heap_granted p') \<le> 65536"
proof -
  obtain s1 where 1: "pm_heap_extend 5000 ex_pmproc ex_pfs = (0x70000000, ex_pmproc\<lparr>pm_heap_granted := 8192\<rparr>, s1)"
    using ex_heap_extend(1) by blast
  obtain p1 where 2: "pm_heap_extend 0xffffffffffffffff (ex_pmproc\<lparr>pm_heap_granted := 8192\<rparr>) s1 = (0, p1, s1)"
    using ex_heap_extend(2) by blast
  have r: "grant_run (\<lambda>n (p, s). pm_heap_extend n p s) [5000, 0xffffffffffffffff] (ex_pmproc, ex_pfs) =
      ([(5000, 0x70000000), (0xffffffffffffffff, 0)], p1, s1)"
    using 1 2 by simp
  have "object_length (pm_region ex_pmproc) = 65536" "pm_heap_granted ex_pmproc = 0"
    by (simp_all add: ex_pmproc_def PM_CEILING_def)
  then show ?thesis
    using heap_never_exceeds_ceiling[OF r] r by (simp add: PM_HEAP_VA_def)
qed

end
