(* ===== verification/Loader.thy ===== *)
theory Loader
  imports PageFault
begin

text \<open>
  The process loader of \<^verbatim>\<open>kernel/kernel.c\<close> (L0, L1): the ELF parser over an untrusted image and
  the load of the parsed segments by hash into a fresh address space.  A read of the image outside
  its bytes is a result of its own, so that memory safety of the parser is a theorem and
  not an assumption.  Entering ring 3 and the demonstrations are not modelled.
\<close>

section \<open>The ELF parser\<close>

definition ELF_PT_LOAD :: u32 where "ELF_PT_LOAD = 1"
definition ELF_PF_X :: u32 where "ELF_PF_X = 1"
definition ELF_PF_W :: u32 where "ELF_PF_W = 2"
definition ELF_ET_EXEC :: "16 word" where "ELF_ET_EXEC = 2"
definition ELF_EM_X8664 :: "16 word" where "ELF_EM_X8664 = 62"
definition LD_MAXSEG :: nat where "LD_MAXSEG = 8"
definition LD_STACK_VA :: u64 where "LD_STACK_VA = 0x50000000"

definition rd :: "bytes \<Rightarrow> nat \<Rightarrow> nat \<Rightarrow> bytes option" where
  "rd img off n = (if off + n \<le> length img then Some (slice off n img) else None)"

definition rd16 :: "bytes \<Rightarrow> nat \<Rightarrow> 16 word option" where "rd16 img off = map_option le_word (rd img off 2)"
definition rd32 :: "bytes \<Rightarrow> nat \<Rightarrow> u32 option" where "rd32 img off = map_option le_word (rd img off 4)"
definition rd64 :: "bytes \<Rightarrow> nat \<Rightarrow> u64 option" where "rd64 img off = map_option le_word (rd img off 8)"

record ld_phdr =
  ph_type :: u32
  ph_flags :: u32
  ph_off :: u64
  ph_vaddr :: u64
  ph_filesz :: u64
  ph_memsz :: u64

datatype 'a elf_result = ElfOob | ElfBad | ElfOk 'a

definition elf_use :: "'b option \<Rightarrow> ('b \<Rightarrow> 'a elf_result) \<Rightarrow> 'a elf_result" where
  "elf_use r f = (case r of None \<Rightarrow> ElfOob | Some v \<Rightarrow> f v)"

text \<open>One program header, with the checks on its segment.\<close>

definition elf_segment :: "bytes \<Rightarrow> nat \<Rightarrow> u32 \<Rightarrow> ld_phdr elf_result" where
  "elf_segment img ph type =
     elf_use (rd32 img (ph + 4)) (\<lambda>flags.
     elf_use (rd64 img (ph + 8)) (\<lambda>off.
     elf_use (rd64 img (ph + 16)) (\<lambda>vaddr.
     elf_use (rd64 img (ph + 32)) (\<lambda>filesz.
     elf_use (rd64 img (ph + 40)) (\<lambda>memsz.
       if unat off > length img \<or> unat filesz > length img - unat off then ElfBad
       else if memsz < filesz then ElfBad
       else if memsz > 4096 then ElfBad
       else ElfOk \<lparr>ph_type = type, ph_flags = flags, ph_off = off, ph_vaddr = vaddr,
                   ph_filesz = filesz, ph_memsz = memsz\<rparr>)))))"

fun elf_loop :: "bytes \<Rightarrow> nat \<Rightarrow> nat \<Rightarrow> nat \<Rightarrow> nat list \<Rightarrow> ld_phdr list \<Rightarrow> ld_phdr list elf_result" where
  "elf_loop img maxp phoff phentsize [] out = ElfOk out"
| "elf_loop img maxp phoff phentsize (i # is) out =
     (let ph = phoff + i * phentsize in
      elf_use (rd32 img ph) (\<lambda>type.
        if type \<noteq> ELF_PT_LOAD then elf_loop img maxp phoff phentsize is out
        else if length out \<ge> maxp then ElfBad
        else (case elf_segment img ph type of
                ElfOob \<Rightarrow> ElfOob
              | ElfBad \<Rightarrow> ElfBad
              | ElfOk s \<Rightarrow> elf_loop img maxp phoff phentsize is (out @ [s]))))"

definition elf_parse :: "bytes \<Rightarrow> nat \<Rightarrow> (u64 \<times> ld_phdr list) elf_result" where
  "elf_parse img maxp =
     (if length img < 64 then ElfBad
      else
        elf_use (rd img 0 4) (\<lambda>magic. if magic \<noteq> [0x7f, 0x45, 0x4c, 0x46] then ElfBad else
        elf_use (rd img 4 1) (\<lambda>cls. if cls \<noteq> [2] then ElfBad else
        elf_use (rd img 5 1) (\<lambda>data. if data \<noteq> [1] then ElfBad else
        elf_use (rd16 img 18) (\<lambda>machine. if machine \<noteq> ELF_EM_X8664 then ElfBad else
        elf_use (rd16 img 16) (\<lambda>etype. if etype \<noteq> ELF_ET_EXEC then ElfBad else
        elf_use (rd64 img 24) (\<lambda>entry.
        elf_use (rd64 img 32) (\<lambda>phoff.
        elf_use (rd16 img 54) (\<lambda>phentsize.
        elf_use (rd16 img 56) (\<lambda>phnum.
          if phentsize < 56 then ElfBad
          else if unat phoff > length img \<or> unat phnum * unat phentsize > length img - unat phoff then ElfBad
          else (case elf_loop img maxp (unat phoff) (unat phentsize) [0..<unat phnum] [] of
                  ElfOob \<Rightarrow> ElfOob
                | ElfBad \<Rightarrow> ElfBad
                | ElfOk segs \<Rightarrow> ElfOk (entry, segs))))))))))))"

section \<open>Loading the segments\<close>

text \<open>The frame of a segment: a verified private copy when writable, the shared frame by hash otherwise.\<close>

definition ld_frame :: "(bytes \<Rightarrow> bytes) \<Rightarrow> bool \<Rightarrow> bytes \<Rightarrow> rmgr \<Rightarrow> u64 \<times> rmgr" where
  "ld_frame H writable h rm =
     (if writable
      then (case store_get (rm_store rm) h of
              (CVSASX_STORE_OK, Some b) \<Rightarrow>
                (if \<not> cvsasx_hash_eq (H b) h then (0, rm)
                 else (case frame_reserve rm of (frame, rm1) \<Rightarrow>
                         (if frame = 0 then (0, rm1)
                          else (frame, rm1\<lparr>fdata := (fdata rm1)(frame := splice 0 b (fdata rm1 frame))\<rparr>))))
            | _ \<Rightarrow> (0, rm))
      else rm_materialize H h rm)"

text \<open>The zero fill of the tail; a frame content shorter than a page is zero from its end on.\<close>

definition zero_tail :: "nat \<Rightarrow> nat \<Rightarrow> bytes \<Rightarrow> bytes" where
  "zero_tail a b d = (if a < b then splice a (replicate (b - a) 0) (d @ replicate (4096 - length d) 0) else d)"

abbreviation seg_w :: "ld_phdr \<Rightarrow> bool" where "seg_w s \<equiv> ph_flags s AND ELF_PF_W \<noteq> 0"
abbreviation seg_x :: "ld_phdr \<Rightarrow> bool" where "seg_x s \<equiv> ph_flags s AND ELF_PF_X \<noteq> 0"

definition ld_segment ::
  "(bytes \<Rightarrow> bytes) \<Rightarrow> u64 \<Rightarrow> ld_phdr \<Rightarrow> bytes \<Rightarrow> rmgr \<times> pmem \<Rightarrow> u64 option \<times> rmgr \<times> pmem" where
  "ld_segment H space s h st =
     (case st of (rm, pm) \<Rightarrow>
        (if seg_w s \<and> seg_x s then (None, rm, pm)
         else
           (case ld_frame H (seg_w s) h rm of (frame, rm1) \<Rightarrow>
              (if frame = 0 then (None, rm1, pm)
               else
                 (let rm2 = rm1\<lparr>fdata := (fdata rm1)(frame := zero_tail (unat (ph_filesz s)) (unat (ph_memsz s)) (fdata rm1 frame))\<rparr>
                  in case mm_map space (ph_vaddr s) frame (MM_USER OR (if seg_w s then MM_WRITE else 0)) pm of
                       (ok, pm1) \<Rightarrow> (if ok then Some frame else None, rm2, pm1))))))"

fun ld_segs ::
  "(bytes \<Rightarrow> bytes) \<Rightarrow> u64 \<Rightarrow> (ld_phdr \<times> bytes) list \<Rightarrow> rmgr \<times> pmem \<Rightarrow> u64 list option \<times> rmgr \<times> pmem" where
  "ld_segs H space [] st = (Some [], st)"
| "ld_segs H space ((s, h) # ss) st =
     (case ld_segment H space s h st of
        (None, st1) \<Rightarrow> (None, st1)
      | (Some f, st1) \<Rightarrow>
          (case ld_segs H space ss st1 of
             (None, st2) \<Rightarrow> (None, st2)
           | (Some fs, st2) \<Rightarrow> (Some (f # fs), st2)))"

text \<open>
  The process record; the addresses, flags and hashes of the segments, which the source copies into
  it, are those of the list that was loaded.
\<close>

record ld_proc =
  ld_space :: u64
  ld_stacktop :: u64
  ld_seg_frame :: "u64 list"
  ld_stack_frame :: u64

definition ld_materialize ::
  "(bytes \<Rightarrow> bytes) \<Rightarrow> u64 \<Rightarrow> (ld_phdr \<times> bytes) list \<Rightarrow> rmgr \<times> pmem \<Rightarrow> ld_proc option \<times> rmgr \<times> pmem" where
  "ld_materialize H cr3 segs st =
     (case st of (rm, pm) \<Rightarrow>
        (case mm_new_space cr3 pm of (space, pm1) \<Rightarrow>
           (if space = 0 then (None, rm, pm1)
            else
              (case ld_segs H space segs (rm, pm1) of
                 (None, st2) \<Rightarrow> (None, st2)
               | (Some frames, rm2, pm2) \<Rightarrow>
                   (case frame_reserve rm2 of (sf, rm3) \<Rightarrow>
                      (if sf = 0 then (None, rm3, pm2)
                       else (case mm_map space LD_STACK_VA sf (MM_USER OR MM_WRITE) pm2 of (ok, pm3) \<Rightarrow>
                               (if \<not> ok then (None, rm3, pm3)
                                else (Some \<lparr>ld_space = space, ld_stacktop = LD_STACK_VA + 4096 - 16,
                                            ld_seg_frame = frames, ld_stack_frame = sf\<rparr>, rm3, pm3)))))))))"

section \<open>The parser is safe on every image\<close>

definition seg_ok :: "bytes \<Rightarrow> ld_phdr \<Rightarrow> bool" where
  "seg_ok img s \<longleftrightarrow> ph_type s = ELF_PT_LOAD \<and> unat (ph_off s) + unat (ph_filesz s) \<le> length img \<and>
     ph_filesz s \<le> ph_memsz s \<and> ph_memsz s \<le> 4096"

lemma rd_in: "off + n \<le> length img \<Longrightarrow> \<exists>b. rd img off n = Some b"
  by (simp add: rd_def)

lemma rdw_in:
  "off + 2 \<le> length img \<Longrightarrow> \<exists>w. rd16 img off = Some w" "off + 4 \<le> length img \<Longrightarrow> \<exists>w. rd32 img off = Some w"
  "off + 8 \<le> length img \<Longrightarrow> \<exists>w. rd64 img off = Some w"
  by (simp_all add: rd16_def rd32_def rd64_def rd_def)

lemma elf_segment_ok:
  assumes "ph + 56 \<le> length img"
  shows "elf_segment img ph ELF_PT_LOAD \<noteq> ElfOob" and "elf_segment img ph ELF_PT_LOAD = ElfOk s \<Longrightarrow> seg_ok img s"
proof -
  obtain a where a: "rd32 img (ph + 4) = Some a" using rdw_in(2)[of "ph + 4" img] assms by auto
  obtain b where b: "rd64 img (ph + 8) = Some b" using rdw_in(3)[of "ph + 8" img] assms by auto
  obtain c where c: "rd64 img (ph + 16) = Some c" using rdw_in(3)[of "ph + 16" img] assms by auto
  obtain d where d: "rd64 img (ph + 32) = Some d" using rdw_in(3)[of "ph + 32" img] assms by auto
  obtain e where e: "rd64 img (ph + 40) = Some e" using rdw_in(3)[of "ph + 40" img] assms by auto
  let ?s = "\<lparr>ph_type = ELF_PT_LOAD, ph_flags = a, ph_off = b, ph_vaddr = c, ph_filesz = d, ph_memsz = e\<rparr>"
  have eq: "elf_segment img ph ELF_PT_LOAD =
     (if unat b > length img \<or> unat d > length img - unat b then ElfBad
      else if e < d then ElfBad else if e > 4096 then ElfBad else ElfOk ?s)"
    by (simp only: elf_segment_def elf_use_def a b c d e option.case)
  show "elf_segment img ph ELF_PT_LOAD \<noteq> ElfOob" unfolding eq by simp
  assume "elf_segment img ph ELF_PT_LOAD = ElfOk s"
  then have "s = ?s" "unat b + unat d \<le> length img" "d \<le> e" "e \<le> 4096"
    unfolding eq by (auto simp: not_less split: if_splits)
  then show "seg_ok img s" by (simp add: seg_ok_def)
qed

lemma elf_loop_ok:
  assumes "\<forall>i \<in> set is. phoff + i * es + 56 \<le> length img" and "\<forall>s \<in> set out. seg_ok img s" and "length out \<le> maxp"
  shows "elf_loop img maxp phoff es is out \<noteq> ElfOob \<and>
    (\<forall>segs. elf_loop img maxp phoff es is out = ElfOk segs \<longrightarrow> length segs \<le> maxp \<and> (\<forall>s \<in> set segs. seg_ok img s))"
  using assms
proof (induction "is" arbitrary: out)
  case (Cons i "is")
  let ?ph = "phoff + i * es"
  have ph: "?ph + 56 \<le> length img" using Cons.prems(1) by simp
  then obtain ty where ty: "rd32 img ?ph = Some ty" using rdw_in(2)[of ?ph img] by auto
  note S = elf_segment_ok[OF ph]
  show ?case
  proof (cases "ty = ELF_PT_LOAD \<and> length out < maxp")
    case True
    show ?thesis
    proof (cases "elf_segment img ?ph ty")
      case (ElfOk s)
      have eq: "elf_loop img maxp phoff es (i # is) out = elf_loop img maxp phoff es is (out @ [s])"
        using True ElfOk ty by (simp add: elf_use_def Let_def)
      have 1: "\<forall>j \<in> set is. phoff + j * es + 56 \<le> length img" using Cons.prems(1) by simp
      have 2: "\<forall>x \<in> set (out @ [s]). seg_ok img x" using S(2)[of s] Cons.prems(2) True ElfOk by auto
      have 3: "length (out @ [s]) \<le> maxp" using True by simp
      show ?thesis unfolding eq by (rule Cons.IH[OF 1 2 3])
    qed (use True ty S(1) in \<open>simp_all add: elf_use_def Let_def\<close>)
  next
    case False
    show ?thesis
    proof (cases "ty = ELF_PT_LOAD")
      case True
      then have "elf_loop img maxp phoff es (i # is) out = ElfBad" using False ty by (simp add: elf_use_def Let_def)
      then show ?thesis by simp
    next
      case False
      then have eq: "elf_loop img maxp phoff es (i # is) out = elf_loop img maxp phoff es is out"
        using ty by (simp add: elf_use_def Let_def)
      have "\<forall>j \<in> set is. phoff + j * es + 56 \<le> length img" using Cons.prems(1) by simp
      from Cons.IH[OF this Cons.prems(2,3)] show ?thesis unfolding eq .
    qed
  qed
qed simp

lemma table_in:
  "\<lbrakk>i < n; (n :: nat) * es \<le> len - off; off \<le> len; 56 \<le> es\<rbrakk> \<Longrightarrow> off + i * es + 56 \<le> (len :: nat)"
proof -
  assume a: "i < n" "n * es \<le> len - off" "off \<le> len" "56 \<le> es"
  have "Suc i * es \<le> n * es" using a(1) by (intro mult_le_mono1) simp
  then show ?thesis using a by simp
qed

lemma elf_parse_ok:
  "elf_parse img maxp \<noteq> ElfOob \<and>
   (\<forall>entry segs. elf_parse img maxp = ElfOk (entry, segs) \<longrightarrow> length segs \<le> maxp \<and> (\<forall>s \<in> set segs. seg_ok img s))"
proof (cases "length img < 64")
  case False
  then have L: "64 \<le> length img" by simp
  obtain m c d where r: "rd img 0 4 = Some m" "rd img 4 1 = Some c" "rd img 5 1 = Some d"
    using L by (simp add: rd_def)
  obtain ma et ps pn where q: "rd16 img 18 = Some ma" "rd16 img 16 = Some et" "rd16 img 54 = Some ps" "rd16 img 56 = Some pn"
    using L rdw_in(1)[of 18 img] rdw_in(1)[of 16 img] rdw_in(1)[of 54 img] rdw_in(1)[of 56 img] by auto
  obtain en po where e: "rd64 img 24 = Some en" "rd64 img 32 = Some po"
    using L rdw_in(3)[of 24 img] rdw_in(3)[of 32 img] by auto
  have eq: "elf_parse img maxp =
     (if m \<noteq> [0x7f, 0x45, 0x4c, 0x46] then ElfBad else if c \<noteq> [2] then ElfBad else if d \<noteq> [1] then ElfBad
      else if ma \<noteq> ELF_EM_X8664 then ElfBad else if et \<noteq> ELF_ET_EXEC then ElfBad
      else if ps < 56 then ElfBad
      else if unat po > length img \<or> unat pn * unat ps > length img - unat po then ElfBad
      else (case elf_loop img maxp (unat po) (unat ps) [0..<unat pn] [] of
              ElfOob \<Rightarrow> ElfOob | ElfBad \<Rightarrow> ElfBad | ElfOk segs \<Rightarrow> ElfOk (en, segs)))"
    by (simp only: elf_parse_def elf_use_def r q e False if_False option.case)
  show ?thesis
  proof (cases "ps < 56 \<or> unat po > length img \<or> unat pn * unat ps > length img - unat po")
    case True
    then show ?thesis unfolding eq by auto
  next
    case no: False
    have "56 \<le> unat ps" using no by (simp add: word_less_nat_alt not_less)
    then have "\<forall>i \<in> set [0..<unat pn]. unat po + i * unat ps + 56 \<le> length img"
      using no table_in[of _ "unat pn" "unat ps" "length img" "unat po"] by simp
    note I = elf_loop_ok[OF this, of "[]" maxp, simplified]
    show ?thesis
      using I no unfolding eq
      by (cases "elf_loop img maxp (unat po) (unat ps) [0..<unat pn] []") (auto split: if_splits)
  qed
qed (simp add: elf_parse_def)

section \<open>A fresh address space\<close>

text \<open>The top-level slots that the kernel's table leaves empty: the private part of a new space.\<close>

definition private_slots :: "u64 \<Rightarrow> pmem \<Rightarrow> nat set" where
  "private_slots cr3 pm = {i. i < 512 \<and> pm_mem pm (cr3 AND NOT 0xfff) i AND 1 = 0}"

lemma mm_new_space_wf:
  assumes pool: "boot_pool U F pm" and n: "mm_new_space cr3 pm = (space, pm1)" and nz: "space \<noteq> 0"
  shows "boot_pool U (F - {space}) pm1" and "pt_wf (private_slots cr3 pm) space (F - {space}) pm1"
    and "va_idx va 39 \<in> private_slots cr3 pm \<Longrightarrow> mm_resolve space va pm1 = 0"
proof -
  obtain q s1 where f: "falloc pm = (q, s1)" by fastforce
  have q: "q = space" using n f nz by (auto simp: mm_new_space_def split: if_splits)
  have s1: "boot_pool U (F - {space}) s1" "pm_mem s1 = pm_mem pm"
    using falloc_cases[OF pool f] nz q by auto
  let ?R = "private_slots cr3 pm"
  let ?m = "(pm_mem s1)(space := \<lambda>i. if i < 512 then pm_mem s1 (cr3 AND NOT 0xfff) i else pm_mem s1 space i)"
  have pm1: "pm1 = s1\<lparr>pm_mem := ?m\<rparr>" using n f nz q by (auto simp: mm_new_space_def split: if_splits)
  show "boot_pool U (F - {space}) pm1" unfolding pm1 by (rule pool_mem_cong[OF s1(1)]) auto
  have ab: "pm_mem pm1 space i AND 1 = 0" if "i \<in> ?R" for i
    using that s1(2) by (simp add: pm1 private_slots_def)
  have only: "tbl_at pm1 space p = (if p = [] then Some space else None)" if "pt_path ?R p" for p
    using that ab by (cases p) (auto simp: pt_path_def)
  then show "pt_wf ?R space (F - {space}) pm1" by (auto simp: pt_wf_def split: if_splits)
  assume "va_idx va 39 \<in> ?R"
  then have "pt_path ?R (va_path va)" "va_path va \<noteq> []" using va_path_ok by (auto simp: va_path_def)
  then show "mm_resolve space va pm1 = 0"
    using only by (simp add: mm_resolve_leaf leaf_at_def)
qed

section \<open>What the residency manager keeps while frames are added\<close>

definition frame_used :: "rmgr \<Rightarrow> u64 \<Rightarrow> bool" where
  "frame_used s f \<longleftrightarrow> (\<exists>k < fdb_n s. f = fr_phys s k \<and> fr_state (framedb s ! k) \<noteq> FR_FREE)"

definition rm_ext :: "rmgr \<Rightarrow> rmgr \<Rightarrow> bool" where
  "rm_ext s s' \<longleftrightarrow>
     rm_store s' = rm_store s \<and>
     (\<forall>f. frame_used s f \<longrightarrow> frame_used s' f \<and>
        (f \<notin> ent_frame s ` live_ents s \<longrightarrow> f \<notin> ent_frame s' ` live_ents s' \<and> fdata s' f = fdata s f)) \<and>
     (\<forall>h f. length h = 32 \<longrightarrow> serves h f s \<longrightarrow> serves h f s')"

lemma rm_ext_refl: "rm_ext s s"
  by (simp add: rm_ext_def)

lemma rm_ext_trans: "rm_ext s t \<Longrightarrow> rm_ext t u \<Longrightarrow> rm_ext s u"
  by (simp add: rm_ext_def)

lemma servesD:
  assumes "res_inv H s" and "length h = 32" and "serves h f s"
  obtains e k where "e \<in> live_ents s" "ent_hash s e = h" "ent_frame s e = f" "k < fdb_n s" "f = fr_phys s k"
    "fr_idx s f = k" "k < length (framedb s)" "fr_state (framedb s ! k) \<noteq> FR_FREE"
proof -
  obtain e where e: "rset_find h s = Some e" "ent_frame s e = f" using assms(3) by (auto simp: serves_def)
  then have l: "e \<in> live_ents s" "ent_hash s e = h" using rset_find_cases(1)[OF assms(1,2)] by blast+
  show ?thesis using ent_frameE[OF assms(1) l(1)] that l e(2) by metis
qed

lemma serves_used: "res_inv H s \<Longrightarrow> length h = 32 \<Longrightarrow> serves h f s \<Longrightarrow> frame_used s f \<and> f \<in> ent_frame s ` live_ents s"
  by (erule (2) servesD) (auto 0 3 simp: frame_used_def intro: rev_image_eqI)

lemma used_ne_free:
  assumes "fdb_wf s" and "frame_used s f" and "k < fdb_n s" and "fr_state (framedb s ! k) = FR_FREE"
  shows "f \<noteq> fr_phys s k"
  using assms fr_phys_inj[OF assms(1)] by (auto simp: frame_used_def)

text \<open>Changes confined to one frame that was free: its content, its record, and at most one new entry for it.\<close>

lemma rm_ext_fresh:
  assumes inv: "res_inv H s" and inv': "res_inv H s'" and i: "i < fdb_n s" "fr_state (framedb s ! i) = FR_FREE"
    and same: "fdb_base s' = fdb_base s" "fdb_n s' = fdb_n s" "rm_store s' = rm_store s"
    and db: "\<And>k. k < length (framedb s) \<Longrightarrow> k \<noteq> i \<Longrightarrow>
        fr_state (framedb s' ! k) = fr_state (framedb s ! k) \<and> fr_dirty (framedb s' ! k) = fr_dirty (framedb s ! k)"
    and dt: "\<And>f. f \<noteq> fr_phys s i \<Longrightarrow> fdata s' f = fdata s f"
    and old: "\<And>e. e \<in> live_ents s \<Longrightarrow> e \<in> live_ents s' \<and> rset s' ! e = rset s ! e"
    and new: "\<And>e. e \<in> live_ents s' \<Longrightarrow> e \<in> live_ents s \<or> ent_frame s' e = fr_phys s i"
  shows "rm_ext s s'"
proof -
  have wf: "fdb_wf s" using inv by (simp add: res_inv_def)
  have fr: "fr_idx s' = fr_idx s" "fr_phys s' = fr_phys s" by (rule fr_same, rule same(1))+
  have used: "frame_used s' f \<and> fdata s' f = fdata s f \<and> f \<noteq> fr_phys s i" if "frame_used s f" for f
  proof -
    from that obtain k where k: "k < fdb_n s" "f = fr_phys s k" "fr_state (framedb s ! k) \<noteq> FR_FREE"
      by (auto simp: frame_used_def)
    then have "k < length (framedb s)" "k \<noteq> i" using wf i(2) by (auto simp: fdb_wf_def)
    then have "frame_used s' f" using db k unfolding frame_used_def fr same by auto
    then show ?thesis using used_ne_free[OF wf that i] dt by blast
  qed
  have priv: "f \<notin> ent_frame s' ` live_ents s'" if "frame_used s f" "f \<notin> ent_frame s ` live_ents s" for f
  proof
    assume "f \<in> ent_frame s' ` live_ents s'"
    then obtain e where e: "e \<in> live_ents s'" "f = ent_frame s' e" by blast
    then have "e \<in> live_ents s" using new[OF e(1)] used[OF that(1)] by auto
    then show False using that(2) e(2) old by auto
  qed
  have "serves h f s'" if h: "length h = 32" and sv: "serves h f s" for h f
  proof -
    obtain e k where e: "e \<in> live_ents s" "ent_hash s e = h" "ent_frame s e = f" "k < fdb_n s" "f = fr_phys s k"
      "fr_idx s f = k" "k < length (framedb s)" "fr_state (framedb s ! k) \<noteq> FR_FREE"
      by (rule servesD[OF inv h sv])
    have "frame_used s f" using serves_used[OF inv h sv] by blast
    then have d: "fdata s' f = fdata s f" using used by blast
    have "k \<noteq> i" using e(8) i(2) by auto
    then have "fr_dirty (framedb s' ! k) = fr_dirty (framedb s ! k)" using db e(7) by blast
    moreover have "frame_holds s' f h = frame_holds s f h" by (simp add: frame_holds_def d same(3))
    moreover have "rset_find h s' = Some e" using rset_find_cases(1)[OF inv' h] old[OF e(1)] e(2) by simp
    ultimately show ?thesis using sv e(3,6) old[OF e(1)] unfolding serves_def fr by auto
  qed
  then show ?thesis using used priv same(3) by (simp add: rm_ext_def)
qed

text \<open>Changes of bookkeeping bits only.\<close>

lemma rm_ext_book:
  assumes "fdb_base s' = fdb_base s" "fdb_n s' = fdb_n s" "rm_store s' = rm_store s" "fdata s' = fdata s" "rset s' = rset s"
    and "fdb_wf s" and "res_inv H s"
    and "\<And>k. k < length (framedb s) \<Longrightarrow>
        fr_state (framedb s' ! k) = fr_state (framedb s ! k) \<and> fr_dirty (framedb s' ! k) = fr_dirty (framedb s ! k)"
  shows "rm_ext s s'"
proof -
  have fr: "fr_idx s' = fr_idx s" "fr_phys s' = fr_phys s" by (rule fr_same, rule assms(1))+
  have L: "live_ents s' = live_ents s" "\<And>h. rset_find h s' = rset_find h s"
    by (simp_all add: live_ents_def rset_find_def assms(5))
  have "frame_used s' f = frame_used s f" for f
    unfolding frame_used_def fr assms(2) using assms(6,8) by (auto simp: fdb_wf_def)
  moreover have "serves h f s'" if h: "length h = 32" and sv: "serves h f s" for h f
  proof -
    obtain k where k: "fr_idx s f = k" "k < length (framedb s)" by (rule servesD[OF assms(7) h sv])
    then show ?thesis using sv assms(8)[of k] by (simp add: serves_def frame_holds_def L fr assms(3,4,5))
  qed
  ultimately show ?thesis by (simp add: rm_ext_def L assms(3,4,5))
qed

lemma reserve_ext:
  assumes inv: "res_inv H s" and r: "frame_reserve s = (f, s')" and f: "f \<noteq> 0"
  obtains i where "i < fdb_n s" "fr_state (framedb s ! i) = FR_FREE" "f = fr_phys s i" "res_inv H s'" "frame_used s' f"
    "f \<notin> ent_frame s' ` live_ents s'" "rset s' = rset s" "rm_store s' = rm_store s" "fdata s' = fdata s"
    "fdb_base s' = fdb_base s" "fdb_n s' = fdb_n s" "length (framedb s') = length (framedb s)"
    "\<And>k. k < length (framedb s) \<Longrightarrow> k \<noteq> i \<Longrightarrow> framedb s' ! k = framedb s ! k" "fr_idx s' f = i" "i < length (framedb s')"
    "fr_state (framedb s' ! i) = FR_RESIDENT" "fdb_free s \<noteq> []"
proof -
  have wf: "fdb_wf s" using inv by (simp add: res_inv_def)
  obtain j where j: "res_inv H s'" "rset s' = rset s" "rm_store s' = rm_store s" "j < fdb_n s'" "f = fr_phys s' j"
    "fr_idx s' f = j" "j < length (framedb s')" "fr_state (framedb s' ! j) = FR_RESIDENT"
    "f \<notin> ent_frame s' ` live_ents s'" "fdata s' = fdata s"
    using reserve_inv[OF inv r f] by metis
  from wf r show ?thesis
  proof (cases rule: frame_reserve_cases)
    case none
    then show ?thesis using f by simp
  next
    case (some i rest)
    have fld: "fdb_base s' = fdb_base s" "fdb_n s' = fdb_n s" "length (framedb s') = length (framedb s)"
      by (simp_all add: some(6))
    have fr: "fr_phys s' = fr_phys s" by (rule fr_same, rule fld(1))
    have "i = j" using fr_phys_inj[OF wf some(2), of j] some(3) j(4,5) fr fld(2) by simp
    have "frame_used s' f" using j(4,5,8) by (auto simp: frame_used_def)
    moreover have "\<And>k. k < length (framedb s) \<Longrightarrow> k \<noteq> i \<Longrightarrow> framedb s' ! k = framedb s ! k"
      by (simp add: some(6) upd_frame_def)
    ultimately show ?thesis
      using that[OF some(2,5,3) j(1) _ j(9,2,3,10) fld] j(6-8) \<open>i = j\<close> some(1) by simp
  qed
qed

lemma reserve_grows:
  assumes inv: "res_inv H s" and r: "frame_reserve s = (f, s')" and f: "f \<noteq> 0"
  shows "rm_ext s s'"
proof -
  obtain i where i: "i < fdb_n s" "fr_state (framedb s ! i) = FR_FREE" "res_inv H s'" "rset s' = rset s"
    "rm_store s' = rm_store s" "fdata s' = fdata s" "fdb_base s' = fdb_base s" "fdb_n s' = fdb_n s"
    "\<And>k. k < length (framedb s) \<Longrightarrow> k \<noteq> i \<Longrightarrow> framedb s' ! k = framedb s ! k"
    using reserve_ext[OF inv r f] by metis
  have "live_ents s' = live_ents s" by (simp add: live_ents_def i(4))
  then show ?thesis
    by (intro rm_ext_fresh[OF inv i(3,1,2,7,8,5)]) (simp_all add: i)
qed

lemma rset_add_length: "length (rset (snd (rset_add h f s))) \<le> Suc (length (rset s))"
  by (auto simp: rset_add_def Let_def split: option.split)

lemma materialize_grows:
  assumes H: "hash_fn H" and inv: "res_inv H s" and h: "length h = 32" and room: "rset_room s"
    and m: "rm_materialize H h s = (fp, s')" and fp: "fp \<noteq> 0"
  shows "rm_ext s s' \<and> length (rset s') \<le> Suc (length (rset s))"
proof -
  have wf: "fdb_wf s" using inv by (simp add: res_inv_def)
  note I' = materialize_serves(1)[OF H inv h room m]
  show ?thesis
  proof (cases "rset_find h s")
    case (Some e)
    then have s': "s' = (upd_frame (fr_idx s (ent_frame s e)) (\<lambda>r. r\<lparr>fr_refcount := fr_refcount r + 1, fr_clock_ref := True\<rparr>) s)
        \<lparr>rm_hits := rm_hits s + 1\<rparr>"
      using m by (auto simp: rm_materialize_def Let_def)
    have "rm_ext s s'" by (rule rm_ext_book[OF _ _ _ _ _ wf inv]) (simp_all add: s' upd_frame_nth)
    then show ?thesis by (simp add: s')
  next
    case None
    let ?s = "s\<lparr>rm_faults := rm_faults s + 1\<rparr>"
    have inv1: "res_inv H ?s"
      using inv by (simp add: res_inv_def fdb_wf_def live_ents_def ent_ok_def frame_holds_def fr_phys_def fr_idx_def)
    obtain b where b: "store_map (rm_store s) h = Some b" "length b \<le> 4096"
      using m None fp by (auto simp: rm_materialize_def Let_def store_get_map split: option.splits if_splits)
    obtain f s2 where r: "frame_reserve ?s = (f, s2)" by fastforce
    have f: "f \<noteq> 0" using m None b r fp by (auto simp: rm_materialize_def Let_def store_get_map)
    obtain i where i: "i < fdb_n s" "fr_state (framedb s ! i) = FR_FREE" "f = fr_phys ?s i" "rset s2 = rset s"
      "rm_store s2 = rm_store s" "fdata s2 = fdata s" "fdb_base s2 = fdb_base s" "fdb_n s2 = fdb_n s"
      "length (framedb s2) = length (framedb s)"
      "\<And>k. k < length (framedb s) \<Longrightarrow> k \<noteq> i \<Longrightarrow> framedb s2 ! k = framedb s ! k" "fr_idx s2 f = i"
      using reserve_ext[OF inv1 r f] by simp metis
    have Hb: "H b = h" using hash_fn.store_map_hash[OF H _ h b(1)] inv by (simp add: res_inv_def)
    define u where "u = upd_frame i (\<lambda>r. r\<lparr>fr_has_hash := True, fr_hash := h, fr_clock_ref := True\<rparr>)
             (s2\<lparr>fdata := (fdata s2)(f := splice 0 b (fdata s2 f))\<rparr>)"
    have ix: "fr_idx (s2\<lparr>fdata := (fdata s2)(f := splice 0 b (fdata s2 f))\<rparr>) f = i" using i(11) by (simp add: fr_idx_def)
    let ?s5 = "snd (rset_add h f u)"
    have s': "s' = ?s5\<lparr>rm_bytes := rm_bytes ?s5 + word_of_nat (length b)\<rparr>"
      using m None b r f Hb h ix
      by (auto simp: rm_materialize_def Let_def store_get_map splice_start cvsasx_hash_eq_iff u_def)
    have ru: "rset_room u" "length (rset u) \<le> RSET_MAX"
      using room inv i(4) by (simp_all add: rset_room_def u_def res_inv_def)
    then obtain e rs where e: "rset_add h f u = (Some e, u\<lparr>rset := rs\<rparr>)" "live_ents (u\<lparr>rset := rs\<rparr>) = insert e (live_ents u)"
      "rs ! e = \<lparr>rs_ehash = h, rs_frame = f, rs_live = True\<rparr>" "\<forall>k \<in> live_ents u. rs ! k = rset u ! k"
      by (rule rset_add_cases)
    have fr: "fr_phys ?s = fr_phys s" by (rule fr_same) simp
    have ru': "rset u = rset s" by (simp add: u_def i(4))
    have Lu: "live_ents u = live_ents s" by (simp add: live_ents_def ru')
    have fld: "rset s' = rs" "fdb_base s' = fdb_base s" "fdb_n s' = fdb_n s" "rm_store s' = rm_store s"
      "fdata s' = (fdata s)(f := splice 0 b (fdata s f))" "framedb s' = framedb u"
      unfolding s' e(1) by (simp_all add: u_def i(5-8))
    have L: "live_ents s' = insert e (live_ents s)" using e(2) Lu by (simp add: live_ents_def fld(1))
    have db: "framedb s' ! k = framedb s ! k" if "k < length (framedb s)" "k \<noteq> i" for k
      using i(10)[OF that] that by (simp add: fld(6) u_def upd_frame_def)
    have "rm_ext s s'"
      by (rule rm_ext_fresh[OF inv I' i(1,2) fld(2-4)])
         (use db e(3,4) i(3) in \<open>auto simp: fld(1,5) L fr Lu ru'\<close>)
    then show ?thesis using rset_add_length[of h f u] by (simp add: fld(1) e(1) ru')
  qed
qed

section \<open>Loading one segment\<close>

lemma zero_tail_take:
  assumes "length b \<le> a" and "take (length b) d = b"
  shows "take (length b) (zero_tail a c d) = b"
proof -
  have "length b \<le> length d" using assms(2) by (metis length_take min.cobounded1)
  then show ?thesis using assms by (simp add: zero_tail_def splice_def min_def)
qed

text \<open>Clearing the tail of a shared frame leaves the object it holds alone.\<close>

lemma tail_shared:
  fixes c :: nat
  assumes inv: "res_inv H s" and h: "length h = 32" and sv: "serves h f s"
    and b: "store_map (rm_store s) h = Some b" "length b \<le> a"
  defines "s2 \<equiv> s\<lparr>fdata := (fdata s)(f := zero_tail a c (fdata s f))\<rparr>"
  shows "res_inv H s2" and "rm_ext s s2" and "serves h f s2"
proof -
  obtain e where e: "e \<in> live_ents s" "ent_hash s e = h" "ent_frame s e = f" by (rule servesD[OF inv h sv])
  have uniq: "ent_hash s e' = h" if "e' \<in> live_ents s" "ent_frame s e' = f" for e'
  proof -
    have "e' = e" using inv that e(1,3) by (auto simp: res_inv_def inj_on_def)
    then show ?thesis using e(2) by simp
  qed
  have fld: "rset s2 = rset s" "framedb s2 = framedb s" "fdb_n s2 = fdb_n s" "rm_store s2 = rm_store s" "fr_idx s2 = fr_idx s"
    "fr_phys s2 = fr_phys s" "live_ents s2 = live_ents s" "fdb_wf s2 = fdb_wf s" "\<And>x. rset_find x s2 = rset_find x s"
    by (simp_all add: s2_def fr_idx_def fr_phys_def fun_eq_iff live_ents_def fdb_wf_def rset_find_def)
  have dt: "fdata s2 g = (if g = f then zero_tail a c (fdata s f) else fdata s g)" for g by (simp add: s2_def)
  have holds: "frame_holds s2 g x" if "frame_holds s g x" "g = f \<Longrightarrow> x = h" for g x
    using that b zero_tail_take[OF b(2)] by (auto simp: frame_holds_def fld dt)
  show "res_inv H s2"
  proof -
    have "ent_ok s2 e'" if "e' \<in> live_ents s" for e'
      using inv that holds uniq[OF that] by (auto simp: res_inv_def ent_ok_def fld)
    then show ?thesis using inv by (simp add: res_inv_def fld)
  qed
  have keep: "serves x g s2" if x: "length x = 32" and sx: "serves x g s" for x g
  proof -
    obtain e' where e': "e' \<in> live_ents s" "ent_hash s e' = x" "ent_frame s e' = g" by (rule servesD[OF inv x sx])
    then show ?thesis using sx holds[of g x] uniq[OF e'(1)] by (auto simp: serves_def fld)
  qed
  then show "serves h f s2" using h sv by blast
  have "f \<in> ent_frame s ` live_ents s" using e(1,3) by blast
  then show "rm_ext s s2" using keep by (auto simp: rm_ext_def fld dt frame_used_def)
qed

text \<open>What a segment's frame is once it is loaded.\<close>

definition seg_loaded :: "u64 \<Rightarrow> ld_phdr \<times> bytes \<Rightarrow> u64 \<Rightarrow> rmgr \<times> pmem \<Rightarrow> bool" where
  "seg_loaded space sh f st \<longleftrightarrow>
     (case (sh, st) of ((s, h), rm, pm) \<Rightarrow>
        \<not> (seg_w s \<and> seg_x s) \<and> f \<noteq> 0 \<and>
        mm_resolve space (ph_vaddr s) pm = f OR (ph_vaddr s AND 0xfff) \<and>
        (if seg_w s
         then f \<notin> ent_frame rm ` live_ents rm \<and>
              (\<exists>b. store_map (rm_store rm) h = Some b \<and> take (length b) (fdata rm f) = b)
         else serves h f rm))"

text \<open>The frame of a writable segment before the tail is cleared.\<close>

lemma ld_frame_w:
  assumes H: "hash_fn H" and inv: "res_inv H rm" and h: "length h = 32"
    and b: "store_map (rm_store rm) h = Some b" and r: "ld_frame H True h rm = (f, rm1)" and f: "f \<noteq> 0"
    and n: "length b \<le> a"
  obtains i where "i < fdb_n rm" "fr_state (framedb rm ! i) = FR_FREE" "f = fr_phys rm i"
    "res_inv H (rm1\<lparr>fdata := (fdata rm1)(f := zero_tail a c (fdata rm1 f))\<rparr>)"
    "rm_ext rm (rm1\<lparr>fdata := (fdata rm1)(f := zero_tail a c (fdata rm1 f))\<rparr>)"
    "f \<notin> ent_frame rm1 ` live_ents rm1" "take (length b) (zero_tail a c (fdata rm1 f)) = b" "rset rm1 = rset rm"
    "frame_used (rm1\<lparr>fdata := (fdata rm1)(f := zero_tail a c (fdata rm1 f))\<rparr>) f"
proof -
  have Hb: "H b = h" using hash_fn.store_map_hash[OF H _ h b] inv by (simp add: res_inv_def)
  obtain g r1 where g: "frame_reserve rm = (g, r1)" by fastforce
  have gf: "g = f" "rm1 = r1\<lparr>fdata := (fdata r1)(f := splice 0 b (fdata r1 f))\<rparr>"
    using r f g b Hb h by (auto simp: ld_frame_def store_get_map cvsasx_hash_eq_iff split: if_splits)
  obtain i where i: "i < fdb_n rm" "fr_state (framedb rm ! i) = FR_FREE" "f = fr_phys rm i" "res_inv H r1"
    "frame_used r1 f" "f \<notin> ent_frame r1 ` live_ents r1" "rset r1 = rset rm" "rm_store r1 = rm_store rm"
    "fdata r1 = fdata rm" "fdb_base r1 = fdb_base rm" "fdb_n r1 = fdb_n rm"
    "\<And>k. k < length (framedb rm) \<Longrightarrow> k \<noteq> i \<Longrightarrow> framedb r1 ! k = framedb rm ! k"
    using reserve_ext[OF inv g f[folded gf(1)]] gf(1) by metis
  let ?d = "zero_tail a c (fdata rm1 f)"
  let ?r = "rm1\<lparr>fdata := (fdata rm1)(f := ?d)\<rparr>"
  have eq: "?r = r1\<lparr>fdata := (fdata r1)(f := ?d)\<rparr>" by (simp add: gf(2))
  have inv2: "res_inv H ?r" unfolding eq using i(4,6) by (rule res_inv_fdata)
  have L: "live_ents ?r = live_ents rm" "live_ents rm1 = live_ents rm" "live_ents r1 = live_ents rm"
    by (simp_all add: live_ents_def gf(2) i(7))
  have ext: "rm_ext rm ?r"
    unfolding eq by (rule rm_ext_fresh[OF inv inv2[unfolded eq] i(1,2)]) (use i in \<open>simp_all add: live_ents_def\<close>)
  have t: "take (length b) ?d = b"
    by (rule zero_tail_take[OF n]) (simp add: gf(2) splice_start)
  have "frame_used ?r f" using i(5) by (simp add: eq frame_used_def fr_phys_def)
  then show ?thesis
    using that[OF i(1-3) inv2 ext _ t] i(6,7) L by (simp add: gf(2))
qed

lemma ld_segment_step:
  assumes H: "hash_fn H" and inv: "res_inv H rm" and pt: "boot_pool U F pm" "pt_wf R space F pm"
    and va: "va_idx (ph_vaddr s) 39 \<in> R" and h: "length h = 32"
    and b: "store_map (rm_store rm) h = Some b" "length b = unat (ph_filesz s)"
    and room: "length (rset rm) < RSET_MAX"
    and ld: "ld_segment H space s h (rm, pm) = (Some f, rm', pm')"
  shows "res_inv H rm'" and "\<exists>F'. boot_pool U F' pm' \<and> pt_wf R space F' pm'" and "rm_ext rm rm'"
    and "length (rset rm') \<le> Suc (length (rset rm))" and "seg_loaded space (s, h) f (rm', pm')" and "frame_used rm' f"
    and "only_page R space (ph_vaddr s) pm pm'"
    and "seg_w s \<Longrightarrow> \<exists>i < fdb_n rm. f = fr_phys rm i \<and> fr_state (framedb rm ! i) = FR_FREE"
proof -
  let ?a = "unat (ph_filesz s)" and ?c = "unat (ph_memsz s)"
  obtain frame rm1 where fr: "ld_frame H (seg_w s) h rm = (frame, rm1)" by fastforce
  define rm2 where "rm2 = rm1\<lparr>fdata := (fdata rm1)(frame := zero_tail ?a ?c (fdata rm1 frame))\<rparr>"
  let ?fl = "MM_USER OR (if seg_w s then MM_WRITE else 0)"
  obtain ok pm1 where m: "mm_map space (ph_vaddr s) frame ?fl pm = (ok, pm1)" by fastforce
  have wx: "\<not> (seg_w s \<and> seg_x s)" and nz: "frame \<noteq> 0"
    using ld fr by (auto simp: ld_segment_def split: if_splits)
  have res: "ok" "f = frame" "rm' = rm2" "pm' = pm1"
    using ld fr wx nz m by (auto simp: ld_segment_def rm2_def Let_def split: if_splits)
  have W: "res_inv H rm2 \<and> rm_ext rm rm2 \<and> length (rset rm2) \<le> Suc (length (rset rm)) \<and> frame_used rm2 frame \<and>
     (if seg_w s
      then frame \<notin> ent_frame rm2 ` live_ents rm2 \<and> take (length b) (fdata rm2 frame) = b \<and>
           (\<exists>i < fdb_n rm. frame = fr_phys rm i \<and> fr_state (framedb rm ! i) = FR_FREE)
      else serves h frame rm2)"
  proof (cases "seg_w s")
    case True
    obtain i where "i < fdb_n rm" "fr_state (framedb rm ! i) = FR_FREE" "frame = fr_phys rm i" "res_inv H rm2" "rm_ext rm rm2"
      "frame \<notin> ent_frame rm1 ` live_ents rm1" "take (length b) (zero_tail ?a ?c (fdata rm1 frame)) = b" "rset rm1 = rset rm"
      "frame_used rm2 frame"
      using ld_frame_w[OF H inv h b(1) fr[unfolded True[THEN eqTrueI]] nz, of ?a ?c] b(2) unfolding rm2_def
      by (metis order_refl)
    then show ?thesis using True by (auto simp: rm2_def live_ents_def)
  next
    case False
    have m: "rm_materialize H h rm = (frame, rm1)" using fr False by (simp add: ld_frame_def)
    have rr: "rset_room rm" using room by (simp add: rset_room_def)
    note S = materialize_serves[OF H inv h rr m] and G = materialize_grows[OF H inv h rr m nz]
    have sv: "serves h frame rm1" using S(2)[OF nz] by blast
    have st: "rm_store rm1 = rm_store rm" using G by (simp add: rm_ext_def)
    have b1: "store_map (rm_store rm1) h = Some b" using b(1) st by simp
    note T = tail_shared[OF S(1) h sv b1, of ?a ?c, folded rm2_def]
    have "frame_used rm2 frame" using serves_used[OF T(1) h T(3)] b(2) by simp
    moreover have "rset rm2 = rset rm1" by (simp add: rm2_def)
    ultimately show ?thesis using T b(2) False G rm_ext_trans by auto
  qed
  have al: "frame AND NOT 0xfff = frame"
    using W fr_phys_aligned[of rm2] by (auto simp: frame_used_def res_inv_def)
  have fl: "?fl AND NOT 0xfff = 0" by (simp add: MM_USER_def MM_WRITE_def)
  note M = mm_map_effect[OF pt va fl m]
  have st: "rm_store rm2 = rm_store rm" using W by (simp add: rm_ext_def)
  show "res_inv H rm'" "rm_ext rm rm'" "length (rset rm') \<le> Suc (length (rset rm))" "frame_used rm' f"
    using W by (simp_all add: res)
  show "\<exists>F'. boot_pool U F' pm' \<and> pt_wf R space F' pm'" using M by (simp add: res)
  show "only_page R space (ph_vaddr s) pm pm'" using M res(1) by (simp add: only_page_def res)
  have "mm_resolve space (ph_vaddr s) pm1 = frame OR (ph_vaddr s AND 0xfff)" using M res(1) al by simp
  then show "seg_loaded space (s, h) f (rm', pm')"
    using W wx nz b(1) st by (simp add: seg_loaded_def res)
  show "seg_w s \<Longrightarrow> \<exists>i < fdb_n rm. f = fr_phys rm i \<and> fr_state (framedb rm ! i) = FR_FREE"
    using W by (simp add: res)
qed

section \<open>Loading all segments\<close>

definition seg_ready :: "nat set \<Rightarrow> cvsasx_store \<Rightarrow> ld_phdr \<times> bytes \<Rightarrow> bool" where
  "seg_ready R st sh \<longleftrightarrow>
     va_idx (ph_vaddr (fst sh)) 39 \<in> R \<and> length (snd sh) = 32 \<and>
     (\<exists>b. store_map st (snd sh) = Some b \<and> length b = unat (ph_filesz (fst sh)))"

abbreviation seg_page :: "ld_phdr \<times> bytes \<Rightarrow> u64" where "seg_page sh \<equiv> ph_vaddr (fst sh)"

lemma seg_loaded_mono:
  assumes "seg_loaded space sh f (rm, pm)" and "rm_ext rm rm'" and "frame_used rm f" and "length (snd sh) = 32"
    and "mm_resolve space (seg_page sh) pm' = mm_resolve space (seg_page sh) pm"
  shows "seg_loaded space sh f (rm', pm')"
  using assms by (cases sh) (auto simp: seg_loaded_def rm_ext_def split: if_splits)

lemma seg_loaded_distinct:
  assumes inv: "res_inv H rm" and a: "seg_loaded space x f (rm, pm)" and b: "seg_loaded space y g (rm, pm)"
    and w: "seg_w (fst x)" "\<not> seg_w (fst y)" and h: "length (snd y) = 32"
  shows "f \<noteq> g"
proof -
  have "serves (snd y) g rm" "f \<notin> ent_frame rm ` live_ents rm" using a b w by (auto simp: seg_loaded_def split: prod.splits)
  then show ?thesis using serves_used[OF inv h] by blast
qed

lemma nth_Cons_split: "(\<forall>i < Suc n. P i) \<longleftrightarrow> P 0 \<and> (\<forall>i < n. P (Suc i))"
  using less_Suc_eq_0_disj by auto

definition segs_done :: "u64 \<Rightarrow> rmgr \<Rightarrow> (ld_phdr \<times> bytes) list \<Rightarrow> u64 list \<Rightarrow> rmgr \<times> pmem \<Rightarrow> bool" where
  "segs_done space rm segs fs st \<longleftrightarrow>
     length fs = length segs \<and>
     (\<forall>i < length segs. seg_loaded space (segs ! i) (fs ! i) st \<and> frame_used (fst st) (fs ! i) \<and>
        (seg_w (fst (segs ! i)) \<longrightarrow> \<not> frame_used rm (fs ! i))) \<and>
     (\<forall>i j. i < j \<longrightarrow> j < length segs \<longrightarrow> seg_w (fst (segs ! i)) \<or> seg_w (fst (segs ! j)) \<longrightarrow> fs ! i \<noteq> fs ! j)"

lemma segs_done_Cons:
  assumes inv: "res_inv H (fst st)" and a: "seg_loaded space x f st" "frame_used (fst st) f" "frame_used rm1 f"
    "seg_w (fst x) \<Longrightarrow> \<not> frame_used rm f" and ext: "\<And>g. frame_used rm g \<Longrightarrow> frame_used rm1 g"
    and d: "segs_done space rm1 xs fs st" and h: "\<forall>y \<in> set xs. length (snd y) = 32"
  shows "segs_done space rm (x # xs) (f # fs) st"
proof -
  obtain rm' pm' where st: "st = (rm', pm')" by fastforce
  have len: "length fs = length xs" using d by (simp add: segs_done_def)
  have one: "seg_loaded space (xs ! i) (fs ! i) st \<and> frame_used (fst st) (fs ! i) \<and>
      (seg_w (fst (xs ! i)) \<longrightarrow> \<not> frame_used rm1 (fs ! i))" if "i < length xs" for i
    using d that by (simp add: segs_done_def)
  have "f \<noteq> fs ! i" if i: "i < length xs" and w: "seg_w (fst x) \<or> seg_w (fst (xs ! i))" for i
  proof (cases "seg_w (fst (xs ! i))")
    case True
    then show ?thesis using one[OF i] a(3) by auto
  next
    case False
    then show ?thesis
      using seg_loaded_distinct[OF inv[unfolded st fst_conv] a(1)[unfolded st] _ _ False] one[OF i] w h i st by auto
  qed
  then have "\<forall>i j. i < j \<longrightarrow> j < Suc (length xs) \<longrightarrow>
      seg_w (fst ((x # xs) ! i)) \<or> seg_w (fst ((x # xs) ! j)) \<longrightarrow> (f # fs) ! i \<noteq> (f # fs) ! j"
    using d by (auto simp: segs_done_def nth_Cons' split: if_splits)
  moreover have "\<forall>i < Suc (length xs). seg_loaded space ((x # xs) ! i) ((f # fs) ! i) st \<and> frame_used (fst st) ((f # fs) ! i) \<and>
      (seg_w (fst ((x # xs) ! i)) \<longrightarrow> \<not> frame_used rm ((f # fs) ! i))"
    unfolding nth_Cons_split using a(1,2,4) one ext by auto
  ultimately show ?thesis by (simp add: segs_done_def len)
qed

lemma ld_segs_loaded:
  assumes H: "hash_fn H"
  shows "\<lbrakk>res_inv H rm; boot_pool U F pm; pt_wf R space F pm; \<forall>sh \<in> set segs. seg_ready R (rm_store rm) sh;
      sorted_wrt (\<lambda>x y. \<not> same_page (seg_page y) (seg_page x)) segs; length (rset rm) + length segs \<le> RSET_MAX;
      ld_segs H space segs (rm, pm) = (Some fs, rm', pm')\<rbrakk> \<Longrightarrow>
    res_inv H rm' \<and> (\<exists>F'. boot_pool U F' pm' \<and> pt_wf R space F' pm') \<and> rm_ext rm rm' \<and> segs_done space rm segs fs (rm', pm') \<and>
    (\<forall>va. va_idx va 39 \<in> R \<longrightarrow> (\<forall>x \<in> set segs. \<not> same_page (seg_page x) va) \<longrightarrow> mm_resolve space va pm' = mm_resolve space va pm)"
proof (induction segs arbitrary: rm pm F fs)
  case Nil
  then show ?case by (auto simp: segs_done_def rm_ext_refl)
next
  case (Cons x segs)
  obtain s h where x: "x = (s, h)" by fastforce
  obtain f rm1 pm1 fs1 where 1: "ld_segment H space s h (rm, pm) = (Some f, rm1, pm1)"
    and 2: "ld_segs H space segs (rm1, pm1) = (Some fs1, rm', pm')" and fs: "fs = f # fs1"
    using Cons.prems(7) by (auto simp: x split: prod.splits option.splits)
  from Cons.prems(4) x obtain b where rd: "va_idx (ph_vaddr s) 39 \<in> R" "length h = 32"
    "store_map (rm_store rm) h = Some b" "length b = unat (ph_filesz s)"
    by (auto simp: seg_ready_def)
  have room: "length (rset rm) < RSET_MAX" using Cons.prems(6) by simp
  note S = ld_segment_step[OF H Cons.prems(1-3) rd room 1]
  obtain F1 where F1: "boot_pool U F1 pm1" "pt_wf R space F1 pm1" using S(2) by blast
  have st: "rm_store rm1 = rm_store rm" using S(3) by (simp add: rm_ext_def)
  have rdy: "\<forall>sh \<in> set segs. seg_ready R (rm_store rm1) sh" "length (rset rm1) + length segs \<le> RSET_MAX"
    "sorted_wrt (\<lambda>x y. \<not> same_page (seg_page y) (seg_page x)) segs"
    using Cons.prems(4,5,6) S(4) st by simp_all
  note I = Cons.IH[OF S(1) F1 rdy(1,3,2) 2]
  have pg: "mm_resolve space (seg_page x) pm' = mm_resolve space (seg_page x) pm1"
    using I Cons.prems(5) rd(1) x by simp
  have ext: "rm_ext rm1 rm'" and inv': "res_inv H rm'" using I by blast+
  have l: "seg_loaded space x f (rm', pm')"
    by (rule seg_loaded_mono[OF _ ext S(6) _ pg]) (use S(5) rd(2) x in simp_all)
  have u: "frame_used rm' f" using ext S(6) by (simp add: rm_ext_def)
  have wf: "fdb_wf rm" using Cons.prems(1) by (simp add: res_inv_def)
  have fresh: "\<not> frame_used rm f" if "seg_w (fst x)" using S(8) used_ne_free[OF wf] that x by auto
  have "segs_done space rm (x # segs) (f # fs1) (rm', pm')"
    by (rule segs_done_Cons[OF _ l _ S(6) fresh]) (use inv' u I S(3) Cons.prems(4) in \<open>auto simp: rm_ext_def seg_ready_def\<close>)
  moreover have "mm_resolve space va pm' = mm_resolve space va pm"
    if "va_idx va 39 \<in> R" "\<forall>y \<in> set (x # segs). \<not> same_page (seg_page y) va" for va
    using I that S(7) x by (simp add: only_page_def)
  ultimately show ?case using I rm_ext_trans[OF S(3)] fs by blast
qed

section \<open>Properties\<close>

text \<open> C37: the ELF parser is safe on every image.  Whatever the bytes of the image, no read leaves it;
  an accepted image yields at most the requested number of loadable segments, each of which lies in
  the image over the naturals (no wrap-around) and fits one page with its zero tail. \<close>
theorem elf_parse_safe:
  "elf_parse img maxp \<noteq> ElfOob \<and>
   (\<forall>entry segs. elf_parse img maxp = ElfOk (entry, segs) \<longrightarrow> length segs \<le> maxp \<and> (\<forall>s \<in> set segs. seg_ok img s))"
  by (rule elf_parse_ok)

text \<open>An image with one executable segment of three bytes behind the headers.\<close>

definition ex_elf :: bytes where
  "ex_elf = [0x7f, 0x45, 0x4c, 0x46, 2, 1] @ replicate 10 0 @ [2, 0, 62, 0, 0, 0, 0, 0] @
     [0, 0, 0, 0x40, 0, 0, 0, 0] @ [64, 0, 0, 0, 0, 0, 0, 0] @ replicate 14 0 @ [56, 0, 1, 0] @ replicate 6 0 @
     [1, 0, 0, 0, 5, 0, 0, 0] @ [120, 0, 0, 0, 0, 0, 0, 0] @ [0, 0, 0, 0x40, 0, 0, 0, 0] @ replicate 8 0 @
     [3, 0, 0, 0, 0, 0, 0, 0] @ [16, 0, 0, 0, 0, 0, 0, 0] @ replicate 8 0 @ [1, 2, 3]"

definition ex_code :: ld_phdr where
  "ex_code = \<lparr>ph_type = 1, ph_flags = 5, ph_off = 120, ph_vaddr = 0x40000000, ph_filesz = 3, ph_memsz = 16\<rparr>"

lemma ex_elf_parse: "elf_parse ex_elf LD_MAXSEG = ElfOk (0x40000000, [ex_code])"
  by code_simp

theorem elf_parse_safe_witness: "seg_ok ex_elf ex_code"
  using elf_parse_safe[of ex_elf LD_MAXSEG] ex_elf_parse by simp


text \<open>A pool of three frames; the object is loaded as a data segment.\<close>

definition ex_rm3 :: rmgr where
  "ex_rm3 = ex_rm\<lparr>framedb := [fresh_rec, fresh_rec, fresh_rec], fdb_base := 0x100000, fdb_n := 3, fdb_free := [0, 1, 2]\<rparr>"

definition ex_segs :: "(ld_phdr \<times> bytes) list" where
  "ex_segs = [(ex_code\<lparr>ph_flags := 6\<rparr>, pad_hash [1, 2, 3])]"

lemma ex_rm3_inv: "res_inv pad_hash ex_rm3"
proof -
  have "fdb_wf ex_rm3"
    by (auto simp: fdb_wf_def ex_rm3_def aligned_def fresh_rec_def less_Suc_eq numeral_3_eq_3)
  moreover have "store_inv pad_hash (rm_store ex_rm3)" using ex_rm_inv by (simp add: res_inv_def ex_rm3_def)
  moreover have "rset ex_rm3 = []" by (simp add: ex_rm3_def ex_rm_def)
  ultimately show ?thesis by (simp add: res_inv_def live_ents_def)
qed

lemma ex_load: "fst (ld_materialize pad_hash 0x1000 ex_segs (ex_rm3, ex_pm)) \<noteq> None"
  by code_simp

lemma ex_segs_page:
  "va_idx 0x40000000 39 = 0" "va_idx 0x60000000 39 = 0" "va_idx LD_STACK_VA 39 = 0"
  "\<not> same_page LD_STACK_VA 0x40000000" "\<not> same_page 0x40000000 LD_STACK_VA"
  "\<not> same_page LD_STACK_VA 0x60000000" "\<not> same_page 0x40000000 0x60000000"
  "store_get (rm_store ex_rm3) (pad_hash [1, 2, 3]) = (CVSASX_STORE_OK, Some [1, 2, 3])"
  by code_simp+


text \<open>The parser accepts a segment that would be mapped over the kernel's half of the address space.\<close>

lemma elf_parse_kernel_address:
  "elf_parse (ex_elf[83 := 0, 86 := 0xff, 87 := 0xff]) LD_MAXSEG =
     ElfOk (0x40000000, [ex_code\<lparr>ph_vaddr := 0xffff000000000000\<rparr>])"
  by code_simp

end
