(* ===== verification/Userland.thy ===== *)
theory Userland
  imports PageFault DurableLog
begin

text \<open>
  The capability userland of \<^verbatim>\<open>kernel/kernel.c\<close>: the syscall dispatcher with its five gated
  calls over a capability space of eight slots (US, U-0), bounded spawn, revocation and
  capability-carrying messages (U-1), and the user heap (U-2).  User memory is a
  function from addresses to bytes, because the kernel dereferences the pointers it is given
  as they are; the console is the list of the bytes written to it.  The
  trap stub, the ring-3 programs and the demonstrations are not modelled.
\<close>

section \<open>Capability space\<close>

datatype u0_type = CAP_NONE | CAP_CONSOLE | CAP_POOL | CAP_SREAD | CAP_SWRITE

record u0_cap =
  uc_type :: u0_type
  uc_pir :: cvsasx_pir
  uc_aux :: u64

definition U0_NSLOT :: nat where "U0_NSLOT = 8"
definition U0_POOLSZ :: u64 where "U0_POOLSZ = 4096"
definition U0_EAMPL :: int where "U0_EAMPL = - 2"
definition U0_EQUOTA :: int where "U0_EQUOTA = - 3"
definition U0_ENOENT :: int where "U0_ENOENT = - 4"

definition SYS_WRITE :: u64 where "SYS_WRITE = 1"
definition SYS_GETTIME :: u64 where "SYS_GETTIME = 2"
definition SYS_ADD :: u64 where "SYS_ADD = 3"
definition SYS_READOBJ :: u64 where "SYS_READOBJ = 4"
definition SYS_U_CONSOLE :: u64 where "SYS_U_CONSOLE = 16"
definition SYS_U_ACQUIRE :: u64 where "SYS_U_ACQUIRE = 17"
definition SYS_U_READ :: u64 where "SYS_U_READ = 18"
definition SYS_U_WRITE :: u64 where "SYS_U_WRITE = 19"

record us =
  u_cspace :: "u0_cap list"
  u_store :: cvsasx_store
  u_pool_cust :: cvsasx_sw_custodian
  u_pool_region :: cvsasx_sw_region
  u_poolH :: bytes
  u_pool_uva :: u64
  u_page_bump :: u64
  u_last_hash :: bytes
  u_last_rslot :: int
  u_console :: bytes
  u_mem :: "u64 \<Rightarrow> u8"
  us_obj :: bytes
  us_obj_addr :: u64
  us_cust :: cvsasx_sw_custodian
  us_region :: cvsasx_sw_region
  us_user_pir :: cvsasx_pir
  u_probe_landed :: u64
  u_ticks :: u64

definition conc_make_pir :: "bytes \<Rightarrow> u64 \<Rightarrow> u64 \<Rightarrow> u32 \<Rightarrow> cvsasx_pir" where
  "conc_make_pir h off len perms =
     cvsasx_pir_zero\<lparr>referent_hash := h, pir_offset := off, pir_length := len,
       struct_version := CVSASX_PIR_VERSION, pir_perms := perms, pir_flags := CVSASX_PIR_FLAG_REFERENT_VALID\<rparr>"

text \<open>The honest presentation of the guarded object whose hash is \<open>objH\<close>.\<close>

definition us_make_legit_pir :: "bytes \<Rightarrow> u64 \<Rightarrow> u64 \<Rightarrow> u32 \<Rightarrow> cvsasx_pir" where
  "us_make_legit_pir objH off len perms =
     cvsasx_pir_zero\<lparr>referent_hash := objH, pir_offset := off, pir_length := len,
       struct_version := CVSASX_PIR_VERSION, pir_perms := perms, pir_flags := CVSASX_PIR_FLAG_REFERENT_VALID\<rparr>"

definition u0_holds :: "int \<Rightarrow> u0_type \<Rightarrow> us \<Rightarrow> bool" where
  "u0_holds slot ty s \<longleftrightarrow> 0 \<le> slot \<and> slot < int U0_NSLOT \<and> uc_type (u_cspace s ! nat slot) = ty"

definition rd_user :: "u64 \<Rightarrow> u64 \<Rightarrow> us \<Rightarrow> bytes" where
  "rd_user a n s = map (\<lambda>i. u_mem s (a + word_of_nat i)) [0..<unat n]"

definition wr_user :: "u64 \<Rightarrow> bytes \<Rightarrow> us \<Rightarrow> us" where
  "wr_user a bs s =
     s\<lparr>u_mem := (\<lambda>x. if unat (x - a) < length bs then bs ! unat (x - a) else u_mem s x)\<rparr>"

section \<open>The gated calls\<close>

definition u0_install_read_cap :: "bytes \<Rightarrow> u64 \<Rightarrow> us \<Rightarrow> int \<times> us" where
  "u0_install_read_cap h len s =
     (case List.find (\<lambda>i. uc_type (u_cspace s ! i) = CAP_NONE) [0..<U0_NSLOT] of
        None \<Rightarrow> (U0_EFAULT, s)
      | Some i \<Rightarrow>
          (int i, s\<lparr>u_cspace := (u_cspace s)[i := (u_cspace s ! i)\<lparr>uc_type := CAP_SREAD,
                      uc_pir := conc_make_pir h 0 len CVSASX_PERM_LOAD\<rparr>]\<rparr>))"

definition u0_console_write :: "int \<Rightarrow> bytes \<Rightarrow> us \<Rightarrow> int \<times> us" where
  "u0_console_write slot bs s =
     (if \<not> u0_holds slot CAP_CONSOLE s then (U0_EFAULT, s)
      else (int (length bs), s\<lparr>u_console := u_console s @ bs\<rparr>))"

definition u0_mem_acquire :: "int \<Rightarrow> u64 \<Rightarrow> us \<Rightarrow> int \<times> us" where
  "u0_mem_acquire slot sz s =
     (if \<not> u0_holds slot CAP_POOL s then (U0_EFAULT, s)
      else
        (case cvsasx_sw_cap_remint (Some (u_pool_cust s))
                (Some (conc_make_pir (u_poolH s) 0 sz (CVSASX_PERM_LOAD OR CVSASX_PERM_STORE)))
                (Some (u_pool_region s)) (Some null_swcap) of
           (st, cap) \<Rightarrow>
             (if st \<noteq> CVSASX_OK \<or> (case cap of None \<Rightarrow> True | Some c \<Rightarrow> sc_valid c = 0) then (U0_EAMPL, s)
              else if u_page_bump s + sz > U0_POOLSZ then (U0_EAMPL, s)
              else (sint (u_pool_uva s + u_page_bump s), s\<lparr>u_page_bump := u_page_bump s + sz\<rparr>))))"

definition u0_store_read :: "int \<Rightarrow> u64 \<Rightarrow> u64 \<Rightarrow> us \<Rightarrow> int \<times> us" where
  "u0_store_read slot dst maxlen s =
     (if \<not> u0_holds slot CAP_SREAD s then (U0_EFAULT, s)
      else
        (case store_get (u_store s) (referent_hash (uc_pir (u_cspace s ! nat slot))) of
           (CVSASX_STORE_OK, Some b) \<Rightarrow> (int (length b), wr_user dst (take (unat maxlen) b) s)
         | _ \<Rightarrow> (U0_ENOENT, s)))"

definition u0_store_write :: "(bytes \<Rightarrow> bytes) \<Rightarrow> int \<Rightarrow> bytes \<Rightarrow> us \<Rightarrow> int \<times> int option \<times> us" where
  "u0_store_write H slot src s =
     (if \<not> u0_holds slot CAP_SWRITE s then (U0_EFAULT, None, s)
      else if length src > unat (uc_aux (u_cspace s ! nat slot)) then (U0_EQUOTA, None, s)
      else
        (case store_put H (u_store s) src of
           (CVSASX_STORE_OK, st, Some h) \<Rightarrow>
             (case u0_install_read_cap h (word_of_nat (length src)) (s\<lparr>u_store := st, u_last_hash := h\<rparr>) of
                (rs, s1) \<Rightarrow> (int (length src), Some rs, s1))
         | (_, st, _) \<Rightarrow> (U0_EFAULT, None, s\<lparr>u_store := st\<rparr>)))"

section \<open>The dispatcher\<close>

primrec status_code :: "cvsasx_status \<Rightarrow> u32" where
  "status_code CVSASX_OK = 0"
| "status_code CVSASX_ERR_NULL_ARG = 1"
| "status_code CVSASX_ERR_VERSION = 2"
| "status_code CVSASX_ERR_UNTAGGED = 3"
| "status_code CVSASX_ERR_REFERENT_RANGE = 4"
| "status_code CVSASX_WARN_SEALED_OUT_OF_SCOPE = 5"
| "status_code CVSASX_ERR_BAD_ROOT = 6"
| "status_code CVSASX_ERR_BAD_REGION = 7"
| "status_code CVSASX_ERR_REFERENT_MISMATCH = 8"
| "status_code CVSASX_ERR_BAD_BOUNDS = 9"
| "status_code CVSASX_ERR_PERM_FORBIDDEN = 10"
| "status_code CVSASX_ERR_WX_VIOLATION = 11"
| "status_code CVSASX_ERR_AMPLIFY_PERMS = 12"
| "status_code CVSASX_ERR_SEALED_UNSUPPORTED = 13"
| "status_code CVSASX_ERR_DERIVE_UNTAGGED = 14"
| "status_code CVSASX_ERR_VERIFY_BASE = 15"
| "status_code CVSASX_ERR_VERIFY_LENGTH = 16"
| "status_code CVSASX_ERR_VERIFY_PERMS = 17"
| "status_code CVSASX_ERR_VERIFY_SEALED = 18"

definition us_remint_at_crossing :: "cvsasx_pir \<Rightarrow> us \<Rightarrow> cvsasx_status \<times> cvsasx_swcap option" where
  "us_remint_at_crossing carried s =
     cvsasx_sw_cap_remint (Some (us_cust s)) (Some carried) (Some (us_region s)) (Some null_swcap)"

text \<open>The guarded read; \<open>None\<close> is a read outside the guarded object.\<close>

definition us_readobj :: "u64 \<Rightarrow> us \<Rightarrow> u64 option" where
  "us_readobj a1 s =
     (case us_remint_at_crossing (us_user_pir s) s of
        (st, cap) \<Rightarrow>
          (if st \<noteq> CVSASX_OK \<or> (case cap of None \<Rightarrow> True | Some c \<Rightarrow> sc_valid c = 0)
           then Some (0xFFFFFFFF00000000 OR ucast (status_code st))
           else if \<not> cvsasx_swcap_check cap a1 1 CVSASX_PERM_LOAD then Some 0xEE
           else
             (let i = unat ((case cap of None \<Rightarrow> 0 | Some c \<Rightarrow> sc_base c) - us_obj_addr s + a1)
              in if i < length (us_obj s) then Some (ucast (us_obj s ! i)) else None)))"

text \<open>The slot number is the low 32 bits of the register, read as a signed integer.\<close>

definition slot_of :: "u64 \<Rightarrow> int" where "slot_of a = sint (ucast a :: 32 word)"

definition syscall_dispatch :: "(bytes \<Rightarrow> bytes) \<Rightarrow> u64 \<Rightarrow> u64 \<Rightarrow> u64 \<Rightarrow> u64 \<Rightarrow> us \<Rightarrow> u64 option \<times> us" where
  "syscall_dispatch H n a1 a2 r10 s =
     (if n = SYS_WRITE
        then (Some 0, (if a1 = 0x42 then s\<lparr>u_probe_landed := 0xB0B\<rparr> else s)\<lparr>u_console := u_console s @ [ucast a1]\<rparr>)
      else if n = SYS_GETTIME then (Some (u_ticks s), s)
      else if n = SYS_ADD then (Some (a1 + a2), s)
      else if n = SYS_READOBJ then (us_readobj a1 s, s)
      else if n = SYS_U_CONSOLE
        then (case u0_console_write (slot_of a1) (rd_user a2 r10 s) s of (r, s1) \<Rightarrow> (Some (word_of_int r), s1))
      else if n = SYS_U_ACQUIRE
        then (case u0_mem_acquire (slot_of a1) a2 s of (r, s1) \<Rightarrow> (Some (word_of_int r), s1))
      else if n = SYS_U_READ
        then (case u0_store_read (slot_of a1) a2 r10 s of (r, s1) \<Rightarrow> (Some (word_of_int r), s1))
      else if n = SYS_U_WRITE
        then (case u0_store_write H (slot_of a1) (rd_user a2 r10 s) s of
                (r, rs, s1) \<Rightarrow>
                  (Some (word_of_int r), (case rs of None \<Rightarrow> s1 | Some k \<Rightarrow> s1\<lparr>u_last_rslot := k\<rparr>)))
      else (Some (- 1), s))"

section \<open>Spawn, revocation, messages\<close>

record u1_ep =
  ep_has :: bool
  ep_data :: bytes
  ep_cap :: u0_cap
  ep_hascap :: bool

record u1 =
  u1_parent :: "u0_cap list"
  u1_child :: "u0_cap list"
  u1_deriv :: "(nat \<times> nat) list"
  u1_endp :: u1_ep

definition no_cap :: "u0_cap \<Rightarrow> u0_cap" where "no_cap c = c\<lparr>uc_type := CAP_NONE\<rparr>"

definition u1_held :: "int \<Rightarrow> u1 \<Rightarrow> bool" where
  "u1_held i s \<longleftrightarrow> 0 \<le> i \<and> i < int U0_NSLOT \<and> uc_type (u1_parent s ! nat i) \<noteq> CAP_NONE"

text \<open>One grant; \<open>None\<close> is a store past the derivation table.\<close>

definition u1_grant :: "int \<Rightarrow> u1 option \<Rightarrow> u1 option" where
  "u1_grant i os =
     (case os of
        None \<Rightarrow> None
      | Some s \<Rightarrow>
          (if length (u1_deriv s) \<ge> U0_NSLOT then None
           else Some (s\<lparr>u1_child := (u1_child s)[nat i := u1_parent s ! nat i],
                        u1_deriv := u1_deriv s @ [(nat i, nat i)]\<rparr>)))"

definition u1_spawn :: "int list \<Rightarrow> u1 \<Rightarrow> int \<times> u1 option" where
  "u1_spawn req s =
     (if list_ex (\<lambda>i. \<not> u1_held i s) req then (U0_EFAULT, Some s)
      else (0, fold u1_grant req (Some (s\<lparr>u1_child := map no_cap (u1_child s), u1_deriv := []\<rparr>))))"

definition u1_revoke :: "int \<Rightarrow> u1 \<Rightarrow> bool \<times> u1" where
  "u1_revoke pslot s =
     (list_ex (\<lambda>(p, c). int p = pslot) (u1_deriv s),
      s\<lparr>u1_child := fold (\<lambda>(p, c) cs. if int p = pslot then cs[c := no_cap (cs ! c)] else cs) (u1_deriv s) (u1_child s)\<rparr>)"

definition u1_cap_send :: "bytes \<Rightarrow> int \<Rightarrow> u1 \<Rightarrow> int \<times> u1" where
  "u1_cap_send d src_slot s =
     (if src_slot \<ge> 0 \<and> \<not> u1_held src_slot s then (U0_EFAULT, s)
      else
        (let ep = (if src_slot \<ge> 0
                   then (u1_endp s)\<lparr>ep_cap := u1_parent s ! nat src_slot, ep_hascap := True\<rparr>
                   else (u1_endp s)\<lparr>ep_hascap := False\<rparr>)
         in (int (length (take 32 d)), s\<lparr>u1_endp := ep\<lparr>ep_data := take 32 d, ep_has := True\<rparr>\<rparr>)))"

definition u1_cap_recv :: "nat \<Rightarrow> u1 \<Rightarrow> (bytes \<times> u0_cap option) option \<times> u1" where
  "u1_cap_recv mx s =
     (let ep = u1_endp s in
      if \<not> ep_has ep then (None, s)
      else (Some (take mx (ep_data ep), if ep_hascap ep then Some (ep_cap ep) else None),
            s\<lparr>u1_endp := ep\<lparr>ep_has := False\<rparr>\<rparr>))"

section \<open>The user heap\<close>

record u2 =
  u2_hbump :: u64
  u2_size :: "nat \<Rightarrow> u32"
  u2_flist :: "nat list"

definition U2_HEAP :: u64 where "U2_HEAP = 4096"

definition u2_round :: "u32 \<Rightarrow> u32" where "u2_round n = (n + 15) AND NOT 15"

text \<open>Unlinking the first free block that is large enough.\<close>

fun u2_unlink :: "u32 \<Rightarrow> (nat \<Rightarrow> u32) \<Rightarrow> nat list \<Rightarrow> (nat \<times> nat list) option" where
  "u2_unlink n sz [] = None"
| "u2_unlink n sz (b # bs) =
     (if sz b \<ge> n then Some (b, bs) else map_option (\<lambda>(c, cs). (c, b # cs)) (u2_unlink n sz bs))"

text \<open>Pointers are offsets into the heap array; \<open>None\<close> is the null pointer.\<close>

definition u2_malloc :: "u32 \<Rightarrow> u2 \<Rightarrow> nat option \<times> u2" where
  "u2_malloc n0 s =
     (let n = u2_round n0 in
      case u2_unlink n (u2_size s) (u2_flist s) of
        Some (b, bs) \<Rightarrow> (Some (b + 16), s\<lparr>u2_flist := bs\<rparr>)
      | None \<Rightarrow>
          (if u2_hbump s + 16 + ucast n > U2_HEAP then (None, s)
           else (let h = unat (u2_hbump s)
                 in (Some (h + 16), s\<lparr>u2_size := (u2_size s)(h := n), u2_hbump := u2_hbump s + ucast (16 + n)\<rparr>))))"

definition u2_free :: "nat option \<Rightarrow> u2 \<Rightarrow> u2" where
  "u2_free p s = (case p of None \<Rightarrow> s | Some p \<Rightarrow> s\<lparr>u2_flist := (p - 16) # u2_flist s\<rparr>)"

section \<open>Authority of a process\<close>

type_synonym call = "u64 \<times> u64 \<times> u64 \<times> u64"

primrec sys_run :: "(bytes \<Rightarrow> bytes) \<Rightarrow> call list \<Rightarrow> us \<Rightarrow> u64 option list \<times> us" where
  "sys_run H [] s = ([], s)"
| "sys_run H (c # cs) s =
     (case c of (n, a1, a2, r10) \<Rightarrow>
        (case syscall_dispatch H n a1 a2 r10 s of
           (r, s1) \<Rightarrow> (case sys_run H cs s1 of (rs, s2) \<Rightarrow> (r # rs, s2))))"

abbreviation cap_at :: "us \<Rightarrow> nat \<Rightarrow> u0_cap" where "cap_at s i \<equiv> u_cspace s ! i"

definition has_type :: "us \<Rightarrow> u0_type \<Rightarrow> bool" where
  "has_type s ty \<longleftrightarrow> (\<exists>i < U0_NSLOT. uc_type (cap_at s i) = ty)"

text \<open>
  What may become of the authority \<open>s\<close> of a process: held capabilities stay, and an empty slot
  may only gain a read capability for content within a write quota that \<open>s\<close> holds.
\<close>

definition slot_within :: "(bytes \<Rightarrow> bytes) \<Rightarrow> us \<Rightarrow> us \<Rightarrow> nat \<Rightarrow> bool" where
  "slot_within H s s' i \<longleftrightarrow>
     (if uc_type (cap_at s i) \<noteq> CAP_NONE then cap_at s' i = cap_at s i
      else uc_type (cap_at s' i) = CAP_NONE \<or>
           uc_type (cap_at s' i) = CAP_SREAD \<and>
           (\<exists>j < U0_NSLOT. \<exists>bs. uc_type (cap_at s j) = CAP_SWRITE \<and> length bs \<le> unat (uc_aux (cap_at s j)) \<and>
              referent_hash (uc_pir (cap_at s' i)) = H bs))"

definition within_authority :: "(bytes \<Rightarrow> bytes) \<Rightarrow> us \<Rightarrow> us \<Rightarrow> bool" where
  "within_authority H s s' \<longleftrightarrow>
     length (u_cspace s') = U0_NSLOT \<and>
     (\<forall>i < U0_NSLOT. slot_within H s s' i) \<and>
     (\<not> has_type s CAP_SWRITE \<longrightarrow> u_store s' = u_store s) \<and>
     (\<not> has_type s CAP_POOL \<longrightarrow> u_page_bump s' = u_page_bump s) \<and>
     u_pool_cust s' = u_pool_cust s \<and> u_pool_region s' = u_pool_region s \<and> us_user_pir s' = us_user_pir s \<and>
     us_cust s' = us_cust s \<and> us_region s' = us_region s \<and> us_obj s' = us_obj s \<and> us_obj_addr s' = us_obj_addr s"

lemma within_same:
  assumes "length (u_cspace s) = U0_NSLOT" and "u_cspace s' = u_cspace s" and "u_store s' = u_store s"
    and "u_page_bump s' = u_page_bump s \<or> has_type s CAP_POOL"
    and "u_pool_cust s' = u_pool_cust s" "u_pool_region s' = u_pool_region s" "us_user_pir s' = us_user_pir s"
    "us_cust s' = us_cust s" "us_region s' = us_region s" "us_obj s' = us_obj s" "us_obj_addr s' = us_obj_addr s"
  shows "within_authority H s s'"
  using assms by (auto simp: within_authority_def slot_within_def)

lemma holds_has: "u0_holds k ty s \<Longrightarrow> has_type s ty"
  by (auto simp: u0_holds_def has_type_def intro!: exI[of _ "nat k"])

lemma within_trans:
  assumes a: "within_authority H s t" and b: "within_authority H t u"
  shows "within_authority H s u"
proof -
  have st: "slot_within H s t i" "slot_within H t u i" if "i < U0_NSLOT" for i
    using a b that by (simp_all add: within_authority_def)
  have ty: "cap_at t i = cap_at s i" if "i < U0_NSLOT" "uc_type (cap_at t i) \<noteq> CAP_NONE" "uc_type (cap_at t i) \<noteq> CAP_SREAD" for i
    using st(1)[OF that(1)] that by (auto simp: slot_within_def split: if_splits)
  have has: "has_type s ty" if "has_type t ty" "ty \<noteq> CAP_NONE" "ty \<noteq> CAP_SREAD" for ty
    using that ty by (fastforce simp: has_type_def)
  have caps: "slot_within H s u i" if i: "i < U0_NSLOT" for i
  proof (cases "uc_type (cap_at t i) = CAP_NONE")
    case False
    then have "cap_at u i = cap_at t i" using st(2)[OF i] by (simp add: slot_within_def)
    then show ?thesis using st(1)[OF i] by (auto simp: slot_within_def split: if_splits)
  next
    case True
    then have n: "uc_type (cap_at s i) = CAP_NONE" using st(1)[OF i] by (auto simp: slot_within_def split: if_splits)
    consider "uc_type (cap_at u i) = CAP_NONE"
      | j bs where "uc_type (cap_at u i) = CAP_SREAD" "j < U0_NSLOT" "uc_type (cap_at t j) = CAP_SWRITE"
          "length bs \<le> unat (uc_aux (cap_at t j))" "referent_hash (uc_pir (cap_at u i)) = H bs"
      using st(2)[OF i] True by (auto simp: slot_within_def)
    then show ?thesis
    proof cases
      case 2
      then have "cap_at t j = cap_at s j" using ty by simp
      then show ?thesis using 2 n by (auto simp: slot_within_def)
    qed (use n in \<open>simp add: slot_within_def\<close>)
  qed
  show ?thesis using a b has[of CAP_SWRITE] has[of CAP_POOL] caps by (auto simp: within_authority_def)
qed

lemma install_within:
  assumes len: "length (u_cspace s) = U0_NSLOT" and w: "u0_holds k CAP_SWRITE s" "length bs \<le> unat (uc_aux (cap_at s (nat k)))"
    and t: "u_cspace t = u_cspace s" "u_page_bump t = u_page_bump s" "u_pool_cust t = u_pool_cust s"
    "u_pool_region t = u_pool_region s" "us_user_pir t = us_user_pir s" "us_cust t = us_cust s" "us_region t = us_region s"
    "us_obj t = us_obj s" "us_obj_addr t = us_obj_addr s"
    and i: "u0_install_read_cap (H bs) n t = (rs, s')"
  shows "within_authority H s s'"
proof -
  have sw: "has_type s CAP_SWRITE" using holds_has[OF w(1)] .
  have j: "\<exists>j < U0_NSLOT. \<exists>bs'. uc_type (cap_at s j) = CAP_SWRITE \<and> length bs' \<le> unat (uc_aux (cap_at s j)) \<and> H bs = H bs'"
    using w by (intro exI[of _ "nat k"]) (auto simp: u0_holds_def)
  show ?thesis
  proof (cases "List.find (\<lambda>i. uc_type (cap_at t i) = CAP_NONE) [0..<U0_NSLOT]")
    case None
    then have "s' = t" using i by (simp add: u0_install_read_cap_def)
    then show ?thesis using len sw t by (auto simp: within_authority_def slot_within_def)
  next
    case (Some m)
    then have m: "m < U0_NSLOT" "uc_type (cap_at s m) = CAP_NONE" using t(1) by (auto simp: find_Some_iff)
    have s': "s' = t\<lparr>u_cspace := (u_cspace t)[m := (cap_at t m)\<lparr>uc_type := CAP_SREAD, uc_pir := conc_make_pir (H bs) 0 n CVSASX_PERM_LOAD\<rparr>]\<rparr>"
      using i Some by (simp add: u0_install_read_cap_def)
    have caps: "cap_at s' i = (if i = m then (cap_at s m)\<lparr>uc_type := CAP_SREAD, uc_pir := conc_make_pir (H bs) 0 n CVSASX_PERM_LOAD\<rparr> else cap_at s i)"
      if "i < U0_NSLOT" for i using that len t(1) by (simp add: s')
    have "slot_within H s s' i" if "i < U0_NSLOT" for i
      using m j by (auto simp: slot_within_def caps[OF that] conc_make_pir_def)
    moreover have "length (u_cspace s') = U0_NSLOT" using len t(1) by (simp add: s')
    ultimately show ?thesis using sw t by (simp add: within_authority_def s')
  qed
qed

lemma store_write_within:
  assumes len: "length (u_cspace s) = U0_NSLOT" and w: "u0_store_write H k bs s = (r, rs, s')"
  shows "within_authority H s s'"
proof (cases "u0_holds k CAP_SWRITE s \<and> length bs \<le> unat (uc_aux (cap_at s (nat k)))")
  case False
  then have "s' = s" using w by (auto simp: u0_store_write_def split: if_splits)
  then show ?thesis using within_same[OF len] by simp
next
  case True
  obtain st1 st oh where p: "store_put H (u_store s) bs = (st1, st, oh)" by (metis prod_cases3)
  show ?thesis
  proof (cases "st1 = CVSASX_STORE_OK")
    case ok: True
    then have oh: "oh = Some (H bs)" using store_put_hash p by simp
    obtain rs' where "u0_install_read_cap (H bs) (word_of_nat (length bs)) (s\<lparr>u_store := st, u_last_hash := H bs\<rparr>) = (rs', s')"
      using w True p ok oh by (auto simp: u0_store_write_def split: prod.splits)
    then show ?thesis by (rule install_within[OF len conjunct1[OF True] conjunct2[OF True], rotated -1]) simp_all
  next
    case no: False
    then have "oh = None" using store_put_fail[OF p] by simp
    then have "s' = s\<lparr>u_store := st\<rparr>" using w True p no by (auto simp: u0_store_write_def split: cvsasx_store_status.splits)
    then show ?thesis using len holds_has[OF conjunct1[OF True]] by (auto simp: within_authority_def slot_within_def)
  qed
qed


lemma dispatch_within:
  assumes len: "length (u_cspace s) = U0_NSLOT" and d: "syscall_dispatch H n a1 a2 r10 s = (r, s')"
  shows "within_authority H s s'"
proof -
  have cw: "within_authority H s t" if "u0_console_write k bs s = (x, t)" for k bs x t
    using that by (intro within_same[OF len]) (auto simp: u0_console_write_def split: if_splits)
  have ma: "within_authority H s t" if "u0_mem_acquire k m s = (x, t)" for k m x t
    using that holds_has[of k CAP_POOL s]
    by (intro within_same[OF len]) (auto simp: u0_mem_acquire_def split: if_splits prod.splits)
  have sr: "within_authority H s t" if "u0_store_read k a m s = (x, t)" for k a m x t
    using that by (intro within_same[OF len])
      (auto simp: u0_store_read_def wr_user_def split: if_splits prod.splits option.splits cvsasx_store_status.splits)
  have sw: "within_authority H s (t\<lparr>u_last_rslot := v\<rparr>)" "within_authority H s t" if "u0_store_write H k bs s = (x, y, t)" for k bs x y t v
  proof -
    show w: "within_authority H s t" using store_write_within[OF len that] .
    have "slot_within H s (t\<lparr>u_last_rslot := v\<rparr>) = slot_within H s t" by (simp add: fun_eq_iff slot_within_def)
    then show "within_authority H s (t\<lparr>u_last_rslot := v\<rparr>)" using w by (simp add: within_authority_def)
  qed
  have sm: "within_authority H s s" by (rule within_same[OF len]) simp_all
  have wr: "within_authority H s (s\<lparr>u_probe_landed := y, u_console := x\<rparr>)" "within_authority H s (s\<lparr>u_console := x\<rparr>)" for x y
    by (rule within_same[OF len]; simp)+
  show ?thesis
    using d cw ma sr sw sm wr by (auto simp: syscall_dispatch_def split: if_splits prod.splits option.splits)
qed

lemma readobj_in:
  assumes "sc_base (object_cap (us_region s)) = us_obj_addr s" and "unat (object_length (us_region s)) \<le> length (us_obj s)"
  shows "us_readobj a1 s \<noteq> None"
proof -
  obtain st cap where g: "us_remint_at_crossing (us_user_pir s) s = (st, cap)" by fastforce
  show ?thesis
  proof (cases "st = CVSASX_OK \<and> cvsasx_swcap_check cap a1 1 CVSASX_PERM_LOAD")
    case False
    then show ?thesis by (auto simp: us_readobj_def g)
  next
    case True
    then obtain c where c: "cap = Some c" "sw_remint_body (us_cust s) (us_user_pir s) (us_region s) = (CVSASX_OK, c)"
      using g by (auto simp: us_remint_at_crossing_def remint_some_eq map_prod_def split: prod.splits)
    let ?p = "us_user_pir s" and ?r = "us_region s"
    have m: "unat (pir_offset ?p) + unat (pir_length ?p) \<le> unat (object_length ?r)" "sc_base c = us_obj_addr s + pir_offset ?p"
      "sc_length c = pir_length ?p"
      using c(2) assms(1) by (simp_all add: sw_remint_body_ok_iff sw_minted_def)
    have "a1 < pir_length ?p"
      using True c(1) m(3) by (auto simp: cvsasx_swcap_check_def word_less_nat_alt word_le_nat_alt unat_sub split: if_splits)
    then have "unat (pir_offset ?p + a1) < unat (object_length ?r)"
      using m(1) unat_lt2p[of "object_length ?r"] by (simp add: unat_word_ariths word_less_nat_alt)
    then show ?thesis using assms(2) m(2) by (simp add: us_readobj_def g c(1) Let_def)
  qed
qed

definition us_ok :: "us \<Rightarrow> bool" where
  "us_ok s \<longleftrightarrow> length (u_cspace s) = U0_NSLOT \<and> sc_base (object_cap (us_region s)) = us_obj_addr s \<and>
     unat (object_length (us_region s)) \<le> length (us_obj s)"

lemma dispatch_defined:
  assumes "us_ok s" and "syscall_dispatch H n a1 a2 r10 s = (r, s')"
  shows "r \<noteq> None" and "us_ok s'"
proof -
  have "us_readobj a1 s \<noteq> None" using assms(1) by (intro readobj_in) (simp_all add: us_ok_def)
  moreover have "fst (syscall_dispatch H n a1 a2 r10 s) \<noteq> None \<or> fst (syscall_dispatch H n a1 a2 r10 s) = us_readobj a1 s"
    by (simp add: syscall_dispatch_def case_prod_beta)
  then have "r \<noteq> None \<or> r = us_readobj a1 s" using assms(2) by simp
  ultimately show "r \<noteq> None" by auto
  have "within_authority H s s'" using assms by (intro dispatch_within) (simp_all add: us_ok_def)
  then show "us_ok s'" using assms(1) by (simp add: us_ok_def within_authority_def)
qed

lemma run_within:
  assumes "us_ok s" and "sys_run H cs s = (rs, s')"
  shows "us_ok s' \<and> within_authority H s s' \<and> None \<notin> set rs"
  using assms
proof (induction cs arbitrary: s rs)
  case Nil
  then show ?case using within_same[of s s H] by (auto simp: us_ok_def)
next
  case (Cons c cs)
  obtain n a1 a2 r10 where c: "c = (n, a1, a2, r10)" by (metis prod_cases4)
  obtain r s1 where d: "syscall_dispatch H n a1 a2 r10 s = (r, s1)" by fastforce
  obtain rs1 where r: "sys_run H cs s1 = (rs1, s')" "rs = r # rs1" using Cons.prems(2) c d by (auto split: prod.splits)
  note D = dispatch_defined[OF Cons.prems(1) d]
  have len: "length (u_cspace s) = U0_NSLOT" using Cons.prems(1) by (simp add: us_ok_def)
  from Cons.IH[OF D(2) r(1)] show ?case using D(1) within_trans[OF dispatch_within[OF len d]] r(2) by auto
qed

section \<open>The memory pool\<close>

definition pool_ok :: "int \<Rightarrow> u64 \<Rightarrow> us \<Rightarrow> bool" where
  "pool_ok k u s \<longleftrightarrow>
     u0_holds k CAP_POOL s \<and> u_pool_uva s = u \<and> u \<noteq> 0 \<and> unat u + 4096 < 2 ^ 63 \<and> unat (u_page_bump s) \<le> 4096 \<and>
     unat (object_length (u_pool_region s)) \<le> 4096"

definition pool_grant :: "int \<Rightarrow> u64 \<Rightarrow> us \<Rightarrow> u64 \<times> us" where
  "pool_grant k n s = (case u0_mem_acquire k n s of (r, s1) \<Rightarrow> (if r < 0 then 0 else word_of_int r, s1))"

lemma pool_step:
  assumes ok: "pool_ok k u s" and g: "pool_grant k n s = (base, s')"
  shows "(base = 0 \<and> s' = s) \<or>
    (unat base = unat u + unat (u_page_bump s) \<and> s' = s\<lparr>u_page_bump := u_page_bump s + n\<rparr> \<and>
     unat (u_page_bump s + n) = unat (u_page_bump s) + unat n \<and> unat (u_page_bump s + n) \<le> 4096)"
proof -
  let ?q = "conc_make_pir (u_poolH s) 0 n (CVSASX_PERM_LOAD OR CVSASX_PERM_STORE)"
  obtain st cap where r: "cvsasx_sw_cap_remint (Some (u_pool_cust s)) (Some ?q) (Some (u_pool_region s)) (Some null_swcap) = (st, cap)"
    by fastforce
  have h: "u0_holds k CAP_POOL s" using ok by (simp add: pool_ok_def)
  show ?thesis
  proof (cases "st \<noteq> CVSASX_OK \<or> (case cap of None \<Rightarrow> True | Some c \<Rightarrow> sc_valid c = 0) \<or> u_page_bump s + n > U0_POOLSZ")
    case True
    then have "u0_mem_acquire k n s = (U0_EAMPL, s)" using h by (auto simp: u0_mem_acquire_def r)
    then show ?thesis using g by (simp add: pool_grant_def U0_EAMPL_def)
  next
    case False
    then have "unat n \<le> unat (object_length (u_pool_region s))"
      using r by (auto simp: remint_some_eq map_prod_def sw_remint_body_ok_iff conc_make_pir_def split: prod.splits)
    then have n: "unat n \<le> 4096" using ok by (simp add: pool_ok_def)
    then have b: "unat (u_page_bump s + n) = unat (u_page_bump s) + unat n"
      using ok by (simp add: pool_ok_def unat_word_ariths)
    have le: "unat (u_page_bump s + n) \<le> 4096" using False by (simp add: U0_POOLSZ_def word_le_nat_alt not_less)
    have a: "unat (u + u_page_bump s) = unat u + unat (u_page_bump s)"
      using ok by (simp add: pool_ok_def unat_word_ariths)
    have "unat (u + u_page_bump s) < 2 ^ 63" using a ok by (simp add: pool_ok_def)
    then have "sint (u + u_page_bump s) = int (unat (u + u_page_bump s))" by (rule sint_small)
    then have m: "u0_mem_acquire k n s = (int (unat (u + u_page_bump s)), s\<lparr>u_page_bump := u_page_bump s + n\<rparr>)"
      using h False ok by (simp add: u0_mem_acquire_def r pool_ok_def)
    have "base = u + u_page_bump s" "s' = s\<lparr>u_page_bump := u_page_bump s + n\<rparr>" using g by (simp_all add: pool_grant_def m)
    then show ?thesis using a b le by simp
  qed
qed

interpretation pool: bump_pool "pool_grant k" "\<lambda>s. unat u + unat (u_page_bump s)" "unat u + 4096" "pool_ok k u"
  for k u
proof unfold_locales
  fix s n base s'
  assume ok: "pool_ok k u s" and g: "pool_grant k n s = (base, s')"
  note S = pool_step[OF ok g]
  show "pool_ok k u s'" using S ok by (auto simp: pool_ok_def u0_holds_def)
  show "unat u + unat (u_page_bump s) \<le> unat u + unat (u_page_bump s')" using S by auto
  show "unat base = unat u + unat (u_page_bump s) \<and> unat base + unat n \<le> unat u + unat (u_page_bump s')" if "base \<noteq> 0"
    using S that by auto
next
  show "unat u + unat (u_page_bump s) \<le> unat u + 4096" if "pool_ok k u s" for s using that by (simp add: pool_ok_def)
qed


section \<open>Bounded spawn\<close>

lemma list_update_map:
  "length xs = n \<Longrightarrow> xs[i := v] = map (\<lambda>k. if k = i then v else xs ! k) [0..<n]"
  by (intro nth_equalityI) (auto simp: nth_list_update)

text \<open>The capabilities of a child are capabilities of its parent, and each one is on record.\<close>

definition u1_inv :: "u1 \<Rightarrow> bool" where
  "u1_inv s \<longleftrightarrow>
     length (u1_parent s) = U0_NSLOT \<and> length (u1_child s) = U0_NSLOT \<and>
     (\<forall>i < U0_NSLOT. uc_type (u1_child s ! i) \<noteq> CAP_NONE \<longrightarrow> u1_child s ! i = u1_parent s ! i \<and> (i, i) \<in> set (u1_deriv s)) \<and>
     (\<forall>(p, c) \<in> set (u1_deriv s). p < U0_NSLOT \<and> c = p) \<and>
     (ep_hascap (u1_endp s) \<longrightarrow> ep_cap (u1_endp s) \<in> set (u1_parent s) \<and> uc_type (ep_cap (u1_endp s)) \<noteq> CAP_NONE)"

lemma fold_grant:
  assumes "\<forall>i \<in> set req. u1_held i s" and "length (u1_deriv s) + length req \<le> U0_NSLOT" and "length (u1_child s) = U0_NSLOT"
  shows "\<exists>s'. fold u1_grant req (Some s) = Some s' \<and> u1_parent s' = u1_parent s \<and> u1_endp s' = u1_endp s \<and>
    u1_deriv s' = u1_deriv s @ map (\<lambda>i. (nat i, nat i)) req \<and> length (u1_child s') = U0_NSLOT \<and>
    (\<forall>i < U0_NSLOT. u1_child s' ! i = (if int i \<in> set req then u1_parent s ! i else u1_child s ! i))"
  using assms
proof (induction req arbitrary: s)
  case (Cons r req)
  let ?s = "s\<lparr>u1_child := (u1_child s)[nat r := u1_parent s ! nat r], u1_deriv := u1_deriv s @ [(nat r, nat r)]\<rparr>"
  have g: "u1_grant r (Some s) = Some ?s" using Cons.prems(2) by (simp add: u1_grant_def)
  have "\<forall>i \<in> set req. u1_held i ?s" using Cons.prems(1) by (simp add: u1_held_def)
  moreover have "length (u1_deriv ?s) + length req \<le> U0_NSLOT" "length (u1_child ?s) = U0_NSLOT" using Cons.prems(2,3) by simp_all
  ultimately obtain s' where s': "fold u1_grant req (Some ?s) = Some s'" "u1_parent s' = u1_parent ?s" "u1_endp s' = u1_endp ?s"
    "u1_deriv s' = u1_deriv ?s @ map (\<lambda>i. (nat i, nat i)) req" "length (u1_child s') = U0_NSLOT"
    "\<forall>i < U0_NSLOT. u1_child s' ! i = (if int i \<in> set req then u1_parent ?s ! i else u1_child ?s ! i)"
    using Cons.IH[of ?s] by blast
  have r: "0 \<le> r" "nat r < U0_NSLOT" using Cons.prems(1) by (auto simp: u1_held_def)
  have "u1_child s' ! i = (if int i \<in> set (r # req) then u1_parent s ! i else u1_child s ! i)" if "i < U0_NSLOT" for i
    using s'(6) that r Cons.prems(3) by (auto simp: nth_list_update)
  then show ?case using g s'(1-5) by auto
qed auto

lemma spawn_result:
  assumes inv: "u1_inv s" and len: "length req \<le> U0_NSLOT"
  shows "\<exists>r s'. u1_spawn req s = (r, Some s') \<and> u1_inv s' \<and> u1_parent s' = u1_parent s \<and>
    (if \<forall>i \<in> set req. u1_held i s
     then r = 0 \<and> (\<forall>i < U0_NSLOT. if int i \<in> set req then u1_child s' ! i = u1_parent s ! i else uc_type (u1_child s' ! i) = CAP_NONE)
     else r = U0_EFAULT \<and> s' = s)"
proof (cases "\<forall>i \<in> set req. u1_held i s")
  case False
  then have "u1_spawn req s = (U0_EFAULT, Some s)" by (auto simp: u1_spawn_def list_ex_iff)
  then show ?thesis using False inv by auto
next
  case True
  let ?s = "s\<lparr>u1_child := map no_cap (u1_child s), u1_deriv := []\<rparr>"
  have "\<forall>i \<in> set req. u1_held i ?s" using True by (simp add: u1_held_def)
  then obtain s' where s': "fold u1_grant req (Some ?s) = Some s'" "u1_parent s' = u1_parent s" "u1_endp s' = u1_endp s"
    "u1_deriv s' = map (\<lambda>i. (nat i, nat i)) req" "length (u1_child s') = U0_NSLOT"
    "\<forall>i < U0_NSLOT. u1_child s' ! i = (if int i \<in> set req then u1_parent s ! i else map no_cap (u1_child s) ! i)"
    using fold_grant[of req ?s] len inv by (auto simp: u1_inv_def)
  have l: "length (u1_child s) = U0_NSLOT" "length (u1_parent s) = U0_NSLOT" using inv by (simp_all add: u1_inv_def)
  have sp: "u1_spawn req s = (0, Some s')" using True s'(1) by (auto simp: u1_spawn_def list_ex_iff)
  have c: "if int i \<in> set req then u1_child s' ! i = u1_parent s ! i else uc_type (u1_child s' ! i) = CAP_NONE" if "i < U0_NSLOT" for i
    using s'(6) that l by (simp add: no_cap_def)
  have dv: "(i, i) \<in> set (u1_deriv s')" if "int i \<in> set req" for i
  proof -
    have "(nat (int i), nat (int i)) \<in> set (u1_deriv s')" unfolding s'(4) using that by (auto intro!: image_eqI[of _ _ "int i"])
    then show ?thesis by simp
  qed
  have "\<forall>(p, c) \<in> set (u1_deriv s'). p < U0_NSLOT \<and> c = p" using True s'(4) by (auto simp: u1_held_def)
  moreover have "u1_child s' ! i = u1_parent s ! i \<and> (i, i) \<in> set (u1_deriv s')"
    if "i < U0_NSLOT" "uc_type (u1_child s' ! i) \<noteq> CAP_NONE" for i
    using c[OF that(1)] that(2) dv by (auto split: if_splits)
  ultimately have "u1_inv s'" using inv s'(2,3,5) l by (simp add: u1_inv_def)
  then show ?thesis using True sp c s'(2) by auto
qed

lemma fold_revoke:
  assumes "\<forall>(p, c) \<in> set ds. p < U0_NSLOT \<and> c = p" and "length cs = U0_NSLOT"
  shows "length (fold (\<lambda>(p, c) cs. if int p = k then cs[c := no_cap (cs ! c)] else cs) ds cs) = U0_NSLOT \<and>
    (\<forall>i < U0_NSLOT. fold (\<lambda>(p, c) cs. if int p = k then cs[c := no_cap (cs ! c)] else cs) ds cs ! i =
       (if int i = k \<and> (i, i) \<in> set ds then no_cap (cs ! i) else cs ! i))"
  using assms
proof (induction ds arbitrary: cs)
  case (Cons d ds)
  obtain p where d: "d = (p, p)" "p < U0_NSLOT" using Cons.prems(1) by (cases d) auto
  let ?cs = "if int p = k then cs[p := no_cap (cs ! p)] else cs"
  have len: "length ?cs = U0_NSLOT" using Cons.prems(2) by simp
  have idem: "no_cap (no_cap c) = no_cap c" for c by (simp add: no_cap_def)
  note I = Cons.IH[OF _ len] 
  have ds: "\<forall>(p, c) \<in> set ds. p < U0_NSLOT \<and> c = p" using Cons.prems(1) by simp
  show ?case using I[OF ds] d Cons.prems(2) idem by (auto simp: nth_list_update split: if_splits)
qed auto

lemma revoke_result:
  assumes inv: "u1_inv s" and r: "u1_revoke k s = (hit, s')"
  shows "u1_inv s'" and "u1_parent s' = u1_parent s"
    and "i < U0_NSLOT \<Longrightarrow> if int i = k then uc_type (u1_child s' ! i) = CAP_NONE else u1_child s' ! i = u1_child s ! i"
proof -
  have d: "\<forall>(p, c) \<in> set (u1_deriv s). p < U0_NSLOT \<and> c = p" and l: "length (u1_child s) = U0_NSLOT"
    using inv by (simp_all add: u1_inv_def)
  note F = fold_revoke[OF d l, of k]
  have s': "u1_parent s' = u1_parent s" "u1_deriv s' = u1_deriv s" "u1_endp s' = u1_endp s"
    "u1_child s' = fold (\<lambda>(p, c) cs. if int p = k then cs[c := no_cap (cs ! c)] else cs) (u1_deriv s) (u1_child s)"
    using r by (auto simp: u1_revoke_def)
  have ch: "u1_child s' ! i = (if int i = k \<and> (i, i) \<in> set (u1_deriv s) then no_cap (u1_child s ! i) else u1_child s ! i)" if "i < U0_NSLOT" for i
    using F that by (simp add: s'(4))
  show "u1_inv s'" using inv F ch by (auto simp: u1_inv_def s'(1-3) s'(4)[symmetric] no_cap_def split: if_splits)
  show "u1_parent s' = u1_parent s" by (rule s'(1))
  assume i: "i < U0_NSLOT"
  show "if int i = k then uc_type (u1_child s' ! i) = CAP_NONE else u1_child s' ! i = u1_child s ! i"
  proof (cases "(i, i) \<in> set (u1_deriv s)")
    case False
    then have "uc_type (u1_child s ! i) = CAP_NONE" using inv i by (auto simp: u1_inv_def)
    then show ?thesis using ch[OF i] False by simp
  qed (use ch[OF i] in \<open>simp add: no_cap_def\<close>)
qed

lemma fold_grant_None: "fold u1_grant req None = None"
  by (induction req) (simp_all add: u1_grant_def)

lemma spawn_overflow:
  assumes "\<forall>i \<in> set req. u1_held i s" and "U0_NSLOT < length req"
  shows "snd (u1_spawn req s) = None"
proof -
  have "fold u1_grant rs (Some t) = None" if "U0_NSLOT < length (u1_deriv t) + length rs" "length (u1_deriv t) \<le> U0_NSLOT" for rs t
    using that
  proof (induction rs arbitrary: t)
    case (Cons r rs)
    show ?case
    proof (cases "length (u1_deriv t) = U0_NSLOT")
      case True
      then have "u1_grant r (Some t) = None" by (simp add: u1_grant_def)
      then show ?thesis by (simp add: fold_grant_None)
    next
      case False
      then show ?thesis using Cons by (simp add: u1_grant_def)
    qed
  qed simp
  then show ?thesis using assms by (auto simp: u1_spawn_def list_ex_iff)
qed

text \<open>The calls of the two processes, in any order.\<close>

inductive u1_step :: "u1 \<Rightarrow> u1 \<Rightarrow> bool" where
  spawn: "u1_spawn req s = (r, Some s') \<Longrightarrow> u1_step s s'"
| revoke: "u1_revoke k s = (hit, s') \<Longrightarrow> u1_step s s'"
| send: "u1_cap_send d k s = (r, s') \<Longrightarrow> u1_step s s'"
| recv: "u1_cap_recv n s = (m, s') \<Longrightarrow> u1_step s s'"

inductive_cases u1_stepE: "u1_step s s'"

lemma step_inv:
  assumes "u1_step s s'" and "u1_inv s"
  shows "u1_inv s' \<and> u1_parent s' = u1_parent s"
  using assms(1)
proof cases
  case (spawn req r)
  show ?thesis
  proof (cases "length req \<le> U0_NSLOT")
    case True
    then show ?thesis using spawn_result[OF assms(2) True] spawn by auto
  next
    case False
    then have "s' = s" using spawn spawn_overflow[of req s] by (auto simp: u1_spawn_def list_ex_iff split: if_splits)
    then show ?thesis using assms(2) by simp
  qed
next
  case (revoke k hit)
  then show ?thesis using revoke_result(1,2)[OF assms(2)] by blast
next
  case (send d k r)
  have "u1_parent s ! nat k \<in> set (u1_parent s)" if "u1_held k s"
    using that assms(2) by (auto simp: u1_inv_def u1_held_def)
  then show ?thesis
    using send assms(2) by (auto simp: u1_cap_send_def u1_inv_def u1_held_def Let_def split: if_splits)
next
  case (recv n m)
  then show ?thesis using assms(2) by (auto simp: u1_cap_recv_def u1_inv_def Let_def split: if_splits)
qed

lemma steps_inv: "u1_step\<^sup>*\<^sup>* s s' \<Longrightarrow> u1_inv s \<Longrightarrow> u1_inv s' \<and> u1_parent s' = u1_parent s"
proof (induction rule: rtranclp_induct)
  case (step t u)
  then show ?case using step_inv by metis
qed simp

section \<open>The user heap hands out disjoint blocks\<close>

definition u2_end :: "u2 \<Rightarrow> nat \<Rightarrow> nat" where "u2_end s b = b + 16 + unat (u2_size s b)"

definition u2_inv :: "u2 \<Rightarrow> nat set \<Rightarrow> bool" where
  "u2_inv s L \<longleftrightarrow>
     distinct (u2_flist s) \<and> set (u2_flist s) \<inter> L = {} \<and> unat (u2_hbump s) \<le> 4096 \<and>
     (\<forall>b \<in> set (u2_flist s) \<union> L. u2_end s b \<le> unat (u2_hbump s)) \<and>
     (\<forall>b \<in> set (u2_flist s) \<union> L. \<forall>c \<in> set (u2_flist s) \<union> L. b \<noteq> c \<longrightarrow> u2_end s b \<le> c \<or> u2_end s c \<le> b)"

lemma u2_unlink_Some:
  "u2_unlink n sz bs = Some (b, cs) \<Longrightarrow> distinct bs \<Longrightarrow> b \<in> set bs \<and> n \<le> sz b \<and> distinct cs \<and> set cs = set bs - {b}"
  by (induction bs arbitrary: cs) (auto split: if_splits)

lemma u2_round_ge:
  assumes "unat n \<le> 0xfffffff0"
  shows "unat n \<le> unat (u2_round n)"
proof -
  have m: "(15 :: u32) = mask 4" by (simp add: mask_eq_exp_minus_1)
  have "(n + 15 AND NOT (mask 4)) + (n + 15 AND mask 4) = (n + 15 AND NOT (mask 4)) OR (n + 15 AND mask 4)"
    by (rule disjunctive_add) (auto simp: bit_simps)
  also have "\<dots> = n + 15" by (metis bit.conj_disj_distrib bit.disj_cancel_left and.right_neutral)
  finally have s: "u2_round n + (n + 15 AND mask 4) = n + 15" by (simp add: u2_round_def m)
  have "unat (n + 15 AND mask 4) = take_bit 4 (unat (n + 15))"
    by (simp only: take_bit_eq_mask[symmetric] unsigned_take_bit_eq)
  then have t: "unat (n + 15 AND mask 4) \<le> 15" using take_bit_nat_less_exp[of 4 "unat (n + 15)"] by simp
  have "unat (n + 15) = unat n + 15" using assms by (simp add: unat_word_ariths)
  moreover have "unat (u2_round n + (n + 15 AND mask 4)) \<le> unat (u2_round n) + unat (n + 15 AND mask 4)"
    by (simp add: unat_word_ariths)
  ultimately show ?thesis using s t by simp
qed

lemma u2_malloc_inv:
  assumes inv: "u2_inv s L" and m: "u2_malloc n s = (Some p, s')"
  obtains b where "p = b + 16" "b \<notin> L" "u2_inv s' (insert b L)" "unat (u2_round n) \<le> unat (u2_size s' b)"
    "\<And>c. c \<in> L \<Longrightarrow> u2_size s' c = u2_size s c"
proof (cases "u2_unlink (u2_round n) (u2_size s) (u2_flist s)")
  case (Some x)
  obtain b cs where x: "x = (b, cs)" by fastforce
  have d: "distinct (u2_flist s)" using inv by (simp add: u2_inv_def)
  note U = u2_unlink_Some[OF Some[unfolded x] d]
  have s': "p = b + 16" "s' = s\<lparr>u2_flist := cs\<rparr>" using m Some x by (auto simp: u2_malloc_def Let_def)
  have bl: "set cs \<union> insert b L = set (u2_flist s) \<union> L" using U by auto
  have "u2_end s' = u2_end s" by (simp add: fun_eq_iff u2_end_def s')
  moreover have "set cs \<inter> insert b L = {}" "b \<notin> L" using U inv by (auto simp: u2_inv_def)
  ultimately have "u2_inv s' (insert b L)" using inv U bl unfolding u2_inv_def by (simp add: s')
  then show ?thesis using that s' U \<open>b \<notin> L\<close> by (auto simp: word_le_nat_alt)
next
  case None
  let ?n = "u2_round n" and ?h = "unat (u2_hbump s)"
  have h: "?h \<le> 4096" using inv by (simp add: u2_inv_def)
  have fits: "\<not> u2_hbump s + 16 + ucast ?n > U2_HEAP" using m None by (auto simp: u2_malloc_def Let_def split: if_splits)
  have up: "unat (ucast (w :: u32) :: u64) = unat w" for w
    using unat_lt2p[of w] by (simp add: unsigned_ucast_eq take_bit_nat_eq_self)
  note un = up[of ?n]
  have "unat ?n < 2 ^ 32" using unat_lt2p[of ?n] by simp
  then have "unat (u2_hbump s + 16 + ucast ?n) = ?h + 16 + unat ?n"
    using h un by (simp add: unat_word_ariths)
  then have le: "?h + 16 + unat ?n \<le> 4096" using fits by (simp add: U2_HEAP_def word_le_nat_alt not_less)
  then have "unat (16 + ?n) = 16 + unat ?n" by (simp add: unat_word_ariths)
  then have "unat (ucast (16 + ?n) :: u64) = 16 + unat ?n" by (simp add: up)
  then have hb: "unat (u2_hbump s + ucast (16 + ?n)) = ?h + 16 + unat ?n" using le by (simp add: unat_word_ariths)
  have s': "p = ?h + 16" "s' = s\<lparr>u2_size := (u2_size s)(?h := ?n), u2_hbump := u2_hbump s + ucast (16 + ?n)\<rparr>"
    using m None fits by (simp_all add: u2_malloc_def Let_def)
  have old: "u2_end s b \<le> ?h" "b \<noteq> ?h" if "b \<in> set (u2_flist s) \<union> L" for b
  proof -
    show le: "u2_end s b \<le> ?h" using inv that unfolding u2_inv_def by blast
    then show "b \<noteq> ?h" by (simp add: u2_end_def)
  qed
  have e: "u2_end s' b = (if b = ?h then ?h + 16 + unat ?n else u2_end s b)" for b by (simp add: s' u2_end_def)
  have old3: "u2_end s b \<le> ?h + 16 + unat ?n" if "b \<in> set (u2_flist s) \<union> L" for b
    using old(1)[OF that] by simp
  have "u2_inv s' (insert ?h L)"
    using inv old old3 le unfolding u2_inv_def e by (auto simp: s' hb)
  moreover have "?h \<notin> L" using old by blast
  ultimately show ?thesis using that[of ?h] s' old(2) by simp
qed

lemma u2_free_inv:
  assumes "u2_inv s L" and "b \<in> L"
  shows "u2_inv (u2_free (Some (b + 16)) s) (L - {b})"
proof -
  have "u2_end (u2_free (Some (b + 16)) s) = u2_end s" by (simp add: fun_eq_iff u2_end_def u2_free_def)
  moreover have "set (u2_flist (u2_free (Some (b + 16)) s)) \<union> (L - {b}) = set (u2_flist s) \<union> L" using assms(2) by (auto simp: u2_free_def)
  ultimately show ?thesis using assms unfolding u2_inv_def by (auto simp: u2_free_def)
qed

datatype u2_op = U2_Malloc u32 | U2_Free nat

text \<open>A client that frees only blocks it owns; it remembers what it asked for.\<close>

fun u2_run :: "u2_op list \<Rightarrow> u2 \<times> (nat \<times> u32) list \<Rightarrow> u2 \<times> (nat \<times> u32) list" where
  "u2_run [] st = st"
| "u2_run (U2_Malloc n # ops) (s, own) =
     (case u2_malloc n s of (None, s1) \<Rightarrow> u2_run ops (s1, own) | (Some p, s1) \<Rightarrow> u2_run ops (s1, (p, n) # own))"
| "u2_run (U2_Free p # ops) (s, own) =
     (if p \<in> fst ` set own then u2_run ops (u2_free (Some p) s, filter (\<lambda>x. fst x \<noteq> p) own) else u2_run ops (s, own))"

definition own_ok :: "u2 \<times> (nat \<times> u32) list \<Rightarrow> bool" where
  "own_ok st \<longleftrightarrow>
     (case st of (s, own) \<Rightarrow>
        u2_inv s ((\<lambda>x. fst x - 16) ` set own) \<and> distinct (map fst own) \<and>
        (\<forall>(p, n) \<in> set own. 16 \<le> p \<and> unat n \<le> unat (u2_size s (p - 16))))"

lemma own_ok_run:
  assumes "own_ok st" and "\<forall>n. U2_Malloc n \<in> set ops \<longrightarrow> unat n \<le> 0xfffffff0"
  shows "own_ok (u2_run ops st)"
  using assms
proof (induction ops st rule: u2_run.induct)
  case (2 n ops s own)
  let ?L = "(\<lambda>x. fst x - 16) ` set own"
  obtain op s1 where m: "u2_malloc n s = (op, s1)" by fastforce
  have n: "unat n \<le> 0xfffffff0" using 2(4) by simp
  show ?case
  proof (cases op)
    case None
    then have "s1 = s" using m by (auto simp: u2_malloc_def Let_def split: option.splits if_splits)
    then show ?thesis using 2 m None by simp
  next
    case (Some p)
    obtain b where b: "p = b + 16" "b \<notin> ?L" "u2_inv s1 (insert b ?L)" "unat (u2_round n) \<le> unat (u2_size s1 b)"
      "\<And>c. c \<in> ?L \<Longrightarrow> u2_size s1 c = u2_size s c"
      using u2_malloc_inv[of s ?L n p s1] 2(3) m Some by (auto simp: own_ok_def)
    have "p \<notin> fst ` set own" using b(1,2) by force
    moreover have "unat m \<le> unat (u2_size s1 (q - 16))" if "(q, m) \<in> set own" for q m
      using b(5)[of "q - 16"] 2(3) that by (force simp: own_ok_def)
    ultimately have "own_ok (s1, (p, n) # own)"
      using 2(3) b u2_round_ge[OF n] by (auto simp: own_ok_def)
    then show ?thesis using 2(2)[OF m[symmetric] Some] 2(4) m Some by simp
  qed
next
  case (3 p ops s own)
  show ?case
  proof (cases "p \<in> fst ` set own")
    case True
    let ?L = "(\<lambda>x. fst x - 16) ` set own"
    have p: "16 \<le> p" "p - 16 \<in> ?L" using True 3(3) by (auto simp: own_ok_def)
    have inj: "(\<lambda>x. fst x - 16) ` set (filter (\<lambda>x. fst x \<noteq> p) own) = ?L - {p - 16}"
      using 3(3) p(1) by (auto simp: own_ok_def)
    have "u2_inv (u2_free (Some p) s) (?L - {p - 16})"
      using u2_free_inv[of s ?L "p - 16"] 3(3) p by (simp add: own_ok_def)
    then have "own_ok (u2_free (Some p) s, filter (\<lambda>x. fst x \<noteq> p) own)"
      using 3(3) inj by (auto simp: own_ok_def distinct_map_filter u2_free_def)
    then show ?thesis using 3(1)[OF True] 3(4) True by simp
  next
    case False
    then show ?thesis using 3 by simp
  qed
qed simp

section \<open>Properties\<close>


definition ex_ucap :: "u0_type \<Rightarrow> u0_cap" where
  "ex_ucap ty = \<lparr>uc_type = ty, uc_pir = cvsasx_pir_zero, uc_aux = 256\<rparr>"

definition ex_us :: us where
  "ex_us = \<lparr>u_cspace = [ex_ucap CAP_CONSOLE, ex_ucap CAP_POOL, ex_ucap CAP_NONE, ex_ucap CAP_SWRITE] @ replicate 4 (ex_ucap CAP_NONE),
      u_store = ex_store, u_pool_cust = \<lparr>cu_root = ex_ceiling, cu_initialized = 1\<rparr>,
      u_pool_region = \<lparr>object_cap = ex_ceiling, object_base_addr = PM_HEAP_VA, object_length = 4096, region_hash = replicate 32 7\<rparr>,
      u_poolH = replicate 32 7, u_pool_uva = 0x64000000, u_page_bump = 0, u_last_hash = [], u_last_rslot = 0,
      u_console = [], u_mem = (\<lambda>_. 0), us_obj = replicate 256 1, us_obj_addr = 0x5000, us_cust = ex_cust,
      us_region = ex_region\<lparr>object_cap := (object_cap ex_region)\<lparr>sc_base := 0x5000\<rparr>\<rparr>, us_user_pir = ex_pir,
      u_probe_landed = 0, u_ticks = 0\<rparr>"

lemma ex_us_ok: "us_ok ex_us"
  by (simp add: us_ok_def ex_us_def ex_region_def U0_NSLOT_def)


text \<open>The unprivileged write call reaches the console with no capability at all.\<close>

lemma console_without_capability:
  "let s = ex_us\<lparr>u_cspace := replicate 8 (ex_ucap CAP_NONE)\<rparr>
   in fst (syscall_dispatch pad_hash SYS_U_CONSOLE 0 0x1000 1 s) = Some (- 1) \<and>
      u_console (snd (syscall_dispatch pad_hash SYS_WRITE 0x41 0 0 s)) = [0x41]"
  by code_simp

text \<open> the memory pool hands out disjoint ranges inside the pool.  Over any sequence of
  acquisitions through a pool capability, every granted range lies in the pool after all earlier
  ones and covers the request, and the pool is never exceeded, whatever sizes are asked for. \<close>
theorem pool_ranges_disjoint:
  assumes "pool_ok k u s" and "grant_run (pool_grant k) ns s = (tr, s')"
  shows "unat (u_page_bump s') \<le> 4096 \<and>
    (\<forall>(n, base) \<in> set tr. base \<noteq> 0 \<longrightarrow> unat u + unat (u_page_bump s) \<le> unat base \<and> unat base + unat n \<le> unat u + 4096) \<and>
    sorted_wrt (\<lambda>(n, a) (m, b). a \<noteq> 0 \<longrightarrow> b \<noteq> 0 \<longrightarrow> unat a + unat n \<le> unat b) tr"
  using pool.run_bounds[OF assms] by fastforce

lemma ex_pool_ok: "pool_ok 1 0x64000000 ex_us"
  by (simp add: pool_ok_def ex_us_def u0_holds_def U0_NSLOT_def ex_ucap_def)

theorem pool_ranges_disjoint_witness:
  "unat (u_page_bump (snd (grant_run (pool_grant 1) [64, 0xffffffffffffffff, 4000, 64] ex_us))) \<le> 4096"
  using pool_ranges_disjoint[OF ex_pool_ok prod.collapse[symmetric]] by blast


definition ex_u1 :: u1 where
  "ex_u1 = \<lparr>u1_parent = u_cspace ex_us, u1_child = replicate 8 (ex_ucap CAP_NONE), u1_deriv = [],
            u1_endp = \<lparr>ep_has = False, ep_data = [], ep_cap = ex_ucap CAP_NONE, ep_hascap = False\<rparr>\<rparr>"

lemma ex_u1_inv: "u1_inv ex_u1"
  by (simp add: u1_inv_def ex_u1_def ex_us_def U0_NSLOT_def ex_ucap_def)

lemma ex_spawn: "\<exists>s. u1_spawn [0, 3] ex_u1 = (0, Some s) \<and> uc_type (u1_child s ! 3) = CAP_SWRITE"
  by (rule exI[of _ "the (snd (u1_spawn [0, 3] ex_u1))"]) code_simp


text \<open>A capability sent before its revocation is still delivered after it.\<close>

lemma revocation_misses_message:
  "let (_, s1) = u1_cap_send [1] 3 ex_u1; (_, s2) = u1_revoke 3 s1
   in map_option (map_option uc_type \<circ> snd) (fst (u1_cap_recv 32 s2)) = Some (Some CAP_SWRITE)"
  by code_simp


definition ex_u2 :: u2 where "ex_u2 = \<lparr>u2_hbump = 0, u2_size = (\<lambda>_. 0), u2_flist = []\<rparr>"


text \<open>A request above that size is answered with a block of no bytes.\<close>

lemma u2_malloc_wraps: "fst (u2_malloc 0xfffffff8 ex_u2) = Some 16 \<and> u2_size (snd (u2_malloc 0xfffffff8 ex_u2)) 0 = 0"
  by code_simp

end
