(* ===== verification/VersionedGate.thy ===== *)
theory VersionedGate
  imports SwCap
begin

text \<open>
  The versioned capability gate of \<^verbatim>\<open>kernel/kernel.c\<close>: a slot holds a version word and
  two capability buffers, the active one selected by the low bit of the version.  A
  replacement is re-minted by the unchanged software gate, written field by field into the
  inactive buffer, and committed by one store of the version word.  A capture is a read of
  the version-selected buffer, and it may happen between any two of those stores.

  The operation is modelled twice: \<open>vgate_commit\<close> is the C function with its
  instrumented captures, and \<open>vg_step\<close> is the machine whose steps are the single
  stores, so that a reachable state of the machine is a point at which a capture may fall.
\<close>

section \<open>State\<close>

record vgate_slot =
  vg_version :: u64
  vg_buf :: "cvsasx_swcap list"

record vg_globals =
  vg_cust :: cvsasx_sw_custodian
  vg_region :: cvsasx_sw_region
  vg_capture_count :: int
  vg_midwrite_count :: int
  vg_torn_count :: int

definition vg_active :: "vgate_slot \<Rightarrow> cvsasx_swcap" where
  "vg_active s = vg_buf s ! unat (vg_version s AND 1)"

definition vg_inactive :: "vgate_slot \<Rightarrow> nat" where
  "vg_inactive s = 1 - unat (vg_version s AND 1)"

section \<open>Operations\<close>

definition vg_cap_eq :: "cvsasx_swcap \<Rightarrow> cvsasx_swcap \<Rightarrow> bool" where
  "vg_cap_eq a b \<longleftrightarrow> sc_base a = sc_base b \<and> sc_length a = sc_length b \<and>
     sc_perms a = sc_perms b \<and> sc_valid a = sc_valid b"

definition vg_capture :: "vg_globals \<Rightarrow> vgate_slot \<Rightarrow> cvsasx_swcap \<Rightarrow> bool \<times> vg_globals" where
  "vg_capture g s expect =
     (let c = vg_active s;
          g = g\<lparr>vg_capture_count := vg_capture_count g + 1\<rparr>;
          ok = (sc_valid c \<noteq> 0 \<and> vg_cap_eq c expect)
      in (ok, if ok then g else g\<lparr>vg_torn_count := vg_torn_count g + 1\<rparr>))"

text \<open>The four field stores of the write loop, by their position in the source.\<close>

definition vg_store_field :: "nat \<Rightarrow> cvsasx_swcap \<Rightarrow> nat \<Rightarrow> vgate_slot \<Rightarrow> vgate_slot" where
  "vg_store_field k rep i s =
     (let old = vg_buf s ! i
      in s\<lparr>vg_buf := (vg_buf s)[i := (if k = 0 then old\<lparr>sc_base := sc_base rep\<rparr>
                                    else if k = 1 then old\<lparr>sc_length := sc_length rep\<rparr>
                                    else if k = 2 then old\<lparr>sc_perms := sc_perms rep\<rparr>
                                    else old\<lparr>sc_valid := sc_valid rep\<rparr>)]\<rparr>)"

text \<open>One field store of the source line, with the capture hook that follows it.\<close>

definition vg_write_field ::
  "bool \<Rightarrow> cvsasx_swcap \<Rightarrow> cvsasx_swcap \<Rightarrow> nat \<Rightarrow> nat \<Rightarrow> vg_globals \<times> vgate_slot \<Rightarrow> vg_globals \<times> vgate_slot" where
  "vg_write_field do_captures pre rep i k gs =
     (let s = vg_store_field k rep i (snd gs)
      in (if do_captures
          then (let g = snd (vg_capture (fst gs) s pre)
                in g\<lparr>vg_midwrite_count := vg_midwrite_count g + 1\<rparr>)
          else fst gs, s))"

definition vg_bump :: "vgate_slot \<Rightarrow> vgate_slot" where
  "vg_bump s = s\<lparr>vg_version := vg_version s + 1\<rparr>"

text \<open>The status is returned with the slot; the local \<open>rep\<close> starts as any value.\<close>

definition vgate_commit ::
  "vg_globals \<Rightarrow> vgate_slot \<Rightarrow> cvsasx_pir option \<Rightarrow> bool \<Rightarrow> cvsasx_swcap \<Rightarrow>
   cvsasx_status \<times> vg_globals \<times> vgate_slot" where
  "vgate_commit g s pir do_captures rep0 =
     (let pre = vg_active s
      in case cvsasx_sw_cap_remint (Some (vg_cust g)) pir (Some (vg_region g)) (Some rep0) of
           (st, rep') \<Rightarrow>
             (let rep = the rep'
              in if st \<noteq> CVSASX_OK \<or> sc_valid rep = 0 then (st, g, s)
                 else
                   (let i = vg_inactive s;
                        (g, s) = foldl (\<lambda>gs k. vg_write_field do_captures pre rep i k gs) (g, s) [0, 1, 2, 3];
                        s = vg_bump s;
                        g = (if do_captures then snd (vg_capture g s rep) else g)
                    in (CVSASX_OK, g, s))))"

section \<open>The gate as a machine of single stores\<close>

datatype vg_pc =
    VG_idle
  | VG_writing nat cvsasx_swcap

inductive vg_step ::
  "cvsasx_sw_custodian \<Rightarrow> cvsasx_sw_region \<Rightarrow> vgate_slot \<times> vg_pc \<Rightarrow> vgate_slot \<times> vg_pc \<Rightarrow> bool"
  for cu r where
  vg_request: "sw_remint_body cu p r = (CVSASX_OK, rep) \<Longrightarrow>
     vg_step cu r (s, VG_idle) (s, VG_writing 0 rep)"
| vg_store: "k < 4 \<Longrightarrow>
     vg_step cu r (s, VG_writing k rep) (vg_store_field k rep (vg_inactive s) s, VG_writing (Suc k) rep)"
| vg_commit: "vg_step cu r (s, VG_writing 4 rep) (vg_bump s, VG_idle)"

inductive_cases vg_step_E: "vg_step cu r (s, pc) (s', pc')"

definition vg_fresh :: "cvsasx_sw_custodian \<Rightarrow> cvsasx_sw_region \<Rightarrow> cvsasx_swcap \<Rightarrow> bool" where
  "vg_fresh cu r c \<longleftrightarrow> (\<exists>p. sw_remint_body cu p r = (CVSASX_OK, c))"

text \<open>The first \<open>k\<close> fields of \<open>a\<close> already equal those of \<open>b\<close>.\<close>

definition vg_fields :: "nat \<Rightarrow> cvsasx_swcap \<Rightarrow> cvsasx_swcap \<Rightarrow> bool" where
  "vg_fields k a b \<longleftrightarrow> (0 < k \<longrightarrow> sc_base a = sc_base b) \<and> (1 < k \<longrightarrow> sc_length a = sc_length b) \<and>
     (2 < k \<longrightarrow> sc_perms a = sc_perms b) \<and> (3 < k \<longrightarrow> sc_valid a = sc_valid b)"

definition vg_inv ::
  "cvsasx_sw_custodian \<Rightarrow> cvsasx_sw_region \<Rightarrow> cvsasx_swcap \<Rightarrow> vgate_slot \<times> vg_pc \<Rightarrow> bool" where
  "vg_inv cu r c0 m \<longleftrightarrow> length (vg_buf (fst m)) = 2 \<and>
     (vg_active (fst m) = c0 \<or> vg_fresh cu r (vg_active (fst m))) \<and>
     (case snd m of VG_idle \<Rightarrow> True
      | VG_writing k rep \<Rightarrow> k \<le> 4 \<and> vg_fresh cu r rep \<and>
          vg_fields k (vg_buf (fst m) ! vg_inactive (fst m)) rep)"

lemma and_1_cases: "(v :: u64) AND 1 = 0 \<and> (v + 1) AND 1 = 1 \<or> v AND 1 = 1 \<and> (v + 1) AND 1 = 0"
  by (cases "even v") (auto simp: and_one_eq mod2_eq_if)

lemma vg_index_less: "unat ((v :: u64) AND 1) < 2"
  using and_1_cases[of v] by auto

lemma vg_inactive_less: "vg_inactive s < 2"
  by (simp add: vg_inactive_def)

lemma vg_inactive_other: "unat (vg_version s AND 1) \<noteq> vg_inactive s"
  using and_1_cases[of "vg_version s"] by (auto simp: vg_inactive_def)

lemma vg_bump_index: "unat (vg_version (vg_bump s) AND 1) = vg_inactive s"
  using and_1_cases[of "vg_version s"] by (auto simp: vg_inactive_def vg_bump_def)

lemma vg_active_bump: "vg_active (vg_bump s) = vg_buf s ! vg_inactive s"
  using vg_bump_index[of s] by (simp add: vg_active_def vg_bump_def)

lemma vg_inactive_bump: "vg_inactive (vg_bump s) = unat (vg_version s AND 1)"
  using and_1_cases[of "vg_version s"] by (auto simp: vg_inactive_def vg_bump_def)

lemma vg_store_field_simps [simp]:
  "vg_version (vg_store_field k rep i s) = vg_version s"
  "length (vg_buf (vg_store_field k rep i s)) = length (vg_buf s)"
  "vg_inactive (vg_store_field k rep i s) = vg_inactive s"
  by (simp_all add: vg_store_field_def vg_inactive_def Let_def)

lemma vg_store_field_active [simp]: "vg_active (vg_store_field k rep (vg_inactive s) s) = vg_active s"
  using vg_inactive_other[of s] by (simp add: vg_active_def vg_store_field_def Let_def)

lemma vg_store_field_active' [simp]: "vg_inactive t = vg_inactive s \<Longrightarrow>
   vg_active (vg_store_field k rep (vg_inactive s) t) = vg_active t"
  using vg_store_field_active[of k rep t] by simp

lemma vg_fields_store:
  assumes "vg_fields k (vg_buf s ! i) rep" and "i < length (vg_buf s)" and "k < 4"
  shows "vg_fields (Suc k) (vg_buf (vg_store_field k rep i s) ! i) rep"
proof -
  from assms(3) have "k = 0 \<or> k = 1 \<or> k = 2 \<or> k = 3" by auto
  then show ?thesis
    using assms(1,2) by (elim disjE) (auto simp: vg_fields_def vg_store_field_def)
qed

lemma vg_fields_full: "vg_fields 4 a b \<longleftrightarrow> a = b"
  by (auto simp: vg_fields_def)

lemma vg_inv_step:
  assumes "vg_step cu r m m'" and "vg_inv cu r c0 m"
  shows "vg_inv cu r c0 m'"
  using assms
proof (cases rule: vg_step.cases)
  case (vg_request p rep s)
  then show ?thesis
    using assms(2) by (auto simp: vg_inv_def vg_fresh_def vg_fields_def)
next
  case (vg_store k s rep)
  then show ?thesis
    using assms(2) vg_fields_store[of k s "vg_inactive s" rep] vg_inactive_less[of s]
    by (simp add: vg_inv_def)
next
  case (vg_commit s rep)
  then have "vg_buf s ! vg_inactive s = rep"
    using assms(2) by (simp add: vg_inv_def vg_fields_full)
  then show ?thesis
    using vg_commit assms(2) by (simp add: vg_inv_def vg_active_bump) (simp add: vg_bump_def)
qed

lemma vg_inv_reach:
  assumes "(vg_step cu r)\<^sup>*\<^sup>* m m'" and "vg_inv cu r c0 m"
  shows "vg_inv cu r c0 m'"
  using assms by (induction rule: rtranclp_induct) (auto intro: vg_inv_step)

lemma vg_fresh_within: "vg_fresh cu r c \<Longrightarrow> sc_valid c \<noteq> 0 \<and> cap_within c (object_cap r)"
  using sw_gate.mint_within by (auto simp: vg_fresh_def sw_remint_body_ok_iff sw_minted_def)

section \<open>The C function runs the machine\<close>

lemma vg_write_field_snd: "snd (vg_write_field d pre rep i k gs) = vg_store_field k rep i (snd gs)"
  by (simp add: vg_write_field_def Let_def)

definition vg_written :: "cvsasx_swcap \<Rightarrow> vgate_slot \<Rightarrow> vgate_slot" where
  "vg_written rep s = foldl (\<lambda>s k. vg_store_field k rep (vg_inactive s) s) s [0, 1, 2, 3]"

lemma vg_written_eq:
  assumes "length (vg_buf s) = 2"
  shows "vg_written rep s = s\<lparr>vg_buf := (vg_buf s)[vg_inactive s := rep]\<rparr>"
proof -
  have "c\<lparr>sc_base := sc_base rep, sc_length := sc_length rep,
      sc_perms := sc_perms rep, sc_valid := sc_valid rep\<rparr> = rep" for c :: cvsasx_swcap
    by (cases c; cases rep) simp
  note full = this
  show ?thesis
    using assms vg_inactive_less[of s]
    by (simp add: full vg_written_def vg_store_field_def Let_def vg_inactive_def)
qed

lemma vg_written_steps:
  "(vg_step cu r)\<^sup>*\<^sup>* (s, VG_writing 0 rep) (vg_written rep s, VG_writing 4 rep)"
proof -
  define f where "f k s = vg_store_field k rep (vg_inactive s) s" for k s
  have st: "k < 4 \<Longrightarrow> vg_step cu r (t, VG_writing k rep) (f k t, VG_writing (Suc k) rep)" for k t
    unfolding f_def by (rule vg_store)
  have "vg_written rep s = f 3 (f 2 (f 1 (f 0 s)))"
    by (simp add: vg_written_def f_def)
  moreover have "(vg_step cu r)\<^sup>*\<^sup>* (s, VG_writing 0 rep) (f 3 (f 2 (f 1 (f 0 s))), VG_writing 4 rep)"
    using st[of 0 s] st[of 1 "f 0 s"] st[of 2 "f 1 (f 0 s)"] st[of 3 "f 2 (f 1 (f 0 s))"]
    by (simp add: numeral_eq_Suc)
  ultimately show ?thesis by simp
qed

text \<open>The instrumented captures of one commit: all five succeed exactly when the
  capability they read was live.\<close>

definition vg_captured :: "bool \<Rightarrow> cvsasx_swcap \<Rightarrow> vg_globals \<Rightarrow> vg_globals" where
  "vg_captured d pre g =
     (if d then g\<lparr>vg_capture_count := vg_capture_count g + 5, vg_midwrite_count := vg_midwrite_count g + 4,
                  vg_torn_count := vg_torn_count g + (if sc_valid pre = 0 then 4 else 0)\<rparr>
      else g)"

lemma vg_write_field_mid:
  assumes "vg_active s = pre"
  shows "vg_write_field d pre rep (vg_inactive s) k (g, s) =
    (if d then g\<lparr>vg_capture_count := vg_capture_count g + 1, vg_midwrite_count := vg_midwrite_count g + 1,
                 vg_torn_count := vg_torn_count g + (if sc_valid pre = 0 then 1 else 0)\<rparr>
     else g, vg_store_field k rep (vg_inactive s) s)"
  using assms by (auto simp: vg_write_field_def vg_capture_def Let_def vg_cap_eq_def)

lemma vgate_commit_ok:
  assumes len: "length (vg_buf s) = 2" and ok: "sw_remint_body (vg_cust g) p (vg_region g) = (CVSASX_OK, rep)"
  shows "vgate_commit g s (Some p) d rep0 =
     (CVSASX_OK, vg_captured d (vg_active s) g, vg_bump (vg_written rep s))"
proof -
  from ok have v: "sc_valid rep \<noteq> 0" by (auto simp: sw_remint_body_ok_iff sw_minted_def)
  have a: "vg_active (vg_bump (vg_written rep s)) = rep"
    using len vg_inactive_less[of s] by (simp add: vg_active_bump vg_written_eq vg_inactive_def)
  have w: "vg_written rep s = vg_store_field 3 rep (vg_inactive s) (vg_store_field 2 rep (vg_inactive s)
      (vg_store_field 1 rep (vg_inactive s) (vg_store_field 0 rep (vg_inactive s) s)))"
    by (simp add: vg_written_def)
  have st: "vg_write_field d (vg_active s) rep (vg_inactive s) k (g, t) =
    (if d then g\<lparr>vg_capture_count := vg_capture_count g + 1, vg_midwrite_count := vg_midwrite_count g + 1,
                 vg_torn_count := vg_torn_count g + (if sc_valid (vg_active s) = 0 then 1 else 0)\<rparr>
     else g, vg_store_field k rep (vg_inactive s) t)"
    if "vg_active t = vg_active s" "vg_inactive t = vg_inactive s" for g k t
    using vg_write_field_mid[OF that(1), of d rep k g] that(2) by simp
  show ?thesis
    using v a
    by (simp add: vgate_commit_def remint_some_eq ok st w vg_captured_def vg_capture_def vg_cap_eq_def Let_def)
qed

section \<open>Properties\<close>

text \<open>
  C12: atomic commit.  From an idle slot, let the gate run any number of requests, field
  stores and version bumps and stop it anywhere, also in the middle of a write: a capture
  taken there reads either the capability the slot started with or one the re-mint gate
  produced and checked in full, which is live and within the region's ceiling, never a
  mixture of two.
\<close>

theorem vgate_never_torn:
  assumes "length (vg_buf s0) = 2" and "(vg_step cu r)\<^sup>*\<^sup>* (s0, VG_idle) (s, pc)"
  shows "vg_active s = vg_active s0 \<or>
    (\<exists>p. sw_remint_body cu p r = (CVSASX_OK, vg_active s)) \<and>
    sc_valid (vg_active s) \<noteq> 0 \<and> cap_within (vg_active s) (object_cap r)"
proof -
  have "vg_inv cu r (vg_active s0) (s0, VG_idle)"
    using assms(1) by (simp add: vg_inv_def)
  with assms(2) have "vg_inv cu r (vg_active s0) (s, pc)"
    by (rule vg_inv_reach)
  then show ?thesis
    using vg_fresh_within by (auto simp: vg_inv_def vg_fresh_def)
qed

text \<open>
  C38: the versioned replacement refines the machine.  A call of the commit either is
  refused with the gate's status and changes neither slot nor counters, or it is accepted;
  then the inactive buffer holds exactly the re-minted capability, the old one is still in
  the other buffer, the version has advanced by one, the slot was reached by single stores
  of the machine, and no instrumented capture counted as torn unless the old capability was
  dead.
\<close>

theorem vgate_commit_refines:
  assumes "length (vg_buf s) = 2" and "vgate_commit g s pir d rep0 = (st, g', s')"
  shows "if st \<noteq> CVSASX_OK then g' = g \<and> s' = s
    else (\<exists>p rep. pir = Some p \<and> sw_remint_body (vg_cust g) p (vg_region g) = (CVSASX_OK, rep) \<and>
        s' = s\<lparr>vg_buf := (vg_buf s)[vg_inactive s := rep], vg_version := vg_version s + 1\<rparr> \<and>
        vg_active s' = rep \<and> vg_buf s' ! vg_inactive s' = vg_active s) \<and>
      (vg_step (vg_cust g) (vg_region g))\<^sup>*\<^sup>* (s, VG_idle) (s', VG_idle) \<and>
      g' = vg_captured d (vg_active s) g"
proof (cases "st = CVSASX_OK")
  case False
  then show ?thesis
    using assms(2) by (auto simp: vgate_commit_def Let_def split: prod.splits if_splits)
next
  case True
  have "fst (cvsasx_sw_cap_remint (Some (vg_cust g)) pir (Some (vg_region g)) (Some rep0)) = CVSASX_OK"
    using assms(2) True by (auto simp: vgate_commit_def Let_def split: prod.splits if_splits)
  then obtain p rep where p: "pir = Some p"
    and ok: "sw_remint_body (vg_cust g) p (vg_region g) = (CVSASX_OK, rep)"
    by (cases "cvsasx_sw_cap_remint (Some (vg_cust g)) pir (Some (vg_region g)) (Some rep0)")
      (auto elim: remint_ok_cases)
  have g': "g' = vg_captured d (vg_active s) g" and s': "s' = vg_bump (vg_written rep s)"
    using assms(2) vgate_commit_ok[OF assms(1) ok, of d rep0] p by simp_all
  have steps: "(vg_step (vg_cust g) (vg_region g))\<^sup>*\<^sup>* (s, VG_idle) (s', VG_idle)"
    unfolding s' using vg_request[OF ok] vg_written_steps vg_commit
    by (meson converse_rtranclp_into_rtranclp rtranclp.rtrancl_into_rtrancl)
  have eq: "s' = s\<lparr>vg_buf := (vg_buf s)[vg_inactive s := rep], vg_version := vg_version s + 1\<rparr>"
    by (simp add: s' vg_written_eq[OF assms(1)] vg_bump_def)
  have act: "vg_active s' = rep"
    using assms(1) vg_inactive_less[of s] by (simp add: s' vg_active_bump vg_written_eq vg_inactive_def)
  have "vg_inactive s' = unat (vg_version s AND 1)"
    by (simp add: s' vg_inactive_bump vg_written_eq[OF assms(1)])
  then have "vg_buf s' ! vg_inactive s' = vg_active s"
    using vg_inactive_other[of s] by (simp add: eq vg_active_def)
  with True p ok g' steps eq act show ?thesis by auto
qed

definition ex_vslot :: vgate_slot where
  "ex_vslot = \<lparr>vg_version = 0, vg_buf = [ex_minted\<lparr>sc_length := 0x40\<rparr>, null_swcap]\<rparr>"

definition ex_vglob :: vg_globals where
  "ex_vglob = \<lparr>vg_cust = ex_cust, vg_region = ex_region, vg_capture_count = 0, vg_midwrite_count = 0, vg_torn_count = 0\<rparr>"

definition ex_vslot' :: vgate_slot where
  "ex_vslot' = \<lparr>vg_version = 1, vg_buf = [ex_minted\<lparr>sc_length := 0x40\<rparr>, ex_minted]\<rparr>"

lemma ex_remint_body: "sw_remint_body ex_cust ex_pir ex_region = (CVSASX_OK, ex_minted)"
  using ex_remint by (cases "sw_remint_body ex_cust ex_pir ex_region") (simp add: remint_some_eq)

lemma ex_vstep_mid: "(vg_step ex_cust ex_region)\<^sup>*\<^sup>* (ex_vslot, VG_idle)
    (vg_store_field 0 ex_minted (vg_inactive ex_vslot) ex_vslot, VG_writing (Suc 0) ex_minted)"
  using vg_request[OF ex_remint_body] vg_store[of 0]
  by (meson converse_rtranclp_into_rtranclp r_into_rtranclp zero_less_numeral)

theorem vgate_never_torn_witness:
  "length (vg_buf ex_vslot) = 2 \<and>
   (vg_active (vg_store_field 0 ex_minted (vg_inactive ex_vslot) ex_vslot) = vg_active ex_vslot \<or>
    (\<exists>p. sw_remint_body ex_cust p ex_region =
         (CVSASX_OK, vg_active (vg_store_field 0 ex_minted (vg_inactive ex_vslot) ex_vslot))))"
  using vgate_never_torn[OF _ ex_vstep_mid] by (auto simp: ex_vslot_def)

theorem vgate_commit_refines_witness:
  "vg_active ex_vslot' = ex_minted \<and> (vg_step ex_cust ex_region)\<^sup>*\<^sup>* (ex_vslot, VG_idle) (ex_vslot', VG_idle)"
proof -
  have c: "vgate_commit ex_vglob ex_vslot (Some ex_pir) True null_swcap =
      (CVSASX_OK, vg_captured True (vg_active ex_vslot) ex_vglob, ex_vslot')"
    using vgate_commit_ok[of ex_vslot ex_vglob ex_pir ex_minted True null_swcap] ex_remint_body
    by (simp add: ex_vslot_def ex_vglob_def ex_vslot'_def vg_written_eq vg_bump_def vg_inactive_def)
  have "length (vg_buf ex_vslot) = 2" and "vg_cust ex_vglob = ex_cust" and "vg_region ex_vglob = ex_region"
    by (simp_all add: ex_vslot_def ex_vglob_def)
  moreover have "vg_active ex_vslot' = ex_minted"
    by (simp add: ex_vslot'_def vg_active_def)
  ultimately show ?thesis
    using vgate_commit_refines[OF _ c] by simp
qed

end
