(* ===== verification/CanonForm.thy ===== *)
theory CanonForm
  imports DurableLog "HOL-Library.Multiset" "HOL-Library.List_Lexorder"
begin

text \<open>
  The canonical form of a reachable object graph (CV-CORE in \<^verbatim>\<open>kernel/kernel.c\<close>): a pool of
  nodes with data, an authority shape and child indices, and the recursive name that hashes the
  authority, the data and the sorted names of the children that the reference-count table holds
  live.  The recursion of the source ends only on acyclic graphs, so the model carries fuel, and
  that enough of it gives a result is a theorem.  The pool has \<open>CV_MAXNODE\<close> entries; an access
  outside it is \<open>None\<close>.  The digest is a parameter; the reference counts are those of
  the durable log.
\<close>

section \<open>The exchange sort\<close>

text \<open>
  \<^verbatim>\<open>for(a=0;a<m;a++) for(b=a+1;b<m;b++) if(cmp(ch[b],ch[a])<0) swap;\<close> over any comparison.
\<close>

definition swap_if :: "('a \<Rightarrow> 'a \<Rightarrow> bool) \<Rightarrow> nat \<Rightarrow> 'a list \<Rightarrow> nat \<Rightarrow> 'a list" where
  "swap_if lt a xs b = (if lt (xs ! b) (xs ! a) then xs[a := xs ! b, b := xs ! a] else xs)"

definition exchange_pass :: "('a \<Rightarrow> 'a \<Rightarrow> bool) \<Rightarrow> 'a list \<Rightarrow> nat \<Rightarrow> 'a list" where
  "exchange_pass lt xs a = foldl (swap_if lt a) xs [a + 1..<length xs]"

definition exchange_sort :: "('a \<Rightarrow> 'a \<Rightarrow> bool) \<Rightarrow> 'a list \<Rightarrow> 'a list" where
  "exchange_sort lt xs = foldl (exchange_pass lt) xs [0..<length xs]"

lemma swap_if_mset [simp]: "a < length xs \<Longrightarrow> b < length xs \<Longrightarrow> mset (swap_if lt a xs b) = mset xs"
  by (simp add: swap_if_def mset_swap)

lemma swap_if_length [simp]: "length (swap_if lt a xs b) = length xs"
  by (simp add: swap_if_def)

lemma swap_if_take [simp]: "a \<le> b \<Longrightarrow> take a (swap_if lt a xs b) = take a xs"
  by (simp add: swap_if_def)

text \<open>The inner loop leaves the prefix, permutes the rest and puts a minimum at \<open>a\<close>.\<close>

lemma exchange_inner:
  fixes xs :: "'a::linorder list"
  assumes "a < length xs" and "n \<le> length xs" and "a < n"
  defines "ys \<equiv> foldl (swap_if (<) a) xs [a + 1..<n]"
  shows "length ys = length xs \<and> mset ys = mset xs \<and> take a ys = take a xs \<and> (\<forall>j. a \<le> j \<and> j < n \<longrightarrow> ys ! a \<le> ys ! j)"
  using assms(2,3) unfolding ys_def
proof (induction n)
  case 0
  then show ?case by simp
next
  case (Suc n)
  show ?case
  proof (cases "a < n")
    case True
    define zs where "zs = foldl (swap_if (<) a) xs [a + 1..<n]"
    have IH: "length zs = length xs" "mset zs = mset xs" "take a zs = take a xs" "\<forall>j. a \<le> j \<and> j < n \<longrightarrow> zs ! a \<le> zs ! j"
      using Suc.IH True Suc.prems unfolding zs_def by simp_all
    have n: "n < length zs" using Suc.prems IH(1) by simp
    have a: "a < length zs" using assms(1) IH(1) by simp
    have eq: "foldl (swap_if (<) a) xs [a + 1..<Suc n] = swap_if (<) a zs n"
      using True by (simp add: zs_def)
    have "swap_if (<) a zs n ! a \<le> swap_if (<) a zs n ! j" if "a \<le> j" "j < Suc n" for j
      using that IH(4) True n a by (auto simp: swap_if_def nth_list_update less_Suc_eq intro: order.trans[OF less_imp_le])
    then show ?thesis
      unfolding eq using IH n a True by simp
  next
    case False
    then have "n = a" using Suc.prems by simp
    then show ?thesis by (auto simp: le_less_Suc_eq)
  qed
qed

lemma in_set_drop_nth: "x \<in> set (drop a ys) \<longleftrightarrow> (\<exists>k. a \<le> k \<and> k < length ys \<and> x = ys ! k)"
proof
  assume "x \<in> set (drop a ys)"
  then obtain m where "m < length ys - a" "x = ys ! (a + m)"
    by (auto simp: in_set_conv_nth)
  then show "\<exists>k. a \<le> k \<and> k < length ys \<and> x = ys ! k"
    by (intro exI[of _ "a + m"]) auto
next
  assume "\<exists>k. a \<le> k \<and> k < length ys \<and> x = ys ! k"
  then obtain k where "a \<le> k" "k < length ys" "x = ys ! k" by blast
  then show "x \<in> set (drop a ys)"
    by (auto simp: in_set_conv_nth intro!: exI[of _ "k - a"])
qed

definition sorted_upto :: "nat \<Rightarrow> 'a::linorder list \<Rightarrow> bool" where
  "sorted_upto a xs \<longleftrightarrow> (\<forall>i j. i < a \<and> i \<le> j \<and> j < length xs \<longrightarrow> xs ! i \<le> xs ! j)"

lemma exchange_pass_step:
  fixes xs :: "'a::linorder list"
  assumes a: "a < length xs" and s: "sorted_upto a xs"
  shows "length (exchange_pass (<) xs a) = length xs \<and> mset (exchange_pass (<) xs a) = mset xs \<and>
    sorted_upto (Suc a) (exchange_pass (<) xs a)"
proof -
  define ys where "ys = exchange_pass (<) xs a"
  have ys: "length ys = length xs" "mset ys = mset xs" "take a ys = take a xs" "\<forall>j. a \<le> j \<and> j < length xs \<longrightarrow> ys ! a \<le> ys ! j"
    using exchange_inner[OF a order.refl a] unfolding ys_def exchange_pass_def by simp_all
  have pre: "ys ! i = xs ! i" if "i < a" for i
    using ys(3) that by (metis nth_take)
  have "mset (drop a ys) = mset (drop a xs)"
    using ys(2,3) by (metis add_left_cancel append_take_drop_id mset_append)
  then have st: "set (drop a ys) = set (drop a xs)"
    by (rule mset_eq_setD)
  have "ys ! i \<le> ys ! j" if "i < a" "i \<le> j" "j < length ys" for i j
  proof (cases "j < a")
    case True
    then show ?thesis using that s ys(1) pre by (auto simp: sorted_upto_def)
  next
    case False
    then have "ys ! j \<in> set (drop a ys)"
      using that by (auto simp: in_set_drop_nth intro!: exI[of _ j])
    then obtain k where "a \<le> k" "k < length xs" "ys ! j = xs ! k"
      unfolding st by (auto simp: in_set_drop_nth)
    then show ?thesis using that s pre by (auto simp: sorted_upto_def)
  qed
  then have "sorted_upto (Suc a) ys"
    using ys(1,4) by (auto simp: sorted_upto_def less_Suc_eq)
  then show ?thesis using ys(1,2) unfolding ys_def by blast
qed

lemma exchange_sort_upto:
  fixes xs :: "'a::linorder list"
  assumes "n \<le> length xs"
  shows "length (foldl (exchange_pass (<)) xs [0..<n]) = length xs \<and> mset (foldl (exchange_pass (<)) xs [0..<n]) = mset xs \<and>
    sorted_upto n (foldl (exchange_pass (<)) xs [0..<n])"
  using assms
proof (induction n)
  case 0
  then show ?case by (simp add: sorted_upto_def)
next
  case (Suc n)
  then show ?case using exchange_pass_step[of n "foldl (exchange_pass (<)) xs [0..<n]"] by simp
qed

lemma exchange_sort_eq: "exchange_sort (<) xs = sort (xs :: 'a::linorder list)"
proof (rule sym, rule properties_for_sort)
  show "mset (exchange_sort (<) xs) = mset xs" and "sorted (exchange_sort (<) xs)"
    using exchange_sort_upto[of "length xs" xs]
    by (simp_all add: exchange_sort_def sorted_iff_nth_mono sorted_upto_def)
qed

text \<open>Only the comparisons of elements of the list matter.\<close>

lemma exchange_sort_cong:
  assumes "\<And>x y. x \<in> set xs \<Longrightarrow> y \<in> set xs \<Longrightarrow> lt x y = lt' x y"
  shows "exchange_sort lt xs = exchange_sort lt' xs"
proof -
  have one: "swap_if lt a ys b = swap_if lt' a ys b \<and> set (swap_if lt' a ys b) \<subseteq> set xs \<and> length (swap_if lt' a ys b) = length xs"
    if "set ys \<subseteq> set xs" "length ys = length xs" "a < length xs" "b < length xs" for a b ys
    using that assms by (auto simp: swap_if_def subset_iff set_swap)
  have inner: "foldl (swap_if lt a) ys bs = foldl (swap_if lt' a) ys bs \<and>
      set (foldl (swap_if lt' a) ys bs) \<subseteq> set xs \<and> length (foldl (swap_if lt' a) ys bs) = length xs"
    if "set ys \<subseteq> set xs" "length ys = length xs" "a < length xs" "\<forall>b \<in> set bs. b < length xs" for a bs ys
    using that
  proof (induction bs arbitrary: ys)
    case (Cons b bs)
    then show ?case using one[of ys a b] Cons.IH[of "swap_if lt' a ys b"] by simp
  qed simp
  have "foldl (exchange_pass lt) ys as = foldl (exchange_pass lt') ys as"
    if "set ys \<subseteq> set xs" "length ys = length xs" "\<forall>a \<in> set as. a < length xs" for as ys
    using that
  proof (induction as arbitrary: ys)
    case (Cons a as)
    then show ?case
      using inner[of ys a "[a + 1..<length xs]"] Cons.IH[of "exchange_pass lt' ys a"]
      by (simp add: exchange_pass_def)
  qed simp
  then show ?thesis by (simp add: exchange_sort_def)
qed

section \<open>Nodes\<close>

definition CV_MAXNODE :: nat where "CV_MAXNODE = 96"
definition CV_MAXCHILD :: nat where "CV_MAXCHILD = 6"
definition CV_MAXDATA :: nat where "CV_MAXDATA = 48"

record cv_node =
  cn_data :: bytes
  cn_dlen :: u32
  cn_child :: "int list"
  cn_nchild :: nat
  cn_perms :: u32
  cn_alen :: u64
  cn_aoff :: u64
  cn_dom :: u32
  cn_live :: bool

record cv =
  cv_pool :: "cv_node list"
  cv_np :: nat
  cv_store :: "cvsasx_store option"
  cv_canon_calls :: u64
  cv_gc :: dur

text \<open>\<open>cv_store\<close> is \<open>None\<close> until the first \<open>cv_store_once\<close>; the arena and index of the source are zero.\<close>

definition cv_store_once :: "cv \<Rightarrow> cv" where
  "cv_store_once s =
     (case cv_store s of
        Some _ \<Rightarrow> s
      | None \<Rightarrow> s\<lparr>cv_store := Some (cvsasx_store_init (replicate 32768 0) 32768
                     (replicate 512 \<lparr>se_hash = replicate 32 0, se_offset = 0, se_len = 0\<rparr>) 512)\<rparr>)"

definition cv_at :: "cv \<Rightarrow> int \<Rightarrow> cv_node option" where
  "cv_at s i = (if 0 \<le> i \<and> nat i < length (cv_pool s) then Some (cv_pool s ! nat i) else None)"

definition cv_zero_node :: cv_node where
  "cv_zero_node = \<lparr>cn_data = replicate CV_MAXDATA 0, cn_dlen = 0, cn_child = replicate CV_MAXCHILD 0, cn_nchild = 0,
     cn_perms = 0, cn_alen = 0, cn_aoff = 0, cn_dom = 0, cn_live = False\<rparr>"

text \<open>\<open>seed\<close> is the C string without its terminator.\<close>

definition cv_new :: "bytes \<Rightarrow> u32 \<Rightarrow> u64 \<Rightarrow> u64 \<Rightarrow> u32 \<Rightarrow> cv \<Rightarrow> (nat \<times> cv) option" where
  "cv_new seed perms alen aoff dm s =
     (let i = cv_np s;
          d = min (length seed) CV_MAXDATA;
          n = cv_zero_node\<lparr>cn_data := take d seed @ replicate (CV_MAXDATA - d) 0, cn_dlen := of_nat d,
                cn_perms := perms, cn_alen := alen, cn_aoff := aoff, cn_dom := dm, cn_nchild := 0, cn_live := True,
                cn_child := replicate CV_MAXCHILD (- 1)\<rparr>
      in if i < length (cv_pool s) then Some (i, s\<lparr>cv_np := i + 1, cv_pool := (cv_pool s)[i := n]\<rparr>) else None)"

definition cv_link :: "int \<Rightarrow> int \<Rightarrow> cv \<Rightarrow> cv option" where
  "cv_link p c s =
     (case cv_at s p of
        None \<Rightarrow> None
      | Some n \<Rightarrow>
          Some (if cn_nchild n < CV_MAXCHILD
                then s\<lparr>cv_pool := (cv_pool s)[nat p := n\<lparr>cn_child := (cn_child n)[cn_nchild n := c],
                                                  cn_nchild := cn_nchild n + 1\<rparr>]\<rparr>
                else s))"

definition cv_prehash :: "(bytes \<Rightarrow> bytes) \<Rightarrow> cv_node \<Rightarrow> bytes" where
  "cv_prehash H n = H (take (unat (cn_dlen n)) (cn_data n))"

definition cv_rc :: "(bytes \<Rightarrow> bytes) \<Rightarrow> s32 \<Rightarrow> int \<Rightarrow> cv \<Rightarrow> cv option" where
  "cv_rc H delta i s =
     (case cv_at s i of
        None \<Rightarrow> None
      | Some n \<Rightarrow> Some (s\<lparr>cv_gc := gc_rc_apply (cv_prehash H n) (cn_dom n) delta (cv_gc s)\<rparr>))"

definition cv_reach :: "(bytes \<Rightarrow> bytes) \<Rightarrow> int \<Rightarrow> cv \<Rightarrow> cv option" where
  "cv_reach H i s = cv_rc H 1 i s"

definition cv_kill :: "(bytes \<Rightarrow> bytes) \<Rightarrow> int \<Rightarrow> cv \<Rightarrow> cv option" where
  "cv_kill H i s = cv_rc H (- 1) i s"

definition cv_reachable :: "(bytes \<Rightarrow> bytes) \<Rightarrow> cv \<Rightarrow> int \<Rightarrow> bool option" where
  "cv_reachable H s i =
     (case cv_at s i of None \<Rightarrow> None
      | Some n \<Rightarrow> Some (sint (gc_rc_get (cv_prehash H n) (cn_dom n) (cv_gc s)) > 0))"

definition cv_hcmp :: "bytes \<Rightarrow> bytes \<Rightarrow> int" where
  "cv_hcmp a b =
     (case List.find (\<lambda>k. a ! k \<noteq> b ! k) [0..<32] of
        None \<Rightarrow> 0
      | Some k \<Rightarrow> (if a ! k < b ! k then - 1 else 1))"

section \<open>The canonical name\<close>

definition cv_form :: "u32 \<Rightarrow> u64 \<Rightarrow> u64 \<Rightarrow> u32 \<Rightarrow> bytes \<Rightarrow> bytes list \<Rightarrow> bytes" where
  "cv_form perms alen aoff dlen data ch =
     [0xC0, 0x43, 0x56, 1] @ le_bytes 4 perms @ le_bytes 8 alen @ le_bytes 8 aoff @ le_bytes 4 dlen @
     take (unat dlen) data @ le_bytes 4 (of_nat (length ch) :: u32) @ concat (map (take 32) ch)"

definition cv_put_form :: "(bytes \<Rightarrow> bytes) \<Rightarrow> bytes \<Rightarrow> cv \<Rightarrow> cv" where
  "cv_put_form H buf s =
     (let s = cv_store_once s
      in s\<lparr>cv_store := fst (snd (cvsasx_store_put H (cv_store s) (Some buf) (of_nat (length buf))))\<rparr>)"

fun cv_canon :: "(bytes \<Rightarrow> bytes) \<Rightarrow> nat \<Rightarrow> int \<Rightarrow> cv \<Rightarrow> (bytes \<times> cv) option"
and cv_canon_kids :: "(bytes \<Rightarrow> bytes) \<Rightarrow> nat \<Rightarrow> int list \<Rightarrow> bytes list \<Rightarrow> cv \<Rightarrow> (bytes list \<times> cv) option" where
  "cv_canon H 0 i s = None"
| "cv_canon H (Suc fuel) i s =
     (case cv_at s i of
        None \<Rightarrow> None
      | Some n \<Rightarrow>
          (case cv_canon_kids H fuel (take (cn_nchild n) (cn_child n)) [] (s\<lparr>cv_canon_calls := cv_canon_calls s + 1\<rparr>) of
             None \<Rightarrow> None
           | Some (ch, s) \<Rightarrow>
               (let ch = exchange_sort (\<lambda>x y. cv_hcmp x y < 0) ch;
                    buf = cv_form (cn_perms n) (cn_alen n) (cn_aoff n) (cn_dlen n) (cn_data n) ch
                in Some (H buf, cv_put_form H buf s))))"
| "cv_canon_kids H fuel [] ch s = Some (ch, s)"
| "cv_canon_kids H fuel (c # cs) ch s =
     (if c < 0 then cv_canon_kids H fuel cs ch s
      else case cv_reachable H s c of
             None \<Rightarrow> None
           | Some False \<Rightarrow> cv_canon_kids H fuel cs ch s
           | Some True \<Rightarrow>
               (case cv_canon H fuel c s of
                  None \<Rightarrow> None
                | Some (h, s) \<Rightarrow> cv_canon_kids H fuel cs (ch @ [h]) s))"

definition cv_rawform :: "(bytes \<Rightarrow> bytes) \<Rightarrow> int \<Rightarrow> cv \<Rightarrow> bytes option" where
  "cv_rawform H i s =
     (case cv_at s i of
        None \<Rightarrow> None
      | Some n \<Rightarrow>
          Some (H ([of_int i] @ le_bytes 4 (cn_perms n) @ le_bytes 8 (cn_alen n) @ le_bytes 8 (cn_aoff n) @
                   take (unat (cn_dlen n)) (cn_data n) @
                   map of_int (filter (\<lambda>c. 0 \<le> c) (take (cn_nchild n) (cn_child n))))))"

definition cv_dedup :: "bytes \<Rightarrow> u32 \<Rightarrow> cv \<Rightarrow> bool \<times> cv" where
  "cv_dedup canon dm s =
     (case gc_rc_find canon dm (cv_gc s) of
        Some e \<Rightarrow>
          (if \<not> rc_tombstoned (gc_rc (cv_gc s) ! e)
           then (True, s\<lparr>cv_gc := rc_upd e (\<lambda>r. r\<lparr>rc_count := rc_count r + 1\<rparr>) (cv_gc s)\<rparr>)
           else (False, s\<lparr>cv_gc := gc_rc_apply canon dm 1 (cv_gc s)\<rparr>))
      | None \<Rightarrow> (False, s\<lparr>cv_gc := gc_rc_apply canon dm 1 (cv_gc s)\<rparr>))"

fun cv_eval :: "(bytes \<Rightarrow> bytes) \<Rightarrow> nat \<Rightarrow> int \<Rightarrow> cv \<Rightarrow> u32 option"
and cv_eval_kids :: "(bytes \<Rightarrow> bytes) \<Rightarrow> nat \<Rightarrow> int list \<Rightarrow> bool \<times> u32 \<Rightarrow> cv \<Rightarrow> (bool \<times> u32) option" where
  "cv_eval H 0 i s = None"
| "cv_eval H (Suc fuel) i s =
     (case cv_at s i of
        None \<Rightarrow> None
      | Some n \<Rightarrow>
          (case cv_eval_kids H fuel (take (cn_nchild n) (cn_child n)) (False, 0) s of
             None \<Rightarrow> None
           | Some (has, sm) \<Rightarrow> Some (if has then sm else ucast (cn_data n ! 0))))"
| "cv_eval_kids H fuel [] acc s = Some acc"
| "cv_eval_kids H fuel (c # cs) acc s =
     (if c < 0 then cv_eval_kids H fuel cs acc s
      else case cv_reachable H s c of
             None \<Rightarrow> None
           | Some False \<Rightarrow> cv_eval_kids H fuel cs acc s
           | Some True \<Rightarrow>
               (case cv_eval H fuel c s of
                  None \<Rightarrow> None
                | Some v \<Rightarrow> cv_eval_kids H fuel cs (True, snd acc + v) s))"

section \<open>What the name stands for\<close>

text \<open>
  The reachable graph below a node, unfolded: its authority shape, its data and the multiset of
  the unfoldings of its live children.  Placement in the pool and the order of the links are
  not part of it.
\<close>

datatype cv_tree = CVT (t_perms: u32) (t_alen: u64) (t_aoff: u64) (t_data: bytes) (t_kids: "cv_tree multiset")

definition cv_live_kids :: "(bytes \<Rightarrow> bytes) \<Rightarrow> cv \<Rightarrow> cv_node \<Rightarrow> int list" where
  "cv_live_kids H s n = filter (\<lambda>c. 0 \<le> c \<and> cv_reachable H s c = Some True) (take (cn_nchild n) (cn_child n))"

inductive cv_unfolds :: "(bytes \<Rightarrow> bytes) \<Rightarrow> cv \<Rightarrow> int \<Rightarrow> cv_tree \<Rightarrow> bool" for H s where
  cv_unfoldsI: "cv_at s i = Some n \<Longrightarrow> list_all2 (cv_unfolds H s) (cv_live_kids H s n) ts \<Longrightarrow>
     cv_unfolds H s i (CVT (cn_perms n) (cn_alen n) (cn_aoff n) (take (unat (cn_dlen n)) (cn_data n)) (mset ts))"

inductive_cases cv_unfoldsE: "cv_unfolds H s i t"

definition tree_form :: "u32 \<Rightarrow> u64 \<Rightarrow> u64 \<Rightarrow> bytes \<Rightarrow> bytes multiset \<Rightarrow> bytes" where
  "tree_form p l off d hs = cv_form p l off (of_nat (length d)) d (sorted_list_of_multiset hs)"

primrec cv_name :: "(bytes \<Rightarrow> bytes) \<Rightarrow> cv_tree \<Rightarrow> bytes" where
  "cv_name H (CVT p l off d ks) = H (tree_form p l off d (image_mset (cv_name H) ks))"

text \<open>The byte strings hashed on the way to a name.\<close>

primrec cv_forms :: "(bytes \<Rightarrow> bytes) \<Rightarrow> cv_tree \<Rightarrow> bytes set" where
  "cv_forms H (CVT p l off d ks) =
     insert (tree_form p l off d (image_mset (cv_name H) ks)) (\<Union> (set_mset (image_mset (cv_forms H) ks)))"

text \<open>Trees that nodes can describe: at most 48 bytes of data and at most six children.\<close>

primrec cv_small :: "cv_tree \<Rightarrow> bool" where
  "cv_small (CVT p l off d ks) \<longleftrightarrow> length d \<le> CV_MAXDATA \<and> size ks \<le> CV_MAXCHILD \<and> (\<forall>b \<in># image_mset cv_small ks. b)"

lemma cv_hcmp_less:
  assumes "length a = 32" "length b = 32"
  shows "cv_hcmp a b < 0 \<longleftrightarrow> a < b"
proof (cases "List.find (\<lambda>k. a ! k \<noteq> b ! k) [0..<32]")
  case None
  then have "a = b" using assms by (auto simp: find_None_iff intro: nth_equalityI)
  then show ?thesis using None by (simp add: cv_hcmp_def)
next
  case (Some k)
  then have k: "k < 32" "a ! k \<noteq> b ! k" "\<forall>j < k. a ! j = b ! j"
    by (auto simp: find_Some_iff)
  have pre: "take k a = take k b"
    using k assms by (intro nth_equalityI) auto
  have "a = take k a @ a ! k # drop (Suc k) a" "b = take k a @ b ! k # drop (Suc k) b"
    using k assms pre id_take_nth_drop[of k a] id_take_nth_drop[of k b] by simp_all
  then have "a < b \<longleftrightarrow> a ! k < b ! k"
    using k(2) unfolding list_less_def
    by (metis (no_types, lifting) case_prodD case_prodI lexord_append_leftD lexord_append_leftI lexord_cons_cons less_irrefl mem_Collect_eq neqE)
  then show ?thesis using Some by (simp add: cv_hcmp_def)
qed

lemma cv_sort_eq:
  assumes "\<forall>h \<in> set ch. length h = 32"
  shows "exchange_sort (\<lambda>x y. cv_hcmp x y < 0) ch = sorted_list_of_multiset (mset ch)"
  using exchange_sort_cong[of ch "\<lambda>x y. cv_hcmp x y < 0" "(<)"] assms cv_hcmp_less
  by (simp add: exchange_sort_eq sorted_list_of_multiset_mset)

definition cv_node_ok :: "cv_node \<Rightarrow> bool" where
  "cv_node_ok n \<longleftrightarrow> length (cn_data n) = CV_MAXDATA \<and> unat (cn_dlen n) \<le> CV_MAXDATA \<and>
     length (cn_child n) = CV_MAXCHILD \<and> cn_nchild n \<le> CV_MAXCHILD \<and>
     (\<forall>c \<in> set (take (cn_nchild n) (cn_child n)). c < int CV_MAXNODE)"

definition cv_wf :: "cv \<Rightarrow> bool" where
  "cv_wf s \<longleftrightarrow> length (cv_pool s) = CV_MAXNODE \<and> cv_np s \<le> CV_MAXNODE \<and> (\<forall>n \<in> set (cv_pool s). cv_node_ok n)"

definition cv_same :: "cv \<Rightarrow> cv \<Rightarrow> bool" where
  "cv_same s s' \<longleftrightarrow> cv_pool s' = cv_pool s \<and> cv_np s' = cv_np s \<and> cv_gc s' = cv_gc s"

lemma cv_put_form_same [simp]: "cv_same s (cv_put_form H buf t) = cv_same s t"
  by (simp add: cv_same_def cv_put_form_def cv_store_once_def Let_def split: option.splits)

lemma cv_same_refl [simp]: "cv_same s s" by (simp add: cv_same_def)

lemma cv_same_trans: "cv_same s t \<Longrightarrow> cv_same t u \<Longrightarrow> cv_same s u" by (simp add: cv_same_def)

lemma cv_same_calls [simp]: "cv_same s (t\<lparr>cv_canon_calls := k\<rparr>) = cv_same s t"
  "cv_same (s\<lparr>cv_canon_calls := k\<rparr>) t = cv_same s t"
  by (simp_all add: cv_same_def)

lemma cv_same_reads: assumes "cv_same s t" shows "cv_at t = cv_at s" "cv_reachable H t = cv_reachable H s" "cv_live_kids H t = cv_live_kids H s"
proof -
  show 1: "cv_at t = cv_at s" using assms by (auto simp: cv_same_def cv_at_def)
  show 2: "cv_reachable H t = cv_reachable H s" using assms by (simp add: fun_eq_iff cv_reachable_def 1 cv_same_def split: option.splits)
  show "cv_live_kids H t = cv_live_kids H s" by (auto simp: cv_live_kids_def 2)
qed

lemma cv_at_ok: "cv_wf s \<Longrightarrow> cv_at s i = Some n \<Longrightarrow> cv_node_ok n"
  by (auto simp: cv_wf_def cv_at_def split: if_splits)

lemma cv_unfolds_same:
  assumes "cv_same s t" and "cv_unfolds H s i tr" shows "cv_unfolds H t i tr"
  using assms(2)
proof (induction rule: cv_unfolds.induct)
  case (cv_unfoldsI i n ts)
  have "list_all2 (cv_unfolds H t) (cv_live_kids H t n) ts"
    using cv_unfoldsI(2) unfolding cv_same_reads[OF assms(1)] by (rule list_all2_mono) blast
  then show ?case using cv_unfoldsI(1) cv_same_reads(1)[OF assms(1)] by (intro cv_unfolds.cv_unfoldsI) simp_all
qed

section \<open>The recursion computes the name of the unfolding\<close>

lemma cv_canon_sound:
  "cv_canon H fuel i s = Some (h, s') \<Longrightarrow> cv_wf s \<Longrightarrow> hash_fn H \<Longrightarrow>
      cv_same s s' \<and> (\<exists>t. cv_unfolds H s i t \<and> h = cv_name H t)"
  "cv_canon_kids H fuel cs ch s = Some (ch', s') \<Longrightarrow> cv_wf s \<Longrightarrow> hash_fn H \<Longrightarrow>
      cv_same s s' \<and> (\<exists>ts. list_all2 (cv_unfolds H s) (filter (\<lambda>c. 0 \<le> c \<and> cv_reachable H s c = Some True) cs) ts \<and>
        ch' = ch @ map (cv_name H) ts)"
proof (induction H fuel i s and H fuel cs ch s arbitrary: h s' and ch' s' rule: cv_canon_cv_canon_kids.induct)
  case (2 H fuel i s)
  let ?s1 = "s\<lparr>cv_canon_calls := cv_canon_calls s + 1\<rparr>"
  from "2.prems"(1) obtain n ch s2 where n: "cv_at s i = Some n"
    and k: "cv_canon_kids H fuel (take (cn_nchild n) (cn_child n)) [] ?s1 = Some (ch, s2)"
    and h: "h = H (cv_form (cn_perms n) (cn_alen n) (cn_aoff n) (cn_dlen n) (cn_data n) (exchange_sort (\<lambda>x y. cv_hcmp x y < 0) ch))"
    and s': "cv_same s s' = cv_same s s2"
    by (auto simp: Let_def split: option.splits)
  have wf1: "cv_wf ?s1" using "2.prems"(2) by (simp add: cv_wf_def)
  obtain ts where same: "cv_same s s2"
    and ts: "list_all2 (cv_unfolds H ?s1) (filter (\<lambda>c. 0 \<le> c \<and> cv_reachable H ?s1 c = Some True) (take (cn_nchild n) (cn_child n))) ts"
    and ch: "ch = map (cv_name H) ts"
    using "2.IH"[OF n k wf1 "2.prems"(3)] by auto
  have same1: "cv_same ?s1 s" by simp
  have "list_all2 (cv_unfolds H s) (cv_live_kids H s n) ts"
    unfolding cv_live_kids_def cv_same_reads(2)[OF same1] using ts
    by (rule list_all2_mono) (rule cv_unfolds_same[OF same1])
  then have u: "cv_unfolds H s i (CVT (cn_perms n) (cn_alen n) (cn_aoff n) (take (unat (cn_dlen n)) (cn_data n)) (mset ts))"
    using n by (intro cv_unfoldsI)
  have "\<forall>x \<in> set ch. length x = 32"
    using "2.prems"(3) ch by (auto simp: hash_fn_def elim!: cv_tree.exhaust) (metis cv_name.simps cv_tree.exhaust)
  then have srt: "exchange_sort (\<lambda>x y. cv_hcmp x y < 0) ch = sorted_list_of_multiset (mset ch)"
    by (rule cv_sort_eq)
  have "unat (cn_dlen n) \<le> length (cn_data n)"
    using cv_at_ok[OF "2.prems"(2) n] by (simp add: cv_node_ok_def)
  then have "h = cv_name H (CVT (cn_perms n) (cn_alen n) (cn_aoff n) (take (unat (cn_dlen n)) (cn_data n)) (mset ts))"
    by (simp add: h srt[unfolded ch] ch tree_form_def cv_form_def min_absorb2)
  then show ?case using s' same u by blast
next
  case (4 H fuel c cs ch s)
  show ?case
  proof (cases "0 \<le> c \<and> cv_reachable H s c = Some True")
    case False
    then have "cv_canon_kids H fuel cs ch s = Some (ch', s')"
      using "4.prems"(1) by (auto split: if_splits option.splits bool.splits)
    moreover have "c < 0 \<or> (\<not> c < 0 \<and> cv_reachable H s c = Some False)"
      using False "4.prems"(1) by (auto split: if_splits option.splits bool.splits)
    ultimately show ?thesis
      using False "4.IH"(1) "4.IH"(4)[OF _ _ refl] "4.prems"(2,3) by auto
  next
    case True
    then obtain h s1 where c: "cv_canon H fuel c s = Some (h, s1)"
      and r: "cv_canon_kids H fuel cs (ch @ [h]) s1 = Some (ch', s')"
      using "4.prems"(1) by (auto split: if_splits option.splits bool.splits)
    have neg: "\<not> c < 0" using True by simp
    obtain t where same: "cv_same s s1" and t: "cv_unfolds H s c t" "h = cv_name H t"
      using "4.IH"(2)[OF neg _ refl c "4.prems"(2,3)] True by auto
    have wf: "cv_wf s1" using "4.prems"(2) same by (simp add: cv_wf_def cv_same_def)
    obtain ts where same2: "cv_same s1 s'"
      and ts: "list_all2 (cv_unfolds H s1) (filter (\<lambda>c. 0 \<le> c \<and> cv_reachable H s1 c = Some True) cs) ts"
      and ch': "ch' = (ch @ [h]) @ map (cv_name H) ts"
      using "4.IH"(3)[OF neg _ refl c refl r wf "4.prems"(3)] True by auto
    have bk: "cv_same s1 s" using same by (simp add: cv_same_def)
    have "list_all2 (cv_unfolds H s) (filter (\<lambda>c. 0 \<le> c \<and> cv_reachable H s c = Some True) cs) ts"
      unfolding cv_same_reads(2)[OF bk] using ts by (rule list_all2_mono) (rule cv_unfolds_same[OF bk])
    then show ?thesis
      using True t ch' cv_same_trans[OF same same2] by (intro conjI exI[of _ "t # ts"]) simp_all
  qed
qed simp_all

section \<open>Different graphs have different names\<close>

lemma le_bytes_inj: "le_bytes n (v :: 'a::len word) = le_bytes n w \<longleftrightarrow> v = w" if "8 * n = LENGTH('a)"
proof -
  have "le_word (le_bytes n v) = v" "le_word (le_bytes n w) = w"
    using that by (simp_all add: le_word_le_bytes)
  then show ?thesis by metis
qed

lemma concat_take_inj:
  assumes "\<forall>h \<in> set xs \<union> set ys. length h = 32" and "length xs = length ys"
    and "concat (map (take 32) xs) = concat (map (take 32) ys)"
  shows "xs = ys"
proof -
  have "map (take 32) xs = xs" "map (take 32) ys = ys"
    using assms(1) by (auto intro!: map_idI)
  then have "concat xs = concat ys" using assms(3) by simp
  moreover have "\<forall>(x, y) \<in> set (zip xs ys). length x = length y"
    using assms(1) by (auto) (metis UnCI set_zip_leftD set_zip_rightD)
  ultimately show ?thesis using concat_injective assms(2) by blast
qed

lemma tree_form_inj:
  assumes eq: "tree_form p l off d M = tree_form p' l' off' d' M'"
    and d: "length d \<le> CV_MAXDATA" "length d' \<le> CV_MAXDATA"
    and M: "size M \<le> CV_MAXCHILD" "size M' \<le> CV_MAXCHILD" "\<forall>h \<in># M + M'. length h = 32"
  shows "p = p' \<and> l = l' \<and> off = off' \<and> d = d' \<and> M = M'"
proof -
  let ?xs = "sorted_list_of_multiset M" and ?ys = "sorted_list_of_multiset M'"
  have u: "unat (of_nat (length d) :: u32) = length d" "unat (of_nat (length d') :: u32) = length d'"
    using d by (simp_all add: CV_MAXDATA_def unat_of_nat)
  have len: "length ?xs = size M" "length ?ys = size M'"
    by (metis mset_sorted_list_of_multiset size_mset)+
  have dd: "length d = length d'" if "(of_nat (length d) :: u32) = of_nat (length d')"
    using that u by metis
  have mm: "size M = size M'" if "(of_nat (size M) :: u32) = of_nat (size M')"
  proof -
    have "unat (of_nat (size M) :: u32) = size M" "unat (of_nat (size M') :: u32) = size M'"
      using M(1,2) by (simp_all add: CV_MAXCHILD_def unat_of_nat)
    then show ?thesis using that by metis
  qed
  have e: "p = p'" "l = l'" "off = off'" "(of_nat (length d) :: u32) = of_nat (length d')"
    and rest: "d @ le_bytes 4 (of_nat (size M) :: u32) @ concat (map (take 32) ?xs) =
               d' @ le_bytes 4 (of_nat (size M') :: u32) @ concat (map (take 32) ?ys)"
    using eq by (simp_all add: tree_form_def cv_form_def u len append_eq_append_conv le_bytes_inj)
  have "d = d'" and sz: "(of_nat (size M) :: u32) = of_nat (size M')"
    and cc: "concat (map (take 32) ?xs) = concat (map (take 32) ?ys)"
    using rest dd[OF e(4)] by (simp_all add: append_eq_append_conv le_bytes_inj)
  have "?xs = ?ys"
    using concat_take_inj[OF _ _ cc] M(3) mm[OF sz] len by auto
  then have "M = M'" by (metis mset_sorted_list_of_multiset)
  with e \<open>d = d'\<close> show ?thesis by simp
qed

lemma cv_name_length: "hash_fn H \<Longrightarrow> length (cv_name H t) = 32"
  by (cases t) (simp add: hash_fn_def)

lemma cv_name_inj:
  assumes H: "hash_fn H"
  shows "cv_small t \<Longrightarrow> cv_small t' \<Longrightarrow> inj_on H (cv_forms H t \<union> cv_forms H t') \<Longrightarrow> cv_name H t = cv_name H t' \<Longrightarrow> t = t'"
proof (induction t arbitrary: t')
  case (CVT p l off d ks)
  obtain p' l' off' d' ks' where t': "t' = CVT p' l' off' d' ks'" by (cases t')
  have "tree_form p l off d (image_mset (cv_name H) ks) = tree_form p' l' off' d' (image_mset (cv_name H) ks')"
  proof (rule inj_onD[OF CVT.prems(3)])
    show "H (tree_form p l off d (image_mset (cv_name H) ks)) = H (tree_form p' l' off' d' (image_mset (cv_name H) ks'))"
      using CVT.prems(4) by (simp add: t')
  qed (simp_all add: t')
  then have eqs: "p = p'" "l = l'" "off = off'" "d = d'" and im: "image_mset (cv_name H) ks = image_mset (cv_name H) ks'"
    using CVT.prems(1,2) tree_form_inj[of p l off d "image_mset (cv_name H) ks" p' l' off' d' "image_mset (cv_name H) ks'"] cv_name_length[OF H]
    by (auto simp: t')
  have pw: "x = y" if "x \<in># ks" "y \<in># ks'" "cv_name H x = cv_name H y" for x y
  proof (rule CVT.IH[OF that(1)])
    show "cv_small x" "cv_small y" using CVT.prems(1,2) that(1,2) by (auto simp: t')
    show "inj_on H (cv_forms H x \<union> cv_forms H y)"
      by (rule inj_on_subset[OF CVT.prems(3)]) (use that in \<open>auto simp: t'\<close>)
    show "cv_name H x = cv_name H y" by (rule that(3))
  qed
  have "ks = ks'" using im pw
  proof (induction ks arbitrary: ks')
    case (add x ks)
    have "cv_name H x \<in># image_mset (cv_name H) ks'" using add.prems(1) by (metis image_mset_add_mset union_single_eq_member)
    then obtain y where y: "y \<in># ks'" "cv_name H x = cv_name H y" by auto
    then have "x = y" using add.prems(2) by simp
    obtain ks2 where k2: "ks' = add_mset y ks2" using y(1) by (metis insert_DiffM)
    have "ks = ks2" using add.IH[of ks2] add.prems \<open>x = y\<close> k2 by auto
    then show ?case using k2 \<open>x = y\<close> by simp
  qed simp
  then show ?case using eqs by (simp add: t')
qed

section \<open>Unfoldings are unique and small\<close>

lemma cv_unfolds_unique: "cv_unfolds H s i t \<Longrightarrow> cv_unfolds H s i t' \<Longrightarrow> t = t'"
proof (induction arbitrary: t' rule: cv_unfolds.induct)
  case (cv_unfoldsI i n ts)
  from cv_unfoldsI.prems cv_unfoldsI.hyps(1) obtain ts' where t': "t' = CVT (cn_perms n) (cn_alen n) (cn_aoff n) (take (unat (cn_dlen n)) (cn_data n)) (mset ts')"
    and ts': "list_all2 (cv_unfolds H s) (cv_live_kids H s n) ts'"
    by (auto elim: cv_unfoldsE)
  have "ts = ts'"
    using cv_unfoldsI.IH ts' by (auto simp: list_all2_conv_all_nth intro!: nth_equalityI)
  then show ?case by (simp add: t')
qed

lemma cv_unfolds_small:
  assumes "cv_wf s" and "cv_unfolds H s i t" shows "cv_small t"
  using assms(2)
proof (induction rule: cv_unfolds.induct)
  case (cv_unfoldsI i n ts)
  have ok: "cv_node_ok n" using cv_at_ok assms(1) cv_unfoldsI.hyps(1) by blast
  have "length ts = length (cv_live_kids H s n)"
    using cv_unfoldsI.IH by (simp add: list_all2_conv_all_nth)
  also have "\<dots> \<le> CV_MAXCHILD"
    using ok length_filter_le[of _ "take (cn_nchild n) (cn_child n)"]
    by (simp add: cv_live_kids_def cv_node_ok_def) (meson le_trans)
  finally have "length ts \<le> CV_MAXCHILD" .
  moreover have "\<forall>x \<in> set ts. cv_small x"
    using cv_unfoldsI.IH by (auto simp: list_all2_conv_all_nth in_set_conv_nth)
  ultimately show ?case using ok by (simp add: cv_node_ok_def)
qed

section \<open>Termination on acyclic graphs\<close>

definition cv_edges :: "(bytes \<Rightarrow> bytes) \<Rightarrow> cv \<Rightarrow> (int \<times> int) set" where
  "cv_edges H s = {(i, c). \<exists>n. cv_at s i = Some n \<and> c \<in> set (cv_live_kids H s n)}"

definition cv_rank :: "(bytes \<Rightarrow> bytes) \<Rightarrow> cv \<Rightarrow> int \<Rightarrow> nat" where
  "cv_rank H s i = card {j. (i, j) \<in> (cv_edges H s)\<^sup>+}"

lemma cv_edges_bounds: "cv_wf s \<Longrightarrow> (i, c) \<in> cv_edges H s \<Longrightarrow> 0 \<le> c \<and> c < int CV_MAXNODE"
  by (auto simp: cv_edges_def cv_live_kids_def cv_reachable_def cv_at_def cv_wf_def split: if_splits)

lemma cv_desc_subset:
  assumes "cv_wf s" and "acyclic (cv_edges H s)"
  shows "{j. (i, j) \<in> (cv_edges H s)\<^sup>+} \<subseteq> {0..<int CV_MAXNODE} - {i}"
  using assms cv_edges_bounds by (fastforce simp: acyclic_def elim: tranclE)

lemma cv_rank_edge:
  assumes "cv_wf s" and "acyclic (cv_edges H s)" and e: "(i, c) \<in> cv_edges H s"
  shows "cv_rank H s c < cv_rank H s i"
  unfolding cv_rank_def
proof (rule psubset_card_mono)
  show "finite {j. (i, j) \<in> (cv_edges H s)\<^sup>+}"
    using finite_subset[OF cv_desc_subset[OF assms(1,2), of i]] by simp
  show "{j. (c, j) \<in> (cv_edges H s)\<^sup>+} \<subset> {j. (i, j) \<in> (cv_edges H s)\<^sup>+}"
    using e assms(2) by (auto simp: acyclic_def)
qed

lemma cv_rank_bound:
  assumes "cv_wf s" and "acyclic (cv_edges H s)" and "0 \<le> i" "i < int CV_MAXNODE"
  shows "cv_rank H s i < CV_MAXNODE"
proof -
  have "cv_rank H s i \<le> card ({0..<int CV_MAXNODE} - {i})"
    unfolding cv_rank_def by (rule card_mono[OF _ cv_desc_subset[OF assms(1,2)]]) simp
  also have "\<dots> < CV_MAXNODE" using assms(3,4) by (simp add: CV_MAXNODE_def)
  finally show ?thesis .
qed

lemma cv_kids_total:
  assumes wf: "cv_wf s0" and H: "hash_fn H"
    and kid: "\<And>c t. c \<in> set cs \<Longrightarrow> 0 \<le> c \<Longrightarrow> cv_reachable H s0 c = Some True \<Longrightarrow> cv_same s0 t \<Longrightarrow>
      \<exists>h t'. cv_canon H fuel c t = Some (h, t')"
    and b: "\<forall>c \<in> set cs. c < int CV_MAXNODE" and same: "cv_same s0 s"
  shows "\<exists>ch' s'. cv_canon_kids H fuel cs ch s = Some (ch', s')"
  using kid b same
proof (induction cs arbitrary: ch s)
  case (Cons c cs)
  have r: "cv_reachable H s = cv_reachable H s0" using cv_same_reads(2)[OF Cons.prems(3)] .
  consider "c < 0" | "0 \<le> c" "cv_reachable H s0 c = Some False" | "0 \<le> c" "cv_reachable H s0 c = Some True"
    using Cons.prems(2) wf by (cases "cv_reachable H s0 c") (auto simp: cv_reachable_def cv_at_def cv_wf_def nat_less_iff split: if_splits)
  then show ?case
  proof cases
    case 3
    then obtain h t where t: "cv_canon H fuel c s = Some (h, t)"
      using Cons.prems(1)[of c s] Cons.prems(3) by auto
    have "cv_wf s" using wf Cons.prems(3) by (simp add: cv_wf_def cv_same_def)
    then have "cv_same s0 t"
      using cv_canon_sound(1)[OF t _ H] Cons.prems(3) cv_same_trans by blast
    then show ?thesis using 3 r t Cons.IH[of t "ch @ [h]"] Cons.prems(1,2) by simp
  qed (use r Cons.IH[of s ch] Cons.prems in \<open>simp_all\<close>)
qed simp

lemma cv_canon_total:
  assumes wf: "cv_wf s0" and H: "hash_fn H" and ac: "acyclic (cv_edges H s0)"
  shows "0 \<le> i \<Longrightarrow> i < int CV_MAXNODE \<Longrightarrow> cv_rank H s0 i < fuel \<Longrightarrow> cv_same s0 s \<Longrightarrow> \<exists>h s'. cv_canon H fuel i s = Some (h, s')"
proof (induction fuel arbitrary: i s)
  case (Suc fuel)
  obtain n where n0: "cv_at s0 i = Some n"
    using Suc.prems(1,2) wf by (auto simp: cv_at_def cv_wf_def nat_less_iff)
  then have n: "cv_at s i = Some n" using cv_same_reads(1)[OF Suc.prems(4)] by simp
  have ok: "cv_node_ok n" using cv_at_ok[OF wf n0] .
  let ?s1 = "s\<lparr>cv_canon_calls := cv_canon_calls s + 1\<rparr>"
  have "\<exists>ch' s'. cv_canon_kids H fuel (take (cn_nchild n) (cn_child n)) [] ?s1 = Some (ch', s')"
  proof (rule cv_kids_total[OF wf H])
    show "\<forall>c \<in> set (take (cn_nchild n) (cn_child n)). c < int CV_MAXNODE"
      using ok by (simp add: cv_node_ok_def)
    show "cv_same s0 ?s1" using Suc.prems(4) by simp
    fix c t assume c: "c \<in> set (take (cn_nchild n) (cn_child n))" "0 \<le> c" "cv_reachable H s0 c = Some True" and t: "cv_same s0 t"
    then have e: "(i, c) \<in> cv_edges H s0" using n0 by (auto simp: cv_edges_def cv_live_kids_def)
    show "\<exists>h t'. cv_canon H fuel c t = Some (h, t')"
      using Suc.IH[of c t] c t ok cv_rank_edge[OF wf ac e] Suc.prems(3) by (auto simp: cv_node_ok_def)
  qed
  then show ?case using n by (auto simp: Let_def)
qed simp

section \<open>Construction keeps the pool well formed\<close>

lemma cv_zero_ok: "cv_node_ok cv_zero_node"
  by (simp add: cv_node_ok_def cv_zero_node_def)

lemma cv_new_wf: "cv_wf s \<Longrightarrow> cv_new seed p l off dm s = Some (i, s') \<Longrightarrow> cv_wf s'"
  using set_update_subset_insert
  by (fastforce simp: cv_wf_def cv_new_def Let_def cv_node_ok_def cv_zero_node_def CV_MAXDATA_def unat_of_nat min_def
      split: if_splits)

lemma cv_link_wf:
  assumes "cv_wf s" and "cv_link p c s = Some s'" and "c < int CV_MAXNODE" shows "cv_wf s'"
proof -
  obtain n where n: "cv_at s p = Some n" using assms(2) by (auto simp: cv_link_def split: option.splits)
  have ok: "cv_node_ok n" using cv_at_ok[OF assms(1) n] .
  have ok': "cv_node_ok (n\<lparr>cn_child := (cn_child n)[cn_nchild n := c], cn_nchild := cn_nchild n + 1\<rparr>)" if "cn_nchild n < CV_MAXCHILD"
    using ok that assms(3) by (auto simp: cv_node_ok_def take_Suc_conv_app_nth take_update_swap list_update_append dest!: set_update_subset_insert[THEN subsetD])
  show ?thesis
    using assms(1,2) n ok' set_update_subset_insert
    by (fastforce simp: cv_link_def cv_wf_def split: if_splits)
qed

lemma cv_rc_wf: "cv_wf s \<Longrightarrow> cv_rc H x i s = Some s' \<Longrightarrow> cv_wf s'"
  by (auto simp: cv_rc_def cv_wf_def split: option.splits)

section \<open>Properties\<close>

text \<open>
  C11: the canonical name identifies the reachable graph and its authority.  Whenever the name of
  a node is computed in a well-formed state, the node has exactly one unfolding and only the
  call counter and the form store change.  Two nodes with the same unfolding, in the same or in
  different states, wherever they lie in the pool, in whatever order their children were linked
  and whatever dead edges they carry, get the same name; and when the digest does not collide on
  the forms hashed, two nodes with the same name have the same unfolding, authority included.
\<close>

theorem cv_canon_names_graph:
  assumes "hash_fn H" and "cv_wf s1" and "cv_wf s2"
    and "cv_canon H f1 i1 s1 = Some (h1, s1')" and "cv_canon H f2 i2 s2 = Some (h2, s2')"
  shows "\<exists>t1 t2. (\<forall>t. cv_unfolds H s1 i1 t \<longleftrightarrow> t = t1) \<and> (\<forall>t. cv_unfolds H s2 i2 t \<longleftrightarrow> t = t2) \<and>
    (t1 = t2 \<longrightarrow> h1 = h2) \<and> (inj_on H (cv_forms H t1 \<union> cv_forms H t2) \<longrightarrow> h1 = h2 \<longrightarrow> t1 = t2) \<and>
    cv_same s1 s1' \<and> cv_same s2 s2'"
proof -
  obtain t1 where 1: "cv_same s1 s1'" "cv_unfolds H s1 i1 t1" "h1 = cv_name H t1"
    using cv_canon_sound(1)[OF assms(4,2,1)] by blast
  obtain t2 where 2: "cv_same s2 s2'" "cv_unfolds H s2 i2 t2" "h2 = cv_name H t2"
    using cv_canon_sound(1)[OF assms(5,3,1)] by blast
  have "inj_on H (cv_forms H t1 \<union> cv_forms H t2) \<longrightarrow> h1 = h2 \<longrightarrow> t1 = t2"
    using cv_name_inj[OF assms(1) cv_unfolds_small[OF assms(2) 1(2)] cv_unfolds_small[OF assms(3) 2(2)]] 1(3) 2(3) by blast
  moreover have "\<forall>t. cv_unfolds H s1 i1 t \<longleftrightarrow> t = t1" "\<forall>t. cv_unfolds H s2 i2 t \<longleftrightarrow> t = t2"
    using 1(2) 2(2) cv_unfolds_unique by blast+
  ultimately show ?thesis using 1 2 by blast
qed

text \<open>
  C39: termination of the canonical form.  On a well-formed pool whose live child edges have no
  cycle, the recursion from any node of the pool ends, at a depth of at most the size of the
  pool: fuel of the size of the pool is enough for a result.
\<close>

theorem cv_canon_terminates:
  assumes "hash_fn H" and "cv_wf s" and "acyclic (cv_edges H s)" and "0 \<le> i" and "i < int CV_MAXNODE"
  shows "\<exists>h s'. cv_canon H CV_MAXNODE i s = Some (h, s')"
  using cv_canon_total[OF assms(2,1,3,4,5) cv_rank_bound[OF assms(2,3,4,5)]] by simp

definition ex_dur :: "gc_rc_ent list \<Rightarrow> dur" where
  "ex_dur rc = \<lparr>dk = [], vio_ready = False, dur_idx = [], dur_log_head = 0, dur_objs_written = 0,
     dur_recover_rejected = 0, gc_rc = rc, gc_hwm = 0, gc_free = []\<rparr>"

text \<open>A leaf \<open>L\<close> below a root \<open>R\<close>, built leaf first and root first; the second root also has an edge to a dead node.\<close>

definition ex_node :: "bytes \<Rightarrow> u32 \<Rightarrow> int list \<Rightarrow> cv_node" where
  "ex_node d p cs = cv_zero_node\<lparr>cn_data := d @ replicate (48 - length d) 0, cn_dlen := of_nat (length d), cn_perms := p,
     cn_alen := 64, cn_dom := 1, cn_live := True, cn_child := cs @ replicate (6 - length cs) (- 1), cn_nchild := length cs\<rparr>"

definition ex_cv :: "cv_node list \<Rightarrow> cv" where
  "ex_cv ns = \<lparr>cv_pool = ns @ replicate (96 - length ns) cv_zero_node, cv_np = length ns, cv_store = None,
     cv_canon_calls = 0, cv_gc = ex_dur (map (\<lambda>d. \<lparr>rc_hash = pad_hash d, rc_domain = 1, rc_count = 1, rc_tombstoned = False\<rparr>) [[76], [82]])\<rparr>"

definition ex_A :: cv where "ex_A = ex_cv [ex_node [76] 4 [], ex_node [82] 4 [0]]"
definition ex_B :: cv where "ex_B = ex_cv [ex_node [82] 4 [2, 1], ex_node [76] 4 [], ex_node [88] 4 []]"
definition ex_leaves :: cv where "ex_leaves = ex_cv [ex_node [] 4 [], ex_node [] 12 []]"

lemma pad_hash_1: "pad_hash [x] = x # replicate 31 0"
  by (simp add: pad_hash_def)

lemma ex_cv_wf: "cv_wf ex_A" "cv_wf ex_B" "cv_wf ex_leaves"
  by (auto simp: ex_A_def ex_B_def ex_leaves_def ex_cv_def ex_node_def cv_wf_def cv_node_ok_def cv_zero_node_def CV_MAXNODE_def CV_MAXDATA_def CV_MAXCHILD_def)

lemmas ex_cv_defs = ex_cv_def ex_node_def ex_dur_def cv_zero_node_def cv_at_def CV_MAXDATA_def CV_MAXCHILD_def

lemma ex_reach_A: "cv_reachable pad_hash ex_A 0 = Some True"
  by (simp add: cv_reachable_def ex_A_def ex_cv_defs cv_prehash_def gc_rc_get_def gc_rc_find_def pad_hash_1)

lemma ex_reach_B: "cv_reachable pad_hash ex_B 1 = Some True" "cv_reachable pad_hash ex_B 2 = Some False"
  by (simp_all add: cv_reachable_def ex_B_def ex_cv_defs cv_prehash_def gc_rc_get_def gc_rc_find_def pad_hash_1)

text \<open>
  Liveness is keyed by content and domain, not by node: a node whose bytes equal those of a live
  node of its domain counts as live however often it has been dropped itself.
\<close>

lemma cv_reachable_twin:
  assumes "cv_at s i = Some n" "cv_at s j = Some m" "cn_dom n = cn_dom m"
    and "take (unat (cn_dlen n)) (cn_data n) = take (unat (cn_dlen m)) (cn_data m)"
  shows "cv_reachable H s i = cv_reachable H s j"
  using assms by (simp add: cv_reachable_def cv_prehash_def)

definition ex_tree :: cv_tree where
  "ex_tree = CVT 4 64 0 [82] {#CVT 4 64 0 [76] {#}#}"

lemma cv_reads_calls [simp]:
  "cv_at (s\<lparr>cv_canon_calls := k\<rparr>) = cv_at s" "cv_reachable H (s\<lparr>cv_canon_calls := k\<rparr>) = cv_reachable H s"
  by (rule cv_same_reads, simp)+

lemma ex_at_A: "cv_at ex_A 0 = Some (ex_node [76] 4 [])" "cv_at ex_A 1 = Some (ex_node [82] 4 [0])"
  and ex_at_B: "cv_at ex_B 0 = Some (ex_node [82] 4 [2, 1])" "cv_at ex_B 1 = Some (ex_node [76] 4 [])"
  and ex_at_leaves: "cv_at ex_leaves 0 = Some (ex_node [] 4 [])" "cv_at ex_leaves 1 = Some (ex_node [] 12 [])"
  by (simp_all add: ex_A_def ex_B_def ex_leaves_def ex_cv_def cv_at_def)

lemma ex_node_fields [simp]:
  "cn_perms (ex_node d p cs) = p" "cn_alen (ex_node d p cs) = 64" "cn_aoff (ex_node d p cs) = 0"
  "cn_nchild (ex_node d p cs) = length cs" "cn_child (ex_node d p cs) = cs @ replicate (6 - length cs) (- 1)"
  "cn_dlen (ex_node d p cs) = of_nat (length d)" "cn_data (ex_node d p cs) = d @ replicate (48 - length d) 0"
  by (simp_all add: ex_node_def cv_zero_node_def)

lemma ex_canon:
  "\<exists>h s'. cv_canon pad_hash 2 1 ex_A = Some (h, s')" "\<exists>h s'. cv_canon pad_hash 2 0 ex_B = Some (h, s')"
  "i = 0 \<or> i = 1 \<Longrightarrow> \<exists>h s'. cv_canon pad_hash 1 i ex_leaves = Some (h, s')"
  by (auto simp: numeral_2_eq_2 ex_at_A ex_at_B ex_at_leaves ex_reach_A ex_reach_B Let_def)

lemma ex_leaf_unfolds:
  assumes "cv_at s i = Some (ex_node d p [])" "length d \<le> 48"
  shows "cv_unfolds H s i (CVT p 64 0 d {#})"
  using cv_unfoldsI[OF assms(1), of H "[]"] assms(2) by (simp add: cv_live_kids_def unat_of_nat)

lemma ex_unfolds: "cv_unfolds pad_hash ex_A 1 ex_tree" "cv_unfolds pad_hash ex_B 0 ex_tree"
proof -
  have A: "cv_live_kids pad_hash ex_A (ex_node [82] 4 [0]) = [0]"
    by (simp add: cv_live_kids_def ex_reach_A)
  have B: "cv_live_kids pad_hash ex_B (ex_node [82] 4 [2, 1]) = [1]"
    by (simp add: cv_live_kids_def ex_reach_B)
  have leaf: "cv_unfolds pad_hash ex_A 0 (CVT 4 64 0 [76] {#})" "cv_unfolds pad_hash ex_B 1 (CVT 4 64 0 [76] {#})"
    using ex_leaf_unfolds[OF ex_at_A(1)] ex_leaf_unfolds[OF ex_at_B(2)] by simp_all
  show "cv_unfolds pad_hash ex_A 1 ex_tree" "cv_unfolds pad_hash ex_B 0 ex_tree"
    using cv_unfoldsI[OF ex_at_A(2), of pad_hash "[CVT 4 64 0 [76] {#}]"] cv_unfoldsI[OF ex_at_B(1), of pad_hash "[CVT 4 64 0 [76] {#}]"] A B leaf
    by (simp_all add: ex_tree_def)
qed

theorem cv_canon_names_graph_witness:
  "(\<exists>h sA sB. cv_canon pad_hash 2 1 ex_A = Some (h, sA) \<and> cv_canon pad_hash 2 0 ex_B = Some (h, sB)) \<and>
   (\<exists>h h' s s'. cv_canon pad_hash 1 0 ex_leaves = Some (h, s) \<and> cv_canon pad_hash 1 1 ex_leaves = Some (h', s') \<and> h \<noteq> h')"
proof
  obtain hA sA hB sB where A: "cv_canon pad_hash 2 1 ex_A = Some (hA, sA)" and B: "cv_canon pad_hash 2 0 ex_B = Some (hB, sB)"
    using ex_canon(1,2) by blast
  have "hA = hB"
    using cv_canon_names_graph[OF hash_fn_pad_hash ex_cv_wf(1,2) A B] ex_unfolds by metis
  then show "\<exists>h sA sB. cv_canon pad_hash 2 1 ex_A = Some (h, sA) \<and> cv_canon pad_hash 2 0 ex_B = Some (h, sB)"
    using A B by blast
next
  let ?t = "CVT 4 64 0 [] {#}" and ?t' = "CVT 12 64 0 [] {#}"
  obtain h s h' s' where 0: "cv_canon pad_hash 1 0 ex_leaves = Some (h, s)" and 1: "cv_canon pad_hash 1 1 ex_leaves = Some (h', s')"
    using ex_canon(3)[of 0] ex_canon(3)[of 1] by auto
  have u: "cv_unfolds pad_hash ex_leaves 0 ?t" "cv_unfolds pad_hash ex_leaves 1 ?t'"
    using ex_leaf_unfolds ex_at_leaves by simp_all
  have "tree_form 4 64 0 [] {#} \<noteq> tree_form 12 64 0 [] {#}" using tree_form_inj[of 4 64 0 "[]" "{#}" 12 64 0 "[]" "{#}"] by auto
  moreover have "length (tree_form p l off [] {#}) = 32" for p l off
    by (simp add: tree_form_def cv_form_def)
  ultimately have "inj_on pad_hash (cv_forms pad_hash ?t \<union> cv_forms pad_hash ?t')"
    by (auto simp: inj_on_def pad_hash_def)
  moreover obtain t1 t2 where "\<forall>t. cv_unfolds pad_hash ex_leaves 0 t \<longleftrightarrow> t = t1" "\<forall>t. cv_unfolds pad_hash ex_leaves 1 t \<longleftrightarrow> t = t2"
    "inj_on pad_hash (cv_forms pad_hash t1 \<union> cv_forms pad_hash t2) \<longrightarrow> h = h' \<longrightarrow> t1 = t2"
    using cv_canon_names_graph[OF hash_fn_pad_hash ex_cv_wf(3,3) 0 1] by blast
  ultimately have "h = h' \<longrightarrow> ?t = ?t'" using u by metis
  then have "h \<noteq> h'" by simp
  then show "\<exists>h h' s s'. cv_canon pad_hash 1 0 ex_leaves = Some (h, s) \<and> cv_canon pad_hash 1 1 ex_leaves = Some (h', s') \<and> h \<noteq> h'"
    using 0 1 by blast
qed

lemma ex_acyclic: "acyclic (cv_edges pad_hash ex_leaves)"
proof -
  have "cv_live_kids pad_hash ex_leaves n = []" if "n \<in> set (cv_pool ex_leaves)" for n
    using that by (auto simp: ex_leaves_def ex_cv_def cv_live_kids_def ex_node_def cv_zero_node_def)
  then have "cv_edges pad_hash ex_leaves = {}"
    by (auto simp: cv_edges_def cv_at_def split: if_splits)
  then show ?thesis by (simp add: acyclic_def)
qed

theorem cv_canon_terminates_witness:
  "\<exists>h s'. cv_canon pad_hash CV_MAXNODE 1 ex_leaves = Some (h, s')"
  using cv_canon_terminates[OF hash_fn_pad_hash ex_cv_wf(3) ex_acyclic, of 1] by (simp add: CV_MAXNODE_def)

end
