(* ===== verification/ContentFS.thy ===== *)
theory ContentFS
  imports DurableLog "HOL-Library.Multiset"
begin

text \<open>
  The content-addressed file system of \<^verbatim>\<open>kernel/kernel.c\<close> (FS and CFS): directories are objects
  that list eight-byte names and child hashes, reads re-hash what the store returns, and the
  objects of the live trees are counted in the reference-count table and backed by blocks of the
  collector's arena.  A directory that becomes live adds one reference to each child; dropping
  the last reference of an object reclaims it and drops its edges in turn.

  The object table has \<open>CFS_MAXOBJ\<close> entries and a directory buffer \<open>FS_MAXENT\<close>; the source checks
  neither, so an operation that would exceed them is \<open>None\<close>, as is a directory or file put
  that the full store refused (the source then goes on with an unset hash).  The recursions of
  \<open>cfs_unref\<close> and \<open>cfs_diff\<close> carry fuel.
\<close>

definition FS_ENT :: nat where "FS_ENT = 40"
definition FS_MAXENT :: nat where "FS_MAXENT = 8"
definition CFS_DOM :: u32 where "CFS_DOM = 8"
definition CFS_MAXOBJ :: nat where "CFS_MAXOBJ = 96"
definition CFS_CHUNK :: nat where "CFS_CHUNK = 64"

record cfs_ent =
  ce_h :: bytes
  ce_block :: nat
  ce_is_dir :: bool
  ce_present :: bool

record cfs =
  cf_store :: cvsasx_store
  cf_tab :: "cfs_ent list"
  cf_d :: dur

section \<open>Directories and files\<close>

definition dir_bytes :: "(bytes \<times> bytes) list \<Rightarrow> bytes" where
  "dir_bytes ents = concat (map (\<lambda>(nm, h). take 8 nm @ take 32 h) ents)"

definition fs_dir_put :: "(bytes \<Rightarrow> bytes) \<Rightarrow> (bytes \<times> bytes) list \<Rightarrow> cvsasx_store \<Rightarrow> (bytes \<times> cvsasx_store) option" where
  "fs_dir_put H ents st =
     (if length ents > FS_MAXENT then None
      else case store_put H st (dir_bytes ents) of
             (_, st', Some h) \<Rightarrow> Some (h, st')
           | (_, st', None) \<Rightarrow> None)"

text \<open>The names compared are those of C strings: up to eight bytes, before the first zero.\<close>

definition c_name :: "bytes \<Rightarrow> bytes" where
  "c_name name = take 8 (takeWhile (\<lambda>c. c \<noteq> 0) name)"

definition dir_entry :: "bytes \<Rightarrow> nat \<Rightarrow> bytes" where
  "dir_entry b k = take FS_ENT (drop (k * FS_ENT) b)"

definition name_matches :: "bytes \<Rightarrow> bytes \<Rightarrow> bool" where
  "name_matches name e \<longleftrightarrow> take (length (c_name name)) e = c_name name"

text \<open>The scan of \<open>nent\<close> entries; \<open>None\<close> when an entry is not inside the object.\<close>

fun scan_dir :: "bytes \<Rightarrow> bytes \<Rightarrow> nat list \<Rightarrow> bytes option option" where
  "scan_dir b name [] = Some None"
| "scan_dir b name (k # ks) =
     (if (k + 1) * FS_ENT > length b then None
      else if name_matches name (dir_entry b k) then Some (Some (take 32 (drop 8 (dir_entry b k))))
      else scan_dir b name ks)"

definition fs_resolve :: "(bytes \<Rightarrow> bytes) \<Rightarrow> cvsasx_store \<Rightarrow> bytes \<Rightarrow> bytes \<Rightarrow> nat \<Rightarrow> bytes option option" where
  "fs_resolve H st dirh name nent =
     (case store_get st dirh of
        (CVSASX_STORE_OK, Some b) \<Rightarrow>
          (if \<not> cvsasx_hash_eq (H b) dirh then Some None else scan_dir b name [0..<nent])
      | _ \<Rightarrow> Some None)"

definition fs_read :: "(bytes \<Rightarrow> bytes) \<Rightarrow> cvsasx_store \<Rightarrow> bytes \<Rightarrow> nat \<Rightarrow> (bytes \<times> nat) option" where
  "fs_read H st h mx =
     (case store_get st h of
        (CVSASX_STORE_OK, Some b) \<Rightarrow>
          (if \<not> cvsasx_hash_eq (H b) h then None
           else Some (take (if length b < mx then length b else mx) b, length b))
      | _ \<Rightarrow> None)"

section \<open>The counted object table\<close>

definition cfs_find :: "bytes \<Rightarrow> cfs \<Rightarrow> nat option" where
  "cfs_find h s = List.find (\<lambda>i. cvsasx_hash_eq (ce_h (cf_tab s ! i)) h) [0..<length (cf_tab s)]"

definition kid_hashes :: "bytes \<Rightarrow> bytes list" where
  "kid_hashes b = map (\<lambda>k. take 32 (drop (k * FS_ENT + 8) b)) [0..<length b div FS_ENT]"

definition clear_tomb :: "bool \<Rightarrow> bytes \<Rightarrow> dur \<Rightarrow> dur" where
  "clear_tomb v h d =
     (case gc_rc_find h CFS_DOM d of None \<Rightarrow> d | Some g \<Rightarrow> rc_upd g (\<lambda>r. r\<lparr>rc_tombstoned := v\<rparr>) d)"

definition cfs_mat :: "(bytes \<Rightarrow> bytes) \<Rightarrow> bytes \<Rightarrow> bytes \<Rightarrow> bool \<Rightarrow> cfs \<Rightarrow> cfs option" where
  "cfs_mat H h bs is_dir s =
     (let found = cfs_find h s;
          tab = (case found of Some _ \<Rightarrow> cf_tab s
                 | None \<Rightarrow> cf_tab s @ [\<lparr>ce_h = h, ce_block = 0, ce_is_dir = False, ce_present = False\<rparr>]);
          e = (case found of Some e \<Rightarrow> e | None \<Rightarrow> length (cf_tab s))
      in if length tab > CFS_MAXOBJ then None
         else if ce_present (tab ! e) then Some (s\<lparr>cf_tab := tab\<rparr>)
         else
           (case gc_obj_put H bs (cf_d s) of
              (blk, _, d) \<Rightarrow>
                (let d = clear_tomb False h d;
                     d = (if is_dir then foldl (\<lambda>d c. gc_rc_apply c CFS_DOM 1 d) d (kid_hashes bs) else d)
                 in Some (s\<lparr>cf_tab := tab[e := \<lparr>ce_h = ce_h (tab ! e), ce_block = blk, ce_is_dir = is_dir, ce_present = True\<rparr>],
                           cf_d := d\<rparr>))))"

definition cfs_file :: "(bytes \<Rightarrow> bytes) \<Rightarrow> bytes \<Rightarrow> cfs \<Rightarrow> (bytes \<times> cfs) option" where
  "cfs_file H bs s =
     (case store_put H (cf_store s) bs of
        (_, _, None) \<Rightarrow> None
      | (_, st, Some h) \<Rightarrow>
          (case cfs_mat H h bs False (s\<lparr>cf_store := st\<rparr>) of None \<Rightarrow> None | Some s \<Rightarrow> Some (h, s)))"

definition cfs_dir :: "(bytes \<Rightarrow> bytes) \<Rightarrow> (bytes \<times> bytes) list \<Rightarrow> cfs \<Rightarrow> (bytes \<times> cfs) option" where
  "cfs_dir H ents s =
     (case fs_dir_put H ents (cf_store s) of
        None \<Rightarrow> None
      | Some (h, st) \<Rightarrow>
          (case store_get st h of
             (CVSASX_STORE_OK, Some b) \<Rightarrow>
               (case cfs_mat H h b True (s\<lparr>cf_store := st\<rparr>) of None \<Rightarrow> None | Some s \<Rightarrow> Some (h, s))
           | _ \<Rightarrow> None))"

definition cfs_pin :: "bytes \<Rightarrow> cfs \<Rightarrow> cfs" where
  "cfs_pin h s = s\<lparr>cf_d := gc_rc_apply h CFS_DOM 1 (cf_d s)\<rparr>"

definition dir_kids :: "cvsasx_store \<Rightarrow> bytes \<Rightarrow> bytes list" where
  "dir_kids st h =
     (case store_get st h of (CVSASX_STORE_OK, Some b) \<Rightarrow> kid_hashes b | _ \<Rightarrow> [])"

text \<open>The commit of a reclamation: tombstone, free the block, clear the entry.\<close>

definition cfs_reclaim :: "nat \<Rightarrow> bytes \<Rightarrow> cfs \<Rightarrow> cfs" where
  "cfs_reclaim e h s =
     s\<lparr>cf_d := gc_freeblk (ce_block (cf_tab s ! e)) (clear_tomb True h (cf_d s)),
       cf_tab := (cf_tab s)[e := (cf_tab s ! e)\<lparr>ce_present := False\<rparr>]\<rparr>"

fun cfs_unref :: "nat \<Rightarrow> bytes \<Rightarrow> cfs \<Rightarrow> (nat \<times> cfs) option"
and cfs_unref_kids :: "nat \<Rightarrow> bytes list \<Rightarrow> nat \<Rightarrow> cfs \<Rightarrow> (nat \<times> cfs) option" where
  "cfs_unref 0 h s = None"
| "cfs_unref (Suc fuel) h s =
     (let s = s\<lparr>cf_d := gc_rc_apply h CFS_DOM (- 1) (cf_d s)\<rparr>
      in if gc_rc_get h CFS_DOM (cf_d s) \<noteq> 0 then Some (0, s)
         else case cfs_find h s of
                None \<Rightarrow> Some (0, s)
              | Some e \<Rightarrow>
                  (if \<not> ce_present (cf_tab s ! e) then Some (0, s)
                   else
                     (case cfs_unref_kids fuel (if ce_is_dir (cf_tab s ! e) then dir_kids (cf_store s) h else []) 0 s of
                        None \<Rightarrow> None
                      | Some (freed, s) \<Rightarrow> Some (freed + 1, cfs_reclaim e h s))))"
| "cfs_unref_kids fuel [] freed s = Some (freed, s)"
| "cfs_unref_kids fuel (c # cs) freed s =
     (case cfs_unref fuel c s of
        None \<Rightarrow> None
      | Some (n, s) \<Rightarrow> cfs_unref_kids fuel cs (freed + n) s)"

text \<open>A large file is cut into chunks of 64 bytes, at most eight, named \<^verbatim>\<open>c0\<close> to \<^verbatim>\<open>c7\<close>.\<close>

fun cfs_chunks :: "(bytes \<Rightarrow> bytes) \<Rightarrow> nat \<Rightarrow> nat \<Rightarrow> bytes \<Rightarrow> cfs \<Rightarrow> ((bytes \<times> bytes) list \<times> cfs) option" where
  "cfs_chunks H 0 n data s = Some ([], s)"
| "cfs_chunks H (Suc left) n data s =
     (if data = [] then Some ([], s)
      else case cfs_file H (take CFS_CHUNK data) s of
             None \<Rightarrow> None
           | Some (h, s) \<Rightarrow>
               (case cfs_chunks H left (n + 1) (drop CFS_CHUNK data) s of
                  None \<Rightarrow> None
                | Some (es, s) \<Rightarrow> Some (([0x63, 0x30 + of_nat n] @ replicate 6 0, h) # es, s)))"

definition cfs_bigfile :: "(bytes \<Rightarrow> bytes) \<Rightarrow> bytes \<Rightarrow> cfs \<Rightarrow> (bytes \<times> nat \<times> cfs) option" where
  "cfs_bigfile H data s =
     (case cfs_chunks H 8 0 data s of
        None \<Rightarrow> None
      | Some (es, s) \<Rightarrow>
          (case cfs_dir H es s of None \<Rightarrow> None | Some (h, s) \<Rightarrow> Some (h, length es, s)))"

fun cfs_diff :: "(bytes \<Rightarrow> bytes) \<Rightarrow> nat \<Rightarrow> bytes \<Rightarrow> bytes \<Rightarrow> nat \<Rightarrow> cfs \<Rightarrow> (nat \<times> nat) option"
and cfs_diff_kids :: "(bytes \<Rightarrow> bytes) \<Rightarrow> nat \<Rightarrow> bytes \<Rightarrow> nat list \<Rightarrow> nat \<Rightarrow> bytes \<Rightarrow> nat \<Rightarrow> nat \<Rightarrow> cfs \<Rightarrow> (nat \<times> nat) option" where
  "cfs_diff H 0 a b visited s = None"
| "cfs_diff H (Suc fuel) a b visited s =
     (if cvsasx_hash_eq a b then Some (0, visited)
      else case (cfs_find a s, cfs_find b s) of
             (Some ea, Some eb) \<Rightarrow>
               (if \<not> ce_is_dir (cf_tab s ! ea) \<or> \<not> ce_is_dir (cf_tab s ! eb) then Some (1, visited)
                else case store_get (cf_store s) a of
                       (CVSASX_STORE_OK, Some ba) \<Rightarrow>
                         cfs_diff_kids H fuel ba [0..<length ba div FS_ENT] (length ba div FS_ENT) b 0 (visited + 1) s
                     | _ \<Rightarrow> Some (1, visited + 1))
           | _ \<Rightarrow> Some (1, visited))"
| "cfs_diff_kids H fuel ba [] n b changed visited s = Some (changed, visited)"
| "cfs_diff_kids H fuel ba (k # ks) n b changed visited s =
     (case fs_resolve H (cf_store s) b (take 8 (dir_entry ba k)) n of
        None \<Rightarrow> None
      | Some None \<Rightarrow> cfs_diff_kids H fuel ba ks n b (changed + 1) visited s
      | Some (Some cb) \<Rightarrow>
          (case cfs_diff H fuel (take 32 (drop 8 (dir_entry ba k))) cb visited s of
             None \<Rightarrow> None
           | Some (m, visited) \<Rightarrow> cfs_diff_kids H fuel ba ks n b (changed + m) visited s))"

section \<open>Counting references\<close>

abbreviation rcn :: "cfs \<Rightarrow> bytes \<Rightarrow> nat" where
  "rcn s h \<equiv> unat (gc_rc_get h CFS_DOM (cf_d s))"

definition ent_edges :: "cvsasx_store \<Rightarrow> bytes set \<Rightarrow> cfs_ent \<Rightarrow> bytes \<Rightarrow> nat" where
  "ent_edges st V e h =
     (if ce_present e \<and> ce_is_dir e \<and> ce_h e \<notin> V then count_list (dir_kids st (ce_h e)) h else 0)"

definition edges :: "cfs \<Rightarrow> bytes set \<Rightarrow> bytes \<Rightarrow> nat" where
  "edges s V h = (\<Sum>i < length (cf_tab s). ent_edges (cf_store s) V (cf_tab s ! i) h)"

definition n_present :: "cfs \<Rightarrow> bytes set \<Rightarrow> nat" where
  "n_present s V = card {i. i < length (cf_tab s) \<and> ce_present (cf_tab s ! i) \<and> ce_h (cf_tab s ! i) \<notin> V}"

text \<open>
  The counts are exact: pins, plus the edges of the live directories, plus the references \<open>E\<close>
  somebody is about to drop.  The objects of \<open>V\<close> are being reclaimed: their edges are no
  longer counted and nothing refers to them.
\<close>

definition cfs_counts :: "cfs \<Rightarrow> bytes set \<Rightarrow> (bytes \<Rightarrow> nat) \<Rightarrow> bytes multiset \<Rightarrow> bool" where
  "cfs_counts s V pins E \<longleftrightarrow> rc_distinct (cf_d s) \<and>
     distinct (map ce_h (cf_tab s)) \<and> (\<forall>e \<in> set (cf_tab s). length (ce_h e) = 32) \<and>
     (\<forall>h. rcn s h = pins h + edges s V h + count E h) \<and> (\<forall>h \<in> V. rcn s h = 0)"

lemma rc_get_view: "gc_rc_get h dm d = (case dom_view dm d h of None \<Rightarrow> 0 | Some (c, _) \<Rightarrow> c)"
  by (simp add: gc_rc_get_def dom_view_def split: option.splits)

lemma gc_rc_get_cong: "gc_rc t = gc_rc s \<Longrightarrow> gc_rc_get h dm t = gc_rc_get h dm s"
  by (simp add: gc_rc_get_def gc_rc_find_def cong: option.case_cong)

lemma clear_tomb_get [simp]:
  assumes "rc_distinct d" shows "gc_rc_get h' dm (clear_tomb v h d) = gc_rc_get h' dm d" "rc_distinct (clear_tomb v h d)"
  using assms rc_upd_view[OF assms, of h CFS_DOM _ "\<lambda>r. r\<lparr>rc_tombstoned := v\<rparr>"]
  by (auto simp: clear_tomb_def rc_get_view dom_view_def[of CFS_DOM d h] split: option.splits)

lemma gc_freeblk_rc [simp]: "gc_rc (gc_freeblk b d) = gc_rc d"
  by (simp add: gc_freeblk_def)

lemma rc_dec:
  assumes "rc_distinct d" and "gc_rc_get h dm d \<noteq> 0"
  shows "rc_distinct (gc_rc_apply h dm (- 1) d)"
    and "unat (gc_rc_get h' dm (gc_rc_apply h dm (- 1) d)) = unat (gc_rc_get h' dm d) - (if h' = h then 1 else 0)"
proof -
  obtain e where e: "gc_rc_find h dm d = Some e"
    using assms(2) by (auto simp: gc_rc_get_def split: option.splits)
  note U = rc_upd_view[OF assms(1) e, of "\<lambda>r. r\<lparr>rc_count := rc_count r + - 1\<rparr>"]
  show "rc_distinct (gc_rc_apply h dm (- 1) d)" using U(1) e by (simp add: gc_rc_apply_def)
  have un: "unat (x - 1) = unat x - 1" if "x \<noteq> 0" for x :: s32
    using that by (rule unat_minus_one)
  show "unat (gc_rc_get h' dm (gc_rc_apply h dm (- 1) d)) = unat (gc_rc_get h' dm d) - (if h' = h then 1 else 0)"
  proof (cases "h' = h")
    case True
    have "gc_rc_get h dm (gc_rc_apply h dm (- 1) d) = gc_rc_get h dm d - 1"
      using U(2)[of dm h] e by (simp add: gc_rc_apply_def rc_get_view) (simp add: dom_view_def)
    then show ?thesis using True un[OF assms(2)] by simp
  next
    case False
    then show ?thesis using U(2)[of dm h'] e by (simp add: gc_rc_apply_def rc_get_view)
  qed
qed

lemma sum_change:
  fixes f g :: "nat \<Rightarrow> nat"
  assumes "e < n" and "\<And>i. i < n \<Longrightarrow> i \<noteq> e \<Longrightarrow> f i = g i"
  shows "(\<Sum>i<n. f i) + g e = (\<Sum>i<n. g i) + f e"
proof -
  have "(\<Sum>i<n. f i) = f e + (\<Sum>i\<in>{..<n} - {e}. f i)" "(\<Sum>i<n. g i) = g e + (\<Sum>i\<in>{..<n} - {e}. g i)"
    using assms(1) by (simp_all add: sum.remove)
  moreover have "(\<Sum>i\<in>{..<n} - {e}. f i) = (\<Sum>i\<in>{..<n} - {e}. g i)"
    using assms(2) by (intro sum.cong) auto
  ultimately show ?thesis by simp
qed

lemma cfs_find_iff:
  assumes "cfs_counts s V pins E" and "length h = 32"
  shows "cfs_find h s = Some e \<longleftrightarrow> e < length (cf_tab s) \<and> ce_h (cf_tab s ! e) = h"
proof -
  have d: "distinct (map ce_h (cf_tab s))" and l: "\<And>i. i < length (cf_tab s) \<Longrightarrow> length (ce_h (cf_tab s ! i)) = 32"
    using assms(1) by (auto simp: cfs_counts_def)
  have eq: "cvsasx_hash_eq (ce_h (cf_tab s ! i)) h \<longleftrightarrow> ce_h (cf_tab s ! i) = h" if "i < length (cf_tab s)" for i
    using l[OF that] assms(2) by (simp add: cvsasx_hash_eq_iff)
  have uniq: "i = j" if "i < length (cf_tab s)" "j < length (cf_tab s)" "ce_h (cf_tab s ! i) = ce_h (cf_tab s ! j)" for i j
    using d that nth_eq_iff_index_eq[of "map ce_h (cf_tab s)" i j] by simp
  show ?thesis
  proof
    assume "cfs_find h s = Some e"
    then obtain i where "i < length (cf_tab s)" "cvsasx_hash_eq (ce_h (cf_tab s ! i)) h" "e = i"
      by (auto simp: cfs_find_def find_Some_iff)
    then show "e < length (cf_tab s) \<and> ce_h (cf_tab s ! e) = h" using eq by simp
  next
    assume e: "e < length (cf_tab s) \<and> ce_h (cf_tab s ! e) = h"
    have "\<not> cvsasx_hash_eq (ce_h (cf_tab s ! j)) h" if "j < e" for j
      using uniq[of j e] eq[of j] e that by auto
    then show "cfs_find h s = Some e"
      unfolding cfs_find_def find_Some_iff using e eq[of e] by (intro exI[of _ e]) simp
  qed
qed

lemma div_bound: "k < n div m \<Longrightarrow> k * m + m \<le> (n :: nat)"
  by (metis Suc_leI add.commute div_times_less_eq_dividend mult_Suc mult_le_mono1 order_trans)

lemma kid_hashes_len: "h \<in> set (kid_hashes b) \<Longrightarrow> length h = 32"
proof -
  assume "h \<in> set (kid_hashes b)"
  then obtain k where k: "k < length b div 40" and h: "h = take 32 (drop (k * 40 + 8) b)"
    unfolding kid_hashes_def FS_ENT_def set_map set_upt by (elim imageE) (metis atLeastLessThan_iff)
  have "k * 40 + 40 \<le> length b" using k by (rule div_bound)
  then have "32 \<le> length b - (k * 40 + 8)" by linarith
  then show ?thesis unfolding h by simp
qed

lemma dir_kids_len: "h \<in> set (dir_kids st d) \<Longrightarrow> length h = 32"
  using kid_hashes_len by (auto simp: dir_kids_def split: prod.splits cvsasx_store_status.splits option.splits)

section \<open>Dropping a reference\<close>

text \<open>What a (partial) reclamation changes.\<close>

definition ent_frame :: "bytes set \<Rightarrow> cfs \<Rightarrow> cfs \<Rightarrow> cfs_ent \<Rightarrow> cfs_ent \<Rightarrow> bool" where
  "ent_frame V s s' e e' \<longleftrightarrow> ce_h e' = ce_h e \<and> ce_is_dir e' = ce_is_dir e \<and> ce_block e' = ce_block e \<and>
     (ce_present e' \<longrightarrow> ce_present e) \<and> (ce_h e \<in> V \<longrightarrow> ce_present e' = ce_present e) \<and>
     (ce_present e \<and> \<not> ce_present e' \<longrightarrow> rcn s' (ce_h e) = 0) \<and>
     (ce_present e' \<and> ce_h e \<notin> V \<and> rcn s' (ce_h e) = 0 \<longrightarrow> rcn s (ce_h e) = 0)"

definition cfs_frame :: "bytes set \<Rightarrow> cfs \<Rightarrow> cfs \<Rightarrow> bool" where
  "cfs_frame V s s' \<longleftrightarrow> cf_store s' = cf_store s \<and> length (cf_tab s') = length (cf_tab s) \<and>
     (\<forall>i < length (cf_tab s). ent_frame V s s' (cf_tab s ! i) (cf_tab s' ! i)) \<and> (\<forall>h. rcn s' h \<le> rcn s h)"

lemma cfs_frame_refl [simp]: "cfs_frame V s s"
  by (simp add: cfs_frame_def ent_frame_def)

lemma ent_frame_trans:
  assumes "ent_frame V s t e f" "ent_frame V t u f g" "rcn u (ce_h e) \<le> rcn t (ce_h e)"
  shows "ent_frame V s u e g"
  using assms by (auto simp: ent_frame_def)

lemma cfs_frameD:
  assumes "cfs_frame V s t"
  shows "cf_store t = cf_store s" "length (cf_tab t) = length (cf_tab s)"
    "i < length (cf_tab s) \<Longrightarrow> ent_frame V s t (cf_tab s ! i) (cf_tab t ! i)" "rcn t h \<le> rcn s h"
  using assms unfolding cfs_frame_def by blast+

lemma cfs_frame_trans:
  assumes "cfs_frame V s t" and "cfs_frame V t u" shows "cfs_frame V s u"
  unfolding cfs_frame_def
proof (intro conjI allI impI)
  note 1 = cfs_frameD[OF assms(1)] and 2 = cfs_frameD[OF assms(2)]
  show "cf_store u = cf_store s" "length (cf_tab u) = length (cf_tab s)"
    using 1(1,2) 2(1,2) by (simp_all only:)
  show "ent_frame V s u (cf_tab s ! i) (cf_tab u ! i)" if i: "i < length (cf_tab s)" for i
  proof (rule ent_frame_trans)
    show "ent_frame V s t (cf_tab s ! i) (cf_tab t ! i)" using i by (rule 1(3))
    show "ent_frame V t u (cf_tab t ! i) (cf_tab u ! i)" using i 1(2) 2(3) by (simp only:)
  qed (rule 2(4))
  show "rcn u h \<le> rcn s h" for h using 2(4) 1(4) by (rule order_trans)
qed

lemma cfs_dec_step:
  assumes "cfs_counts s V pins (add_mset h E)"
  defines "s1 \<equiv> s\<lparr>cf_d := gc_rc_apply h CFS_DOM (- 1) (cf_d s)\<rparr>"
  shows "cfs_counts s1 V pins E" "h \<notin> V" "rcn s1 h' = rcn s h' - (if h' = h then 1 else 0)" "rcn s h = rcn s1 h + 1"
proof -
  have d: "rc_distinct (cf_d s)" and e: "\<And>h'. rcn s h' = pins h' + edges s V h' + count (add_mset h E) h'"
    and V: "\<And>h'. h' \<in> V \<Longrightarrow> rcn s h' = 0"
    using assms(1) unfolding cfs_counts_def by blast+
  have pos: "rcn s h \<ge> 1" using e[of h] by simp
  then have nz: "gc_rc_get h CFS_DOM (cf_d s) \<noteq> 0" by auto
  show hV: "h \<notin> V" using V pos by force
  show r: "rcn s1 h' = rcn s h' - (if h' = h then 1 else 0)" for h'
    using rc_dec(2)[OF d nz] by (simp add: s1_def)
  show "rcn s h = rcn s1 h + 1" using r[of h] pos by simp
  have ed: "edges s1 V h' = edges s V h'" for h' by (simp add: edges_def s1_def)
  have "rcn s1 h' = pins h' + edges s1 V h' + count E h'" for h'
    unfolding r ed e by simp
  moreover have "rcn s1 h' = 0" if "h' \<in> V" for h' using r[of h'] V[OF that] by simp
  ultimately show "cfs_counts s1 V pins E"
    using rc_dec(1)[OF d nz] assms(1) by (simp add: cfs_counts_def s1_def)
qed

lemma cfs_dec_frame:
  assumes "cfs_counts s V pins (add_mset h E)" and "rcn s1 h \<noteq> 0 \<or> (\<forall>i < length (cf_tab s). ce_h (cf_tab s ! i) = h \<longrightarrow> \<not> ce_present (cf_tab s ! i))"
    and s1: "s1 = s\<lparr>cf_d := gc_rc_apply h CFS_DOM (- 1) (cf_d s)\<rparr>"
  shows "cfs_frame V s s1"
proof -
  note D = cfs_dec_step[OF assms(1), folded s1]
  have t: "cf_tab s1 = cf_tab s" "cf_store s1 = cf_store s" by (simp_all add: s1)
  have "ent_frame V s s1 (cf_tab s ! i) (cf_tab s ! i)" if "i < length (cf_tab s)" for i
    using D(3)[of "ce_h (cf_tab s ! i)"] assms(2) that by (auto simp: ent_frame_def)
  then show ?thesis using D(3) by (simp add: cfs_frame_def t)
qed

text \<open>Entering the reclamation of a directory: its edges become references to drop.\<close>

lemma cfs_enter:
  assumes c: "cfs_counts s V pins E" and z: "rcn s h = 0" and e: "e < length (cf_tab s)" "ce_h (cf_tab s ! e) = h" "ce_present (cf_tab s ! e)"
    and hV: "h \<notin> V"
  shows "cfs_counts s (insert h V) pins (E + mset (if ce_is_dir (cf_tab s ! e) then dir_kids (cf_store s) h else []))"
    and "n_present s V = Suc (n_present s (insert h V))"
proof -
  let ?ks = "if ce_is_dir (cf_tab s ! e) then dir_kids (cf_store s) h else []"
  have uniq: "ce_h (cf_tab s ! i) \<noteq> h" if "i < length (cf_tab s)" "i \<noteq> e" for i
    using c e(1,2) that nth_eq_iff_index_eq[of "map ce_h (cf_tab s)" i e] by (auto simp: cfs_counts_def)
  have ed: "edges s V h' = edges s (insert h V) h' + count_list ?ks h'" for h'
  proof -
    have "edges s V h' + ent_edges (cf_store s) (insert h V) (cf_tab s ! e) h' =
        edges s (insert h V) h' + ent_edges (cf_store s) V (cf_tab s ! e) h'"
      unfolding edges_def by (rule sum_change[OF e(1)]) (use uniq in \<open>auto simp: ent_edges_def\<close>)
    then show ?thesis using e(2,3) hV by (simp add: ent_edges_def)
  qed
  have cnt: "rcn s h' = pins h' + edges s V h' + count E h'" for h' using c unfolding cfs_counts_def by blast
  have "rcn s h' = pins h' + edges s (insert h V) h' + count (E + mset ?ks) h'" for h'
    unfolding cnt ed by (simp add: count_mset)
  then show "cfs_counts s (insert h V) pins (E + mset ?ks)"
    using c z unfolding cfs_counts_def by blast
  let ?A = "{i. i < length (cf_tab s) \<and> ce_present (cf_tab s ! i) \<and> ce_h (cf_tab s ! i) \<notin> insert h V}"
  have "{i. i < length (cf_tab s) \<and> ce_present (cf_tab s ! i) \<and> ce_h (cf_tab s ! i) \<notin> V} = insert e ?A"
    using e hV uniq by blast
  moreover have "e \<notin> ?A" "finite ?A" using e(2) by auto
  ultimately show "n_present s V = Suc (n_present s (insert h V))"
    unfolding n_present_def by simp
qed

text \<open>Committing the reclamation after the children were dropped.\<close>

lemma cfs_leave:
  assumes c: "cfs_counts s (insert h V) pins E" and e: "e < length (cf_tab s)" "ce_h (cf_tab s ! e) = h"
    and hV: "h \<notin> V" and s3: "s3 = cfs_reclaim e h s"
  shows "cfs_counts s3 V pins E" and "n_present s3 V = n_present s (insert h V)" and "rcn s3 h' = rcn s h'"
    and "cf_store s3 = cf_store s" "length (cf_tab s3) = length (cf_tab s)"
    and "cf_tab s3 ! i = (if i = e then (cf_tab s ! e)\<lparr>ce_present := False\<rparr> else cf_tab s ! i)"
proof -
  have d: "rc_distinct (cf_d s)" using c by (simp add: cfs_counts_def)
  show t: "cf_store s3 = cf_store s" "length (cf_tab s3) = length (cf_tab s)"
    by (simp_all add: s3 cfs_reclaim_def)
  show n: "cf_tab s3 ! i = (if i = e then (cf_tab s ! e)\<lparr>ce_present := False\<rparr> else cf_tab s ! i)" for i
    using e(1) by (simp add: s3 cfs_reclaim_def)
  have gr: "gc_rc (cf_d s3) = gc_rc (clear_tomb True h (cf_d s))" by (simp add: s3 cfs_reclaim_def)
  show r: "rcn s3 h' = rcn s h'" for h'
    using gc_rc_get_cong[OF gr] clear_tomb_get(1)[OF d] by simp
  have uniq: "ce_h (cf_tab s ! i) \<noteq> h" if "i < length (cf_tab s)" "i \<noteq> e" for i
    using c e that nth_eq_iff_index_eq[of "map ce_h (cf_tab s)" i e] by (auto simp: cfs_counts_def)
  have ed: "edges s3 V h' = edges s (insert h V) h'" for h'
    unfolding edges_def t n using e(2) uniq by (intro sum.cong) (auto simp: ent_edges_def)
  have hs: "map ce_h (cf_tab s3) = map ce_h (cf_tab s)"
    by (rule nth_equalityI) (simp_all add: t n)
  then have "ce_h ` set (cf_tab s3) = ce_h ` set (cf_tab s)" by (metis list.set_map)
  moreover have "\<forall>x \<in> ce_h ` set (cf_tab s). length x = 32" using c by (simp add: cfs_counts_def)
  ultimately have "\<forall>x \<in> set (cf_tab s3). length (ce_h x) = 32" by blast
  moreover have "rc_distinct (cf_d s3)"
    using clear_tomb_get(2)[OF d] gr by (simp add: rc_distinct_def)
  ultimately show "cfs_counts s3 V pins E"
    using c unfolding cfs_counts_def r ed hs by blast
  have "{i. i < length (cf_tab s3) \<and> ce_present (cf_tab s3 ! i) \<and> ce_h (cf_tab s3 ! i) \<notin> V} =
      {i. i < length (cf_tab s) \<and> ce_present (cf_tab s ! i) \<and> ce_h (cf_tab s ! i) \<notin> insert h V}"
    unfolding t n using e(2) uniq by auto
  then show "n_present s3 V = n_present s (insert h V)" by (simp add: n_present_def)
qed

lemma cfs_leave_frame:
  assumes c0: "cfs_counts s V pins (add_mset h E0)" and s1: "s1 = s\<lparr>cf_d := gc_rc_apply h CFS_DOM (- 1) (cf_d s)\<rparr>"
    and z: "rcn s1 h = 0" and f: "cfs_frame (insert h V) s1 s2" and c: "cfs_counts s2 (insert h V) pins E"
    and e: "e < length (cf_tab s)" "ce_h (cf_tab s ! e) = h" and hV: "h \<notin> V" and s3: "s3 = cfs_reclaim e h s2"
  shows "cfs_frame V s s3"
proof -
  note D = cfs_dec_step[OF c0, folded s1]
  note F = cfs_frameD[OF f]
  have t: "cf_tab s1 = cf_tab s" "cf_store s1 = cf_store s" by (simp_all add: s1)
  have e2: "e < length (cf_tab s2)" "ce_h (cf_tab s2 ! e) = h"
    using F(2) F(3)[of e] e by (simp_all add: t ent_frame_def)
  note L = cfs_leave[OF c e2 hV s3]
  have uniq: "ce_h (cf_tab s ! i) \<noteq> h" if "i < length (cf_tab s)" "i \<noteq> e" for i
    using c0 e that nth_eq_iff_index_eq[of "map ce_h (cf_tab s)" i e] by (auto simp: cfs_counts_def)
  have "ent_frame V s s3 (cf_tab s ! i) (cf_tab s3 ! i)" if i: "i < length (cf_tab s)" for i
  proof (cases "i = e")
    case True
    have "rcn s3 h = 0" using F(4)[of h] z L(3)[of h] by simp
    then show ?thesis using True F(3)[of e] e hV i by (auto simp: L(6) ent_frame_def t)
  next
    case False
    have "rcn s1 (ce_h (cf_tab s ! i)) = rcn s (ce_h (cf_tab s ! i))" using D(3) uniq[OF i False] by simp
    then show ?thesis using F(3)[of i] i uniq[OF i False] False by (simp add: L(3,6) ent_frame_def t)
  qed
  moreover have "rcn s3 h' \<le> rcn s h'" for h' using F(4)[of h'] D(3)[of h'] L(3)[of h'] by simp
  ultimately show ?thesis using F(1,2) L(4,5) by (simp add: cfs_frame_def t)
qed

definition unref_ok :: "nat \<Rightarrow> (bytes \<Rightarrow> nat) \<Rightarrow> bool" where
  "unref_ok fuel pins \<longleftrightarrow> (\<forall>h s V E. cfs_counts s V pins (add_mset h E) \<longrightarrow> length h = 32 \<longrightarrow> n_present s V < fuel \<longrightarrow>
     (\<exists>n s'. cfs_unref fuel h s = Some (n, s') \<and> cfs_counts s' V pins E \<and> cfs_frame V s s' \<and> n + n_present s' V = n_present s V))"

lemma unref_kids_ok:
  assumes "unref_ok fuel pins" and "cfs_counts s V pins (E + mset cs)" and "\<forall>c \<in> set cs. length c = 32" and "n_present s V < fuel"
  shows "\<exists>m s'. cfs_unref_kids fuel cs freed s = Some (freed + m, s') \<and> cfs_counts s' V pins E \<and> cfs_frame V s s' \<and>
    m + n_present s' V = n_present s V"
  using assms(2-4)
proof (induction cs arbitrary: freed s)
  case (Cons c cs)
  have "cfs_counts s V pins (add_mset c (E + mset cs))" using Cons.prems(1) by simp
  then obtain n t where t: "cfs_unref fuel c s = Some (n, t)" "cfs_counts t V pins (E + mset cs)" "cfs_frame V s t" "n + n_present t V = n_present s V"
    using assms(1) Cons.prems(2,3) unfolding unref_ok_def by (metis list.set_intros(1))
  then obtain m u where u: "cfs_unref_kids fuel cs (freed + n) t = Some (freed + n + m, u)" "cfs_counts u V pins E" "cfs_frame V t u"
      "m + n_present u V = n_present t V"
    using Cons.IH[of t "freed + n"] Cons.prems(2,3) by auto
  show ?case
    using t u cfs_frame_trans[OF t(3) u(3)] by (intro exI[of _ "n + m"] exI[of _ u]) (simp add: add.assoc)
qed auto

lemma unref_ok_all: "unref_ok fuel pins"
proof (induction fuel)
  case 0
  then show ?case by (simp add: unref_ok_def)
next
  case (Suc fuel)
  show ?case unfolding unref_ok_def
  proof (intro allI impI)
    fix h s V E assume c: "cfs_counts s V pins (add_mset h E)" and h: "length h = 32" and n: "n_present s V < Suc fuel"
    define s1 where "s1 = s\<lparr>cf_d := gc_rc_apply h CFS_DOM (- 1) (cf_d s)\<rparr>"
    note D = cfs_dec_step[OF c, folded s1_def]
    have np: "n_present s1 V = n_present s V" and tab: "cf_tab s1 = cf_tab s" "cf_store s1 = cf_store s"
      by (simp_all add: s1_def n_present_def)
    have find: "cfs_find h s1 = Some e \<longleftrightarrow> e < length (cf_tab s) \<and> ce_h (cf_tab s ! e) = h" for e
      using cfs_find_iff[OF D(1) h] by (simp add: tab)
    show "\<exists>n s'. cfs_unref (Suc fuel) h s = Some (n, s') \<and> cfs_counts s' V pins E \<and> cfs_frame V s s' \<and> n + n_present s' V = n_present s V"
    proof (cases "rcn s1 h = 0 \<and> (\<exists>e. cfs_find h s1 = Some e \<and> ce_present (cf_tab s ! e))")
      case False
      then have "cfs_unref (Suc fuel) h s = Some (0, s1)"
        by (auto simp: Let_def s1_def[symmetric] tab split: option.splits)
      moreover have "cfs_frame V s s1" using False find by (intro cfs_dec_frame[OF c _ s1_def]) blast
      ultimately show ?thesis using D(1) np by auto
    next
      case True
      then obtain e where z: "rcn s1 h = 0" and fe: "cfs_find h s1 = Some e" and pr: "ce_present (cf_tab s1 ! e)"
        by (auto simp: tab)
      have e: "e < length (cf_tab s1)" "ce_h (cf_tab s1 ! e) = h" using iffD1[OF find fe] by (simp_all add: tab)
      let ?ks = "if ce_is_dir (cf_tab s1 ! e) then dir_kids (cf_store s1) h else []"
      note N = cfs_enter[OF D(1) z e pr D(2)]
      have kl: "\<forall>c \<in> set ?ks. length c = 32" using dir_kids_len by auto
      have "n_present s1 (insert h V) < fuel" using N(2) np n by simp
      then obtain m s2 where k: "cfs_unref_kids fuel ?ks 0 s1 = Some (0 + m, s2)" "cfs_counts s2 (insert h V) pins E"
          "cfs_frame (insert h V) s1 s2" "m + n_present s2 (insert h V) = n_present s1 (insert h V)"
        using unref_kids_ok[OF Suc.IH N(1) kl, of 0] by blast
      have e2: "e < length (cf_tab s2)" "ce_h (cf_tab s2 ! e) = h"
        using cfs_frameD[OF k(3)] e by (simp_all add: ent_frame_def)
      note L = cfs_leave[OF k(2) e2 D(2) refl]
      have fr: "cfs_frame V s (cfs_reclaim e h s2)"
        using cfs_leave_frame[OF c s1_def z k(3,2) _ _ D(2) refl] e by (simp add: tab)
      have "cfs_unref (Suc fuel) h s = Some (m + 1, cfs_reclaim e h s2)"
        using z fe pr k(1) by (simp add: Let_def s1_def[symmetric] unat_eq_zero)
      then show ?thesis using L(1,2) fr k(4) N(2) np by simp
    qed
  qed
qed

section \<open>Adding objects and pins\<close>

definition cfs_inv :: "(bytes \<Rightarrow> bytes) \<Rightarrow> cfs \<Rightarrow> (bytes \<Rightarrow> nat) \<Rightarrow> bool" where
  "cfs_inv H s pins \<longleftrightarrow> cfs_counts s {} pins {#} \<and> store_inv H (cf_store s) \<and> length (cf_tab s) \<le> CFS_MAXOBJ \<and>
     (\<forall>e \<in> set (cf_tab s). ce_present e \<and> ce_is_dir e \<longrightarrow> store_map (cf_store s) (ce_h e) \<noteq> None)"

lemma dir_kids_map: "dir_kids st h = (case store_map st h of None \<Rightarrow> [] | Some b \<Rightarrow> kid_hashes b)"
  by (auto simp: dir_kids_def store_map_def store_get_def split: option.splits)

lemma rc_inc:
  assumes "rc_distinct d" and "length (gc_rc d) < GC_RC_N" and "unat (gc_rc_get h dm d) + 1 < 2 ^ 32"
  shows "rc_distinct (gc_rc_apply h dm 1 d)" and "length (gc_rc (gc_rc_apply h dm 1 d)) \<le> Suc (length (gc_rc d))"
    and "unat (gc_rc_get h' dm (gc_rc_apply h dm 1 d)) = unat (gc_rc_get h' dm d) + (if h' = h then 1 else 0)"
proof -
  note A = gc_rc_apply_view[OF assms(1,2), where h = h and dm = dm and x = 1]
  show "rc_distinct (gc_rc_apply h dm 1 d)" by (rule A(1))
  show "length (gc_rc (gc_rc_apply h dm 1 d)) \<le> Suc (length (gc_rc d))"
    by (auto simp: gc_rc_apply_def rc_upd_def split: option.splits)
  have "gc_rc_get h' dm (gc_rc_apply h dm 1 d) = gc_rc_get h' dm d + (if h' = h then 1 else 0)"
    by (simp add: rc_get_view A(2) split: option.splits)
  moreover have "unat (gc_rc_get h dm d + 1) = unat (gc_rc_get h dm d) + 1"
    using assms(3) by (intro trans[OF unat_add_no_wrap]) simp_all
  ultimately show "unat (gc_rc_get h' dm (gc_rc_apply h dm 1 d)) = unat (gc_rc_get h' dm d) + (if h' = h then 1 else 0)"
    by simp
qed

lemma rc_incs:
  assumes "rc_distinct d" and "length (gc_rc d) + length cs \<le> GC_RC_N" and "\<forall>h. unat (gc_rc_get h dm d) + length cs < 2 ^ 32"
  shows "rc_distinct (foldl (\<lambda>d c. gc_rc_apply c dm 1 d) d cs) \<and>
    unat (gc_rc_get h' dm (foldl (\<lambda>d c. gc_rc_apply c dm 1 d) d cs)) = unat (gc_rc_get h' dm d) + count_list cs h'"
  using assms
proof (induction cs arbitrary: d)
  case (Cons c cs)
  have l: "length (gc_rc d) < GC_RC_N" using Cons.prems(2) by simp
  have b: "unat (gc_rc_get c dm d) + 1 < 2 ^ 32" using Cons.prems(3)[rule_format, of c] by (simp only: list.size)
  note I = rc_inc[OF Cons.prems(1) l b]
  have "\<forall>h. unat (gc_rc_get h dm (gc_rc_apply c dm 1 d)) + length cs < 2 ^ 32"
  proof
    fix h show "unat (gc_rc_get h dm (gc_rc_apply c dm 1 d)) + length cs < 2 ^ 32"
      using I(3)[of h] Cons.prems(3)[rule_format, of h] by (auto split: if_splits)
  qed
  then show ?case using Cons.IH[OF I(1)] I(2,3) Cons.prems(2) by simp
qed simp

lemma cfs_pin_inv:
  assumes "cfs_inv H s pins" and "length (gc_rc (cf_d s)) < GC_RC_N" and "rcn s h + 1 < 2 ^ 32"
  shows "cfs_inv H (cfs_pin h s) (pins(h := Suc (pins h)))"
proof -
  have c: "cfs_counts s {} pins {#}" using assms(1) by (simp add: cfs_inv_def)
  have d: "rc_distinct (cf_d s)" and e: "\<And>h'. rcn s h' = pins h' + edges s {} h'"
    using c by (simp_all add: cfs_counts_def)
  note I = rc_inc[OF d assms(2,3)]
  have ed: "edges (cfs_pin h s) {} h' = edges s {} h'" for h' by (simp add: edges_def cfs_pin_def)
  have "rcn (cfs_pin h s) h' = (pins(h := Suc (pins h))) h' + edges (cfs_pin h s) {} h'" for h'
    using I(3)[of h'] e[of h'] ed[of h'] by (simp add: cfs_pin_def)
  then show ?thesis using assms(1) I(1) by (simp add: cfs_inv_def cfs_counts_def) (simp add: cfs_pin_def)
qed

lemma cfs_store_inv:
  assumes "cfs_inv H s pins" and "hash_fn H" and "store_put H (cf_store s) bs = (r, st, oh)" and "length bs < 2 ^ 64"
  shows "cfs_inv H (s\<lparr>cf_store := st\<rparr>) pins"
proof -
  have i: "store_inv H (cf_store s)" using assms(1) by (simp add: cfs_inv_def)
  have same: "ent_edges st {} x h = ent_edges (cf_store s) {} x h \<and> (ce_present x \<and> ce_is_dir x \<longrightarrow> store_map st (ce_h x) \<noteq> None)" if "x \<in> set (cf_tab s)" for x h
  proof (cases "ce_present x \<and> ce_is_dir x")
    case True
    then obtain b where b: "store_map (cf_store s) (ce_h x) = Some b" using assms(1) \<open>x \<in> set _\<close> by (auto simp: cfs_inv_def)
    have "length (ce_h x) = 32" using assms(1) \<open>x \<in> set _\<close> by (simp add: cfs_inv_def cfs_counts_def)
    then have "store_map st (ce_h x) = Some b" using hash_fn.store_lookup_mono[OF assms(2) i assms(4,3) _ b] by simp
    then show ?thesis using b by (simp add: ent_edges_def dir_kids_map)
  qed (auto simp: ent_edges_def)
  then have "edges (s\<lparr>cf_store := st\<rparr>) {} h = edges s {} h" for h
    by (auto simp: edges_def intro!: sum.cong)
  then show ?thesis
    using assms(1) same hash_fn.store_put_inv[OF assms(2) i assms(4,3)] by (simp add: cfs_inv_def cfs_counts_def)
qed

text \<open>
  Materialising an entry: it becomes present, and when it is a directory the counts of its
  children grow by exactly the edges it adds.
\<close>

lemma cfs_present_counts:
  assumes c: "cfs_counts s {} pins {#}" and e: "e < length (cf_tab s)" "\<not> ce_present (cf_tab s ! e)"
    and d: "rc_distinct d" "\<And>h'. unat (gc_rc_get h' CFS_DOM d) = rcn s h' + (if dr then count_list (dir_kids (cf_store s) (ce_h (cf_tab s ! e))) h' else 0)"
    and s': "s' = s\<lparr>cf_tab := (cf_tab s)[e := \<lparr>ce_h = ce_h (cf_tab s ! e), ce_block = b, ce_is_dir = dr, ce_present = True\<rparr>], cf_d := d\<rparr>"
  shows "cfs_counts s' {} pins {#}"
proof -
  let ?n = "\<lparr>ce_h = ce_h (cf_tab s ! e), ce_block = b, ce_is_dir = dr, ce_present = True\<rparr>"
  have nth: "cf_tab s' ! i = (if i = e then ?n else cf_tab s ! i)" if "i < length (cf_tab s)" for i
    using that e(1) by (simp add: s')
  have len: "length (cf_tab s') = length (cf_tab s)" and st: "cf_store s' = cf_store s" by (simp_all add: s')
  have hs: "map ce_h (cf_tab s') = map ce_h (cf_tab s)"
    by (rule nth_equalityI) (simp_all add: len nth)
  have "edges s' {} h' + ent_edges (cf_store s) {} (cf_tab s ! e) h' = edges s {} h' + ent_edges (cf_store s) {} ?n h'" for h'
    using sum_change[OF e(1), where f = "\<lambda>i. ent_edges (cf_store s) {} (cf_tab s' ! i) h'" and g = "\<lambda>i. ent_edges (cf_store s) {} (cf_tab s ! i) h'"] nth e(1)
    unfolding edges_def len st by simp
  then have ed: "edges s' {} h' = edges s {} h' + (if dr then count_list (dir_kids (cf_store s) (ce_h (cf_tab s ! e))) h' else 0)" for h'
    using e(2) by (simp add: ent_edges_def split: if_splits)
  have cnt: "rcn s h' = pins h' + edges s {} h'" for h' using c by (simp add: cfs_counts_def)
  have "rcn s' h' = pins h' + edges s' {} h'" for h'
    using d(2)[of h'] cnt[of h'] ed[of h'] by (simp add: s')
  moreover have "\<forall>x \<in> set (cf_tab s'). length (ce_h x) = 32"
  proof -
    have "ce_h ` set (cf_tab s') = ce_h ` set (cf_tab s)" using hs by (metis list.set_map)
    moreover have "\<forall>x \<in> ce_h ` set (cf_tab s). length x = 32" using c by (simp add: cfs_counts_def)
    ultimately show ?thesis by blast
  qed
  moreover have "rc_distinct (cf_d s')" "distinct (map ce_h (cf_tab s'))" using c d(1) hs by (simp_all add: cfs_counts_def) (simp add: s')
  ultimately show ?thesis unfolding cfs_counts_def by simp
qed

lemma cfs_mat_inv:
  assumes inv: "cfs_inv H s pins" and h: "length h = 32" and b: "dr \<Longrightarrow> store_map (cf_store s) h = Some bs"
    and room: "length (gc_rc (cf_d s)) + length (kid_hashes bs) \<le> GC_RC_N" and cap: "\<forall>h. rcn s h + length (kid_hashes bs) < 2 ^ 32"
    and m: "cfs_mat H h bs dr s = Some s'"
  shows "cfs_inv H s' pins"
proof -
  define e where "e = (case cfs_find h s of Some e \<Rightarrow> e | None \<Rightarrow> length (cf_tab s))"
  define tab where "tab = (case cfs_find h s of Some _ \<Rightarrow> cf_tab s
                 | None \<Rightarrow> cf_tab s @ [\<lparr>ce_h = h, ce_block = 0, ce_is_dir = False, ce_present = False\<rparr>])"
  have c: "cfs_counts s {} pins {#}" using inv by (simp add: cfs_inv_def)
  have find: "cfs_find h s = Some e' \<longleftrightarrow> e' < length (cf_tab s) \<and> ce_h (cf_tab s ! e') = h" for e'
    using cfs_find_iff[OF c h] .
  have e: "e < length tab" "ce_h (tab ! e) = h"
    using iffD1[OF find] by (cases "cfs_find h s"; simp add: e_def tab_def)+
  have new: "h \<notin> ce_h ` set (cf_tab s)" if "cfs_find h s = None"
    using iffD2[OF find] that by (metis (no_types, lifting) imageE in_set_conv_nth option.distinct(1))
  have inv1: "cfs_inv H (s\<lparr>cf_tab := tab\<rparr>) pins" if "length tab \<le> CFS_MAXOBJ"
  proof (cases "cfs_find h s")
    case None
    have "edges (s\<lparr>cf_tab := tab\<rparr>) {} h' = edges s {} h'" for h'
      by (simp add: edges_def tab_def None nth_append ent_edges_def) (rule sum.cong, simp_all)
    then show ?thesis
      using inv that new[OF None] h by (simp add: cfs_inv_def cfs_counts_def) (simp add: tab_def None)
  qed (use inv in \<open>simp add: tab_def\<close>)
  obtain blk hh d0 where g: "gc_obj_put H bs (cf_d s) = (blk, hh, d0)" by (cases "gc_obj_put H bs (cf_d s)") auto
  have gr: "gc_rc d0 = gc_rc (cf_d s)"
    using g by (auto simp: gc_obj_put_def gc_alloc_def vblk_write_def Let_def split: list.splits if_splits)
  define d1 where "d1 = clear_tomb False h d0"
  define d2 where "d2 = (if dr then foldl (\<lambda>d c. gc_rc_apply c CFS_DOM 1 d) d1 (kid_hashes bs) else d1)"
  have m': "s' = (if ce_present (tab ! e) then s\<lparr>cf_tab := tab\<rparr>
      else s\<lparr>cf_tab := tab[e := \<lparr>ce_h = ce_h (tab ! e), ce_block = blk, ce_is_dir = dr, ce_present = True\<rparr>], cf_d := d2\<rparr>)"
    and tl: "length tab \<le> CFS_MAXOBJ"
    using m by (auto simp: cfs_mat_def Let_def g e_def[symmetric] tab_def[symmetric] d1_def[symmetric] d2_def split: if_splits)
  note inv1 = inv1[OF tl]
  show ?thesis
  proof (cases "ce_present (tab ! e)")
    case False
    have d0: "rc_distinct d0" "\<And>h'. gc_rc_get h' CFS_DOM d0 = gc_rc_get h' CFS_DOM (cf_d s)"
      using c gr gc_rc_get_cong[OF gr] by (simp_all add: cfs_counts_def rc_distinct_def)
    have d1: "rc_distinct d1" "\<And>h'. gc_rc_get h' CFS_DOM d1 = gc_rc_get h' CFS_DOM (cf_d s)"
      using clear_tomb_get[OF d0(1)] d0(2) by (simp_all add: d1_def)
    have l1: "length (gc_rc d1) = length (gc_rc (cf_d s))"
      by (simp add: d1_def clear_tomb_def rc_upd_def gr split: option.splits)
    have d2: "rc_distinct d2" "\<And>h'. unat (gc_rc_get h' CFS_DOM d2) = rcn s h' + (if dr then count_list (kid_hashes bs) h' else 0)"
      using rc_incs[OF d1(1), of "kid_hashes bs" CFS_DOM] room cap l1 d1 by (simp_all add: d2_def)
    let ?s1 = "s\<lparr>cf_tab := tab\<rparr>"
    have k: "dr \<Longrightarrow> dir_kids (cf_store s) h = kid_hashes bs" using b by (simp add: dir_kids_map)
    have "cfs_counts s' {} pins {#}"
    proof (rule cfs_present_counts[of ?s1 pins e d2 dr])
      show "cfs_counts ?s1 {} pins {#}" using inv1 by (simp add: cfs_inv_def)
      show "unat (gc_rc_get h' CFS_DOM d2) = rcn ?s1 h' + (if dr then count_list (dir_kids (cf_store ?s1) (ce_h (cf_tab ?s1 ! e))) h' else 0)" for h'
        using d2(2) k e(2) by simp
      show "s' = ?s1\<lparr>cf_tab := (cf_tab ?s1)[e := \<lparr>ce_h = ce_h (cf_tab ?s1 ! e), ce_block = blk, ce_is_dir = dr, ce_present = True\<rparr>], cf_d := d2\<rparr>"
        using m' False by simp
    qed (use e(1) False d2(1) in simp_all)
    moreover have "\<forall>x \<in> set (cf_tab s'). ce_present x \<and> ce_is_dir x \<longrightarrow> store_map (cf_store s) (ce_h x) \<noteq> None"
      using inv1 b e(2) m' False by (auto simp: cfs_inv_def dest!: set_update_subset_insert[THEN subsetD])
    ultimately show ?thesis using inv tl m' False by (simp add: cfs_inv_def)
  qed (use m' inv1 in simp)
qed

section \<open>Histories of the file system\<close>

text \<open>
  The operations with the room the source takes for granted: free entries of the count table,
  counts that do not wrap, and puts that the store accepts.  A root is unpinned only by whoever
  pinned it.
\<close>

inductive cfs_step :: "(bytes \<Rightarrow> bytes) \<Rightarrow> cfs \<times> (bytes \<Rightarrow> nat) \<Rightarrow> cfs \<times> (bytes \<Rightarrow> nat) \<Rightarrow> bool" for H where
  step_file: "cfs_file H bs s = Some (h, s') \<Longrightarrow> length bs < 2 ^ 64 \<Longrightarrow>
     length (gc_rc (cf_d s)) + length (kid_hashes bs) \<le> GC_RC_N \<Longrightarrow> \<forall>h. rcn s h + length (kid_hashes bs) < 2 ^ 32 \<Longrightarrow>
     cfs_step H (s, pins) (s', pins)"
| step_dir: "cfs_dir H ents s = Some (h, s') \<Longrightarrow> \<forall>(nm, c) \<in> set ents. length nm = 8 \<and> length c = 32 \<Longrightarrow>
     length (gc_rc (cf_d s)) + FS_MAXENT \<le> GC_RC_N \<Longrightarrow> \<forall>h. rcn s h + FS_MAXENT < 2 ^ 32 \<Longrightarrow>
     (\<forall>b. store_map (cf_store s) (H (dir_bytes ents)) = Some b \<longrightarrow> b = dir_bytes ents) \<Longrightarrow>
     cfs_step H (s, pins) (s', pins)"
| step_pin: "length (gc_rc (cf_d s)) < GC_RC_N \<Longrightarrow> rcn s h + 1 < 2 ^ 32 \<Longrightarrow> 
     cfs_step H (s, pins) (cfs_pin h s, pins(h := Suc (pins h)))"
| step_unref: "0 < pins r \<Longrightarrow> length r = 32 \<Longrightarrow> cfs_unref (Suc CFS_MAXOBJ) r s = Some (n, s') \<Longrightarrow>
     cfs_step H (s, pins) (s', pins(r := pins r - 1))"

lemma length_dir_bytes:
  "\<forall>(nm, c) \<in> set ents. length nm = 8 \<and> length c = 32 \<Longrightarrow> length (dir_bytes ents) = 40 * length ents"
  by (induction ents) (auto simp: dir_bytes_def)

lemma n_present_le: "n_present s V \<le> length (cf_tab s)"
  unfolding n_present_def by (rule order_trans[OF card_mono[of "{..<length (cf_tab s)}"]]) auto

lemma cfs_counts_pin:
  assumes "cfs_counts s {} pins {#}" and "0 < pins r"
  shows "cfs_counts s {} (pins(r := pins r - 1)) {#r#}"
  using assms unfolding cfs_counts_def by auto

lemma cfs_unref_inv:
  assumes inv: "cfs_inv H s pins" and r: "0 < pins r" "length r = 32"
  shows "\<exists>n s'. cfs_unref (Suc CFS_MAXOBJ) r s = Some (n, s') \<and> cfs_inv H s' (pins(r := pins r - 1)) \<and>
    cfs_frame {} s s' \<and> n + n_present s' {} = n_present s {}"
proof -
  have c: "cfs_counts s {} (pins(r := pins r - 1)) (add_mset r {#})"
    using cfs_counts_pin inv r(1) by (simp add: cfs_inv_def)
  have "n_present s {} < Suc CFS_MAXOBJ" using n_present_le[of s "{}"] inv by (simp add: cfs_inv_def)
  then obtain n s' where u: "cfs_unref (Suc CFS_MAXOBJ) r s = Some (n, s')" "cfs_counts s' {} (pins(r := pins r - 1)) {#}"
      "cfs_frame {} s s'" "n + n_present s' {} = n_present s {}"
    using unref_ok_all[unfolded unref_ok_def] c r(2) by meson
  note F = cfs_frameD[OF u(3)]
  have "store_map (cf_store s) (ce_h x) \<noteq> None" if x: "x \<in> set (cf_tab s')" "ce_present x \<and> ce_is_dir x" for x
  proof -
    obtain i where "i < length (cf_tab s)" "x = cf_tab s' ! i" using x(1) F(2) by (auto simp: in_set_conv_nth)
    then show ?thesis using F(3)[of i] x(2) inv by (auto simp: ent_frame_def cfs_inv_def)
  qed
  then have "cfs_inv H s' (pins(r := pins r - 1))"
    using inv u(2) F(1,2) by (simp add: cfs_inv_def)
  then show ?thesis using u by blast
qed

lemma cfs_step_inv:
  assumes H: "hash_fn H" and "cfs_step H m m'" and "cfs_inv H (fst m) (snd m)"
  shows "cfs_inv H (fst m') (snd m')"
  using assms(2,3)
proof (cases rule: cfs_step.cases)
  case (step_file bs s h s' pins)
  obtain r st where p: "store_put H (cf_store s) bs = (r, st, Some h)" and m: "cfs_mat H h bs False (s\<lparr>cf_store := st\<rparr>) = Some s'"
    using step_file(3) by (auto simp: cfs_file_def split: prod.splits option.splits)
  have "r = CVSASX_STORE_OK" using store_put_fail[OF p] by auto
  then have h: "length h = 32" using store_put_hash[of H "cf_store s" bs st "Some h"] p H by (simp add: hash_fn_def)
  have "cfs_inv H (s\<lparr>cf_store := st\<rparr>) pins" using cfs_store_inv[OF _ H p step_file(4)] assms(3) step_file(1) by simp
  then show ?thesis using cfs_mat_inv[OF _ h _ _ _ m] step_file by simp
next
  case (step_dir ents s h s' pins)
  let ?b = "dir_bytes ents"
  obtain r st where n: "length ents \<le> FS_MAXENT" and p: "store_put H (cf_store s) ?b = (r, st, Some h)"
    using step_dir(3) by (auto simp: cfs_dir_def fs_dir_put_def split: prod.splits option.splits if_splits cvsasx_store_status.splits)
  have len: "length ?b = 40 * length ents" using step_dir(4) by (rule length_dir_bytes)
  then have len64: "length ?b < 2 ^ 64" using n by (simp add: FS_MAXENT_def)
  have ok: "r = CVSASX_STORE_OK" using store_put_fail[OF p] by auto
  then have hh: "h = H ?b" using store_put_hash[of H "cf_store s" ?b st "Some h"] p by simp
  then have h: "length h = 32" using H by (simp add: hash_fn_def)
  have inv: "cfs_inv H s pins" using assms(3) step_dir(1) by simp
  have sm: "store_map st h = Some ?b"
    using hash_fn.store_put_map[OF H _ len64 p[unfolded ok] h] inv step_dir(7) by (auto simp: cfs_inv_def hh split: if_splits)
  then have sg: "store_get st h = (CVSASX_STORE_OK, Some ?b)"
    by (auto simp: store_map_def store_get_def split: option.splits)
  have m: "cfs_mat H h ?b True (s\<lparr>cf_store := st\<rparr>) = Some s'"
    using step_dir(3) p n sg by (auto simp: cfs_dir_def fs_dir_put_def split: option.splits)
  have kl: "length (kid_hashes ?b) \<le> FS_MAXENT" using n by (simp add: kid_hashes_def FS_ENT_def len)
  have i1: "cfs_inv H (s\<lparr>cf_store := st\<rparr>) pins" by (rule cfs_store_inv[OF inv H p len64])
  have "\<forall>h. rcn s h + length (kid_hashes ?b) < 2 ^ 32" using step_dir(6) kl by (meson add_left_mono le_less_trans)
  then show ?thesis using cfs_mat_inv[OF i1 h _ _ _ m] sm step_dir(2,5) kl by simp
next
  case (step_pin s h pins)
  then show ?thesis using cfs_pin_inv assms(3) by simp
next
  case (step_unref pins r s n s')
  then show ?thesis using cfs_unref_inv[of H s pins r] assms(3) by auto
qed

section \<open>Properties\<close>

definition present_in :: "cfs \<Rightarrow> bytes \<Rightarrow> bool" where
  "present_in s h \<longleftrightarrow> (\<exists>e \<in> set (cf_tab s). ce_h e = h \<and> ce_present e)"

definition dir_in :: "cfs \<Rightarrow> bytes \<Rightarrow> bool" where
  "dir_in s h \<longleftrightarrow> (\<exists>e \<in> set (cf_tab s). ce_h e = h \<and> ce_present e \<and> ce_is_dir e)"

text \<open>Reachable from a pinned root through the directories that are present.\<close>

inductive cfs_live :: "cfs \<Rightarrow> (bytes \<Rightarrow> nat) \<Rightarrow> bytes \<Rightarrow> bool" for s pins where
  live_root: "0 < pins h \<Longrightarrow> cfs_live s pins h"
| live_kid: "cfs_live s pins d \<Longrightarrow> dir_in s d \<Longrightarrow> c \<in> set (dir_kids (cf_store s) d) \<Longrightarrow> cfs_live s pins c"

lemma edge_counted:
  assumes "cfs_counts s {} pins {#}" and "dir_in s d" and "c \<in> set (dir_kids (cf_store s) d)"
  shows "0 < rcn s c"
proof -
  obtain i where i: "i < length (cf_tab s)" "ce_h (cf_tab s ! i) = d" "ce_present (cf_tab s ! i)" "ce_is_dir (cf_tab s ! i)"
    using assms(2) by (auto simp: dir_in_def in_set_conv_nth)
  have "0 < count_list (dir_kids (cf_store s) d) c" using assms(3) by (metis count_list_0_iff gr0I)
  also have "\<dots> = ent_edges (cf_store s) {} (cf_tab s ! i) c" using i by (simp add: ent_edges_def)
  also have "\<dots> \<le> edges s {} c" unfolding edges_def using i(1) by (intro member_le_sum) auto
  finally show ?thesis using assms(1) by (simp add: cfs_counts_def)
qed

lemma still_present:
  assumes "cfs_frame {} s s'" and "present_in s h" and "0 < rcn s' h"
  shows "present_in s' h"
proof -
  note F = cfs_frameD[OF assms(1)]
  obtain i where i: "i < length (cf_tab s)" "ce_h (cf_tab s ! i) = h" "ce_present (cf_tab s ! i)"
    using assms(2) by (auto simp: present_in_def in_set_conv_nth)
  then have "ce_h (cf_tab s' ! i) = h" "ce_present (cf_tab s' ! i)"
    using F(3)[OF i(1)] assms(3) by (auto simp: ent_frame_def)
  then show ?thesis using i(1) F(2) by (auto simp: present_in_def)
qed

lemma dir_frame:
  assumes "cfs_frame {} s s'" and d: "distinct (map ce_h (cf_tab s'))" and "dir_in s h" and "present_in s' h"
  shows "dir_in s' h"
proof -
  note F = cfs_frameD[OF assms(1)]
  obtain i where i: "i < length (cf_tab s)" "ce_h (cf_tab s ! i) = h" "ce_is_dir (cf_tab s ! i)"
    using assms(3) by (auto simp: dir_in_def in_set_conv_nth)
  obtain j where j: "j < length (cf_tab s')" "ce_h (cf_tab s' ! j) = h" "ce_present (cf_tab s' ! j)"
    using assms(4) by (auto simp: present_in_def in_set_conv_nth)
  have "i = j"
    using d i j F(2) F(3)[OF i(1)] nth_eq_iff_index_eq[of "map ce_h (cf_tab s')" i j] by (simp add: ent_frame_def)
  then show ?thesis using i j F(3)[OF i(1)] by (auto simp: dir_in_def ent_frame_def)
qed

text \<open>
  C10: reclamation is safe and complete.  In a state with exact counts, dropping a pinned root
  always ends; the counts are exact again for the remaining pins; every present object that is
  reachable from a remaining pin, through any directories present before, is still present; the
  result is the number of objects reclaimed; and no object that was referenced before is left
  behind unreferenced.
\<close>

theorem cfs_unref_reclaims:
  assumes "cfs_inv H s pins" and "0 < pins r" and "length r = 32"
  shows "\<exists>n s'. cfs_unref (Suc CFS_MAXOBJ) r s = Some (n, s') \<and> cfs_inv H s' (pins(r := pins r - 1)) \<and>
    (\<forall>h. cfs_live s (pins(r := pins r - 1)) h \<longrightarrow> present_in s h \<longrightarrow> present_in s' h) \<and>
    n + n_present s' {} = n_present s {} \<and>
    (\<forall>h. present_in s' h \<longrightarrow> 0 < rcn s h \<longrightarrow> 0 < rcn s' h)"
proof -
  let ?p = "pins(r := pins r - 1)"
  obtain n s' where u: "cfs_unref (Suc CFS_MAXOBJ) r s = Some (n, s')" "cfs_inv H s' ?p" "cfs_frame {} s s'" "n + n_present s' {} = n_present s {}"
    using cfs_unref_inv[OF assms] by blast
  have c': "cfs_counts s' {} ?p {#}" using u(2) by (simp add: cfs_inv_def)
  note F = cfs_frameD[OF u(3)]
  have all: "0 < rcn s' h" if "cfs_live s ?p h" for h
    using that
  proof induction
    case (live_root h)
    then show ?case using c' by (simp add: cfs_counts_def)
  next
    case (live_kid d c)
    have "present_in s d" using live_kid(2) by (auto simp: dir_in_def present_in_def)
    then have "present_in s' d" using still_present[OF u(3)] live_kid(4) by blast
    then have "dir_in s' d" using dir_frame[OF u(3) _ live_kid(2)] c' by (simp add: cfs_counts_def)
    then show ?case using edge_counted[OF c'] live_kid(3) F(1) by simp
  qed
  have "0 < rcn s' h" if h: "present_in s' h" "0 < rcn s h" for h
  proof -
    obtain i where i: "i < length (cf_tab s)" "ce_h (cf_tab s' ! i) = h" "ce_present (cf_tab s' ! i)"
      using h(1) F(2) by (auto simp: present_in_def in_set_conv_nth)
    then show ?thesis using F(3)[OF i(1)] h(2) by (auto simp: ent_frame_def)
  qed
  then show ?thesis using u all still_present[OF u(3)] by blast
qed


lemma dir_entry_nth:
  assumes "\<forall>(nm, c) \<in> set ents. length nm = 8 \<and> length c = 32" and "k < length ents"
  shows "dir_entry (dir_bytes ents) k = fst (ents ! k) @ snd (ents ! k)"
  using assms
proof (induction ents arbitrary: k)
  case (Cons x ents)
  obtain nm c where x: "x = (nm, c)" by (cases x)
  have l: "length nm = 8" "length c = 32" using Cons.prems(1) x by auto
  have b: "dir_bytes (x # ents) = (nm @ c) @ dir_bytes ents" using l by (simp add: dir_bytes_def x)
  show ?case
  proof (cases k)
    case 0
    then show ?thesis unfolding dir_entry_def b FS_ENT_def using l x by simp
  next
    case (Suc j)
    have "dir_entry (dir_bytes (x # ents)) k = dir_entry (dir_bytes ents) j"
      using l by (simp add: dir_entry_def b Suc FS_ENT_def)
    then show ?thesis using Cons.IH[of j] Cons.prems Suc by simp
  qed
qed simp

lemma scan_dir_find:
  assumes e: "\<forall>(nm, c) \<in> set ents. length nm = 8 \<and> length c = 32" and "n \<le> length ents"
  shows "scan_dir (dir_bytes ents) name [length ents - n..<length ents] =
    Some (map_option snd (List.find (\<lambda>x. name_matches name (fst x)) (drop (length ents - n) ents)))"
  using assms(2)
proof (induction n)
  case (Suc n)
  let ?k = "length ents - Suc n"
  have k: "?k < length ents" "Suc ?k = length ents - n" using Suc.prems by auto
  have b: "(?k + 1) * FS_ENT \<le> length (dir_bytes ents)"
    using k(1) length_dir_bytes[OF e] by (simp add: FS_ENT_def)
  obtain nm c where x: "ents ! ?k = (nm, c)" by (cases "ents ! ?k")
  have l: "length nm = 8" "length c = 32" using e nth_mem[OF k(1)] x by auto
  have "length (c_name name) \<le> 8" by (simp add: c_name_def)
  then have m: "name_matches name (dir_entry (dir_bytes ents) ?k) = name_matches name nm"
    using l dir_entry_nth[OF e k(1)] x by (simp add: name_matches_def)
  have "[?k..<length ents] = ?k # [length ents - n..<length ents]" using k by (simp add: upt_conv_Cons)
  moreover have "drop ?k ents = (nm, c) # drop (length ents - n) ents" using Cons_nth_drop_Suc[OF k(1)] x k(2) by simp
  ultimately show ?case
    using Suc b m l dir_entry_nth[OF e k(1)] x by simp
qed simp

text \<open>
  directories read back what was put, and old versions stay.  After a directory is stored
  (its bytes not colliding with another object) every name resolves to the hash of the first
  entry it matches, verified against the directory's own hash, and to nothing when none matches;
  and every directory or file that was in the store before resolves and reads exactly as before.
\<close>

theorem fs_dir_roundtrip:
  assumes "hash_fn H" and "store_inv H st" and "\<forall>(nm, c) \<in> set ents. length nm = 8 \<and> length c = 32"
    and "fs_dir_put H ents st = Some (h, st')"
    and "\<forall>b. store_map st (H (dir_bytes ents)) = Some b \<longrightarrow> b = dir_bytes ents"
  shows "h = H (dir_bytes ents) \<and>
    fs_resolve H st' h name (length ents) = Some (map_option snd (List.find (\<lambda>x. name_matches name (fst x)) ents)) \<and>
    (\<forall>d. length d = 32 \<longrightarrow> store_map st d \<noteq> None \<longrightarrow>
       fs_resolve H st' d name k = fs_resolve H st d name k \<and> fs_read H st' d mx = fs_read H st d mx)"
proof -
  let ?b = "dir_bytes ents"
  obtain r where n: "length ents \<le> FS_MAXENT" and p: "store_put H st ?b = (r, st', Some h)"
    using assms(4) by (auto simp: fs_dir_put_def split: prod.splits option.splits if_splits)
  have len64: "length ?b < 2 ^ 64" using n length_dir_bytes[OF assms(3)] by (simp add: FS_MAXENT_def)
  have ok: "r = CVSASX_STORE_OK" using store_put_fail[OF p] by auto
  then have hh: "h = H ?b" using store_put_hash[of H st ?b st' "Some h"] p by simp
  then have h: "length h = 32" using assms(1) by (simp add: hash_fn_def)
  have get: "store_get u d = (case store_map u d of None \<Rightarrow> (CVSASX_STORE_MISS, None) | Some b \<Rightarrow> (CVSASX_STORE_OK, Some b))" for u d
    by (auto simp: store_map_def store_get_def split: option.splits)
  have "store_map st' h = Some ?b"
    using hash_fn.store_put_map[OF assms(1,2) len64 p[unfolded ok] h] assms(5) by (auto simp: hh split: if_splits)
  then have "fs_resolve H st' h name (length ents) = scan_dir ?b name [0..<length ents]"
    using h by (simp add: fs_resolve_def get cvsasx_hash_eq_iff hh)
  then have res: "fs_resolve H st' h name (length ents) = Some (map_option snd (List.find (\<lambda>x. name_matches name (fst x)) ents))"
    using scan_dir_find[OF assms(3), of "length ents" name] by simp
  have "fs_resolve H st' d name k = fs_resolve H st d name k \<and> fs_read H st' d mx = fs_read H st d mx"
    if d: "length d = 32" "store_map st d \<noteq> None" for d
  proof -
    obtain b where b: "store_map st d = Some b" using d(2) by blast
    then have "store_map st' d = Some b" using hash_fn.store_lookup_mono[OF assms(1,2) len64 p d(1)] by simp
    then show ?thesis using b by (simp add: fs_resolve_def fs_read_def get)
  qed
  then show ?thesis using hh res by blast
qed

text \<open>A name matches every entry it is a prefix of: \<^verbatim>\<open>a\<close> finds the entry \<^verbatim>\<open>ab\<close>.\<close>

lemma prefix_name_matches: "name_matches [97] [97, 98, 0, 0, 0, 0, 0, 0]"
  by (simp add: name_matches_def c_name_def)

text \<open>
  the medium is not trusted.  Whatever the store holds, damaged or not, a successful read
  returns a prefix of bytes whose digest is the requested hash and the true length, and a
  successful resolution comes from an object whose digest is the directory's hash.
\<close>

theorem fs_reads_verified:
  assumes "hash_fn H" and "length h = 32"
  shows "(fs_read H st h mx = Some (bs, n) \<longrightarrow> (\<exists>b. H b = h \<and> n = length b \<and> bs = take mx b)) \<and>
    (fs_resolve H st h name k = Some (Some c) \<longrightarrow>
       (\<exists>b j. H b = h \<and> j < k \<and> (j + 1) * FS_ENT \<le> length b \<and> name_matches name (dir_entry b j) \<and> c = take 32 (drop 8 (dir_entry b j))))"
proof -
  have eq: "cvsasx_hash_eq (H b) h \<longleftrightarrow> H b = h" for b
    using assms by (simp add: cvsasx_hash_eq_iff hash_fn_def)
  have scan: "scan_dir b name ks = Some (Some c) \<Longrightarrow>
      \<exists>j \<in> set ks. (j + 1) * FS_ENT \<le> length b \<and> name_matches name (dir_entry b j) \<and> c = take 32 (drop 8 (dir_entry b j))" for b ks
    by (induction ks) (auto split: if_splits)
  have "\<exists>b. H b = h \<and> n = length b \<and> bs = take mx b" if "fs_read H st h mx = Some (bs, n)"
    using that by (auto simp: fs_read_def eq split: prod.splits cvsasx_store_status.splits option.splits if_splits)
  moreover have "\<exists>b j. H b = h \<and> j < k \<and> (j + 1) * FS_ENT \<le> length b \<and> name_matches name (dir_entry b j) \<and> c = take 32 (drop 8 (dir_entry b j))"
    if r: "fs_resolve H st h name k = Some (Some c)"
  proof -
    obtain b where "H b = h" "scan_dir b name [0..<k] = Some (Some c)"
      using r by (auto simp: fs_resolve_def eq split: prod.splits cvsasx_store_status.splits option.splits if_splits)
    then show ?thesis using scan[of b "[0..<k]"] by (metis atLeastLessThan_iff set_upt)
  qed
  ultimately show ?thesis by blast
qed

section \<open>Witnesses\<close>

definition ex_rc :: dur where
  "ex_rc = (fresh_disk 8)\<lparr>gc_rc := [\<lparr>rc_hash = replicate 32 1, rc_domain = 8, rc_count = 1, rc_tombstoned = False\<rparr>,
     \<lparr>rc_hash = replicate 32 2, rc_domain = 8, rc_count = 1, rc_tombstoned = False\<rparr>]\<rparr>"

definition ex_cfs :: cfs where
  "ex_cfs = \<lparr>cf_store = ex_store, cf_tab = [\<lparr>ce_h = replicate 32 1, ce_block = 700, ce_is_dir = False, ce_present = True\<rparr>,
     \<lparr>ce_h = replicate 32 2, ce_block = 701, ce_is_dir = False, ce_present = True\<rparr>], cf_d = ex_rc\<rparr>"

definition ex_pins :: "bytes \<Rightarrow> nat" where
  "ex_pins = (\<lambda>_. 0)(replicate 32 1 := 1, replicate 32 2 := 1)"

lemma rep_neq [simp]: "replicate 32 (1 :: u8) \<noteq> replicate 32 2" "replicate 32 (2 :: u8) \<noteq> replicate 32 1"
  by (simp_all add: numeral_eq_Suc)

lemma ex_cfs_inv: "cfs_inv pad_hash ex_cfs ex_pins"
proof -
  have e: "edges ex_cfs {} h = 0" for h
    by (simp add: edges_def ex_cfs_def ent_edges_def lessThan_Suc numeral_2_eq_2)
  have "rcn ex_cfs h = ex_pins h" for h
    by (auto simp: gc_rc_get_def gc_rc_find_def ex_cfs_def ex_rc_def ex_pins_def CFS_DOM_def)
  then show ?thesis
    using e ex_store_inv by (simp add: cfs_inv_def cfs_counts_def) (simp add: ex_cfs_def ex_rc_def rc_distinct_def CFS_MAXOBJ_def)
qed

theorem cfs_unref_reclaims_witness:
  "\<exists>n s'. cfs_unref (Suc CFS_MAXOBJ) (replicate 32 1) ex_cfs = Some (n, s') \<and> present_in s' (replicate 32 2)"
proof -
  have p: "0 < ex_pins (replicate 32 1)" "length (replicate 32 (1 :: u8)) = 32" by (simp_all add: ex_pins_def)
  have "cfs_live ex_cfs (ex_pins(replicate 32 1 := ex_pins (replicate 32 1) - 1)) (replicate 32 2)"
    by (rule live_root) (simp add: ex_pins_def)
  moreover have "present_in ex_cfs (replicate 32 2)" by (simp add: present_in_def ex_cfs_def)
  ultimately show ?thesis using cfs_unref_reclaims[OF ex_cfs_inv p] by blast
qed


lemma ex_dir_put: "\<exists>h st'. fs_dir_put pad_hash [([97, 0, 0, 0, 0, 0, 0, 0], replicate 32 9)] ex_store = Some (h, st')"
  by (simp add: fs_dir_put_def FS_MAXENT_def store_put_def Let_def ex_store_def find_entry_def dir_bytes_def cvsasx_store_init_def)

theorem fs_dir_roundtrip_witness:
  "\<exists>h st'. fs_dir_put pad_hash [([97, 0, 0, 0, 0, 0, 0, 0], replicate 32 9)] ex_store = Some (h, st') \<and>
     fs_resolve pad_hash st' h [97] 1 = Some (Some (replicate 32 9))"
proof -
  let ?es = "[([97, 0, 0, 0, 0, 0, 0, 0], replicate 32 9)] :: (bytes \<times> bytes) list"
  obtain h st' where p: "fs_dir_put pad_hash ?es ex_store = Some (h, st')" using ex_dir_put by blast
  have "store_map ex_store x = None" for x
    by (simp add: store_map_def store_get_def find_entry_def ex_store_def cvsasx_store_init_def)
  then have cf: "\<forall>b. store_map ex_store (pad_hash (dir_bytes ?es)) = Some b \<longrightarrow> b = dir_bytes ?es" by simp
  have a: "\<forall>(nm, c) \<in> set ?es. length nm = 8 \<and> length c = 32" by simp
  have "fs_resolve pad_hash st' h [97] (length ?es) = Some (map_option snd (List.find (\<lambda>x. name_matches [97] (fst x)) ?es))"
    by (rule conjunct1[OF conjunct2[OF fs_dir_roundtrip[OF hash_fn_pad_hash ex_store_inv a p cf]]])
  then show ?thesis using p by (simp add: name_matches_def c_name_def)
qed

definition ex_store1 :: cvsasx_store where
  "ex_store1 = fst (snd (store_put pad_hash ex_store [1, 2, 3]))"

lemma ex_read: "fs_read pad_hash ex_store1 (pad_hash [1, 2, 3]) 2 = Some ([1, 2], 3)"
proof -
  have "st_arena ex_store1 = [1, 2, 3] @ replicate 61 0" "st_index_count ex_store1 = 1"
    "st_index ex_store1 ! 0 = \<lparr>se_hash = pad_hash [1, 2, 3], se_offset = 0, se_len = 3\<rparr>"
    by (simp_all add: ex_store1_def store_put_def Let_def ex_store_def cvsasx_store_init_def find_entry_def splice_def
        CVSASX_HASH_LEN_def pad_hash_def)
  then show ?thesis
    by (simp add: fs_read_def store_get_def find_entry_def entry_bytes_def slice_def cvsasx_hash_eq_def byte_diff_eq_0_iff)
qed

theorem fs_reads_verified_witness:
  "fs_read pad_hash ex_store1 (pad_hash [1, 2, 3]) 2 = Some ([1, 2], 3) \<and> (\<exists>b. pad_hash b = pad_hash [1, 2, 3] \<and> 3 = length b \<and> [1, 2] = take 2 b)"
proof -
  have "length (pad_hash [1, 2, 3]) = 32" by (simp add: pad_hash_def)
  then show ?thesis using fs_reads_verified[OF hash_fn_pad_hash, of "pad_hash [1, 2, 3]" ex_store1 2 "[1, 2]" 3] ex_read by simp
qed

end
