(* ===== verification/Gf25519.thy ===== *)
theory Gf25519
  imports Prelude
begin

text \<open>
  The field arithmetic of \<^verbatim>\<open>kernel/tweetnacl.c\<close>.  A field element is an array of sixteen
  limbs of type \<^verbatim>\<open>i64\<close> in base \<open>2 ^ 16\<close>; addition and subtraction work limb by limb without
  carrying, \<^verbatim>\<open>car25519\<close> carries once around, \<^verbatim>\<open>M\<close> multiplies and \<^verbatim>\<open>pack25519\<close> produces the
  canonical bytes.  Signed overflow has no meaning in C, so the limbs are integers here and the
  bounds under which no operation leaves the \<^verbatim>\<open>i64\<close> range are part of the theorems.  A right
  shift of a signed value is the arithmetic shift, division rounding down.

  \<open>gf_val\<close> is the number an element denotes.  The theorems relate every operation to arithmetic
  modulo \<open>p25519\<close>.
\<close>

section \<open>Operations\<close>

type_synonym gf = "int list"

definition p25519 :: int where "p25519 = 2 ^ 255 - 19"

definition gf0 :: gf where "gf0 = replicate 16 0"
definition gf1 :: gf where "gf1 = 1 # replicate 15 0"

definition set25519 :: "gf \<Rightarrow> gf" where
  "set25519 a = map (\<lambda>i. a ! i) [0..<16]"

definition car_step :: "gf \<Rightarrow> nat \<Rightarrow> gf" where
  "car_step o1 i =
     (let o1 = o1[i := o1 ! i + 65536];
          c = o1 ! i div 65536;
          j = (i + 1) * (if i < 15 then 1 else 0);
          o1 = o1[j := o1 ! j + (c - 1 + 37 * (c - 1) * (if i = 15 then 1 else 0))]
      in o1[i := o1 ! i - c * 65536])"

definition car25519 :: "gf \<Rightarrow> gf" where
  "car25519 o1 = foldl car_step o1 [0..<16]"

text \<open>\<^verbatim>\<open>c = ~(b-1)\<close> is all ones for \<open>b = 1\<close> and zero for \<open>b = 0\<close>; the loop exchanges by masks.\<close>

definition sel25519 :: "gf \<Rightarrow> gf \<Rightarrow> int \<Rightarrow> gf \<times> gf" where
  "sel25519 p q b =
     (let c = NOT (b - 1)
      in (map (\<lambda>i. p ! i XOR (c AND (p ! i XOR q ! i))) [0..<16], map (\<lambda>i. q ! i XOR (c AND (p ! i XOR q ! i))) [0..<16]))"

text \<open>One subtraction of the modulus with borrow, as the loop body of \<^verbatim>\<open>pack25519\<close> computes it.\<close>

definition sub_step :: "gf \<Rightarrow> gf \<Rightarrow> nat \<Rightarrow> gf" where
  "sub_step t m i =
     (let m = m[i := t ! i - 0xffff - ((m ! (i - 1) div 65536) mod 2)]
      in m[i - 1 := m ! (i - 1) mod 65536])"

definition sub_p :: "gf \<Rightarrow> gf \<times> int" where
  "sub_p t =
     (let m = (replicate 16 0)[0 := t ! 0 - 0xffed];
          m = foldl (sub_step t) m [1..<15];
          m = m[15 := t ! 15 - 0x7fff - ((m ! 14 div 65536) mod 2)];
          b = (m ! 15 div 65536) mod 2
      in (m[14 := m ! 14 mod 65536], b))"

definition pack_round :: "gf \<Rightarrow> gf" where
  "pack_round t = (case sub_p t of (m, b) \<Rightarrow> fst (sel25519 t m (1 - b)))"

definition pack25519 :: "gf \<Rightarrow> bytes" where
  "pack25519 n =
     (let t = set25519 n;
          t = car25519 (car25519 (car25519 t));
          t = pack_round (pack_round t)
      in concat (map (\<lambda>i. [word_of_int (t ! i mod 256), word_of_int (t ! i div 256)]) [0..<16]))"

definition unpack25519 :: "bytes \<Rightarrow> gf" where
  "unpack25519 n =
     (let o1 = map (\<lambda>i. uint (n ! (2 * i)) + uint (n ! (2 * i + 1)) * 256) [0..<16]
      in o1[15 := o1 ! 15 mod 0x8000])"

definition A :: "gf \<Rightarrow> gf \<Rightarrow> gf" where
  "A a b = map (\<lambda>i. a ! i + b ! i) [0..<16]"

definition Z :: "gf \<Rightarrow> gf \<Rightarrow> gf" where
  "Z a b = map (\<lambda>i. a ! i - b ! i) [0..<16]"

definition M_row :: "gf \<Rightarrow> gf \<Rightarrow> int list \<Rightarrow> nat \<Rightarrow> int list" where
  "M_row a b t i = foldl (\<lambda>t j. t[i + j := t ! (i + j) + a ! i * b ! j]) t [0..<16]"

definition M_sums :: "gf \<Rightarrow> gf \<Rightarrow> int list" where
  "M_sums a b = foldl (M_row a b) (replicate 31 0) [0..<16]"

definition M_fold :: "int list \<Rightarrow> int list" where
  "M_fold t = foldl (\<lambda>t i. t[i := t ! i + 38 * t ! (i + 16)]) t [0..<15]"

definition M :: "gf \<Rightarrow> gf \<Rightarrow> gf" where
  "M a b = car25519 (car25519 (take 16 (M_fold (M_sums a b))))"

definition S :: "gf \<Rightarrow> gf" where
  "S a = M a a"

definition inv25519 :: "gf \<Rightarrow> gf" where
  "inv25519 i = foldl (\<lambda>c a. let c = S c in if a \<noteq> 2 \<and> a \<noteq> 4 then M c i else c) (set25519 i) (rev [0..<254])"

definition pow2523 :: "gf \<Rightarrow> gf" where
  "pow2523 i = foldl (\<lambda>c a. let c = S c in if a \<noteq> 1 then M c i else c) (set25519 i) (rev [0..<251])"

definition vn :: "bytes \<Rightarrow> bytes \<Rightarrow> nat \<Rightarrow> int" where
  "vn x y n =
     (let d = foldl (\<lambda>d i. d OR ucast (x ! i XOR y ! i)) (0 :: u64) [0..<n]
      in sint (1 AND drop_bit 8 (d - 1)) - 1)"

definition crypto_verify_32 :: "bytes \<Rightarrow> bytes \<Rightarrow> int" where
  "crypto_verify_32 x y = vn x y 32"

definition neq25519 :: "gf \<Rightarrow> gf \<Rightarrow> bool" where
  "neq25519 a b = (crypto_verify_32 (pack25519 a) (pack25519 b) \<noteq> 0)"

definition par25519 :: "gf \<Rightarrow> u8" where
  "par25519 a = pack25519 a ! 0 AND 1"

section \<open>Positional values\<close>

primrec lval :: "int \<Rightarrow> int list \<Rightarrow> int" where
  "lval b [] = 0"
| "lval b (x # xs) = x + b * lval b xs"

abbreviation gf_val :: "gf \<Rightarrow> int" where
  "gf_val a \<equiv> lval 65536 a"

lemma lval_append: "lval b (xs @ ys) = lval b xs + b ^ length xs * lval b ys"
  by (induction xs) (simp_all add: algebra_simps)

lemma lval_update: "i < length xs \<Longrightarrow> lval b (xs[i := v]) = lval b xs + (v - xs ! i) * b ^ i"
proof (induction xs arbitrary: i)
  case (Cons x xs)
  then show ?case by (cases i) (simp_all add: distrib_left mult.left_commute)
qed simp

lemma lval_replicate0 [simp]: "lval b (replicate n 0) = 0"
  by (induction n) simp_all

lemma lval_map_add: "lval b (map (\<lambda>i. f i + g i) xs) = lval b (map f xs) + lval b (map g xs)"
  by (induction xs) (simp_all add: algebra_simps)

lemma lval_map_diff: "lval b (map (\<lambda>i. f i - g i) xs) = lval b (map f xs) - lval b (map g xs)"
  by (induction xs) (simp_all add: right_diff_distrib)

lemma lval_bounds:
  assumes "\<forall>x \<in> set xs. 0 \<le> x \<and> x < b" and "0 < b"
  shows "0 \<le> lval b xs \<and> lval b xs < b ^ length xs"
  using assms(1)
proof (induction xs)
  case (Cons x xs)
  then have IH: "0 \<le> lval b xs" "lval b xs \<le> b ^ length xs - 1" and x: "0 \<le> x" "x \<le> b - 1" by auto
  have "b * lval b xs \<le> b * (b ^ length xs - 1)" using IH(2) assms(2) by (intro mult_left_mono) auto
  then have "x + b * lval b xs \<le> (b - 1) + (b * b ^ length xs - b)" using x(2) by (simp add: algebra_simps)
  moreover have "0 \<le> x + b * lval b xs" using x(1) IH(1) assms(2) by simp
  ultimately show ?case by simp
qed simp

section \<open>The carry pass\<close>

primrec car_k :: "gf \<Rightarrow> nat \<Rightarrow> int" where
  "car_k a 0 = 0"
| "car_k a (Suc i) = (a ! i + car_k a i) div 65536"

definition car_r :: "gf \<Rightarrow> nat \<Rightarrow> int" where
  "car_r a i = (a ! i + car_k a i) mod 65536"

lemma car_step_lo:
  assumes "length xs = n" and "n < 15"
  shows "car_step (xs @ y # z # zs) n = xs @ (y mod 65536) # (z + y div 65536) # zs"
proof -
  have "(y + 65536) div 65536 = y div 65536 + 1" by simp
  then show ?thesis
    using assms by (simp add: car_step_def Let_def nth_append list_update_append minus_div_mult_eq_mod[symmetric])
qed

lemma car_prefix:
  assumes "length a = 16"
  shows "n \<le> 15 \<Longrightarrow> foldl car_step a [0..<n] = map (car_r a) [0..<n] @ (a ! n + car_k a n) # drop (Suc n) a"
proof (induction n)
  case 0
  then show ?case using assms Cons_nth_drop_Suc[of 0 a] by simp
next
  case (Suc n)
  have "drop (Suc n) a = a ! Suc n # drop (Suc (Suc n)) a"
    using assms Suc.prems by (simp add: Cons_nth_drop_Suc)
  then have "foldl car_step a [0..<Suc n] = car_step (map (car_r a) [0..<n] @ (a ! n + car_k a n) # a ! Suc n # drop (Suc (Suc n)) a) n"
    using Suc by simp
  also have "\<dots> = map (car_r a) [0..<n] @ car_r a n # (a ! Suc n + car_k a (Suc n)) # drop (Suc (Suc n)) a"
    using car_step_lo[of "map (car_r a) [0..<n]" n] Suc.prems by (simp add: car_r_def add.commute)
  finally show ?case by simp
qed

lemma car25519_eq:
  assumes "length a = 16"
  shows "car25519 a = (car_r a 0 + 38 * car_k a 16) # map (car_r a) [1..<16]"
proof -
  have "car25519 a = car_step (foldl car_step a [0..<15]) 15"
    unfolding car25519_def using upt_Suc_append[of 0 15] by simp
  also have "foldl car_step a [0..<15] = map (car_r a) [0..<15] @ [a ! 15 + car_k a 15]"
    using car_prefix[OF assms, of 15] assms by simp
  also have "map (car_r a) [0..<15] = car_r a 0 # map (car_r a) [1..<15]"
    by (simp add: upt_conv_Cons)
  finally have e: "car25519 a = car_step (car_r a 0 # map (car_r a) [1..<15] @ [a ! 15 + car_k a 15]) 15" by simp
  have k: "(y + 65536) div 65536 = y div 65536 + 1" for y :: int by simp
  have k16: "car_k a 16 = (a ! 15 + car_k a 15) div 65536"
    using car_k.simps(2)[of a 15] by simp
  have "car_step (x # ys @ [y]) 15 = (x + 38 * (y div 65536)) # ys @ [y mod 65536]" if "length ys = 14" for x y ys
    using that by (simp add: car_step_def Let_def k nth_append list_update_append minus_div_mult_eq_mod[symmetric] nth_Cons' algebra_simps split: nat.splits)
  then show ?thesis
    unfolding e k16 using upt_Suc_append[of 1 15] by (simp add: car_r_def)
qed

text \<open>A carry pass changes the value by a multiple of \<open>2 ^ 256 - 38\<close>, twice the modulus.\<close>

lemma car_prefix_val:
  assumes "n \<le> length a"
  shows "gf_val (map (car_r a) [0..<n]) + 65536 ^ n * car_k a n = gf_val (take n a)"
  using assms
proof (induction n)
  case (Suc n)
  have "car_r a n + 65536 * car_k a (Suc n) = a ! n + car_k a n"
    by (simp add: car_r_def)
  then have "65536 ^ n * (car_r a n + 65536 * car_k a (Suc n)) = 65536 ^ n * (a ! n + car_k a n)"
    by (simp only:)
  then have "65536 ^ n * car_r a n + 65536 ^ Suc n * car_k a (Suc n) = 65536 ^ n * (a ! n + car_k a n)"
    by (simp add: distrib_left mult.assoc del: car_k.simps)
  then show ?case
    using Suc by (simp add: lval_append take_Suc_conv_app_nth algebra_simps del: car_k.simps)
qed simp

lemma car_val:
  assumes "length a = 16"
  shows "gf_val a = gf_val (map (car_r a) [0..<16]) + 2 ^ 256 * car_k a 16"
    and "gf_val (car25519 a) = gf_val a - 2 * p25519 * car_k a 16"
proof -
  show 1: "gf_val a = gf_val (map (car_r a) [0..<16]) + 2 ^ 256 * car_k a 16"
    using car_prefix_val[of 16 a] assms by simp
  have "gf_val (car25519 a) = gf_val (map (car_r a) [0..<16]) + 38 * car_k a 16"
    by (simp add: car25519_eq[OF assms] upt_conv_Cons)
  then show "gf_val (car25519 a) = gf_val a - 2 * p25519 * car_k a 16"
    using 1 by (simp add: p25519_def)
qed

lemma car_length: "length a = 16 \<Longrightarrow> length (car25519 a) = 16"
  by (simp add: car25519_eq)

lemma car_cong: "length a = 16 \<Longrightarrow> gf_val (car25519 a) mod p25519 = gf_val a mod p25519"
  by (simp add: car_val(2) mod_diff_eq[symmetric] mult.assoc)

lemma car_r_range: "0 \<le> car_r a i \<and> car_r a i < 65536"
  by (simp add: car_r_def)

lemma car_nth:
  assumes "length a = 16" "i < 16"
  shows "car25519 a ! i = car_r a i + (if i = 0 then 38 * car_k a 16 else 0)"
  using assms by (auto simp: car25519_eq nth_Cons' )

lemma div_bounds: "65536 * (x div 65536) \<le> x \<and> x < 65536 * (x div 65536) + 65536" for x :: int
  using pos_mod_sign[of 65536 x] pos_mod_bound[of 65536 x] minus_div_mult_eq_mod[of x 65536] by linarith

lemma car_k_bound:
  assumes "\<forall>i < n. \<bar>a ! i\<bar> \<le> B" and "0 \<le> B"
  shows "\<bar>car_k a n\<bar> \<le> B"
  using assms(1)
proof (induction n)
  case (Suc n)
  have "\<bar>a ! n\<bar> \<le> B" "\<bar>car_k a n\<bar> \<le> B" using Suc by simp_all
  then have "- (2 * B) \<le> a ! n + car_k a n" "a ! n + car_k a n \<le> 2 * B" by linarith+
  then show ?case using div_bounds[of "a ! n + car_k a n"] assms(2) unfolding car_k.simps abs_le_iff by linarith
qed (use assms(2) in simp)

text \<open>Limbs: all but the lowest reduced, the lowest within a bound.\<close>

definition limbs :: "int \<Rightarrow> gf \<Rightarrow> bool" where
  "limbs B a \<longleftrightarrow> length a = 16 \<and> (\<forall>i < 16. \<bar>a ! i\<bar> \<le> B)"

definition gf_red :: "gf \<Rightarrow> bool" where
  "gf_red a \<longleftrightarrow> length a = 16 \<and> - 38 \<le> a ! 0 \<and> a ! 0 \<le> 65573 \<and> (\<forall>i. 0 < i \<and> i < 16 \<longrightarrow> 0 \<le> a ! i \<and> a ! i < 65536)"

lemma car_k_step: "\<bar>x\<bar> \<le> B \<Longrightarrow> 0 \<le> r \<Longrightarrow> r < 65536 \<Longrightarrow> \<bar>(r + x) div 65536\<bar> \<le> B div 65536 + 1" for x r B :: int
  using div_bounds[of "r + x"] div_bounds[of B] unfolding abs_le_iff by linarith

lemma car_twice_red:
  assumes "limbs (2 ^ 62) a"
  shows "gf_red (car25519 (car25519 a))"
proof -
  define b where "b = car25519 a"
  have la: "length a = 16" and ba: "\<forall>i < 16. \<bar>a ! i\<bar> \<le> 2 ^ 62" using assms by (auto simp: limbs_def)
  have lb: "length b = 16" by (simp add: b_def car_length la)
  have k16: "\<bar>car_k a 16\<bar> \<le> 2 ^ 62" using car_k_bound ba by simp
  have bi: "0 \<le> b ! i \<and> b ! i < 65536" if "0 < i" "i < 16" for i
    using car_nth[OF la that(2)] that(1) car_r_range by (simp add: b_def)
  have b0: "\<bar>b ! 0\<bar> \<le> 65536 + 38 * 2 ^ 62"
    using car_nth[OF la, of 0] k16 car_r_range[of a 0] unfolding b_def abs_le_iff by auto
  have k1: "\<bar>car_k b 1\<bar> \<le> 2 ^ 52" using b0 div_bounds[of "b ! 0"] unfolding abs_le_iff by auto
  have k2: "\<bar>car_k b 2\<bar> \<le> 2 ^ 37"
    using car_k_step[OF k1, of "b ! 1"] bi[of 1] car_k.simps(2)[of b 1] by (simp add: numeral_2_eq_2[symmetric] del: car_k.simps)
  have k3: "\<bar>car_k b 3\<bar> \<le> 2 ^ 22"
    using car_k_step[OF k2, of "b ! 2"] bi[of 2] car_k.simps(2)[of b 2] by (simp add: del: car_k.simps)
  have k4: "\<bar>car_k b 4\<bar> \<le> 65"
    using car_k_step[OF k3, of "b ! 3"] bi[of 3] car_k.simps(2)[of b 3] by (simp add: del: car_k.simps)
  have "\<bar>car_k b i\<bar> \<le> 1" if "5 \<le> i" "i \<le> 16" for i
    using that
  proof (induction i rule: dec_induct)
    case base
    show ?case using car_k_step[OF k4, of "b ! 4"] bi[of 4] car_k.simps(2)[of b 4] by (simp add: del: car_k.simps)
  next
    case (step n)
    then show ?case using car_k_step[of "car_k b n" 1 "b ! n"] bi[of n] by simp
  qed
  then have k: "- 1 \<le> car_k b 16" "car_k b 16 \<le> 1" by (simp_all add: abs_le_iff)
  have "car25519 b ! 0 = car_r b 0 + 38 * car_k b 16" using car_nth[OF lb, of 0] by simp
  then have "- 38 \<le> car25519 b ! 0" "car25519 b ! 0 \<le> 65573" using k car_r_range[of b 0] by linarith+
  moreover have "0 \<le> car25519 b ! i \<and> car25519 b ! i < 65536" if "0 < i" "i < 16" for i
    using car_nth[OF lb that(2)] that(1) car_r_range[of b i] by simp
  ultimately show ?thesis by (simp add: gf_red_def car_length lb b_def[symmetric])
qed

section \<open>Multiplication\<close>

lemma gf_red_limbs: "gf_red a \<Longrightarrow> limbs 65573 a"
proof -
  assume a: "gf_red a"
  have "\<bar>a ! i\<bar> \<le> 65573" if "i < 16" for i
  proof (cases "i = 0")
    case False
    then have "0 \<le> a ! i" "a ! i < 65536" using a that by (simp_all add: gf_red_def)
    then show ?thesis by linarith
  qed (use a in \<open>simp add: gf_red_def abs_le_iff\<close>)
  then show ?thesis using a by (simp add: limbs_def gf_red_def)
qed

lemma M_row_prefix:
  assumes "length t = 31" and "i < 16" and "n \<le> 16"
  shows "length (foldl (\<lambda>t j. t[i + j := t ! (i + j) + x * b ! j]) t [0..<n]) = 31 \<and>
    lval 65536 (foldl (\<lambda>t j. t[i + j := t ! (i + j) + x * b ! j]) t [0..<n]) =
      lval 65536 t + x * 65536 ^ i * lval 65536 (map (\<lambda>j. b ! j) [0..<n]) \<and>
    (\<forall>k < 31. foldl (\<lambda>t j. t[i + j := t ! (i + j) + x * b ! j]) t [0..<n] ! k =
       t ! k + (if i \<le> k \<and> k < i + n then x * b ! (k - i) else 0))"
  using assms(3)
proof (induction n)
  case (Suc n)
  let ?u = "foldl (\<lambda>t j. t[i + j := t ! (i + j) + x * b ! j]) t [0..<n]"
  have IH: "length ?u = 31" "lval 65536 ?u = lval 65536 t + x * 65536 ^ i * lval 65536 (map (\<lambda>j. b ! j) [0..<n])"
    "\<forall>k < 31. ?u ! k = t ! k + (if i \<le> k \<and> k < i + n then x * b ! (k - i) else 0)" using Suc by simp_all
  have il: "i + n < length ?u" using assms(2) Suc.prems IH(1) by simp
  have "lval 65536 (?u[i + n := ?u ! (i + n) + x * b ! n]) = lval 65536 ?u + x * b ! n * 65536 ^ (i + n)"
    using lval_update[OF il] by simp
  moreover have "\<forall>k < 31. ?u[i + n := ?u ! (i + n) + x * b ! n] ! k = t ! k + (if i \<le> k \<and> k < i + Suc n then x * b ! (k - i) else 0)"
    using IH(1,3) il by (auto simp: nth_list_update)
  ultimately show ?case
    using IH(1,2) by (simp add: lval_append algebra_simps power_add)
qed (simp add: assms(1))

lemma map_nth_take: "length b = n \<Longrightarrow> map (\<lambda>j. b ! j) [0..<n] = b"
  using map_nth[of b] by simp

lemma M_sums_prefix:
  assumes "limbs A1 a" and "limbs B1 b" and "n \<le> 16"
  shows "length (foldl (M_row a b) (replicate 31 0) [0..<n]) = 31 \<and>
    lval 65536 (foldl (M_row a b) (replicate 31 0) [0..<n]) = lval 65536 (map (\<lambda>i. a ! i) [0..<n]) * gf_val b \<and>
    (\<forall>k < 31. \<bar>foldl (M_row a b) (replicate 31 0) [0..<n] ! k\<bar> \<le> int n * (A1 * B1))"
  using assms(3)
proof (induction n)
  case (Suc n)
  let ?u = "foldl (M_row a b) (replicate 31 0) [0..<n]"
  have la: "length a = 16" "length b = 16" using assms by (auto simp: limbs_def)
  have IH: "length ?u = 31" "lval 65536 ?u = lval 65536 (map (\<lambda>i. a ! i) [0..<n]) * gf_val b"
    "\<forall>k < 31. \<bar>?u ! k\<bar> \<le> int n * (A1 * B1)" using Suc by simp_all
  note R = M_row_prefix[OF IH(1), of n 16 "a ! n" b]
  have R': "length (M_row a b ?u n) = 31" "lval 65536 (M_row a b ?u n) = lval 65536 ?u + a ! n * 65536 ^ n * gf_val b"
    "\<forall>k < 31. M_row a b ?u n ! k = ?u ! k + (if n \<le> k \<and> k < n + 16 then a ! n * b ! (k - n) else 0)"
    using R Suc.prems map_nth_take[OF la(2)] by (simp_all add: M_row_def)
  have an: "\<bar>a ! n\<bar> \<le> A1" using assms(1) Suc.prems by (simp add: limbs_def)
  have A0: "0 \<le> A1" using an by linarith
  have "\<bar>M_row a b ?u n ! k\<bar> \<le> int (Suc n) * (A1 * B1)" if k: "k < 31" for k
  proof -
    have prod: "\<bar>a ! n * b ! j\<bar> \<le> A1 * B1" if "j < 16" for j
      using assms(2) that an A0 unfolding abs_mult by (intro mult_mono) (auto simp: limbs_def)
    have B0: "0 \<le> A1 * B1" using prod[of 0] by (smt (verit) abs_ge_zero zero_less_numeral)
    have "\<bar>if n \<le> k \<and> k < n + 16 then a ! n * b ! (k - n) else 0\<bar> \<le> A1 * B1"
      using prod[of "k - n"] B0 by auto
    then have "\<bar>M_row a b ?u n ! k\<bar> \<le> int n * (A1 * B1) + A1 * B1"
      using R'(3) IH(3) k abs_triangle_ineq order_trans by (smt (verit))
    then show ?thesis by (simp add: algebra_simps)
  qed
  moreover have "lval 65536 (M_row a b ?u n) = lval 65536 (map (\<lambda>i. a ! i) [0..<Suc n]) * gf_val b"
    using R'(2) IH(2) by (simp add: lval_append algebra_simps)
  ultimately show ?case using R'(1) by simp
qed simp

lemma M_sums_ok:
  assumes "limbs A1 a" and "limbs B1 b"
  shows "length (M_sums a b) = 31" "lval 65536 (M_sums a b) = gf_val a * gf_val b"
    "\<And>k. k < 31 \<Longrightarrow> \<bar>M_sums a b ! k\<bar> \<le> 16 * (A1 * B1)"
proof -
  have la: "length a = 16" using assms by (simp add: limbs_def)
  show "length (M_sums a b) = 31" "lval 65536 (M_sums a b) = gf_val a * gf_val b"
    "\<And>k. k < 31 \<Longrightarrow> \<bar>M_sums a b ! k\<bar> \<le> 16 * (A1 * B1)"
    using M_sums_prefix[OF assms, of 16] map_nth_take[OF la] by (simp_all add: M_sums_def)
qed

lemma M_fold_prefix:
  fixes t :: "int list"
  assumes "length t = 31" and "n \<le> 15"
  shows "length (foldl (\<lambda>t i. t[i := t ! i + 38 * t ! (i + 16)]) t [0..<n]) = 31 \<and>
    (\<forall>k < 31. foldl (\<lambda>t i. t[i := t ! i + 38 * t ! (i + 16)]) t [0..<n] ! k = t ! k + (if k < n then 38 * t ! (k + 16) else 0))"
  using assms(2)
proof (induction n)
  case (Suc n)
  then show ?case by (auto simp: nth_list_update less_Suc_eq)
qed (use assms(1) in simp)

lemma M_fold_ok:
  assumes "length t = 31"
  shows "length (take 16 (M_fold t)) = 16"
    and "gf_val (take 16 (M_fold t)) = lval 65536 t - 2 * p25519 * lval 65536 (drop 16 t)"
    and "k < 16 \<Longrightarrow> take 16 (M_fold t) ! k = t ! k + (if k < 15 then 38 * t ! (k + 16) else 0)"
proof -
  note F = M_fold_prefix[OF assms, of 15, folded M_fold_def, simplified]
  show "length (take 16 (M_fold t)) = 16" using F by simp
  show n: "take 16 (M_fold t) ! k = t ! k + (if k < 15 then 38 * t ! (k + 16) else 0)" if "k < 16" for k
    using F that by simp
  have "take 16 (M_fold t) = map (\<lambda>k. take 16 t ! k + ((map ((*) 38) (drop 16 t)) @ [0]) ! k) [0..<16]"
    using F n assms by (intro nth_equalityI) (auto simp: nth_append add.commute)
  then have "gf_val (take 16 (M_fold t)) = gf_val (take 16 t) + lval 65536 (map ((*) 38) (drop 16 t) @ [0])"
    using assms map_nth_take[of "take 16 t" 16] map_nth_take[of "map ((*) 38) (drop 16 t) @ [0]" 16] by (simp add: lval_map_add)
  moreover have "lval b (map ((*) c) xs) = c * lval b xs" for b c xs by (induction xs) (simp_all add: distrib_left mult.left_commute)
  ultimately have "gf_val (take 16 (M_fold t)) = gf_val (take 16 t) + 38 * lval 65536 (drop 16 t)"
    by (simp add: lval_append)
  moreover have "lval 65536 t = gf_val (take 16 t) + 65536 ^ 16 * lval 65536 (drop 16 t)"
    using lval_append[of 65536 "take 16 t" "drop 16 t"] assms by simp
  ultimately show "gf_val (take 16 (M_fold t)) = lval 65536 t - 2 * p25519 * lval 65536 (drop 16 t)"
    by (simp add: p25519_def)
qed

text \<open>
  Inputs with limbs up to \<open>2 ^ 25\<close> leave room: every partial sum stays below \<open>2 ^ 62\<close>.
\<close>

lemma M_ok:
  assumes "limbs (2 ^ 25) a" and "limbs (2 ^ 25) b"
  shows "gf_red (M a b)" and "gf_val (M a b) mod p25519 = (gf_val a * gf_val b) mod p25519"
    and "\<forall>x \<in> set (M_sums a b). \<bar>x\<bar> \<le> 2 ^ 54" and "limbs (2 ^ 62) (take 16 (M_fold (M_sums a b)))"
proof -
  note Sm = M_sums_ok[OF assms]
  note F = M_fold_ok[OF Sm(1)]
  let ?t = "take 16 (M_fold (M_sums a b))"
  show sums: "\<forall>x \<in> set (M_sums a b). \<bar>x\<bar> \<le> 2 ^ 54"
    using Sm(1,3) by (auto simp: in_set_conv_nth)
  have "\<bar>?t ! k\<bar> \<le> 2 ^ 62" if k: "k < 16" for k
  proof -
    have "\<bar>M_sums a b ! k\<bar> \<le> 2 ^ 54" "k < 15 \<Longrightarrow> \<bar>M_sums a b ! (k + 16)\<bar> \<le> 2 ^ 54" using Sm(3) k by simp_all
    then show ?thesis unfolding F(3)[OF k] abs_le_iff by (cases "k < 15") (auto simp: abs_le_iff)
  qed
  then show l: "limbs (2 ^ 62) ?t" using F(1) by (simp add: limbs_def)
  then show "gf_red (M a b)" unfolding M_def by (rule car_twice_red)
  have lt: "length ?t = 16" by (rule F(1))
  have "gf_val (M a b) mod p25519 = gf_val ?t mod p25519"
    unfolding M_def using car_cong[OF lt] car_cong[OF car_length[OF lt]] by simp
  also have "\<dots> = lval 65536 (M_sums a b) mod p25519"
    unfolding F(2) by (simp add: mod_diff_eq[symmetric] mult.assoc)
  finally show "gf_val (M a b) mod p25519 = (gf_val a * gf_val b) mod p25519"
    by (simp add: Sm(2))
qed

section \<open>Addition, subtraction, selection\<close>

lemma A_ok: "limbs B a \<Longrightarrow> limbs C b \<Longrightarrow> limbs (B + C) (A a b) \<and> gf_val (A a b) = gf_val a + gf_val b"
  by (auto simp: limbs_def A_def lval_map_add map_nth_take intro: order_trans[OF abs_triangle_ineq] add_mono)

lemma Z_ok: "limbs B a \<Longrightarrow> limbs C b \<Longrightarrow> limbs (B + C) (Z a b) \<and> gf_val (Z a b) = gf_val a - gf_val b"
  by (auto simp: limbs_def Z_def lval_map_diff map_nth_take intro: order_trans[OF abs_triangle_ineq4] add_mono)

lemma limbs_mono: "limbs B a \<Longrightarrow> B \<le> C \<Longrightarrow> limbs C a"
  by (auto simp: limbs_def intro: order_trans)

lemma set25519_id: "length a = 16 \<Longrightarrow> set25519 a = a"
  by (simp add: set25519_def map_nth_take)

lemma xor_swap: "q XOR (p XOR q) = (p :: int)"
  by (simp add: xor.left_commute)

lemma sel25519_ok:
  assumes "length p = 16" and "length q = 16"
  shows "sel25519 p q 0 = (p, q)" and "sel25519 p q 1 = (q, p)"
  using assms by (simp_all add: sel25519_def Let_def map_nth_take xor_swap)

section \<open>The canonical bytes\<close>

definition p_limb :: "nat \<Rightarrow> int" where
  "p_limb i = (if i = 0 then 0xffed else if i = 15 then 0x7fff else 0xffff)"

primrec bor :: "gf \<Rightarrow> nat \<Rightarrow> int" where
  "bor t 0 = 0"
| "bor t (Suc i) = ((t ! i - p_limb i - bor t i) div 65536) mod 2"

definition dif :: "gf \<Rightarrow> nat \<Rightarrow> int" where
  "dif t i = t ! i - p_limb i - bor t i"

definition digits :: "gf \<Rightarrow> bool" where
  "digits t \<longleftrightarrow> length t = 16 \<and> (\<forall>i < 16. 0 \<le> t ! i \<and> t ! i < 65536)"

lemma bor_range: "bor t i = 0 \<or> bor t i = 1"
  by (cases i) auto

lemma dif_range:
  assumes "digits t" and "i < 16"
  shows "- 65536 \<le> dif t i" "dif t i < 65536" "dif t i = dif t i mod 65536 - 65536 * bor t (Suc i)" "bor t (Suc i) = (if dif t i < 0 then 1 else 0)"
proof -
  show 1: "- 65536 \<le> dif t i" "dif t i < 65536"
    using assms bor_range[of t i] by (auto simp: digits_def dif_def p_limb_def split: if_splits)
  have "dif t i div 65536 = (if dif t i < 0 then - 1 else 0)"
    using 1 div_bounds[of "dif t i"] by auto
  then show "bor t (Suc i) = (if dif t i < 0 then 1 else 0)" by (simp add: dif_def[symmetric])
  then show "dif t i = dif t i mod 65536 - 65536 * bor t (Suc i)"
    using \<open>dif t i div 65536 = _\<close> div_mult_mod_eq[of "dif t i" 65536] by (auto split: if_splits)
qed

lemma sub_step_at:
  assumes "length xs = n" 
  shows "sub_step t (xs @ y # z # zs) (Suc n) = xs @ (y mod 65536) # (t ! Suc n - 0xffff - (y div 65536) mod 2) # zs"
  using assms by (simp add: sub_step_def Let_def nth_append list_update_append)

lemma sub_prefix:
  "n < 14 \<Longrightarrow> foldl (sub_step t) ((replicate 16 0)[0 := t ! 0 - 0xffed]) [1..<Suc n] =
     map (\<lambda>i. dif t i mod 65536) [0..<n] @ dif t n # replicate (15 - n) 0"
proof (induction n)
  case 0
  then show ?case using replicate_Suc[of 15 "0 :: int"] by (simp add: dif_def p_limb_def)
next
  case (Suc n)
  have r: "replicate (15 - n) (0 :: int) = 0 # replicate (15 - Suc n) 0"
  proof -
    have "15 - n = Suc (15 - Suc n)" using Suc.prems by linarith
    then show ?thesis by (metis replicate_Suc)
  qed
  have d: "dif t (Suc n) = t ! Suc n - 0xffff - (dif t n div 65536) mod 2"
    using Suc.prems by (simp add: dif_def p_limb_def)
  show ?case
    using Suc sub_step_at[of "map (\<lambda>i. dif t i mod 65536) [0..<n]" n t "dif t n" 0] by (simp add: r d)
qed

lemma sub_p_eq:
  "sub_p t = (map (\<lambda>i. dif t i mod 65536) [0..<15] @ [dif t 15], bor t 16)"
proof -
  let ?xs = "map (\<lambda>i. dif t i mod 65536) [0..<13]"
  have "foldl (sub_step t) ((replicate 16 0)[0 := t ! 0 - 0xffed]) [1..<14] = ?xs @ dif t 13 # replicate 2 0"
    using sub_prefix[of 13 t] by simp
  moreover have "dif t 14 = t ! 14 - 0xffff - (dif t 13 div 65536) mod 2"
    using bor.simps(2)[of t 13] by (simp add: dif_def p_limb_def)
  ultimately have m: "foldl (sub_step t) ((replicate 16 0)[0 := t ! 0 - 0xffed]) [1..<15] = ?xs @ dif t 13 mod 65536 # dif t 14 # [0]"
    using sub_step_at[of ?xs 13 t "dif t 13" 0 "[0]"] upt_Suc_append[of 1 14] by (simp add: numeral_2_eq_2)
  have d: "dif t 15 = t ! 15 - 0x7fff - (dif t 14 div 65536) mod 2"
    using bor.simps(2)[of t 14] by (simp add: dif_def p_limb_def)
  have b: "bor t 16 = (dif t 15 div 65536) mod 2"
    using bor.simps(2)[of t 15] by (simp add: dif_def)
  have u: "[0..<15] = [0..<13] @ [13, 14]" by (simp add: upt_rec)
  show ?thesis
    unfolding sub_p_def Let_def m by (simp add: nth_append list_update_append d b u)
qed

lemma sub_prefix_val:
  assumes "digits t" and "n \<le> 16"
  shows "gf_val (map (\<lambda>i. dif t i mod 65536) [0..<n]) = gf_val (take n t) - lval 65536 (map p_limb [0..<n]) + 65536 ^ n * bor t n"
  using assms(2)
proof (induction n)
  case (Suc n)
  have "dif t n mod 65536 = t ! n - p_limb n - bor t n + 65536 * bor t (Suc n)"
    using dif_range(3)[OF assms(1), of n] Suc.prems by (simp add: dif_def)
  then have "65536 ^ n * (dif t n mod 65536) = 65536 ^ n * (t ! n - p_limb n - bor t n + 65536 * bor t (Suc n))"
    by (simp only:)
  also have "\<dots> = 65536 ^ n * t ! n - 65536 ^ n * p_limb n - 65536 ^ n * bor t n + 65536 ^ Suc n * bor t (Suc n)"
    by (simp add: algebra_simps del: bor.simps)
  finally show ?case
    using Suc assms(1) by (simp add: lval_append take_Suc_conv_app_nth digits_def del: bor.simps)
qed simp

lemma p_limbs: "lval 65536 (map p_limb [0..<16]) = p25519"
  by (simp add: p_limb_def p25519_def upt_rec)

lemma digits_val: "digits t \<Longrightarrow> 0 \<le> gf_val t \<and> gf_val t < 2 ^ 256"
proof -
  assume t: "digits t"
  then have "\<forall>x \<in> set t. 0 \<le> x \<and> x < 65536" by (auto simp: digits_def in_set_conv_nth)
  then show ?thesis using lval_bounds[of t 65536] t by (simp add: digits_def)
qed

lemma pack_round_ok:
  assumes "digits t"
  shows "digits (pack_round t)" and "gf_val (pack_round t) = (if gf_val t \<ge> p25519 then gf_val t - p25519 else gf_val t)"
proof -
  let ?m = "map (\<lambda>i. dif t i mod 65536) [0..<15] @ [dif t 15]"
  have lt: "length t = 16" using assms by (simp add: digits_def)
  have full: "gf_val (map (\<lambda>i. dif t i mod 65536) [0..<16]) = gf_val t - p25519 + 2 ^ 256 * bor t 16"
    using sub_prefix_val[OF assms, of 16] p_limbs lt by simp
  have d15: "bor t 16 = (if dif t 15 < 0 then 1 else 0)" "dif t 15 < 65536" using dif_range[OF assms, of 15] by simp_all
  have dm: "digits (map (\<lambda>i. dif t i mod 65536) [0..<16])" by (simp add: digits_def)
  have "digits (pack_round t) \<and> gf_val (pack_round t) = (if gf_val t \<ge> p25519 then gf_val t - p25519 else gf_val t)"
  proof (cases "dif t 15 < 0")
    case True
    then have "pack_round t = t" using d15 lt by (simp add: pack_round_def sub_p_eq sel25519_ok)
    moreover have "gf_val t < p25519" using full d15 True digits_val[OF dm] by simp
    ultimately show ?thesis using assms by simp
  next
    case False
    have m: "?m = map (\<lambda>i. dif t i mod 65536) [0..<16]" using False d15(2) upt_Suc_append[of 0 15] by simp
    then have "pack_round t = map (\<lambda>i. dif t i mod 65536) [0..<16]" using False d15 lt by (simp add: pack_round_def sub_p_eq sel25519_ok)
    moreover have "gf_val t \<ge> p25519" using full d15 False digits_val[OF dm] by simp
    ultimately show ?thesis using dm full False d15(1) by simp
  qed
  then show "digits (pack_round t)" and "gf_val (pack_round t) = (if gf_val t \<ge> p25519 then gf_val t - p25519 else gf_val t)" by blast+
qed

text \<open>The third carry pass leaves sixteen digits: the overflow of the first two is at most one.\<close>

lemma car_thrice_digits:
  assumes "gf_red b"
  shows "digits (car25519 b)"
proof -
  have lb: "length b = 16" using assms by (simp add: gf_red_def)
  let ?r = "map (car_r b) [0..<16]"
  have dr: "digits ?r" using car_r_range by (simp add: digits_def)
  have V: "gf_val b = gf_val ?r + 2 ^ 256 * car_k b 16" by (rule car_val(1)[OF lb])
  have r0: "gf_val ?r = car_r b 0 + 65536 * gf_val (map (car_r b) [1..<16])" by (simp add: upt_conv_Cons)
  have tl: "0 \<le> gf_val (map (car_r b) [1..<16]) \<and> gf_val (map (car_r b) [1..<16]) < 2 ^ 240"
    using lval_bounds[of "map (car_r b) [1..<16]" 65536] car_r_range by auto
  obtain b0 bs where bb: "b = b0 # bs" and lbs: "length bs = 15" using lb by (cases b) auto
  have "\<forall>x \<in> set bs. 0 \<le> x \<and> x < 65536"
  proof
    fix x assume "x \<in> set bs"
    then obtain j where j: "j < 15" "x = b ! Suc j" using lbs bb by (auto simp: in_set_conv_nth)
    then show "0 \<le> x \<and> x < 65536" using assms by (simp add: gf_red_def)
  qed
  then have bv: "0 \<le> gf_val bs \<and> gf_val bs < 2 ^ 240" using lval_bounds[of bs 65536] lbs by simp
  have b0: "- 38 \<le> b0" "b0 \<le> 65573" using assms bb by (simp_all add: gf_red_def)
  have vb: "- 38 \<le> gf_val b" "gf_val b \<le> 2 ^ 256 + 37" using bv b0 by (simp_all add: bb)
  have k: "car_k b 16 = - 1 \<or> car_k b 16 = 0 \<or> car_k b 16 = 1"
    using V vb digits_val[OF dr] by auto
  have c0: "0 \<le> car_r b 0 + 38 * car_k b 16 \<and> car_r b 0 + 38 * car_k b 16 < 65536"
    using k
  proof (elim disjE)
    assume "car_k b 16 = - 1"
    moreover have "car_r b 0 < 65536" using car_r_range by simp
    ultimately show ?thesis using V vb r0 tl by simp
  next
    assume "car_k b 16 = 1"
    then show ?thesis using V vb r0 tl car_r_range[of b 0] by simp
  qed (use car_r_range[of b 0] in simp)
  have "0 \<le> car25519 b ! i \<and> car25519 b ! i < 65536" if "i < 16" for i
    using car_nth[OF lb that] c0 car_r_range[of b i] by (cases "i = 0") simp_all
  then show ?thesis by (simp add: digits_def car_length lb)
qed

lemma map_nth_f: "length xs = n \<Longrightarrow> map (\<lambda>i. f (xs ! i)) [0..<n] = map f xs"
  by (auto intro: nth_equalityI)

lemma byte_pairs:
  assumes "\<forall>x \<in> set t. 0 \<le> x \<and> x < 65536"
  shows "lval 256 (map uint (concat (map (\<lambda>x. [word_of_int (x mod 256), word_of_int (x div 256) :: u8]) t))) = gf_val t"
  using assms
proof (induction t)
  case (Cons x t)
  have "0 \<le> x" "x < 65536" using Cons.prems by simp_all
  then have "x div 256 < 256" "0 \<le> x div 256" by simp_all
  then have "uint (word_of_int (x mod 256) :: u8) = x mod 256" "uint (word_of_int (x div 256) :: u8) = x div 256"
    by (simp_all add: uint_word_of_int)
  then show ?case using Cons by (simp add: algebra_simps)
qed simp

text \<open>
  Whatever the limbs, within the range of the representation, the packed bytes are the one
  little-endian encoding of the value modulo the prime.
\<close>

lemma pack25519_ok:
  assumes "limbs (2 ^ 62) n"
  shows "length (pack25519 n) = 32" and "lval 256 (map uint (pack25519 n)) = gf_val n mod p25519"
proof -
  have ln: "length n = 16" using assms by (simp add: limbs_def)
  let ?t = "car25519 (car25519 (car25519 n))"
  have dt: "digits ?t" using car_thrice_digits[OF car_twice_red[OF assms]] .
  note r1 = pack_round_ok[OF dt] and r2 = pack_round_ok[OF pack_round_ok(1)[OF dt]]
  let ?u = "pack_round (pack_round ?t)"
  have bytes: "pack25519 n = concat (map (\<lambda>x. [word_of_int (x mod 256), word_of_int (x div 256)]) ?u)"
    using r2(1) map_nth_f[of ?u 16 "\<lambda>x. [word_of_int (x mod 256), word_of_int (x div 256) :: u8]"]
    by (simp add: pack25519_def Let_def set25519_id[OF ln] digits_def)
  have lu: "length ?u = 16" "\<forall>x \<in> set ?u. 0 \<le> x \<and> x < 65536" using r2(1) by (auto simp: digits_def in_set_conv_nth)
  have "length (concat (map (\<lambda>x. [f x, g x]) xs)) = 2 * length xs" for f g :: "int \<Rightarrow> u8" and xs by (induction xs) simp_all
  then show "length (pack25519 n) = 32" using bytes lu(1) by simp
  have "gf_val ?u mod p25519 = gf_val ?t mod p25519" using r1(2) r2(2) by (simp add: mod_diff_eq[symmetric])
  also have "\<dots> = gf_val n mod p25519" using car_cong ln by (simp add: car_length)
  finally have "gf_val ?u mod p25519 = gf_val n mod p25519" .
  moreover have "0 \<le> gf_val ?u" "gf_val ?u < p25519"
    using digits_val[OF r2(1)] digits_val[OF dt] r1(2) r2(2) by (simp_all add: p25519_def split: if_splits)
  ultimately have "gf_val ?u = gf_val n mod p25519" by (simp add: mod_pos_pos_trivial)
  then show "lval 256 (map uint (pack25519 n)) = gf_val n mod p25519"
    using byte_pairs[OF lu(2)] bytes by simp
qed

section \<open>Comparison and unpacking\<close>

lemma lval_inj:
  assumes "length xs = length ys" and "\<forall>x \<in> set xs \<union> set ys. 0 \<le> x \<and> x < b" and "lval b xs = lval b ys"
  shows "xs = ys"
  using assms
proof (induction xs ys rule: list_induct2)
  case (Cons x xs y ys)
  have "(x + b * lval b xs) mod b = (y + b * lval b ys) mod b" using Cons.prems(2) by simp
  then have "x = y" using Cons.prems(1) by simp
  moreover have "0 < b" using Cons.prems(1) by force
  ultimately show ?case using Cons by simp
qed simp

lemma bytes_eqI:
  assumes "length xs = length ys" and "lval 256 (map uint xs) = lval 256 (map uint (ys :: bytes))"
  shows "xs = ys"
proof -
  have "0 \<le> uint x \<and> uint x < 256" for x :: u8 using uint_bounded[of x] by simp
  then have "map uint xs = map uint ys" using assms by (intro lval_inj[of _ _ 256]) auto
  then show ?thesis by (metis (no_types, lifting) inj_def inj_map_eq_map word_uint_eqI)
qed

lemma or_loop:
  "foldl (\<lambda>d i. d OR ucast (x ! i XOR y ! i)) (0 :: u64) [0..<n] = ucast (foldl (\<lambda>d i. d OR (x ! i XOR y ! i)) (0 :: u8) [0..<n])"
  by (induction n) (simp_all add: bit_eq_iff bit_simps disj_commute conj_disj_distribL)

lemma or_loop_zero:
  "foldl (\<lambda>d i. d OR (x ! i XOR y ! i)) (0 :: u8) [0..<n] = 0 \<longleftrightarrow> (\<forall>i < n. x ! i = y ! i)"
  by (induction n) (auto simp: or_eq_zero_iff xor_eq_zero_iff less_Suc_eq)

text \<open>\<open>vn\<close> is zero on equal strings and minus one otherwise.\<close>

lemma vn_eq: "vn x y n = (if \<forall>i < n. x ! i = y ! i then 0 else - 1)"
proof -
  let ?e = "foldl (\<lambda>d i. d OR (x ! i XOR y ! i)) (0 :: u8) [0..<n]"
  have "sint (1 AND drop_bit 8 ((ucast e :: u64) - 1)) = (if e = 0 then 1 else 0)" for e :: u8
  proof (cases "e = 0")
    case False
    have "unat (ucast e :: u64) < 256"
      using unat_lt2p[of e] by (simp add: unsigned_ucast_eq le_less_trans[OF take_bit_nat_less_eq_self])
    moreover have "(ucast e :: u64) \<noteq> 0"
    proof
      assume "(ucast e :: u64) = 0"
      then have "bit (ucast e :: u64) k = False" for k by simp
      then have "e = 0" by (intro bit_eqI) (auto simp: bit_simps)
      with False show False by simp
    qed
    ultimately have "unat ((ucast e :: u64) - 1) < 256" by (simp add: unat_minus_one)
    moreover have "take_bit 64 (unat v) = unat v" for v :: u64
      using unat_lt2p[of v] by (simp add: take_bit_nat_eq_self)
    ultimately have "drop_bit 8 ((ucast e :: u64) - 1) = 0"
      by (intro word_unat_eq_iff[THEN iffD2]) (simp add: unsigned_drop_bit_eq drop_bit_nat_def)
    then show ?thesis using False by simp
  next
    case True
    have "1 AND drop_bit 8 (- 1 :: u64) = 1"
      by (rule bit_eqI) (auto simp: bit_simps)
    then show ?thesis using True by simp
  qed
  then show ?thesis unfolding vn_def Let_def or_loop using or_loop_zero[of x y n] by auto
qed

lemma verify_32_iff: "length x = 32 \<Longrightarrow> length y = 32 \<Longrightarrow> crypto_verify_32 x y = 0 \<longleftrightarrow> x = y"
  by (auto simp: crypto_verify_32_def vn_eq intro: nth_equalityI)

lemma neq25519_iff:
  assumes "limbs (2 ^ 62) a" and "limbs (2 ^ 62) b"
  shows "neq25519 a b \<longleftrightarrow> gf_val a mod p25519 \<noteq> gf_val b mod p25519"
  using pack25519_ok[OF assms(1)] pack25519_ok[OF assms(2)] bytes_eqI[of "pack25519 a" "pack25519 b"]
  by (auto simp: neq25519_def verify_32_iff)

lemma lval_map_upt:
  "lval b (map f [0..<Suc n]) = lval b (map f [0..<n]) + b ^ n * f n"
  by (simp add: lval_append)

lemma unpack_pairs:
  assumes "length bs = 2 * n"
  shows "lval 65536 (map (\<lambda>i. uint (bs ! (2 * i)) + uint (bs ! (2 * i + 1)) * 256) [0..<n]) = lval 256 (map uint (bs :: bytes))"
  using assms
proof (induction n arbitrary: bs)
  case (Suc n)
  obtain x cs1 where b1: "bs = x # cs1" using Suc.prems by (cases bs) auto
  obtain y cs where b2: "cs1 = y # cs" using Suc.prems b1 by (cases cs1) auto
  have bs: "bs = x # y # cs" and l: "length cs = 2 * n" using Suc.prems b1 b2 by simp_all
  have "map (\<lambda>i. uint (bs ! (2 * i)) + uint (bs ! (2 * i + 1)) * 256) [0..<Suc n] =
      (uint x + uint y * 256) # map (\<lambda>i. uint (cs ! (2 * i)) + uint (cs ! (2 * i + 1)) * 256) [0..<n]"
    by (simp add: bs upt_conv_Cons map_Suc_upt[symmetric] del: upt_Suc)
  then show ?case using Suc.IH[OF l] by (simp add: bs algebra_simps)
qed simp

lemma unpack25519_ok:
  assumes "length n = 32"
  shows "digits (unpack25519 n)" and "gf_val (unpack25519 n) = lval 256 (map uint n) mod 2 ^ 255"
proof -
  let ?o = "map (\<lambda>i. uint (n ! (2 * i)) + uint (n ! (2 * i + 1)) * 256) [0..<16]"
  have ob: "0 \<le> ?o ! i \<and> ?o ! i < 65536" if "i < 16" for i
    using that uint_bounded[of "n ! (2 * i)"] uint_bounded[of "n ! (2 * i + 1)"] by simp
  have u: "unpack25519 n = ?o[15 := ?o ! 15 mod 0x8000]" by (simp add: unpack25519_def Let_def)
  have v: "gf_val ?o = lval 256 (map uint n)" using unpack_pairs[of n 16] assms by simp
  show d: "digits (unpack25519 n)"
    unfolding digits_def u using ob by (auto simp: nth_list_update simp del: nth_map)
  have "gf_val (unpack25519 n) = gf_val ?o + (?o ! 15 mod 0x8000 - ?o ! 15) * 65536 ^ 15"
    unfolding u by (rule lval_update) simp
  also have "?o ! 15 mod 0x8000 - ?o ! 15 = - (0x8000 * (?o ! 15 div 0x8000))"
    using minus_div_mult_eq_mod[of "?o ! 15" 32768] by simp
  finally have e: "gf_val (unpack25519 n) = gf_val ?o - 2 ^ 255 * (?o ! 15 div 0x8000)" by simp
  then have m: "gf_val (unpack25519 n) mod 2 ^ 255 = gf_val ?o mod 2 ^ 255"
    by (simp add: mod_diff_eq[symmetric])
  have t: "unpack25519 n = take 15 ?o @ [?o ! 15 mod 0x8000]"
    unfolding u by (simp add: upt_rec)
  have "\<forall>x \<in> set (take 15 ?o). 0 \<le> x \<and> x < 65536" using ob by (auto simp: in_set_conv_nth simp del: nth_map)
  then have "0 \<le> gf_val (take 15 ?o)" "gf_val (take 15 ?o) < 2 ^ 240" using lval_bounds[of "take 15 ?o" 65536] by simp_all
  then have "0 \<le> gf_val (unpack25519 n)" "gf_val (unpack25519 n) < 2 ^ 255"
    unfolding t lval_append using pos_mod_bound[of 32768 "?o ! 15"] pos_mod_sign[of 32768 "?o ! 15"] by simp_all
  then show "gf_val (unpack25519 n) = lval 256 (map uint n) mod 2 ^ 255" using m v by simp
qed

section \<open>Powers\<close>

text \<open>Both ladders square and multiply; the exponent is built bit by bit.\<close>

lemma pow_ladder:
  assumes i: "limbs (2 ^ 25) i" and "limbs (2 ^ 25) c" and "gf_val c mod p25519 = (gf_val i ^ e) mod p25519"
  defines "f \<equiv> \<lambda>Q c a. let c = S c in if Q a then M c i else c"
  shows "limbs (2 ^ 25) (foldl (f Q) c xs) \<and>
    gf_val (foldl (f Q) c xs) mod p25519 = (gf_val i ^ foldl (\<lambda>e a. 2 * e + (if Q a then 1 else 0)) e xs) mod p25519"
  using assms(2,3)
proof (induction xs arbitrary: c e)
  case (Cons a xs)
  have sq: "gf_red (S c)" "gf_val (S c) mod p25519 = gf_val i ^ (2 * e) mod p25519"
  proof -
    show "gf_red (S c)" unfolding S_def using M_ok(1) Cons.prems(1) by blast
    have "gf_val (S c) mod p25519 = (gf_val c mod p25519) * (gf_val c mod p25519) mod p25519"
      unfolding S_def using M_ok(2)[OF Cons.prems(1) Cons.prems(1)] by (simp add: mod_mult_eq)
    also have "\<dots> = gf_val i ^ (2 * e) mod p25519"
      unfolding Cons.prems(2) by (simp add: mod_mult_eq mult_2 power_add)
    finally show "gf_val (S c) mod p25519 = gf_val i ^ (2 * e) mod p25519" .
  qed
  have lsq: "limbs (2 ^ 25) (S c)" using limbs_mono[OF gf_red_limbs[OF sq(1)]] by simp
  have "limbs (2 ^ 25) (f Q c a) \<and> gf_val (f Q c a) mod p25519 = gf_val i ^ (2 * e + (if Q a then 1 else 0)) mod p25519"
  proof (cases "Q a")
    case True
    have "gf_val (M (S c) i) mod p25519 = ((gf_val (S c) mod p25519) * gf_val i) mod p25519"
      using M_ok(2)[OF lsq i] by (simp add: mod_mult_left_eq)
    also have "\<dots> = gf_val i ^ (2 * e + 1) mod p25519" unfolding sq(2) by (simp add: mod_mult_left_eq mod_mult_right_eq mult.commute)
    finally show ?thesis
      using True limbs_mono[OF gf_red_limbs[OF M_ok(1)[OF lsq i]]] by (simp add: f_def Let_def)
  qed (use sq(2) lsq in \<open>simp add: f_def Let_def\<close>)
  then show ?case using Cons.IH by simp
qed simp

lemma exponent_ones:
  "\<forall>a \<in> set xs. Q a \<Longrightarrow> foldl (\<lambda>e a. 2 * e + (if Q a then 1 else 0)) (e :: nat) xs + 1 = (e + 1) * 2 ^ length xs"
proof (induction xs arbitrary: e)
  case (Cons x xs)
  then show ?case using Cons.IH[of "2 * e + 1"] by simp
qed simp

lemma exponent_inv: "foldl (\<lambda>e a. 2 * e + (if a \<noteq> 2 \<and> a \<noteq> 4 then 1 else 0)) (1 :: nat) (rev [0..<254]) = 2 ^ 255 - 21"
proof -
  have "[0..<254] = [0..<5] @ [5..<254 :: nat]" using upt_add_eq_append[of 0 5 249] by simp
  then have r: "rev [0..<254] = rev [5..<254] @ [4, 3, 2, 1, 0 :: nat]" by (simp add: upt_rec)
  have "foldl (\<lambda>e a. 2 * e + (if a \<noteq> 2 \<and> a \<noteq> 4 then 1 else 0)) (1 :: nat) (rev [5..<254 :: nat]) + 1 = 2 ^ 250"
    by (subst exponent_ones) auto
  then have "foldl (\<lambda>e a. 2 * e + (if a \<noteq> 2 \<and> a \<noteq> 4 then 1 else 0)) (1 :: nat) (rev [5..<254 :: nat]) = 2 ^ 250 - 1"
    by linarith
  then show ?thesis unfolding r by simp
qed

lemma exponent_2523: "foldl (\<lambda>e a. 2 * e + (if a \<noteq> 1 then 1 else 0)) (1 :: nat) (rev [0..<251 :: nat]) = 2 ^ 252 - 3"
proof -
  have "[0..<251] = [0..<2] @ [2..<251 :: nat]" using upt_add_eq_append[of 0 2 249] by simp
  then have r: "rev [0..<251] = rev [2..<251] @ [1, 0 :: nat]" by (simp add: upt_rec)
  have "foldl (\<lambda>e a. 2 * e + (if a \<noteq> 1 then 1 else 0)) (1 :: nat) (rev [2..<251 :: nat]) + 1 = 2 ^ 250"
    by (subst exponent_ones) auto
  then have "foldl (\<lambda>e a. 2 * e + (if a \<noteq> 1 then 1 else 0)) (1 :: nat) (rev [2..<251 :: nat]) = 2 ^ 250 - 1"
    by linarith
  then show ?thesis unfolding r by simp
qed

lemma inv25519_ok:
  assumes "limbs (2 ^ 25) i"
  shows "limbs (2 ^ 25) (inv25519 i)" and "gf_val (inv25519 i) mod p25519 = gf_val i ^ nat (p25519 - 2) mod p25519"
proof -
  have li: "set25519 i = i" using assms by (simp add: set25519_id limbs_def)
  have e: "nat (p25519 - 2) = 2 ^ 255 - 21" by (simp add: p25519_def)
  note L = pow_ladder[OF assms assms, of 1 "\<lambda>a. a \<noteq> 2 \<and> a \<noteq> 4" "rev [0..<254]", simplified exponent_inv]
  show "limbs (2 ^ 25) (inv25519 i)" "gf_val (inv25519 i) mod p25519 = gf_val i ^ nat (p25519 - 2) mod p25519"
    using L unfolding inv25519_def li e by simp_all
qed

lemma pow2523_ok:
  assumes "limbs (2 ^ 25) i"
  shows "limbs (2 ^ 25) (pow2523 i)" and "gf_val (pow2523 i) mod p25519 = gf_val i ^ nat ((p25519 - 5) div 8) mod p25519"
proof -
  have li: "set25519 i = i" using assms by (simp add: set25519_id limbs_def)
  have e: "nat ((p25519 - 5) div 8) = 2 ^ 252 - 3" by (simp add: p25519_def)
  note L = pow_ladder[OF assms assms, of 1 "\<lambda>a. a \<noteq> 1" "rev [0..<251]", simplified exponent_2523]
  show "limbs (2 ^ 25) (pow2523 i)" "gf_val (pow2523 i) mod p25519 = gf_val i ^ nat ((p25519 - 5) div 8) mod p25519"
    using L unfolding pow2523_def li e by simp_all
qed


section \<open>Properties\<close>

text \<open>
  C21: for operands with limbs of up to 25 bits, in particular sums and differences of reduced
  elements, multiplication computes the product modulo 2 ^ 255 - 19 with reduced limbs, and every
  intermediate sum, the folded ones included, stays within the signed 64-bit range.
\<close>

theorem gf_mul_correct:
  assumes "limbs (2 ^ 25) a" and "limbs (2 ^ 25) b"
  shows "gf_val (M a b) mod p25519 = (gf_val a * gf_val b) mod p25519 \<and> gf_red (M a b) \<and>
    (\<forall>x \<in> set (M_sums a b). \<bar>x\<bar> < 2 ^ 63) \<and> (\<forall>x \<in> set (take 16 (M_fold (M_sums a b))). \<bar>x\<bar> < 2 ^ 63)"
proof (intro conjI)
  note m = M_ok[OF assms]
  show "gf_val (M a b) mod p25519 = (gf_val a * gf_val b) mod p25519" and "gf_red (M a b)" using m(1,2) by blast+
  show "\<forall>x \<in> set (M_sums a b). \<bar>x\<bar> < 2 ^ 63" using m(3) by fastforce
  show "\<forall>x \<in> set (take 16 (M_fold (M_sums a b))). \<bar>x\<bar> < 2 ^ 63"
    using m(4) by (fastforce simp: limbs_def in_set_conv_nth)
qed

lemma limbs_replicate: "\<bar>x\<bar> \<le> B \<Longrightarrow> limbs B (replicate 16 x)"
  by (simp add: limbs_def)

theorem gf_mul_correct_witness:
  "gf_val (M (replicate 16 (2 ^ 25)) (replicate 16 (- (2 ^ 25)))) mod p25519
     = (gf_val (replicate 16 (2 ^ 25)) * gf_val (replicate 16 (- (2 ^ 25)))) mod p25519"
  by (rule conjunct1[OF gf_mul_correct]) (rule limbs_replicate, simp)+

text \<open>
  C20: the packed bytes of an element are its canonical representative below 2 ^ 255 - 19: two
  elements pack to the same bytes exactly when they are congruent, neq25519 decides this, and
  unpacking gives a congruent element with reduced limbs back.
\<close>

theorem pack25519_canonical:
  assumes "limbs (2 ^ 62) a" and "limbs (2 ^ 62) b"
  shows "(length (pack25519 a) = 32 \<and> lval 256 (map uint (pack25519 a)) = gf_val a mod p25519) \<and>
    (pack25519 a = pack25519 b \<longleftrightarrow> gf_val a mod p25519 = gf_val b mod p25519) \<and>
    (neq25519 a b \<longleftrightarrow> gf_val a mod p25519 \<noteq> gf_val b mod p25519) \<and>
    (digits (unpack25519 (pack25519 a)) \<and> gf_val (unpack25519 (pack25519 a)) = gf_val a mod p25519)"
proof (rule conjI[OF _ conjI[OF _ conjI]])
  note pa = pack25519_ok[OF assms(1)] and pb = pack25519_ok[OF assms(2)]
  show "length (pack25519 a) = 32 \<and> lval 256 (map uint (pack25519 a)) = gf_val a mod p25519" using pa by simp
  show "pack25519 a = pack25519 b \<longleftrightarrow> gf_val a mod p25519 = gf_val b mod p25519"
    using pa pb bytes_eqI[of "pack25519 a" "pack25519 b"] by auto
  show "neq25519 a b \<longleftrightarrow> gf_val a mod p25519 \<noteq> gf_val b mod p25519" by (rule neq25519_iff[OF assms])
  have "0 \<le> gf_val a mod p25519 \<and> gf_val a mod p25519 < 2 ^ 255"
    using pos_mod_bound[of p25519 "gf_val a"] by (simp add: p25519_def)
  then show "digits (unpack25519 (pack25519 a)) \<and> gf_val (unpack25519 (pack25519 a)) = gf_val a mod p25519"
    using unpack25519_ok[OF pa(1)] pa(2) by simp
qed

theorem pack25519_canonical_witness:
  "pack25519 (replicate 16 65535) = pack25519 (37 # replicate 15 0)"
proof -
  have "replicate 16 (65535 :: int) = [65535, 65535, 65535, 65535, 65535, 65535, 65535, 65535, 65535, 65535, 65535, 65535, 65535, 65535, 65535, 65535]"
    by (simp add: numeral_eq_Suc)
  then have "gf_val (replicate 16 65535) = 2 ^ 256 - 1" by simp
  then have "gf_val (replicate 16 65535) mod p25519 = gf_val (37 # replicate 15 0) mod p25519"
    by (simp add: p25519_def)
  then show ?thesis
    using pack25519_canonical[of "replicate 16 65535" "37 # replicate 15 0"] by (simp add: limbs_def nth_Cons')
qed

text \<open>
  the two addition chains compute the powers they are for, p - 2 for the inverse and
  (p - 5) / 8 for the square root, with reduced limbs throughout.
\<close>

theorem gf_power_chains:
  assumes "limbs (2 ^ 25) i"
  shows "gf_val (inv25519 i) mod p25519 = gf_val i ^ nat (p25519 - 2) mod p25519"
    and "gf_val (pow2523 i) mod p25519 = gf_val i ^ nat ((p25519 - 5) div 8) mod p25519"
    and "limbs (2 ^ 25) (inv25519 i)" and "limbs (2 ^ 25) (pow2523 i)"
  using inv25519_ok[OF assms] pow2523_ok[OF assms] by blast+

theorem gf_power_chains_witness:
  "gf_val (inv25519 (replicate 16 12345)) mod p25519 = gf_val (replicate 16 12345) ^ nat (p25519 - 2) mod p25519"
  by (rule gf_power_chains(1)) (rule limbs_replicate, simp)

end
