(* ===== verification/Sha512.thy ===== *)
theory Sha512
  imports Prelude
begin

text \<open>
  The hash of \<^verbatim>\<open>kernel/tweetnacl.c\<close>: \<^verbatim>\<open>crypto_hashblocks\<close> keeps the message schedule in a
  rolling window of sixteen words that it rewrites in place after every sixteenth round, and
  \<^verbatim>\<open>crypto_hash\<close> hashes the whole blocks of the message where they lie and builds the padded
  tail in a buffer of two blocks.  The reference definition is the one of FIPS 180-4: pad the
  message, expand every block to eighty words, run eighty rounds.
\<close>

section \<open>Operations\<close>

definition dl64 :: "bytes \<Rightarrow> u64" where
  "dl64 x = foldl (\<lambda>u i. push_bit 8 u OR ucast (x ! i)) 0 [0..<8]"

definition ts64 :: "u64 \<Rightarrow> bytes" where
  "ts64 u = fst (foldl (\<lambda>(x, u) i. (x[i := ucast u], drop_bit 8 u)) (replicate 8 0, u) (rev [0..<8]))"

definition R :: "u64 \<Rightarrow> nat \<Rightarrow> u64" where
  "R x c = drop_bit c x OR push_bit (64 - c) x"

definition Ch :: "u64 \<Rightarrow> u64 \<Rightarrow> u64 \<Rightarrow> u64" where
  "Ch x y z = (x AND y) XOR (NOT x AND z)"

definition Maj :: "u64 \<Rightarrow> u64 \<Rightarrow> u64 \<Rightarrow> u64" where
  "Maj x y z = (x AND y) XOR (x AND z) XOR (y AND z)"

definition Sigma0 :: "u64 \<Rightarrow> u64" where "Sigma0 x = R x 28 XOR R x 34 XOR R x 39"
definition Sigma1 :: "u64 \<Rightarrow> u64" where "Sigma1 x = R x 14 XOR R x 18 XOR R x 41"
definition sigma0 :: "u64 \<Rightarrow> u64" where "sigma0 x = R x 1 XOR R x 8 XOR drop_bit 7 x"
definition sigma1 :: "u64 \<Rightarrow> u64" where "sigma1 x = R x 19 XOR R x 61 XOR drop_bit 6 x"

definition K :: "u64 list" where
  "K = [
     0x428a2f98d728ae22, 0x7137449123ef65cd, 0xb5c0fbcfec4d3b2f, 0xe9b5dba58189dbbc,
     0x3956c25bf348b538, 0x59f111f1b605d019, 0x923f82a4af194f9b, 0xab1c5ed5da6d8118,
     0xd807aa98a3030242, 0x12835b0145706fbe, 0x243185be4ee4b28c, 0x550c7dc3d5ffb4e2,
     0x72be5d74f27b896f, 0x80deb1fe3b1696b1, 0x9bdc06a725c71235, 0xc19bf174cf692694,
     0xe49b69c19ef14ad2, 0xefbe4786384f25e3, 0x0fc19dc68b8cd5b5, 0x240ca1cc77ac9c65,
     0x2de92c6f592b0275, 0x4a7484aa6ea6e483, 0x5cb0a9dcbd41fbd4, 0x76f988da831153b5,
     0x983e5152ee66dfab, 0xa831c66d2db43210, 0xb00327c898fb213f, 0xbf597fc7beef0ee4,
     0xc6e00bf33da88fc2, 0xd5a79147930aa725, 0x06ca6351e003826f, 0x142929670a0e6e70,
     0x27b70a8546d22ffc, 0x2e1b21385c26c926, 0x4d2c6dfc5ac42aed, 0x53380d139d95b3df,
     0x650a73548baf63de, 0x766a0abb3c77b2a8, 0x81c2c92e47edaee6, 0x92722c851482353b,
     0xa2bfe8a14cf10364, 0xa81a664bbc423001, 0xc24b8b70d0f89791, 0xc76c51a30654be30,
     0xd192e819d6ef5218, 0xd69906245565a910, 0xf40e35855771202a, 0x106aa07032bbd1b8,
     0x19a4c116b8d2d0c8, 0x1e376c085141ab53, 0x2748774cdf8eeb99, 0x34b0bcb5e19b48a8,
     0x391c0cb3c5c95a63, 0x4ed8aa4ae3418acb, 0x5b9cca4f7763e373, 0x682e6ff3d6b2b8a3,
     0x748f82ee5defb2fc, 0x78a5636f43172f60, 0x84c87814a1f0ab72, 0x8cc702081a6439ec,
     0x90befffa23631e28, 0xa4506cebde82bde9, 0xbef9a3f7b2c67915, 0xc67178f2e372532b,
     0xca273eceea26619c, 0xd186b8c721c0c207, 0xeada7dd6cde0eb1e, 0xf57d4f7fee6ed178,
     0x06f067aa72176fba, 0x0a637dc5a2c898a6, 0x113f9804bef90dae, 0x1b710b35131c471b,
     0x28db77f523047d84, 0x32caab7b40c72493, 0x3c9ebe0a15c9bebc, 0x431d67c49c100d4c,
     0x4cc5d4becb3e42b6, 0x597f299cfc657e2a, 0x5fcb6fab3ad6faec, 0x6c44198c4a475817
   ]"

definition sched_step :: "u64 list \<Rightarrow> nat \<Rightarrow> u64 list" where
  "sched_step w j =
     w[j := w ! j + (w ! ((j + 9) mod 16) + sigma0 (w ! ((j + 1) mod 16)) + sigma1 (w ! ((j + 14) mod 16)))]"

definition hash_round :: "u64 list \<times> u64 list \<Rightarrow> nat \<Rightarrow> u64 list \<times> u64 list" where
  "hash_round s i =
     (case s of (a, w) \<Rightarrow>
      let b = a;
          t = a ! 7 + Sigma1 (a ! 4) + Ch (a ! 4) (a ! 5) (a ! 6) + K ! i + w ! (i mod 16);
          b = b[7 := t + Sigma0 (a ! 0) + Maj (a ! 0) (a ! 1) (a ! 2)];
          b = b[3 := b ! 3 + t];
          a = foldl (\<lambda>a j. a[(j + 1) mod 8 := b ! j]) a [0..<8];
          w = (if i mod 16 = 15 then foldl sched_step w [0..<16] else w)
      in (a, w))"

definition hash_block :: "u64 list \<Rightarrow> bytes \<Rightarrow> u64 list" where
  "hash_block z m =
     (let w = map (\<lambda>i. dl64 (drop (8 * i) m)) [0..<16];
          a = fst (foldl hash_round (z, w) [0..<80])
      in map (\<lambda>i. a ! i + z ! i) [0..<8])"

function hash_blocks :: "u64 list \<Rightarrow> bytes \<Rightarrow> u64 list \<times> nat" where
  "hash_blocks z m = (if 128 \<le> length m then hash_blocks (hash_block z m) (drop 128 m) else (z, length m))"
  by pat_completeness auto
termination by (relation "measure (\<lambda>(z, m). length m)") auto

declare hash_blocks.simps [simp del]

definition crypto_hashblocks :: "bytes \<Rightarrow> bytes \<Rightarrow> bytes \<times> nat" where
  "crypto_hashblocks x m =
     (case hash_blocks (map (\<lambda>i. dl64 (drop (8 * i) x)) [0..<8]) m of (z, n) \<Rightarrow> (concat (map ts64 z), n))"

definition iv :: bytes where
  "iv = [
     0x6a, 0x09, 0xe6, 0x67, 0xf3, 0xbc, 0xc9, 0x08,
     0xbb, 0x67, 0xae, 0x85, 0x84, 0xca, 0xa7, 0x3b,
     0x3c, 0x6e, 0xf3, 0x72, 0xfe, 0x94, 0xf8, 0x2b,
     0xa5, 0x4f, 0xf5, 0x3a, 0x5f, 0x1d, 0x36, 0xf1,
     0x51, 0x0e, 0x52, 0x7f, 0xad, 0xe6, 0x82, 0xd1,
     0x9b, 0x05, 0x68, 0x8c, 0x2b, 0x3e, 0x6c, 0x1f,
     0x1f, 0x83, 0xd9, 0xab, 0xfb, 0x41, 0xbd, 0x6b,
     0x5b, 0xe0, 0xcd, 0x19, 0x13, 0x7e, 0x21, 0x79
   ]"

text \<open>The padded tail: the buffer \<^verbatim>\<open>x\<close> of \<^verbatim>\<open>crypto_hash\<close> and the length of it that is hashed.\<close>

definition hash_tail :: "bytes \<Rightarrow> bytes" where
  "hash_tail m =
     (let b = of_nat (length m) :: u64;
          n = length m mod 128;
          x = replicate 256 0;
          x = splice 0 (drop (length m - n) m) x;
          x = x[n := 128];
          n = 256 - 128 * (if n < 112 then 1 else 0);
          x = x[n - 9 := ucast (drop_bit 61 b)];
          x = splice (n - 8) (ts64 (push_bit 3 b)) x
      in take n x)"

definition crypto_hash :: "bytes \<Rightarrow> bytes" where
  "crypto_hash m =
     (let h = fst (crypto_hashblocks iv m)
      in fst (crypto_hashblocks h (hash_tail m)))"

section \<open>The standard\<close>

function msg_sched :: "u64 list \<Rightarrow> nat \<Rightarrow> u64" where
  "msg_sched w t =
     (if t < 16 then w ! t
      else sigma1 (msg_sched w (t - 2)) + msg_sched w (t - 7) + sigma0 (msg_sched w (t - 15)) + msg_sched w (t - 16))"
  by pat_completeness auto
termination by (relation "measure snd") auto

declare msg_sched.simps [simp del]

definition sha_round :: "u64 list \<Rightarrow> u64 \<Rightarrow> u64 \<Rightarrow> u64 list" where
  "sha_round s k w =
     (let T1 = s ! 7 + Sigma1 (s ! 4) + Ch (s ! 4) (s ! 5) (s ! 6) + k + w;
          T2 = Sigma0 (s ! 0) + Maj (s ! 0) (s ! 1) (s ! 2)
      in [T1 + T2, s ! 0, s ! 1, s ! 2, s ! 3 + T1, s ! 4, s ! 5, s ! 6])"

definition be64 :: "bytes \<Rightarrow> u64" where "be64 bs = le_word (rev bs)"

definition sha_compress :: "u64 list \<Rightarrow> bytes \<Rightarrow> u64 list" where
  "sha_compress H blk =
     (let w = map (\<lambda>i. be64 (slice (8 * i) 8 blk)) [0..<16]
      in map2 (+) H (foldl (\<lambda>s t. sha_round s (K ! t) (msg_sched w t)) H [0..<80]))"

definition sha_pad :: "bytes \<Rightarrow> bytes" where
  "sha_pad m =
     m @ [0x80] @ replicate ((239 - length m mod 128) mod 128) 0
       @ rev (le_bytes 16 (of_nat (8 * length m) :: 128 word))"

fun sha_blocks :: "bytes \<Rightarrow> bytes list" where
  "sha_blocks p = (if length p < 128 then [] else take 128 p # sha_blocks (drop 128 p))"

declare sha_blocks.simps [simp del]

definition sha_H0 :: "u64 list" where
  "sha_H0 = [0x6a09e667f3bcc908, 0xbb67ae8584caa73b, 0x3c6ef372fe94f82b, 0xa54ff53a5f1d36f1, 0x510e527fade682d1, 0x9b05688c2b3e6c1f, 0x1f83d9abfb41bd6b, 0x5be0cd19137e2179]"

definition sha512 :: "bytes \<Rightarrow> bytes" where
  "sha512 m = concat (map (\<lambda>w. rev (le_bytes 8 w)) (foldl sha_compress sha_H0 (sha_blocks (sha_pad m))))"


section \<open>Byte order\<close>

lemma rev_upt8: "rev [0..<8] = [7, 6, 5, 4, 3, 2, 1, 0 :: nat]" "[0..<8] = [0, 1, 2, 3, 4, 5, 6, 7 :: nat]"
  by (simp_all add: upt_rec)

lemma ts64_eq: "ts64 u = rev (le_bytes 8 u)"
  by (simp add: ts64_def le_bytes_def rev_upt8 numeral_eq_Suc)

lemma foldl_be: "foldl (\<lambda>u b. push_bit 8 u OR ucast b) (le_word r :: 'a::len word) xs = le_word (rev xs @ r)"
  by (induction xs arbitrary: r) (simp_all add: or.commute flip: le_word.simps(2))

lemma dl64_eq: "8 \<le> length x \<Longrightarrow> dl64 x = be64 (take 8 x)"
proof -
  assume l: "8 \<le> length x"
  have "dl64 x = foldl (\<lambda>u b. push_bit 8 u OR ucast b) (le_word []) (map (\<lambda>i. x ! i) [0..<8])"
    by (simp add: dl64_def foldl_map)
  also have "map (\<lambda>i. x ! i) [0..<8] = take 8 x"
    using l by (intro nth_equalityI) simp_all
  finally show ?thesis by (simp only: foldl_be be64_def append_Nil2)
qed

lemma be64_ts64: "be64 (ts64 u) = u"
  by (simp add: be64_def ts64_eq le_word_le_bytes)

lemma length_ts64 [simp]: "length (ts64 u) = 8"
  by (simp add: ts64_eq)

lemma concat_ts64_nth:
  "i < length z \<Longrightarrow> take 8 (drop (8 * i) (concat (map ts64 z))) = ts64 (z ! i)"
proof (induction z arbitrary: i)
  case (Cons a z)
  then show ?case by (cases i) simp_all
qed simp

lemma length_concat_ts64 [simp]: "length (concat (map ts64 z)) = 8 * length z"
  by (induction z) simp_all

lemma load_store_words: "length z = 8 \<Longrightarrow> map (\<lambda>i. dl64 (drop (8 * i) (concat (map ts64 z)))) [0..<8] = z"
  by (rule nth_equalityI) (simp_all add: dl64_eq concat_ts64_nth be64_ts64)

section \<open>The rolling schedule\<close>

text \<open>
  \<open>window k w\<close>: the sixteen words are those of the schedule from \<open>16 * k\<close> on.  The in-place
  update reads only words of the right age, whichever side of the overwritten part they lie on.
\<close>

definition window :: "u64 list \<Rightarrow> nat \<Rightarrow> u64 list \<Rightarrow> bool" where
  "window w0 k w \<longleftrightarrow> length w = 16 \<and> (\<forall>j < 16. w ! j = msg_sched w0 (16 * k + j))"

lemma sched_prefix:
  assumes "window w0 k w" and "n \<le> 16"
  shows "length (foldl sched_step w [0..<n]) = 16 \<and>
    (\<forall>j < 16. foldl sched_step w [0..<n] ! j = msg_sched w0 (16 * k + (if j < n then 16 else 0) + j))"
  using assms(2)
proof (induction n)
  case 0
  then show ?case using assms(1) by (simp add: window_def)
next
  case (Suc n)
  let ?v = "foldl sched_step w [0..<n]"
  have l: "length ?v = 16" and v: "\<And>j. j < 16 \<Longrightarrow> ?v ! j = msg_sched w0 (16 * k + (if j < n then 16 else 0) + j)"
    using Suc by simp_all
  have rd: "?v ! ((n + d) mod 16) = msg_sched w0 (16 * k + n + d)" if "d < 16" for d
  proof (cases "n + d < 16")
    case True
    then show ?thesis using v[of "n + d"] by (simp add: add.assoc)
  next
    case False
    then have "(n + d) mod 16 = n + d - 16" using that Suc.prems by (simp add: mod_if)
    moreover have "?v ! (n + d - 16) = msg_sched w0 (16 * k + 16 + (n + d - 16))"
      using v[of "n + d - 16"] that Suc.prems False by fastforce
    moreover have "16 * k + 16 + (n + d - 16) = 16 * k + n + d" using False by simp
    ultimately show ?thesis by simp
  qed
  have "msg_sched w0 (16 * k + 16 + n) =
      ?v ! n + (?v ! ((n + 9) mod 16) + sigma0 (?v ! ((n + 1) mod 16)) + sigma1 (?v ! ((n + 14) mod 16)))"
    using rd[of 0] rd[of 9] rd[of 1] rd[of 14] Suc.prems
    by (subst msg_sched.simps) (simp add: algebra_simps)
  then have "sched_step ?v n ! n = msg_sched w0 (16 * k + 16 + n)"
    using l Suc.prems by (simp add: sched_step_def)
  moreover have "sched_step ?v n ! j = ?v ! j" if "j \<noteq> n" for j
    using that by (simp add: sched_step_def)
  moreover have "length (sched_step ?v n) = 16" using l by (simp add: sched_step_def)
  ultimately show ?case using v Suc.prems by (auto simp: less_Suc_eq)
qed

lemma sched_window: "window w0 k w \<Longrightarrow> window w0 (Suc k) (foldl sched_step w [0..<16])"
  using sched_prefix[of w0 k w 16] by (simp add: window_def add.commute add.left_commute)

lemma rotate_copy:
  assumes "length a = 8" and "length b = 8"
  shows "foldl (\<lambda>a j. a[(j + 1) mod 8 := b ! j]) a [0..<8] = [b ! 7, b ! 0, b ! 1, b ! 2, b ! 3, b ! 4, b ! 5, b ! 6]"
proof -
  obtain a0 a1 a2 a3 a4 a5 a6 a7 where "a = [a0, a1, a2, a3, a4, a5, a6, a7]"
    using assms(1) by (auto simp: length_Suc_conv numeral_eq_Suc)
  then show ?thesis by (simp add: rev_upt8)
qed

lemma hash_round_eq:
  assumes "length a = 8"
  shows "hash_round (a, w) i =
    (sha_round a (K ! i) (w ! (i mod 16)), if i mod 16 = 15 then foldl sched_step w [0..<16] else w)"
  unfolding hash_round_def Let_def prod.case
  using assms by (subst rotate_copy) (simp_all add: sha_round_def Let_def algebra_simps)

lemma length_sha_round [simp]: "length (sha_round s k w) = 8"
  by (simp add: sha_round_def Let_def)

lemma rounds_eq:
  assumes "length z = 8" and "length w = 16"
  shows "\<exists>w'. foldl hash_round (z, w) [0..<n] = (foldl (\<lambda>s t. sha_round s (K ! t) (msg_sched w t)) z [0..<n], w')
    \<and> window w (n div 16) w' \<and> length (foldl (\<lambda>s t. sha_round s (K ! t) (msg_sched w t)) z [0..<n]) = 8"
proof (induction n)
  case 0
  have "window w 0 w" using assms(2) by (simp add: window_def msg_sched.simps[of w])
  then show ?case using assms by simp
next
  case (Suc n)
  let ?s = "foldl (\<lambda>s t. sha_round s (K ! t) (msg_sched w t)) z [0..<n]"
  obtain w' where w': "foldl hash_round (z, w) [0..<n] = (?s, w')" "window w (n div 16) w'" "length ?s = 8"
    using Suc.IH by blast
  have m: "w' ! (n mod 16) = msg_sched w n" using w'(2) by (simp add: window_def)
  have "Suc n div 16 = (if n mod 16 = 15 then Suc (n div 16) else n div 16)"
    by (simp add: div_Suc mod_Suc)
  then have "window w (Suc n div 16) (if n mod 16 = 15 then foldl sched_step w' [0..<16] else w')"
    using w'(2) sched_window by simp
  then show ?case using w' m by (simp add: hash_round_eq)
qed

lemma hash_block_eq:
  assumes "length z = 8" and "128 \<le> length m"
  shows "hash_block z m = sha_compress z (take 128 m)"
proof -
  let ?w = "map (\<lambda>i. dl64 (drop (8 * i) m)) [0..<16]"
  have w: "?w = map (\<lambda>i. be64 (slice (8 * i) 8 (take 128 m))) [0..<16]"
    using assms(2) by (intro map_cong) (simp_all add: dl64_eq slice_def drop_take min_def)
  let ?s = "foldl (\<lambda>s t. sha_round s (K ! t) (msg_sched ?w t)) z [0..<80]"
  obtain w' where "foldl hash_round (z, ?w) [0..<80] = (?s, w')" and l: "length ?s = 8"
    using rounds_eq[OF assms(1), of ?w 80] by auto
  then have "hash_block z m = map (\<lambda>i. ?s ! i + z ! i) [0..<8]" by (simp add: hash_block_def)
  also have "\<dots> = map2 (+) z ?s" using l assms(1) by (intro nth_equalityI) (simp_all add: add.commute)
  finally show ?thesis by (simp only: sha_compress_def w Let_def)
qed

lemma length_sha_compress [simp]: "length H = 8 \<Longrightarrow> length (sha_compress H b) = 8"
  using rounds_eq[of H "map (\<lambda>i. be64 (slice (8 * i) 8 b)) [0..<16]" 80] by (auto simp: sha_compress_def Let_def)

lemma hash_blocks_eq:
  "length z = 8 \<Longrightarrow> hash_blocks z m = (foldl sha_compress z (sha_blocks m), length m mod 128)"
proof (induction z m rule: hash_blocks.induct)
  case (1 z m)
  show ?case
  proof (cases "128 \<le> length m")
    case True
    then have "length (drop 128 m) mod 128 = length m mod 128" by (simp add: le_mod_geq)
    then show ?thesis using True 1 by (simp add: hash_blocks.simps[of z m] sha_blocks.simps[of m] hash_block_eq)
  next
    case False
    then show ?thesis by (simp add: hash_blocks.simps[of z m] sha_blocks.simps[of m])
  qed
qed

lemma length_sha_foldl [simp]: "length z = 8 \<Longrightarrow> length (foldl sha_compress z bs) = 8"
  by (induction bs arbitrary: z) simp_all

lemma crypto_hashblocks_eq:
  assumes "length z = 8"
  shows "crypto_hashblocks (concat (map ts64 z)) m = (concat (map ts64 (foldl sha_compress z (sha_blocks m))), length m mod 128)"
  using assms by (simp add: crypto_hashblocks_def load_store_words hash_blocks_eq)

section \<open>The padding\<close>

lemma sha_blocks_append: "length a mod 128 = 0 \<Longrightarrow> sha_blocks (a @ b) = sha_blocks a @ sha_blocks b"
proof (induction a rule: sha_blocks.induct)
  case (1 a)
  show ?case
  proof (cases "a = []")
    case False
    then have l: "128 \<le> length a" using 1(2) by (cases "length a < 128") simp_all
    then have "length (drop 128 a) mod 128 = 0" using 1(2) by (simp add: le_mod_geq)
    then show ?thesis using 1(1) l by (simp add: sha_blocks.simps[of "a @ b"] sha_blocks.simps[of a])
  qed (simp add: sha_blocks.simps[of "[]"])
qed

lemma sha_blocks_rest:
  assumes "length a mod 128 = 0" and "length r < 128"
  shows "sha_blocks (a @ r) = sha_blocks a"
  using assms by (simp add: sha_blocks_append sha_blocks.simps[of r])

lemma bit_of_nat_high: "n < 2 ^ 64 \<Longrightarrow> 64 \<le> j \<Longrightarrow> \<not> bit n j" for n :: nat
proof -
  assume "n < 2 ^ 64" and j: "64 \<le> j"
  then have "n < 2 ^ j" using power_increasing[OF j, of "2 :: nat"] by simp
  then show ?thesis by (simp add: bit_iff_odd)
qed

lemma length_bytes:
  assumes "n < 2 ^ 64"
  shows "le_bytes 16 (of_nat (8 * n) :: 128 word)
    = le_bytes 8 (push_bit 3 (of_nat n :: u64)) @ [ucast (drop_bit 61 (of_nat n :: u64))] @ replicate 7 0"
proof (rule nth_equalityI)
  have e: "(8 * of_nat n :: 128 word) = push_bit 3 (of_nat n)" by (simp add: push_bit_eq_mult)
  have b: "bit (8 * of_nat n :: 128 word) j \<longleftrightarrow> 3 \<le> j \<and> j < 67 \<and> bit n (j - 3)" for j
    unfolding e using bit_of_nat_high[OF assms, of "j - 3"] by (cases "j < 67") (auto simp: bit_simps)
  fix i assume "i < length (le_bytes 16 (of_nat (8 * n) :: 128 word))"
  then have i: "i < 16" by simp
  show "le_bytes 16 (of_nat (8 * n) :: 128 word) ! i =
      (le_bytes 8 (push_bit 3 (of_nat n :: u64)) @ [ucast (drop_bit 61 (of_nat n :: u64))] @ replicate 7 0) ! i"
    using i by (intro bit_word_eqI) (auto simp: nth_append nth_Cons' b bit_simps less_diff_conv bit_of_nat_high[OF assms])
qed simp

lemma take_splice_end:
  assumes "N \<le> length x" and "length t = 8" and "9 \<le> N"
  shows "take N (splice (N - 8) t (x[N - 9 := h])) = take (N - 9) x @ [h] @ t"
proof -
  have "take (N - 8) (x[N - 9 := h]) = take (N - 9) x @ [h]"
    using assms take_Suc_conv_app_nth[of "N - 9" "x[N - 9 := h]"] Suc_diff_le[of 9 N] by simp
  then show ?thesis using assms by (simp add: splice_def)
qed

lemma pad_arith: "n < 128 \<Longrightarrow> n + (239 - n) mod 128 + 17 = 256 - 128 * (if n < 112 then 1 else 0)" for n :: nat
proof (cases "n < 112")
  case True
  moreover have "(239 - n) mod 128 = 111 - n" using True by (subst le_mod_geq) simp_all
  ultimately show ?thesis by simp
qed simp

lemma hash_tail_eq:
  assumes "length m < 2 ^ 64"
  shows "sha_pad m = take (length m - length m mod 128) m @ hash_tail m"
    and "length (hash_tail m) mod 128 = 0"
proof -
  let ?n = "length m mod 128" and ?q = "drop (length m - length m mod 128) m"
  let ?N = "256 - 128 * (if length m mod 128 < 112 then 1 else 0) :: nat"
  let ?b = "of_nat (length m) :: u64"
  have n: "?n < 128" and q: "length ?q = ?n" by simp_all
  have x: "(splice 0 ?q (replicate 256 0))[?n := 128] = ?q @ [128] @ replicate (255 - ?n) 0"
  proof -
    have "256 - ?n = Suc (255 - ?n)" using n by linarith
    then show ?thesis using q by (simp add: splice_def list_update_append)
  qed
  have "hash_tail m = take (?N - 9) (?q @ [128] @ replicate (255 - ?n) 0) @ [ucast (drop_bit 61 ?b)] @ ts64 (push_bit 3 ?b)"
    unfolding hash_tail_def Let_def x using n q by (subst take_splice_end) auto
  also have "take (?N - 9) (?q @ [128] @ replicate (255 - ?n) 0) = ?q @ [128] @ replicate ((239 - ?n) mod 128) 0 @ replicate 7 0"
  proof -
    have "?N - 9 = ?n + Suc ((239 - ?n) mod 128 + 7)" using pad_arith[OF n] by linarith
    then have "take (?N - 9) (?q @ [128] @ replicate (255 - ?n) 0) = ?q @ [128] @ take ((239 - ?n) mod 128 + 7) (replicate (255 - ?n) 0)"
      using q by (simp only: take_append length_Cons list.size) (simp add: take_Cons' add.commute)
    moreover have "(239 - ?n) mod 128 + 7 \<le> 255 - ?n" using pad_arith[OF n] n by (simp split: if_splits)
    ultimately show ?thesis by (simp add: replicate_add min_absorb1)
  qed
  finally have t: "hash_tail m = ?q @ [128] @ replicate ((239 - ?n) mod 128) 0 @ rev (le_bytes 16 (of_nat (8 * length m) :: 128 word))"
    unfolding length_bytes[OF assms] by (simp add: ts64_eq)
  show "sha_pad m = take (length m - length m mod 128) m @ hash_tail m"
    unfolding t sha_pad_def by (subst append_assoc[symmetric]) simp
  have "length (hash_tail m) = ?n + (239 - ?n) mod 128 + 17" unfolding t using q by simp
  then show "length (hash_tail m) mod 128 = 0" unfolding pad_arith[OF n] by simp
qed

lemma iv_eq: "iv = concat (map ts64 sha_H0)"
  by (simp add: iv_def sha_H0_def ts64_eq le_bytes_def upt_rec)

lemma crypto_hash_ok:
  assumes "length m < 2 ^ 64"
  shows "crypto_hash m = sha512 m" and "length (crypto_hash m) = 64"
proof -
  let ?h = "foldl sha_compress sha_H0 (sha_blocks m)"
  let ?a = "take (length m - length m mod 128) m"
  note t = hash_tail_eq[OF assms]
  have l: "length sha_H0 = 8" by (simp add: sha_H0_def)
  have a: "length ?a mod 128 = 0" by (simp add: minus_mod_eq_mult_div)
  have "sha_blocks m = sha_blocks (?a @ drop (length m - length m mod 128) m)" by simp
  also have "\<dots> = sha_blocks ?a" by (rule sha_blocks_rest[OF a]) simp
  finally have "sha_blocks (sha_pad m) = sha_blocks m @ sha_blocks (hash_tail m)"
    unfolding t(1) sha_blocks_append[OF a] by simp
  then have "crypto_hash m = concat (map ts64 (foldl sha_compress sha_H0 (sha_blocks (sha_pad m))))"
    using l by (simp add: crypto_hash_def Let_def iv_eq crypto_hashblocks_eq)
  then show "crypto_hash m = sha512 m" and "length (crypto_hash m) = 64"
    using l by (simp_all only: sha512_def ts64_eq[symmetric] length_concat_ts64 length_sha_foldl)
qed

text \<open>
  C15: for every message whose length fits 64 bits crypto_hash is the SHA-512 of FIPS 180-4:
  the rolling window of sixteen words gives the eighty words of the schedule, and the tail built
  in the two-block buffer is the padding of the standard, the 128-bit length included.
\<close>

theorem crypto_hash_is_sha512:
  assumes "length m < 2 ^ 64"
  shows "crypto_hash m = sha512 m \<and> length (crypto_hash m) = 64"
  using crypto_hash_ok[OF assms] by blast

theorem crypto_hash_is_sha512_witness: "crypto_hash (replicate 240 7) = sha512 (replicate 240 7)"
  using crypto_hash_is_sha512[of "replicate 240 7"] by simp

end
