(* ===== verification/ScalarL.thy ===== *)
theory ScalarL
  imports Gf25519
begin

text \<open>
  Reduction of scalars modulo the order \<open>L\<close> of the base point (\<^verbatim>\<open>modL\<close> and \<^verbatim>\<open>reduce\<close> of
  \<^verbatim>\<open>kernel/tweetnacl.c\<close>).  The number is an array of sixty-four \<^verbatim>\<open>i64\<close> digits in base 256.  The
  order is a table of \<^verbatim>\<open>u64\<close>, so the products are unsigned and wrap; \<open>i64\<close> is the value an
  \<^verbatim>\<open>i64\<close> variable has after an assignment.  The theorem shows that nothing wraps for the digits
  the callers pass.
\<close>

section \<open>Operations\<close>

definition i64 :: "int \<Rightarrow> int" where
  "i64 v = (v + 2 ^ 63) mod 2 ^ 64 - 2 ^ 63"

definition L :: "int list" where
  "L = [0xed, 0xd3, 0xf5, 0x5c, 0x1a, 0x63, 0x12, 0x58, 0xd6, 0x9c, 0xf7, 0xa2, 0xde, 0xf9, 0xde, 0x14,
        0, 0, 0, 0, 0, 0, 0, 0, 0, 0, 0, 0, 0, 0, 0, 0x10]"

definition modL_step :: "nat \<Rightarrow> int list \<times> int \<Rightarrow> nat \<Rightarrow> int list \<times> int" where
  "modL_step i s j =
     (case s of (x, carry) \<Rightarrow>
      let x = x[j := i64 (x ! j + (carry - 16 * x ! i * L ! (j - (i - 32))))];
          carry = (x ! j + 128) div 256;
          x = x[j := i64 (x ! j - carry * 256)]
      in (x, carry))"

definition modL_row :: "int list \<Rightarrow> nat \<Rightarrow> int list" where
  "modL_row x i =
     (case foldl (modL_step i) (x, 0) [i - 32..<i - 12] of (x, carry) \<Rightarrow>
      let x = x[i - 12 := i64 (x ! (i - 12) + carry)]
      in x[i := 0])"

definition modL_low :: "int list \<times> int \<Rightarrow> nat \<Rightarrow> int list \<times> int" where
  "modL_low s j =
     (case s of (x, carry) \<Rightarrow>
      let x = x[j := i64 (x ! j + (carry - (x ! 31 div 16) * L ! j))];
          carry = x ! j div 256
      in (x[j := x ! j mod 256], carry))"

definition modL_out :: "int list \<times> bytes \<Rightarrow> nat \<Rightarrow> int list \<times> bytes" where
  "modL_out s i =
     (case s of (x, r) \<Rightarrow>
      let x = x[i + 1 := i64 (x ! (i + 1) + x ! i div 256)]
      in (x, r @ [word_of_int (x ! i mod 256)]))"

definition modL :: "int list \<Rightarrow> bytes" where
  "modL x =
     (let x = foldl modL_row x (rev [32..<64]);
          (x, carry) = foldl modL_low (x, 0) [0..<32];
          x = foldl (\<lambda>x j. x[j := i64 (x ! j - carry * L ! j)]) x [0..<32]
      in snd (foldl modL_out (x, []) [0..<32]))"

text \<open>\<^verbatim>\<open>reduce\<close> works in place on 64 bytes: the result is in the first half, the second is zero.\<close>

definition reduce :: "bytes \<Rightarrow> bytes" where
  "reduce r = modL (map (\<lambda>i. uint (r ! i)) [0..<64]) @ replicate 32 0"

section \<open>The order\<close>

definition ell :: int where
  "ell = 2 ^ 252 + 27742317777372353535851937790883648493"

lemma length_L [simp]: "length L = 32" by (simp add: L_def)

lemma L_val: "lval 256 L = ell" by (simp add: L_def ell_def)

lemma L_low: "16 * lval 256 (take 20 L) = 16 * ell - 256 ^ 32" by (simp add: L_def ell_def)

lemma L_range: "j < 32 \<Longrightarrow> 0 \<le> L ! j \<and> L ! j \<le> 255"
  by (simp add: L_def nth_Cons' split: if_splits)

lemma L_gap: "16 \<le> j \<Longrightarrow> j < 20 \<Longrightarrow> L ! j = 0"
  by (simp add: L_def nth_Cons' split: if_splits)

lemma i64_id: "\<bar>v\<bar> < 2 ^ 63 \<Longrightarrow> i64 v = v"
  unfolding i64_def by (subst mod_pos_pos_trivial) auto


section \<open>One row\<close>

text \<open>
  \<open>B n\<close> bounds the carry into the \<open>n\<close>-th digit of the row.  The row subtracts a multiple of the
  order from the number and leaves digits between -128 and 127.
\<close>

definition row_bound :: "int list \<Rightarrow> nat \<Rightarrow> (nat \<Rightarrow> int) \<Rightarrow> bool" where
  "row_bound x i B \<longleftrightarrow> 0 \<le> B 0 \<and>
     (\<forall>n < 20. \<bar>x ! (i - 32 + n)\<bar> + B n + 16 * \<bar>x ! i\<bar> * L ! n \<le> 256 * B (Suc n) + 127 \<and> B (Suc n) \<le> 2 ^ 50)"

lemma lval_take_Suc: "n < length xs \<Longrightarrow> lval b (take (Suc n) xs) = lval b (take n xs) + b ^ n * xs ! n"
  by (simp add: take_Suc_conv_app_nth lval_append)

lemma modL_step_at:
  fixes v :: int
  assumes "j < length y" and "j \<noteq> i" and "v = y ! j + (c - 16 * y ! i * L ! (j - (i - 32)))"
    and "\<bar>v\<bar> < 2 ^ 62"
  shows "modL_step i (y, c) j = (y[j := (v + 128) mod 256 - 128], (v + 128) div 256)"
proof -
  have "v - (v + 128) div 256 * 256 = (v + 128) mod 256 - 128"
    using div_mult_mod_eq[of "v + 128" 256] by linarith
  moreover have "\<bar>(v + 128) mod 256 - 128\<bar> < 2 ^ 63"
    using pos_mod_bound[of 256 "v + 128"] pos_mod_sign[of 256 "v + 128"] by simp
  ultimately have r: "i64 (v - (v + 128) div 256 * 256) = (v + 128) mod 256 - 128" by (simp only: i64_id)
  have "i64 v = v" using assms(4) by (intro i64_id) simp
  then show ?thesis
    using assms(1) r unfolding modL_step_def Let_def prod.case assms(3)[symmetric]
    by (simp only: nth_list_update_eq list_update_overwrite)
qed

lemma carry_bound:
  fixes v :: int
  assumes "\<bar>v\<bar> \<le> 256 * b + 127"
  shows "\<bar>(v + 128) div 256\<bar> \<le> b"
proof -
  have "256 * ((v + 128) div 256) \<le> v + 128" "v + 128 < 256 * ((v + 128) div 256) + 256"
    using div_mult_mod_eq[of "v + 128" 256] pos_mod_bound[of 256 "v + 128"] pos_mod_sign[of 256 "v + 128"] by linarith+
  then show ?thesis using assms by linarith
qed

lemma modL_inner:
  assumes "length x = 64" and "32 \<le> i" and "i < 64" and B: "row_bound x i B" and "n \<le> 20"
    and "foldl (modL_step i) (x, 0) [i - 32..<i - 32 + n] = (y, c)"
  shows "length y = 64 \<and> \<bar>c\<bar> \<le> B n \<and> (\<forall>j. j < i - 32 \<or> i - 32 + n \<le> j \<longrightarrow> y ! j = x ! j)
    \<and> (\<forall>k < n. - 128 \<le> y ! (i - 32 + k) \<and> y ! (i - 32 + k) \<le> 127)
    \<and> lval 256 y + c * 256 ^ (i - 32 + n) = lval 256 x - 16 * x ! i * 256 ^ (i - 32) * lval 256 (take n L)"
  using assms(5,6)
proof (induction n arbitrary: y c)
  case 0
  then show ?case using assms(1) B by (simp add: row_bound_def)
next
  case (Suc n)
  obtain y0 c0 where y0: "foldl (modL_step i) (x, 0) [i - 32..<i - 32 + n] = (y0, c0)" by fastforce
  have n: "n < 20" using Suc.prems by simp
  let ?j = "i - 32 + n"
  have IH: "length y0 = 64" "\<bar>c0\<bar> \<le> B n" "\<And>j. j < i - 32 \<or> ?j \<le> j \<Longrightarrow> y0 ! j = x ! j"
    "\<And>k. k < n \<Longrightarrow> - 128 \<le> y0 ! (i - 32 + k) \<and> y0 ! (i - 32 + k) \<le> 127"
    "lval 256 y0 + c0 * 256 ^ ?j = lval 256 x - 16 * x ! i * 256 ^ (i - 32) * lval 256 (take n L)"
    using Suc.IH[OF _ y0] n by auto
  have yi: "y0 ! i = x ! i" using n assms(2) by (intro IH(3)) linarith
  define v where "v = x ! ?j + (c0 - 16 * x ! i * L ! n)"
  have l: "0 \<le> L ! n" and ll: "n < length L" using L_range[of n] n by simp_all
  have "\<bar>v\<bar> \<le> \<bar>x ! ?j\<bar> + \<bar>c0\<bar> + \<bar>16 * x ! i * L ! n\<bar>" unfolding v_def by linarith
  also have "\<bar>16 * x ! i * L ! n\<bar> = 16 * \<bar>x ! i\<bar> * L ! n" using l by (simp add: abs_mult)
  finally have v: "\<bar>v\<bar> \<le> 256 * B (Suc n) + 127" and vv: "\<bar>v\<bar> < 2 ^ 62"
    using IH(2) B n by (auto simp: row_bound_def dest!: spec[of _ n])
  have s: "foldl (modL_step i) (x, 0) [i - 32..<i - 32 + Suc n] = modL_step i (y0, c0) ?j"
    using y0 by simp
  have "modL_step i (y0, c0) ?j = (y0[?j := (v + 128) mod 256 - 128], (v + 128) div 256)"
    using IH(1) yi IH(3)[of ?j] vv n assms(2,3) by (intro modL_step_at) (simp_all add: v_def)
  then have y: "y = y0[?j := (v + 128) mod 256 - 128]" and c: "c = (v + 128) div 256"
    using Suc.prems(2) s by simp_all
  have "lval 256 y = lval 256 y0 + ((v + 128) mod 256 - 128 - x ! ?j) * 256 ^ ?j"
    unfolding y using IH(1,3) n assms(2,3) by (subst lval_update) simp_all
  moreover have "(v + 128) mod 256 - 128 = v - 256 * c" unfolding c by (simp add: minus_mult_div_eq_mod[symmetric])
  ultimately have "lval 256 y + c * 256 ^ (i - 32 + Suc n) = lval 256 y0 + (v - x ! ?j) * 256 ^ ?j"
    by (simp add: algebra_simps)
  also have "\<dots> = lval 256 x - 16 * x ! i * 256 ^ (i - 32) * lval 256 (take (Suc n) L)"
    using IH(5) unfolding v_def lval_take_Suc[OF ll] by (simp add: algebra_simps power_add)
  finally have "lval 256 y + c * 256 ^ (i - 32 + Suc n) = lval 256 x - 16 * x ! i * 256 ^ (i - 32) * lval 256 (take (Suc n) L)" .
  moreover have "\<bar>c\<bar> \<le> B (Suc n)" unfolding c by (rule carry_bound[OF v])
  moreover have "- 128 \<le> y ! (i - 32 + k) \<and> y ! (i - 32 + k) \<le> 127" if "k < Suc n" for k
    using that IH(1,4) n assms(2,3) pos_mod_bound[of 256 "v + 128"] pos_mod_sign[of 256 "v + 128"]
    unfolding y by (cases "k = n") simp_all
  ultimately show ?case using IH(1,3) by (simp add: y)
qed

lemma modL_row_ok:
  assumes "length x = 64" and "32 \<le> i" and "i < 64" and B: "row_bound x i B" and "\<bar>x ! (i - 12)\<bar> \<le> 2 ^ 50"
  defines "y \<equiv> modL_row x i"
  shows "length y = 64" and "y ! i = 0" and "\<And>j. j < i - 32 \<or> i - 12 < j \<and> j \<noteq> i \<Longrightarrow> y ! j = x ! j"
    and "\<And>j. i - 32 \<le> j \<Longrightarrow> j < i - 12 \<Longrightarrow> - 128 \<le> y ! j \<and> y ! j \<le> 127"
    and "\<bar>y ! (i - 12)\<bar> \<le> \<bar>x ! (i - 12)\<bar> + B 20"
    and "lval 256 y mod ell = lval 256 x mod ell"
proof -
  obtain z c where z: "foldl (modL_step i) (x, 0) [i - 32..<i - 32 + 20] = (z, c)" by fastforce
  have e: "i - 32 + 20 = i - 12" using assms(2) by simp
  note Z = modL_inner[OF assms(1-3) B order_refl z, unfolded e]
  have b: "B 20 \<le> 2 ^ 50" using B by (auto simp: row_bound_def dest: spec[of _ 19])
  have zi: "z ! (i - 12) = x ! (i - 12)" and zz: "z ! i = x ! i" and lz: "length z = 64" using Z assms(2,3) by auto
  have cb: "\<bar>c\<bar> \<le> B 20" using Z by blast
  have w: "i64 (x ! (i - 12) + c) = x ! (i - 12) + c" using cb b assms(5) by (intro i64_id) simp
  have y: "y = z[i - 12 := x ! (i - 12) + c, i := 0]"
    using z w zi by (simp add: y_def modL_row_def e Let_def)
  have d: "i - 12 \<noteq> i" "i - 12 < 64" using assms(2,3) by simp_all
  show "length y = 64" and "y ! i = 0" using lz assms(3) by (simp_all add: y)
  show "y ! j = x ! j" if "j < i - 32 \<or> i - 12 < j \<and> j \<noteq> i" for j
    using Z that by (auto simp: y)
  show "- 128 \<le> y ! j \<and> y ! j \<le> 127" if "i - 32 \<le> j" and "j < i - 12" for j
    using Z that spec[of "\<lambda>k. k < 20 \<longrightarrow> - 128 \<le> z ! (i - 32 + k) \<and> z ! (i - 32 + k) \<le> 127" "j - (i - 32)"] d e
    by (simp add: y)
  show "\<bar>y ! (i - 12)\<bar> \<le> \<bar>x ! (i - 12)\<bar> + B 20" using cb d lz by (simp add: y)
  have "lval 256 y = lval 256 z + c * 256 ^ (i - 12) - x ! i * 256 ^ i"
    using lz d zi zz assms(3) by (simp add: y lval_update)
  also have "\<dots> = lval 256 x - x ! i * 256 ^ (i - 32) * (16 * lval 256 (take 20 L) + 256 ^ 32)"
  proof -
    have "(256 :: int) ^ i = 256 ^ (i - 32) * 256 ^ 32" using assms(2) by (metis le_add_diff_inverse2 power_add)
    then show ?thesis using Z by (simp only: algebra_simps)
  qed
  also have "\<dots> = lval 256 x + ell * (- (16 * x ! i * 256 ^ (i - 32)))" unfolding L_low by simp
  finally show "lval 256 y mod ell = lval 256 x mod ell" by (simp only: mod_mult_self2)
qed


section \<open>All rows\<close>

text \<open>The bound of digit \<open>j\<close> before row \<open>i\<close>, after the first row.\<close>

definition row_inv :: "nat \<Rightarrow> nat \<Rightarrow> int" where
  "row_inv i j =
     (if i < j then 0 else if 52 \<le> j then 2 ^ 21 else if j = 51 then 2 ^ 22
      else if i \<le> j + 11 then 129 else if i \<le> j + 31 then 128 else 2 ^ 21)"

definition within :: "(nat \<Rightarrow> int) \<Rightarrow> int list \<Rightarrow> bool" where
  "within b x \<longleftrightarrow> length x = 64 \<and> (\<forall>j < 64. \<bar>x ! j\<bar> \<le> b j)"

definition carry1 :: "nat \<Rightarrow> int" where
  "carry1 n = (if n \<le> 16 then 71303168 else 2 ^ 21)"

definition carry2 :: "nat \<Rightarrow> int" where
  "carry2 n = (if n \<le> 16 then 71303168 else if n = 17 then 278600 else if n = 18 then 1100 else if n = 19 then 5 else 1)"

lemma term_bound: "\<bar>a\<bar> \<le> 2 ^ 22 \<Longrightarrow> n < 32 \<Longrightarrow> 16 * \<bar>a\<bar> * L ! n \<le> 17112760320"
proof -
  assume "\<bar>a\<bar> \<le> 2 ^ 22" and "n < 32"
  then have "16 * \<bar>a\<bar> * L ! n \<le> 16 * 2 ^ 22 * 255" using L_range[of n] by (intro mult_mono) auto
  then show ?thesis by simp
qed

lemma row_bound_first: "within (\<lambda>_. 2 ^ 21) x \<Longrightarrow> row_bound x 63 carry1"
proof -
  assume w: "within (\<lambda>_. 2 ^ 21) x"
  have "\<bar>x ! (63 - 32 + n)\<bar> + carry1 n + 16 * \<bar>x ! 63\<bar> * L ! n \<le> 256 * carry1 (Suc n) + 127" if n: "n < 20" for n
  proof -
    have a: "\<bar>x ! (63 - 32 + n)\<bar> \<le> 2 ^ 21" and b: "\<bar>x ! 63\<bar> \<le> 2 ^ 21" using w n by (simp_all add: within_def)
    show ?thesis
    proof (cases "n < 16")
      case True
      have "16 * \<bar>x ! 63\<bar> * L ! n \<le> 17112760320" using b n by (intro term_bound) simp_all
      moreover have "carry1 n = 71303168" "carry1 (Suc n) = 71303168" using True by (simp_all add: carry1_def)
      moreover have "\<bar>x ! (63 - 32 + n)\<bar> \<le> 2097152" using a by simp
      ultimately show ?thesis by linarith
    next
      case False
      then show ?thesis using a n by (auto simp: carry1_def L_gap)
    qed
  qed
  then show ?thesis by (simp add: row_bound_def carry1_def)
qed

lemma row_bound_next:
  assumes "within (row_inv i) x" and "32 \<le> i" and "i \<le> 62"
  shows "row_bound x i carry2"
proof -
  have "\<bar>x ! (i - 32 + n)\<bar> + carry2 n + 16 * \<bar>x ! i\<bar> * L ! n \<le> 256 * carry2 (Suc n) + 127" if n: "n < 20" for n
  proof -
    have r: "row_inv i (i - 32 + n) = (if n = 0 then 2 ^ 21 else 128)"
      using assms(2,3) n unfolding row_inv_def by (cases "n = 0") auto
    have "\<bar>x ! (i - 32 + n)\<bar> \<le> row_inv i (i - 32 + n)" using assms n by (simp add: within_def)
    then have a: "\<bar>x ! (i - 32 + n)\<bar> \<le> (if n = 0 then 2 ^ 21 else 128)" unfolding r .
    have "row_inv i i \<le> 2 ^ 22" by (simp add: row_inv_def)
    moreover have "\<bar>x ! i\<bar> \<le> row_inv i i" using assms by (simp add: within_def)
    ultimately have b: "\<bar>x ! i\<bar> \<le> 2 ^ 22" by linarith
    consider "n < 16" | "n = 16" | "n = 17" | "n = 18" | "n = 19" using n by linarith
    then show ?thesis
    proof cases
      case 1
      moreover have "carry2 n = 71303168" "carry2 (Suc n) = 71303168" using 1 by (simp_all add: carry2_def)
      moreover have "\<bar>x ! (i - 32 + n)\<bar> \<le> 2097152" using a by (simp split: if_splits)
      ultimately show ?thesis using term_bound[OF b, of n] by linarith
    qed (use a n in \<open>simp_all add: carry2_def L_gap\<close>)
  qed
  then show ?thesis by (simp add: row_bound_def carry2_def)
qed

lemma first_row:
  assumes w: "within (\<lambda>_. 2 ^ 21) x"
  shows "within (row_inv 62) (modL_row x 63)" and "lval 256 (modL_row x 63) mod ell = lval 256 x mod ell"
proof -
  have l: "length x = 64" and b: "\<And>j. j < 64 \<Longrightarrow> \<bar>x ! j\<bar> \<le> 2 ^ 21" using w by (auto simp: within_def)
  have h: "\<bar>x ! (63 - 12)\<bar> \<le> 2 ^ 50" using b[of 51] by simp
  note R = modL_row_ok[OF l _ _ row_bound_first[OF w] h]
  show "lval 256 (modL_row x 63) mod ell = lval 256 x mod ell" using R(6) by simp
  have "\<bar>modL_row x 63 ! j\<bar> \<le> row_inv 62 j" if j: "j < 64" for j
  proof -
    consider "j = 63" | "j < 31 \<or> 51 < j \<and> j < 63" | "31 \<le> j" "j < 51" | "j = 51" using j by linarith
    then show ?thesis
    proof cases
      case 2
      then show ?thesis using R(3)[of j] b[OF j] by (auto simp: row_inv_def)
    next
      case 3
      then show ?thesis using R(4)[of j] by (simp add: row_inv_def abs_le_iff)
    next
      case 4
      then show ?thesis using R(5) b[of 51] by (simp add: row_inv_def carry1_def)
    qed (use R(2) in \<open>simp add: row_inv_def\<close>)
  qed
  then show "within (row_inv 62) (modL_row x 63)" using R(1) by (simp add: within_def)
qed

lemma next_row:
  assumes w: "within (row_inv i) x" and i: "32 \<le> i" "i \<le> 62"
  shows "within (row_inv (i - 1)) (modL_row x i)" and "lval 256 (modL_row x i) mod ell = lval 256 x mod ell"
proof -
  have l: "length x = 64" and b: "\<And>j. j < 64 \<Longrightarrow> \<bar>x ! j\<bar> \<le> row_inv i j" using w by (auto simp: within_def)
  have "row_inv i (i - 12) = 128" using i unfolding row_inv_def by auto
  then have h12: "\<bar>x ! (i - 12)\<bar> \<le> 128" using b[of "i - 12"] i by simp
  then have h: "\<bar>x ! (i - 12)\<bar> \<le> 2 ^ 50" by simp
  have i64: "i < 64" using i by simp
  note R = modL_row_ok[OF l i(1) i64 row_bound_next[OF w i] h]
  show "lval 256 (modL_row x i) mod ell = lval 256 x mod ell" by (rule R(6))
  have "\<bar>modL_row x i ! j\<bar> \<le> row_inv (i - 1) j" if j: "j < 64" for j
  proof -
    consider "j = i" | "j < i - 32 \<or> i - 12 < j \<and> j \<noteq> i" | "i - 32 \<le> j" "j < i - 12" | "j = i - 12" by linarith
    then show ?thesis
    proof cases
      case 2
      then show ?thesis using R(3)[OF 2] b[OF j] i by (auto simp: row_inv_def split: if_splits)
    next
      case 3
      then show ?thesis using R(4)[OF 3] i by (auto simp: row_inv_def abs_le_iff)
    next
      case 4
      moreover have "row_inv (i - 1) (i - 12) = 129" using i unfolding row_inv_def by auto
      ultimately show ?thesis using R(5) h12 by (simp add: carry2_def)
    qed (use R(2) in \<open>simp add: row_inv_def\<close>)
  qed
  then show "within (row_inv (i - 1)) (modL_row x i)" using R(1) by (simp add: within_def)
qed

lemma rows_ok:
  assumes w: "within (\<lambda>_. 2 ^ 21) x" and n: "n \<le> 31"
  defines "y \<equiv> foldl modL_row x (rev [63 - n..<64])"
  shows "within (row_inv (62 - n)) y \<and> lval 256 y mod ell = lval 256 x mod ell"
  using n unfolding y_def
proof (induction n)
  case 0
  have "rev [63 - 0..<64] = [63 :: nat]" by (simp add: upt_rec)
  then show ?case using first_row[OF w] by simp
next
  case (Suc n)
  have "Suc (62 - n) = 63 - n" "63 - Suc n = 62 - n" using Suc.prems by linarith+
  then have "[63 - Suc n..<64] = (62 - n) # [63 - n..<64]"
    using upt_conv_Cons[of "62 - n" 64] by simp
  then have e: "foldl modL_row x (rev [63 - Suc n..<64]) = modL_row (foldl modL_row x (rev [63 - n..<64])) (62 - n)"
    by simp
  show ?case
    using Suc next_row[of "62 - n" "foldl modL_row x (rev [63 - n..<64])"] unfolding e by simp
qed


section \<open>The last digits\<close>

definition small :: "int list \<Rightarrow> bool" where
  "small x \<longleftrightarrow> length x = 64 \<and> (\<forall>j < 32. \<bar>x ! j\<bar> \<le> 129) \<and> (\<forall>j. 32 \<le> j \<and> j < 64 \<longrightarrow> x ! j = 0)"

lemma small_of_rows: "within (row_inv 31) x \<Longrightarrow> small x"
proof -
  assume w: "within (row_inv 31) x"
  then have b: "\<bar>x ! j\<bar> \<le> row_inv 31 j" if "j < 64" for j using that by (simp add: within_def)
  have "\<bar>x ! j\<bar> \<le> 129" if "j < 32" for j
  proof -
    have "row_inv 31 j \<le> 129" using that by (simp add: row_inv_def)
    then show ?thesis using b[of j] that by simp
  qed
  moreover have "x ! j = 0" if "32 \<le> j" "j < 64" for j
    using b[of j] that by (simp add: row_inv_def)
  ultimately show ?thesis using w by (simp add: small_def within_def)
qed

lemma modL_low_at:
  assumes "j < length y" and "v = y ! j + (c - (y ! 31 div 16) * L ! j)" and "\<bar>v\<bar> < 2 ^ 62"
  shows "modL_low (y, c) j = (y[j := v mod 256], v div 256)"
proof -
  have "i64 v = v" using assms(3) by (intro i64_id) simp
  then show ?thesis
    using assms(1) unfolding modL_low_def Let_def prod.case assms(2)[symmetric] by simp
qed

lemma modL_low_ok:
  assumes x: "small x" and "n \<le> 32" and "foldl modL_low (x, 0) [0..<n] = (y, c)"
  shows "length y = 64 \<and> \<bar>c\<bar> \<le> 10 \<and> (\<forall>j \<ge> n. y ! j = x ! j) \<and> (\<forall>j < n. 0 \<le> y ! j \<and> y ! j < 256)
    \<and> lval 256 y + c * 256 ^ n = lval 256 x - (x ! 31 div 16) * lval 256 (take n L)"
  using assms(2,3)
proof (induction n arbitrary: y c)
  case 0
  then show ?case using x by (simp add: small_def)
next
  case (Suc n)
  obtain y0 c0 where y0: "foldl modL_low (x, 0) [0..<n] = (y0, c0)" by fastforce
  have n: "n < 32" using Suc.prems by simp
  have IH: "length y0 = 64" "\<bar>c0\<bar> \<le> 10" "\<And>j. n \<le> j \<Longrightarrow> y0 ! j = x ! j" "\<And>j. j < n \<Longrightarrow> 0 \<le> y0 ! j \<and> y0 ! j < 256"
    "lval 256 y0 + c0 * 256 ^ n = lval 256 x - (x ! 31 div 16) * lval 256 (take n L)"
    using Suc.IH[OF _ y0] n by auto
  define q where "q = x ! 31 div 16"
  define v where "v = x ! n + (c0 - q * L ! n)"
  have "\<bar>x ! 31\<bar> \<le> 129" and xn: "\<bar>x ! n\<bar> \<le> 129" using x n by (simp_all add: small_def)
  then have q: "\<bar>q\<bar> \<le> 9" unfolding q_def by linarith
  have l: "0 \<le> L ! n" "L ! n \<le> 255" and ll: "n < length L" using L_range[of n] n by simp_all
  have "\<bar>q * L ! n\<bar> \<le> 9 * 255" using q l unfolding abs_mult by (intro mult_mono) auto
  then have v: "\<bar>v\<bar> \<le> 2434" using IH(2) xn unfolding v_def by linarith
  have vv: "\<bar>v\<bar> < 2 ^ 62" using v by simp
  have "modL_low (y0, c0) n = (y0[n := v mod 256], v div 256)"
    using IH(1) IH(3)[of n] IH(3)[of 31] n vv by (intro modL_low_at) (simp_all add: v_def q_def)
  then have y: "y = y0[n := v mod 256]" and c: "c = v div 256" using Suc.prems(2) y0 by simp_all
  have "\<bar>c\<bar> \<le> 10" unfolding c using v by linarith
  moreover have "lval 256 y + c * 256 ^ Suc n = lval 256 y0 + (v - x ! n) * 256 ^ n"
    unfolding y c minus_mult_div_eq_mod[of v 256, symmetric] using IH(1) IH(3)[of n] n
    by (subst lval_update) (simp_all add: algebra_simps)
  moreover have "lval 256 y0 + (v - x ! n) * 256 ^ n = lval 256 x - q * lval 256 (take (Suc n) L)"
    using IH(5) unfolding v_def lval_take_Suc[OF ll] q_def by (simp add: algebra_simps)
  moreover have "0 \<le> y ! j \<and> y ! j < 256" if "j < Suc n" for j
    using IH(1,4) that n unfolding y by (cases "j = n") simp_all
  ultimately show ?case using IH(1,3) by (simp add: y q_def)
qed

lemma lval_bound_abs:
  "\<forall>x \<in> set xs. \<bar>x\<bar> \<le> 129 \<Longrightarrow> 255 * \<bar>lval 256 xs\<bar> \<le> 129 * (256 ^ length xs - 1)"
proof (induction xs)
  case (Cons a xs)
  then have "255 * \<bar>lval 256 xs\<bar> \<le> 129 * (256 ^ length xs - 1)" and "\<bar>a\<bar> \<le> 129" by simp_all
  moreover have "\<bar>a + 256 * lval 256 xs\<bar> \<le> \<bar>a\<bar> + 256 * \<bar>lval 256 xs\<bar>" by linarith
  ultimately show ?case by (simp add: algebra_simps)
qed simp

lemma high_zero_val:
  assumes "length x = 64" and "\<And>j. 32 \<le> j \<Longrightarrow> j < 64 \<Longrightarrow> x ! j = 0"
  shows "lval 256 (take 32 x) = lval 256 x"
proof -
  have "drop 32 x = replicate 32 0" using assms by (intro nth_equalityI) simp_all
  then show ?thesis using lval_append[of 256 "take 32 x" "drop 32 x", unfolded append_take_drop_id] by simp
qed

lemma low_range:
  assumes "small x"
  defines "V \<equiv> lval 256 x - (x ! 31 div 16) * ell"
  shows "- ell < V" and "V < ell"
proof -
  have l: "length x = 64" using assms(1) by (simp add: small_def)
  have "lval 256 x = lval 256 (take 32 x)"
    using assms(1) l by (intro high_zero_val[symmetric]) (simp_all add: small_def)
  also have "\<dots> = lval 256 (take 31 x) + 256 ^ 31 * x ! 31"
    using lval_take_Suc[of 31 x 256] l by simp
  finally have e: "lval 256 x = lval 256 (take 31 x) + 256 ^ 31 * x ! 31" .
  have "\<forall>a \<in> set (take 31 x). \<bar>a\<bar> \<le> 129" using assms(1) l by (auto simp: small_def in_set_conv_nth)
  from lval_bound_abs[OF this] have t: "255 * \<bar>lval 256 (take 31 x)\<bar> \<le> 129 * (256 ^ 31 - 1)" using l by simp
  have "\<bar>x ! 31\<bar> \<le> 129" using assms(1) by (simp add: small_def)
  then have q: "- 9 \<le> x ! 31 div 16" "x ! 31 div 16 \<le> 9" by linarith+
  have r: "16 * (x ! 31 div 16) \<le> x ! 31" "x ! 31 \<le> 16 * (x ! 31 div 16) + 15" by linarith+
  show "- ell < V" "V < ell" unfolding V_def e ell_def using t q r by (simp_all add: abs_le_iff)
qed


lemma sub_all_ok:
  assumes "length y = 64" and "n \<le> 32" and "\<And>j. j < 32 \<Longrightarrow> 0 \<le> y ! j \<and> y ! j < 256" and "\<bar>c\<bar> \<le> 10"
  defines "z \<equiv> foldl (\<lambda>x j. x[j := i64 (x ! j - c * L ! j)]) y [0..<n]"
  shows "length z = 64 \<and> (\<forall>j < 64. z ! j = (if j < n then y ! j - c * L ! j else y ! j))"
  using assms(2) unfolding z_def
proof (induction n)
  case (Suc n)
  let ?z = "foldl (\<lambda>x j. x[j := i64 (x ! j - c * L ! j)]) y [0..<n]"
  have IH: "length ?z = 64" "\<And>j. j < 64 \<Longrightarrow> ?z ! j = (if j < n then y ! j - c * L ! j else y ! j)" using Suc by auto
  have "0 \<le> L ! n" "L ! n \<le> 255" using L_range[of n] Suc.prems by simp_all
  then have "\<bar>c * L ! n\<bar> \<le> 10 * 255" using assms(4) unfolding abs_mult by (intro mult_mono) auto
  then have "\<bar>y ! n - c * L ! n\<bar> \<le> 3000" using assms(3)[of n] Suc.prems by linarith
  then have "i64 (y ! n - c * L ! n) = y ! n - c * L ! n" by (intro i64_id) simp
  then show ?case using IH Suc.prems by (auto simp: less_Suc_eq nth_list_update)
qed (simp add: assms(1))

lemma modL_out_ok:
  assumes "length z = 64" and "n \<le> 32" and "\<And>j. j < 64 \<Longrightarrow> \<bar>z ! j\<bar> \<le> 3000"
    and "foldl modL_out (z, []) [0..<n] = (y, r)"
  shows "length y = 64 \<and> length r = n \<and> (\<forall>j > n. y ! j = z ! j) \<and>
    (\<exists>k. \<bar>k\<bar> \<le> 20 \<and> y ! n = z ! n + k \<and> lval 256 (map uint r) + 256 ^ n * k = lval 256 (take n z))"
  using assms(2,4)
proof (induction n arbitrary: y r)
  case 0
  then show ?case using assms(1) by (auto intro: exI[of _ 0])
next
  case (Suc n)
  obtain y0 r0 where y0: "foldl modL_out (z, []) [0..<n] = (y0, r0)" by fastforce
  have n: "n < 32" using Suc.prems by simp
  obtain k where IH: "length y0 = 64" "length r0 = n" "\<And>j. n < j \<Longrightarrow> y0 ! j = z ! j" "\<bar>k\<bar> \<le> 20" "y0 ! n = z ! n + k"
    "lval 256 (map uint r0) + 256 ^ n * k = lval 256 (take n z)"
    using Suc.IH[OF _ y0] n by auto
  define w where "w = z ! n + k"
  let ?k = "w div 256"
  have k: "\<bar>?k\<bar> \<le> 20" using IH(4) assms(3)[of n] n unfolding w_def by linarith
  have "i64 (z ! Suc n + ?k) = z ! Suc n + ?k" using k assms(3)[of "Suc n"] n by (intro i64_id) simp
  then have "modL_out (y0, r0) n = (y0[Suc n := z ! Suc n + ?k], r0 @ [word_of_int (w mod 256)])"
    using IH(3)[of "Suc n"] IH(5) by (simp add: modL_out_def Let_def w_def)
  then have y: "y = y0[Suc n := z ! Suc n + ?k]" and r: "r = r0 @ [word_of_int (w mod 256)]"
    using Suc.prems(2) y0 by simp_all
  have u: "uint (word_of_int (w mod 256) :: u8) = w - 256 * ?k"
    by (simp add: uint_word_of_int minus_mult_div_eq_mod)
  have "lval 256 (map uint r) + 256 ^ Suc n * ?k = lval 256 (map uint r0) + 256 ^ n * w"
    unfolding r by (simp add: lval_append IH(2) u algebra_simps)
  also have "\<dots> = lval 256 (take (Suc n) z)"
    using IH(6) lval_take_Suc[of n z 256] assms(1) n by (simp add: w_def algebra_simps)
  finally show ?case using k IH(1,2,3) n by (auto simp: y r intro!: exI[of _ ?k])
qed

lemma lval_scale: "lval b (map (\<lambda>i. c * f i) xs) = c * lval b (map f xs)"
  by (induction xs) (simp_all add: algebra_simps)

lemma close_congruent:
  fixes a b P k :: int
  assumes "a + P * k = b" and "0 \<le> a" and "a < P" and "0 \<le> b" and "b < P"
  shows "a = b"
proof -
  have "b mod P = a mod P" using assms(1) by auto
  then show ?thesis using assms by simp
qed

lemma borrow_cases:
  fixes a c P V l :: int
  assumes "a + c * P = V" and "0 \<le> a" and "a < P" and "0 < l" and "l < P" and "- l < V" and "V < l"
  shows "0 \<le> V - c * l" and "V - c * l < l"
proof -
  have "\<not> 1 \<le> c" using mult_right_mono[of 1 c P] assms by linarith
  moreover have "\<not> c \<le> - 2" using mult_right_mono[of c "- 2" P] assms by linarith
  ultimately consider "c = 0" | "c = - 1" by linarith
  then show "0 \<le> V - c * l" and "V - c * l < l" using assms by (cases; simp)+
qed

lemma ell_range: "0 < ell" "ell < 256 ^ 32"
  by (simp_all add: ell_def)

lemma final_ok:
  assumes x: "small x" and y: "foldl modL_low (x, 0) [0..<32] = (y, c)"
  defines "r \<equiv> snd (foldl modL_out (foldl (\<lambda>x j. x[j := i64 (x ! j - c * L ! j)]) y [0..<32], []) [0..<32])"
  shows "length r = 32 \<and> lval 256 (map uint r) = lval 256 x mod ell"
proof -
  let ?z = "foldl (\<lambda>x j. x[j := i64 (x ! j - c * L ! j)]) y [0..<32]"
  define V where "V = lval 256 x - (x ! 31 div 16) * ell"
  have Y: "length y = 64" "\<bar>c\<bar> \<le> 10" "\<And>j. 32 \<le> j \<Longrightarrow> y ! j = x ! j" "\<And>j. j < 32 \<Longrightarrow> 0 \<le> y ! j \<and> y ! j < 256"
    "lval 256 y + c * 256 ^ 32 = V"
    using modL_low_ok[OF x order_refl y] L_val by (auto simp: V_def)
  have Zl: "length ?z = 64" and Z: "\<And>j. j < 64 \<Longrightarrow> ?z ! j = (if j < 32 then y ! j - c * L ! j else y ! j)"
    using sub_all_ok[OF Y(1) order_refl Y(4,2)] by auto
  have x0: "x ! j = 0" if "32 \<le> j" "j < 64" for j using x that by (simp add: small_def)
  have "lval 256 (take 32 ?z) = lval 256 (map (\<lambda>j. y ! j - c * L ! j) [0..<32])"
    using Z Zl by (intro arg_cong[of _ _ "lval 256"] nth_equalityI) simp_all
  also have "\<dots> = lval 256 (take 32 y) - c * lval 256 L"
  proof -
    have "map (\<lambda>j. y ! j) [0..<32] = take 32 y" and "map (\<lambda>j. L ! j) [0..<32] = L"
      using Y(1) by (intro nth_equalityI; simp)+
    then show ?thesis unfolding lval_map_diff lval_scale by simp
  qed
  also have "lval 256 (take 32 y) = lval 256 y" using Y(1,3) x0 by (intro high_zero_val) simp_all
  finally have lz: "lval 256 (take 32 ?z) = V - c * ell - c * 256 ^ 32" using Y(5) L_val by simp
  have "0 \<le> lval 256 (take 32 y) \<and> lval 256 (take 32 y) < 256 ^ length (take 32 y)"
    using Y(1,4) by (intro lval_bounds) (auto simp: in_set_conv_nth)
  then have ly: "0 \<le> lval 256 y" "lval 256 y < 256 ^ 32"
    using Y(1,3) x0 high_zero_val[of y] by simp_all
  note Vr = low_range[OF x, folded V_def]
  note c = borrow_cases[OF Y(5) ly ell_range Vr]
  have y': "foldl modL_out (?z, []) [0..<32] = (fst (foldl modL_out (?z, []) [0..<32]), r)"
    unfolding r_def by (rule prod.collapse[symmetric])
  have zb: "\<bar>?z ! j\<bar> \<le> 3000" if j: "j < 64" for j
  proof (cases "j < 32")
    case True
    then have "\<bar>c * L ! j\<bar> \<le> 10 * 255" using Y(2) L_range[of j] unfolding abs_mult by (intro mult_mono) auto
    then have "\<bar>y ! j - c * L ! j\<bar> \<le> 3000" using Y(4)[OF True] by linarith
    then show ?thesis using Z[OF j] True by (simp only: if_True)
  next
    case False
    then show ?thesis using Z[OF j] Y(3)[of j] x0[of j] j by simp
  qed
  obtain k where lr: "length r = 32" and k: "lval 256 (map uint r) + 256 ^ 32 * k = lval 256 (take 32 ?z)"
    using modL_out_ok[OF Zl order_refl zb y'] by blast
  have "0 \<le> lval 256 (map uint r) \<and> lval 256 (map uint r) < 256 ^ length (map uint r)"
    using uint_bounded[where 'a = 8] by (intro lval_bounds) auto
  then have r: "0 \<le> lval 256 (map uint r)" "lval 256 (map uint r) < 256 ^ 32" using lr by simp_all
  have "lval 256 (map uint r) + 256 ^ 32 * (k + c) = V - c * ell" using k lz by (simp add: algebra_simps)
  then have "lval 256 (map uint r) = V - c * ell"
    by (rule close_congruent) (use r c ell_range in linarith)+
  also have "\<dots> = (V - c * ell) mod ell" using c by simp
  also have "\<dots> = lval 256 x mod ell"
    unfolding V_def using mod_mult_self2[of "lval 256 x" ell "- (x ! 31 div 16) - c"] by (simp add: algebra_simps)
  finally show ?thesis using lr by simp
qed

lemma modL_within:
  assumes "length x = 64" and "\<forall>j < 64. \<bar>x ! j\<bar> \<le> 2 ^ 21"
  shows "length (modL x) = 32" and "lval 256 (map uint (modL x)) = lval 256 x mod ell"
proof -
  let ?x = "foldl modL_row x (rev [32..<64])"
  have w: "within (\<lambda>_. 2 ^ 21) x" using assms by (simp add: within_def)
  have R: "within (row_inv 31) ?x" "lval 256 ?x mod ell = lval 256 x mod ell" using rows_ok[OF w, of 31] by simp_all
  obtain y c where y: "foldl modL_low (?x, 0) [0..<32] = (y, c)" by fastforce
  have "modL x = snd (foldl modL_out (foldl (\<lambda>x j. x[j := i64 (x ! j - c * L ! j)]) y [0..<32], []) [0..<32])"
    unfolding modL_def Let_def y prod.case ..
  then show "length (modL x) = 32" and "lval 256 (map uint (modL x)) = lval 256 x mod ell"
    using final_ok[OF small_of_rows[OF R(1)] y] R(2) by simp_all
qed

lemma reduce_ok:
  assumes "length r = 64"
  shows "length (reduce r) = 64" and "lval 256 (map uint (take 32 (reduce r))) = lval 256 (map uint r) mod ell"
proof -
  have e: "map (\<lambda>i. uint (r ! i)) [0..<64] = map uint r" by (rule map_nth_f[OF assms])
  have "\<bar>map uint r ! j\<bar> \<le> 2 ^ 21" if "j < 64" for j
    using that assms uint_bounded[of "r ! j"] by simp
  then have "length (modL (map uint r)) = 32" "lval 256 (map uint (modL (map uint r))) = lval 256 (map uint r) mod ell"
    using modL_within[of "map uint r"] assms by simp_all
  then show "length (reduce r) = 64" and "lval 256 (map uint (take 32 (reduce r))) = lval 256 (map uint r) mod ell"
    by (simp_all add: reduce_def e)
qed

section \<open>Properties\<close>

text \<open>
  C17: for digits up to 2 ^ 21, which covers sixty-four bytes and the sums of products that a
  signature adds up, modL writes the thirty-two bytes of exactly the residue modulo the order:
  the result is canonical, below the order, and no assignment wraps on the way.
\<close>

theorem modL_exact:
  assumes "length x = 64" and "\<forall>j < 64. \<bar>x ! j\<bar> \<le> 2 ^ 21"
  shows "length (modL x) = 32 \<and> lval 256 (map uint (modL x)) = lval 256 x mod ell"
  using modL_within[OF assms] by blast

theorem modL_exact_witness: "lval 256 (map uint (modL (replicate 64 2097152))) = lval 256 (replicate 64 2097152) mod ell"
  by (rule conjunct2[OF modL_exact]) simp_all

end
