(* ===== verification/EdPoints.thy ===== *)
theory EdPoints
  imports Gf25519 ScalarL
begin

text \<open>
  The group operations behind the signatures of \<^verbatim>\<open>kernel/tweetnacl.c\<close>.  A point is four field
  elements, the extended coordinates \<open>(X, Y, Z, T)\<close> of a point of the twisted Edwards curve;
  \<^verbatim>\<open>add\<close> is the unified addition, \<^verbatim>\<open>scalarmult\<close> a ladder of 256 steps that exchanges its two
  points by masks, and \<^verbatim>\<open>pack\<close> and \<^verbatim>\<open>unpackneg\<close> convert to and from the thirty-two bytes of a
  point.  The theorems show that every point the code computes is on the curve, with limbs for
  which the field arithmetic is exact.
\<close>

section \<open>Operations\<close>

definition D :: gf where
  "D = [0x78a3, 0x1359, 0x4dca, 0x75eb, 0xd8ab, 0x4141, 0x0a4d, 0x0070, 0xe898, 0x7779, 0x4079, 0x8cc7, 0xfe73, 0x2b6f, 0x6cee, 0x5203]"

definition D2 :: gf where
  "D2 = [0xf159, 0x26b2, 0x9b94, 0xebd6, 0xb156, 0x8283, 0x149a, 0x00e0, 0xd130, 0xeef3, 0x80f2, 0x198e, 0xfce7, 0x56df, 0xd9dc, 0x2406]"

definition X :: gf where
  "X = [0xd51a, 0x8f25, 0x2d60, 0xc956, 0xa7b2, 0x9525, 0xc760, 0x692c, 0xdc5c, 0xfdd6, 0xe231, 0xc0a4, 0x53fe, 0xcd6e, 0x36d3, 0x2169]"

definition Y :: gf where
  "Y = [0x6658, 0x6666, 0x6666, 0x6666, 0x6666, 0x6666, 0x6666, 0x6666, 0x6666, 0x6666, 0x6666, 0x6666, 0x6666, 0x6666, 0x6666, 0x6666]"

definition I :: gf where
  "I = [0xa0b0, 0x4a0e, 0x1b27, 0xc4ee, 0xe478, 0xad2f, 0x1806, 0x2f43, 0xd7a7, 0x3dfb, 0x0099, 0x2b4d, 0xdf0b, 0x4fc1, 0x2480, 0x2b83]"

type_synonym point = "gf list"

definition add :: "point \<Rightarrow> point \<Rightarrow> point" where
  "add p q =
     (let a = Z (p ! 1) (p ! 0);
          t = Z (q ! 1) (q ! 0);
          a = M a t;
          b = A (p ! 0) (p ! 1);
          t = A (q ! 0) (q ! 1);
          b = M b t;
          c = M (p ! 3) (q ! 3);
          c = M c D2;
          d = M (p ! 2) (q ! 2);
          d = A d d;
          e = Z b a;
          f = Z d c;
          g = A d c;
          h = A b a
      in [M e f, M h g, M g f, M e h])"

definition cswap :: "point \<Rightarrow> point \<Rightarrow> u8 \<Rightarrow> point \<times> point" where
  "cswap p q b =
     (let s = map (\<lambda>i. sel25519 (p ! i) (q ! i) (uint b)) [0..<4]
      in (map fst s, map snd s))"

definition pack :: "point \<Rightarrow> bytes" where
  "pack p =
     (let zi = inv25519 (p ! 2);
          tx = M (p ! 0) zi;
          ty = M (p ! 1) zi;
          r = pack25519 ty
      in r[31 := r ! 31 XOR push_bit 7 (par25519 tx)])"

definition bit_at :: "bytes \<Rightarrow> nat \<Rightarrow> u8" where
  "bit_at s i = drop_bit (i mod 8) (s ! (i div 8)) AND 1"

definition ladder_step :: "bytes \<Rightarrow> point \<times> point \<Rightarrow> nat \<Rightarrow> point \<times> point" where
  "ladder_step s pq i =
     (let b = bit_at s i;
          (p, q) = cswap (fst pq) (snd pq) b;
          q = add q p;
          p = add p p
      in cswap p q b)"

definition scalarmult :: "point \<Rightarrow> bytes \<Rightarrow> point" where
  "scalarmult q s =
     (let p = [set25519 gf0, set25519 gf1, set25519 gf1, set25519 gf0]
      in fst (foldl (ladder_step s) (p, q) (rev [0..<256])))"

definition scalarbase :: "bytes \<Rightarrow> point" where
  "scalarbase s = scalarmult [set25519 X, set25519 Y, set25519 gf1, M X Y] s"

definition unpackneg :: "bytes \<Rightarrow> point option" where
  "unpackneg p =
     (let r2 = set25519 gf1;
          r1 = unpack25519 p;
          num = S r1;
          den = M num D;
          num = Z num r2;
          den = A r2 den;
          den2 = S den;
          den4 = S den2;
          den6 = M den4 den2;
          t = M den6 num;
          t = M t den;
          t = pow2523 t;
          t = M t num;
          t = M t den;
          t = M t den;
          r0 = M t den;
          chk = M (S r0) den;
          r0 = (if neq25519 chk num then M r0 I else r0);
          chk = M (S r0) den
      in if neq25519 chk num then None
         else let r0 = (if par25519 r0 = drop_bit 7 (p ! 31) then Z gf0 r0 else r0)
              in Some [r0, r1, r2, M r0 r1])"


section \<open>Congruences and the curve\<close>

definition cg :: "int \<Rightarrow> int \<Rightarrow> bool" where
  "cg a b \<longleftrightarrow> a mod p25519 = b mod p25519"

lemma cg_refl [simp]: "cg a a" by (simp add: cg_def)
lemma cg_sym: "cg a b \<Longrightarrow> cg b a" by (simp add: cg_def)
lemma cg_trans [trans]: "cg a b \<Longrightarrow> cg b c \<Longrightarrow> cg a c" by (simp add: cg_def)
lemma cg_add: "cg a b \<Longrightarrow> cg c d \<Longrightarrow> cg (a + c) (b + d)" unfolding cg_def by (rule mod_add_cong)
lemma cg_diff: "cg a b \<Longrightarrow> cg c d \<Longrightarrow> cg (a - c) (b - d)" unfolding cg_def by (rule mod_diff_cong)
lemma cg_mult: "cg a b \<Longrightarrow> cg c d \<Longrightarrow> cg (a * c) (b * d)" unfolding cg_def by (rule mod_mult_cong)
lemma cg_power: "cg a b \<Longrightarrow> cg (a ^ n) (b ^ n)" by (induction n) (simp_all add: cg_mult)

lemmas cg_intros = cg_add cg_diff cg_mult cg_power cg_refl

definition edwards :: "int \<Rightarrow> int \<Rightarrow> int \<Rightarrow> int \<Rightarrow> int \<Rightarrow> bool" where
  "edwards d x y z t \<longleftrightarrow> cg (y\<^sup>2 - x\<^sup>2) (z\<^sup>2 + d * t\<^sup>2) \<and> cg (x * y) (z * t)"

text \<open>The unified addition stays on the curve, whatever the curve constant.\<close>

lemma edwards_step1:
  fixes d x1 y1 z1 t1 x2 y2 z2 t2 :: int
  defines "e \<equiv> x1 * y2 + y1 * x2" and "h \<equiv> y1 * y2 + x1 * x2"
    and "f \<equiv> z1 * z2 - d * t1 * t2" and "g \<equiv> z1 * z2 + d * t1 * t2"
  shows "2 * ((h * g)\<^sup>2 - (e * f)\<^sup>2 - (g * f)\<^sup>2 - d * (e * h)\<^sup>2) =
     ((x1\<^sup>2 + y1\<^sup>2) * (x2\<^sup>2 + y2\<^sup>2) + 4 * (x1 * y1) * (x2 * y2)) * (4 * d * (z1 * t1) * (z2 * t2))
     + 2 * (y1\<^sup>2 - x1\<^sup>2) * (y2\<^sup>2 - x2\<^sup>2) * (z1\<^sup>2 * z2\<^sup>2 + d * t1\<^sup>2 * (d * t2\<^sup>2))
     - 2 * (z1\<^sup>2 * z2\<^sup>2 - d * t1\<^sup>2 * (d * t2\<^sup>2))\<^sup>2
     - 2 * d * ((x1 * y1) * (x2\<^sup>2 + y2\<^sup>2) + (x2 * y2) * (x1\<^sup>2 + y1\<^sup>2))\<^sup>2"
  unfolding e_def h_def f_def g_def by algebra

lemma edwards_step2:
  fixes d x1 y1 x2 y2 a :: int
  shows "((x1\<^sup>2 + y1\<^sup>2) * (x2\<^sup>2 + y2\<^sup>2) + 4 * (x1 * y1) * (x2 * y2)) * (4 * d * (x1 * y1) * (x2 * y2))
     + a - 2 * d * ((x1 * y1) * (x2\<^sup>2 + y2\<^sup>2) + (x2 * y2) * (x1\<^sup>2 + y1\<^sup>2))\<^sup>2
     = a - 2 * d * (x1 * y1)\<^sup>2 * (y2\<^sup>2 - x2\<^sup>2)\<^sup>2 - 2 * d * (x2 * y2)\<^sup>2 * (y1\<^sup>2 - x1\<^sup>2)\<^sup>2"
  by algebra

lemma edwards_step3:
  fixes P Q R T :: int
  shows "2 * (P + R) * (Q + T) * (P * Q + R * T) - 2 * (P * Q - R * T)\<^sup>2 - 2 * (P * R) * (Q + T)\<^sup>2 - 2 * (Q * T) * (P + R)\<^sup>2 = 0"
  by algebra

lemma edwards_closed:
  assumes 1: "edwards d x1 y1 z1 t1" and 2: "edwards d x2 y2 z2 t2"
  defines "e \<equiv> x1 * y2 + y1 * x2" and "h \<equiv> y1 * y2 + x1 * x2"
    and "f \<equiv> z1 * z2 - d * t1 * t2" and "g \<equiv> z1 * z2 + d * t1 * t2"
  shows "cg (2 * ((h * g)\<^sup>2 - (e * f)\<^sup>2 - (g * f)\<^sup>2 - d * (e * h)\<^sup>2)) 0"
proof -
  let ?w1 = "x1 * y1" and ?w2 = "x2 * y2" and ?u1 = "y1\<^sup>2 - x1\<^sup>2" and ?u2 = "y2\<^sup>2 - x2\<^sup>2"
  let ?P = "z1\<^sup>2" and ?Q = "z2\<^sup>2" and ?R = "d * t1\<^sup>2" and ?T = "d * t2\<^sup>2"
  let ?a = "2 * ?u1 * ?u2 * (?P * ?Q + ?R * ?T) - 2 * (?P * ?Q - ?R * ?T)\<^sup>2"
  let ?v = "(x1\<^sup>2 + y1\<^sup>2) * (x2\<^sup>2 + y2\<^sup>2) + 4 * ?w1 * ?w2"
  let ?q = "2 * d * (?w1 * (x2\<^sup>2 + y2\<^sup>2) + ?w2 * (x1\<^sup>2 + y1\<^sup>2))\<^sup>2"
  have w: "cg ?w1 (z1 * t1)" "cg ?w2 (z2 * t2)" and u: "cg ?u1 (?P + ?R)" "cg ?u2 (?Q + ?T)"
    using 1 2 by (simp_all add: edwards_def)
  let ?E4 = "2 * (?P + ?R) * (?Q + ?T) * (?P * ?Q + ?R * ?T) - 2 * (?P * ?Q - ?R * ?T)\<^sup>2
      - 2 * d * (z1 * t1)\<^sup>2 * (?Q + ?T)\<^sup>2 - 2 * d * (z2 * t2)\<^sup>2 * (?P + ?R)\<^sup>2"
  have e1: "2 * ((h * g)\<^sup>2 - (e * f)\<^sup>2 - (g * f)\<^sup>2 - d * (e * h)\<^sup>2) = ?v * (4 * d * (z1 * t1) * (z2 * t2)) + ?a - ?q"
    using edwards_step1[of y1 y2 x1 x2 z1 z2 d t1 t2] unfolding e_def h_def f_def g_def by linarith
  have c1: "cg (?v * (4 * d * (z1 * t1) * (z2 * t2)) + ?a - ?q) (?v * (4 * d * ?w1 * ?w2) + ?a - ?q)"
    by (intro cg_intros w[THEN cg_sym])
  have c2: "cg (?a - 2 * d * ?w1\<^sup>2 * ?u2\<^sup>2 - 2 * d * ?w2\<^sup>2 * ?u1\<^sup>2) ?E4"
    by (intro cg_intros w u)
  have "2 * d * (z1 * t1)\<^sup>2 = 2 * (?P * ?R)" "2 * d * (z2 * t2)\<^sup>2 = 2 * (?Q * ?T)" by (simp_all add: power_mult_distrib)
  then have e3: "?E4 = 0" using edwards_step3[of ?P ?R ?Q ?T] by (simp only:)
  show ?thesis
    unfolding e1 using cg_trans[OF c1[unfolded edwards_step2] c2] unfolding e3 .
qed


section \<open>Points\<close>

text \<open>\<open>rep B v a\<close>: the element \<open>a\<close> has limbs up to \<open>B\<close> and denotes \<open>v\<close> modulo the prime.\<close>

definition rep :: "int \<Rightarrow> int \<Rightarrow> gf \<Rightarrow> bool" where
  "rep B v a \<longleftrightarrow> limbs B a \<and> cg (gf_val a) v"

lemma rep_self: "limbs B a \<Longrightarrow> rep B (gf_val a) a"
  by (simp add: rep_def)

lemma rep_A: "rep B u a \<Longrightarrow> rep C v b \<Longrightarrow> rep (B + C) (u + v) (A a b)"
  using A_ok[of B a C b] by (simp add: rep_def cg_add)

lemma rep_Z: "rep B u a \<Longrightarrow> rep C v b \<Longrightarrow> rep (B + C) (u - v) (Z a b)"
  using Z_ok[of B a C b] by (simp add: rep_def cg_diff)

lemma rep_M:
  assumes "rep B u a" and "rep C v b" and "B \<le> 33554432" and "C \<le> 33554432"
  shows "rep 65573 (u * v) (M a b)"
proof -
  have l: "limbs (2 ^ 25) a" "limbs (2 ^ 25) b"
    using assms by (auto simp: rep_def intro: limbs_mono)
  have "cg (gf_val (M a b)) (gf_val a * gf_val b)" unfolding cg_def by (rule M_ok(2)[OF l])
  also have "cg (gf_val a * gf_val b) (u * v)" using assms by (intro cg_mult) (simp_all add: rep_def)
  finally show ?thesis using gf_red_limbs[OF M_ok(1)[OF l]] by (simp add: rep_def)
qed

lemma rep_cg: "rep B u a \<Longrightarrow> cg u v \<Longrightarrow> rep B v a"
  unfolding rep_def by (blast intro: cg_trans)

lemma rep_eq: "rep B u a \<Longrightarrow> u = v \<Longrightarrow> rep B v a"
  by simp

lemma rep_mono: "rep B u a \<Longrightarrow> B \<le> C \<Longrightarrow> rep C u a"
  unfolding rep_def by (blast intro: limbs_mono)

definition pt :: "point \<Rightarrow> bool" where
  "pt p \<longleftrightarrow> length p = 4 \<and> (\<forall>i < 4. limbs 131072 (p ! i))"

definition on_curve :: "point \<Rightarrow> bool" where
  "on_curve p \<longleftrightarrow> edwards (gf_val D) (gf_val (p ! 0)) (gf_val (p ! 1)) (gf_val (p ! 2)) (gf_val (p ! 3))"

lemma D_ok: "limbs 65535 D" "rep 65535 (2 * gf_val D) D2"
  by (simp_all add: rep_def limbs_def D2_def D_def nth_Cons' cg_def p25519_def)

lemma ptI:
  assumes "rep B x a" and "rep C y b" and "rep E z c" and "rep F t d" and "B \<le> 131072" "C \<le> 131072" "E \<le> 131072" "F \<le> 131072"
  shows "pt [a, b, c, d]"
  using assms by (auto simp: pt_def rep_def less_Suc_eq numeral_eq_Suc intro: limbs_mono)

lemma add_ok:
  assumes "pt p" and "pt q"
  defines "x1 \<equiv> gf_val (p ! 0)" and "y1 \<equiv> gf_val (p ! 1)" and "z1 \<equiv> gf_val (p ! 2)" and "t1 \<equiv> gf_val (p ! 3)"
    and "x2 \<equiv> gf_val (q ! 0)" and "y2 \<equiv> gf_val (q ! 1)" and "z2 \<equiv> gf_val (q ! 2)" and "t2 \<equiv> gf_val (q ! 3)"
  defines "e \<equiv> x1 * y2 + y1 * x2" and "h \<equiv> y1 * y2 + x1 * x2"
    and "f \<equiv> z1 * z2 - gf_val D * t1 * t2" and "g \<equiv> z1 * z2 + gf_val D * t1 * t2"
  obtains X3 Y3 Z3 T3 where "add p q = [X3, Y3, Z3, T3]"
    and "rep 65573 (4 * (e * f)) X3" and "rep 65573 (4 * (h * g)) Y3"
    and "rep 65573 (4 * (g * f)) Z3" and "rep 65573 (4 * (e * h)) T3"
proof -
  have P: "rep 131072 x1 (p ! 0)" "rep 131072 y1 (p ! 1)" "rep 131072 z1 (p ! 2)" "rep 131072 t1 (p ! 3)"
    and Q: "rep 131072 x2 (q ! 0)" "rep 131072 y2 (q ! 1)" "rep 131072 z2 (q ! 2)" "rep 131072 t2 (q ! 3)"
    using assms(1,2) by (simp_all add: pt_def rep_def x1_def y1_def z1_def t1_def x2_def y2_def z2_def t2_def)
  define a b c d where "a = M (Z (p ! 1) (p ! 0)) (Z (q ! 1) (q ! 0))" and "b = M (A (p ! 0) (p ! 1)) (A (q ! 0) (q ! 1))"
    and "c = M (M (p ! 3) (q ! 3)) D2" and "d = A (M (p ! 2) (q ! 2)) (M (p ! 2) (q ! 2))"
  have a: "rep 65573 ((y1 - x1) * (y2 - x2)) a" unfolding a_def by (rule rep_M[OF rep_Z[OF P(2,1)] rep_Z[OF Q(2,1)]]) simp_all
  have b: "rep 65573 ((x1 + y1) * (x2 + y2)) b" unfolding b_def by (rule rep_M[OF rep_A[OF P(1,2)] rep_A[OF Q(1,2)]]) simp_all
  have c: "rep 65573 ((t1 * t2) * (2 * gf_val D)) c" unfolding c_def by (rule rep_M[OF rep_M[OF P(4) Q(4)] D_ok(2)]) simp_all
  have z: "rep 65573 (z1 * z2) (M (p ! 2) (q ! 2))" by (rule rep_M[OF P(3) Q(3)]) simp_all
  have d: "rep (65573 + 65573) (z1 * z2 + z1 * z2) d" unfolding d_def by (rule rep_A[OF z z])
  have e: "rep (65573 + 65573) (2 * e) (Z b a)" by (rule rep_eq[OF rep_Z[OF b a]]) (simp add: e_def algebra_simps)
  have h: "rep (65573 + 65573) (2 * h) (A b a)" by (rule rep_eq[OF rep_A[OF b a]]) (simp add: h_def algebra_simps)
  have f: "rep (65573 + 65573 + 65573) (2 * f) (Z d c)" by (rule rep_eq[OF rep_Z[OF d c]]) (simp add: f_def algebra_simps)
  have g: "rep (65573 + 65573 + 65573) (2 * g) (A d c)" by (rule rep_eq[OF rep_A[OF d c]]) (simp add: g_def algebra_simps)
  show ?thesis
  proof (rule that)
    show "add p q = [M (Z b a) (Z d c), M (A b a) (A d c), M (A d c) (Z d c), M (Z b a) (A b a)]"
      by (simp add: add_def Let_def a_def b_def c_def d_def)
  qed (rule rep_eq[OF rep_M[OF e f]] rep_eq[OF rep_M[OF h g]] rep_eq[OF rep_M[OF g f]] rep_eq[OF rep_M[OF e h]], simp_all)+
qed

lemma edwards_cg:
  assumes "edwards d x y z t" and "cg x' x" and "cg y' y" and "cg z' z" and "cg t' t"
  shows "edwards d x' y' z' t'"
proof -
  have "cg (y'\<^sup>2 - x'\<^sup>2) (y\<^sup>2 - x\<^sup>2)" "cg (z\<^sup>2 + d * t\<^sup>2) (z'\<^sup>2 + d * t'\<^sup>2)" "cg (x' * y') (x * y)" "cg (z * t) (z' * t')"
    using assms(2-5) by (blast intro: cg_intros cg_sym)+
  then show ?thesis using assms(1) unfolding edwards_def by (blast intro: cg_trans)
qed

lemma cg_zero: "cg (a - b) 0 \<Longrightarrow> cg a b"
  using cg_add[of "a - b" 0 b b] by simp

lemma add_curve:
  assumes "pt p" and "pt q" and "on_curve p" and "on_curve q"
  shows "pt (add p q) \<and> on_curve (add p q)"
proof -
  obtain X3 Y3 Z3 T3 e f g h where r: "add p q = [X3, Y3, Z3, T3]"
    and X: "rep 65573 (4 * (e * f)) X3" and Y: "rep 65573 (4 * (h * g)) Y3"
    and Z: "rep 65573 (4 * (g * f)) Z3" and T: "rep 65573 (4 * (e * h)) T3"
    and c: "cg (2 * ((h * g)\<^sup>2 - (e * f)\<^sup>2 - (g * f)\<^sup>2 - gf_val D * (e * h)\<^sup>2)) 0"
    using add_ok[OF assms(1,2)] edwards_closed[OF assms(3,4)[unfolded on_curve_def]] by metis
  have "(4 * (h * g))\<^sup>2 - (4 * (e * f))\<^sup>2 - ((4 * (g * f))\<^sup>2 + gf_val D * (4 * (e * h))\<^sup>2)
      = 8 * (2 * ((h * g)\<^sup>2 - (e * f)\<^sup>2 - (g * f)\<^sup>2 - gf_val D * (e * h)\<^sup>2))"
    by algebra
  then have "cg ((4 * (h * g))\<^sup>2 - (4 * (e * f))\<^sup>2) ((4 * (g * f))\<^sup>2 + gf_val D * (4 * (e * h))\<^sup>2)"
    using cg_mult[OF cg_refl[of 8] c] by - (rule cg_zero, simp only: mult_zero_right)
  moreover have "4 * (e * f) * (4 * (h * g)) = 4 * (g * f) * (4 * (e * h))" by simp
  ultimately have "edwards (gf_val D) (4 * (e * f)) (4 * (h * g)) (4 * (g * f)) (4 * (e * h))"
    by (simp only: edwards_def cg_refl)
  then show ?thesis
    using ptI[OF X Y Z T] edwards_cg X Y Z T by (auto simp: r on_curve_def rep_def)
qed


section \<open>The ladder\<close>

lemma bit_at_cases: "bit_at s i = 0 \<or> bit_at s i = 1"
  by (simp add: bit_at_def and_one_eq mod_2_eq_odd)

lemma point_map: "length p = 4 \<Longrightarrow> map (\<lambda>i. p ! i) [0..<4] = p"
  by (rule nth_equalityI) simp_all

lemma cswap_ok:
  assumes "pt p" and "pt q"
  shows "cswap p q 0 = (p, q)" and "cswap p q 1 = (q, p)"
proof -
  have "length (p ! i) = 16" "length (q ! i) = 16" if "i < 4" for i
    using assms that by (simp_all add: pt_def limbs_def)
  then have s: "map (\<lambda>i. sel25519 (p ! i) (q ! i) 0) [0..<4] = map (\<lambda>i. (p ! i, q ! i)) [0..<4]"
    and s1: "map (\<lambda>i. sel25519 (p ! i) (q ! i) 1) [0..<4] = map (\<lambda>i. (q ! i, p ! i)) [0..<4]"
    by (auto simp: sel25519_ok)
  have l: "length p = 4" "length q = 4" using assms by (simp_all add: pt_def)
  show "cswap p q 0 = (p, q)" and "cswap p q 1 = (q, p)"
    unfolding cswap_def Let_def unsigned_0 unsigned_1 s s1 using l by (simp_all add: comp_def point_map)
qed

text \<open>The step without exchanges: the bit decides which of the two points is doubled.\<close>

definition plain_step :: "bytes \<Rightarrow> point \<times> point \<Rightarrow> nat \<Rightarrow> point \<times> point" where
  "plain_step s pq i = (case pq of (p, q) \<Rightarrow> if bit_at s i = 1 then (add p q, add q q) else (add p p, add q p))"

abbreviation good :: "point \<Rightarrow> bool" where
  "good p \<equiv> pt p \<and> on_curve p"

lemma ladder_step_eq:
  assumes "pt p" and "pt q" and "\<And>a b. pt a \<Longrightarrow> pt b \<Longrightarrow> pt (add a b)"
  shows "ladder_step s (p, q) i = plain_step s (p, q) i"
  using bit_at_cases[of s i] assms by (auto simp: ladder_step_def plain_step_def Let_def cswap_ok)

lemma pt_add: "pt a \<Longrightarrow> pt b \<Longrightarrow> pt (add a b)"
proof -
  assume "pt a" "pt b"
  from add_ok[OF this] obtain X3 Y3 Z3 T3 x y z t where "add a b = [X3, Y3, Z3, T3]"
    "rep 65573 x X3" "rep 65573 y Y3" "rep 65573 z Z3" "rep 65573 t T3" by metis
  then show ?thesis using ptI by simp
qed

lemma ladder_ok:
  assumes "good p" and "good q"
  shows "foldl (ladder_step s) (p, q) is = foldl (plain_step s) (p, q) is
    \<and> good (fst (foldl (plain_step s) (p, q) is)) \<and> good (snd (foldl (plain_step s) (p, q) is))"
  using assms
proof (induction "is" arbitrary: p q)
  case (Cons i "is")
  obtain p' q' where s: "plain_step s (p, q) i = (p', q')" by fastforce
  have "good p'" "good q'" using s Cons.prems add_curve by (auto simp: plain_step_def split: if_splits)
  moreover have "ladder_step s (p, q) i = (p', q')"
    using ladder_step_eq[OF _ _ pt_add, of p q s i] Cons.prems s by simp
  ultimately show ?case using Cons.IH[of p' q'] s by simp
qed simp

lemma gf_consts: "limbs 1 gf0" "limbs 1 gf1" "gf_val gf0 = 0" "gf_val gf1 = 1" "length gf0 = 16" "length gf1 = 16"
  by (simp_all add: limbs_def gf0_def gf1_def nth_Cons')

lemma set_consts [simp]: "set25519 gf0 = gf0" "set25519 gf1 = gf1"
  by (simp_all add: set25519_id gf_consts)

lemma neutral_good: "good [gf0, gf1, gf1, gf0]"
  using ptI[OF rep_self rep_self rep_self rep_self, of 1 gf0 1 gf1 1 gf1 1 gf0]
  by (simp add: gf_consts on_curve_def edwards_def)

lemma scalarmult_ok:
  assumes "good q"
  shows "good (scalarmult q s)"
    and "scalarmult q s = fst (foldl (plain_step s) ([gf0, gf1, gf1, gf0], q) (rev [0..<256]))"
  using ladder_ok[OF neutral_good assms, of s "rev [0..<256]"] by (simp_all add: scalarmult_def)

lemma base_consts: "limbs 65535 X" "limbs 65535 Y" "length X = 16" "length Y = 16"
  by (simp_all add: limbs_def X_def Y_def nth_Cons')

lemma base_vals: "gf_val X = 15112221349535400772501151409588531511454012693041857206046113283949847762202" "gf_val Y = 46316835694926478169428394003475163141307993866256225615783033603165251855960" "gf_val D = 37095705934669439343138083508754565189542113879843219016388785533085940283555"
  by (simp_all add: X_def Y_def D_def)

lemma cg_quot: "a = r + p25519 * k \<Longrightarrow> cg a r"
  by (simp add: cg_def)

lemma base_edwards: "cg ((gf_val Y)\<^sup>2 - (gf_val X)\<^sup>2) (1\<^sup>2 + gf_val D * (gf_val X * gf_val Y)\<^sup>2)"
proof -
  have x: "cg ((gf_val X)\<^sup>2) 26187595835145689230469591415084376402084551887632582719101735842039498021991"
    by (rule cg_quot[of _ _ 3944643120641682540557488748386534817562863454810087094083181913524639656337]) (simp add: base_vals p25519_def power2_eq_square)
  have y: "cg ((gf_val Y)\<^sup>2) 37053468555941182535542715202780130513046395093004980492626426882532201484768"
    by (rule cg_quot[of _ _ 37053468555941182535542715202780130513046395093004980492626426882532201484768]) (simp add: base_vals p25519_def power2_eq_square)
  have w: "cg (26187595835145689230469591415084376402084551887632582719101735842039498021991 * 37053468555941182535542715202780130513046395093004980492626426882532201484768) 30655112042971184558329056706696549839726511367961720624960021019854854290862"
    by (rule cg_quot[of _ _ 16760061334493241107500538505654000897334113208084852940225110938905278734074]) (simp add: p25519_def)
  have v: "cg (gf_val D * 30655112042971184558329056706696549839726511367961720624960021019854854290862) 10865872720795493305073123787695754110961843205372397773524691040492703462776"
    by (rule cg_quot[of _ _ 19641635784112395346641967481223427603076292420967697888635760513231183455066]) (simp add: base_vals p25519_def)
  have d: "cg (37053468555941182535542715202780130513046395093004980492626426882532201484768 - 26187595835145689230469591415084376402084551887632582719101735842039498021991) (1 + 10865872720795493305073123787695754110961843205372397773524691040492703462776)"
    by (simp add: cg_def p25519_def)
  have "cg ((gf_val X * gf_val Y)\<^sup>2) 30655112042971184558329056706696549839726511367961720624960021019854854290862"
    unfolding power_mult_distrib by (rule cg_trans[OF cg_mult[OF x y] w])
  then have "cg (gf_val D * (gf_val X * gf_val Y)\<^sup>2) 10865872720795493305073123787695754110961843205372397773524691040492703462776" by (rule cg_trans[OF cg_mult[OF cg_refl] v])
  then have "cg (1 + 10865872720795493305073123787695754110961843205372397773524691040492703462776) (1\<^sup>2 + gf_val D * (gf_val X * gf_val Y)\<^sup>2)"
    unfolding power_one by (rule cg_add[OF cg_refl cg_sym])
  then show ?thesis using cg_trans[OF cg_trans[OF cg_diff[OF y x] d]] by blast
qed

lemma base_good: "good [X, Y, gf1, M X Y]"
proof -
  have T: "rep 65573 (gf_val X * gf_val Y) (M X Y)"
    by (rule rep_M[OF rep_self[OF base_consts(1)] rep_self[OF base_consts(2)]]) simp_all
  have "edwards (gf_val D) (gf_val X) (gf_val Y) 1 (gf_val X * gf_val Y)"
    using base_edwards unfolding edwards_def by simp
  then have "on_curve [X, Y, gf1, M X Y]"
    using T edwards_cg by (auto simp: on_curve_def rep_def gf_consts)
  then show ?thesis
    using ptI[OF rep_self[OF base_consts(1)] rep_self[OF base_consts(2)] rep_self[OF gf_consts(2)] T] by simp
qed

lemma scalarbase_ok: "good (scalarbase s)"
  unfolding scalarbase_def using base_good by (simp add: set25519_id base_consts scalarmult_ok(1))


section \<open>Encoding of points\<close>

lemma par_ok:
  assumes "limbs (2 ^ 62) a"
  shows "uint (par25519 a) = gf_val a mod p25519 mod 2"
proof -
  note P = pack25519_ok[OF assms]
  obtain b bs where b: "pack25519 a = b # bs" using P(1) by (cases "pack25519 a") auto
  have "gf_val a mod p25519 mod 2 = (uint b + 2 * (128 * lval 256 (map uint bs))) mod 2" using P(2) b by simp
  also have "\<dots> = uint b mod 2" by (rule mod_mult_self2)
  also have "\<dots> = uint (par25519 a)" by (simp add: par25519_def b and_one_eq uint_mod)
  finally show ?thesis by simp
qed

lemma uint_set_top:
  fixes b c :: u8
  assumes "uint b < 128" and "c = 0 \<or> c = 1"
  shows "uint (b XOR push_bit 7 c) = uint b + 128 * uint c"
proof -
  have "\<not> bit (uint b) 7" using assms(1) by (simp add: bit_iff_odd)
  then have n: "\<not> bit b 7" by (simp add: bit_uint_iff)
  have "b AND push_bit 7 1 = 0"
  proof (rule bit_word_eqI)
    fix k :: nat
    show "bit (b AND push_bit 7 1) k = bit (0 :: u8) k"
      using n by (cases "k = 7") (simp_all add: bit_and_iff bit_push_bit_iff bit_1_iff del: push_bit_of_1)
  qed
  then have "b XOR push_bit 7 1 = b + push_bit 7 1" by (simp add: disjunctive_add_eq_xor)
  moreover have "uint (b + push_bit 7 1) = uint b + 128" using assms(1) by (simp add: uint_plus_if_size word_size push_bit_eq_mult)
  ultimately show ?thesis using assms(2) by auto
qed

lemma rep_limbs62: "rep B v a \<Longrightarrow> B \<le> 33554432 \<Longrightarrow> limbs (2 ^ 62) a"
  unfolding rep_def by (auto intro: limbs_mono)

lemma rep_val: "rep B v a \<Longrightarrow> gf_val a mod p25519 = v mod p25519"
  by (simp add: rep_def cg_def)

lemma pack_ok:
  assumes "pt p"
  defines "zi \<equiv> gf_val (p ! 2) ^ nat (p25519 - 2)"
  shows "length (pack p) = 32"
    and "lval 256 (map uint (pack p)) = gf_val (p ! 1) * zi mod p25519 + 2 ^ 255 * (gf_val (p ! 0) * zi mod p25519 mod 2)"
proof -
  have l: "limbs 131072 (p ! i)" if "i < 4" for i using assms(1) that by (simp add: pt_def)
  have l2: "limbs (2 ^ 25) (p ! 2)" using l[of 2] limbs_mono by simp
  have z: "rep 33554432 zi (inv25519 (p ! 2))" using inv25519_ok[OF l2] by (simp add: rep_def cg_def zi_def)
  have x: "rep 65573 (gf_val (p ! 0) * zi) (M (p ! 0) (inv25519 (p ! 2)))"
    by (rule rep_M[OF rep_self[OF l[of 0]] z]) simp_all
  have y: "rep 65573 (gf_val (p ! 1) * zi) (M (p ! 1) (inv25519 (p ! 2)))"
    by (rule rep_M[OF rep_self[OF l[of 1]] z]) simp_all
  let ?r = "pack25519 (M (p ! 1) (inv25519 (p ! 2)))" and ?c = "par25519 (M (p ! 0) (inv25519 (p ! 2)))"
  have ly: "limbs (2 ^ 62) (M (p ! 1) (inv25519 (p ! 2)))" by (rule rep_limbs62[OF y]) simp
  have lx: "limbs (2 ^ 62) (M (p ! 0) (inv25519 (p ! 2)))" by (rule rep_limbs62[OF x]) simp
  note P = pack25519_ok[OF ly, unfolded rep_val[OF y]]
  have c: "uint ?c = gf_val (p ! 0) * zi mod p25519 mod 2" using par_ok[OF lx] rep_val[OF x] by simp
  have r: "uint (?r ! 31) < 128"
  proof -
    have "lval 256 (map uint ?r) = lval 256 (map uint (take 31 ?r)) + 256 ^ 31 * uint (?r ! 31)"
      using P(1) lval_take_Suc[of 31 "map uint ?r" 256] by (simp add: take_map)
    moreover have "0 \<le> lval 256 (map uint (take 31 ?r))"
      using lval_bounds[of "map uint (take 31 ?r)" 256] uint_bounded[where 'a = 8] by force
    moreover have "lval 256 (map uint ?r) < 2 ^ 255" unfolding P(2) using pos_mod_bound[of p25519] by (simp add: p25519_def)
    ultimately show ?thesis by simp
  qed
  have e: "pack p = ?r[31 := ?r ! 31 XOR push_bit 7 ?c]" by (simp add: pack_def Let_def)
  show "length (pack p) = 32" using P(1) by (simp add: e)
  have "uint (?r ! 31 XOR push_bit 7 ?c) = uint (?r ! 31) + 128 * uint ?c" using r by (intro uint_set_top) (simp_all add: par25519_def and_one_eq mod_2_eq_odd)
  then show "lval 256 (map uint (pack p)) = gf_val (p ! 1) * zi mod p25519 + 2 ^ 255 * (gf_val (p ! 0) * zi mod p25519 mod 2)"
    unfolding e map_update using P c by (subst lval_update) simp_all
qed


section \<open>Decoding of points\<close>

lemma unpack_rep:
  assumes "length p = 32"
  shows "rep 65535 (lval 256 (map uint p) mod 2 ^ 255) (unpack25519 p)"
  using unpack25519_ok[OF assms] by (auto simp: rep_def digits_def limbs_def)

lemma rep_pow2523: "rep B v a \<Longrightarrow> B \<le> 33554432 \<Longrightarrow> rep 33554432 (gf_val (pow2523 a)) (pow2523 a)"
proof -
  assume "rep B v a" "B \<le> 33554432"
  then have "limbs (2 ^ 25) a" unfolding rep_def by (auto intro: limbs_mono)
  then show ?thesis using pow2523_ok(1)[of a] by (simp add: rep_def)
qed

lemma I_limbs: "limbs 65535 I"
  by (simp add: limbs_def I_def nth_Cons')

text \<open>What the code tests: \<open>x\<^sup>2 (1 + d y\<^sup>2) = y\<^sup>2 - 1\<close>.\<close>

lemma check_ok:
  assumes "rep B x r" and "rep C den d" and "rep E num n" and "B \<le> 33554432" and "C \<le> 33554432" and "E \<le> 33554432"
  shows "neq25519 (M (S r) d) n \<longleftrightarrow> \<not> cg (x\<^sup>2 * den) num"
proof -
  have c: "rep 65573 (x * x * den) (M (S r) d)"
    unfolding S_def using assms(4,5) by (intro rep_M[OF rep_M[OF assms(1,1)] assms(2)]) simp_all
  have "neq25519 (M (S r) d) n \<longleftrightarrow> gf_val (M (S r) d) mod p25519 \<noteq> gf_val n mod p25519"
    using neq25519_iff[OF rep_limbs62[OF c] rep_limbs62[OF assms(3,6)]] by simp
  then show ?thesis using rep_val[OF c] rep_val[OF assms(3)] by (simp add: cg_def power2_eq_square)
qed

lemma parity_neg: "a mod p25519 \<noteq> 0 \<Longrightarrow> (- a) mod p25519 mod 2 = 1 - a mod p25519 mod 2"
proof -
  assume "a mod p25519 \<noteq> 0"
  then have "(- a) mod p25519 = p25519 - a mod p25519" by (simp add: zmod_zminus1_eq_if)
  moreover have "odd p25519" by (simp add: p25519_def)
  ultimately show ?thesis by (simp add: mod_2_eq_odd)
qed

lemma root_rep:
  assumes n: "rep B u num" and d: "rep C v den" and "B \<le> 33554432" and "C \<le> 33554432"
  defines "t \<equiv> M (M (M (S (S den)) (S den)) num) den"
  shows "\<exists>w. rep 65573 (u * w) (M (M (M (M (pow2523 t) num) den) den) den)"
proof -
  have d2: "rep 65573 (v * v) (S den)" unfolding S_def by (rule rep_M[OF d d assms(4,4)])
  have d4: "rep 65573 (v * v * (v * v)) (S (S den))" unfolding S_def[of "S den"] by (rule rep_M[OF d2 d2]) simp_all
  have "rep 65573 (v * v * (v * v) * (v * v) * u * v) t"
    unfolding t_def using assms(3,4) by (intro rep_M[OF rep_M[OF rep_M[OF d4 d2] n] d]) simp_all
  then have w: "rep 33554432 (gf_val (pow2523 t)) (pow2523 t)" by (rule rep_pow2523) simp
  have "rep 65573 (gf_val (pow2523 t) * u * v * v * v) (M (M (M (M (pow2523 t) num) den) den) den)"
    using assms(3,4) by (intro rep_M[OF rep_M[OF rep_M[OF rep_M[OF w n] d] d] d]) simp_all
  then have "rep 65573 (u * (gf_val (pow2523 t) * v * v * v)) (M (M (M (M (pow2523 t) num) den) den) den)"
    by (rule rep_eq) (simp add: ac_simps)
  then show ?thesis by blast
qed

lemma top_bit: "drop_bit 7 b = 0 \<or> drop_bit 7 b = 1" for b :: u8
proof -
  have "unat (drop_bit 7 b) = unat b div 128" by (simp add: unat_drop_bit_eq drop_bit_nat_def)
  then have "unat (drop_bit 7 b) < 2" using unat_lt2p[of b] by simp
  then have "unat (drop_bit 7 b) = unat (0 :: u8) \<or> unat (drop_bit 7 b) = unat (1 :: u8)" by auto
  then show ?thesis unfolding word_unat_eq_iff[symmetric] .
qed

lemma negate_rep:
  fixes s :: u8
  assumes x: "rep 65573 x r" and s: "s = 0 \<or> s = 1"
  shows "\<exists>v. rep 65574 v (if par25519 r = s then Z gf0 r else r) \<and> v\<^sup>2 = x\<^sup>2
    \<and> (v mod p25519 = 0 \<or> v mod p25519 mod 2 \<noteq> uint s)"
proof -
  have p: "uint (par25519 r) = x mod p25519 mod 2" using par_ok[OF rep_limbs62[OF x]] rep_val[OF x] by simp
  show ?thesis
  proof (cases "par25519 r = s")
    case True
    have "rep 1 0 gf0" by (simp add: rep_def gf_consts)
    from rep_Z[OF this x] have "rep 65574 (- x) (Z gf0 r)" by simp
    moreover have "(- x) mod p25519 = 0 \<or> (- x) mod p25519 mod 2 \<noteq> uint s"
    proof (cases "x mod p25519 = 0")
      case False
      then show ?thesis using parity_neg[OF False] p True by (auto simp: mod_2_eq_odd)
    qed (simp add: mod_eq_0_iff_dvd)
    ultimately show ?thesis using True by (intro exI[of _ "- x"]) simp
  next
    case False
    then have "x mod p25519 mod 2 \<noteq> uint s" using p by (metis word_uint_eq_iff)
    then show ?thesis using False rep_mono[OF x, of 65574] by (intro exI[of _ x]) simp
  qed
qed

lemma decoded_curve:
  assumes "cg (v\<^sup>2 * (1 + y * y * d)) (y * y - 1)"
  shows "edwards d v y 1 (v * y)"
proof -
  have "y\<^sup>2 - v\<^sup>2 - (1\<^sup>2 + d * (v * y)\<^sup>2) = y * y - 1 - v\<^sup>2 * (1 + y * y * d)"
    by (simp add: power2_eq_square algebra_simps)
  moreover have "cg (y * y - 1 - v\<^sup>2 * (1 + y * y * d)) (y * y - 1 - (y * y - 1))"
    by (intro cg_diff cg_refl assms)
  ultimately have "cg (y\<^sup>2 - v\<^sup>2) (1\<^sup>2 + d * (v * y)\<^sup>2)" by - (rule cg_zero, simp only: diff_self)
  then show ?thesis by (simp add: edwards_def)
qed

lemma unpackneg_ok:
  assumes "length p = 32" and "unpackneg p = Some q"
  shows "good q" and "gf_val (q ! 1) = lval 256 (map uint p) mod 2 ^ 255" and "gf_val (q ! 2) = 1"
    and "gf_val (q ! 0) mod p25519 = 0 \<or> gf_val (q ! 0) mod p25519 mod 2 \<noteq> uint (drop_bit 7 (p ! 31))"
proof -
  define y where "y = lval 256 (map uint p) mod 2 ^ 255"
  define r1 where "r1 = unpack25519 p"
  define num where "num = Z (S r1) gf1"
  define den where "den = A gf1 (M (S r1) D)"
  have y: "rep 65535 y r1" and y': "gf_val r1 = y"
    using unpack_rep[OF assms(1)] unpack25519_ok(2)[OF assms(1)] by (simp_all add: y_def r1_def)
  have one: "rep 1 1 gf1" by (simp add: rep_def gf_consts)
  have s: "rep 65573 (y * y) (S r1)" unfolding S_def by (rule rep_M[OF y y]) simp_all
  have n: "rep (65573 + 1) (y * y - 1) num" unfolding num_def by (rule rep_Z[OF s one])
  have d: "rep (1 + 65573) (1 + y * y * gf_val D) den"
    unfolding den_def by (rule rep_A[OF one rep_M[OF s rep_self[OF D_ok(1)]]]) simp_all
  define t where "t = M (M (M (S (S den)) (S den)) num) den"
  define r where "r = M (M (M (M (pow2523 t) num) den) den) den"
  define r0 where "r0 = (if neq25519 (M (S r) den) num then M r I else r)"
  define x0 where "x0 = (if par25519 r0 = drop_bit 7 (p ! 31) then Z gf0 r0 else r0)"
  have u: "(if neq25519 (M (S r0) den) num then None else Some [x0, r1, gf1, M x0 r1]) = Some q"
    using assms(2) unfolding unpackneg_def Let_def r1_def[symmetric] set_consts num_def[symmetric] den_def[symmetric]
      t_def[symmetric] r_def[symmetric] r0_def[symmetric] x0_def[symmetric] .
  then have ok: "\<not> neq25519 (M (S r0) den) num" and q: "q = [x0, r1, gf1, M x0 r1]" by (simp_all split: if_splits)
  obtain x1 where x1: "rep 65573 x1 r" using root_rep[OF n d] by (auto simp: r_def t_def)
  have "rep 65573 (x1 * gf_val I) (M r I)" by (rule rep_M[OF x1 rep_self[OF I_limbs]]) simp_all
  then obtain x where x: "rep 65573 x r0" using x1 unfolding r0_def by (cases "neq25519 (M (S r) den) num") auto
  have c: "cg (x\<^sup>2 * (1 + y * y * gf_val D)) (y * y - 1)" using check_ok[OF x d n] ok by simp
  from negate_rep[OF x top_bit[of "p ! 31"], folded x0_def] obtain v where v: "rep 65574 v x0" "v\<^sup>2 = x\<^sup>2"
    and par: "v mod p25519 = 0 \<or> v mod p25519 mod 2 \<noteq> uint (drop_bit 7 (p ! 31))"
    by (elim exE conjE)
  have t: "rep 65573 (v * y) (M x0 r1)" by (rule rep_M[OF v(1) y]) simp_all
  have "edwards (gf_val D) (gf_val x0) (gf_val r1) (gf_val gf1) (gf_val (M x0 r1))"
    using v(1) y t by (intro edwards_cg[OF decoded_curve[OF c[folded v(2)]]]) (simp_all add: rep_def gf_consts)
  then have "on_curve q" by (simp add: on_curve_def q)
  then show "good q" using ptI[OF v(1) y one t] by (simp add: q)
  show "gf_val (q ! 1) = lval 256 (map uint p) mod 2 ^ 255" "gf_val (q ! 2) = 1" using y' by (simp_all add: q y_def gf_consts)
  show "gf_val (q ! 0) mod p25519 = 0 \<or> gf_val (q ! 0) mod p25519 mod 2 \<noteq> uint (drop_bit 7 (p ! 31))"
    using par rep_val[OF v(1)] by (simp add: q)
qed

lemma unpackneg_neutral: "\<exists>q. unpackneg (1 # replicate 31 0) = Some q"
proof -
  let ?p = "1 # replicate 31 0 :: bytes"
  define r1 where "r1 = unpack25519 ?p"
  define num where "num = Z (S r1) gf1"
  define den where "den = A gf1 (M (S r1) D)"
  have y: "rep 65535 1 r1" using unpack_rep[of ?p] by (simp add: r1_def)
  have one: "rep 1 1 gf1" by (simp add: rep_def gf_consts)
  have s: "rep 65573 (1 * 1) (S r1)" unfolding S_def by (rule rep_M[OF y y]) simp_all
  have n: "rep (65573 + 1) (1 * 1 - 1) num" unfolding num_def by (rule rep_Z[OF s one])
  have d: "rep (1 + 65573) (1 + 1 * 1 * gf_val D) den"
    unfolding den_def by (rule rep_A[OF one rep_M[OF s rep_self[OF D_ok(1)]]]) simp_all
  define t where "t = M (M (M (S (S den)) (S den)) num) den"
  define r where "r = M (M (M (M (pow2523 t) num) den) den) den"
  have r: "rep 65573 0 r" using root_rep[OF n d] by (simp add: r_def t_def)
  have "\<not> neq25519 (M (S r) den) num" using check_ok[OF r d n] by simp
  then show ?thesis
    unfolding unpackneg_def Let_def r1_def[symmetric] set_consts num_def[symmetric] den_def[symmetric] t_def[symmetric] r_def[symmetric]
    by simp
qed

section \<open>Properties\<close>



text \<open>
  a public key that unpackneg accepts decodes to a point of the curve: its second coordinate
  is the number in the low 255 bits, it is normalised, and the first coordinate is the root whose
  parity is not the one the key's top bit asks for, the negated point, unless it is zero.
\<close>

theorem unpackneg_decodes:
  assumes "length p = 32" and "unpackneg p = Some q"
  shows "pt q \<and> on_curve q"
    and "gf_val (q ! 1) = lval 256 (map uint p) mod 2 ^ 255 \<and> gf_val (q ! 2) = 1"
    and "gf_val (q ! 0) mod p25519 = 0 \<or> gf_val (q ! 0) mod p25519 mod 2 \<noteq> uint (drop_bit 7 (p ! 31))"
  using unpackneg_ok[OF assms] by blast+

theorem unpackneg_decodes_witness: "\<exists>q. unpackneg (1 # replicate 31 0) = Some q \<and> pt q \<and> on_curve q"
  using unpackneg_neutral unpackneg_decodes(1)[of "1 # replicate 31 0"] by auto

end
