(* ===== verification/Ed25519.thy ===== *)
theory Ed25519
  imports EdPoints Sha512
begin

text \<open>
  Signed messages (\<^verbatim>\<open>crypto_sign\<close> and \<^verbatim>\<open>crypto_sign_open\<close> of \<^verbatim>\<open>kernel/tweetnacl.c\<close>): the hash, the
  scalar reduction and the curve operations put together.  The theorems state the equation that a
  signature satisfies and exactly what the verifier accepts and leaves in the caller's buffer.
\<close>

section \<open>Operations\<close>

text \<open>\<^verbatim>\<open>d[0] &= 248; d[31] &= 127; d[31] |= 64\<close>\<close>

definition clamp :: "bytes \<Rightarrow> bytes" where
  "clamp d =
     (let d = d[0 := d ! 0 AND 248];
          d = d[31 := d ! 31 AND 127]
      in d[31 := d ! 31 OR 64])"

definition sign_sums :: "bytes \<Rightarrow> bytes \<Rightarrow> bytes \<Rightarrow> int list" where
  "sign_sums r h d =
     (let x = map (\<lambda>i. if i < 32 then uint (r ! i) else 0) [0..<64]
      in foldl (\<lambda>x i. foldl (\<lambda>x j. x[i + j := x ! (i + j) + uint (h ! i) * uint (d ! j)]) x [0..<32]) x [0..<32])"

definition crypto_sign :: "bytes \<Rightarrow> bytes \<Rightarrow> u64 \<times> bytes" where
  "crypto_sign m sk =
     (let d = clamp (crypto_hash (take 32 sk));
          sm = replicate 32 0 @ slice 32 32 d @ m;
          r = reduce (crypto_hash (drop 32 sm));
          p = scalarbase r;
          sm = splice 0 (pack p) sm;
          sm = splice 32 (slice 32 32 sk) sm;
          h = reduce (crypto_hash sm)
      in (of_nat (length m + 64), splice 32 (modL (sign_sums r h d)) sm))"

text \<open>
  The verifier writes to the caller's buffer \<open>m\<close>, which has room for the signed message; \<open>- 1\<close> is
  the length it reports when it refuses.
\<close>

definition crypto_sign_open :: "bytes \<Rightarrow> bytes \<Rightarrow> bytes \<Rightarrow> int \<times> u64 \<times> bytes" where
  "crypto_sign_open m sm pk =
     (let n = length sm
      in if n < 64 then (- 1, - 1, m)
         else case unpackneg pk of
           None \<Rightarrow> (- 1, - 1, m)
         | Some q \<Rightarrow>
            let m = splice 0 sm m;
                m = splice 32 (take 32 pk) m;
                h = reduce (crypto_hash (take n m));
                p = scalarmult q h;
                q = scalarbase (slice 32 32 sm);
                p = add p q;
                t = pack p;
                n = n - 64
            in if crypto_verify_32 (take 32 sm) t \<noteq> 0 then (- 1, - 1, splice 0 (replicate n 0) m)
               else (0, of_nat n, splice 0 (drop 64 sm) m))"


section \<open>The sum of products\<close>

lemma sum_row:
  fixes f :: "nat \<Rightarrow> int" and a :: int
  assumes "i + n \<le> length x"
  defines "y \<equiv> foldl (\<lambda>x j. x[i + j := x ! (i + j) + a * f j]) x [0..<n]"
  shows "length y = length x \<and> lval 256 y = lval 256 x + a * 256 ^ i * lval 256 (map f [0..<n])
    \<and> (\<forall>k < length x. y ! k = (if i \<le> k \<and> k < i + n then x ! k + a * f (k - i) else x ! k))"
  using assms(1) unfolding y_def
proof (induction n)
  case (Suc n)
  let ?y = "foldl (\<lambda>x j. x[i + j := x ! (i + j) + a * f j]) x [0..<n]"
  have IH: "length ?y = length x" "lval 256 ?y = lval 256 x + a * 256 ^ i * lval 256 (map f [0..<n])"
    "\<And>k. k < length x \<Longrightarrow> ?y ! k = (if i \<le> k \<and> k < i + n then x ! k + a * f (k - i) else x ! k)"
    using Suc by auto
  have "lval 256 (?y[i + n := ?y ! (i + n) + a * f n]) = lval 256 ?y + a * f n * 256 ^ (i + n)"
    using IH(1) Suc.prems by (subst lval_update) simp_all
  then show ?case using IH Suc.prems by (auto simp: lval_append nth_list_update power_add algebra_simps)
qed simp

lemma sign_rows:
  fixes x :: "int list" and h d :: bytes
  assumes "length x = 64" and "\<And>k. k < 64 \<Longrightarrow> 0 \<le> x ! k \<and> x ! k \<le> 255" and "n \<le> 32"
  defines "y \<equiv> foldl (\<lambda>x i. foldl (\<lambda>x j. x[i + j := x ! (i + j) + uint (h ! i) * uint (d ! j)]) x [0..<32]) x [0..<n]"
  shows "length y = 64 \<and> (\<forall>k < 64. 0 \<le> y ! k \<and> y ! k \<le> 255 + 65025 * int n)
    \<and> lval 256 y = lval 256 x + lval 256 (map (\<lambda>i. uint (h ! i)) [0..<n]) * lval 256 (map (\<lambda>j. uint (d ! j)) [0..<32])"
  using assms(3) unfolding y_def
proof (induction n)
  case (Suc n)
  define y where "y = foldl (\<lambda>x i. foldl (\<lambda>x j. x[i + j := x ! (i + j) + uint (h ! i) * uint (d ! j)]) x [0..<32]) x [0..<n]"
  have IH: "length y = 64" "\<And>k. k < 64 \<Longrightarrow> 0 \<le> y ! k \<and> y ! k \<le> 255 + 65025 * int n"
    "lval 256 y = lval 256 x + lval 256 (map (\<lambda>i. uint (h ! i)) [0..<n]) * lval 256 (map (\<lambda>j. uint (d ! j)) [0..<32])"
    using Suc unfolding y_def by auto
  have p: "0 \<le> uint (h ! n) * uint (d ! j) \<and> uint (h ! n) * uint (d ! j) \<le> 65025" for j
    using mult_mono[of "uint (h ! n)" 255 "uint (d ! j)" 255] uint_bounded[of "h ! n"] uint_bounded[of "d ! j"] by simp
  have l: "n + 32 \<le> length y" using IH(1) Suc.prems by simp
  note R = sum_row[OF l, of "uint (h ! n)" "\<lambda>j. uint (d ! j)"]
  let ?z = "foldl (\<lambda>x j. x[n + j := x ! (n + j) + uint (h ! n) * uint (d ! j)]) y [0..<32]"
  have "0 \<le> ?z ! k \<and> ?z ! k \<le> 255 + 65025 * int (Suc n)" if "k < 64" for k
    using R IH(1) IH(2)[OF that] p[of "k - n"] that by (auto split: if_splits)
  moreover have "lval 256 ?z = lval 256 x + lval 256 (map (\<lambda>i. uint (h ! i)) [0..<Suc n]) * lval 256 (map (\<lambda>j. uint (d ! j)) [0..<32])"
    using R IH(3) by (simp add: lval_append algebra_simps)
  ultimately show ?case using R IH(1) unfolding y_def by simp
qed (use assms(1,2) in simp)

lemma map_uint_take: "n \<le> length b \<Longrightarrow> map (\<lambda>i. uint (b ! i)) [0..<n] = map uint (take n b)"
  by (rule nth_equalityI) simp_all

lemma sign_sums_ok:
  assumes "32 \<le> length r" and "32 \<le> length h" and "32 \<le> length d"
  defines "v b \<equiv> lval 256 (map uint (take 32 b))"
  shows "length (sign_sums r h d) = 64" and "\<forall>k < 64. \<bar>sign_sums r h d ! k\<bar> \<le> 2 ^ 21"
    and "lval 256 (sign_sums r h d) = v r + v h * v d"
proof -
  let ?x = "map (\<lambda>i. if i < 32 then uint (r ! i) else 0) [0..<64]"
  have b: "0 \<le> ?x ! k \<and> ?x ! k \<le> 255" if "k < 64" for k using that uint_bounded[of "r ! k"] by simp
  note R = sign_rows[of ?x 32 h d, OF _ b order_refl]
  have "?x = map uint (take 32 r) @ replicate 32 0"
    using assms(1) by (intro nth_equalityI) (simp_all add: nth_append)
  then have x: "lval 256 ?x = v r" unfolding v_def by (simp only: lval_append lval_replicate0)
  show "length (sign_sums r h d) = 64" and "\<forall>k < 64. \<bar>sign_sums r h d ! k\<bar> \<le> 2 ^ 21"
    and "lval 256 (sign_sums r h d) = v r + v h * v d"
    using R x unfolding sign_sums_def Let_def v_def map_uint_take[OF assms(2)] map_uint_take[OF assms(3)] by force+
qed


section \<open>Signing and opening\<close>

lemma length_clamp [simp]: "length (clamp d) = length d"
  by (simp add: clamp_def Let_def)

lemma length_pack_base [simp]: "length (pack (scalarbase s)) = 32"
  using scalarbase_ok pack_ok(1) by blast

lemma hash_reduced:
  assumes "length m < 2 ^ 64"
  shows "crypto_hash m = sha512 m" and "length (sha512 m) = 64" and "length (reduce (sha512 m)) = 64"
    and "lval 256 (map uint (take 32 (reduce (sha512 m)))) = lval 256 (map uint (sha512 m)) mod ell"
  using crypto_hash_ok[OF assms] reduce_ok[of "sha512 m"] by simp_all

lemma splice_mid: "length a = 32 \<Longrightarrow> length b = 32 \<Longrightarrow> length c = 32 \<Longrightarrow> splice 32 c (a @ b @ m) = a @ c @ m"
  "length a = 32 \<Longrightarrow> length c = 32 \<Longrightarrow> splice 0 c (a @ m) = c @ m"
  by (simp_all add: splice_def)

lemma crypto_sign_layout:
  assumes "length sk = 64" and "length m + 64 < 2 ^ 64"
  defines "d \<equiv> clamp (sha512 (take 32 sk))"
  defines "r \<equiv> reduce (sha512 (slice 32 32 d @ m))"
  defines "Rb \<equiv> pack (scalarbase r)"
  defines "h \<equiv> reduce (sha512 (Rb @ slice 32 32 sk @ m))"
  shows "crypto_sign m sk = (of_nat (length m + 64), Rb @ modL (sign_sums r h d) @ m)"
    and "length (modL (sign_sums r h d)) = 32"
    and "lval 256 (map uint (modL (sign_sums r h d))) =
      (lval 256 (map uint (take 32 r)) + lval 256 (map uint (take 32 h)) * lval 256 (map uint (take 32 d))) mod ell"
proof -
  have "length (take 32 sk) < 2 ^ 64" using assms(1) by simp
  note h0 = hash_reduced[OF this]
  have dl: "length d = 64" and lR: "length Rb = 32" and l3: "length (slice 32 32 d) = 32" "length (slice 32 32 sk) = 32"
    using h0(2) assms(1) by (simp_all add: d_def Rb_def)
  have l1: "length (slice 32 32 d @ m) < 2 ^ 64" and l2: "length (Rb @ slice 32 32 sk @ m) < 2 ^ 64"
    using l3 lR assms(2) by simp_all
  note h1 = hash_reduced[OF l1] and h2 = hash_reduced[OF l2]
  have L: "32 \<le> length r" "32 \<le> length h" "32 \<le> length d" using h1(3) h2(3) dl by (simp_all add: r_def h_def)
  note S = sign_sums_ok[OF L]
  show lm: "length (modL (sign_sums r h d)) = 32" by (rule modL_within(1)[OF S(1,2)])
  show "lval 256 (map uint (modL (sign_sums r h d))) =
      (lval 256 (map uint (take 32 r)) + lval 256 (map uint (take 32 h)) * lval 256 (map uint (take 32 d))) mod ell"
    by (simp only: modL_within(2)[OF S(1,2)] S(3))
  have e1: "splice 0 Rb (replicate 32 0 @ slice 32 32 d @ m) = Rb @ slice 32 32 d @ m" using lR by (simp add: splice_mid)
  have e2: "drop 32 (replicate 32 0 @ slice 32 32 d @ m) = slice 32 32 d @ m" by simp
  show "crypto_sign m sk = (of_nat (length m + 64), Rb @ modL (sign_sums r h d) @ m)"
    unfolding crypto_sign_def Let_def h0(1) d_def[symmetric] e2 h1(1) r_def[symmetric] Rb_def[symmetric] e1
      splice_mid(1)[OF lR l3] h2(1) h_def[symmetric] splice_mid(1)[OF lR l3(2) lm] ..
qed

lemma open_parts:
  assumes "64 \<le> length sm" and "length pk = 32" and "length m = length sm"
  shows "take (length sm) (splice 32 (take 32 pk) (splice 0 sm m)) = take 32 sm @ pk @ drop 64 sm"
    and "splice 0 (drop 64 sm) (splice 32 (take 32 pk) (splice 0 sm m)) = drop 64 sm @ drop (length sm - 64) (take 32 sm @ pk @ drop 64 sm)"
  using assms by (simp_all add: splice_def)

lemma open_decides:
  assumes "64 \<le> length sm" and "length pk = 32" and "length m = length sm" and "length sm < 2 ^ 64" and q: "unpackneg pk = Some q"
  defines "Rp \<equiv> pack (add (scalarmult q (reduce (sha512 (take 32 sm @ pk @ drop 64 sm)))) (scalarbase (slice 32 32 sm)))"
  shows "crypto_sign_open m sm pk =
    (if take 32 sm = Rp then (0, of_nat (length sm - 64), drop 64 sm @ drop (length sm - 64) (take 32 sm @ pk @ drop 64 sm))
     else (- 1, - 1, splice 0 (replicate (length sm - 64) 0) (splice 32 (take 32 pk) (splice 0 sm m))))"
proof -
  have "length (take 32 sm @ pk @ drop 64 sm) < 2 ^ 64" using assms(1,2,4) by simp
  then have h: "crypto_hash (take 32 sm @ pk @ drop 64 sm) = sha512 (take 32 sm @ pk @ drop 64 sm)" by (rule hash_reduced(1))
  have "good (scalarmult q s)" for s by (rule scalarmult_ok(1)[OF unpackneg_ok(1)[OF assms(2) q]])
  then have "length Rp = 32"
    unfolding Rp_def using scalarbase_ok add_curve by (intro pack_ok(1)) blast
  then have v: "crypto_verify_32 (take 32 sm) Rp \<noteq> 0 \<longleftrightarrow> take 32 sm \<noteq> Rp"
    using verify_32_iff[of "take 32 sm" Rp] assms(1) by simp
  have n: "\<not> length sm < 64" using assms(1) by simp
  show ?thesis
    unfolding crypto_sign_open_def Let_def q option.case open_parts[OF assms(1-3)] h Rp_def[symmetric] v
    using n by simp
qed

lemma open_result:
  assumes "length pk = 32" and "length m = length sm" and "length sm < 2 ^ 64"
  defines "ok \<equiv> 64 \<le> length sm \<and> (\<exists>q. unpackneg pk = Some q \<and> take 32 sm =
      pack (add (scalarmult q (reduce (sha512 (take 32 sm @ pk @ drop 64 sm)))) (scalarbase (slice 32 32 sm))))"
  obtains "ok" and "crypto_sign_open m sm pk = (0, of_nat (length sm - 64), drop 64 sm @ drop (length sm - 64) (take 32 sm @ pk @ drop 64 sm))"
    | b where "\<not> ok" and "crypto_sign_open m sm pk = (- 1, - 1, b)" and "b = m \<or> take (length sm - 64) b = replicate (length sm - 64) 0"
proof (cases "64 \<le> length sm")
  case False
  then have "crypto_sign_open m sm pk = (- 1, - 1, m)" by (simp add: crypto_sign_open_def)
  then show ?thesis using that(2) False unfolding ok_def by blast
next
  case True
  show ?thesis
  proof (cases "unpackneg pk")
    case None
    then have "crypto_sign_open m sm pk = (- 1, - 1, m)" by (simp add: crypto_sign_open_def Let_def)
    then show ?thesis using that(2) None unfolding ok_def by simp
  next
    case (Some q)
    note D = open_decides[OF True assms(1-3) Some]
    show ?thesis
    proof (cases "take 32 sm = pack (add (scalarmult q (reduce (sha512 (take 32 sm @ pk @ drop 64 sm)))) (scalarbase (slice 32 32 sm)))")
      case acc: True
      have "ok" using True Some acc unfolding ok_def by blast
      then show ?thesis using D unfolding if_P[OF acc] by (rule that(1))
    next
      case False
      have "\<not> ok" using False Some unfolding ok_def by simp
      then show ?thesis using D unfolding if_not_P[OF False] by (rule that(2)) (simp add: splice_def)
    qed
  qed
qed

section \<open>Properties\<close>

text \<open>
  C19: the signed message is the nonce point, the scalar and the message itself, and the scalar is
  the canonical residue of r + h a modulo the group order, where a is the clamped half of the
  hashed secret key, r the hash of the other half and the message, and h the hash of the nonce
  point, the public key and the message.
\<close>

theorem crypto_sign_equation:
  assumes "length sk = 64" and "length m + 64 < 2 ^ 64"
  defines "d \<equiv> clamp (sha512 (take 32 sk))"
  defines "Rb \<equiv> pack (scalarbase (reduce (sha512 (slice 32 32 d @ m))))"
  defines "sm \<equiv> snd (crypto_sign m sk)"
  shows "(take 32 sm = Rb \<and> drop 64 sm = m \<and> length sm = length m + 64 \<and> fst (crypto_sign m sk) = of_nat (length sm)) \<and>
    lval 256 (map uint (slice 32 32 sm)) =
      (lval 256 (map uint (sha512 (slice 32 32 d @ m)))
        + lval 256 (map uint (sha512 (Rb @ slice 32 32 sk @ m))) * lval 256 (map uint (take 32 d))) mod ell"
proof (rule conjI)
  note Lay = crypto_sign_layout[OF assms(1,2), folded d_def, folded Rb_def]
  let ?S = "modL (sign_sums (reduce (sha512 (slice 32 32 d @ m))) (reduce (sha512 (Rb @ slice 32 32 sk @ m))) d)"
  have lR: "length Rb = 32" by (simp add: Rb_def)
  have sm: "sm = Rb @ ?S @ m" by (simp add: sm_def Lay(1))
  show "take 32 sm = Rb \<and> drop 64 sm = m \<and> length sm = length m + 64 \<and> fst (crypto_sign m sk) = of_nat (length sm)"
    using lR Lay(2) by (simp add: sm Lay(1))
  have "length (take 32 sk) < 2 ^ 64" using assms(1) by simp
  then have "length (slice 32 32 d @ m) < 2 ^ 64" "length (Rb @ slice 32 32 sk @ m) < 2 ^ 64"
    using assms(1,2) lR hash_reduced(2)[of "take 32 sk"] by (simp_all add: d_def)
  note h = this[THEN hash_reduced(4)]
  have "slice 32 32 sm = ?S" using lR Lay(2) by (simp add: sm slice_def)
  then show "lval 256 (map uint (slice 32 32 sm)) =
      (lval 256 (map uint (sha512 (slice 32 32 d @ m)))
        + lval 256 (map uint (sha512 (Rb @ slice 32 32 sk @ m))) * lval 256 (map uint (take 32 d))) mod ell"
    by (simp only: Lay(3) h) (intro mod_add_cong mod_mult_cong; simp)
qed

theorem crypto_sign_equation_witness:
  "length (snd (crypto_sign [1, 2, 3] (replicate 64 9))) = 67 \<and> drop 64 (snd (crypto_sign [1, 2, 3] (replicate 64 9))) = [1, 2, 3]"
  using crypto_sign_equation[of "replicate 64 9" "[1, 2, 3]"] by simp



end
