(* ===== verification/SignedMigration.thy ===== *)
theory SignedMigration
  imports Migration Ed25519
begin

text \<open>
  The migration gates of \<^verbatim>\<open>kernel/nettest.c\<close> on the verifier of \<^verbatim>\<open>kernel/tweetnacl.c\<close>: \<open>ed_open\<close> is
  the call \<^verbatim>\<open>crypto_sign_open(recovered, &rlen, signed_msg, n, pk)\<close> with its test and the recovered
  bytes, and the property is the acceptance condition of the composed gate, down to the curve.
\<close>

definition ed_open :: "bytes \<Rightarrow> bytes \<Rightarrow> bytes option" where
  "ed_open signed_msg pk =
     (case crypto_sign_open (replicate (length signed_msg) 0) signed_msg pk of
        (rc, rlen, recovered) \<Rightarrow> if rc \<noteq> 0 then None else Some (take (unat rlen) recovered))"

text \<open>The point that the first half of a signature has to encode.\<close>

definition nonce_point :: "point \<Rightarrow> bytes \<Rightarrow> bytes \<Rightarrow> point" where
  "nonce_point q pk sm =
     add (scalarmult q (reduce (sha512 (take 32 sm @ pk @ drop 64 sm)))) (scalarbase (slice 32 32 sm))"

lemma ed_open_iff:
  assumes "length pk = 32" and "length sm < 2 ^ 64"
  shows "ed_open sm pk = Some m \<longleftrightarrow>
    64 \<le> length sm \<and> m = drop 64 sm \<and> (\<exists>q. unpackneg pk = Some q \<and> take 32 sm = pack (nonce_point q pk sm))"
proof -
  have l: "length (replicate (length sm) 0 :: bytes) = length sm" by simp
  have u: "unat (of_nat (length sm - 64) :: u64) = length sm - 64"
    using assms(2) by (simp add: unat_of_nat)
  show ?thesis
  proof (rule open_result[OF assms(1) l assms(2), folded nonce_point_def], goal_cases)
    case 1
    then show ?case using u by (auto simp: ed_open_def)
  next
    case (2 b)
    then show ?case by (auto simp: ed_open_def)
  qed
qed

section \<open>Property\<close>



end
