(* ===== verification/Spec2Isabelle.thy ===== *)
theory Spec2Isabelle
  imports Prelude Cap_Types SwCap CheriCap ObjectStore EpochTree Sls GateIR GateExec GateOpt WasmFrontend Migration MerkleSync PhysMem Residency Blake3 Blake3Tree DurableLog PageFault Loader Userland VersionedGate CanonForm ContentFS Gf25519 Sha512 ScalarL EdPoints Ed25519 SignedMigration
begin

text \<open>
  A verification library for CARMIX, a kernel whose objects, pages, processes and authority are
  named by the BLAKE3 hash of their bytes.  This theory imports every other one; each of them opens
  with a description of what it holds.

  \<^bold>\<open>The program.\<close>  A capability is a window of memory with permissions.  To leave a machine it is
  stripped to a position-independent reference (PIR) that names its object by hash, and a gate on
  the other side re-mints it from a region that already carries the authority, or refuses.  Objects
  live in a content-addressed store; memories and object graphs are summarised by Merkle trees over
  it.  Foreign code runs as a small stack program that a checker admits.  Around this core the
  kernel has page tables, a bounded pool of frames that are filled by hash on a page fault, a log on
  disk, a loader, system calls, a file system, and two-machine protocols that transfer Merkle trees
  and signed authorisations.

  \<^bold>\<open>Theories and sources.\<close>  Operations keep the names of the C functions; a struct is a record, an
  enumeration a datatype, a machine integer a word of its width, an array a list with the
  capacity of the array, an error code a constructor of the status type, a null pointer \<open>None\<close>.

  \<^item> Prelude: words, byte codecs, array copies and the lemmas on them that the others share.
  \<^item> Cap_Types (\<^verbatim>\<open>cap/cvsasx_pir.h\<close>, \<^verbatim>\<open>cap/cvsasx_cap.h\<close>): permissions, PIR, status codes, and the
    locale \<open>remint_gate\<close>: what any re-mint gate promises.  SwCap (\<^verbatim>\<open>carmix/swcap.c\<close>) and CheriCap
    (\<^verbatim>\<open>cap/cap_strip.c\<close>, \<^verbatim>\<open>cap/cap_custodian.c\<close>) are the two backends: strip, re-mint, access.  Both
    interpret the locale: authority is never amplified, refusals are fail-closed, stripping and
    re-minting gives the window back, and the two gates agree on an exact instruction set.
  \<^item> ObjectStore (\<^verbatim>\<open>store/object_store.c\<close>): \<open>cvsasx_store_put\<close>, \<open>get\<close> and the open-addressing index;
    it refines a finite map that only grows (locale \<open>content_store\<close>, which extends \<open>hash_fn\<close>).
    EpochTree (\<^verbatim>\<open>store/epoch_tree.c\<close>): the incremental root is the full one.  Sls (\<^verbatim>\<open>sls/sls.c\<close>): object
    graphs and their structural difference.  Blake3 and Blake3Tree (\<^verbatim>\<open>store/blake3\<close>): the incremental
    hasher computes the tree hash, and the digest interprets \<open>hash_fn\<close>.
  \<^item> GateIR (\<^verbatim>\<open>gate/sfi_checker.c\<close>, \<^verbatim>\<open>carmix/backend_sw_gate.c\<close>), GateExec (\<^verbatim>\<open>gate/executor.c\<close>), GateOpt
    (\<^verbatim>\<open>gate/optimize.c\<close>), WasmFrontend (\<^verbatim>\<open>gate/wasm_frontend.c\<close>): a checked module never leaves its
    stack, locals and memory on any backend of the locale \<open>bounded_memory\<close>; the optimiser keeps its
    behaviour; what the front end accepts goes through the checker and runs.
  \<^item> PhysMem, Residency, PageFault, Loader, Userland, VersionedGate, CanonForm, ContentFS, DurableLog
    (\<^verbatim>\<open>kernel/kernel.c\<close>): frames and page tables (locale \<open>frame_pool\<close>, for the boot allocator and for
    the residency pool); materialisation by hash and eviction; the page-fault handler and the heap
    (locale \<open>bump_pool\<close>, for the heap and for the user pool); the ELF parser and loader; capability
    spaces, system calls, spawn and revocation; the two-buffer capability slot; canonical names of
    object graphs; directories, reference counts and reclamation; the log, its recovery and the
    scoped deduplication.
  \<^item> Migration and MerkleSync (\<^verbatim>\<open>kernel/nettest.c\<close>): the authorisation gates with single-use nonces
    (locale \<open>nonce_gate\<close>, for two gates), key lifecycle, authority sets, attestation, and the pull
    of a Merkle tree from a peer.
  \<^item> Gf25519, Sha512, ScalarL, EdPoints, Ed25519 (\<^verbatim>\<open>kernel/tweetnacl.c\<close>): the field, the hash, the
    scalars, the points and the signatures; SignedMigration puts the verifier into the migration gate.

  \<^bold>\<open>How the parts meet.\<close>  The store, Sls, the page-fault handler, the loader, the file system and the
  log take the digest as a parameter and use only the laws of \<open>hash_fn\<close>; Blake3Tree supplies it.  The
  fault handler composes the page tables with the residency pool and the store.  The system calls,
  VersionedGate and Migration call the software gate of SwCap.  CanonForm and ContentFS count in the
  table of DurableLog.  SignedMigration composes Migration with Ed25519.

  \<^bold>\<open>What the theorems show.\<close>  Safety: no amplification of authority by any gate, system call, spawn or
  migration; isolation of checked code; no double allocation of frames; eviction and crashes lose
  nothing that was committed; untrusted peers, disks and images cannot make unverified bytes pass.
  Function: exact acceptance conditions of the gates, the effect of mapping a page, of a page fault,
  of loading, of signing and verifying.  Equivalence and refinement: incremental and full hashes and
  roots, SHA-512 and its standard, the optimiser, the store and a map, the trust store and its log.
  Termination and bounds: canonical names, the front end, transfer, carries and limbs.

  \<^bold>\<open>Bounds and fuel.\<close>  The executor's fuel is the number of steps; the theorems give an amount that
  suffices.  \<open>cv_canon\<close> recurses at most \<open>CV_MAXNODE\<close> deep on an acyclic pool and \<open>cfs_unref\<close> one more
  than \<open>CFS_MAXOBJ\<close>; the difference of object graphs has the depth limit of the code; the transfer
  loop has a proved bound for an honest peer and none for others, who can keep it busy.  The rounding
  loop of the epoch tree is a partial function because it does not end for more than \<open>2 ^ 31\<close> chunks.
  Limbs of field elements are integers; that products of limbs below \<open>2 ^ 25\<close> stay within 64 bits is
  proved, and \<open>modL\<close> wraps explicitly.

  \<^bold>\<open>Parameters.\<close>  CHERI instructions and the constants of \<^verbatim>\<open>cheriintrin.h\<close> (a record, with an exact
  instance), the digest where only its laws matter, the peer of a transfer, the address of the
  re-mint arena.

  \<^bold>\<open>Not modelled.\<close>  Boot, interrupt and console code, device drivers and the transports behind them
  (device protocols and privileged instructions), processor start-up, context switch and assembly, the
  task and system roots that serialise live machine state, the demonstration and measurement runs
  (sequences of modelled calls with printing), the CHERI gate and object backends (builds for hardware
  that needs the compiler's capability types), the parts of \<^verbatim>\<open>tweetnacl.c\<close> that nothing calls, and
  generated data.  Cycle counters, messages and TLB invalidation are left out of what is modelled.
  That a produced signature verifies needs the group law of the curve and the order of its base point
  and is not stated.
\<close>

end
